(* ===== verification/Kprelude.thy ===== *)
theory Kprelude
  imports Main "HOL-Library.Word" "HOL-Library.Monad_Syntax"
begin

text \<open>
  Shared vocabulary of the development: the machine types of the 32-bit MIPS
  kernel, the error numbers of kern/errno.h that the modelled code returns, the
  treatment of panics and failed assertions, and the generic facts on lists,
  options and words that the component theories use.

  A kernel function that can panic, fail a KASSERT or touch memory that C leaves
  undefined (an index outside an array, a NULL or uninitialised pointer) returns
  an option: None is the halt, Some carries the returned value and the new state.
  An error number is a value of the sum type (Inl the number, Inr the result).
\<close>

unbundle bit_operations_syntax

type_synonym u8 = "8 word"
type_synonym u16 = "16 word"
type_synonym u32 = "32 word"
type_synonym u64 = "64 word"
type_synonym vaddr_t = u32
type_synonym paddr_t = u32

text \<open>A NULL-able pointer to a kernel object; objects are numbered.\<close>

type_synonym ptr = "nat option"

abbreviation (input) NULL :: ptr where "NULL \<equiv> None"

datatype errno = ENOSYS | ENOMEM | EAGAIN | EFAULT | ENAMETOOLONG | EINVAL
  | ENOTDIR | EISDIR | EEXIST | ENOENT | ENOTEMPTY | EBUSY | EXDEV | ENODEV
  | ENXIO | EIO | ENOSPC | EFBIG | ENOEXEC | EBADF | EUNIMP

text \<open>The int that a C function returns: 0 (None) or an error number.\<close>

type_synonym status = "errno option"

lemma option_eqI: "(\<And>y. x = Some y \<longleftrightarrow> z = Some y) \<Longrightarrow> x = z"
  by (cases x; cases z) auto

text \<open>The halt of KASSERT: nothing to return when it holds, no state when it does not.\<close>

definition kassert :: "bool \<Rightarrow> unit option" where
  "kassert b = (if b then Some () else None)"

lemma kassert_True [simp]: "kassert True = Some ()"
  by (simp add: kassert_def)

lemma kassert_eq_Some [simp]: "kassert b = Some u \<longleftrightarrow> b"
  by (simp add: kassert_def)

lemma kassert_bind [simp]: "Option.bind (kassert b) f = (if b then f () else None)"
  by (simp add: kassert_def)

lemma bind_pair_Some [simp]:
  "Option.bind x (\<lambda>(a, b). f a b) = Some y \<longleftrightarrow> (\<exists>a b. x = Some (a, b) \<and> f a b = Some y)"
  by (cases x) auto

named_theorems arr_simps \<open>array reads and writes and the loops over them\<close>
named_theorems addr_simps \<open>addresses, frame numbers and page offsets\<close>

subsection \<open>Constants of arch/mips/include/vm.h\<close>

abbreviation (input) PAGE_SIZE :: u32 where "PAGE_SIZE \<equiv> 4096"
abbreviation (input) PAGE_FRAME :: u32 where "PAGE_FRAME \<equiv> 0xfffff000"
abbreviation (input) PAGE_BYTES :: nat where "PAGE_BYTES \<equiv> 4096"
abbreviation (input) MIPS_KSEG0 :: u32 where "MIPS_KSEG0 \<equiv> 0x80000000"
abbreviation (input) MIPS_KSEG1 :: u32 where "MIPS_KSEG1 \<equiv> 0xa0000000"
abbreviation (input) USERSPACETOP :: u32 where "USERSPACETOP \<equiv> MIPS_KSEG0"
abbreviation (input) USERSTACK :: u32 where "USERSTACK \<equiv> USERSPACETOP"

definition PADDR_TO_KVADDR :: "paddr_t \<Rightarrow> vaddr_t" where
  "PADDR_TO_KVADDR p = p + MIPS_KSEG0"

subsection \<open>Arrays\<close>

text \<open>C arrays are lists; a read or a write outside the array is a halt.\<close>

definition arr_get :: "'a list \<Rightarrow> nat \<Rightarrow> 'a option" where
  "arr_get xs i = (if i < length xs then Some (xs ! i) else None)"

definition arr_set :: "'a list \<Rightarrow> nat \<Rightarrow> 'a \<Rightarrow> 'a list option" where
  "arr_set xs i x = (if i < length xs then Some (xs[i := x]) else None)"

lemma arr_get_eq_Some [arr_simps]: "arr_get xs i = Some x \<longleftrightarrow> i < length xs \<and> x = xs ! i"
  by (auto simp: arr_get_def)

lemma arr_get_in [simp]: "i < length xs \<Longrightarrow> arr_get xs i = Some (xs ! i)"
  by (simp add: arr_get_def)

lemma arr_get_out [simp]: "length xs \<le> i \<Longrightarrow> arr_get xs i = None"
  by (simp add: arr_get_def)

lemma arr_set_eq_Some [arr_simps]:
  "arr_set xs i x = Some ys \<longleftrightarrow> i < length xs \<and> ys = xs[i := x]"
  by (auto simp: arr_set_def)

lemma arr_set_in [simp]: "i < length xs \<Longrightarrow> arr_set xs i x = Some (xs[i := x])"
  by (simp add: arr_set_def)

lemma arr_set_out [simp]: "length xs \<le> i \<Longrightarrow> arr_set xs i x = None"
  by (simp add: arr_set_def)

text \<open>The linear search for the first element that satisfies a test.\<close>

primrec find_idx :: "('a \<Rightarrow> bool) \<Rightarrow> 'a list \<Rightarrow> nat option" where
  "find_idx P [] = None"
| "find_idx P (x # xs) = (if P x then Some 0 else map_option Suc (find_idx P xs))"

lemma find_idx_None: "find_idx P xs = None \<longleftrightarrow> (\<forall>x \<in> set xs. \<not> P x)"
  by (induction xs) auto

lemma find_idx_Some:
  "find_idx P xs = Some i \<longleftrightarrow> i < length xs \<and> P (xs ! i) \<and> (\<forall>j < i. \<not> P (xs ! j))"
proof (induction xs arbitrary: i)
  case Nil
  then show ?case by simp
next
  case (Cons x xs)
  show ?case
  proof (cases i)
    case 0
    then show ?thesis by auto
  next
    case (Suc k)
    then show ?thesis using Cons.IH [of k] by (auto simp: less_Suc_eq_0_disj)
  qed
qed

lemma find_idx_lt: "find_idx P xs = Some i \<Longrightarrow> i < length xs"
  by (simp add: find_idx_Some)

lemma find_idx_sat: "find_idx P xs = Some i \<Longrightarrow> P (xs ! i)"
  by (simp add: find_idx_Some)

lemma find_idx_ex: "i < length xs \<Longrightarrow> P (xs ! i) \<Longrightarrow> \<exists>j \<le> i. find_idx P xs = Some j"
  by (metis find_idx_None find_idx_Some leI nth_mem option.exhaust)

lemma find_idx_update_same:
  "i < length xs \<Longrightarrow> \<not> P (xs ! i) \<Longrightarrow> \<not> P e \<Longrightarrow> find_idx P (xs[i := e]) = find_idx P xs"
proof (induction xs arbitrary: i)
  case Nil
  then show ?case by simp
next
  case (Cons x xs)
  then show ?case by (cases i) simp_all
qed

text \<open>The loop that updates the elements from index lo to index lo + n - 1 in turn.\<close>

primrec upd_range :: "(nat \<Rightarrow> 'a \<Rightarrow> 'a) \<Rightarrow> nat \<Rightarrow> nat \<Rightarrow> 'a list \<Rightarrow> 'a list" where
  "upd_range f lo 0 xs = xs"
| "upd_range f lo (Suc n) xs = (upd_range f lo n xs)[lo + n := f (lo + n) (upd_range f lo n xs ! (lo + n))]"

lemma length_upd_range [simp]: "length (upd_range f lo n xs) = length xs"
  by (induction n) auto

lemma nth_upd_range [arr_simps]:
  "i < length xs \<Longrightarrow>
   upd_range f lo n xs ! i = (if lo \<le> i \<and> i < lo + n then f i (xs ! i) else xs ! i)"
proof (induction n)
  case 0
  then show ?case by auto
next
  case (Suc n)
  then show ?case by (cases "i = lo + n") (auto simp: nth_list_update)
qed

lemma upd_range_in [simp]:
  "i < length xs \<Longrightarrow> lo \<le> i \<Longrightarrow> i < lo + n \<Longrightarrow> upd_range f lo n xs ! i = f i (xs ! i)"
  by (simp add: nth_upd_range)

lemma upd_range_out [simp]:
  "i < length xs \<Longrightarrow> i < lo \<or> lo + n \<le> i \<Longrightarrow> upd_range f lo n xs ! i = xs ! i"
  by (auto simp: nth_upd_range)

lemma list_all_nth: "(\<forall>x \<in> set xs. P x) \<longleftrightarrow> (\<forall>i < length xs. P (xs ! i))"
  by (metis in_set_conv_nth)

lemma list_ex_nth: "(\<exists>x \<in> set xs. P x) \<longleftrightarrow> (\<exists>i < length xs. P (xs ! i))"
  by (metis in_set_conv_nth)

subsection \<open>Words\<close>

lemma unat_of_nat_le: "n < 2 ^ LENGTH('a) \<Longrightarrow> unat (of_nat n :: 'a::len word) = n"
  by (simp add: unat_of_nat take_bit_nat_eq_self)

lemma unat_of_nat_u32 [addr_simps]: "n < 4294967296 \<Longrightarrow> unat (of_nat n :: u32) = n"
  by (rule unat_of_nat_le) simp

lemma unat_u32_lt [addr_simps]: "unat (x :: u32) < 4294967296"
proof -
  have "unat x < 2 ^ LENGTH(32)" by (rule unsigned_less)
  then show ?thesis by simp
qed

lemma unat_add_u32 [addr_simps]:
  "unat a + unat b < 4294967296 \<Longrightarrow> unat (a + b :: u32) = unat a + unat b"
  by (simp add: unat_word_ariths)

lemma unat_mult_u32 [addr_simps]:
  "unat a * unat b < 4294967296 \<Longrightarrow> unat (a * b :: u32) = unat a * unat b"
  by (simp add: unat_word_ariths)

lemma unat_sub_u32 [addr_simps]: "b \<le> a \<Longrightarrow> unat (a - b :: u32) = unat a - unat b"
  by (rule unat_sub)

lemma word_plus_one_neq: "(x :: u32) + 1 \<noteq> x"
  by simp

subsection \<open>Page numbers and offsets\<close>

lemma unat_mod_u32 [addr_simps]: "unat (x mod y :: u32) = unat x mod unat y"
  by (rule unat_mod)
lemma unat_div_u32 [addr_simps]: "unat (x div y :: u32) = unat x div unat y"
  by (rule unat_div)

lemma not_page_frame [simp]: "- 4294963201 = (0xfff :: u32)"
  by code_simp

lemma page_off_unat: "unat (x AND 0xfff :: u32) = unat x mod 4096"
proof -
  have "(0xfff :: u32) = mask 12" by (simp add: mask_eq_exp_minus_1)
  then have "x AND 0xfff = take_bit 12 x" by (simp add: take_bit_eq_mask)
  then have "x AND 0xfff = x mod 4096" by (simp add: take_bit_eq_mod)
  then show ?thesis by (simp add: unat_mod_u32)
qed

lemma page_frame_shift: "x AND PAGE_FRAME = push_bit 12 (drop_bit 12 (x :: u32))"
proof -
  have m: "(0xfffff000 :: u32) = NOT (mask 12)" by (simp add: mask_eq_exp_minus_1)
  show ?thesis unfolding m
    by (auto intro!: bit_eqI simp: bit_and_iff bit_not_iff bit_mask_iff bit_push_bit_iff bit_drop_bit_eq)
qed

lemma page_frame_unat: "unat (x AND PAGE_FRAME :: u32) = unat x - unat x mod 4096"
proof -
  have "unat x div 4096 * 4096 < 4294967296"
    using unat_u32_lt [of x] by (meson div_times_less_eq_dividend le_less_trans)
  then show ?thesis
    by (simp add: page_frame_shift push_bit_eq_mult drop_bit_eq_div unat_word_ariths unat_div_u32
        minus_mod_eq_div_mult mult.commute)
qed

lemma page_frame_id: "x AND PAGE_FRAME = x \<longleftrightarrow> 4096 dvd unat (x :: u32)"
proof -
  have "x AND PAGE_FRAME = x \<longleftrightarrow> unat x - unat x mod 4096 = unat x"
    by (metis page_frame_unat word_unat_eq_iff)
  also have "\<dots> \<longleftrightarrow> unat x mod 4096 = 0"
    using mod_less_eq_dividend [of "unat x" 4096] by linarith
  finally show ?thesis by (simp add: dvd_eq_mod_eq_0)
qed

lemma page_frame_idem [simp]: "(x AND PAGE_FRAME) AND PAGE_FRAME = x AND PAGE_FRAME"
  by (simp add: and.assoc)

end
