(* ===== verification/Coremap.thy ===== *)
theory Coremap
  imports Kprelude
begin

text \<open>
  The coremap of kern/vm/coremap.c: one entry per physical frame that the VM
  system manages, and the operations on it. Every operation of the source runs
  between spinlock_acquire and spinlock_release of cm_lock, so each is one atomic
  function on the state. The array is the list cm_entries; the static ram_frames
  is its length, which cm_bootstrap fixes once.

  The lemmas show what each operation does to the frame table, the invariant
  cm_wf that all of them keep, that the searches are first fit and first in first
  out, and that the table refines an abstract map from frames to owners.
\<close>

subsection \<open>State\<close>

datatype frame_state = FREE | FIXED | LOADING | CLEAN

record cm_entry =
  cme_as :: ptr
  cme_vaddr :: vaddr_t
  cme_state :: frame_state
  cme_npages :: nat
  cme_ts :: u32

record cmap =
  cm_firstpaddr :: paddr_t
  cm_lastpaddr :: paddr_t
  cm_timestamp :: u32
  cm_bootstrapped :: bool
  cm_entries :: "cm_entry list"

abbreviation ram_frames :: "cmap \<Rightarrow> nat" where
  "ram_frames c \<equiv> length (cm_entries c)"

text \<open>The physical address of a frame and the index of a physical address.\<close>

definition frame_paddr :: "cmap \<Rightarrow> nat \<Rightarrow> paddr_t" where
  "frame_paddr c i = cm_firstpaddr c + of_nat i * PAGE_SIZE"

definition frame_pos :: "cmap \<Rightarrow> paddr_t \<Rightarrow> nat" where
  "frame_pos c p = unat ((p - cm_firstpaddr c) div PAGE_SIZE)"

definition free_entry :: "cm_entry \<Rightarrow> cm_entry" where
  "free_entry e = e\<lparr>cme_state := FREE, cme_npages := 0, cme_vaddr := 0, cme_ts := -1\<rparr>"

subsection \<open>Bootstrap\<close>

text \<open>
  sizeof(cm_entry) is 20 bytes. The loop marks FIXED the frames up to index
  space/PAGE_SIZE, where the array itself lives, and FREE the others.
\<close>

definition sizeof_cm_entry :: nat where "sizeof_cm_entry = 20"

primrec boot_loop :: "nat \<Rightarrow> nat \<Rightarrow> nat \<Rightarrow> u32 \<Rightarrow> cm_entry list \<times> u32" where
  "boot_loop kend i 0 ts = ([], ts)"
| "boot_loop kend i (Suc m) ts =
     (if i \<le> kend
      then (let (es, ts') = boot_loop kend (Suc i) m (ts + 1)
            in (\<lparr>cme_as = NULL, cme_vaddr = 0, cme_state = FIXED, cme_npages = 0, cme_ts = ts\<rparr> # es, ts'))
      else (let (es, ts') = boot_loop kend (Suc i) m ts
            in (\<lparr>cme_as = NULL, cme_vaddr = 0, cme_state = FREE, cme_npages = 0, cme_ts = -1\<rparr> # es, ts')))"

definition cm_bootstrap :: "paddr_t \<Rightarrow> paddr_t \<Rightarrow> bool \<Rightarrow> cmap option" where
  "cm_bootstrap ramsize firstfree kmalloc_ok = do {
     let n = unat ((ramsize - firstfree) div PAGE_SIZE);
     let space = n * sizeof_cm_entry;
     kassert kmalloc_ok;
     let (es, ts) = boot_loop (space div PAGE_BYTES) 0 n 0;
     Some \<lparr>cm_firstpaddr = firstfree, cm_lastpaddr = ramsize, cm_timestamp = ts,
           cm_bootstrapped = True, cm_entries = es\<rparr>
   }"

definition NUM_FREEFRAMES_TEST :: nat where "NUM_FREEFRAMES_TEST = 17"

definition cm_bootstrap_4test :: "paddr_t \<Rightarrow> paddr_t \<Rightarrow> bool \<Rightarrow> cmap option" where
  "cm_bootstrap_4test ramsize firstfree kmalloc_ok = do {
     let n = unat ((ramsize - firstfree) div PAGE_SIZE);
     kassert kmalloc_ok;
     let (es, ts) = boot_loop n 0 n 0;
     let es' = (if NUM_FREEFRAMES_TEST \<le> n
                then upd_range (\<lambda>i e. e\<lparr>cme_state := FREE\<rparr>) (n - NUM_FREEFRAMES_TEST) NUM_FREEFRAMES_TEST es
                else es);
     Some \<lparr>cm_firstpaddr = firstfree, cm_lastpaddr = ramsize, cm_timestamp = ts,
           cm_bootstrapped = True, cm_entries = es'\<rparr>
   }"

definition is_bootstrapped :: "cmap \<Rightarrow> bool" where
  "is_bootstrapped c = cm_bootstrapped c"

subsection \<open>Kernel frames\<close>

function kalloc_scan :: "cm_entry list \<Rightarrow> nat \<Rightarrow> nat \<Rightarrow> nat \<Rightarrow> nat option" where
  "kalloc_scan es nframes i first =
     (if i < length es
      then if cme_state (es ! i) = FREE
           then let first' = (if i = 0 \<or> cme_state (es ! (i - 1)) \<noteq> FREE then i else first)
                in if nframes \<le> i - first' + 1 then Some first'
                   else kalloc_scan es nframes (Suc i) first'
           else kalloc_scan es nframes (Suc i) first
      else None)"
  by pat_completeness auto
termination
  by (relation "measure (\<lambda>(es, _, i, _). length es - i)") auto

declare kalloc_scan.simps [simp del]

definition kalloc_mark :: "cmap \<Rightarrow> nat \<Rightarrow> nat \<Rightarrow> nat \<Rightarrow> cm_entry \<Rightarrow> cm_entry" where
  "kalloc_mark c nframes first i e =
     (if i = first then e\<lparr>cme_npages := nframes\<rparr> else e)
       \<lparr>cme_state := FIXED, cme_as := NULL, cme_vaddr := PADDR_TO_KVADDR (frame_paddr c i),
        cme_ts := cm_timestamp c\<rparr>"

definition frame_kalloc :: "nat \<Rightarrow> cmap \<Rightarrow> paddr_t \<times> cmap" where
  "frame_kalloc nframes c =
     (case kalloc_scan (cm_entries c) nframes 0 0 of
        None \<Rightarrow> (0, c)
      | Some first \<Rightarrow>
          (frame_paddr c first,
           c\<lparr>cm_entries := upd_range (kalloc_mark c nframes first) first nframes (cm_entries c),
             cm_timestamp := cm_timestamp c + 1\<rparr>))"

definition frame_kfree :: "vaddr_t \<Rightarrow> cmap \<Rightarrow> (bool \<times> cmap) option" where
  "frame_kfree vaddr c =
     (let paddr = vaddr - MIPS_KSEG0 in
      if \<not> cm_bootstrapped c then Some (False, c)
      else do {
        let pos = frame_pos c paddr;
        e \<leftarrow> arr_get (cm_entries c) pos;
        let npages = cme_npages e;
        kassert (pos + npages \<le> ram_frames c);
        Some (True, c\<lparr>cm_entries := upd_range (\<lambda>_. free_entry) pos npages (cm_entries c)\<rparr>)
      })"

subsection \<open>User frames\<close>

definition frame_alloc :: "vaddr_t \<Rightarrow> ptr \<Rightarrow> cmap \<Rightarrow> paddr_t \<times> cmap" where
  "frame_alloc vaddr as c =
     (case find_idx (\<lambda>e. cme_state e = FREE) (cm_entries c) of
        None \<Rightarrow> (0, c)
      | Some i \<Rightarrow>
          (frame_paddr c i,
           c\<lparr>cm_entries := (cm_entries c)[i := \<lparr>cme_as = as, cme_vaddr = vaddr, cme_state = LOADING,
                                              cme_npages = 1, cme_ts = cm_timestamp c\<rparr>],
             cm_timestamp := cm_timestamp c + 1\<rparr>))"

definition cm_asfree :: "ptr \<Rightarrow> cmap \<Rightarrow> cmap" where
  "cm_asfree as c =
     c\<lparr>cm_entries := map (\<lambda>e. if cme_as e = as \<and> cme_state e \<noteq> FIXED
                              then (free_entry e)\<lparr>cme_as := NULL\<rparr> else e) (cm_entries c)\<rparr>"

text \<open>The frames that may be chosen as a victim, and the loop that keeps the oldest.\<close>

definition evictable :: "ptr \<Rightarrow> cm_entry \<Rightarrow> bool" where
  "evictable as e \<longleftrightarrow> cme_as e = as \<and> cme_state e \<noteq> FIXED \<and> cme_state e \<noteq> LOADING"

primrec evict_scan :: "ptr \<Rightarrow> nat \<Rightarrow> cm_entry list \<Rightarrow> u32 \<Rightarrow> nat option \<Rightarrow> nat option" where
  "evict_scan as i [] mn mn_pos = mn_pos"
| "evict_scan as i (e # es) mn mn_pos =
     (if evictable as e \<and> cme_ts e < mn
      then evict_scan as (Suc i) es (cme_ts e) (Some i)
      else evict_scan as (Suc i) es mn mn_pos)"

definition cm_evict :: "ptr \<Rightarrow> cmap \<Rightarrow> (vaddr_t \<times> paddr_t \<times> nat \<times> cmap) option" where
  "cm_evict as c = do {
     mn_pos \<leftarrow> evict_scan as 0 (cm_entries c) (cm_timestamp c) None;
     let victim = cme_vaddr (cm_entries c ! mn_pos);
     Some (victim, frame_paddr c mn_pos, mn_pos,
           c\<lparr>cm_entries := (cm_entries c)[mn_pos := \<lparr>cme_as = NULL, cme_vaddr = 0, cme_state = LOADING,
                                                   cme_npages = 0, cme_ts = -1\<rparr>]\<rparr>)
   }"

definition cm_update_vaddr :: "ptr \<Rightarrow> nat \<Rightarrow> vaddr_t \<Rightarrow> cmap \<Rightarrow> cmap option" where
  "cm_update_vaddr as pos vaddr c = do {
     kassert (pos < ram_frames c);
     Some (c\<lparr>cm_entries := (cm_entries c)[pos := \<lparr>cme_as = as, cme_vaddr = vaddr, cme_state = LOADING,
                                                cme_npages = 1, cme_ts = cm_timestamp c\<rparr>],
             cm_timestamp := cm_timestamp c + 1\<rparr>)
   }"

definition cm_check_state :: "paddr_t \<Rightarrow> frame_state \<Rightarrow> cmap \<Rightarrow> bool option" where
  "cm_check_state paddr st c = do {
     e \<leftarrow> arr_get (cm_entries c) (frame_pos c paddr);
     Some (cme_state e = st)
   }"

definition cm_update_state :: "paddr_t \<Rightarrow> frame_state \<Rightarrow> cmap \<Rightarrow> cmap option" where
  "cm_update_state paddr st c = do {
     let pos = frame_pos c paddr;
     e \<leftarrow> arr_get (cm_entries c) pos;
     Some (c\<lparr>cm_entries := (cm_entries c)[pos := e\<lparr>cme_state := st\<rparr>]\<rparr>)
   }"

subsection \<open>Addresses of frames\<close>

definition cm_range_ok :: "cmap \<Rightarrow> bool" where
  "cm_range_ok c \<longleftrightarrow>
     4096 dvd unat (cm_firstpaddr c) \<and> cm_firstpaddr c \<noteq> 0 \<and>
     unat (cm_firstpaddr c) + ram_frames c * PAGE_BYTES \<le> 0x20000000"

lemma frame_paddr_unat:
  assumes "cm_range_ok c" "i < ram_frames c"
  shows "unat (frame_paddr c i) = unat (cm_firstpaddr c) + i * 4096"
proof -
  from assms have "i * 4096 < ram_frames c * 4096" by simp
  with assms(1) have b: "unat (cm_firstpaddr c) + i * 4096 < 0x20000000"
    unfolding cm_range_ok_def by linarith
  then have "unat (of_nat i :: u32) = i" by (intro unat_of_nat_u32) linarith
  with b show ?thesis
    by (simp add: frame_paddr_def unat_word_ariths)
qed

lemma frame_pos_frame_paddr [simp]:
  assumes "cm_range_ok c" "i < ram_frames c"
  shows "frame_pos c (frame_paddr c i) = i"
proof -
  have "unat (frame_paddr c i - cm_firstpaddr c) = i * 4096"
    using frame_paddr_unat [OF assms] by (simp add: unat_sub_u32 word_le_nat_alt)
  then show ?thesis by (simp add: frame_pos_def unat_div_u32)
qed

lemma frame_paddr_inj:
  "cm_range_ok c \<Longrightarrow> i < ram_frames c \<Longrightarrow> j < ram_frames c \<Longrightarrow>
   frame_paddr c i = frame_paddr c j \<longleftrightarrow> i = j"
  by (metis frame_pos_frame_paddr)

lemma frame_paddr_nonzero: "cm_range_ok c \<Longrightarrow> i < ram_frames c \<Longrightarrow> frame_paddr c i \<noteq> 0"
  using frame_paddr_unat [of c i] by (auto simp: cm_range_ok_def unat_eq_0)

lemma frame_paddr_aligned:
  "cm_range_ok c \<Longrightarrow> i < ram_frames c \<Longrightarrow> frame_paddr c i AND PAGE_FRAME = frame_paddr c i"
  by (simp add: page_frame_id frame_paddr_unat cm_range_ok_def)

lemma kvaddr_paddr [simp]: "PADDR_TO_KVADDR p - MIPS_KSEG0 = p"
  by (simp add: PADDR_TO_KVADDR_def)

subsection \<open>First fit\<close>

definition free_run :: "cm_entry list \<Rightarrow> nat \<Rightarrow> nat \<Rightarrow> bool" where
  "free_run es a n \<longleftrightarrow> a + n \<le> length es \<and> (\<forall>j \<in> {a..<a + n}. cme_state (es ! j) = FREE)"

lemma kalloc_scan_spec:
  assumes "0 < n" "i \<le> length es"
    and "\<forall>b. b + n \<le> i \<longrightarrow> \<not> free_run es b n"
    and "0 < i \<Longrightarrow> cme_state (es ! (i - 1)) = FREE \<Longrightarrow>
      first < i \<and> (\<forall>j \<in> {first..<i}. cme_state (es ! j) = FREE) \<and>
      (first = 0 \<or> cme_state (es ! (first - 1)) \<noteq> FREE)"
  shows "case kalloc_scan es n i first of
           None \<Rightarrow> \<forall>b. \<not> free_run es b n
         | Some a \<Rightarrow> free_run es a n \<and> (\<forall>b < a. \<not> free_run es b n)"
  using assms
proof (induction es n i first rule: kalloc_scan.induct)
  case (1 es n i first)
  show ?case
  proof (cases "i < length es")
    case False
    then have "kalloc_scan es n i first = None" by (subst kalloc_scan.simps) simp
    with False "1.prems" show ?thesis by (auto simp: free_run_def)
  next
    case True
    show ?thesis
    proof (cases "cme_state (es ! i) = FREE")
      case False
      have "\<forall>b. b + n \<le> Suc i \<longrightarrow> \<not> free_run es b n"
      proof (intro allI impI notI)
        fix b assume b: "b + n \<le> Suc i" "free_run es b n"
        show False
        proof (cases "b + n \<le> i")
          case True with b "1.prems"(3) show False by blast
        next
          case False
          with b(1) \<open>0 < n\<close> have "i \<in> {b..<b + n}" by auto
          with b(2) \<open>cme_state (es ! i) \<noteq> FREE\<close> show False by (auto simp: free_run_def)
        qed
      qed
      with "1.IH"(2) [OF True False] "1.prems"(1) True False show ?thesis
        by (simp add: kalloc_scan.simps [of es n i first])
    next
      case free: True
      define f' where "f' = (if i = 0 \<or> cme_state (es ! (i - 1)) \<noteq> FREE then i else first)"
      have step: "kalloc_scan es n i first =
          (if n \<le> i - f' + 1 then Some f' else kalloc_scan es n (Suc i) f')"
        using True free by (subst kalloc_scan.simps) (simp add: f'_def Let_def)
      have run: "f' \<le> i" "\<forall>j \<in> {f'..<Suc i}. cme_state (es ! j) = FREE"
        "f' = 0 \<or> cme_state (es ! (f' - 1)) \<noteq> FREE"
        using "1.prems"(4) free by (auto simp: f'_def less_Suc_eq)
      have before: "\<not> free_run es b n" if "b < f'" "b + n \<le> Suc i" for b
      proof
        assume fr: "free_run es b n"
        show False
        proof (cases "b + n \<le> i")
          case True with fr "1.prems"(3) show False by blast
        next
          case False
          with that run(1) have "f' - 1 \<in> {b..<b + n}" by auto
          with fr run(3) that(1) show False by (auto simp: free_run_def)
        qed
      qed
      show ?thesis
      proof (cases "n \<le> i - f' + 1")
        case enough: True
        have "f' + n \<le> Suc i"
        proof (rule ccontr)
          assume "\<not> f' + n \<le> Suc i"
          with enough run(1) show False by linarith
        qed
        with run True have "free_run es f' n" by (auto simp: free_run_def)
        moreover have "\<not> free_run es b n" if "b < f'" for b
          using before that \<open>f' + n \<le> Suc i\<close> by simp
        ultimately show ?thesis using enough by (simp add: step)
      next
        case few: False
        have "\<forall>b. b + n \<le> Suc i \<longrightarrow> \<not> free_run es b n"
        proof (intro allI impI)
          fix b assume b: "b + n \<le> Suc i"
          with few run(1) have "b < f'" by linarith
          with b show "\<not> free_run es b n" by (rule before [rotated])
        qed
        with "1.IH"(1) [OF True free f'_def few] "1.prems"(1) run True few show ?thesis
          by (simp add: step)
      qed
    qed
  qed
qed

lemma kalloc_scan_from_start:
  assumes "0 < n"
  shows "case kalloc_scan es n 0 0 of
           None \<Rightarrow> \<forall>b. \<not> free_run es b n
         | Some a \<Rightarrow> free_run es a n \<and> (\<forall>b < a. \<not> free_run es b n)"
  by (rule kalloc_scan_spec) (use assms in simp_all)

corollary kalloc_scan_Some:
  assumes "0 < n" "kalloc_scan es n 0 0 = Some a"
  shows "free_run es a n" "\<And>b. b < a \<Longrightarrow> \<not> free_run es b n"
  using kalloc_scan_from_start [OF assms(1), of es] assms(2) by simp_all

corollary kalloc_scan_None:
  assumes "0 < n" "kalloc_scan es n 0 0 = None"
  shows "\<not> free_run es b n"
  using kalloc_scan_from_start [OF assms(1), of es] assms(2) by simp

subsection \<open>The invariant of the frame table\<close>

definition entry_ok :: "cm_entry \<Rightarrow> bool" where
  "entry_ok e \<longleftrightarrow>
     (cme_state e = FREE \<longrightarrow> cme_as e = NULL \<and> cme_npages e = 0 \<and> cme_vaddr e = 0) \<and>
     (cme_state e = FIXED \<longrightarrow> cme_as e = NULL) \<and>
     (cme_state e = CLEAN \<longrightarrow> cme_as e \<noteq> NULL)"

lemma entry_ok_freed: "entry_ok ((free_entry e)\<lparr>cme_as := NULL\<rparr>)"
  by (simp add: entry_ok_def free_entry_def)

text \<open>A FIXED entry with npages n > 0 heads a kernel block of n frames that no other head intersects.\<close>

definition blocks_ok :: "cm_entry list \<Rightarrow> bool" where
  "blocks_ok es \<longleftrightarrow>
     (\<forall>i < length es. cme_state (es ! i) = FIXED \<longrightarrow>
        i + cme_npages (es ! i) \<le> length es \<and>
        (\<forall>j. i < j \<and> j < i + cme_npages (es ! i) \<longrightarrow>
             cme_state (es ! j) = FIXED \<and> cme_npages (es ! j) = 0))"

definition cm_wf :: "cmap \<Rightarrow> bool" where
  "cm_wf c \<longleftrightarrow> cm_range_ok c \<and> cm_bootstrapped c \<and>
     (\<forall>i < ram_frames c. entry_ok (cm_entries c ! i)) \<and> blocks_ok (cm_entries c)"

lemma cm_range_ok_entries:
  "length es = ram_frames c \<Longrightarrow> cm_range_ok (c\<lparr>cm_entries := es\<rparr>) \<longleftrightarrow> cm_range_ok c"
  by (simp add: cm_range_ok_def)

lemma cm_range_ok_timestamp [simp]: "cm_range_ok (c\<lparr>cm_timestamp := t\<rparr>) \<longleftrightarrow> cm_range_ok c"
  by (simp add: cm_range_ok_def)

text \<open>Changing one user frame, or taking a free one, never disturbs the kernel blocks.\<close>

lemma blocks_ok_same:
  assumes "blocks_ok es" "length es' = length es"
    and "\<And>j. j < length es \<Longrightarrow> cme_state (es' ! j) = FIXED \<longleftrightarrow> cme_state (es ! j) = FIXED"
    and "\<And>j. j < length es \<Longrightarrow> cme_state (es ! j) = FIXED \<Longrightarrow> cme_npages (es' ! j) = cme_npages (es ! j)"
  shows "blocks_ok es'"
  unfolding blocks_ok_def
proof (intro allI impI)
  fix i assume i: "i < length es'" and "cme_state (es' ! i) = FIXED"
  with assms(2-4) have st: "cme_state (es ! i) = FIXED" "cme_npages (es' ! i) = cme_npages (es ! i)"
    by simp_all
  with assms(1,2) i have le: "i + cme_npages (es ! i) \<le> length es"
    and blk: "\<And>j. i < j \<Longrightarrow> j < i + cme_npages (es ! i) \<Longrightarrow>
      cme_state (es ! j) = FIXED \<and> cme_npages (es ! j) = 0"
    by (auto simp: blocks_ok_def)
  show "i + cme_npages (es' ! i) \<le> length es' \<and>
    (\<forall>j. i < j \<and> j < i + cme_npages (es' ! i) \<longrightarrow> cme_state (es' ! j) = FIXED \<and> cme_npages (es' ! j) = 0)"
    using le blk assms(2-4) st by simp
qed

lemma blocks_ok_update:
  assumes "blocks_ok es" "i < length es" "cme_state (es ! i) \<noteq> FIXED" "cme_state e \<noteq> FIXED"
  shows "blocks_ok (es[i := e])"
  using assms by (intro blocks_ok_same [OF assms(1)]) (auto simp: nth_list_update)

lemma cm_wf_update:
  assumes "cm_wf c" "i < ram_frames c" "cme_state (cm_entries c ! i) \<noteq> FIXED"
    and "cme_state e \<noteq> FIXED" "entry_ok e"
  shows "cm_wf (c\<lparr>cm_entries := (cm_entries c)[i := e]\<rparr>)"
  using assms blocks_ok_update [of "cm_entries c" i e]
  by (auto simp: cm_wf_def cm_range_ok_entries nth_list_update)

lemma cm_wf_timestamp [simp]: "cm_wf (c\<lparr>cm_timestamp := t\<rparr>) \<longleftrightarrow> cm_wf c"
  by (simp add: cm_wf_def)

lemma frame_alloc_wf:
  assumes "cm_wf c"
  shows "cm_wf (snd (frame_alloc va (Some a) c))"
proof (cases "find_idx (\<lambda>e. cme_state e = FREE) (cm_entries c)")
  case None
  with assms show ?thesis by (simp only: frame_alloc_def option.case snd_conv)
next
  case (Some i)
  with assms have "cm_wf (c\<lparr>cm_entries := (cm_entries c)[i := \<lparr>cme_as = Some a, cme_vaddr = va,
      cme_state = LOADING, cme_npages = 1, cme_ts = cm_timestamp c\<rparr>]\<rparr>)"
    by (intro cm_wf_update) (auto simp: find_idx_Some entry_ok_def)
  with Some show ?thesis by (simp add: frame_alloc_def cm_wf_def cm_range_ok_def)
qed

lemma cm_asfree_wf:
  assumes "cm_wf c"
  shows "cm_wf (cm_asfree as c)"
proof -
  define f where "f = (\<lambda>e. if cme_as e = as \<and> cme_state e \<noteq> FIXED
    then (free_entry e)\<lparr>cme_as := NULL\<rparr> else e)"
  have fixed: "cme_state (f e) = FIXED \<longleftrightarrow> cme_state e = FIXED"
    "cme_state e = FIXED \<Longrightarrow> cme_npages (f e) = cme_npages e" for e
    by (auto simp: f_def free_entry_def)
  have ok: "entry_ok e \<Longrightarrow> entry_ok (f e)" for e
    by (simp add: f_def entry_ok_freed)
  have c': "cm_asfree as c = c\<lparr>cm_entries := map f (cm_entries c)\<rparr>"
    by (simp add: cm_asfree_def f_def)
  have "blocks_ok (cm_entries c)" using assms by (simp add: cm_wf_def)
  then have "blocks_ok (map f (cm_entries c))"
    by (rule blocks_ok_same) (simp_all add: fixed)
  with assms ok show ?thesis
    by (simp add: cm_wf_def c' cm_range_ok_entries)
qed

lemma frame_kalloc_wf:
  assumes "cm_wf c" "0 < n"
  shows "cm_wf (snd (frame_kalloc n c))"
proof (cases "kalloc_scan (cm_entries c) n 0 0")
  case None
  with assms show ?thesis by (simp add: frame_kalloc_def)
next
  case (Some a)
  let ?es = "cm_entries c" and ?es' = "upd_range (kalloc_mark c n a) a n (cm_entries c)"
  from kalloc_scan_Some [OF assms(2) Some] have run: "free_run ?es a n" by simp
  have in_run: "cme_state (?es ! j) = FREE \<and> cme_npages (?es ! j) = 0" if "a \<le> j" "j < a + n" for j
    using run that assms(1) by (auto simp: free_run_def cm_wf_def entry_ok_def)
  have new: "cme_state (?es' ! j) = FIXED" "cme_npages (?es' ! j) = (if j = a then n else 0)"
    "cme_as (?es' ! j) = NULL" if "a \<le> j" "j < a + n" for j
    using in_run [OF that] that run by (auto simp: free_run_def kalloc_mark_def)
  have old: "?es' ! j = ?es ! j" if "j < length ?es" "\<not> (a \<le> j \<and> j < a + n)" for j
    using that by (auto simp: nth_upd_range)
  have blocks: "blocks_ok ?es'"
    unfolding blocks_ok_def
  proof (intro allI impI)
    fix i assume i: "i < length ?es'" and st: "cme_state (?es' ! i) = FIXED"
    show "i + cme_npages (?es' ! i) \<le> length ?es' \<and>
      (\<forall>j. i < j \<and> j < i + cme_npages (?es' ! i) \<longrightarrow>
         cme_state (?es' ! j) = FIXED \<and> cme_npages (?es' ! j) = 0)"
    proof (cases "a \<le> i \<and> i < a + n")
      case True
      with new run i show ?thesis by (auto simp: free_run_def)
    next
      case False
      with i st old have st0: "cme_state (?es ! i) = FIXED" by simp
      with assms(1) i have blk: "i + cme_npages (?es ! i) \<le> length ?es"
        "\<And>j. i < j \<Longrightarrow> j < i + cme_npages (?es ! i) \<Longrightarrow>
           cme_state (?es ! j) = FIXED \<and> cme_npages (?es ! j) = 0"
        by (auto simp: cm_wf_def blocks_ok_def)
      then have "\<not> (a \<le> j \<and> j < a + n)" if "i < j" "j < i + cme_npages (?es ! i)" for j
        using that in_run by fastforce
      with False i blk old show ?thesis by simp
    qed
  qed
  have "entry_ok (?es' ! i)" if "i < length ?es" for i
  proof (cases "a \<le> i \<and> i < a + n")
    case True
    then have "cme_state (?es' ! i) = FIXED" "cme_as (?es' ! i) = NULL" using new by blast+
    then show ?thesis by (simp add: entry_ok_def)
  next
    case False
    with old [OF that] have "?es' ! i = ?es ! i" by simp
    with that assms(1) show ?thesis by (simp add: cm_wf_def)
  qed
  with blocks assms(1) Some show ?thesis
    by (simp add: frame_kalloc_def cm_wf_def cm_range_ok_def)
qed

lemma frame_kfree_wf:
  assumes "cm_wf c" "pos < ram_frames c" "cme_state (cm_entries c ! pos) = FIXED"
    and "frame_kfree (PADDR_TO_KVADDR (frame_paddr c pos)) c = Some (r, c')"
  shows "cm_wf c'"
proof -
  let ?es = "cm_entries c" and ?n = "cme_npages (cm_entries c ! pos)"
  let ?es' = "upd_range (\<lambda>_. free_entry) pos ?n ?es"
  have range: "cm_range_ok c" and boot: "cm_bootstrapped c" and blocks: "blocks_ok ?es"
    and ok: "\<And>i. i < ram_frames c \<Longrightarrow> entry_ok (?es ! i)"
    using assms(1) by (auto simp: cm_wf_def)
  have c': "c' = c\<lparr>cm_entries := ?es'\<rparr>"
    using assms(4) range boot assms(2)
    by (simp add: frame_kfree_def Let_def bind_eq_Some_conv split: if_splits)
  have blk: "pos + ?n \<le> length ?es" "\<And>j. pos < j \<Longrightarrow> j < pos + ?n \<Longrightarrow>
      cme_state (?es ! j) = FIXED \<and> cme_npages (?es ! j) = 0"
    using blocks assms(2,3) by (auto simp: blocks_ok_def)
  have new: "?es' ! j = free_entry (?es ! j)" if "pos \<le> j" "j < pos + ?n" for j
    using that blk(1) by simp
  have old: "?es' ! j = ?es ! j" if "j < length ?es" "\<not> (pos \<le> j \<and> j < pos + ?n)" for j
    using that by (auto simp: nth_upd_range)
  have fixed: "cme_as (?es ! j) = NULL" if "pos \<le> j" "j < pos + ?n" for j
    using that blk ok [of j] assms(3) by (cases "j = pos") (auto simp: entry_ok_def)
  have "entry_ok (?es' ! i)" if "i < length ?es" for i
  proof (cases "pos \<le> i \<and> i < pos + ?n")
    case True
    then show ?thesis using new fixed by (simp add: entry_ok_def free_entry_def)
  next
    case False
    with old [OF that] ok that show ?thesis by simp
  qed
  moreover have "blocks_ok ?es'"
    unfolding blocks_ok_def
  proof (intro allI impI)
    fix i assume i: "i < length ?es'" and st: "cme_state (?es' ! i) = FIXED"
    have out: "\<not> (pos \<le> i \<and> i < pos + ?n)"
      using st new by (auto simp: free_entry_def)
    with i st old have st0: "cme_state (?es ! i) = FIXED" by simp
    with blocks i have le: "i + cme_npages (?es ! i) \<le> length ?es"
      and blki: "\<And>j. i < j \<Longrightarrow> j < i + cme_npages (?es ! i) \<Longrightarrow>
        cme_state (?es ! j) = FIXED \<and> cme_npages (?es ! j) = 0"
      by (auto simp: blocks_ok_def)
    have apart: "\<not> (pos \<le> j \<and> j < pos + ?n)" if "i < j" "j < i + cme_npages (?es ! i)" for j
    proof
      assume j: "pos \<le> j \<and> j < pos + ?n"
      with out that have "i < pos" by linarith
      with j that blki [of pos] have "?n = 0" by simp
      with j show False by linarith
    qed
    show "i + cme_npages (?es' ! i) \<le> length ?es' \<and>
      (\<forall>j. i < j \<and> j < i + cme_npages (?es' ! i) \<longrightarrow>
         cme_state (?es' ! j) = FIXED \<and> cme_npages (?es' ! j) = 0)"
      using out i le blki apart old by simp
  qed
  ultimately show ?thesis using range boot by (simp add: cm_wf_def c' cm_range_ok_entries)
qed

text \<open>The scan of cm_evict keeps the oldest evictable frame, the first one among equals.\<close>

definition oldest :: "ptr \<Rightarrow> cm_entry list \<Rightarrow> nat \<Rightarrow> bool" where
  "oldest as es k \<longleftrightarrow> k < length es \<and> evictable as (es ! k) \<and>
     (\<forall>j < length es. evictable as (es ! j) \<longrightarrow> cme_ts (es ! k) \<le> cme_ts (es ! j)) \<and>
     (\<forall>j < k. evictable as (es ! j) \<longrightarrow> cme_ts (es ! k) < cme_ts (es ! j))"

lemma oldest_Cons_0:
  "evictable as e \<Longrightarrow> \<forall>j < length es. evictable as (es ! j) \<longrightarrow> cme_ts e \<le> cme_ts (es ! j) \<Longrightarrow>
   oldest as (e # es) 0"
  by (auto simp: oldest_def nth_Cons split: nat.splits)

lemma oldest_Cons_Suc:
  "oldest as es k \<Longrightarrow> evictable as e \<longrightarrow> cme_ts (es ! k) < cme_ts e \<Longrightarrow> oldest as (e # es) (Suc k)"
  by (auto simp: oldest_def nth_Cons split: nat.splits)

lemma evict_scan_cases:
  "(evict_scan as i es mn acc = acc \<and> (\<forall>j < length es. evictable as (es ! j) \<longrightarrow> mn \<le> cme_ts (es ! j))) \<or>
   (\<exists>k. evict_scan as i es mn acc = Some (i + k) \<and> oldest as es k \<and> cme_ts (es ! k) < mn)"
proof (induction es arbitrary: i mn acc)
  case Nil
  then show ?case by simp
next
  case (Cons e es)
  show ?case
  proof (cases "evictable as e \<and> cme_ts e < mn")
    case True
    from Cons.IH [of "Suc i" "cme_ts e" "Some i"] show ?thesis
    proof (elim disjE exE conjE)
      assume "evict_scan as (Suc i) es (cme_ts e) (Some i) = Some i"
        "\<forall>j < length es. evictable as (es ! j) \<longrightarrow> cme_ts e \<le> cme_ts (es ! j)"
      with True have "evict_scan as i (e # es) mn acc = Some (i + 0)" "oldest as (e # es) 0"
        by (simp_all add: oldest_Cons_0)
      with True show ?thesis by (metis nth_Cons_0)
    next
      fix k assume k: "evict_scan as (Suc i) es (cme_ts e) (Some i) = Some (Suc i + k)"
        "oldest as es k" "cme_ts (es ! k) < cme_ts e"
      with True have "evict_scan as i (e # es) mn acc = Some (i + Suc k)" "oldest as (e # es) (Suc k)"
        by (simp_all add: oldest_Cons_Suc)
      moreover from k True have "cme_ts ((e # es) ! Suc k) < mn" by auto
      ultimately show ?thesis by blast
    qed
  next
    case False
    then have eq: "evict_scan as i (e # es) mn acc = evict_scan as (Suc i) es mn acc" by auto
    from Cons.IH [of "Suc i" mn acc] show ?thesis
    proof (elim disjE exE conjE)
      assume "evict_scan as (Suc i) es mn acc = acc"
        "\<forall>j < length es. evictable as (es ! j) \<longrightarrow> mn \<le> cme_ts (es ! j)"
      with False show ?thesis by (auto simp: eq nth_Cons split: nat.splits)
    next
      fix k assume k: "evict_scan as (Suc i) es mn acc = Some (Suc i + k)"
        "oldest as es k" "cme_ts (es ! k) < mn"
      with False have "oldest as (e # es) (Suc k)" by (intro oldest_Cons_Suc) auto
      moreover from k have "evict_scan as i (e # es) mn acc = Some (i + Suc k)" by (simp add: eq del: evict_scan.simps)
      moreover from k have "cme_ts ((e # es) ! Suc k) < mn" by simp
      ultimately show ?thesis by blast
    qed
  qed
qed

lemma evict_scan_Some:
  "evict_scan as 0 es mn None = Some k \<Longrightarrow> oldest as es k \<and> cme_ts (es ! k) < mn"
  using evict_scan_cases [of as 0 es mn None] by auto

lemma evict_scan_None:
  "evict_scan as 0 es mn None = None \<longleftrightarrow>
   (\<forall>j < length es. evictable as (es ! j) \<longrightarrow> mn \<le> cme_ts (es ! j))"
  using evict_scan_cases [of as 0 es mn None] by (fastforce simp: oldest_def)

lemma cm_evict_SomeD:
  assumes "cm_evict as c = Some (victim, p, pos, c')"
  shows "oldest as (cm_entries c) pos" "victim = cme_vaddr (cm_entries c ! pos)"
    "p = frame_paddr c pos"
    "c' = c\<lparr>cm_entries := (cm_entries c)[pos := \<lparr>cme_as = NULL, cme_vaddr = 0, cme_state = LOADING,
                                                 cme_npages = 0, cme_ts = -1\<rparr>]\<rparr>"
  using assms by (auto simp: cm_evict_def bind_eq_Some_conv Let_def dest: evict_scan_Some)

lemma cm_evict_wf:
  assumes "cm_wf c" "cm_evict as c = Some (victim, p, pos, c')"
  shows "cm_wf c'"
  using assms(1) cm_evict_SomeD [OF assms(2)]
  by (simp add: cm_wf_update oldest_def evictable_def entry_ok_def)

lemma cm_update_vaddr_wf:
  assumes "cm_wf c" "cm_update_vaddr (Some a) pos va c = Some c'"
    and "pos < ram_frames c" "cme_state (cm_entries c ! pos) = LOADING"
  shows "cm_wf c'"
proof -
  have "cm_wf (c\<lparr>cm_entries := (cm_entries c)[pos := \<lparr>cme_as = Some a, cme_vaddr = va,
      cme_state = LOADING, cme_npages = 1, cme_ts = cm_timestamp c\<rparr>]\<rparr>)"
    using assms by (intro cm_wf_update) (auto simp: entry_ok_def)
  with assms(2,3) show ?thesis by (auto simp: cm_update_vaddr_def cm_wf_def cm_range_ok_def)
qed

lemma cm_update_state_wf:
  assumes "cm_wf c" "pos < ram_frames c" "cme_state (cm_entries c ! pos) = LOADING"
    and "cme_as (cm_entries c ! pos) \<noteq> NULL"
    and "cm_update_state (frame_paddr c pos) CLEAN c = Some c'"
  shows "cm_wf c'"
proof -
  have "frame_pos c (frame_paddr c pos) = pos" using assms(1,2) by (simp add: cm_wf_def)
  with assms have "c' = c\<lparr>cm_entries := (cm_entries c)[pos := (cm_entries c ! pos)\<lparr>cme_state := CLEAN\<rparr>]\<rparr>"
    by (simp add: cm_update_state_def Let_def)
  with assms show ?thesis by (simp add: cm_wf_update entry_ok_def)
qed

subsection \<open>Steps and reachable tables\<close>

text \<open>
  The calls the VM system makes: alloc_kpages and free_kpages (of a frame that
  frame_kalloc handed out, so a FIXED one), the allocation of a user frame, the
  end of its loading, eviction and the reuse of the evicted frame, and the death
  of an address space.
\<close>

inductive cm_step :: "cmap \<Rightarrow> cmap \<Rightarrow> bool" where
  kalloc: "0 < n \<Longrightarrow> cm_step c (snd (frame_kalloc n c))"
| kfree: "pos < ram_frames c \<Longrightarrow> cme_state (cm_entries c ! pos) = FIXED \<Longrightarrow>
    frame_kfree (PADDR_TO_KVADDR (frame_paddr c pos)) c = Some (r, c') \<Longrightarrow> cm_step c c'"
| alloc: "cm_step c (snd (frame_alloc va (Some a) c))"
| loaded: "pos < ram_frames c \<Longrightarrow> cme_state (cm_entries c ! pos) = LOADING \<Longrightarrow>
    cme_as (cm_entries c ! pos) \<noteq> NULL \<Longrightarrow>
    cm_update_state (frame_paddr c pos) CLEAN c = Some c' \<Longrightarrow> cm_step c c'"
| asfree: "cm_step c (cm_asfree (Some a) c)"
| evict: "cm_evict (Some a) c = Some (victim, p, pos, c') \<Longrightarrow> cm_step c c'"
| reuse: "pos < ram_frames c \<Longrightarrow> cme_state (cm_entries c ! pos) = LOADING \<Longrightarrow>
    cme_as (cm_entries c ! pos) = NULL \<Longrightarrow>
    cm_update_vaddr (Some a) pos va c = Some c' \<Longrightarrow> cm_step c c'"

inductive cm_reachable :: "paddr_t \<Rightarrow> paddr_t \<Rightarrow> cmap \<Rightarrow> bool"
  for ramsize firstfree where
  boot: "cm_bootstrap ramsize firstfree True = Some c \<Longrightarrow> cm_reachable ramsize firstfree c"
| boot_4test: "cm_bootstrap_4test ramsize firstfree True = Some c \<Longrightarrow> cm_reachable ramsize firstfree c"
| step: "cm_reachable ramsize firstfree c \<Longrightarrow> cm_step c c' \<Longrightarrow> cm_reachable ramsize firstfree c'"

lemma cm_step_wf: "cm_step c c' \<Longrightarrow> cm_wf c \<Longrightarrow> cm_wf c'"
proof (induction rule: cm_step.induct)
  case (kalloc n c)
  then show ?case by (simp add: frame_kalloc_wf)
next
  case (kfree pos c r c')
  then show ?case by (blast intro: frame_kfree_wf)
next
  case (alloc c va a)
  then show ?case by (rule frame_alloc_wf)
next
  case (loaded pos c c')
  then show ?case by (blast intro: cm_update_state_wf)
next
  case (asfree c a)
  then show ?case by (rule cm_asfree_wf)
next
  case (evict a c victim p pos c')
  then show ?case by (blast intro: cm_evict_wf)
next
  case (reuse pos c a va c')
  then show ?case by (blast intro: cm_update_vaddr_wf)
qed

text \<open>The table that cm_bootstrap builds.\<close>

lemma boot_loop_length [simp]: "length (fst (boot_loop kend i m ts)) = m"
  by (induction m arbitrary: i ts) (simp_all add: split_beta Let_def)

lemma boot_loop_nth:
  "k < m \<Longrightarrow> fst (boot_loop kend i m ts) ! k =
    \<lparr>cme_as = NULL, cme_vaddr = 0, cme_state = (if i + k \<le> kend then FIXED else FREE),
     cme_npages = 0, cme_ts = (if i + k \<le> kend then ts + of_nat k else -1)\<rparr>"
proof (induction m arbitrary: i ts k)
  case 0
  then show ?case by simp
next
  case (Suc m)
  show ?case
  proof (cases k)
    case 0
    then show ?thesis by (simp add: split_beta Let_def)
  next
    case (Suc k')
    with Suc.prems have "k' < m" by simp
    from Suc.IH [OF this, of "Suc i"] Suc show ?thesis
      by (simp add: split_beta Let_def)
  qed
qed

definition boot_args_ok :: "paddr_t \<Rightarrow> paddr_t \<Rightarrow> bool" where
  "boot_args_ok ramsize firstfree \<longleftrightarrow>
     4096 dvd unat firstfree \<and> firstfree \<noteq> 0 \<and> firstfree \<le> ramsize \<and> ramsize \<le> 0x20000000"

lemma boot_frames_bound:
  assumes "boot_args_ok ramsize firstfree"
  shows "unat firstfree + unat ((ramsize - firstfree) div PAGE_SIZE) * PAGE_BYTES \<le> 0x20000000"
proof -
  have le: "unat firstfree \<le> unat ramsize" "unat ramsize \<le> 0x20000000"
    using assms by (auto simp: boot_args_ok_def word_le_nat_alt)
  have "unat ((ramsize - firstfree) div PAGE_SIZE) = (unat ramsize - unat firstfree) div 4096"
    using assms by (simp add: boot_args_ok_def unat_div_u32 unat_sub_u32)
  then have "unat ((ramsize - firstfree) div PAGE_SIZE) * 4096 \<le> unat ramsize - unat firstfree"
    by simp
  with le show ?thesis by linarith
qed

lemma blocks_ok_no_heads: "\<forall>j < length es. cme_npages (es ! j) = 0 \<Longrightarrow> blocks_ok es"
  by (auto simp: blocks_ok_def)

lemma cm_bootstrap_wf:
  assumes "boot_args_ok ramsize firstfree" "cm_bootstrap ramsize firstfree ok = Some c"
  shows "cm_wf c"
proof -
  obtain es ts where c: "c = \<lparr>cm_firstpaddr = firstfree, cm_lastpaddr = ramsize, cm_timestamp = ts,
      cm_bootstrapped = True, cm_entries = es\<rparr>"
    and es: "es = fst (boot_loop (unat ((ramsize - firstfree) div PAGE_SIZE) * sizeof_cm_entry div PAGE_BYTES)
      0 (unat ((ramsize - firstfree) div PAGE_SIZE)) 0)"
    using assms(2) by (simp add: cm_bootstrap_def Let_def split_beta split: if_splits) metis
  have "cm_range_ok c"
    using assms(1) boot_frames_bound [OF assms(1)] by (simp add: c es cm_range_ok_def boot_args_ok_def)
  moreover have "blocks_ok es"
    by (rule blocks_ok_no_heads) (simp add: es boot_loop_nth)
  moreover have "\<forall>i < length es. entry_ok (es ! i)"
    by (simp add: es boot_loop_nth entry_ok_def)
  ultimately show ?thesis by (simp add: c cm_wf_def)
qed

lemma cm_bootstrap_4test_wf:
  assumes "boot_args_ok ramsize firstfree" "cm_bootstrap_4test ramsize firstfree ok = Some c"
  shows "cm_wf c"
proof -
  define n where "n = unat ((ramsize - firstfree) div PAGE_SIZE)"
  define es where "es = fst (boot_loop n 0 n 0)"
  define es' where "es' = (if NUM_FREEFRAMES_TEST \<le> n
    then upd_range (\<lambda>i e. e\<lparr>cme_state := FREE\<rparr>) (n - NUM_FREEFRAMES_TEST) NUM_FREEFRAMES_TEST es
    else es)"
  obtain ts where c: "c = \<lparr>cm_firstpaddr = firstfree, cm_lastpaddr = ramsize, cm_timestamp = ts,
      cm_bootstrapped = True, cm_entries = es'\<rparr>"
    using assms(2) unfolding cm_bootstrap_4test_def Let_def split_beta n_def [symmetric]
      es_def [symmetric] es'_def [symmetric]
    by (cases ok) auto
  have len: "length es = n" "length es' = n" by (simp_all add: es_def es'_def)
  have e: "cme_as (es ! i) = NULL \<and> cme_vaddr (es ! i) = 0 \<and> cme_npages (es ! i) = 0 \<and>
      cme_state (es ! i) = FIXED" if "i < n" for i
    using that by (simp add: es_def boot_loop_nth)
  have e': "cme_as (es' ! i) = NULL \<and> cme_vaddr (es' ! i) = 0 \<and> cme_npages (es' ! i) = 0 \<and>
      cme_state (es' ! i) \<noteq> CLEAN" if "i < n" for i
    using e [OF that] that len by (simp add: es'_def nth_upd_range)
  have "cm_range_ok c"
    using assms(1) boot_frames_bound [OF assms(1)] len
    by (simp add: c cm_range_ok_def boot_args_ok_def n_def)
  moreover have "blocks_ok es'" by (rule blocks_ok_no_heads) (simp add: e' len)
  moreover have "\<forall>i < length es'. entry_ok (es' ! i)" using e' len by (simp add: entry_ok_def)
  ultimately show ?thesis by (simp add: c cm_wf_def)
qed

lemma cm_reachable_wf:
  "cm_reachable ramsize firstfree c \<Longrightarrow> boot_args_ok ramsize firstfree \<Longrightarrow> cm_wf c"
  by (induction rule: cm_reachable.induct)
     (auto intro: cm_bootstrap_wf cm_bootstrap_4test_wf cm_step_wf)

subsection \<open>Abstraction: who owns a frame\<close>

text \<open>
  The abstract frame table maps each frame to an owner. InTransit is a frame that
  cm_evict has taken from a page and cm_update_vaddr has not yet given to another.
\<close>

datatype owner = Unowned | Kernel | InTransit | User nat vaddr_t

definition entry_owner :: "cm_entry \<Rightarrow> owner" where
  "entry_owner e = (case cme_state e of FREE \<Rightarrow> Unowned | FIXED \<Rightarrow> Kernel
     | _ \<Rightarrow> (case cme_as e of None \<Rightarrow> InTransit | Some a \<Rightarrow> User a (cme_vaddr e)))"

definition cm_abs :: "cmap \<Rightarrow> owner list" where
  "cm_abs c = map entry_owner (cm_entries c)"

lemma length_cm_abs [simp]: "length (cm_abs c) = ram_frames c"
  by (simp add: cm_abs_def)

lemma nth_cm_abs: "i < ram_frames c \<Longrightarrow> cm_abs c ! i = entry_owner (cm_entries c ! i)"
  by (simp add: cm_abs_def)

lemma owner_Unowned [simp]: "entry_owner e = Unowned \<longleftrightarrow> cme_state e = FREE"
  by (simp add: entry_owner_def split: frame_state.splits option.splits)

lemma owner_Kernel [simp]: "entry_owner e = Kernel \<longleftrightarrow> cme_state e = FIXED"
  by (simp add: entry_owner_def split: frame_state.splits option.splits)

lemma owner_InTransit [simp]:
  "entry_owner e = InTransit \<longleftrightarrow> cme_state e \<in> {LOADING, CLEAN} \<and> cme_as e = NULL"
  by (simp add: entry_owner_def split: frame_state.splits option.splits)

lemma owner_User [simp]:
  "entry_owner e = User a va \<longleftrightarrow> cme_state e \<in> {LOADING, CLEAN} \<and> cme_as e = Some a \<and> cme_vaddr e = va"
  by (auto simp: entry_owner_def split: frame_state.splits option.splits)

text \<open>The abstract transitions: nothing but a release ever takes a frame from its owner.\<close>

inductive owner_step :: "owner list \<Rightarrow> owner list \<Rightarrow> bool" where
  skip: "owner_step os os"
| kernel_take: "a + n \<le> length os \<Longrightarrow> \<forall>j \<in> {a..<a + n}. os ! j = Unowned \<Longrightarrow>
    owner_step os (upd_range (\<lambda>_ _. Kernel) a n os)"
| kernel_give: "a + n \<le> length os \<Longrightarrow> \<forall>j \<in> {a..<a + n}. os ! j = Kernel \<Longrightarrow>
    owner_step os (upd_range (\<lambda>_ _. Unowned) a n os)"
| user_take: "i < length os \<Longrightarrow> os ! i = Unowned \<or> os ! i = InTransit \<Longrightarrow>
    owner_step os (os[i := User a va])"
| user_evict: "i < length os \<Longrightarrow> os ! i = User a va \<Longrightarrow> owner_step os (os[i := InTransit])"
| user_exit: "owner_step os (map (\<lambda>w. case w of User b va \<Rightarrow> if b = a then Unowned else w | _ \<Rightarrow> w) os)"

inductive_cases owner_stepE: "owner_step os os'"

lemma cm_abs_upd_range:
  assumes "a + n \<le> ram_frames c"
    and "\<And>j. a \<le> j \<Longrightarrow> j < a + n \<Longrightarrow> entry_owner (f j (cm_entries c ! j)) = w"
  shows "cm_abs (c\<lparr>cm_entries := upd_range f a n (cm_entries c), cm_timestamp := t\<rparr>) =
    upd_range (\<lambda>_ _. w) a n (cm_abs c)"
  using assms by (intro nth_equalityI) (auto simp: cm_abs_def nth_upd_range)

lemma cm_abs_update:
  "cm_abs (c\<lparr>cm_entries := (cm_entries c)[i := e]\<rparr>) = (cm_abs c)[i := entry_owner e]"
  by (simp add: cm_abs_def map_update)

lemma cm_abs_timestamp [simp]: "cm_abs (c\<lparr>cm_timestamp := t\<rparr>) = cm_abs c"
  by (simp add: cm_abs_def)

lemma frame_kalloc_abs:
  assumes "0 < n" "kalloc_scan (cm_entries c) n 0 0 = Some a"
  shows "cm_abs (snd (frame_kalloc n c)) = upd_range (\<lambda>_ _. Kernel) a n (cm_abs c)"
proof -
  from kalloc_scan_Some(1) [OF assms] have "a + n \<le> ram_frames c" by (simp add: free_run_def)
  then have "cm_abs (c\<lparr>cm_entries := upd_range (kalloc_mark c n a) a n (cm_entries c),
      cm_timestamp := cm_timestamp c + 1\<rparr>) = upd_range (\<lambda>_ _. Kernel) a n (cm_abs c)"
    by (rule cm_abs_upd_range) (simp add: kalloc_mark_def)
  with assms(2) show ?thesis by (simp add: frame_kalloc_def)
qed

lemma frame_kfree_abs:
  assumes "cm_wf c" "pos < ram_frames c" "cme_state (cm_entries c ! pos) = FIXED"
    and "frame_kfree (PADDR_TO_KVADDR (frame_paddr c pos)) c = Some (r, c')"
  shows "cm_abs c' = upd_range (\<lambda>_ _. Unowned) pos (cme_npages (cm_entries c ! pos)) (cm_abs c)"
proof -
  let ?n = "cme_npages (cm_entries c ! pos)"
  from assms(1-3) have "pos + ?n \<le> ram_frames c" by (auto simp: cm_wf_def blocks_ok_def)
  then have "cm_abs (c\<lparr>cm_entries := upd_range (\<lambda>_. free_entry) pos ?n (cm_entries c),
      cm_timestamp := cm_timestamp c\<rparr>) = upd_range (\<lambda>_ _. Unowned) pos ?n (cm_abs c)"
    by (rule cm_abs_upd_range) (simp add: free_entry_def)
  moreover have "c' = c\<lparr>cm_entries := upd_range (\<lambda>_. free_entry) pos ?n (cm_entries c)\<rparr>"
    using assms by (simp add: frame_kfree_def cm_wf_def Let_def bind_eq_Some_conv split: if_splits)
  ultimately show ?thesis by simp
qed

lemma frame_alloc_abs:
  "find_idx (\<lambda>e. cme_state e = FREE) (cm_entries c) = Some i \<Longrightarrow>
   cm_abs (snd (frame_alloc va (Some a) c)) = (cm_abs c)[i := User a va]"
  by (simp add: frame_alloc_def cm_abs_update entry_owner_def)

lemma entry_owner_asfree:
  assumes "entry_ok e"
  shows "entry_owner (if cme_as e = Some a \<and> cme_state e \<noteq> FIXED
      then (free_entry e)\<lparr>cme_as := NULL\<rparr> else e) =
    (case entry_owner e of User b va \<Rightarrow> if b = a then Unowned else entry_owner e | _ \<Rightarrow> entry_owner e)"
proof (cases "cme_as e")
  case None
  then show ?thesis by (cases "cme_state e") (simp_all add: entry_owner_def)
next
  case (Some b)
  with assms show ?thesis
    by (cases "cme_state e") (simp_all add: entry_owner_def entry_ok_def free_entry_def)
qed

lemma cm_asfree_abs:
  assumes "cm_wf c"
  shows "cm_abs (cm_asfree (Some a) c) =
    map (\<lambda>w. case w of User b va \<Rightarrow> if b = a then Unowned else w | _ \<Rightarrow> w) (cm_abs c)"
proof -
  have "\<forall>e \<in> set (cm_entries c). entry_ok e"
    using assms unfolding list_all_nth by (simp add: cm_wf_def)
  then show ?thesis
    unfolding cm_abs_def cm_asfree_def by (simp add: entry_owner_asfree)
qed

lemma kernel_block:
  assumes "cm_wf c" "pos < ram_frames c" "cme_state (cm_entries c ! pos) = FIXED"
  shows "pos + cme_npages (cm_entries c ! pos) \<le> ram_frames c"
    and "j \<in> {pos..<pos + cme_npages (cm_entries c ! pos)} \<Longrightarrow> cme_state (cm_entries c ! j) = FIXED"
proof -
  have "blocks_ok (cm_entries c)" using assms(1) by (simp add: cm_wf_def)
  note b = this [unfolded blocks_ok_def, rule_format, OF assms(2,3)]
  show "pos + cme_npages (cm_entries c ! pos) \<le> ram_frames c" using b by simp
  assume "j \<in> {pos..<pos + cme_npages (cm_entries c ! pos)}"
  with b assms(3) show "cme_state (cm_entries c ! j) = FIXED" by (cases "j = pos") auto
qed

lemma cm_step_refines: "cm_step c c' \<Longrightarrow> cm_wf c \<Longrightarrow> owner_step (cm_abs c) (cm_abs c')"
proof (induction rule: cm_step.induct)
  case (kalloc n c)
  show ?case
  proof (cases "kalloc_scan (cm_entries c) n 0 0")
    case None
    then show ?thesis by (simp add: frame_kalloc_def owner_step.skip)
  next
    case (Some a)
    with kalloc have "free_run (cm_entries c) a n" by (simp add: kalloc_scan_Some)
    then show ?thesis unfolding frame_kalloc_abs [OF kalloc(1) Some]
      by (intro owner_step.kernel_take) (auto simp: free_run_def nth_cm_abs)
  qed
next
  case (kfree pos c r c')
  from kernel_block [OF kfree(4,1,2)] show ?case
    unfolding frame_kfree_abs [OF kfree(4) kfree(1-3)]
    by (intro owner_step.kernel_give) (auto simp: nth_cm_abs)
next
  case (alloc c va a)
  show ?case
  proof (cases "find_idx (\<lambda>e. cme_state e = FREE) (cm_entries c)")
    case None
    then show ?thesis by (simp only: frame_alloc_def option.case snd_conv owner_step.skip)
  next
    case (Some i)
    then show ?thesis unfolding frame_alloc_abs [OF Some]
      by (intro owner_step.user_take) (auto simp: find_idx_Some nth_cm_abs)
  qed
next
  case (loaded pos c c')
  then have "frame_pos c (frame_paddr c pos) = pos" by (simp add: cm_wf_def)
  with loaded have "c' = c\<lparr>cm_entries := (cm_entries c)[pos := (cm_entries c ! pos)\<lparr>cme_state := CLEAN\<rparr>]\<rparr>"
    by (simp add: cm_update_state_def Let_def)
  moreover have "entry_owner ((cm_entries c ! pos)\<lparr>cme_state := CLEAN\<rparr>) = cm_abs c ! pos"
    using loaded by (simp add: nth_cm_abs entry_owner_def split: option.splits)
  ultimately show ?case by (simp add: cm_abs_update owner_step.skip)
next
  case (asfree c a)
  show ?case unfolding cm_asfree_abs [OF asfree] by (rule owner_step.user_exit)
next
  case (evict a c victim p pos c')
  note ev = cm_evict_SomeD [OF evict(1)]
  then have pos: "pos < ram_frames c" "evictable (Some a) (cm_entries c ! pos)" by (auto simp: oldest_def)
  with evict(2) have "cme_state (cm_entries c ! pos) = CLEAN"
    by (cases "cme_state (cm_entries c ! pos)") (auto simp: evictable_def cm_wf_def entry_ok_def)
  with pos ev(2) have "cm_abs c ! pos = User a victim" by (simp add: nth_cm_abs evictable_def)
  moreover have "cm_abs c' = (cm_abs c)[pos := InTransit]"
    using ev(4) by (simp add: cm_abs_update entry_owner_def)
  ultimately show ?case using pos by (simp add: owner_step.user_evict)
next
  case (reuse pos c a va c')
  then have "cm_abs c' = (cm_abs c)[pos := User a va]"
    by (auto simp: cm_update_vaddr_def cm_abs_update entry_owner_def)
  with reuse show ?case by (auto simp: nth_cm_abs intro!: owner_step.user_take)
qed

subsection \<open>Age\<close>

text \<open>
  While the counter has not wrapped, every page in memory carries a stamp below
  it and no two pages carry the same one, so the oldest page is unique.
\<close>

definition cm_ts_ok :: "cmap \<Rightarrow> bool" where
  "cm_ts_ok c \<longleftrightarrow>
     (\<forall>i < ram_frames c. cme_as (cm_entries c ! i) \<noteq> NULL \<longrightarrow> cme_ts (cm_entries c ! i) < cm_timestamp c) \<and>
     (\<forall>i < ram_frames c. \<forall>j < ram_frames c.
        cme_as (cm_entries c ! i) \<noteq> NULL \<longrightarrow> cme_as (cm_entries c ! j) \<noteq> NULL \<longrightarrow>
        cme_ts (cm_entries c ! i) = cme_ts (cm_entries c ! j) \<longrightarrow> i = j)"

lemma evict_total:
  assumes "cm_ts_ok c" "i < ram_frames c" "evictable (Some a) (cm_entries c ! i)"
  shows "\<exists>r. cm_evict (Some a) c = Some r"
proof -
  have "cme_ts (cm_entries c ! i) < cm_timestamp c"
    using assms by (auto simp: cm_ts_ok_def evictable_def)
  with assms(2,3) have "evict_scan (Some a) 0 (cm_entries c) (cm_timestamp c) None \<noteq> None"
    by (auto simp: evict_scan_None)
  then show ?thesis by (auto simp: cm_evict_def Let_def)
qed

lemma cm_ts_ok_kernel:
  assumes "cm_ts_ok c" "cm_timestamp c \<le> t"
    and "\<And>i. i < ram_frames c \<Longrightarrow> cme_as (es ! i) \<noteq> NULL \<Longrightarrow> es ! i = cm_entries c ! i"
    and "length es = ram_frames c"
  shows "cm_ts_ok (c\<lparr>cm_entries := es, cm_timestamp := t\<rparr>)"
  using assms unfolding cm_ts_ok_def
  by (simp del: not_None_eq) (metis order_less_le_trans)

lemma cm_ts_ok_fresh:
  assumes "cm_ts_ok c" "cm_timestamp c < cm_timestamp c + 1" "i < ram_frames c"
    and "cme_ts e = cm_timestamp c"
  shows "cm_ts_ok (c\<lparr>cm_entries := (cm_entries c)[i := e], cm_timestamp := cm_timestamp c + 1\<rparr>)"
proof -
  let ?es = "(cm_entries c)[i := e]"
  have old: "cme_ts (cm_entries c ! k) < cm_timestamp c"
    if "k < ram_frames c" "cme_as (cm_entries c ! k) \<noteq> NULL" for k
    using assms(1) that by (simp add: cm_ts_ok_def del: not_None_eq)
  have "cme_ts (?es ! k) < cm_timestamp c + 1" if "k < ram_frames c" "cme_as (?es ! k) \<noteq> NULL" for k
    using that old [of k] assms(2,4) by (cases "k = i") auto
  moreover have "k = l" if "k < ram_frames c" "l < ram_frames c" "cme_as (?es ! k) \<noteq> NULL"
    "cme_as (?es ! l) \<noteq> NULL" "cme_ts (?es ! k) = cme_ts (?es ! l)" for k l
    using that old [of k] old [of l] assms(1,3,4)
    by (cases "k = i"; cases "l = i") (auto simp: cm_ts_ok_def)
  ultimately show ?thesis by (simp add: cm_ts_ok_def del: not_None_eq)
qed

text \<open>One frame gets an owner, by allocation or by reuse after an eviction: the stamps stay in order.\<close>

lemma frame_alloc_ts:
  assumes "cm_ts_ok c" "cm_timestamp c < cm_timestamp c + 1"
  shows "cm_ts_ok (snd (frame_alloc va (Some a) c))"
proof (cases "find_idx (\<lambda>e. cme_state e = FREE) (cm_entries c)")
  case None
  with assms show ?thesis by (simp only: frame_alloc_def option.case snd_conv)
next
  case (Some i)
  with assms show ?thesis
    by (simp add: frame_alloc_def find_idx_lt cm_ts_ok_fresh)
qed

lemma cm_update_vaddr_ts:
  assumes "cm_ts_ok c" "cm_timestamp c < cm_timestamp c + 1" "cm_update_vaddr as pos va c = Some c'"
  shows "cm_ts_ok c'"
  using assms by (auto simp: cm_update_vaddr_def split: if_splits intro!: cm_ts_ok_fresh)

subsection \<open>Properties\<close>

text \<open>C11: frame_kalloc is first fit. It returns the lowest run of nframes free frames, marks
  exactly those frames as kernel frames and leaves the owner of every other frame alone.\<close>

theorem frame_kalloc_first_fit:
  assumes "cm_wf c" "0 < n" "free_run (cm_entries c) b n"
  shows "\<exists>a \<le> b. fst (frame_kalloc n c) = frame_paddr c a \<and> free_run (cm_entries c) a n \<and>
    (\<forall>k < a. \<not> free_run (cm_entries c) k n) \<and>
    cm_abs (snd (frame_kalloc n c)) = upd_range (\<lambda>_ _. Kernel) a n (cm_abs c)"
proof (cases "kalloc_scan (cm_entries c) n 0 0")
  case None
  with kalloc_scan_None [OF assms(2)] assms(3) show ?thesis by blast
next
  case (Some a)
  from kalloc_scan_Some [OF assms(2) Some] assms(3) have "a \<le> b" by (meson not_le_imp_less)
  with kalloc_scan_Some [OF assms(2) Some] frame_kalloc_abs [OF assms(2) Some] Some show ?thesis
    by (auto simp: frame_kalloc_def intro!: exI [of _ a])
qed

text \<open>frame_kalloc fails, returning address 0 and the table unchanged, exactly when there is
  no run of nframes free frames.\<close>

theorem frame_kalloc_fails_iff:
  assumes "cm_wf c" "0 < n"
  shows "fst (frame_kalloc n c) = 0 \<longleftrightarrow> (\<forall>b. \<not> free_run (cm_entries c) b n)"
proof (cases "kalloc_scan (cm_entries c) n 0 0")
  case None
  with kalloc_scan_None [OF assms(2) None] show ?thesis by (simp add: frame_kalloc_def)
next
  case (Some a)
  from kalloc_scan_Some(1) [OF assms(2) Some] assms have "a < ram_frames c" "cm_range_ok c"
    by (auto simp: free_run_def cm_wf_def)
  then have "frame_paddr c a \<noteq> 0" by (intro frame_paddr_nonzero)
  with Some kalloc_scan_Some(1) [OF assms(2) Some] show ?thesis by (auto simp: frame_kalloc_def)
qed

text \<open>C12: a kernel block is given back whole. Freeing the address that frame_kalloc returned
  restores the owner of every frame.\<close>

theorem frame_kalloc_kfree_roundtrip:
  assumes "cm_wf c" "0 < n" "fst (frame_kalloc n c) \<noteq> 0"
  shows "\<exists>c'. frame_kfree (PADDR_TO_KVADDR (fst (frame_kalloc n c))) (snd (frame_kalloc n c)) = Some (True, c')
    \<and> cm_abs c' = cm_abs c"
proof -
  obtain a where a: "kalloc_scan (cm_entries c) n 0 0 = Some a"
    using assms(3) by (auto simp: frame_kalloc_def split: option.splits)
  let ?c = "snd (frame_kalloc n c)"
  note run = kalloc_scan_Some(1) [OF assms(2) a]
  then have lt: "a < ram_frames c" and le: "a + n \<le> ram_frames c" using assms(2) by (auto simp: free_run_def)
  have wf: "cm_wf ?c" using assms(1,2) by (rule frame_kalloc_wf)
  have head: "cme_state (cm_entries ?c ! a) = FIXED" "cme_npages (cm_entries ?c ! a) = n"
    and len: "ram_frames ?c = ram_frames c" and addr: "fst (frame_kalloc n c) = frame_paddr ?c a"
    and boot: "cm_bootstrapped ?c"
    using a lt assms(1,2) by (simp_all add: frame_kalloc_def kalloc_mark_def cm_wf_def frame_paddr_def)
  have "frame_pos ?c (frame_paddr ?c a) = a" using wf lt len by (simp add: cm_wf_def)
  then obtain c' where c': "frame_kfree (PADDR_TO_KVADDR (frame_paddr ?c a)) ?c = Some (True, c')"
    using lt le len head boot by (simp add: frame_kfree_def Let_def)
  have "cm_abs c' = upd_range (\<lambda>_ _. Unowned) a n (cm_abs ?c)"
    using frame_kfree_abs [OF wf _ head(1) c'] lt len head(2) by simp
  also have "\<dots> = upd_range (\<lambda>_ _. Unowned) a n (upd_range (\<lambda>_ _. Kernel) a n (cm_abs c))"
    by (simp add: frame_kalloc_abs [OF assms(2) a])
  also have "\<dots> = cm_abs c"
  proof (rule nth_equalityI)
    fix i assume "i < length (upd_range (\<lambda>_ _. Unowned) a n (upd_range (\<lambda>_ _. Kernel) a n (cm_abs c)))"
    with run show "upd_range (\<lambda>_ _. Unowned) a n (upd_range (\<lambda>_ _. Kernel) a n (cm_abs c)) ! i = cm_abs c ! i"
      by (auto simp: nth_upd_range nth_cm_abs free_run_def entry_owner_def)
  qed simp
  finally show ?thesis using c' addr by auto
qed

text \<open>frame_alloc hands out the first free frame, and only that one: it becomes the frame of the
  given page, in state LOADING. It returns 0 and changes nothing exactly when no frame is free.\<close>

theorem frame_alloc_first_free:
  assumes "cm_wf c"
  shows "case find_idx (\<lambda>w. w = Unowned) (cm_abs c) of
      None \<Rightarrow> frame_alloc va (Some a) c = (0, c)
    | Some i \<Rightarrow> i < ram_frames c \<and> fst (frame_alloc va (Some a) c) = frame_paddr c i \<and> frame_paddr c i \<noteq> 0 \<and>
        cme_state (cm_entries (snd (frame_alloc va (Some a) c)) ! i) = LOADING \<and>
        cm_abs (snd (frame_alloc va (Some a) c)) = (cm_abs c)[i := User a va]"
proof -
  have same: "find_idx (\<lambda>w. w = Unowned) (cm_abs c) = find_idx (\<lambda>e. cme_state e = FREE) (cm_entries c)"
  proof -
    have "find_idx (\<lambda>w. w = Unowned) (map entry_owner es) = find_idx (\<lambda>e. cme_state e = FREE) es" for es
      by (induction es) auto
    then show ?thesis by (simp add: cm_abs_def)
  qed
  show ?thesis
  proof (cases "find_idx (\<lambda>e. cme_state e = FREE) (cm_entries c)")
    case None
    then show ?thesis by (simp only: same frame_alloc_def option.case)
  next
    case (Some i)
    then have "i < ram_frames c" by (rule find_idx_lt)
    moreover from this assms have "frame_paddr c i \<noteq> 0" by (simp add: cm_wf_def frame_paddr_nonzero)
    ultimately show ?thesis using Some frame_alloc_abs [OF Some, of va a]
      by (simp add: same frame_alloc_def)
  qed
qed

text \<open>C13: the victim of cm_evict is the oldest of the address space's loaded pages (first in, first
  out). It is taken from its frame, the frame is in transit, and every other frame keeps its owner.\<close>

theorem cm_evict_fifo:
  assumes "cm_wf c" "cm_ts_ok c" "cm_evict (Some a) c = Some (victim, p, pos, c')"
  shows "pos < ram_frames c \<and> p = frame_paddr c pos \<and> cm_abs c ! pos = User a victim \<and>
    cme_state (cm_entries c ! pos) = CLEAN \<and> cm_abs c' = (cm_abs c)[pos := InTransit] \<and>
    (\<forall>j < ram_frames c. j \<noteq> pos \<longrightarrow> cme_as (cm_entries c ! j) = Some a \<longrightarrow>
       cme_state (cm_entries c ! j) = CLEAN \<longrightarrow> cme_ts (cm_entries c ! pos) < cme_ts (cm_entries c ! j))"
proof -
  note ev = cm_evict_SomeD [OF assms(3)]
  then have pos: "pos < ram_frames c" "evictable (Some a) (cm_entries c ! pos)"
    "\<And>j. j < ram_frames c \<Longrightarrow> evictable (Some a) (cm_entries c ! j) \<Longrightarrow>
       cme_ts (cm_entries c ! pos) \<le> cme_ts (cm_entries c ! j)" by (auto simp: oldest_def)
  then have st: "cme_state (cm_entries c ! pos) = CLEAN" using assms(1)
    by (cases "cme_state (cm_entries c ! pos)") (auto simp: evictable_def cm_wf_def entry_ok_def)
  have "cme_ts (cm_entries c ! pos) < cme_ts (cm_entries c ! j)"
    if "j < ram_frames c" "j \<noteq> pos" "cme_as (cm_entries c ! j) = Some a"
      "cme_state (cm_entries c ! j) = CLEAN" for j
  proof -
    have "cme_ts (cm_entries c ! pos) \<le> cme_ts (cm_entries c ! j)"
      using pos(3) [of j] that by (simp add: evictable_def)
    moreover have "cme_ts (cm_entries c ! pos) \<noteq> cme_ts (cm_entries c ! j)"
      using assms(2) that pos(1,2) by (auto simp: cm_ts_ok_def evictable_def)
    ultimately show ?thesis by simp
  qed
  moreover have "cm_abs c ! pos = User a victim"
    using pos st ev(2) by (simp add: nth_cm_abs evictable_def)
  moreover have "cm_abs c' = (cm_abs c)[pos := InTransit]"
    using ev(4) by (simp add: cm_abs_update entry_owner_def)
  ultimately show ?thesis using pos(1) st ev(3) by blast
qed

text \<open>As long as the time stamps are in order, cm_evict finds a victim exactly when the address
  space has a page that is in memory and not being loaded; otherwise it panics.\<close>

theorem cm_evict_total_iff:
  assumes "cm_wf c" "cm_ts_ok c"
  shows "cm_evict (Some a) c = None \<longleftrightarrow>
    (\<forall>i < ram_frames c. \<not> (cme_as (cm_entries c ! i) = Some a \<and> cme_state (cm_entries c ! i) = CLEAN))"
proof
  assume none: "cm_evict (Some a) c = None"
  show "\<forall>i < ram_frames c. \<not> (cme_as (cm_entries c ! i) = Some a \<and> cme_state (cm_entries c ! i) = CLEAN)"
  proof (intro allI impI notI)
    fix i assume "i < ram_frames c" "cme_as (cm_entries c ! i) = Some a \<and> cme_state (cm_entries c ! i) = CLEAN"
    then show False using evict_total [OF assms(2), of i a] none by (simp add: evictable_def)
  qed
next
  assume no: "\<forall>i < ram_frames c. \<not> (cme_as (cm_entries c ! i) = Some a \<and> cme_state (cm_entries c ! i) = CLEAN)"
  show "cm_evict (Some a) c = None"
  proof (rule ccontr)
    assume "cm_evict (Some a) c \<noteq> None"
    then obtain v p pos c' where "cm_evict (Some a) c = Some (v, p, pos, c')" by (auto simp: not_None_eq)
    then have "oldest (Some a) (cm_entries c) pos" by (rule cm_evict_SomeD)
    then have pos: "pos < ram_frames c" "evictable (Some a) (cm_entries c ! pos)" by (auto simp: oldest_def)
    with assms(1) have "cme_state (cm_entries c ! pos) = CLEAN"
      by (cases "cme_state (cm_entries c ! pos)") (auto simp: evictable_def cm_wf_def entry_ok_def)
    with pos no show False by (simp add: evictable_def)
  qed
qed

text \<open>C14: when the 32-bit counter timestamp has wrapped to 0, cm_evict panics whatever the frames
  hold, because no stamp is below the initial minimum.\<close>

theorem cm_evict_panics_after_wrap:
  assumes "cm_timestamp c = 0"
  shows "cm_evict as c = None"
proof -
  have "evict_scan as 0 (cm_entries c) 0 None = None" by (simp add: evict_scan_None)
  with assms show ?thesis by (simp add: cm_evict_def)
qed

text \<open>C10: every table that the VM system can reach from either bootstrap satisfies the invariant, and
  every further step is a step of the abstract owner map.\<close>

theorem cm_reachable_invariant:
  assumes "cm_reachable ramsize firstfree c" "boot_args_ok ramsize firstfree"
  shows "cm_wf c \<and> (\<forall>c'. cm_step c c' \<longrightarrow> owner_step (cm_abs c) (cm_abs c'))"
  using cm_reachable_wf [OF assms] cm_step_refines by blast

text \<open>C15: cm_bootstrap protects its own array. The array lies at firstfree, and every frame that any
  of its bytes falls into is FIXED, so it is never handed out.\<close>

theorem cm_bootstrap_protects_coremap:
  assumes "boot_args_ok ramsize firstfree" "cm_bootstrap ramsize firstfree True = Some c"
    and "k < ram_frames c * sizeof_cm_entry"
  shows "k div PAGE_BYTES < ram_frames c \<and> cme_state (cm_entries c ! (k div PAGE_BYTES)) = FIXED"
proof -
  define n where "n = unat ((ramsize - firstfree) div PAGE_SIZE)"
  have es: "cm_entries c = fst (boot_loop (n * sizeof_cm_entry div PAGE_BYTES) 0 n 0)"
    using assms(2) by (auto simp: cm_bootstrap_def Let_def split_beta n_def)
  then have len: "ram_frames c = n" by simp
  with assms(3) have "k div 4096 < n" by (simp add: sizeof_cm_entry_def)
  moreover have "k div 4096 \<le> n * sizeof_cm_entry div 4096" using assms(3) len by (simp add: div_le_mono)
  ultimately show ?thesis by (simp add: len es boot_loop_nth)
qed

text \<open>cm_asfree frees exactly the frames that hold the pages of the dying address space.\<close>

theorem cm_asfree_exact:
  assumes "cm_wf c" "i < ram_frames c"
  shows "cm_abs (cm_asfree (Some a) c) ! i =
    (if \<exists>va. cm_abs c ! i = User a va then Unowned else cm_abs c ! i)"
  using assms by (simp add: cm_asfree_abs split: owner.splits)

subsection \<open>A concrete table\<close>

definition cm_demo :: cmap where
  "cm_demo = \<lparr>cm_firstpaddr = 0x1000, cm_lastpaddr = 0x6000, cm_timestamp = 3, cm_bootstrapped = True,
     cm_entries =
      [\<lparr>cme_as = NULL, cme_vaddr = 0, cme_state = FIXED, cme_npages = 0, cme_ts = 0\<rparr>,
       \<lparr>cme_as = Some 1, cme_vaddr = 0x400000, cme_state = CLEAN, cme_npages = 1, cme_ts = 2\<rparr>,
       \<lparr>cme_as = Some 1, cme_vaddr = 0x401000, cme_state = CLEAN, cme_npages = 1, cme_ts = 1\<rparr>,
       \<lparr>cme_as = NULL, cme_vaddr = 0, cme_state = FREE, cme_npages = 0, cme_ts = -1\<rparr>,
       \<lparr>cme_as = NULL, cme_vaddr = 0, cme_state = FREE, cme_npages = 0, cme_ts = -1\<rparr>]\<rparr>"

lemma cm_demo_wf: "cm_wf cm_demo"
  by (simp add: cm_wf_def cm_demo_def cm_range_ok_def entry_ok_def blocks_ok_def All_less_Suc
      dvd_eq_mod_eq_0) 

lemma cm_demo_ts: "cm_ts_ok cm_demo"
  by (simp add: cm_ts_ok_def cm_demo_def All_less_Suc)

lemma cm_demo_run: "free_run (cm_entries cm_demo) 3 2"
proof -
  have "{3..<3 + 2} = {3::nat, 4}" by auto
  then show ?thesis by (simp add: free_run_def cm_demo_def)
qed

lemma cm_demo_scan: "kalloc_scan (cm_entries cm_demo) 2 0 0 = Some 3"
  by (simp add: cm_demo_def kalloc_scan.simps)

lemma cm_demo_evict: "\<exists>c'. cm_evict (Some 1) cm_demo = Some (0x401000, 0x3000, 2, c')"
  by (simp add: cm_evict_def cm_demo_def evictable_def frame_paddr_def)

lemma boot_args_demo: "boot_args_ok 0x100000 0x40000"
  by (simp add: boot_args_ok_def dvd_eq_mod_eq_0)

lemma boot_demo: "\<exists>c. cm_bootstrap 0x100000 0x40000 True = Some c \<and> ram_frames c = 192"
proof -
  have "unat ((0x100000 - 0x40000 :: u32) div PAGE_SIZE) = 192" by simp
  then show ?thesis by (simp add: cm_bootstrap_def Let_def split_beta)
qed

theorem frame_kalloc_first_fit_witness:
  "\<exists>a \<le> 3. fst (frame_kalloc 2 cm_demo) = frame_paddr cm_demo a \<and> free_run (cm_entries cm_demo) a 2"
  using frame_kalloc_first_fit [OF cm_demo_wf _ cm_demo_run] by force

theorem frame_kalloc_fails_iff_witness:
  "cm_wf cm_demo \<and> (fst (frame_kalloc 2 cm_demo) = 0 \<longleftrightarrow> (\<forall>b. \<not> free_run (cm_entries cm_demo) b 2))"
  using frame_kalloc_fails_iff [OF cm_demo_wf, of 2] cm_demo_wf by simp

theorem frame_kalloc_kfree_roundtrip_witness:
  "\<exists>c'. frame_kfree (PADDR_TO_KVADDR (fst (frame_kalloc 2 cm_demo))) (snd (frame_kalloc 2 cm_demo)) = Some (True, c')
    \<and> cm_abs c' = cm_abs cm_demo"
proof (rule frame_kalloc_kfree_roundtrip [OF cm_demo_wf])
  show "fst (frame_kalloc 2 cm_demo) \<noteq> 0"
    by (simp add: frame_kalloc_def cm_demo_scan) (simp add: frame_paddr_def cm_demo_def)
qed simp

theorem frame_alloc_first_free_witness:
  "fst (frame_alloc 0x402000 (Some 1) cm_demo) = frame_paddr cm_demo 3 \<and> frame_paddr cm_demo 3 \<noteq> 0"
proof -
  have "find_idx (\<lambda>w. w = Unowned) (cm_abs cm_demo) = Some 3"
    by (simp add: cm_abs_def cm_demo_def)
  with frame_alloc_first_free [OF cm_demo_wf, of "0x402000" 1] show ?thesis by simp
qed

theorem cm_evict_fifo_witness:
  "\<exists>c'. cm_evict (Some 1) cm_demo = Some (0x401000, 0x3000, 2, c') \<and>
    cm_abs c' = (cm_abs cm_demo)[2 := InTransit]"
  using cm_demo_evict cm_evict_fifo [OF cm_demo_wf cm_demo_ts] by blast

theorem cm_evict_total_iff_witness: "cm_evict (Some 2) cm_demo = None"
  using cm_evict_total_iff [OF cm_demo_wf cm_demo_ts, of 2] by (simp add: cm_demo_def All_less_Suc)

theorem cm_evict_panics_after_wrap_witness:
  "cm_evict (Some 1) (cm_demo\<lparr>cm_timestamp := 0\<rparr>) = None"
  by (rule cm_evict_panics_after_wrap) simp

theorem cm_reachable_invariant_witness: "\<exists>c. ram_frames c = 192 \<and> cm_wf c"
  using boot_demo cm_reachable_invariant [OF cm_reachable.boot boot_args_demo] by blast

theorem cm_bootstrap_protects_coremap_witness:
  "\<exists>c. cm_bootstrap 0x100000 0x40000 True = Some c \<and> cme_state (cm_entries c ! (3839 div PAGE_BYTES)) = FIXED"
proof -
  obtain c where c: "cm_bootstrap 0x100000 0x40000 True = Some c" "ram_frames c = 192"
    using boot_demo by blast
  then have "cme_state (cm_entries c ! (3839 div PAGE_BYTES)) = FIXED"
    using cm_bootstrap_protects_coremap [OF boot_args_demo c(1), of 3839] by (simp add: sizeof_cm_entry_def)
  with c show ?thesis by blast
qed

theorem cm_asfree_exact_witness: "cm_abs (cm_asfree (Some 1) cm_demo) ! 2 = Unowned"
proof -
  have "cm_abs cm_demo ! 2 = User 1 0x401000" by (simp add: cm_abs_def cm_demo_def)
  with cm_asfree_exact [OF cm_demo_wf, of 2 1] show ?thesis by (simp add: cm_demo_def)
qed

end
