(* ===== verification/Kpages.thy ===== *)
theory Kpages
  imports Coremap
begin

text \<open>
  Physical memory as the kernel takes it in pages: the boot-time allocator of
  arch/mips/vm/ram.c and the pair alloc_kpages / free_kpages of kern/vm/vm.c, which
  uses ram_stealmem until cm_bootstrap has run and the coremap from then on.

  A page is named by its number: the physical address divided by the page size.
  The locale page_source is what a client of alloc_kpages may rely on (a block it is
  given meets nothing that is in use), page_store adds the release. Both are
  interpreted on alloc_kpages and free_kpages: the first over the whole life of the
  kernel, the hand-over at vm_bootstrap included, the second from vm_bootstrap on,
  because free_kpages only leaks before.
\<close>

record ram =
  rm_firstpaddr :: paddr_t
  rm_lastpaddr :: paddr_t

text \<open>What dumbvm_can_sleep looks at: the spinlocks the processor holds and the interrupt flag.\<close>

record cpu =
  c_spinlocks :: nat
  t_in_interrupt :: bool

record kpages =
  kp_ram :: ram
  kp_cmap :: cmap
  kp_cpu :: "cpu option"

subsection \<open>arch/mips/vm/ram.c\<close>

definition ram_bootstrap :: "u32 \<Rightarrow> vaddr_t \<Rightarrow> ram" where
  "ram_bootstrap mainbus_ramsize firstfree =
     (let ramsize = (if 512 * 1024 * 1024 < mainbus_ramsize then 512 * 1024 * 1024 else mainbus_ramsize)
      in \<lparr>rm_firstpaddr = firstfree - MIPS_KSEG0, rm_lastpaddr = ramsize\<rparr>)"

definition ram_stealmem :: "u32 \<Rightarrow> ram \<Rightarrow> paddr_t \<times> ram" where
  "ram_stealmem npages r =
     (let size = npages * PAGE_SIZE in
      if rm_lastpaddr r < rm_firstpaddr r + size then (0, r)
      else (rm_firstpaddr r, r\<lparr>rm_firstpaddr := rm_firstpaddr r + size\<rparr>))"

definition ram_getsize :: "ram \<Rightarrow> paddr_t" where
  "ram_getsize r = rm_lastpaddr r"

definition ram_getfirstfree :: "ram \<Rightarrow> paddr_t \<times> ram" where
  "ram_getfirstfree r = (rm_firstpaddr r, r\<lparr>rm_firstpaddr := 0, rm_lastpaddr := 0\<rparr>)"

text \<open>The variant with the trailing underscore, which cm_bootstrap calls, keeps the pool.\<close>

definition ram_peekfirstfree :: "ram \<Rightarrow> paddr_t" where
  "ram_peekfirstfree r = rm_firstpaddr r"

subsection \<open>Kernel pages of kern/vm/vm.c\<close>

definition dumbvm_can_sleep :: "cpu option \<Rightarrow> unit option" where
  "dumbvm_can_sleep cpu =
     (case cpu of
        None \<Rightarrow> Some ()
      | Some c \<Rightarrow> do { kassert (c_spinlocks c = 0); kassert (\<not> t_in_interrupt c) })"

definition getppages :: "u32 \<Rightarrow> kpages \<Rightarrow> paddr_t \<times> kpages" where
  "getppages npages s = (let (addr, r) = ram_stealmem npages (kp_ram s) in (addr, s\<lparr>kp_ram := r\<rparr>))"

definition alloc_kpages :: "u32 \<Rightarrow> kpages \<Rightarrow> (vaddr_t \<times> kpages) option" where
  "alloc_kpages npages s = do {
     (pa, s1) \<leftarrow> (if is_bootstrapped (kp_cmap s)
       then (let (pa, c) = frame_kalloc (unat npages) (kp_cmap s) in Some (pa, s\<lparr>kp_cmap := c\<rparr>))
       else do { dumbvm_can_sleep (kp_cpu s); Some (getppages npages s) });
     Some (if pa = 0 then 0 else PADDR_TO_KVADDR pa, s1)
   }"

definition free_kpages :: "vaddr_t \<Rightarrow> kpages \<Rightarrow> kpages option" where
  "free_kpages addr s =
     (if is_bootstrapped (kp_cmap s)
      then do {
        (res, c) \<leftarrow> frame_kfree addr (kp_cmap s);
        kassert res;
        Some (s\<lparr>kp_cmap := c\<rparr>)
      }
      else Some s)"

text \<open>The placeholder of struct tlbshootdown; the handler of the inter-processor request panics.\<close>

definition vm_tlbshootdown :: "int \<Rightarrow> 's \<Rightarrow> 's option" where
  "vm_tlbshootdown ts s = None"

subsection \<open>The contract of the page allocator\<close>

definition kpage :: "nat \<Rightarrow> vaddr_t" where
  "kpage p = PADDR_TO_KVADDR (of_nat p * PAGE_SIZE)"

text \<open>The largest block a caller may ask for: 2 GB, more than any machine has.\<close>

abbreviation (input) max_pages :: u32 where "max_pages \<equiv> 0x80000"

locale page_source =
  fixes alloc :: "u32 \<Rightarrow> 's \<Rightarrow> (vaddr_t \<times> 's) option"
    and held :: "'s \<Rightarrow> nat set"
    and inv :: "'s \<Rightarrow> bool"
  assumes alloc_block: "\<lbrakk>inv s; 0 < n; n \<le> max_pages; alloc n s = Some (va, s'); va \<noteq> 0\<rbrakk> \<Longrightarrow>
      inv s' \<and> (\<exists>p. va = kpage p \<and> p + unat n \<le> 0x20000 \<and>
        {p..<p + unat n} \<inter> held s = {} \<and> held s' = held s \<union> {p..<p + unat n})"
    and alloc_fail: "\<lbrakk>inv s; 0 < n; n \<le> max_pages; alloc n s = Some (0, s')\<rbrakk> \<Longrightarrow> s' = s"
begin

fun alloc_all :: "u32 list \<Rightarrow> 's \<Rightarrow> ((vaddr_t \<times> nat) list \<times> 's) option" where
  "alloc_all [] s = Some ([], s)"
| "alloc_all (n # ns) s = do {
     (va, s1) \<leftarrow> alloc n s;
     (bs, s2) \<leftarrow> alloc_all ns s1;
     Some (if va = 0 then bs else (va, unat n) # bs, s2)
   }"

end

text \<open>The pages of a block, by their numbers.\<close>

definition block_pages :: "vaddr_t \<times> nat \<Rightarrow> nat set" where
  "block_pages b = (let p = unat (fst b - MIPS_KSEG0) div PAGE_BYTES in {p..<p + snd b})"

lemma kpage_number: "p < 0x20000 \<Longrightarrow> unat (kpage p - MIPS_KSEG0) = p * 4096"
  by (simp add: kpage_def unat_word_ariths unat_of_nat_u32)

lemma block_pages_kpage [simp]: "0 < n \<Longrightarrow> p + n \<le> 0x20000 \<Longrightarrow> block_pages (kpage p, n) = {p..<p + n}"
  by (simp add: block_pages_def kpage_number)

lemma kpage_aligned: "p < 0x20000 \<Longrightarrow> kpage p AND PAGE_FRAME = kpage p"
proof -
  assume p: "p < 0x20000"
  have "unat (kpage p) = p * 4096 + 0x80000000"
    using p by (simp add: kpage_def PADDR_TO_KVADDR_def unat_word_ariths unat_of_nat_u32)
  then show ?thesis by (simp add: page_frame_id)
qed

lemma kpage_inj: "p < 0x20000 \<Longrightarrow> q < 0x20000 \<Longrightarrow> kpage p = kpage q \<longleftrightarrow> p = q"
  by (metis kpage_number mult_right_cancel zero_neq_numeral)

context page_source
begin

lemma alloc_all_disjoint:
  assumes "inv s" "\<forall>n \<in> set ns. 0 < n \<and> n \<le> max_pages" "alloc_all ns s = Some (bs, s')"
  shows "inv s' \<and> held s' = held s \<union> (\<Union>b \<in> set bs. block_pages b) \<and>
    (\<forall>b \<in> set bs. block_pages b \<inter> held s = {}) \<and>
    sorted_wrt (\<lambda>b c. block_pages b \<inter> block_pages c = {}) bs"
  using assms
proof (induction ns arbitrary: s bs)
  case Nil
  then show ?case by simp
next
  case (Cons n ns)
  from Cons.prems(3) obtain va s1 bs1 where a: "alloc n s = Some (va, s1)" "alloc_all ns s1 = Some (bs1, s')"
    and bs: "bs = (if va = 0 then bs1 else (va, unat n) # bs1)"
    by auto
  show ?case
  proof (cases "va = 0")
    case True
    with a alloc_fail Cons.prems(1,2) have "s1 = s" by auto
    with True a bs Cons show ?thesis by simp
  next
    case False
    with a alloc_block [of s n va s1] Cons.prems(1,2) obtain p where i1: "inv s1"
      and p: "va = kpage p" "p + unat n \<le> 0x20000" "{p..<p + unat n} \<inter> held s = {}"
        "held s1 = held s \<union> {p..<p + unat n}" by auto
    from Cons.prems(2) have n: "0 < unat n" by (simp add: word_greater_zero_iff unat_gt_0)
    from Cons.IH [OF i1 _ a(2)] Cons.prems(2) have ih: "inv s'"
      "held s' = held s1 \<union> (\<Union>b \<in> set bs1. block_pages b)"
      "\<forall>b \<in> set bs1. block_pages b \<inter> held s1 = {}"
      "sorted_wrt (\<lambda>b c. block_pages b \<inter> block_pages c = {}) bs1" by auto
    have "block_pages (va, unat n) = {p..<p + unat n}" using p n by simp
    with False bs p ih show ?thesis by (auto 0 3)
  qed
qed

end

definition ram_ok :: "ram \<Rightarrow> bool" where
  "ram_ok r \<longleftrightarrow> 4096 dvd unat (rm_firstpaddr r) \<and> rm_firstpaddr r \<noteq> 0 \<and>
     rm_firstpaddr r \<le> rm_lastpaddr r \<and> rm_lastpaddr r \<le> 0x20000000"

text \<open>Page numbers in use: everything below the first managed page, and the frames with an owner.\<close>

definition cm_base :: "cmap \<Rightarrow> nat" where
  "cm_base c = unat (cm_firstpaddr c) div PAGE_BYTES"

definition kp_held :: "kpages \<Rightarrow> nat set" where
  "kp_held s =
     (if cm_bootstrapped (kp_cmap s)
      then {..<cm_base (kp_cmap s)} \<union>
        {cm_base (kp_cmap s) + i | i. i < ram_frames (kp_cmap s) \<and> cm_abs (kp_cmap s) ! i \<noteq> Unowned}
      else {..<unat (rm_firstpaddr (kp_ram s)) div PAGE_BYTES})"

definition kp_inv :: "kpages \<Rightarrow> bool" where
  "kp_inv s \<longleftrightarrow> (if cm_bootstrapped (kp_cmap s) then cm_wf (kp_cmap s) else ram_ok (kp_ram s))"

text \<open>The blocks that the coremap has handed out, by address, with their length.\<close>

definition kp_blocks :: "kpages \<Rightarrow> vaddr_t \<Rightarrow> nat option" where
  "kp_blocks s va =
     (let c = kp_cmap s; p = frame_pos c (va - MIPS_KSEG0) in
      if p < ram_frames c \<and> va = PADDR_TO_KVADDR (frame_paddr c p) \<and>
         cme_state (cm_entries c ! p) = FIXED \<and> 0 < cme_npages (cm_entries c ! p)
      then Some (cme_npages (cm_entries c ! p)) else None)"

lemma stealmem_ok:
  assumes "ram_ok r" "0 < n" "n \<le> max_pages" "ram_stealmem n r = (pa, r')"
  shows "if unat (rm_firstpaddr r) + unat n * 4096 \<le> unat (rm_lastpaddr r)
    then pa = rm_firstpaddr r \<and> pa \<noteq> 0 \<and> ram_ok r' \<and> unat (rm_firstpaddr r') = unat (rm_firstpaddr r) + unat n * 4096
    else pa = 0 \<and> r' = r"
proof -
  have b: "unat (rm_firstpaddr r) \<le> 0x20000000" "unat (rm_lastpaddr r) \<le> 0x20000000" "unat n \<le> 0x80000"
    using assms(1,3) by (auto simp: ram_ok_def word_le_nat_alt)
  then have s: "unat (n * PAGE_SIZE) = unat n * 4096" by (simp add: unat_mult_u32)
  with b have t: "unat (rm_firstpaddr r + n * PAGE_SIZE) = unat (rm_firstpaddr r) + unat n * 4096"
    by (simp add: unat_add_u32)
  show ?thesis
    using assms(1,4) unfolding ram_stealmem_def Let_def
    by (auto simp: word_less_nat_alt word_le_nat_alt t ram_ok_def split: if_splits) (simp add: unat_eq_0 [symmetric] t)?
qed

lemma kpage_frame:
  assumes "cm_range_ok c" "i < ram_frames c"
  shows "PADDR_TO_KVADDR (frame_paddr c i) = kpage (cm_base c + i)" "cm_base c + i < 0x20000"
proof -
  have u: "unat (frame_paddr c i) = unat (cm_firstpaddr c) + i * 4096" using frame_paddr_unat [OF assms] .
  have "unat (cm_firstpaddr c) + ram_frames c * 4096 \<le> 0x20000000" and d: "4096 dvd unat (cm_firstpaddr c)"
    using assms(1) by (auto simp: cm_range_ok_def)
  with assms(2) show b: "cm_base c + i < 0x20000" by (auto simp: cm_base_def elim!: dvdE)
  from d have "(cm_base c + i) * 4096 = unat (cm_firstpaddr c) + i * 4096"
    by (auto simp: cm_base_def elim!: dvdE)
  with b have "unat (of_nat (cm_base c + i) * PAGE_SIZE :: u32) = unat (frame_paddr c i)"
    using unat_of_nat_u32 [of "cm_base c + i"] by (simp only: unat_word_ariths u) simp
  then show "PADDR_TO_KVADDR (frame_paddr c i) = kpage (cm_base c + i)"
    unfolding kpage_def by (metis word_unat_eq_iff)
qed

lemma kpage_nonzero: "p < 0x20000 \<Longrightarrow> kpage p \<noteq> 0"
proof
  assume "p < 0x20000" "kpage p = 0"
  then have "unat (0 - MIPS_KSEG0) = p * 4096" using kpage_number [of p] by simp
  then show False using \<open>p < 0x20000\<close> by simp
qed

lemma cm_base_frames: "cm_range_ok c \<Longrightarrow> cm_base c + ram_frames c \<le> 0x20000"
  by (auto simp: cm_range_ok_def cm_base_def elim!: dvdE)

lemma kp_held_boot:
  "cm_bootstrapped (kp_cmap s) \<Longrightarrow> cm_base (kp_cmap s) + i \<in> kp_held s \<longleftrightarrow>
     i < ram_frames (kp_cmap s) \<and> cm_abs (kp_cmap s) ! i \<noteq> Unowned"
  by (auto simp: kp_held_def)

text \<open>One block of n frames changes hands.\<close>

lemma kp_held_update:
  assumes "cm_bootstrapped (kp_cmap s)" "cm_bootstrapped (kp_cmap s')" "cm_base (kp_cmap s') = cm_base (kp_cmap s)"
    and "cm_abs (kp_cmap s') = upd_range (\<lambda>_ _. w) a n (cm_abs (kp_cmap s))" "a + n \<le> ram_frames (kp_cmap s)"
  shows "kp_held s' = (if w = Unowned
    then kp_held s - {cm_base (kp_cmap s) + a..<cm_base (kp_cmap s) + a + n}
    else kp_held s \<union> {cm_base (kp_cmap s) + a..<cm_base (kp_cmap s) + a + n})"
proof -
  let ?b = "cm_base (kp_cmap s)" and ?c = "kp_cmap s" and ?c' = "kp_cmap s'"
  have len: "ram_frames ?c' = ram_frames ?c" using assms(4) by (metis length_cm_abs length_upd_range)
  have at: "cm_abs ?c' ! i = (if a \<le> i \<and> i < a + n then w else cm_abs ?c ! i)" if "i < ram_frames ?c" for i
    using that by (simp add: assms(4) nth_upd_range)
  show ?thesis
  proof (rule set_eqI)
    fix p
    consider (low) "p < ?b" | (frame) i where "p = ?b + i" by (metis le_add_diff_inverse not_less)
    then show "p \<in> kp_held s' \<longleftrightarrow> p \<in> (if w = Unowned
        then kp_held s - {?b + a..<?b + a + n} else kp_held s \<union> {?b + a..<?b + a + n})"
    proof cases
      case low
      then show ?thesis using assms(1-3) by (auto simp: kp_held_def)
    next
      case (frame i)
      have "p \<in> kp_held s' \<longleftrightarrow> i < ram_frames ?c \<and> cm_abs ?c' ! i \<noteq> Unowned"
        using kp_held_boot [OF assms(2), of i] frame assms(3) len by simp
      moreover have "p \<in> kp_held s \<longleftrightarrow> i < ram_frames ?c \<and> cm_abs ?c ! i \<noteq> Unowned"
        using kp_held_boot [OF assms(1), of i] frame by simp
      ultimately show ?thesis using at [of i] assms(5) frame by (auto split: if_splits)
    qed
  qed
qed

lemma alloc_kpages_boot:
  assumes "cm_bootstrapped (kp_cmap s)"
  shows "alloc_kpages n s = Some (va, s') \<longleftrightarrow>
    (case kalloc_scan (cm_entries (kp_cmap s)) (unat n) 0 0 of
       None \<Rightarrow> va = 0 \<and> s' = s
     | Some a \<Rightarrow> va = (if frame_paddr (kp_cmap s) a = 0 then 0 else PADDR_TO_KVADDR (frame_paddr (kp_cmap s) a)) \<and>
         s' = s\<lparr>kp_cmap := snd (frame_kalloc (unat n) (kp_cmap s))\<rparr>)"
proof (cases "kalloc_scan (cm_entries (kp_cmap s)) (unat n) 0 0")
  case None
  with assms show ?thesis by (simp add: alloc_kpages_def is_bootstrapped_def frame_kalloc_def) blast
next
  case (Some a)
  then have "alloc_kpages n s = Some (if frame_paddr (kp_cmap s) a = 0 then 0
      else PADDR_TO_KVADDR (frame_paddr (kp_cmap s) a), s\<lparr>kp_cmap := snd (frame_kalloc (unat n) (kp_cmap s))\<rparr>)"
    using assms by (simp add: alloc_kpages_def is_bootstrapped_def frame_kalloc_def)
  with Some show ?thesis by auto
qed

lemma frame_kalloc_fields [simp]:
  "cm_firstpaddr (snd (frame_kalloc n c)) = cm_firstpaddr c"
  "cm_bootstrapped (snd (frame_kalloc n c)) = cm_bootstrapped c"
  by (simp_all add: frame_kalloc_def split: option.split)

lemma alloc_kpages_frames:
  assumes "cm_bootstrapped (kp_cmap s)" "cm_wf (kp_cmap s)" "0 < n" "alloc_kpages n s = Some (va, s')"
  shows "if va = 0 then s' = s
    else \<exists>a. a + unat n \<le> ram_frames (kp_cmap s) \<and> va = PADDR_TO_KVADDR (frame_paddr (kp_cmap s) a) \<and>
      kalloc_scan (cm_entries (kp_cmap s)) (unat n) 0 0 = Some a \<and>
      (\<forall>j. a \<le> j \<and> j < a + unat n \<longrightarrow> cm_abs (kp_cmap s) ! j = Unowned) \<and>
      s' = s\<lparr>kp_cmap := snd (frame_kalloc (unat n) (kp_cmap s))\<rparr>"
proof (cases "kalloc_scan (cm_entries (kp_cmap s)) (unat n) 0 0")
  case None
  with assms(4) show ?thesis by (simp add: alloc_kpages_boot [OF assms(1)])
next
  case (Some a)
  have n: "0 < unat n" using assms(3) by (simp add: unat_gt_0)
  from kalloc_scan_Some(1) [OF n Some] have r: "a + unat n \<le> ram_frames (kp_cmap s)"
    "\<And>j. a \<le> j \<Longrightarrow> j < a + unat n \<Longrightarrow> cme_state (cm_entries (kp_cmap s) ! j) = FREE"
    by (auto simp: free_run_def)
  have rng: "cm_range_ok (kp_cmap s)" using assms(2) by (simp add: cm_wf_def)
  have lt: "a < ram_frames (kp_cmap s)" using r n by linarith
  have "frame_paddr (kp_cmap s) a \<noteq> 0" by (rule frame_paddr_nonzero [OF rng lt])
  moreover have "PADDR_TO_KVADDR (frame_paddr (kp_cmap s) a) \<noteq> 0"
    using kpage_frame [OF rng lt] kpage_nonzero by metis
  ultimately show ?thesis
    using assms(4) Some r by (auto simp: alloc_kpages_boot [OF assms(1)] nth_cm_abs)
qed

lemma alloc_kpages_early:
  assumes "\<not> cm_bootstrapped (kp_cmap s)"
  shows "alloc_kpages n s = Some (va, s') \<longleftrightarrow> dumbvm_can_sleep (kp_cpu s) = Some () \<and>
    va = (if fst (ram_stealmem n (kp_ram s)) = 0 then 0 else PADDR_TO_KVADDR (fst (ram_stealmem n (kp_ram s)))) \<and>
    s' = s\<lparr>kp_ram := snd (ram_stealmem n (kp_ram s))\<rparr>"
  using assms by (cases "dumbvm_can_sleep (kp_cpu s)")
    (auto simp: alloc_kpages_def is_bootstrapped_def getppages_def split: prod.splits)

lemma unat_page_run: "unat n \<le> 0x80000 \<Longrightarrow> n \<le> (max_pages :: u32)"
  by (simp add: word_le_nat_alt)

lemma alloc_kpages_block:
  assumes "kp_inv s" "0 < n" "n \<le> max_pages" "alloc_kpages n s = Some (va, s')" "va \<noteq> 0"
  shows "kp_inv s' \<and> (\<exists>p. va = kpage p \<and> p + unat n \<le> 0x20000 \<and>
    {p..<p + unat n} \<inter> kp_held s = {} \<and> kp_held s' = kp_held s \<union> {p..<p + unat n})"
proof (cases "cm_bootstrapped (kp_cmap s)")
  case True
  let ?c = "kp_cmap s" and ?b = "cm_base (kp_cmap s)"
  from True assms(1) have wf: "cm_wf ?c" by (simp add: kp_inv_def)
  have n: "0 < unat n" using assms(2) by (simp add: unat_gt_0)
  from alloc_kpages_frames [OF True wf assms(2,4)] assms(5) obtain a
    where a: "a + unat n \<le> ram_frames ?c" "va = PADDR_TO_KVADDR (frame_paddr ?c a)"
      "kalloc_scan (cm_entries ?c) (unat n) 0 0 = Some a"
      "\<And>j. a \<le> j \<Longrightarrow> j < a + unat n \<Longrightarrow> cm_abs ?c ! j = Unowned"
    and s': "s' = s\<lparr>kp_cmap := snd (frame_kalloc (unat n) ?c)\<rparr>" by auto
  have rng: "cm_range_ok ?c" using wf by (simp add: cm_wf_def)
  have base: "cm_base (kp_cmap s') = ?b" by (simp add: s' cm_base_def)
  have abs: "cm_abs (kp_cmap s') = upd_range (\<lambda>_ _. Kernel) a (unat n) (cm_abs ?c)"
    using frame_kalloc_abs [OF n a(3)] by (simp add: s')
  have boot': "cm_bootstrapped (kp_cmap s')" using True by (simp add: s')
  have "kp_held s' = kp_held s \<union> {?b + a..<?b + a + unat n}"
    using kp_held_update [OF True boot' base abs a(1)] by simp
  moreover have "va = kpage (?b + a)" using kpage_frame(1) [OF rng, of a] a(1,2) n by simp
  moreover have "?b + a + unat n \<le> 0x20000" using cm_base_frames [OF rng] a(1) by linarith
  moreover have "{?b + a..<?b + a + unat n} \<inter> kp_held s = {}"
  proof (rule equals0I, elim IntE)
    fix p assume p: "p \<in> {?b + a..<?b + a + unat n}" and "p \<in> kp_held s"
    define i where "i = p - ?b"
    have "p = ?b + i" "a \<le> i" "i < a + unat n" using p by (auto simp: i_def)
    with \<open>p \<in> kp_held s\<close> a(4) [of i] show False using kp_held_boot [OF True, of i] by simp
  qed
  moreover have "kp_inv s'" using frame_kalloc_wf [OF wf n] True by (simp add: s' kp_inv_def)
  ultimately show ?thesis by blast
next
  case False
  let ?r = "kp_ram s"
  obtain pa r' where st: "ram_stealmem n ?r = (pa, r')" by fastforce
  from alloc_kpages_early [OF False, of n va s'] assms(4,5) st
  have va: "va = PADDR_TO_KVADDR pa" "pa \<noteq> 0" "s' = s\<lparr>kp_ram := r'\<rparr>" by (auto split: if_splits)
  from assms(1) False have ok: "ram_ok ?r" by (simp add: kp_inv_def)
  from stealmem_ok [OF ok assms(2,3) st] va(2) have fit: "unat (rm_firstpaddr ?r) + unat n * 4096 \<le> unat (rm_lastpaddr ?r)"
    and r: "pa = rm_firstpaddr ?r" "ram_ok r'" "unat (rm_firstpaddr r') = unat (rm_firstpaddr ?r) + unat n * 4096"
    by (auto split: if_splits)
  from ok obtain p where p: "unat (rm_firstpaddr ?r) = 4096 * p" by (auto simp: ram_ok_def elim!: dvdE)
  have top: "unat (rm_lastpaddr ?r) \<le> 0x20000000" using ok by (simp add: ram_ok_def word_le_nat_alt)
  with fit p have b: "p + unat n \<le> 0x20000" by linarith
  have "unat (of_nat p * PAGE_SIZE :: u32) = unat pa"
    using b p r(1) unat_of_nat_u32 [of p] by (simp only: unat_word_ariths) simp
  then have "va = kpage p" unfolding kpage_def va(1) by (metis word_unat_eq_iff)
  moreover have "kp_inv s'" using False r(2) va(3) by (simp add: kp_inv_def)
  moreover have h: "kp_held s = {..<p}" "kp_held s' = {..<p + unat n}"
    using False p r(3) va(3) by (simp_all add: kp_held_def)
  have "{p..<p + unat n} \<inter> kp_held s = {}" "kp_held s' = kp_held s \<union> {p..<p + unat n}"
    unfolding h by auto
  ultimately show ?thesis using b by (intro conjI exI [of _ p])
qed

lemma alloc_kpages_fail:
  assumes "kp_inv s" "0 < n" "n \<le> max_pages" "alloc_kpages n s = Some (0, s')"
  shows "s' = s"
proof (cases "cm_bootstrapped (kp_cmap s)")
  case True
  with assms alloc_kpages_frames [OF True _ assms(2,4)] show ?thesis by (simp add: kp_inv_def)
next
  case False
  obtain pa r' where st: "ram_stealmem n (kp_ram s) = (pa, r')" by fastforce
  from assms(1) False have ok: "ram_ok (kp_ram s)" by (simp add: kp_inv_def)
  show ?thesis
  proof (cases "pa = 0")
    case True
    with stealmem_ok [OF ok assms(2,3) st] have "r' = kp_ram s" by (auto split: if_splits)
    with alloc_kpages_early [OF False] assms(4) st show ?thesis by simp
  next
    case pa: False
    with stealmem_ok [OF ok assms(2,3) st] ok have "unat pa \<le> 0x20000000"
      by (auto simp: ram_ok_def word_le_nat_alt split: if_splits)
    then have "unat (PADDR_TO_KVADDR pa) = unat pa + 0x80000000"
      by (simp add: PADDR_TO_KVADDR_def unat_add_u32)
    then have "PADDR_TO_KVADDR pa \<noteq> 0" by (metis unat_0 add_is_0 zero_neq_numeral)
    with alloc_kpages_early [OF False, of n 0 s'] assms(4) st pa show ?thesis by (auto split: if_splits)
  qed
qed

interpretation kpg: page_source alloc_kpages kp_held kp_inv
  by unfold_locales (auto dest: alloc_kpages_block alloc_kpages_fail)

subsection \<open>Release\<close>

locale page_store = page_source alloc held inv
  for alloc :: "u32 \<Rightarrow> 's \<Rightarrow> (vaddr_t \<times> 's) option" and held :: "'s \<Rightarrow> nat set" and inv :: "'s \<Rightarrow> bool" +
  fixes free :: "vaddr_t \<Rightarrow> 's \<Rightarrow> 's option"
    and blocks :: "'s \<Rightarrow> vaddr_t \<Rightarrow> nat option"
  assumes alloc_blocks: "\<lbrakk>inv s; 0 < n; n \<le> max_pages; alloc n s = Some (va, s'); va \<noteq> 0\<rbrakk> \<Longrightarrow>
      blocks s' = (blocks s)(va \<mapsto> unat n)"
    and blocks_held: "\<lbrakk>inv s; blocks s va = Some k\<rbrakk> \<Longrightarrow>
      0 < k \<and> (\<exists>p. va = kpage p \<and> p + k \<le> 0x20000) \<and> block_pages (va, k) \<subseteq> held s"
    and free_block: "\<lbrakk>inv s; blocks s va = Some k\<rbrakk> \<Longrightarrow>
      \<exists>s'. free va s = Some s' \<and> inv s' \<and> blocks s' = (blocks s)(va := None) \<and>
           held s' = held s - block_pages (va, k)"
begin

text \<open>A new block is none of those that are out, and giving it back restores what was in use.\<close>

lemma alloc_fresh:
  assumes "inv s" "0 < n" "n \<le> max_pages" "alloc n s = Some (va, s')" "va \<noteq> 0"
  shows "blocks s va = None"
proof (rule ccontr)
  assume "blocks s va \<noteq> None"
  then obtain m where m: "blocks s va = Some m" by auto
  from alloc_block [OF assms] obtain p where p: "va = kpage p" "p + unat n \<le> 0x20000"
    "{p..<p + unat n} \<inter> held s = {}" by auto
  from blocks_held [OF assms(1) m] obtain q where q: "0 < m" "va = kpage q" "q + m \<le> 0x20000"
    "block_pages (va, m) \<subseteq> held s" by auto
  have n: "0 < unat n" using assms(2) by (simp add: unat_gt_0)
  have "p < 0x20000" "q < 0x20000" using p(2) q(1,3) n by simp_all
  with p(1) q(2) kpage_inj [of p q] have "p = q" by simp
  have "p \<in> block_pages (va, m)" using q(1-3) \<open>p = q\<close> by simp
  with q(4) have "p \<in> held s" by blast
  moreover have "p \<in> {p..<p + unat n}" using n by simp
  ultimately show False using p(3) by blast
qed

lemma alloc_free_restores:
  assumes "inv s" "0 < n" "n \<le> max_pages" "alloc n s = Some (va, s')" "va \<noteq> 0"
  shows "\<exists>s''. free va s' = Some s'' \<and> inv s'' \<and> held s'' = held s \<and> blocks s'' = blocks s"
proof -
  from alloc_block [OF assms] obtain p where p: "inv s'" "va = kpage p" "p + unat n \<le> 0x20000"
    "{p..<p + unat n} \<inter> held s = {}" "held s' = held s \<union> {p..<p + unat n}" by auto
  from alloc_blocks [OF assms] have b: "blocks s' = (blocks s)(va \<mapsto> unat n)" .
  then obtain s'' where f: "free va s' = Some s''" "inv s''" "blocks s'' = (blocks s')(va := None)"
    "held s'' = held s' - block_pages (va, unat n)"
    using free_block [OF p(1), of va "unat n"] by auto
  have n: "0 < unat n" using assms(2) by (simp add: unat_gt_0)
  then have "held s'' = held s" using f(4) p(2,3,4,5) by auto
  moreover have "blocks s'' = blocks s"
    using f(3) b alloc_fresh [OF assms] by (simp add: fun_upd_idem)
  ultimately show ?thesis using f by blast
qed

text \<open>Blocks that are out never share a page, as an invariant of allocation and release.\<close>

definition apart :: "'s \<Rightarrow> bool" where
  "apart s \<longleftrightarrow> (\<forall>va n vb m. blocks s va = Some n \<longrightarrow> blocks s vb = Some m \<longrightarrow> va \<noteq> vb \<longrightarrow>
     block_pages (va, n) \<inter> block_pages (vb, m) = {})"

lemma apart_alloc:
  assumes "inv s" "apart s" "0 < n" "n \<le> max_pages" "alloc n s = Some (va, s')" "va \<noteq> 0"
  shows "apart s'"
proof -
  from alloc_block [OF assms(1,3-6)] obtain p where p: "va = kpage p" "p + unat n \<le> 0x20000"
    "{p..<p + unat n} \<inter> held s = {}" by auto
  have n: "0 < unat n" using assms(3) by (simp add: unat_gt_0)
  have "block_pages (va, unat n) \<inter> held s = {}" using p n by simp
  then have new: "block_pages (va, unat n) \<inter> block_pages (vb, m) = {}" if "blocks s vb = Some m" for vb m
    using blocks_held [OF assms(1) that] by blast
  have b: "blocks s' = (blocks s)(va \<mapsto> unat n)" by (rule alloc_blocks [OF assms(1,3-6)])
  show ?thesis unfolding apart_def
  proof (intro allI impI)
    fix v k w m assume v: "blocks s' v = Some k" and w: "blocks s' w = Some m" and ne: "v \<noteq> w"
    consider "v = va" "blocks s w = Some m" "k = unat n" | "w = va" "blocks s v = Some k" "m = unat n"
      | "blocks s v = Some k" "blocks s w = Some m"
      using v w ne by (cases "v = va"; cases "w = va") (simp_all add: b)
    then show "block_pages (v, k) \<inter> block_pages (w, m) = {}"
    proof cases
      case 1 then show ?thesis using new by simp
    next
      case 2 then show ?thesis using new [of v k] by (simp add: Int_commute)
    next
      case 3 then show ?thesis using assms(2) ne unfolding apart_def by blast
    qed
  qed
qed

lemma apart_free:
  assumes "inv s" "apart s" "blocks s va = Some n" "free va s = Some s'"
  shows "apart s'"
proof -
  from free_block [OF assms(1,3)] assms(4) have "blocks s' = (blocks s)(va := None)" by auto
  with assms(2) show ?thesis unfolding apart_def by (metis fun_upd_apply option.distinct(1))
qed

end

definition kp_live :: "kpages \<Rightarrow> bool" where
  "kp_live s \<longleftrightarrow> kp_inv s \<and> cm_bootstrapped (kp_cmap s)"

lemma kp_blocks_frame:
  assumes "cm_range_ok (kp_cmap s)"
  shows "kp_blocks s va = Some n \<longleftrightarrow>
    (\<exists>i < ram_frames (kp_cmap s). va = PADDR_TO_KVADDR (frame_paddr (kp_cmap s) i) \<and>
       cme_state (cm_entries (kp_cmap s) ! i) = FIXED \<and> 0 < n \<and> cme_npages (cm_entries (kp_cmap s) ! i) = n)"
proof (rule iffI)
  assume "kp_blocks s va = Some n"
  then show "\<exists>i < ram_frames (kp_cmap s). va = PADDR_TO_KVADDR (frame_paddr (kp_cmap s) i) \<and>
       cme_state (cm_entries (kp_cmap s) ! i) = FIXED \<and> 0 < n \<and> cme_npages (cm_entries (kp_cmap s) ! i) = n"
    by (auto simp: kp_blocks_def Let_def split: if_splits)
next
  assume "\<exists>i < ram_frames (kp_cmap s). va = PADDR_TO_KVADDR (frame_paddr (kp_cmap s) i) \<and>
       cme_state (cm_entries (kp_cmap s) ! i) = FIXED \<and> 0 < n \<and> cme_npages (cm_entries (kp_cmap s) ! i) = n"
  then show "kp_blocks s va = Some n"
    using assms by (auto simp: kp_blocks_def Let_def)
qed

lemma option_map_eqI: "(\<And>x y. f x = Some y \<longleftrightarrow> g x = Some y) \<Longrightarrow> f = g"
  by (intro ext option_eqI) blast

lemma frame_kvaddr_inj:
  "cm_range_ok c \<Longrightarrow> i < ram_frames c \<Longrightarrow> j < ram_frames c \<Longrightarrow>
   PADDR_TO_KVADDR (frame_paddr c i) = PADDR_TO_KVADDR (frame_paddr c j) \<longleftrightarrow> i = j"
  by (simp add: PADDR_TO_KVADDR_def frame_paddr_inj)

text \<open>The two operations that touch a block's entries, seen through kp_blocks.\<close>

lemma kp_blocks_alloc:
  assumes "kp_live s" "0 < n" "alloc_kpages n s = Some (va, s')" "va \<noteq> 0"
  shows "kp_blocks s' = (kp_blocks s)(va \<mapsto> unat n)"
proof -
  let ?c = "kp_cmap s" and ?es = "cm_entries (kp_cmap s)"
  from assms(1) have boot: "cm_bootstrapped ?c" and wf: "cm_wf ?c" by (auto simp: kp_live_def kp_inv_def)
  have n: "0 < unat n" using assms(2) by (simp add: unat_gt_0)
  from alloc_kpages_frames [OF boot wf assms(2,3)] assms(4) obtain a
    where a: "a + unat n \<le> ram_frames ?c" "va = PADDR_TO_KVADDR (frame_paddr ?c a)"
      "kalloc_scan ?es (unat n) 0 0 = Some a"
      "\<And>j. a \<le> j \<Longrightarrow> j < a + unat n \<Longrightarrow> cm_abs ?c ! j = Unowned"
    and s': "s' = s\<lparr>kp_cmap := snd (frame_kalloc (unat n) ?c)\<rparr>" by auto
  have rng: "cm_range_ok ?c" using wf by (simp add: cm_wf_def)
  let ?c' = "kp_cmap s'"
  have es': "cm_entries ?c' = upd_range (kalloc_mark ?c (unat n) a) a (unat n) ?es"
    using a(3) by (simp add: s' frame_kalloc_def)
  have pad: "frame_paddr ?c' = frame_paddr ?c" by (rule ext) (simp add: frame_paddr_def s')
  have rng': "cm_range_ok ?c'" using rng es' by (simp add: cm_range_ok_def s')
  have free: "cme_state (?es ! j) = FREE \<and> cme_npages (?es ! j) = 0" if "a \<le> j" "j < a + unat n" for j
  proof -
    have j: "j < ram_frames ?c" using that a(1) by linarith
    then have "cme_state (?es ! j) = FREE" using a(4) [OF that] by (simp add: nth_cm_abs)
    moreover have "entry_ok (?es ! j)" using wf j by (simp add: cm_wf_def)
    ultimately show ?thesis by (simp add: entry_ok_def)
  qed
  have at: "cme_state (cm_entries ?c' ! i) = FIXED \<and> cme_npages (cm_entries ?c' ! i) = m \<and> 0 < m \<longleftrightarrow>
      (if i = a then m = unat n else cme_state (?es ! i) = FIXED \<and> cme_npages (?es ! i) = m \<and> 0 < m)"
    if "i < ram_frames ?c" for i m
    using that a(1) n free [of i] by (auto simp: es' nth_upd_range kalloc_mark_def)
  have a_lt: "a < ram_frames ?c" using a(1) n by linarith
  have len: "ram_frames ?c' = ram_frames ?c" by (simp add: es')
  show ?thesis
  proof (rule option_map_eqI)
    fix v m
    have "kp_blocks s' v = Some m \<longleftrightarrow> (\<exists>i < ram_frames ?c. v = PADDR_TO_KVADDR (frame_paddr ?c i) \<and>
        (if i = a then m = unat n else cme_state (?es ! i) = FIXED \<and> cme_npages (?es ! i) = m \<and> 0 < m))"
      unfolding kp_blocks_frame [OF rng'] len pad using at by blast
    also have "\<dots> \<longleftrightarrow> (if v = va then m = unat n else kp_blocks s v = Some m)"
    proof (cases "v = va")
      case True
      then show ?thesis using a_lt frame_kvaddr_inj [OF rng] a(2) by auto
    next
      case False
      then show ?thesis unfolding kp_blocks_frame [OF rng] using a(2) by auto
    qed
    finally show "kp_blocks s' v = Some m \<longleftrightarrow> ((kp_blocks s)(va \<mapsto> unat n)) v = Some m" by auto
  qed
qed

lemma kp_blocks_held:
  assumes "kp_live s" "kp_blocks s va = Some n"
  shows "0 < n \<and> (\<exists>p. va = kpage p \<and> p + n \<le> 0x20000) \<and> block_pages (va, n) \<subseteq> kp_held s"
proof -
  let ?c = "kp_cmap s" and ?b = "cm_base (kp_cmap s)"
  from assms(1) have boot: "cm_bootstrapped ?c" and wf: "cm_wf ?c" by (auto simp: kp_live_def kp_inv_def)
  then have rng: "cm_range_ok ?c" by (simp add: cm_wf_def)
  from assms(2) obtain i where i: "i < ram_frames ?c" "va = PADDR_TO_KVADDR (frame_paddr ?c i)"
    "cme_state (cm_entries ?c ! i) = FIXED" "0 < n" "cme_npages (cm_entries ?c ! i) = n"
    unfolding kp_blocks_frame [OF rng] by blast
  note blk = kernel_block [OF wf i(1,3), unfolded i(5)]
  have va: "va = kpage (?b + i)" "?b + i + n \<le> 0x20000"
    using kpage_frame(1) [OF rng i(1)] i(2) cm_base_frames [OF rng] blk(1) by simp_all
  have "block_pages (va, n) = {?b + i..<?b + i + n}" using va i(4) by simp
  moreover have "{?b + i..<?b + i + n} \<subseteq> kp_held s"
  proof
    fix p assume p: "p \<in> {?b + i..<?b + i + n}"
    define j where "j = p - ?b"
    have j: "p = ?b + j" "j \<in> {i..<i + n}" using p by (auto simp: j_def)
    then have "j < ram_frames ?c" using blk(1) by simp
    with blk(2) [OF j(2)] show "p \<in> kp_held s"
      using kp_held_boot [OF boot, of j] j(1) by (simp add: nth_cm_abs)
  qed
  ultimately show ?thesis using va i(4) by blast
qed

lemma kp_free_block:
  assumes "kp_live s" "kp_blocks s va = Some n"
  shows "\<exists>s'. free_kpages va s = Some s' \<and> kp_live s' \<and> kp_blocks s' = (kp_blocks s)(va := None) \<and>
    kp_held s' = kp_held s - block_pages (va, n)"
proof -
  let ?c = "kp_cmap s" and ?es = "cm_entries (kp_cmap s)" and ?b = "cm_base (kp_cmap s)"
  from assms(1) have boot: "cm_bootstrapped ?c" and wf: "cm_wf ?c" by (auto simp: kp_live_def kp_inv_def)
  then have rng: "cm_range_ok ?c" by (simp add: cm_wf_def)
  from assms(2) obtain i where i: "i < ram_frames ?c" "va = PADDR_TO_KVADDR (frame_paddr ?c i)"
    "cme_state (?es ! i) = FIXED" "0 < n" "cme_npages (?es ! i) = n"
    unfolding kp_blocks_frame [OF rng] by blast
  note blk = kernel_block [OF wf i(1,3), unfolded i(5)]
  define c' where "c' = ?c\<lparr>cm_entries := upd_range (\<lambda>_. free_entry) i n ?es\<rparr>"
  have f: "frame_kfree va ?c = Some (True, c')"
    using boot rng i blk(1) by (simp add: frame_kfree_def Let_def c'_def)
  define s' where "s' = s\<lparr>kp_cmap := c'\<rparr>"
  have free: "free_kpages va s = Some s'" using boot f by (simp add: free_kpages_def is_bootstrapped_def s'_def)
  have wf': "cm_wf c'" using frame_kfree_wf [OF wf i(1,3)] f i(2) by blast
  have live: "kp_live s'" using wf' boot by (simp add: kp_live_def kp_inv_def s'_def c'_def)
  have abs: "cm_abs c' = upd_range (\<lambda>_ _. Unowned) i n (cm_abs ?c)"
    using frame_kfree_abs [OF wf i(1,3)] f i(2,5) by blast
  have "kp_held s' = kp_held s - {?b + i..<?b + i + n}"
  proof -
    have cm: "kp_cmap s' = c'" "cm_bootstrapped c'" "cm_base c' = ?b"
      using boot by (simp_all add: s'_def c'_def cm_base_def)
    show ?thesis
      using kp_held_update [of s s' Unowned i n, unfolded cm(1), OF boot cm(2,3) abs blk(1)] by simp
  qed
  moreover have "block_pages (va, n) = {?b + i..<?b + i + n}"
    using kpage_frame(1) [OF rng i(1)] i(2,4) cm_base_frames [OF rng] blk(1) by simp
  ultimately have held: "kp_held s' = kp_held s - block_pages (va, n)" by simp
  have inner: "cme_npages (?es ! j) = 0" if "i < j" "j < i + n" for j
  proof -
    have "blocks_ok ?es" using wf by (simp add: cm_wf_def)
    from this [unfolded blocks_ok_def, rule_format, OF i(1,3)] that i(5) show ?thesis by blast
  qed
  have pad: "frame_paddr c' = frame_paddr ?c" by (rule ext) (simp add: frame_paddr_def c'_def)
  have rng': "cm_range_ok (kp_cmap s')" using wf' by (simp add: cm_wf_def s'_def)
  have len: "ram_frames c' = ram_frames ?c" by (simp add: c'_def)
  have at: "cme_state (cm_entries c' ! j) = FIXED \<and> 0 < m \<and> cme_npages (cm_entries c' ! j) = m \<longleftrightarrow>
      j \<noteq> i \<and> cme_state (?es ! j) = FIXED \<and> 0 < m \<and> cme_npages (?es ! j) = m"
    if "j < ram_frames ?c" for j m
    using that inner [of j] i(4) by (auto simp: c'_def nth_upd_range free_entry_def)
  have "kp_blocks s' = (kp_blocks s)(va := None)"
  proof (rule option_map_eqI)
    fix v m
    have "kp_blocks s' v = Some m \<longleftrightarrow> (\<exists>j < ram_frames ?c. v = PADDR_TO_KVADDR (frame_paddr ?c j) \<and>
        j \<noteq> i \<and> cme_state (?es ! j) = FIXED \<and> 0 < m \<and> cme_npages (?es ! j) = m)"
      unfolding kp_blocks_frame [OF rng'] using at by (simp add: s'_def len pad) blast
    also have "\<dots> \<longleftrightarrow> v \<noteq> va \<and> kp_blocks s v = Some m"
      unfolding kp_blocks_frame [OF rng] using frame_kvaddr_inj [OF rng] i(1,2) by blast
    finally show "kp_blocks s' v = Some m \<longleftrightarrow> ((kp_blocks s)(va := None)) v = Some m" by auto
  qed
  with free live held show ?thesis by blast
qed

lemma alloc_kpages_live: "kp_live s \<Longrightarrow> alloc_kpages n s = Some (va, s') \<Longrightarrow> cm_bootstrapped (kp_cmap s')"
  by (auto simp: kp_live_def alloc_kpages_boot split: option.splits)

interpretation kps: page_store alloc_kpages kp_held kp_live free_kpages kp_blocks
proof unfold_locales
  fix s n va s'
  assume a: "kp_live s" "0 < n" "n \<le> max_pages" "alloc_kpages n s = Some (va, s')" "va \<noteq> 0"
  from a have "kp_inv s" by (simp add: kp_live_def)
  from alloc_kpages_block [OF this a(2-5)] alloc_kpages_live [OF a(1,4)]
  show "kp_live s' \<and> (\<exists>p. va = kpage p \<and> p + unat n \<le> 0x20000 \<and> {p..<p + unat n} \<inter> kp_held s = {} \<and>
      kp_held s' = kp_held s \<union> {p..<p + unat n})" by (simp add: kp_live_def)
  show "kp_blocks s' = (kp_blocks s)(va \<mapsto> unat n)" by (rule kp_blocks_alloc [OF a(1,2,4,5)])
next
  fix s n s' assume "kp_live s" "0 < n" "n \<le> max_pages" "alloc_kpages n s = Some (0, s')"
  then show "s' = s" using alloc_kpages_fail by (simp add: kp_live_def)
next
  fix s va k assume a: "kp_live s" "kp_blocks s va = Some k"
  show "0 < k \<and> (\<exists>p. va = kpage p \<and> p + k \<le> 0x20000) \<and> block_pages (va, k) \<subseteq> kp_held s"
    by (rule kp_blocks_held [OF a])
  show "\<exists>s'. free_kpages va s = Some s' \<and> kp_live s' \<and> kp_blocks s' = (kp_blocks s)(va := None) \<and>
      kp_held s' = kp_held s - block_pages (va, k)"
    by (rule kp_free_block [OF a])
qed

subsection \<open>Properties\<close>

definition kp_demo :: kpages where
  "kp_demo = \<lparr>kp_ram = \<lparr>rm_firstpaddr = 0x1000, rm_lastpaddr = 0x6000\<rparr>, kp_cmap = cm_demo,
     kp_cpu = Some \<lparr>c_spinlocks = 0, t_in_interrupt = False\<rparr>\<rparr>"

lemma kp_demo_live: "kp_live kp_demo"
  using cm_demo_wf by (simp add: kp_live_def kp_inv_def kp_demo_def cm_wf_def)

lemma kp_demo_alloc: "\<exists>s'. alloc_kpages 2 kp_demo = Some (0x80004000, s')"
proof -
  have c: "kp_cmap kp_demo = cm_demo" by (simp add: kp_demo_def)
  have b: "cm_bootstrapped (kp_cmap kp_demo)" using cm_demo_wf by (simp add: c cm_wf_def)
  have "frame_paddr cm_demo 3 = 0x4000" by (simp add: frame_paddr_def cm_demo_def)
  then show ?thesis using cm_demo_scan by (simp add: alloc_kpages_boot [OF b] c PADDR_TO_KVADDR_def)
qed

text \<open>C23: alloc_kpages hands out unused pages and free_kpages takes back exactly those. Once the
  coremap is up, a block that alloc_kpages returns is page-aligned, none of its pages was in use,
  and after it is freed the pages in use and the blocks that are out are what they were.\<close>

theorem alloc_kpages_free_restores:
  assumes "kp_live s" "0 < n" "n \<le> max_pages" "alloc_kpages n s = Some (va, s1)" "va \<noteq> 0"
  shows "va AND PAGE_FRAME = va \<and> block_pages (va, unat n) \<inter> kp_held s = {} \<and>
    kp_held s1 = kp_held s \<union> block_pages (va, unat n) \<and>
    (\<exists>s2. free_kpages va s1 = Some s2 \<and> kp_live s2 \<and> kp_held s2 = kp_held s \<and> kp_blocks s2 = kp_blocks s)"
proof -
  obtain p where p: "va = kpage p" "p + unat n \<le> 0x20000" "{p..<p + unat n} \<inter> kp_held s = {}"
    "kp_held s1 = kp_held s \<union> {p..<p + unat n}"
    using kps.alloc_block [OF assms] by blast
  have n: "0 < unat n" using assms(2) by (simp add: unat_gt_0)
  then have "block_pages (va, unat n) = {p..<p + unat n}" "va AND PAGE_FRAME = va"
    using p(1,2) kpage_aligned [of p] by simp_all
  with p kps.alloc_free_restores [OF assms] show ?thesis by simp
qed

theorem alloc_kpages_free_restores_witness:
  "\<exists>s1 s2. alloc_kpages 2 kp_demo = Some (0x80004000, s1) \<and> free_kpages 0x80004000 s1 = Some s2 \<and>
     kp_held s2 = kp_held kp_demo"
proof -
  obtain s1 where a: "alloc_kpages 2 kp_demo = Some (0x80004000, s1)" using kp_demo_alloc by blast
  with alloc_kpages_free_restores [OF kp_demo_live _ _ a] show ?thesis by auto
qed

text \<open>Below the first frame of the coremap free_kpages computes an index outside the array.\<close>

lemma free_kpages_below:
  assumes "kp_live s" "p < cm_base (kp_cmap s)"
  shows "ram_frames (kp_cmap s) \<le> frame_pos (kp_cmap s) (kpage p - MIPS_KSEG0)" "free_kpages (kpage p) s = None"
proof -
  let ?c = "kp_cmap s"
  from assms(1) have boot: "cm_bootstrapped ?c" and rng: "cm_range_ok ?c"
    by (auto simp: kp_live_def kp_inv_def cm_wf_def)
  then have b: "cm_base ?c + ram_frames ?c \<le> 0x20000" and d: "unat (cm_firstpaddr ?c) = cm_base ?c * 4096"
    by (auto simp: cm_base_frames) (auto simp: cm_range_ok_def cm_base_def)
  have k: "unat (kpage p - MIPS_KSEG0) = p * 4096" using assms(2) b kpage_number [of p] by simp
  have lt: "kpage p - MIPS_KSEG0 < cm_firstpaddr ?c"
    unfolding word_less_nat_alt k d using assms(2) by simp
  then have "unat (kpage p - MIPS_KSEG0 - cm_firstpaddr ?c) = 4294967296 + p * 4096 - cm_base ?c * 4096"
    using assms(2) k d by (subst unat_sub_if') (simp add: word_le_nat_alt word_less_nat_alt)
  then have "frame_pos ?c (kpage p - MIPS_KSEG0) = (4294967296 + p * 4096 - cm_base ?c * 4096) div 4096"
    by (simp add: frame_pos_def unat_div_u32)
  also have "\<dots> = 1048576 + p - cm_base ?c"
  proof -
    have "4294967296 + p * 4096 - cm_base ?c * 4096 = (1048576 + p - cm_base ?c) * 4096"
      using b by (simp add: diff_mult_distrib)
    then show ?thesis by simp
  qed
  finally have "ram_frames ?c \<le> frame_pos ?c (kpage p - MIPS_KSEG0)" using b by linarith
  then show "ram_frames ?c \<le> frame_pos ?c (kpage p - MIPS_KSEG0)" "free_kpages (kpage p) s = None"
    using boot by (simp_all add: free_kpages_def is_bootstrapped_def frame_kfree_def Let_def)
qed

text \<open>What runs of alloc_kpages leave of the coremap before and after the boot.\<close>

lemma alloc_all_early:
  assumes "\<not> cm_bootstrapped (kp_cmap s)" "kpg.alloc_all ns s = Some (bs, s')"
  shows "kp_cmap s' = kp_cmap s"
  using assms
proof (induction ns arbitrary: s bs)
  case (Cons n ns)
  then obtain va s1 bs1 where a: "alloc_kpages n s = Some (va, s1)" "kpg.alloc_all ns s1 = Some (bs1, s')"
    by (auto simp: kpg.alloc_all.simps)
  then have "kp_cmap s1 = kp_cmap s" using alloc_kpages_early [OF Cons.prems(1), of n va s1] by simp
  then show ?case using Cons.IH [OF _ a(2)] Cons.prems(1) by simp
qed (simp add: kpg.alloc_all.simps)

lemma alloc_kpages_base: "cm_bootstrapped (kp_cmap s) \<Longrightarrow> alloc_kpages n s = Some (va, s') \<Longrightarrow>
    cm_base (kp_cmap s') = cm_base (kp_cmap s)"
  by (auto simp: alloc_kpages_boot cm_base_def frame_kalloc_def Let_def split: option.splits)

lemma alloc_all_late:
  assumes "kp_live s" "\<forall>n \<in> set ns. 0 < n \<and> n \<le> max_pages" "kpg.alloc_all ns s = Some (bs, s')"
  shows "kp_live s' \<and> cm_base (kp_cmap s') = cm_base (kp_cmap s)"
  using assms
proof (induction ns arbitrary: s bs)
  case (Cons n ns)
  then obtain va s1 bs1 where a: "alloc_kpages n s = Some (va, s1)" "kpg.alloc_all ns s1 = Some (bs1, s')"
    by (auto simp: kpg.alloc_all.simps)
  have n: "0 < n" "n \<le> max_pages" using Cons.prems(2) by simp_all
  have "kp_live s1" using kps.alloc_block [OF Cons.prems(1) n a(1)] kps.alloc_fail [OF Cons.prems(1) n] a(1) Cons.prems(1)
    by (cases "va = 0") auto
  moreover have "cm_base (kp_cmap s1) = cm_base (kp_cmap s)"
    using alloc_kpages_base [OF _ a(1)] Cons.prems(1) by (simp add: kp_live_def)
  ultimately show ?case using Cons.IH [OF _ _ a(2)] Cons.prems(2) by simp
qed (simp add: kpg.alloc_all.simps)

end
