(* ===== verification/Kmalloc.thy ===== *)
theory Kmalloc
  imports Kpages "HOL-Library.Multiset"
begin

text \<open>
  The kernel heap (kern/vm/kmalloc.c, with the debugging modes undefined as in the
  source). Requests below 2 KB are served from pages that are cut into equal pieces, larger
  ones by whole pages from alloc_kpages.

  A pageref is named by its place in the array of pageref pages: 256 * root + index.
  Its list of free blocks, which the code threads through the first words of the free
  blocks, is the list of their offsets, the one at freelist_offset first (empty for
  INVALID_OFFSET); the contents of blocks are not modelled. The chains next_samesize
  and next_all are the lists sizebases ! blktype and allbase.

  kh_blocks is the heap as its clients see it: the set of (address, length) pairs that
  have been handed out. The locale allocator states what kmalloc and kfree promise
  about it and is interpreted on them; its laws say that a new block meets no byte of a
  block that is out, and that kfree takes back exactly the block it is given.
\<close>

definition sizes :: "nat list" where
  "sizes = [16, 32, 64, 128, 256, 512, 1024, 2048]"

abbreviation (input) NSIZES :: nat where "NSIZES \<equiv> 8"
abbreviation (input) LARGEST_SUBPAGE_SIZE :: u32 where "LARGEST_SUBPAGE_SIZE \<equiv> 2048"
abbreviation (input) NPAGEREFS_PER_PAGE :: nat where "NPAGEREFS_PER_PAGE \<equiv> 256"
abbreviation (input) INUSE_WORDS :: nat where "INUSE_WORDS \<equiv> 8"
abbreviation (input) NUM_PAGEREFPAGES :: nat where "NUM_PAGEREFPAGES \<equiv> 16"

record pageref =
  pageaddr_and_blocktype :: u32
  pr_freelist :: "nat list"
  pr_nfree :: nat

definition PR_PAGEADDR :: "pageref \<Rightarrow> vaddr_t" where
  "PR_PAGEADDR pr = pageaddr_and_blocktype pr AND PAGE_FRAME"

definition PR_BLOCKTYPE :: "pageref \<Rightarrow> nat" where
  "PR_BLOCKTYPE pr = unat (pageaddr_and_blocktype pr AND NOT PAGE_FRAME)"

definition MKPAB :: "vaddr_t \<Rightarrow> nat \<Rightarrow> u32" where
  "MKPAB pa blk = (pa AND PAGE_FRAME) OR (of_nat blk AND NOT PAGE_FRAME)"

text \<open>A root page address of 0 is the NULL of a root whose page has not been allocated.\<close>

record kheap_root =
  root_page :: vaddr_t
  pagerefs_inuse :: "u32 list"
  numinuse :: nat

record kheap_state =
  kheaproots :: "kheap_root list"
  kh_refs :: "nat \<Rightarrow> pageref"
  sizebases :: "nat list list"
  allbase :: "nat list"
  kh_pages :: kpages

subsection \<open>Pagerefs\<close>

definition set_root :: "nat \<Rightarrow> kheap_root \<Rightarrow> kheap_state \<Rightarrow> kheap_state" where
  "set_root w r h = h\<lparr>kheaproots := (kheaproots h)[w := r]\<rparr>"

definition allocpagerefpage :: "nat \<Rightarrow> kheap_state \<Rightarrow> kheap_state option" where
  "allocpagerefpage w h = do {
     root \<leftarrow> arr_get (kheaproots h) w;
     kassert (root_page root = 0);
     (va, kp) \<leftarrow> alloc_kpages 1 (kh_pages h);
     let h1 = h\<lparr>kh_pages := kp\<rparr>;
     if va = 0 then Some h1
     else do {
       kassert (va mod PAGE_SIZE = 0);
       root1 \<leftarrow> arr_get (kheaproots h1) w;
       if root_page root1 \<noteq> 0
       then do { kp2 \<leftarrow> free_kpages va kp; Some (h1\<lparr>kh_pages := kp2\<rparr>) }
       else Some (set_root w (root1\<lparr>root_page := va\<rparr>) h1)
     }
   }"

text \<open>The loop over the roots, from the given one on; the inner loops find a clear bit.\<close>

function allocpageref_from :: "nat \<Rightarrow> kheap_state \<Rightarrow> (nat option \<times> kheap_state) option" where
  "allocpageref_from w h =
     (if w < NUM_PAGEREFPAGES
      then do {
        root \<leftarrow> arr_get (kheaproots h) w;
        if NPAGEREFS_PER_PAGE \<le> numinuse root then allocpageref_from (Suc w) h
        else (case find_idx (\<lambda>word. word \<noteq> 0xffffffff) (pagerefs_inuse root) of
          None \<Rightarrow> allocpageref_from (Suc w) h
        | Some i \<Rightarrow> do {
            j \<leftarrow> find_idx (\<lambda>j. \<not> bit (pagerefs_inuse root ! i) j) [0..<32];
            let root1 = root\<lparr>pagerefs_inuse := (pagerefs_inuse root)[i := set_bit j (pagerefs_inuse root ! i)],
                             numinuse := numinuse root + 1\<rparr>;
            let h1 = set_root w root1 h;
            h2 \<leftarrow> (if root_page root1 = 0 then allocpagerefpage w h1 else Some h1);
            root2 \<leftarrow> arr_get (kheaproots h2) w;
            Some (if root_page root2 = 0 then None else Some (w * NPAGEREFS_PER_PAGE + (i * 32 + j)), h2)
          })
      }
      else Some (None, h))"
  by pat_completeness auto
termination by (relation "measure (\<lambda>(w, _). NUM_PAGEREFPAGES - w)") auto

declare allocpageref_from.simps [simp del]

definition allocpageref :: "kheap_state \<Rightarrow> (nat option \<times> kheap_state) option" where
  "allocpageref h = allocpageref_from 0 h"

function freepageref_from :: "nat \<Rightarrow> nat \<Rightarrow> kheap_state \<Rightarrow> kheap_state option" where
  "freepageref_from w p h =
     (if w < NUM_PAGEREFPAGES
      then do {
        root \<leftarrow> arr_get (kheaproots h) w;
        if root_page root = 0 then do { kassert (numinuse root = 0); freepageref_from (Suc w) p h }
        else if w * NPAGEREFS_PER_PAGE \<le> p \<and> p - w * NPAGEREFS_PER_PAGE < NPAGEREFS_PER_PAGE
        then do {
          let j = p - w * NPAGEREFS_PER_PAGE;
          word \<leftarrow> arr_get (pagerefs_inuse root) (j div 32);
          kassert (bit word (j mod 32));
          kassert (0 < numinuse root);
          Some (set_root w (root\<lparr>pagerefs_inuse := (pagerefs_inuse root)[j div 32 := unset_bit (j mod 32) word],
                                 numinuse := numinuse root - 1\<rparr>) h)
        }
        else freepageref_from (Suc w) p h
      }
      else None)"
  by pat_completeness auto
termination by (relation "measure (\<lambda>(w, _, _). NUM_PAGEREFPAGES - w)") auto

declare freepageref_from.simps [simp del]

definition freepageref :: "nat \<Rightarrow> kheap_state \<Rightarrow> kheap_state option" where
  "freepageref p h = freepageref_from 0 p h"

subsection \<open>Blocks within a page\<close>

definition remove_lists :: "nat \<Rightarrow> nat \<Rightarrow> kheap_state \<Rightarrow> kheap_state option" where
  "remove_lists p blktype h = do {
     kassert (blktype < NSIZES);
     base \<leftarrow> arr_get (sizebases h) blktype;
     Some (h\<lparr>sizebases := (sizebases h)[blktype := remove1 p base], allbase := remove1 p (allbase h)\<rparr>)
   }"

definition blocktype :: "nat \<Rightarrow> nat option" where
  "blocktype clientsz = find_idx (\<lambda>s. clientsz \<le> s) sizes"

text \<open>The code from the label doalloc on: the head of the page's free list is the result.\<close>

definition doalloc :: "nat \<Rightarrow> kheap_state \<Rightarrow> (vaddr_t \<times> kheap_state) option" where
  "doalloc p h =
     (let pr = kh_refs h p in
      case pr_freelist pr of
        [] \<Rightarrow> None
      | off # fl \<Rightarrow> do {
          let nfree = pr_nfree pr - 1;
          kassert (off < PAGE_BYTES);
          kassert (if fl \<noteq> [] then 0 < nfree \<and> hd fl < PAGE_BYTES else nfree = 0);
          Some (PR_PAGEADDR pr + of_nat off, h\<lparr>kh_refs := (kh_refs h)(p := pr\<lparr>pr_freelist := fl, pr_nfree := nfree\<rparr>)\<rparr>)
        })"

text \<open>The walk along sizebases: the first page of the size with a free block, if any.\<close>

fun free_page :: "(nat \<Rightarrow> pageref) \<Rightarrow> nat \<Rightarrow> nat list \<Rightarrow> nat option option" where
  "free_page refs blktype [] = Some None"
| "free_page refs blktype (p # ps) = do {
     kassert (PR_BLOCKTYPE (refs p) = blktype);
     if 0 < pr_nfree (refs p) then Some (Some p) else free_page refs blktype ps
   }"

definition subpage_kmalloc :: "nat \<Rightarrow> kheap_state \<Rightarrow> (vaddr_t \<times> kheap_state) option" where
  "subpage_kmalloc sz h = do {
     blktype \<leftarrow> blocktype sz;
     base \<leftarrow> arr_get (sizebases h) blktype;
     found \<leftarrow> free_page (kh_refs h) blktype base;
     (case found of
        Some p \<Rightarrow> doalloc p h
      | None \<Rightarrow> do {
          (prpage, kp) \<leftarrow> alloc_kpages 1 (kh_pages h);
          let h1 = h\<lparr>kh_pages := kp\<rparr>;
          if prpage = 0 then Some (0, h1)
          else do {
            kassert (prpage mod PAGE_SIZE = 0);
            (ref, h2) \<leftarrow> allocpageref h1;
            (case ref of
               None \<Rightarrow> do {
                 kp3 \<leftarrow> free_kpages prpage (kh_pages h2);
                 Some (0, h2\<lparr>kh_pages := kp3\<rparr>)
               }
             | Some p \<Rightarrow> do {
                 let size = sizes ! blktype;
                 let nfree = PAGE_BYTES div size;
                 let pr = \<lparr>pageaddr_and_blocktype = MKPAB prpage blktype,
                           pr_freelist = rev (map (\<lambda>i. i * size) [0..<nfree]), pr_nfree = nfree\<rparr>;
                 doalloc p (h2\<lparr>kh_refs := (kh_refs h2)(p := pr),
                               sizebases := (sizebases h2)[blktype := p # sizebases h2 ! blktype],
                               allbase := p # allbase h2\<rparr>)
               })
          }
        })
   }"

text \<open>The walk along allbase: the first page that the address lies in, if any.\<close>

fun page_of :: "(nat \<Rightarrow> pageref) \<Rightarrow> vaddr_t \<Rightarrow> nat list \<Rightarrow> nat option option" where
  "page_of refs ptraddr [] = Some None"
| "page_of refs ptraddr (p # ps) = do {
     kassert (PR_BLOCKTYPE (refs p) < NSIZES);
     if PR_PAGEADDR (refs p) \<le> ptraddr \<and> ptraddr < PR_PAGEADDR (refs p) + PAGE_SIZE
     then Some (Some p) else page_of refs ptraddr ps
   }"

text \<open>The result True is the code's 0, False its -1 for a pointer on no page of the heap.\<close>

definition subpage_kfree :: "vaddr_t \<Rightarrow> kheap_state \<Rightarrow> (bool \<times> kheap_state) option" where
  "subpage_kfree ptr h = do {
     found \<leftarrow> page_of (kh_refs h) ptr (allbase h);
     (case found of
        None \<Rightarrow> Some (False, h)
      | Some p \<Rightarrow> do {
          let pr = kh_refs h p;
          let prpage = PR_PAGEADDR pr;
          let blktype = PR_BLOCKTYPE pr;
          let offset = unat (ptr - prpage);
          kassert (offset < PAGE_BYTES \<and> offset mod (sizes ! blktype) = 0);
          kassert (pr_freelist pr \<noteq> [] \<longrightarrow> hd (pr_freelist pr) \<noteq> offset);
          let pr1 = pr\<lparr>pr_freelist := offset # pr_freelist pr, pr_nfree := pr_nfree pr + 1\<rparr>;
          let h1 = h\<lparr>kh_refs := (kh_refs h)(p := pr1)\<rparr>;
          kassert (pr_nfree pr1 \<le> PAGE_BYTES div (sizes ! blktype));
          if pr_nfree pr1 = PAGE_BYTES div (sizes ! blktype)
          then do {
            h2 \<leftarrow> remove_lists p blktype h1;
            h3 \<leftarrow> freepageref p h2;
            kp \<leftarrow> free_kpages prpage (kh_pages h3);
            Some (True, h3\<lparr>kh_pages := kp\<rparr>)
          }
          else Some (True, h1)
        })
   }"

subsection \<open>kmalloc and kfree\<close>

definition kmalloc :: "u32 \<Rightarrow> kheap_state \<Rightarrow> (vaddr_t \<times> kheap_state) option" where
  "kmalloc sz h =
     (if LARGEST_SUBPAGE_SIZE \<le> sz
      then do {
        let npages = (sz + PAGE_SIZE - 1) div PAGE_SIZE;
        (address, kp) \<leftarrow> alloc_kpages npages (kh_pages h);
        kassert (address mod PAGE_SIZE = 0);
        Some (address, h\<lparr>kh_pages := kp\<rparr>)
      }
      else subpage_kmalloc (unat sz) h)"

definition kfree :: "vaddr_t \<Rightarrow> kheap_state \<Rightarrow> kheap_state option" where
  "kfree ptr h =
     (if ptr = 0 then Some h
      else do {
        (done, h1) \<leftarrow> subpage_kfree ptr h;
        if done then Some h1
        else do {
          kassert (ptr mod PAGE_SIZE = 0);
          kp \<leftarrow> free_kpages ptr (kh_pages h1);
          Some (h1\<lparr>kh_pages := kp\<rparr>)
        }
      })"

subsection \<open>vm_bootstrap\<close>

text \<open>
  vm_bootstrap of kern/vm/vm.c with the allocation of the coremap array by kmalloc, which
  happens between the two critical sections of cm_bootstrap.
\<close>

definition coremap_frames :: "ram \<Rightarrow> nat" where
  "coremap_frames r = unat ((ram_getsize r - ram_peekfirstfree r) div PAGE_SIZE)"

definition vm_bootstrap :: "bool \<Rightarrow> kheap_state \<Rightarrow> kheap_state option" where
  "vm_bootstrap swap_test h = do {
     let r = kp_ram (kh_pages h);
     (coremap, h1) \<leftarrow> kmalloc (of_nat (coremap_frames r * sizeof_cm_entry)) h;
     c \<leftarrow> (if swap_test then cm_bootstrap_4test (ram_getsize r) (ram_peekfirstfree r) (coremap \<noteq> 0)
          else cm_bootstrap (ram_getsize r) (ram_peekfirstfree r) (coremap \<noteq> 0));
     Some (h1\<lparr>kh_pages := (kh_pages h1)\<lparr>kp_cmap := c\<rparr>\<rparr>)
   }"

subsection \<open>The invariant\<close>

definition blk_size :: "pageref \<Rightarrow> nat" where
  "blk_size pr = sizes ! PR_BLOCKTYPE pr"

definition ref_ok :: "kpages \<Rightarrow> pageref \<Rightarrow> bool" where
  "ref_ok kp pr \<longleftrightarrow> PR_BLOCKTYPE pr < NSIZES \<and> kp_blocks kp (PR_PAGEADDR pr) = Some 1 \<and>
     distinct (pr_freelist pr) \<and> (\<forall>off \<in> set (pr_freelist pr). off < PAGE_BYTES \<and> blk_size pr dvd off) \<and>
     length (pr_freelist pr) = pr_nfree pr"

definition inuse :: "kheap_root \<Rightarrow> nat \<Rightarrow> bool" where
  "inuse r j \<longleftrightarrow> bit (pagerefs_inuse r ! (j div 32)) (j mod 32)"

definition root_ok :: "kpages \<Rightarrow> kheap_root \<Rightarrow> bool" where
  "root_ok kp r \<longleftrightarrow> length (pagerefs_inuse r) = INUSE_WORDS \<and>
     numinuse r = card {j. j < NPAGEREFS_PER_PAGE \<and> inuse r j} \<and>
     (if root_page r = 0 then numinuse r = 0 else kp_blocks kp (root_page r) = Some 1)"

definition heap_pages :: "kheap_state \<Rightarrow> vaddr_t set" where
  "heap_pages h = (\<lambda>p. PR_PAGEADDR (kh_refs h p)) ` set (allbase h)"

definition root_pages :: "kheap_state \<Rightarrow> vaddr_t set" where
  "root_pages h = {root_page r | r. r \<in> set (kheaproots h) \<and> root_page r \<noteq> 0}"

definition ref_used :: "kheap_state \<Rightarrow> nat \<Rightarrow> bool" where
  "ref_used h p \<longleftrightarrow> p div NPAGEREFS_PER_PAGE < NUM_PAGEREFPAGES \<and>
     root_page (kheaproots h ! (p div NPAGEREFS_PER_PAGE)) \<noteq> 0 \<and>
     inuse (kheaproots h ! (p div NPAGEREFS_PER_PAGE)) (p mod NPAGEREFS_PER_PAGE)"

definition pages_ok :: "kpages \<Rightarrow> bool" where
  "pages_ok kp \<longleftrightarrow> kp_live kp \<and> kps.apart kp"

text \<open>The pagerefs of the heap: two lists of the same pages, each with a slot of its own.\<close>

definition refs_ok :: "kheap_state \<Rightarrow> bool" where
  "refs_ok h \<longleftrightarrow> distinct (allbase h) \<and> length (sizebases h) = NSIZES \<and>
     (\<forall>b < NSIZES. sizebases h ! b = filter (\<lambda>p. PR_BLOCKTYPE (kh_refs h p) = b) (allbase h)) \<and>
     (\<forall>p \<in> set (allbase h). ref_ok (kh_pages h) (kh_refs h p) \<and> ref_used h p) \<and>
     inj_on (\<lambda>p. PR_PAGEADDR (kh_refs h p)) (set (allbase h))"

definition roots_ok :: "kheap_state \<Rightarrow> bool" where
  "roots_ok h \<longleftrightarrow> length (kheaproots h) = NUM_PAGEREFPAGES \<and>
     (\<forall>r \<in> set (kheaproots h). root_ok (kh_pages h) r)"

definition kh_wf :: "kheap_state \<Rightarrow> bool" where
  "kh_wf h \<longleftrightarrow> pages_ok (kh_pages h) \<and> refs_ok h \<and> roots_ok h \<and> heap_pages h \<inter> root_pages h = {}"

text \<open>The blocks that are out: the pieces that are on no free list, and the whole pages.\<close>

definition sub_blocks :: "pageref \<Rightarrow> (vaddr_t \<times> nat) set" where
  "sub_blocks pr = {(PR_PAGEADDR pr + of_nat off, blk_size pr) | off.
     off < PAGE_BYTES \<and> blk_size pr dvd off \<and> off \<notin> set (pr_freelist pr)}"

definition kh_blocks :: "kheap_state \<Rightarrow> (vaddr_t \<times> nat) set" where
  "kh_blocks h = (\<Union>p \<in> set (allbase h). sub_blocks (kh_refs h p)) \<union>
     {(va, k * PAGE_BYTES) | va k. kp_blocks (kh_pages h) va = Some k \<and> va \<notin> heap_pages h \<and> va \<notin> root_pages h}"

definition block_bytes :: "vaddr_t \<times> nat \<Rightarrow> nat set" where
  "block_bytes b = {unat (fst b)..<unat (fst b) + snd b}"

subsection \<open>Pages\<close>

lemma kpage_unat: "p < 0x20000 \<Longrightarrow> unat (kpage p) = 0x80000000 + p * 4096"
  by (simp add: kpage_def PADDR_TO_KVADDR_def unat_word_ariths unat_of_nat_u32)

lemma kp_block_range:
  assumes "pages_ok kp" "kp_blocks kp va = Some k"
  shows "0 < k" "4096 dvd unat va" "unat va + k * 4096 \<le> 0xa0000000" "va AND PAGE_FRAME = va" "va \<noteq> 0"
    and "block_bytes (va, k * PAGE_BYTES) = {x. x div 4096 \<in> (+) 0x80000 ` block_pages (va, k)}"
proof -
  obtain p where p: "0 < k" "va = kpage p" "p + k \<le> 0x20000"
    using kps.blocks_held [OF _ assms(2)] assms(1) by (auto simp: pages_ok_def)
  then have u: "unat va = 0x80000000 + p * 4096" by (simp add: kpage_unat)
  show "0 < k" by (rule p(1))
  show "4096 dvd unat va" unfolding u by (simp add: dvd_add)
  then show "va AND PAGE_FRAME = va" by (simp add: page_frame_id)
  show "unat va + k * 4096 \<le> 0xa0000000" unfolding u using p(3) by linarith
  show "va \<noteq> 0" using u by (metis add_is_0 unat_0 zero_neq_numeral)
  have "block_pages (va, k) = {p..<p + k}" using p by simp
  moreover have "x \<in> {0x80000000 + p * 4096..<0x80000000 + p * 4096 + k * 4096} \<longleftrightarrow>
      x div 4096 \<in> (+) 0x80000 ` {p..<p + k}" for x :: nat
  proof -
    have "x \<in> {0x80000000 + p * 4096..<0x80000000 + p * 4096 + k * 4096} \<longleftrightarrow>
        0x80000 + p \<le> x div 4096 \<and> x div 4096 < 0x80000 + p + k"
      by (auto simp: less_eq_div_iff_mult_less_eq div_less_iff_less_mult)
    also have "\<dots> \<longleftrightarrow> x div 4096 \<in> (+) 0x80000 ` {p..<p + k}"
      by (simp only: image_add_atLeastLessThan) (simp add: ac_simps)
    finally show ?thesis .
  qed
  ultimately show "block_bytes (va, k * PAGE_BYTES) = {x. x div 4096 \<in> (+) 0x80000 ` block_pages (va, k)}"
    unfolding block_bytes_def fst_conv snd_conv u by blast
qed

lemma kp_blocks_disjoint:
  assumes "pages_ok kp" "kp_blocks kp va = Some k" "kp_blocks kp vb = Some m" "va \<noteq> vb"
  shows "block_bytes (va, k * PAGE_BYTES) \<inter> block_bytes (vb, m * PAGE_BYTES) = {}"
proof -
  have "block_pages (va, k) \<inter> block_pages (vb, m) = {}"
    using assms by (auto simp: pages_ok_def kps.apart_def)
  then show ?thesis unfolding kp_block_range(6) [OF assms(1,2)] kp_block_range(6) [OF assms(1,3)]
    by (auto dest: add_left_imp_eq)
qed

lemma pages_ok_alloc:
  assumes "pages_ok kp" "0 < n" "n \<le> max_pages" "alloc_kpages n kp = Some (va, kp')" "va \<noteq> 0"
  shows "pages_ok kp'" "kp_blocks kp' = (kp_blocks kp)(va \<mapsto> unat n)" "kp_blocks kp va = None"
  using assms kps.alloc_block [of kp n va kp'] kps.alloc_blocks [of kp n va kp'] kps.apart_alloc [of kp n va kp']
    kps.alloc_fresh [of kp n va kp']
  by (auto simp: pages_ok_def)

lemma pages_ok_free:
  assumes "pages_ok kp" "kp_blocks kp va = Some k"
  shows "\<exists>kp'. free_kpages va kp = Some kp' \<and> pages_ok kp' \<and> kp_blocks kp' = (kp_blocks kp)(va := None)"
  using assms kps.free_block [of kp va k] kps.apart_free [of kp va k] by (force simp: pages_ok_def)

lemma unat_zero_dvd: "4096 dvd unat (va :: u32) \<Longrightarrow> va mod PAGE_SIZE = 0"
proof -
  assume "4096 dvd unat va"
  then have "unat (va mod PAGE_SIZE) = unat (0 :: u32)" by (simp add: unat_mod_u32)
  then show ?thesis by (simp only: word_unat_eq_iff)
qed

subsection \<open>Pieces of a page\<close>

lemma sizes_range:
  assumes "b < NSIZES"
  shows "16 \<le> sizes ! b" "sizes ! b dvd PAGE_BYTES" "2 \<le> PAGE_BYTES div (sizes ! b)"
proof -
  have "b \<in> {0, 1, 2, 3, 4, 5, 6, 7}" using assms by auto
  then show "16 \<le> sizes ! b" "sizes ! b dvd PAGE_BYTES" "2 \<le> PAGE_BYTES div (sizes ! b)"
    by (auto simp: sizes_def dvd_eq_mod_eq_0)
qed

lemma low_frame_mask: "x < 8 \<Longrightarrow> (of_nat x :: u32) AND 0xfff = of_nat x"
proof -
  assume "x < 8"
  then have "unat (of_nat x AND 0xfff :: u32) = unat (of_nat x :: u32)"
    by (simp add: page_off_unat unat_of_nat_u32)
  then show ?thesis by (simp only: word_unat_eq_iff)
qed

lemma MKPAB_fields:
  assumes "va AND PAGE_FRAME = va" "b < NSIZES"
  shows "MKPAB va b AND PAGE_FRAME = va" "unat (MKPAB va b AND NOT PAGE_FRAME) = b"
proof -
  have low: "(of_nat b :: u32) AND NOT PAGE_FRAME = of_nat b"
    using low_frame_mask [OF assms(2)] by simp
  have "((of_nat b :: u32) AND NOT PAGE_FRAME) AND PAGE_FRAME = 0" "(va AND PAGE_FRAME) AND NOT PAGE_FRAME = 0"
    by (simp_all add: and.assoc)
  then have z: "(of_nat b :: u32) AND PAGE_FRAME = 0" "va AND NOT PAGE_FRAME = 0"
    unfolding low assms(1) .
  have m: "MKPAB va b = va OR of_nat b" unfolding MKPAB_def low assms(1) ..
  show "MKPAB va b AND PAGE_FRAME = va"
    unfolding m by (simp only: bit.conj_disj_distrib2 assms(1) z) simp
  have "MKPAB va b AND NOT PAGE_FRAME = of_nat b"
    unfolding m by (simp only: bit.conj_disj_distrib2 low z) simp
  then show "unat (MKPAB va b AND NOT PAGE_FRAME) = b" using assms(2) by (simp add: unat_of_nat_u32)
qed

lemma piece_unat:
  assumes "unat page + 4096 \<le> 0xa0000000" "off < PAGE_BYTES"
  shows "unat (page + of_nat off :: u32) = unat page + off"
  using assms by (simp add: unat_add_u32 unat_of_nat_u32)

lemma ref_ok_page:
  assumes "pages_ok kp" "ref_ok kp pr"
  shows "unat (PR_PAGEADDR pr) + 4096 \<le> 0xa0000000" "4096 dvd unat (PR_PAGEADDR pr)" "PR_PAGEADDR pr \<noteq> 0"
    "16 \<le> blk_size pr" "blk_size pr dvd PAGE_BYTES"
proof -
  have b: "kp_blocks kp (PR_PAGEADDR pr) = Some 1" "PR_BLOCKTYPE pr < NSIZES"
    using assms(2) by (auto simp: ref_ok_def)
  show "unat (PR_PAGEADDR pr) + 4096 \<le> 0xa0000000" using kp_block_range(3) [OF assms(1) b(1)] by simp
  show "4096 dvd unat (PR_PAGEADDR pr)" by (rule kp_block_range(2) [OF assms(1) b(1)])
  show "PR_PAGEADDR pr \<noteq> 0" by (rule kp_block_range(5) [OF assms(1) b(1)])
  show "16 \<le> blk_size pr" "blk_size pr dvd PAGE_BYTES"
    using sizes_range [OF b(2)] by (simp_all add: blk_size_def)
qed

lemma multiple_fits:
  fixes s off n :: nat
  assumes "s dvd off" "s dvd n" "off < n"
  shows "off + s \<le> n"
proof -
  obtain k l where k: "off = s * k" "n = s * l" using assms(1,2) by (auto elim!: dvdE)
  with assms(3) have "s * Suc k \<le> s * l" by (intro mult_le_mono2) simp
  with k show ?thesis by simp
qed

lemma sub_block_bytes:
  assumes "pages_ok kp" "ref_ok kp pr" "off < PAGE_BYTES" "blk_size pr dvd off"
  shows "block_bytes (PR_PAGEADDR pr + of_nat off, blk_size pr) =
      {unat (PR_PAGEADDR pr) + off..<unat (PR_PAGEADDR pr) + off + blk_size pr}"
    and "block_bytes (PR_PAGEADDR pr + of_nat off, blk_size pr) \<subseteq> block_bytes (PR_PAGEADDR pr, PAGE_BYTES)"
proof -
  note pg = ref_ok_page [OF assms(1,2)]
  show e: "block_bytes (PR_PAGEADDR pr + of_nat off, blk_size pr) =
      {unat (PR_PAGEADDR pr) + off..<unat (PR_PAGEADDR pr) + off + blk_size pr}"
    unfolding block_bytes_def by (simp add: piece_unat [OF pg(1) assms(3)])
  have "off + blk_size pr \<le> 4096" by (rule multiple_fits [OF assms(4) pg(5) assms(3)])
  then show "block_bytes (PR_PAGEADDR pr + of_nat off, blk_size pr) \<subseteq> block_bytes (PR_PAGEADDR pr, PAGE_BYTES)"
    unfolding e by (auto simp: block_bytes_def)
qed

lemma multiples_apart:
  fixes s a b c :: nat
  assumes "s dvd a" "s dvd b" "a \<noteq> b"
  shows "{c + a..<c + a + s} \<inter> {c + b..<c + b + s} = {}"
proof -
  have "a + s \<le> b \<or> b + s \<le> a"
    using assms multiple_fits [of s a b] multiple_fits [of s b a] by (cases a b rule: linorder_cases) auto
  then show ?thesis by auto
qed

lemma heap_pages_blocks:
  assumes "kh_wf h" "p \<in> set (allbase h)"
  shows "ref_ok (kh_pages h) (kh_refs h p)" "kp_blocks (kh_pages h) (PR_PAGEADDR (kh_refs h p)) = Some 1"
    "PR_PAGEADDR (kh_refs h p) \<in> heap_pages h"
  using assms by (auto simp: kh_wf_def refs_ok_def ref_ok_def heap_pages_def)

text \<open>Each block lies in a page block that only it, or only the pieces of its own page, share.\<close>

lemma kh_blocks_cases:
  assumes "(va, n) \<in> kh_blocks h"
  obtains (piece) p off where "p \<in> set (allbase h)" "va = PR_PAGEADDR (kh_refs h p) + of_nat off"
      "n = blk_size (kh_refs h p)" "off < PAGE_BYTES" "n dvd off" "off \<notin> set (pr_freelist (kh_refs h p))"
    | (pages) k where "kp_blocks (kh_pages h) va = Some k" "n = k * PAGE_BYTES" "va \<notin> heap_pages h" "va \<notin> root_pages h"
  using assms by (auto simp: kh_blocks_def sub_blocks_def)

lemma kh_blocks_disjoint:
  assumes "kh_wf h" "(va, n) \<in> kh_blocks h" "(vb, m) \<in> kh_blocks h" "(va, n) \<noteq> (vb, m)"
  shows "block_bytes (va, n) \<inter> block_bytes (vb, m) = {}"
proof -
  let ?kp = "kh_pages h"
  have pg: "pages_ok ?kp" using assms(1) by (simp add: kh_wf_def)
  have inj: "inj_on (\<lambda>p. PR_PAGEADDR (kh_refs h p)) (set (allbase h))" using assms(1) by (simp add: kh_wf_def refs_ok_def)
  have mixed: "block_bytes (v, i) \<inter> block_bytes (w, j) = {}"
    if "p \<in> set (allbase h)" "v = PR_PAGEADDR (kh_refs h p) + of_nat off" "i = blk_size (kh_refs h p)"
      "off < PAGE_BYTES" "i dvd off" "kp_blocks ?kp w = Some k" "j = k * PAGE_BYTES" "w \<noteq> PR_PAGEADDR (kh_refs h p)"
    for v i w j p off k
  proof -
    note hp = heap_pages_blocks [OF assms(1) that(1)]
    have "block_bytes (PR_PAGEADDR (kh_refs h p), PAGE_BYTES) \<inter> block_bytes (w, j) = {}"
      using kp_blocks_disjoint [OF pg hp(2) that(6)] that(7,8) by simp
    moreover have "block_bytes (v, i) \<subseteq> block_bytes (PR_PAGEADDR (kh_refs h p), PAGE_BYTES)"
      using sub_block_bytes(2) [OF pg hp(1) that(4)] that(2,3,5) by simp
    ultimately show ?thesis by blast
  qed
  from assms(2) show ?thesis
  proof (cases rule: kh_blocks_cases)
    case a: (piece p off)
    from assms(3) show ?thesis
    proof (cases rule: kh_blocks_cases)
      case b: (piece q ofg)
      show ?thesis
      proof (cases "p = q")
        case True
        note hp = heap_pages_blocks [OF assms(1) a(1)]
        have "off \<noteq> ofg" using a b True assms(4) by auto
        with multiples_apart [OF _ _ this, of n] a b True show ?thesis
          using sub_block_bytes(1) [OF pg hp(1), of off] sub_block_bytes(1) [OF pg hp(1), of ofg] by simp
      next
        case False
        note hq = heap_pages_blocks [OF assms(1) b(1)]
        have ne: "PR_PAGEADDR (kh_refs h q) \<noteq> PR_PAGEADDR (kh_refs h p)"
          using inj a(1) b(1) False by (auto dest: inj_onD)
        have "block_bytes (va, n) \<inter> block_bytes (PR_PAGEADDR (kh_refs h q), PAGE_BYTES) = {}"
          using mixed [OF a(1-5) hq(2) _ ne, of PAGE_BYTES] by simp
        moreover have "block_bytes (vb, m) \<subseteq> block_bytes (PR_PAGEADDR (kh_refs h q), PAGE_BYTES)"
          using sub_block_bytes(2) [OF pg hq(1) b(4)] b(2,3,5) by simp
        ultimately show ?thesis by blast
      qed
    next
      case b: (pages k)
      have "vb \<noteq> PR_PAGEADDR (kh_refs h p)" using b(3) heap_pages_blocks(3) [OF assms(1) a(1)] by blast
      from mixed [OF a(1-5) b(1,2) this] show ?thesis .
    qed
  next
    case a: (pages k)
    from assms(3) show ?thesis
    proof (cases rule: kh_blocks_cases)
      case b: (piece q ofg)
      have "va \<noteq> PR_PAGEADDR (kh_refs h q)" using a(3) heap_pages_blocks(3) [OF assms(1) b(1)] by blast
      from mixed [OF b(1-5) a(1,2) this] show ?thesis by (simp add: Int_commute)
    next
      case b: (pages l)
      have "va \<noteq> vb" using a b assms(4) by auto
      from kp_blocks_disjoint [OF pg a(1) b(1) this] a(2) b(2) show ?thesis by simp
    qed
  qed
qed

subsection \<open>The pageref pool\<close>

lemma inuse_update:
  assumes "length (pagerefs_inuse r) = INUSE_WORDS" "j < NPAGEREFS_PER_PAGE" "k < NPAGEREFS_PER_PAGE"
  shows "inuse (r\<lparr>pagerefs_inuse := (pagerefs_inuse r)[j div 32 := set_bit (j mod 32) (pagerefs_inuse r ! (j div 32))],
            numinuse := n\<rparr>) k \<longleftrightarrow> k = j \<or> inuse r k"
    and "inuse (r\<lparr>pagerefs_inuse := (pagerefs_inuse r)[j div 32 := unset_bit (j mod 32) (pagerefs_inuse r ! (j div 32))],
            numinuse := n\<rparr>) k \<longleftrightarrow> k \<noteq> j \<and> inuse r k"
proof -
  have kj: "k = j \<longleftrightarrow> k div 32 = j div 32 \<and> k mod 32 = j mod 32" by (metis div_mult_mod_eq)
  have "j div 32 < 8" "k div 32 < 8" "k mod 32 < 32" "j mod 32 < 32" using assms by auto
  then show "inuse (r\<lparr>pagerefs_inuse := (pagerefs_inuse r)[j div 32 := set_bit (j mod 32) (pagerefs_inuse r ! (j div 32))],
            numinuse := n\<rparr>) k \<longleftrightarrow> k = j \<or> inuse r k"
    "inuse (r\<lparr>pagerefs_inuse := (pagerefs_inuse r)[j div 32 := unset_bit (j mod 32) (pagerefs_inuse r ! (j div 32))],
            numinuse := n\<rparr>) k \<longleftrightarrow> k \<noteq> j \<and> inuse r k"
    unfolding kj using assms(1)
    by (cases "k div 32 = j div 32"; cases "k mod 32 = j mod 32";
        simp add: inuse_def bit_set_bit_iff bit_unset_bit_iff)+
qed

lemma card_bits_insert:
  assumes "j < (n :: nat)" "\<not> P j"
  shows "card {k. k < n \<and> (k = j \<or> P k)} = Suc (card {k. k < n \<and> P k})"
proof -
  have "{k. k < n \<and> (k = j \<or> P k)} = insert j {k. k < n \<and> P k}" using assms(1) by auto
  then show ?thesis using assms(2) by simp
qed

lemma card_bits_remove:
  assumes "j < (n :: nat)" "P j"
  shows "card {k. k < n \<and> k \<noteq> j \<and> P k} = card {k. k < n \<and> P k} - 1" "0 < card {k. k < n \<and> P k}"
proof -
  have "{k. k < n \<and> k \<noteq> j \<and> P k} = {k. k < n \<and> P k} - {j}" by auto
  then show "card {k. k < n \<and> k \<noteq> j \<and> P k} = card {k. k < n \<and> P k} - 1" using assms by simp
  have "j \<in> {k. k < n \<and> P k}" using assms by simp
  then show "0 < card {k. k < n \<and> P k}" by (subst card_gt_0_iff) auto
qed

lemma roots_ok_set:
  assumes "roots_ok h" "w < NUM_PAGEREFPAGES" "root_ok kp r"
    and "\<And>q. q \<in> set (kheaproots h) \<Longrightarrow> root_page q \<noteq> 0 \<Longrightarrow> kp_blocks kp (root_page q) = Some 1"
  shows "roots_ok ((set_root w r h)\<lparr>kh_pages := kp\<rparr>)"
proof -
  have "root_ok kp q" if "q \<in> set (kheaproots h)" for q
    using that assms(1,4) by (auto simp: roots_ok_def root_ok_def)
  then have "\<forall>q \<in> set ((kheaproots h)[w := r]). root_ok kp q"
    using assms(3) set_update_subset_insert [of "kheaproots h" w r] by blast
  then show ?thesis using assms(1) by (simp add: roots_ok_def set_root_def)
qed

lemma root_pages_set:
  assumes "w < length (kheaproots h)"
  shows "root_pages ((set_root w r h)\<lparr>kh_pages := kp\<rparr>) =
     {root_page q | q v. v < length (kheaproots h) \<and> v \<noteq> w \<and> q = kheaproots h ! v \<and> root_page q \<noteq> 0} \<union>
     (if root_page r = 0 then {} else {root_page r})"
proof -
  have "q \<in> set ((kheaproots h)[w := r]) \<longleftrightarrow> q = r \<or> (\<exists>v < length (kheaproots h). v \<noteq> w \<and> q = kheaproots h ! v)" for q
    using assms by (auto simp: in_set_conv_nth nth_list_update)
  then show ?thesis by (auto simp: root_pages_def set_root_def)
qed

lemma root_pages_split:
  assumes "w < length (kheaproots h)"
  shows "root_pages h =
     {root_page q | q v. v < length (kheaproots h) \<and> v \<noteq> w \<and> q = kheaproots h ! v \<and> root_page q \<noteq> 0} \<union>
     (if root_page (kheaproots h ! w) = 0 then {} else {root_page (kheaproots h ! w)})"
  using root_pages_set [OF assms, where r = "kheaproots h ! w" and kp = "kh_pages h"] by (simp add: set_root_def)

text \<open>One root gains a used slot, and perhaps its page.\<close>

definition slot_taken :: "nat \<Rightarrow> kheap_state \<Rightarrow> kheap_state \<Rightarrow> vaddr_t set \<Rightarrow> bool" where
  "slot_taken p h h' N \<longleftrightarrow> pages_ok (kh_pages h') \<and> roots_ok h' \<and> \<not> ref_used h p \<and>
     (\<forall>q. ref_used h' q \<longleftrightarrow> q = p \<or> ref_used h q) \<and>
     N \<inter> dom (kp_blocks (kh_pages h)) = {} \<and> root_pages h' = root_pages h \<union> N \<and>
     kp_blocks (kh_pages h') = (\<lambda>v. if v \<in> N then Some 1 else kp_blocks (kh_pages h) v) \<and>
     allbase h' = allbase h \<and> sizebases h' = sizebases h \<and> kh_refs h' = kh_refs h"

lemma slot_taken_at:
  assumes "pages_ok kp'" "roots_ok h" "w < NUM_PAGEREFPAGES" "j < NPAGEREFS_PER_PAGE"
    and "root = kheaproots h ! w" "\<not> inuse root j" "page \<noteq> 0" "if root_page root = 0 then page \<in> N else page = root_page root \<and> N = {}"
    and "N \<subseteq> {page}" "N \<inter> dom (kp_blocks (kh_pages h)) = {}"
    and "kp_blocks kp' = (\<lambda>v. if v \<in> N then Some 1 else kp_blocks (kh_pages h) v)"
    and "h' = (set_root w (root\<lparr>pagerefs_inuse := (pagerefs_inuse root)[j div 32 := set_bit (j mod 32) (pagerefs_inuse root ! (j div 32))],
                numinuse := numinuse root + 1, root_page := page\<rparr>) h)\<lparr>kh_pages := kp'\<rparr>"
  shows "slot_taken (w * NPAGEREFS_PER_PAGE + j) h h' N"
proof -
  let ?r = "root\<lparr>pagerefs_inuse := (pagerefs_inuse root)[j div 32 := set_bit (j mod 32) (pagerefs_inuse root ! (j div 32))],
                numinuse := numinuse root + 1, root_page := page\<rparr>"
  have len: "length (kheaproots h) = NUM_PAGEREFPAGES" using assms(2) by (simp add: roots_ok_def)
  then have rin: "root \<in> set (kheaproots h)" using assms(3,5) by simp
  then have rok: "root_ok (kh_pages h) root" using assms(2) by (simp add: roots_ok_def)
  then have lenu: "length (pagerefs_inuse root) = INUSE_WORDS" by (simp add: root_ok_def)
  have use: "inuse ?r k \<longleftrightarrow> k = j \<or> inuse root k" if "k < NPAGEREFS_PER_PAGE" for k
    using inuse_update(1) [OF lenu assms(4) that, of "numinuse root + 1"] by (simp add: inuse_def)
  then have "{k. k < NPAGEREFS_PER_PAGE \<and> inuse ?r k} = {k. k < NPAGEREFS_PER_PAGE \<and> (k = j \<or> inuse root k)}" by blast
  then have "card {k. k < NPAGEREFS_PER_PAGE \<and> inuse ?r k} = numinuse root + 1"
    using card_bits_insert [OF assms(4), of "inuse root"] assms(6) rok by (simp add: root_ok_def)
  moreover have "kp_blocks kp' page = Some 1"
    using assms(8,11) rok by (auto simp: root_ok_def split: if_splits)
  ultimately have "root_ok kp' ?r" using assms(7) lenu by (simp add: root_ok_def)
  moreover have keep: "kp_blocks kp' (root_page q) = Some 1" if "q \<in> set (kheaproots h)" "root_page q \<noteq> 0" for q
    using that assms(2,11) by (auto simp: roots_ok_def root_ok_def)
  ultimately have roots: "roots_ok h'" unfolding assms(12) by (intro roots_ok_set [OF assms(2,3)])
  have "root_pages h' = root_pages h \<union> N"
    unfolding assms(12) root_pages_set [OF assms(3) [folded len]] root_pages_split [OF assms(3) [folded len]]
    using assms(5,7,8,9) by auto
  moreover have "ref_used h' q \<longleftrightarrow> q = w * NPAGEREFS_PER_PAGE + j \<or> ref_used h q" for q
  proof (cases "q div NPAGEREFS_PER_PAGE = w")
    case True
    have "q = w * NPAGEREFS_PER_PAGE + j \<longleftrightarrow> q mod NPAGEREFS_PER_PAGE = j"
      using True assms(4) by (metis div_mult_mod_eq mod_less mod_mult_self3)
    moreover have "root_page root \<noteq> 0 \<or> \<not> inuse root (q mod NPAGEREFS_PER_PAGE)"
    proof (rule ccontr)
      assume "\<not> (root_page root \<noteq> 0 \<or> \<not> inuse root (q mod NPAGEREFS_PER_PAGE))"
      with rok have "card {k. k < NPAGEREFS_PER_PAGE \<and> inuse root k} = 0" and "inuse root (q mod NPAGEREFS_PER_PAGE)"
        by (auto simp: root_ok_def)
      then show False by auto
    qed
    ultimately show ?thesis using True assms(3,5,7) len use [of "q mod NPAGEREFS_PER_PAGE"]
      by (auto simp: ref_used_def assms(12) set_root_def)
  next
    case False
    then have "q \<noteq> w * NPAGEREFS_PER_PAGE + j" using assms(4) by auto
    with False show ?thesis by (simp add: ref_used_def assms(12) set_root_def)
  qed
  moreover have "\<not> ref_used h (w * NPAGEREFS_PER_PAGE + j)"
    using assms(4-6) by (simp add: ref_used_def)
  ultimately show ?thesis using roots assms(1,10,11) by (simp add: slot_taken_def assms(12) set_root_def)
qed

lemma allocpagerefpage_cases:
  assumes "w < length (kheaproots h)" "allocpagerefpage w h = Some h'"
  shows "root_page (kheaproots h ! w) = 0 \<and> (\<exists>va kp. alloc_kpages 1 (kh_pages h) = Some (va, kp) \<and>
    (if va = 0 then h' = h\<lparr>kh_pages := kp\<rparr>
     else h' = (set_root w ((kheaproots h ! w)\<lparr>root_page := va\<rparr>) h)\<lparr>kh_pages := kp\<rparr>))"
proof -
  from assms obtain va kp where a: "root_page (kheaproots h ! w) = 0" "alloc_kpages 1 (kh_pages h) = Some (va, kp)"
    by (auto simp: allocpagerefpage_def bind_eq_Some_conv split: if_splits)
  with assms have "if va = 0 then h' = h\<lparr>kh_pages := kp\<rparr>
     else h' = (set_root w ((kheaproots h ! w)\<lparr>root_page := va\<rparr>) h)\<lparr>kh_pages := kp\<rparr>"
    by (auto simp: allocpagerefpage_def Let_def set_root_def split: if_splits)
  with a show ?thesis by blast
qed

lemma allocpageref_from_taken:
  assumes "pages_ok (kh_pages h)" "roots_ok h" "allocpageref_from w h = Some (Some p, h')"
  shows "\<exists>N. slot_taken p h h' N"
  using assms(3)
proof (induction "NUM_PAGEREFPAGES - w" arbitrary: w)
  case 0
  then show ?case by (simp add: allocpageref_from.simps [of w])
next
  case (Suc m)
  let ?root = "kheaproots h ! w"
  have w: "w < NUM_PAGEREFPAGES" using Suc.hyps(2) by simp
  have len: "w < length (kheaproots h)" using assms(2) w by (simp add: roots_ok_def)
  have rok: "root_ok (kh_pages h) ?root" using assms(2) len by (simp add: roots_ok_def)
  have later: "\<exists>N. slot_taken p h h' N" if "allocpageref_from (Suc w) h = Some (Some p, h')"
    using Suc.hyps(1) [OF _ that] Suc.hyps(2) by simp
  show ?case
  proof (cases "NPAGEREFS_PER_PAGE \<le> numinuse ?root")
    case True
    with Suc.prems w len later show ?thesis by (simp add: allocpageref_from.simps [of w])
  next
    case room: False
    show ?thesis
    proof (cases "find_idx (\<lambda>word. word \<noteq> 0xffffffff) (pagerefs_inuse ?root)")
      case None
      with Suc.prems w len room later show ?thesis by (simp add: allocpageref_from.simps [of w])
    next
      case (Some i)
      have i: "i < INUSE_WORDS" using find_idx_lt [OF Some] rok by (simp add: root_ok_def)
      from Suc.prems w len room Some obtain j where j: "find_idx (\<lambda>j. \<not> bit (pagerefs_inuse ?root ! i) j) [0..<32] = Some j"
        by (auto simp: allocpageref_from.simps [of w] bind_eq_Some_conv)
      then have j32: "j < 32" "\<not> bit (pagerefs_inuse ?root ! i) j" by (auto simp: find_idx_Some)
      let ?k = "i * 32 + j"
      have k: "?k < NPAGEREFS_PER_PAGE" "?k div 32 = i" "?k mod 32 = j" using i j32 by auto
      define root1 where "root1 = ?root\<lparr>pagerefs_inuse := (pagerefs_inuse ?root)[i := set_bit j (pagerefs_inuse ?root ! i)],
                             numinuse := numinuse ?root + 1\<rparr>"
      let ?step = "if root_page root1 = 0 then allocpagerefpage w (set_root w root1 h) else Some (set_root w root1 h)"
      have "allocpageref_from w h = do { h2 \<leftarrow> ?step; root2 \<leftarrow> arr_get (kheaproots h2) w;
          Some (if root_page root2 = 0 then None else Some (w * NPAGEREFS_PER_PAGE + ?k), h2) }"
        using w len room Some j unfolding root1_def
        by (simp add: allocpageref_from.simps [of w] Let_def cong: if_cong split del: if_split)
      with Suc.prems have "do { h2 \<leftarrow> ?step; root2 \<leftarrow> arr_get (kheaproots h2) w;
          Some (if root_page root2 = 0 then None else Some (w * NPAGEREFS_PER_PAGE + ?k), h2) } = Some (Some p, h')"
        by (simp only:)
      then obtain h2 root2 where h2: "?step = Some h2" and r2: "arr_get (kheaproots h2) w = Some root2"
        and e: "(if root_page root2 = 0 then None else Some (w * NPAGEREFS_PER_PAGE + ?k), h2) = (Some p, h')"
        unfolding bind_eq_Some_conv option.inject by blast
      then have res: "w < length (kheaproots h2)" "root_page (kheaproots h2 ! w) \<noteq> 0"
        "p = w * NPAGEREFS_PER_PAGE + ?k" "h' = h2"
        by (auto simp: arr_simps split: if_splits)
      have at: "kheaproots (set_root w root1 h) ! w = root1" using len by (simp add: set_root_def)
      have free: "\<not> inuse ?root ?k" using j32 k by (simp add: inuse_def)
      show ?thesis
      proof (cases "root_page ?root = 0")
        case False
        then have h': "h' = (set_root w (root1\<lparr>root_page := root_page ?root\<rparr>) h)\<lparr>kh_pages := kh_pages h\<rparr>"
          using h2 res(4) by (auto simp: root1_def set_root_def)
        have "slot_taken (w * NPAGEREFS_PER_PAGE + ?k) h h' {}"
          by (rule slot_taken_at [OF assms(1,2) w k(1) refl free, of "root_page ?root"])
             (use False j32 in \<open>simp_all add: h' root1_def k\<close>)
        then show ?thesis using res(3) by blast
      next
        case True
        then have r1: "root_page root1 = 0" by (simp add: root1_def)
        with h2 have "allocpagerefpage w (set_root w root1 h) = Some h2" by simp
        from allocpagerefpage_cases [OF _ this] len at obtain va kp where
          a: "alloc_kpages 1 (kh_pages h) = Some (va, kp)" and
          c: "if va = 0 then h2 = (set_root w root1 h)\<lparr>kh_pages := kp\<rparr>
              else h2 = (set_root w (root1\<lparr>root_page := va\<rparr>) (set_root w root1 h))\<lparr>kh_pages := kp\<rparr>"
          by (auto simp: set_root_def)
        have va: "va \<noteq> 0"
        proof
          assume "va = 0"
          with c at have "kheaproots h2 ! w = root1" by simp
          with res(2) r1 show False by simp
        qed
        note al = pages_ok_alloc [OF assms(1) _ _ a va]
        have h': "h' = (set_root w (root1\<lparr>root_page := va\<rparr>) h)\<lparr>kh_pages := kp\<rparr>"
          using c va res(4) by (simp add: set_root_def)
        have "slot_taken (w * NPAGEREFS_PER_PAGE + ?k) h h' {va}"
          by (rule slot_taken_at [OF al(1) assms(2) w k(1) refl free va])
             (use True va al j32 in \<open>auto simp: h' root1_def k\<close>)
        then show ?thesis using res(3) by blast
      qed
    qed
  qed
qed

lemma freepageref_used:
  assumes "roots_ok h" "ref_used h p" "w \<le> p div NPAGEREFS_PER_PAGE"
  shows "\<exists>h'. freepageref_from w p h = Some h' \<and> roots_ok h' \<and> root_pages h' = root_pages h \<and>
    (\<forall>q. ref_used h' q \<longleftrightarrow> q \<noteq> p \<and> ref_used h q) \<and> kh_pages h' = kh_pages h \<and>
    allbase h' = allbase h \<and> sizebases h' = sizebases h \<and> kh_refs h' = kh_refs h"
  using assms(3)
proof (induction "p div NPAGEREFS_PER_PAGE - w" arbitrary: w)
  case 0
  let ?w = "p div NPAGEREFS_PER_PAGE" and ?j = "p mod NPAGEREFS_PER_PAGE"
  let ?root = "kheaproots h ! ?w"
  have w: "w = ?w" using 0 by simp
  have u: "?w < NUM_PAGEREFPAGES" "root_page ?root \<noteq> 0" "inuse ?root ?j"
    using assms(2) by (auto simp: ref_used_def)
  have len: "length (kheaproots h) = NUM_PAGEREFPAGES" using assms(1) by (simp add: roots_ok_def)
  then have rin: "?root \<in> set (kheaproots h)" using u(1) by simp
  then have rok: "root_ok (kh_pages h) ?root" using assms(1) by (simp add: roots_ok_def)
  then have lenu: "length (pagerefs_inuse ?root) = INUSE_WORDS" by (simp add: root_ok_def)
  have jlt: "?j < NPAGEREFS_PER_PAGE" by simp
  note cd = card_bits_remove [OF jlt, of "inuse ?root", OF u(3)]
  have pos: "0 < numinuse ?root" using cd(2) rok by (simp add: root_ok_def)
  have pj: "p - ?w * NPAGEREFS_PER_PAGE = ?j" by (simp add: minus_div_mult_eq_mod)
  let ?r = "?root\<lparr>pagerefs_inuse := (pagerefs_inuse ?root)[?j div 32 := unset_bit (?j mod 32) (pagerefs_inuse ?root ! (?j div 32))],
                  numinuse := numinuse ?root - 1\<rparr>"
  define h' where "h' = set_root ?w ?r h"
  have "freepageref_from ?w p h = Some h'"
    using u len lenu pos by (simp add: freepageref_from.simps [of ?w] h'_def Let_def pj inuse_def)
  moreover have use: "inuse ?r k \<longleftrightarrow> k \<noteq> ?j \<and> inuse ?root k" if "k < NPAGEREFS_PER_PAGE" for k
    by (rule inuse_update(2) [OF lenu jlt that])
  then have "{k. k < NPAGEREFS_PER_PAGE \<and> inuse ?r k} = {k. k < NPAGEREFS_PER_PAGE \<and> k \<noteq> ?j \<and> inuse ?root k}" by blast
  then have "root_ok (kh_pages h) ?r" using cd(1) rok lenu u(2) by (simp add: root_ok_def)
  then have "roots_ok ((set_root ?w ?r h)\<lparr>kh_pages := kh_pages h\<rparr>)"
    using assms(1) u(1) by (intro roots_ok_set) (auto simp: roots_ok_def root_ok_def)
  then have "roots_ok h'" by (simp add: h'_def set_root_def)
  moreover have "root_pages h' = root_pages h"
    using root_pages_set [where w = ?w and h = h and r = ?r and kp = "kh_pages h"] root_pages_split [of ?w h] u(1) len
    by (simp add: h'_def set_root_def)
  moreover have "ref_used h' q \<longleftrightarrow> q \<noteq> p \<and> ref_used h q" for q
  proof (cases "q div NPAGEREFS_PER_PAGE = ?w")
    case True
    then have "q = p \<longleftrightarrow> q mod NPAGEREFS_PER_PAGE = ?j" by (metis div_mult_mod_eq)
    then show ?thesis using True u len use [of "q mod NPAGEREFS_PER_PAGE"]
      by (auto simp: ref_used_def h'_def set_root_def)
  next
    case False
    then show ?thesis by (auto simp: ref_used_def h'_def set_root_def)
  qed
  ultimately show ?case unfolding w by (auto simp: h'_def set_root_def)
next
  case (Suc m)
  let ?root = "kheaproots h ! w"
  have w: "w < p div NPAGEREFS_PER_PAGE" using Suc.hyps(2) by simp
  have u: "p div NPAGEREFS_PER_PAGE < NUM_PAGEREFPAGES" using assms(2) by (simp add: ref_used_def)
  have len: "w < length (kheaproots h)" using assms(1) w u by (simp add: roots_ok_def)
  then have rok: "root_ok (kh_pages h) ?root" using assms(1) by (simp add: roots_ok_def)
  have "Suc w * NPAGEREFS_PER_PAGE \<le> p"
    using w by (simp only: Suc_le_eq [symmetric] less_eq_div_iff_mult_less_eq zero_less_numeral)
  then have "\<not> p - w * NPAGEREFS_PER_PAGE < NPAGEREFS_PER_PAGE" by simp
  then have "freepageref_from w p h = freepageref_from (Suc w) p h"
  proof (cases "root_page ?root = 0")
    case True
    then have "numinuse ?root = 0" using rok unfolding root_ok_def by presburger
    with True w u len show ?thesis by (simp add: freepageref_from.simps [of w])
  next
    case False
    with \<open>\<not> p - w * NPAGEREFS_PER_PAGE < NPAGEREFS_PER_PAGE\<close> w u len show ?thesis
      by (simp add: freepageref_from.simps [of w])
  qed
  with Suc.hyps(1) [of "Suc w"] Suc.hyps(2) show ?case by simp
qed

subsection \<open>Allocation\<close>

lemma pr_update_simps [simp]:
  "PR_PAGEADDR (pr\<lparr>pr_freelist := fl, pr_nfree := n\<rparr>) = PR_PAGEADDR pr"
  "PR_BLOCKTYPE (pr\<lparr>pr_freelist := fl, pr_nfree := n\<rparr>) = PR_BLOCKTYPE pr"
  "blk_size (pr\<lparr>pr_freelist := fl, pr_nfree := n\<rparr>) = blk_size pr"
  by (simp_all add: PR_PAGEADDR_def PR_BLOCKTYPE_def blk_size_def)

text \<open>A block that shares a byte with a heap page is a piece of that page.\<close>

lemma kh_block_on_page:
  assumes "kh_wf h" "(va, n) \<in> kh_blocks h" "p \<in> set (allbase h)"
    and "x \<in> block_bytes (va, n)" "x \<in> block_bytes (PR_PAGEADDR (kh_refs h p), PAGE_BYTES)"
  shows "(va, n) \<in> sub_blocks (kh_refs h p)"
proof -
  have pg: "pages_ok (kh_pages h)" and inj: "inj_on (\<lambda>p. PR_PAGEADDR (kh_refs h p)) (set (allbase h))"
    using assms(1) by (auto simp: kh_wf_def refs_ok_def)
  note hp = heap_pages_blocks [OF assms(1,3)]
  from assms(2) show ?thesis
  proof (cases rule: kh_blocks_cases)
    case a: (piece q off)
    note hq = heap_pages_blocks [OF assms(1) a(1)]
    have "p = q"
    proof (rule ccontr)
      assume "p \<noteq> q"
      then have "PR_PAGEADDR (kh_refs h p) \<noteq> PR_PAGEADDR (kh_refs h q)"
        using inj a(1) assms(3) by (auto dest: inj_onD)
      from kp_blocks_disjoint [OF pg hp(2) hq(2) this] show False
        using assms(4,5) sub_block_bytes(2) [OF pg hq(1) a(4)] a(2,3,5) by auto
    qed
    with a show ?thesis by (auto simp: sub_blocks_def)
  next
    case a: (pages k)
    have "PR_PAGEADDR (kh_refs h p) \<noteq> va" using a(3) hp(3) by blast
    from kp_blocks_disjoint [OF pg hp(2) a(1) this] show ?thesis using assms(4,5) a(2) by auto
  qed
qed

lemma sub_blocks_piece:
  assumes "pages_ok kp" "ref_ok kp pr" "off < PAGE_BYTES"
  shows "(PR_PAGEADDR pr + of_nat off, n) \<in> sub_blocks pr \<longleftrightarrow>
    n = blk_size pr \<and> blk_size pr dvd off \<and> off \<notin> set (pr_freelist pr)"
proof -
  note pg = ref_ok_page(1) [OF assms(1,2)]
  have "PR_PAGEADDR pr + of_nat off = PR_PAGEADDR pr + of_nat o2 \<longleftrightarrow> off = o2" if "o2 < PAGE_BYTES" for o2
    using piece_unat [OF pg that] piece_unat [OF pg assms(3)] by (metis add_left_imp_eq)
  then show ?thesis using assms(3) by (auto simp: sub_blocks_def)
qed

text \<open>Replacing one pageref by another of the same page changes the pieces of that page only.\<close>

lemma kh_wf_set_ref:
  assumes "kh_wf h" "p \<in> set (allbase h)" "pageaddr_and_blocktype pr = pageaddr_and_blocktype (kh_refs h p)"
    and "ref_ok (kh_pages h) pr"
  shows "kh_wf (h\<lparr>kh_refs := (kh_refs h)(p := pr)\<rparr>)"
    and "kh_blocks (h\<lparr>kh_refs := (kh_refs h)(p := pr)\<rparr>) =
      (\<Union>q \<in> set (allbase h) - {p}. sub_blocks (kh_refs h q)) \<union> sub_blocks pr \<union>
      {(va, k * PAGE_BYTES) | va k. kp_blocks (kh_pages h) va = Some k \<and> va \<notin> heap_pages h \<and> va \<notin> root_pages h}"
proof -
  let ?h = "h\<lparr>kh_refs := (kh_refs h)(p := pr)\<rparr>"
  have same: "PR_PAGEADDR (kh_refs ?h q) = PR_PAGEADDR (kh_refs h q)" "PR_BLOCKTYPE (kh_refs ?h q) = PR_BLOCKTYPE (kh_refs h q)" for q
    using assms(3) by (auto simp: PR_PAGEADDR_def PR_BLOCKTYPE_def)
  have hp: "heap_pages ?h = heap_pages h" "root_pages ?h = root_pages h"
    unfolding heap_pages_def by (simp_all only: same) (simp_all add: root_pages_def)
  have "refs_ok ?h"
    using assms(1,4) same unfolding kh_wf_def refs_ok_def ref_used_def by (simp add: fun_upd_apply)
  with assms(1) show "kh_wf ?h" unfolding kh_wf_def hp by (simp add: roots_ok_def)
  have "(\<Union>q \<in> set (allbase h). sub_blocks (((kh_refs h)(p := pr)) q)) =
      (\<Union>q \<in> set (allbase h) - {p}. sub_blocks (kh_refs h q)) \<union> sub_blocks pr"
    using assms(2) by (auto split: if_splits)
  then show "kh_blocks ?h =
      (\<Union>q \<in> set (allbase h) - {p}. sub_blocks (kh_refs h q)) \<union> sub_blocks pr \<union>
      {(va, k * PAGE_BYTES) | va k. kp_blocks (kh_pages h) va = Some k \<and> va \<notin> heap_pages h \<and> va \<notin> root_pages h}"
    unfolding kh_blocks_def hp by simp
qed

lemma kh_blocks_split:
  assumes "p \<in> set (allbase h)"
  shows "kh_blocks h = (\<Union>q \<in> set (allbase h) - {p}. sub_blocks (kh_refs h q)) \<union> sub_blocks (kh_refs h p) \<union>
      {(va, k * PAGE_BYTES) | va k. kp_blocks (kh_pages h) va = Some k \<and> va \<notin> heap_pages h \<and> va \<notin> root_pages h}"
  using assms by (auto simp: kh_blocks_def)

lemma doalloc_ok:
  assumes "kh_wf h" "p \<in> set (allbase h)" "doalloc p h = Some (va, h')"
  shows "kh_wf h' \<and> va \<noteq> 0 \<and> (va, blk_size (kh_refs h p)) \<notin> kh_blocks h \<and>
    kh_blocks h' = insert (va, blk_size (kh_refs h p)) (kh_blocks h)"
proof -
  let ?pr = "kh_refs h p"
  have pg: "pages_ok (kh_pages h)" using assms(1) by (simp add: kh_wf_def)
  note ok = heap_pages_blocks(1) [OF assms(1,2)]
  note page = ref_ok_page [OF pg ok]
  from assms(3) obtain off fl where fl: "pr_freelist ?pr = off # fl" "va = PR_PAGEADDR ?pr + of_nat off"
    and h': "h' = h\<lparr>kh_refs := (kh_refs h)(p := ?pr\<lparr>pr_freelist := fl, pr_nfree := pr_nfree ?pr - 1\<rparr>)\<rparr>"
    by (auto simp: doalloc_def Let_def split: list.splits if_splits)
  let ?pr' = "?pr\<lparr>pr_freelist := fl, pr_nfree := pr_nfree ?pr - 1\<rparr>"
  have ok': "ref_ok (kh_pages h) ?pr'" using ok fl(1) by (auto simp: ref_ok_def)
  have off: "off < PAGE_BYTES" "blk_size ?pr dvd off" "off \<notin> set fl" using ok fl(1) by (auto simp: ref_ok_def)
  have new: "sub_blocks ?pr' = insert (va, blk_size ?pr) (sub_blocks ?pr)"
    using off fl by (auto simp: sub_blocks_def)
  have "(va, blk_size ?pr) \<notin> kh_blocks h"
  proof
    assume m: "(va, blk_size ?pr) \<in> kh_blocks h"
    have b: "block_bytes (va, blk_size ?pr) = {unat (PR_PAGEADDR ?pr) + off..<unat (PR_PAGEADDR ?pr) + off + blk_size ?pr}"
      using sub_block_bytes(1) [OF pg ok off(1,2)] fl(2) by simp
    then have x: "unat (PR_PAGEADDR ?pr) + off \<in> block_bytes (va, blk_size ?pr)" using page(4) by simp
    then have "unat (PR_PAGEADDR ?pr) + off \<in> block_bytes (PR_PAGEADDR ?pr, PAGE_BYTES)"
      using sub_block_bytes(2) [OF pg ok off(1,2)] fl(2) by blast
    from kh_block_on_page [OF assms(1) m assms(2) x this] show False
      using sub_blocks_piece [OF pg ok off(1)] fl by simp
  qed
  moreover have "kh_blocks h' = insert (va, blk_size ?pr) (kh_blocks h)"
    using kh_wf_set_ref(2) [OF assms(1,2) _ ok'] kh_blocks_split [OF assms(2)] new by (simp add: h')
  moreover have "kh_wf h'" using kh_wf_set_ref(1) [OF assms(1,2) _ ok'] by (simp add: h')
  moreover have "va \<noteq> 0"
  proof
    assume "va = 0"
    then have "unat (PR_PAGEADDR ?pr) + off = 0" using piece_unat [OF page(1) off(1)] fl(2) by simp
    then show False using page(3) by (simp add: unat_eq_0)
  qed
  ultimately show ?thesis by blast
qed

lemma kh_wf_pages:
  assumes "kh_wf h" "pages_ok kp" "\<And>va. va \<in> heap_pages h \<union> root_pages h \<Longrightarrow> kp_blocks kp va = kp_blocks (kh_pages h) va"
  shows "kh_wf (h\<lparr>kh_pages := kp\<rparr>)"
proof -
  have "ref_ok kp (kh_refs h p)" if "p \<in> set (allbase h)" for p
    using heap_pages_blocks [OF assms(1) that] assms(3) by (simp add: ref_ok_def)
  moreover have "root_ok kp r" if "r \<in> set (kheaproots h)" for r
  proof -
    have "root_ok (kh_pages h) r" using that assms(1) by (simp add: kh_wf_def roots_ok_def)
    moreover have "root_page r \<in> root_pages h" if "root_page r \<noteq> 0"
      using that \<open>r \<in> set (kheaproots h)\<close> by (auto simp: root_pages_def)
    ultimately show ?thesis using assms(3) by (auto simp: root_ok_def)
  qed
  moreover have "heap_pages (h\<lparr>kh_pages := kp\<rparr>) = heap_pages h" "root_pages (h\<lparr>kh_pages := kp\<rparr>) = root_pages h"
    by (simp_all add: heap_pages_def root_pages_def)
  ultimately show ?thesis
    using assms(1,2) by (simp add: kh_wf_def refs_ok_def roots_ok_def ref_used_def)
qed

lemma kmalloc_pages_ok:
  assumes "kh_wf h" "LARGEST_SUBPAGE_SIZE \<le> sz" "unat sz \<le> 0x80000000" "kmalloc sz h = Some (va, h')" "va \<noteq> 0"
  shows "kh_wf h' \<and> (\<exists>n. unat sz \<le> n \<and> (va, n) \<notin> kh_blocks h \<and> kh_blocks h' = insert (va, n) (kh_blocks h))"
proof -
  let ?n = "(sz + PAGE_SIZE - 1) div PAGE_SIZE"
  have pg: "pages_ok (kh_pages h)" using assms(1) by (simp add: kh_wf_def)
  have "unat (sz + 4095) = unat sz + 4095" using assms(3) by (simp add: unat_add_u32)
  moreover have "?n = (sz + 4095) div PAGE_SIZE" by (simp add: add.commute)
  ultimately have n: "unat ?n = (unat sz + 4095) div 4096" by (simp only: unat_div_u32) simp
  have lo: "2048 \<le> unat sz" using assms(2) by (simp add: word_le_nat_alt)
  have "0 < unat ?n" "unat ?n \<le> 0x80000" unfolding n using assms(3) lo by simp_all
  then have nw: "0 < ?n" "?n \<le> max_pages" by (simp_all add: word_le_nat_alt word_less_nat_alt)
  from assms(2,4) obtain kp where a: "alloc_kpages ?n (kh_pages h) = Some (va, kp)" "h' = h\<lparr>kh_pages := kp\<rparr>"
    by (auto simp: kmalloc_def Let_def split: if_splits)
  note al = pages_ok_alloc [OF pg nw a(1) assms(5)]
  have fresh: "va \<notin> heap_pages h \<union> root_pages h"
    using al(3) assms(1) by (auto simp: kh_wf_def refs_ok_def ref_ok_def roots_ok_def root_ok_def heap_pages_def root_pages_def)
  have "kh_wf h'" unfolding a(2) using fresh al by (intro kh_wf_pages [OF assms(1)]) auto
  moreover have b: "kh_blocks h' = insert (va, unat ?n * PAGE_BYTES) (kh_blocks h)"
    unfolding kh_blocks_def a(2) using fresh al by (auto simp: heap_pages_def root_pages_def)
  moreover have le: "unat sz \<le> unat ?n * PAGE_BYTES" unfolding n by linarith
  moreover have "(va, unat ?n * PAGE_BYTES) \<notin> kh_blocks h"
  proof
    assume m: "(va, unat ?n * PAGE_BYTES) \<in> kh_blocks h"
    then show False
    proof (cases rule: kh_blocks_cases)
      case (piece p off)
      have "kp_blocks kp va = Some (unat ?n)" using al by simp
      have hp: "ref_ok (kh_pages h) (kh_refs h p)" using heap_pages_blocks [OF assms(1) piece(1)] by blast
      then have "blk_size (kh_refs h p) \<le> 2048"
        by (auto simp: ref_ok_def blk_size_def sizes_def nth_Cons' less_Suc_eq split: if_splits)
      with piece(3) \<open>0 < unat ?n\<close> show False by simp
    next
      case (pages k)
      with al(3) show False by simp
    qed
  qed
  ultimately show ?thesis by blast
qed

lemma blocktype_fits:
  assumes "blocktype sz = Some b"
  shows "b < NSIZES" "sz \<le> sizes ! b"
proof -
  from assms have "b < length sizes" "sz \<le> sizes ! b"
    unfolding blocktype_def by (auto dest: find_idx_lt find_idx_sat)
  then show "b < NSIZES" "sz \<le> sizes ! b" by (simp_all add: sizes_def)
qed

lemma free_page_found:
  "free_page refs b ps = Some (Some p) \<Longrightarrow> p \<in> set ps \<and> PR_BLOCKTYPE (refs p) = b \<and> 0 < pr_nfree (refs p)"
  by (induction ps) (auto split: if_splits)

lemma accounting_blocks:
  assumes "kh_wf h" "va \<in> heap_pages h \<union> root_pages h"
  shows "kp_blocks (kh_pages h) va = Some 1"
proof -
  consider p where "p \<in> set (allbase h)" "va = PR_PAGEADDR (kh_refs h p)"
    | r where "r \<in> set (kheaproots h)" "va = root_page r" "root_page r \<noteq> 0"
    using assms(2) by (auto simp: heap_pages_def root_pages_def)
  then show ?thesis
  proof cases
    case 1 then show ?thesis using heap_pages_blocks(2) [OF assms(1)] by simp
  next
    case 2
    then have "root_ok (kh_pages h) r" using assms(1) by (simp add: kh_wf_def roots_ok_def)
    with 2 show ?thesis by (simp add: root_ok_def)
  qed
qed

text \<open>A fresh page joins the heap: no piece of it is out yet.\<close>

lemma fresh_list:
  fixes s :: nat
  assumes "s dvd 4096" "0 < s"
  shows "distinct (rev (map (\<lambda>i. i * s) [0..<4096 div s]))"
    and "set (rev (map (\<lambda>i. i * s) [0..<4096 div s])) = {off. off < 4096 \<and> s dvd off}"
proof -
  show "distinct (rev (map (\<lambda>i. i * s) [0..<4096 div s]))"
    using assms(2) by (simp add: distinct_map inj_on_def)
  obtain k where k: "4096 = s * k" using assms(1) by (rule dvdE)
  then have "4096 div s = k" using assms(2) by (metis nonzero_mult_div_cancel_left not_less_zero)
  moreover have "off < 4096 \<and> s dvd off \<longleftrightarrow> (\<exists>i < k. off = i * s)" for off
    unfolding k using assms(2) by (auto simp: mult.commute elim!: dvdE)
  ultimately show "set (rev (map (\<lambda>i. i * s) [0..<4096 div s])) = {off. off < 4096 \<and> s dvd off}"
    by auto
qed

lemma fresh_page_ok:
  assumes "kh_wf h" "alloc_kpages 1 (kh_pages h) = Some (va, kp)" "va \<noteq> 0"
    and "slot_taken p (h\<lparr>kh_pages := kp\<rparr>) h2 N" "b < NSIZES"
    and "pr = \<lparr>pageaddr_and_blocktype = MKPAB va b, pr_freelist = rev (map (\<lambda>i. i * (sizes ! b)) [0..<PAGE_BYTES div (sizes ! b)]),
               pr_nfree = PAGE_BYTES div (sizes ! b)\<rparr>"
    and "h3 = h2\<lparr>kh_refs := (kh_refs h2)(p := pr), sizebases := (sizebases h2)[b := p # sizebases h2 ! b],
                allbase := p # allbase h2\<rparr>"
  shows "kh_wf h3 \<and> kh_blocks h3 = kh_blocks h \<and> p \<in> set (allbase h3) \<and> blk_size (kh_refs h3 p) = sizes ! b"
proof -
  let ?kp = "kh_pages h"
  have pg: "pages_ok ?kp" and refs: "refs_ok h" and roots: "roots_ok h" and dis: "heap_pages h \<inter> root_pages h = {}"
    using assms(1) by (auto simp: kh_wf_def)
  have one: "(0::u32) < 1" "(1::u32) \<le> max_pages" by simp_all
  note al = pages_ok_alloc [OF pg one assms(2,3)]
  note st = assms(4) [unfolded slot_taken_def, simplified]
  have kp3: "kh_pages h3 = kh_pages h2" by (simp add: assms(7))
  have pg3: "pages_ok (kh_pages h3)" using st by (simp add: kp3)
  have map3: "kp_blocks (kh_pages h3) v = (if v \<in> N then Some 1 else if v = va then Some 1 else kp_blocks ?kp v)" for v
    using st al(2) by (simp add: kp3)
  have vaN: "va \<notin> N" and N: "v \<in> N \<Longrightarrow> kp_blocks ?kp v = None" for v
    using st al(2) by (auto simp: disjoint_iff split: if_splits)
  have aligned: "va AND PAGE_FRAME = va"
    using kp_block_range(4) [OF al(1), of va] al(2) by simp
  have fields: "PR_PAGEADDR pr = va" "PR_BLOCKTYPE pr = b"
    using MKPAB_fields [OF aligned assms(5)] by (simp_all add: assms(6) PR_PAGEADDR_def PR_BLOCKTYPE_def)
  have pnew: "p \<notin> set (allbase h)"
    using st refs by (auto simp: refs_ok_def ref_used_def)
  have all3: "allbase h3 = p # allbase h" using st by (simp add: assms(7))
  have refs3: "kh_refs h3 = (kh_refs h)(p := pr)" using st by (simp add: assms(7))
  have ref_at: "kh_refs h3 q = kh_refs h q" if "q \<in> set (allbase h)" for q using that pnew by (auto simp: refs3)
  have heap3: "heap_pages h3 = insert va (heap_pages h)"
    using pnew by (auto simp: heap_pages_def all3 refs3 fields)
  have root3: "root_pages h3 = root_pages h \<union> N"
    using st by (simp add: assms(7) root_pages_def)
  have outside: "va \<notin> heap_pages h" "va \<notin> root_pages h" "N \<inter> heap_pages h = {}"
    using al(3) N accounting_blocks [OF assms(1)] by fastforce+
  have size: "16 \<le> sizes ! b" "sizes ! b dvd 4096" using sizes_range [OF assms(5)] by simp_all
  note fl = fresh_list [OF size(2)]
  have bs: "blk_size pr = sizes ! b" by (simp add: blk_size_def fields)
  have prok: "ref_ok (kh_pages h3) pr"
    using assms(5) fl size(1) map3 [of va] vaN
    by (auto simp: ref_ok_def fields bs) (auto simp: assms(6))
  have "ref_ok (kh_pages h3) (kh_refs h3 q)" if "q \<in> set (allbase h3)" for q
  proof (cases "q = p")
    case True then show ?thesis using prok by (simp add: refs3)
  next
    case False
    then have q: "q \<in> set (allbase h)" using that all3 by simp
    then have "ref_ok ?kp (kh_refs h q)" using refs by (simp add: refs_ok_def)
    moreover have "PR_PAGEADDR (kh_refs h q) \<in> heap_pages h" using q by (auto simp: heap_pages_def)
    then have "PR_PAGEADDR (kh_refs h q) \<notin> N" "PR_PAGEADDR (kh_refs h q) \<noteq> va" using outside by auto
    ultimately show ?thesis using ref_at [OF q] map3 [of "PR_PAGEADDR (kh_refs h q)"] by (simp add: ref_ok_def)
  qed
  moreover have "ref_used h3 q" if "q \<in> set (allbase h3)" for q
  proof -
    have "ref_used h3 q \<longleftrightarrow> ref_used h2 q" by (simp add: ref_used_def assms(7))
    moreover have "ref_used (h\<lparr>kh_pages := kp\<rparr>) q \<longleftrightarrow> ref_used h q" by (simp add: ref_used_def)
    ultimately show ?thesis using st that all3 refs by (auto simp: refs_ok_def)
  qed
  moreover have "sizebases h3 ! c = filter (\<lambda>q. PR_BLOCKTYPE (kh_refs h3 q) = c) (allbase h3)" if "c < NSIZES" for c
  proof -
    have "filter (\<lambda>q. PR_BLOCKTYPE (kh_refs h3 q) = c) (allbase h) = filter (\<lambda>q. PR_BLOCKTYPE (kh_refs h q) = c) (allbase h)"
      using ref_at by (intro filter_cong) auto
    moreover have "sizebases h ! c = filter (\<lambda>q. PR_BLOCKTYPE (kh_refs h q) = c) (allbase h)" "length (sizebases h) = NSIZES"
      using refs that by (auto simp: refs_ok_def)
    ultimately show ?thesis
      using that assms(5) st fields by (cases "c = b") (simp_all add: all3 refs3 assms(7))
  qed
  moreover have "inj_on (\<lambda>q. PR_PAGEADDR (kh_refs h3 q)) (set (allbase h3))"
  proof -
    have "inj_on (\<lambda>q. PR_PAGEADDR (kh_refs h3 q)) (set (allbase h)) \<longleftrightarrow> inj_on (\<lambda>q. PR_PAGEADDR (kh_refs h q)) (set (allbase h))"
      using ref_at by (intro inj_on_cong) simp
    moreover have "PR_PAGEADDR (kh_refs h3 p) \<notin> (\<lambda>q. PR_PAGEADDR (kh_refs h3 q)) ` set (allbase h)"
      using outside(1) ref_at by (auto simp: heap_pages_def refs3 fields)
    ultimately show ?thesis using refs pnew by (simp add: all3 refs_ok_def)
  qed
  moreover have "distinct (allbase h3)" "length (sizebases h3) = NSIZES"
    using refs pnew st by (simp_all add: all3 refs_ok_def) (simp add: assms(7) st)
  ultimately have "refs_ok h3" unfolding refs_ok_def by blast
  moreover have "roots_ok h3" using st by (simp add: roots_ok_def assms(7))
  moreover have "heap_pages h3 \<inter> root_pages h3 = {}"
    using dis outside vaN by (auto simp: heap3 root3)
  ultimately have wf: "kh_wf h3" using pg3 by (simp add: kh_wf_def)
  have "sub_blocks pr = {}"
    using fl(2) size(1) by (auto simp: sub_blocks_def bs) (auto simp: assms(6))
  then have "(\<Union>q \<in> set (allbase h3). sub_blocks (kh_refs h3 q)) = (\<Union>q \<in> set (allbase h). sub_blocks (kh_refs h q))"
    using ref_at by (simp add: all3) (simp add: refs3)
  moreover have "kp_blocks (kh_pages h3) v = Some k \<and> v \<notin> heap_pages h3 \<and> v \<notin> root_pages h3 \<longleftrightarrow>
      kp_blocks ?kp v = Some k \<and> v \<notin> heap_pages h \<and> v \<notin> root_pages h" for v k
    using N [of v] al(3) unfolding map3 heap3 root3 by auto
  ultimately have "kh_blocks h3 = kh_blocks h" unfolding kh_blocks_def by simp
  with wf show ?thesis by (simp add: all3 refs3 bs)
qed

lemma subpage_kmalloc_ok:
  assumes "kh_wf h" "subpage_kmalloc sz h = Some (va, h')" "va \<noteq> 0"
  shows "kh_wf h' \<and> (\<exists>n. sz \<le> n \<and> (va, n) \<notin> kh_blocks h \<and> kh_blocks h' = insert (va, n) (kh_blocks h))"
proof -
  have refs: "refs_ok h" and roots: "roots_ok h" and pg: "pages_ok (kh_pages h)" using assms(1) by (auto simp: kh_wf_def)
  from assms(2) obtain b base found where b: "blocktype sz = Some b" and base: "arr_get (sizebases h) b = Some base"
    and found: "free_page (kh_refs h) b base = Some found"
    by (auto simp: subpage_kmalloc_def bind_eq_Some_conv)
  note bt = blocktype_fits [OF b]
  have base': "base = filter (\<lambda>p. PR_BLOCKTYPE (kh_refs h p) = b) (allbase h)"
    using base refs bt(1) by (auto simp: refs_ok_def arr_simps)
  show ?thesis
  proof (cases found)
    case (Some p)
    with found have p: "p \<in> set base" "PR_BLOCKTYPE (kh_refs h p) = b" using free_page_found by fastforce+
    then have "p \<in> set (allbase h)" by (simp add: base')
    moreover have "doalloc p h = Some (va, h')"
      using assms(2) b base found Some by (simp add: subpage_kmalloc_def)
    ultimately show ?thesis
      using doalloc_ok [OF assms(1)] bt(2) p(2) unfolding blk_size_def by blast
  next
    case None
    with assms(2,3) b base found obtain prpage kp where a: "alloc_kpages 1 (kh_pages h) = Some (prpage, kp)" "prpage \<noteq> 0"
      by (auto simp: subpage_kmalloc_def bind_eq_Some_conv Let_def split: if_splits)
    let ?h1 = "h\<lparr>kh_pages := kp\<rparr>"
    from assms(2,3) b base found None a obtain p h2 where r: "allocpageref ?h1 = Some (Some p, h2)"
      by (auto simp: subpage_kmalloc_def bind_eq_Some_conv Let_def split: if_splits option.splits)
    define pr where "pr = \<lparr>pageaddr_and_blocktype = MKPAB prpage b,
      pr_freelist = rev (map (\<lambda>i. i * (sizes ! b)) [0..<PAGE_BYTES div (sizes ! b)]), pr_nfree = PAGE_BYTES div (sizes ! b)\<rparr>"
    define h3 where "h3 = h2\<lparr>kh_refs := (kh_refs h2)(p := pr), sizebases := (sizebases h2)[b := p # sizebases h2 ! b],
                allbase := p # allbase h2\<rparr>"
    have d: "doalloc p h3 = Some (va, h')"
      using assms(2) b base found None a r
      by (auto simp: subpage_kmalloc_def Let_def h3_def pr_def split: if_splits)
    have one: "(0::u32) < 1" "(1::u32) \<le> max_pages" by simp_all
    note al = pages_ok_alloc [OF pg one a]
    have "kh_wf ?h1" using al accounting_blocks [OF assms(1)] by (intro kh_wf_pages [OF assms(1)]) fastforce+
    then have w1: "pages_ok (kh_pages ?h1)" "roots_ok ?h1" by (simp_all add: kh_wf_def)
    obtain N where "slot_taken p ?h1 h2 N"
      using allocpageref_from_taken [OF w1] r unfolding allocpageref_def by blast
    from fresh_page_ok [OF assms(1) a this bt(1) pr_def h3_def]
    have h3: "kh_wf h3" "kh_blocks h3 = kh_blocks h" "p \<in> set (allbase h3)" "blk_size (kh_refs h3 p) = sizes ! b" by auto
    from doalloc_ok [OF h3(1,3) d] h3(2,4) bt(2) show ?thesis by auto
  qed
qed

theorem kmalloc_block:
  assumes "kh_wf h" "unat sz \<le> 0x80000000" "kmalloc sz h = Some (va, h')" "va \<noteq> 0"
  shows "kh_wf h' \<and> (\<exists>n. unat sz \<le> n \<and> (va, n) \<notin> kh_blocks h \<and> kh_blocks h' = insert (va, n) (kh_blocks h))"
proof (cases "LARGEST_SUBPAGE_SIZE \<le> sz")
  case True
  then show ?thesis using kmalloc_pages_ok assms by blast
next
  case False
  with assms(3) have "subpage_kmalloc (unat sz) h = Some (va, h')" by (simp add: kmalloc_def)
  with subpage_kmalloc_ok assms(1,4) show ?thesis by blast
qed

subsection \<open>Release\<close>

lemma page_of_find:
  assumes "\<And>p. p \<in> set ps \<Longrightarrow> PR_BLOCKTYPE (refs p) < NSIZES"
  shows "page_of refs a ps = Some (List.find (\<lambda>p. PR_PAGEADDR (refs p) \<le> a \<and> a < PR_PAGEADDR (refs p) + PAGE_SIZE) ps)"
  using assms by (induction ps) auto

lemma on_page_iff:
  assumes "pages_ok kp" "ref_ok kp pr"
  shows "PR_PAGEADDR pr \<le> a \<and> a < PR_PAGEADDR pr + PAGE_SIZE \<longleftrightarrow>
    unat a \<in> block_bytes (PR_PAGEADDR pr, PAGE_BYTES)"
proof -
  have "unat (PR_PAGEADDR pr + PAGE_SIZE) = unat (PR_PAGEADDR pr) + 4096"
    using ref_ok_page(1) [OF assms] by (simp add: unat_add_u32)
  then show ?thesis by (simp add: block_bytes_def word_le_nat_alt word_less_nat_alt)
qed

lemma page_of_heap:
  assumes "kh_wf h"
  shows "page_of (kh_refs h) a (allbase h) =
    Some (List.find (\<lambda>p. unat a \<in> block_bytes (PR_PAGEADDR (kh_refs h p), PAGE_BYTES)) (allbase h))"
proof -
  have pg: "pages_ok (kh_pages h)" using assms by (simp add: kh_wf_def)
  have "page_of (kh_refs h) a (allbase h) = Some (List.find (\<lambda>p. PR_PAGEADDR (kh_refs h p) \<le> a \<and>
      a < PR_PAGEADDR (kh_refs h p) + PAGE_SIZE) (allbase h))"
    using heap_pages_blocks(1) [OF assms] by (intro page_of_find) (simp add: ref_ok_def)
  also have "List.find (\<lambda>p. PR_PAGEADDR (kh_refs h p) \<le> a \<and> a < PR_PAGEADDR (kh_refs h p) + PAGE_SIZE) (allbase h) =
      List.find (\<lambda>p. unat a \<in> block_bytes (PR_PAGEADDR (kh_refs h p), PAGE_BYTES)) (allbase h)"
    by (rule find_cong [OF refl on_page_iff [OF pg heap_pages_blocks(1) [OF assms]]])
  finally show ?thesis .
qed

lemma page_of_piece:
  assumes "kh_wf h" "p \<in> set (allbase h)" "off < PAGE_BYTES"
  shows "page_of (kh_refs h) (PR_PAGEADDR (kh_refs h p) + of_nat off) (allbase h) = Some (Some p)"
proof -
  let ?a = "PR_PAGEADDR (kh_refs h p) + of_nat off"
  let ?on = "\<lambda>q. unat ?a \<in> block_bytes (PR_PAGEADDR (kh_refs h q), PAGE_BYTES)"
  have pg: "pages_ok (kh_pages h)" and inj: "inj_on (\<lambda>p. PR_PAGEADDR (kh_refs h p)) (set (allbase h))"
    using assms(1) by (auto simp: kh_wf_def refs_ok_def)
  note hp = heap_pages_blocks [OF assms(1,2)]
  have on: "?on p"
    using piece_unat [OF ref_ok_page(1) [OF pg hp(1)] assms(3)] assms(3) by (simp add: block_bytes_def)
  have only: "q = p" if "q \<in> set (allbase h)" "?on q" for q
  proof (rule ccontr)
    assume "q \<noteq> p"
    then have "PR_PAGEADDR (kh_refs h q) \<noteq> PR_PAGEADDR (kh_refs h p)"
      using inj that(1) assms(2) by (auto dest: inj_onD)
    from kp_blocks_disjoint [OF pg heap_pages_blocks(2) [OF assms(1) that(1)] hp(2) this] show False
      using on that(2) by auto
  qed
  have "List.find ?on (allbase h) \<noteq> None" using on assms(2) by (auto simp: find_None_iff)
  then obtain q where q: "List.find ?on (allbase h) = Some q" by auto
  then have "q \<in> set (allbase h)" "?on q" by (auto simp: find_Some_iff)
  with only q show ?thesis unfolding page_of_heap [OF assms(1)] by blast
qed

lemma page_of_none:
  assumes "kh_wf h" "kp_blocks (kh_pages h) va = Some k" "va \<notin> heap_pages h"
  shows "page_of (kh_refs h) va (allbase h) = Some None"
proof -
  have pg: "pages_ok (kh_pages h)" using assms(1) by (simp add: kh_wf_def)
  have "unat va \<notin> block_bytes (PR_PAGEADDR (kh_refs h p), PAGE_BYTES)" if "p \<in> set (allbase h)" for p
  proof -
    note hp = heap_pages_blocks [OF assms(1) that]
    have "va \<noteq> PR_PAGEADDR (kh_refs h p)" using hp(3) assms(3) by blast
    from kp_blocks_disjoint [OF pg assms(2) hp(2) this] show ?thesis
      using kp_block_range(1) [OF pg assms(2)] by (auto simp: block_bytes_def)
  qed
  then show ?thesis unfolding page_of_heap [OF assms(1)] by (simp add: find_None_iff)
qed

text \<open>A whole-page block goes back to the page allocator.\<close>

lemma kfree_pages:
  assumes "kh_wf h" "kp_blocks (kh_pages h) va = Some k" "va \<notin> heap_pages h" "va \<notin> root_pages h"
  shows "\<exists>h'. kfree va h = Some h' \<and> kh_wf h' \<and> kh_blocks h' = kh_blocks h - {(va, k * PAGE_BYTES)}"
proof -
  have pg: "pages_ok (kh_pages h)" using assms(1) by (simp add: kh_wf_def)
  note rg = kp_block_range [OF pg assms(2)]
  obtain kp where f: "free_kpages va (kh_pages h) = Some kp" "pages_ok kp" "kp_blocks kp = (kp_blocks (kh_pages h))(va := None)"
    using pages_ok_free [OF pg assms(2)] by blast
  let ?h' = "h\<lparr>kh_pages := kp\<rparr>"
  have free: "kfree va h = Some ?h'"
    using page_of_none [OF assms(1-3)] rg(2,5) f(1) unat_zero_dvd [of va]
    by (simp add: kfree_def subpage_kfree_def)
  have wf: "kh_wf ?h'" using f assms(3,4) by (intro kh_wf_pages [OF assms(1)]) auto
  have apart: "(va, k * PAGE_BYTES) \<notin> sub_blocks (kh_refs h p)" if "p \<in> set (allbase h)" for p
  proof
    assume "(va, k * PAGE_BYTES) \<in> sub_blocks (kh_refs h p)"
    then have "k * PAGE_BYTES = blk_size (kh_refs h p)" by (auto simp: sub_blocks_def)
    moreover have "blk_size (kh_refs h p) \<le> 2048"
      using heap_pages_blocks(1) [OF assms(1) that]
      by (auto simp: ref_ok_def blk_size_def sizes_def nth_Cons' less_Suc_eq split: if_splits)
    ultimately show False using rg(1) by simp
  qed
  have hp: "heap_pages ?h' = heap_pages h" "root_pages ?h' = root_pages h"
    by (simp_all add: heap_pages_def root_pages_def)
  have left: "kp_blocks kp v = Some j \<longleftrightarrow> v \<noteq> va \<and> kp_blocks (kh_pages h) v = Some j" for v j
    unfolding f(3) by simp
  have pages: "{(v, j * PAGE_BYTES) | v j. kp_blocks kp v = Some j \<and> v \<notin> heap_pages h \<and> v \<notin> root_pages h} =
      {(v, j * PAGE_BYTES) | v j. kp_blocks (kh_pages h) v = Some j \<and> v \<notin> heap_pages h \<and> v \<notin> root_pages h}
      - {(va, k * PAGE_BYTES)}"
    unfolding left using assms(2) by force
  have pieces: "(\<Union>p \<in> set (allbase h). sub_blocks (kh_refs h p)) =
      (\<Union>p \<in> set (allbase h). sub_blocks (kh_refs h p)) - {(va, k * PAGE_BYTES)}"
    using apart by blast
  have "kh_blocks ?h' = kh_blocks h - {(va, k * PAGE_BYTES)}"
    unfolding kh_blocks_def hp Un_Diff pieces [symmetric] pages [symmetric] by simp
  with free wf show ?thesis by blast
qed

text \<open>A page with no piece out leaves the heap.\<close>

lemma release_page_ok:
  assumes "kh_wf h" "p \<in> set (allbase h)" "sub_blocks (kh_refs h p) = {}"
  shows "\<exists>h2 h3 kp. remove_lists p (PR_BLOCKTYPE (kh_refs h p)) h = Some h2 \<and> freepageref p h2 = Some h3 \<and>
    free_kpages (PR_PAGEADDR (kh_refs h p)) (kh_pages h3) = Some kp \<and>
    kh_wf (h3\<lparr>kh_pages := kp\<rparr>) \<and> kh_blocks (h3\<lparr>kh_pages := kp\<rparr>) = kh_blocks h"
proof -
  let ?pr = "kh_refs h p" and ?b = "PR_BLOCKTYPE (kh_refs h p)" and ?va = "PR_PAGEADDR (kh_refs h p)"
  have refs: "refs_ok h" and roots: "roots_ok h" and pg: "pages_ok (kh_pages h)"
    and dis: "heap_pages h \<inter> root_pages h = {}" using assms(1) by (auto simp: kh_wf_def)
  note hp = heap_pages_blocks [OF assms(1,2)]
  have b: "?b < NSIZES" using hp(1) by (simp add: ref_ok_def)
  have dist: "distinct (allbase h)" and len: "length (sizebases h) = NSIZES" and used: "ref_used h p"
    and inj: "inj_on (\<lambda>p. PR_PAGEADDR (kh_refs h p)) (set (allbase h))"
    and sb: "\<And>c. c < NSIZES \<Longrightarrow> sizebases h ! c = filter (\<lambda>p. PR_BLOCKTYPE (kh_refs h p) = c) (allbase h)"
    using refs assms(2) by (auto simp: refs_ok_def)
  define h2 where "h2 = h\<lparr>sizebases := (sizebases h)[?b := remove1 p (sizebases h ! ?b)], allbase := remove1 p (allbase h)\<rparr>"
  have r: "remove_lists p ?b h = Some h2" using b len by (simp add: remove_lists_def h2_def)
  have "roots_ok h2" "ref_used h2 p" using roots used by (simp_all add: roots_ok_def ref_used_def h2_def)
  then obtain h3 where f: "freepageref p h2 = Some h3" "roots_ok h3" "root_pages h3 = root_pages h2"
    "\<And>q. ref_used h3 q \<longleftrightarrow> q \<noteq> p \<and> ref_used h2 q" "kh_pages h3 = kh_pages h"
    "allbase h3 = remove1 p (allbase h)" "sizebases h3 = sizebases h2" "kh_refs h3 = kh_refs h"
    using freepageref_used [of h2 p 0] by (auto simp: freepageref_def h2_def)
  obtain kp where k: "free_kpages ?va (kh_pages h) = Some kp" "pages_ok kp" "kp_blocks kp = (kp_blocks (kh_pages h))(?va := None)"
    using pages_ok_free [OF pg hp(2)] by blast
  let ?h4 = "h3\<lparr>kh_pages := kp\<rparr>"
  have u2: "ref_used h2 q \<longleftrightarrow> ref_used h q" for q by (simp add: ref_used_def h2_def)
  have set4: "set (allbase h3) = set (allbase h) - {p}" using dist f(6) by simp
  have heap4: "heap_pages h3 = heap_pages h - {?va}"
    using inj assms(2) by (auto simp: heap_pages_def set4 f(8) inj_on_def)
  have root4: "root_pages h3 = root_pages h" using f(3) by (simp add: root_pages_def h2_def)
  have "refs_ok h3"
    unfolding refs_ok_def
  proof (intro conjI)
    show "distinct (allbase h3)" "length (sizebases h3) = NSIZES" using dist len f(6,7) by (simp_all add: h2_def)
    show "inj_on (\<lambda>p. PR_PAGEADDR (kh_refs h3 p)) (set (allbase h3))"
      using inj unfolding set4 f(8) by (rule inj_on_diff)
    show "\<forall>q \<in> set (allbase h3). ref_ok (kh_pages h3) (kh_refs h3 q) \<and> ref_used h3 q"
      using refs by (auto simp: set4 f(4,5,8) u2 refs_ok_def)
    show "\<forall>c < NSIZES. sizebases h3 ! c = filter (\<lambda>p. PR_BLOCKTYPE (kh_refs h3 p) = c) (allbase h3)"
    proof (intro allI impI)
      fix c assume c: "c < NSIZES"
      show "sizebases h3 ! c = filter (\<lambda>p. PR_BLOCKTYPE (kh_refs h3 p) = c) (allbase h3)"
      proof (cases "c = ?b")
        case True
        then show ?thesis using b len sb [OF c] f(6-8) by (simp add: h2_def filter_remove1)
      next
        case False
        then have "filter (\<lambda>q. PR_BLOCKTYPE (kh_refs h q) = c) (remove1 p (allbase h)) =
            filter (\<lambda>q. PR_BLOCKTYPE (kh_refs h q) = c) (allbase h)"
          by (simp add: filter_remove1 remove1_filter_not)
        with False sb [OF c] f(6-8) show ?thesis by (simp add: h2_def)
      qed
    qed
  qed
  with f(2,5) pg dis have w3: "kh_wf h3" by (auto simp: kh_wf_def heap4 root4)
  have "?va \<notin> root_pages h" using dis hp(3) by blast
  then have w4: "kh_wf ?h4" using k(2,3) heap4 root4 f(5) by (intro kh_wf_pages [OF w3]) auto
  have left: "kp_blocks kp v = Some j \<and> v \<notin> heap_pages h - {?va} \<and> v \<notin> root_pages h \<longleftrightarrow>
      kp_blocks (kh_pages h) v = Some j \<and> v \<notin> heap_pages h \<and> v \<notin> root_pages h" for v j
    unfolding k(3) using hp(3) by auto
  have hp4: "heap_pages ?h4 = heap_pages h - {?va}" "root_pages ?h4 = root_pages h"
    using heap4 root4 by (simp_all add: heap_pages_def root_pages_def)
  have c4: "kh_pages ?h4 = kp" "allbase ?h4 = allbase h3" "kh_refs ?h4 = kh_refs h3" by simp_all
  have "(\<Union>q \<in> set (allbase h) - {p}. sub_blocks (kh_refs h q)) = (\<Union>q \<in> set (allbase h). sub_blocks (kh_refs h q))"
    using assms(2,3) by blast
  then have "kh_blocks ?h4 = kh_blocks h"
    unfolding kh_blocks_def hp4 c4 left set4 f(8) by simp
  with r f(1,5) k(1) w4 show ?thesis by auto
qed

lemma kfree_piece:
  assumes "kh_wf h" "p \<in> set (allbase h)" "off < PAGE_BYTES" "blk_size (kh_refs h p) dvd off"
    and "off \<notin> set (pr_freelist (kh_refs h p))" "va = PR_PAGEADDR (kh_refs h p) + of_nat off"
  shows "\<exists>h'. kfree va h = Some h' \<and> kh_wf h' \<and> kh_blocks h' = kh_blocks h - {(va, blk_size (kh_refs h p))}"
proof -
  let ?pr = "kh_refs h p"
  let ?s = "blk_size ?pr"
  have pg: "pages_ok (kh_pages h)" using assms(1) by (simp add: kh_wf_def)
  note hp = heap_pages_blocks [OF assms(1,2)]
  note page = ref_ok_page [OF pg hp(1)]
  have va: "unat va = unat (PR_PAGEADDR ?pr) + off" using piece_unat [OF page(1) assms(3)] assms(6) by simp
  then have "va \<noteq> 0" using page(3) by (metis add_is_0 unat_0 unat_eq_0)
  have off: "unat (va - PR_PAGEADDR ?pr) = off" using assms(3,6) by (simp add: unat_of_nat_u32)
  let ?pr1 = "?pr\<lparr>pr_freelist := off # pr_freelist ?pr, pr_nfree := pr_nfree ?pr + 1\<rparr>"
  define h1 where "h1 = h\<lparr>kh_refs := (kh_refs h)(p := ?pr1)\<rparr>"
  have ok1: "ref_ok (kh_pages h) ?pr1" using hp(1) assms(3-5) by (simp add: ref_ok_def del: One_nat_def add_Suc_right Nat.add_0_right)
  have pa: "pageaddr_and_blocktype ?pr1 = pageaddr_and_blocktype ?pr" by simp
  note w1 = kh_wf_set_ref [OF assms(1,2) pa ok1, folded h1_def]
  have here: "sub_blocks ?pr1 = sub_blocks ?pr - {(va, ?s)}"
  proof (rule set_eqI)
    fix x :: "vaddr_t \<times> nat"
    obtain v n where x: "x = (v, n)" by fastforce
    show "x \<in> sub_blocks ?pr1 \<longleftrightarrow> x \<in> sub_blocks ?pr - {(va, ?s)}"
    proof (cases "\<exists>o2 < PAGE_BYTES. v = PR_PAGEADDR ?pr + of_nat o2")
      case True
      then obtain o2 where o2: "o2 < PAGE_BYTES" "v = PR_PAGEADDR ?pr + of_nat o2" by blast
      have "v = va \<longleftrightarrow> o2 = off"
        using piece_unat [OF page(1) o2(1)] va o2(2) assms(6) by (metis add_left_imp_eq)
      then show ?thesis
        using sub_blocks_piece [OF pg hp(1) o2(1), of n] sub_blocks_piece [OF pg ok1 o2(1), of n] x o2(2) by auto
    next
      case False
      then show ?thesis using x by (auto simp: sub_blocks_def)
    qed
  qed
  have there: "(va, ?s) \<notin> sub_blocks (kh_refs h q)" if "q \<in> set (allbase h) - {p}" for q
  proof
    assume m: "(va, ?s) \<in> sub_blocks (kh_refs h q)"
    then obtain o2 where o2: "o2 < PAGE_BYTES" "va = PR_PAGEADDR (kh_refs h q) + of_nat o2"
      by (auto simp: sub_blocks_def)
    have "page_of (kh_refs h) va (allbase h) = Some (Some q)" unfolding o2(2) by (rule page_of_piece [OF assms(1) _ o2(1)]) (use that in simp)
    moreover have "page_of (kh_refs h) va (allbase h) = Some (Some p)" unfolding assms(6) by (rule page_of_piece [OF assms(1-3)])
    ultimately show False using that by simp
  qed
  have whole: "(va, ?s) \<noteq> (v, k * PAGE_BYTES)" if "kp_blocks (kh_pages h) v = Some k" "v \<notin> heap_pages h" for v k
  proof
    assume "(va, ?s) = (v, k * PAGE_BYTES)"
    then have "page_of (kh_refs h) va (allbase h) = Some None" using page_of_none [OF assms(1) that] by simp
    moreover have "page_of (kh_refs h) va (allbase h) = Some (Some p)" unfolding assms(6) by (rule page_of_piece [OF assms(1-3)])
    ultimately show False by simp
  qed
  have "(\<Union>q \<in> set (allbase h) - {p}. sub_blocks (kh_refs h q)) =
      (\<Union>q \<in> set (allbase h) - {p}. sub_blocks (kh_refs h q)) - {(va, ?s)}"
    using there by blast
  note others = this [symmetric]
  have "{(v, k * PAGE_BYTES) | v k. kp_blocks (kh_pages h) v = Some k \<and> v \<notin> heap_pages h \<and> v \<notin> root_pages h} =
      {(v, k * PAGE_BYTES) | v k. kp_blocks (kh_pages h) v = Some k \<and> v \<notin> heap_pages h \<and> v \<notin> root_pages h} - {(va, ?s)}"
    using whole by blast
  note large = this [symmetric]
  have blocks1: "kh_blocks h1 = kh_blocks h - {(va, ?s)}"
    unfolding w1(2) kh_blocks_split [OF assms(2)] here Un_Diff others large ..
  have fl: "set (pr_freelist ?pr1) \<subseteq> {o2. o2 < 4096 \<and> ?s dvd o2}" "distinct (pr_freelist ?pr1)"
    "length (pr_freelist ?pr1) = pr_nfree ?pr1" using ok1 by (auto simp: ref_ok_def)
  have pos: "0 < ?s" using page(4) by simp
  note all = fresh_list [OF page(5) pos]
  have card: "card {o2. o2 < 4096 \<and> ?s dvd o2} = 4096 div ?s" unfolding all(2) [symmetric] distinct_card [OF all(1)] by simp
  have fin: "finite {o2. o2 < 4096 \<and> ?s dvd o2}" by simp
  have le: "pr_nfree ?pr1 \<le> 4096 div ?s"
    using card_mono [OF fin fl(1)] distinct_card [OF fl(2)] fl(3) card by simp
  have pageof: "page_of (kh_refs h) va (allbase h) = Some (Some p)" unfolding assms(6) by (rule page_of_piece [OF assms(1-3)])
  have mod: "off mod (sizes ! PR_BLOCKTYPE ?pr) = 0" using assms(4) by (simp add: blk_size_def)
  have hd: "pr_freelist ?pr \<noteq> [] \<longrightarrow> hd (pr_freelist ?pr) \<noteq> off" using assms(5) by (metis hd_in_set)
  show ?thesis
  proof (cases "pr_nfree ?pr1 = 4096 div ?s")
    case False
    then have "subpage_kfree va h = Some (True, h1)"
      using pageof off mod hd assms(3) le by (simp add: subpage_kfree_def Let_def h1_def blk_size_def)
    then show ?thesis using \<open>va \<noteq> 0\<close> w1(1) blocks1 by (simp add: kfree_def)
  next
    case True
    have "card (set (pr_freelist ?pr1)) = card {o2. o2 < 4096 \<and> ?s dvd o2}"
      using distinct_card [OF fl(2)] fl(3) card True by simp
    then have "set (pr_freelist ?pr1) = {o2. o2 < 4096 \<and> ?s dvd o2}" by (rule card_subset_eq [OF fin fl(1)])
    then have "sub_blocks ?pr1 = {}" by (auto simp: sub_blocks_def)
    then have "sub_blocks (kh_refs h1 p) = {}" by (simp add: h1_def)
    moreover have "p \<in> set (allbase h1)" using assms(2) by (simp add: h1_def)
    moreover have "PR_BLOCKTYPE (kh_refs h1 p) = PR_BLOCKTYPE ?pr" "PR_PAGEADDR (kh_refs h1 p) = PR_PAGEADDR ?pr"
      by (simp_all add: h1_def)
    ultimately obtain h2 h3 kp where r: "remove_lists p (PR_BLOCKTYPE ?pr) h1 = Some h2" "freepageref p h2 = Some h3"
      "free_kpages (PR_PAGEADDR ?pr) (kh_pages h3) = Some kp" "kh_wf (h3\<lparr>kh_pages := kp\<rparr>)"
      "kh_blocks (h3\<lparr>kh_pages := kp\<rparr>) = kh_blocks h1"
      using release_page_ok [OF w1(1), of p] by auto
    have "subpage_kfree va h = Some (True, h3\<lparr>kh_pages := kp\<rparr>)"
      using pageof off mod hd assms(3) True r(1-3) unfolding h1_def
      by (simp add: subpage_kfree_def Let_def blk_size_def)
    then show ?thesis using \<open>va \<noteq> 0\<close> r(4,5) blocks1 by (simp add: kfree_def)
  qed
qed

lemma kfree_block:
  assumes "kh_wf h" "(va, n) \<in> kh_blocks h"
  shows "\<exists>h'. kfree va h = Some h' \<and> kh_wf h' \<and> kh_blocks h' = kh_blocks h - {(va, n)}"
  using assms(2)
proof (cases rule: kh_blocks_cases)
  case (piece p off)
  then show ?thesis using kfree_piece [OF assms(1), of p off va] by simp
next
  case (pages k)
  then show ?thesis using kfree_pages [OF assms(1)] by blast
qed

lemma reorder_preimage:
  assumes "mset (map f xs) = mset ws"
  shows "\<exists>bs. mset bs = mset xs \<and> map f bs = ws"
  using assms
proof (induction ws arbitrary: xs)
  case Nil
  then show ?case by simp
next
  case (Cons w ws)
  then have "w \<in> set (map f xs)" by (metis list.set_intros(1) mset_eq_setD)
  then obtain x where x: "x \<in> set xs" "f x = w" by auto
  define ys where "ys = remove1 x xs"
  have m: "mset xs = mset (x # ys)" using x(1) by (simp add: ys_def)
  then have "mset (map f xs) = mset (map f (x # ys))" unfolding mset_map by simp
  with Cons.prems x(2) have "mset (map f ys) = mset ws" by simp
  from Cons.IH [OF this] obtain bs where bs: "mset bs = mset ys" "map f bs = ws" by blast
  have "mset (x # bs) = mset xs" unfolding m using bs(1) by simp
  moreover have "map f (x # bs) = w # ws" using bs(2) x(2) by simp
  ultimately show ?case by (intro exI [of _ "x # bs"] conjI)
qed

subsection \<open>The contract of kmalloc and kfree\<close>

text \<open>The largest request, 2 GB: beyond it the rounding to pages can wrap.\<close>

abbreviation (input) max_request :: u32 where "max_request \<equiv> 0x80000000"

locale allocator =
  fixes malloc :: "u32 \<Rightarrow> 's \<Rightarrow> (vaddr_t \<times> 's) option"
    and mfree :: "vaddr_t \<Rightarrow> 's \<Rightarrow> 's option"
    and live :: "'s \<Rightarrow> (vaddr_t \<times> nat) set"
    and inv :: "'s \<Rightarrow> bool"
  assumes live_apart: "\<lbrakk>inv s; b \<in> live s; c \<in> live s; b \<noteq> c\<rbrakk> \<Longrightarrow> block_bytes b \<inter> block_bytes c = {}"
    and malloc_new: "\<lbrakk>inv s; sz \<le> max_request; malloc sz s = Some (va, s'); va \<noteq> 0\<rbrakk> \<Longrightarrow>
      inv s' \<and> (\<exists>n. unat sz \<le> n \<and> (va, n) \<notin> live s \<and> live s' = insert (va, n) (live s))"
    and free_live: "\<lbrakk>inv s; b \<in> live s\<rbrakk> \<Longrightarrow>
      \<exists>s'. mfree (fst b) s = Some s' \<and> inv s' \<and> live s' = live s - {b}"
begin

text \<open>A client that asks for several blocks, stopping at the first NULL, and one that frees several.\<close>

fun malloc_all :: "u32 list \<Rightarrow> 's \<Rightarrow> (vaddr_t list \<times> 's) option" where
  "malloc_all [] s = Some ([], s)"
| "malloc_all (sz # szs) s = do {
     (va, s1) \<leftarrow> malloc sz s;
     if va = 0 then None else do { (vs, s2) \<leftarrow> malloc_all szs s1; Some (va # vs, s2) }
   }"

fun free_all :: "vaddr_t list \<Rightarrow> 's \<Rightarrow> 's option" where
  "free_all [] s = Some s"
| "free_all (va # vs) s = Option.bind (mfree va s) (free_all vs)"

lemma malloc_all_blocks:
  assumes "inv s" "\<forall>sz \<in> set szs. sz \<le> max_request" "malloc_all szs s = Some (vs, s')"
  shows "inv s' \<and> (\<exists>ns. length ns = length szs \<and> length vs = length szs \<and> (\<forall>i < length szs. unat (szs ! i) \<le> ns ! i) \<and>
    distinct (zip vs ns) \<and> set (zip vs ns) \<inter> live s = {} \<and> live s' = live s \<union> set (zip vs ns))"
  using assms
proof (induction szs arbitrary: s vs)
  case Nil
  then show ?case by auto
next
  case (Cons sz szs)
  from Cons.prems(3) obtain va s1 vs1 where m: "malloc sz s = Some (va, s1)" "va \<noteq> 0"
    "malloc_all szs s1 = Some (vs1, s')" "vs = va # vs1"
    by (auto split: if_splits)
  obtain n where n: "inv s1" "unat sz \<le> n" "(va, n) \<notin> live s" "live s1 = insert (va, n) (live s)"
    using malloc_new [OF Cons.prems(1) _ m(1,2)] Cons.prems(2) by auto
  obtain ns where ns: "inv s'" "length ns = length szs" "length vs1 = length szs" "\<forall>i < length szs. unat (szs ! i) \<le> ns ! i"
    "distinct (zip vs1 ns)" "set (zip vs1 ns) \<inter> live s1 = {}" "live s' = live s1 \<union> set (zip vs1 ns)"
    using Cons.IH [OF n(1) _ m(3)] Cons.prems(2) by auto
  have "\<forall>i < length (sz # szs). unat ((sz # szs) ! i) \<le> (n # ns) ! i"
    using n(2) ns(4) by (auto simp: nth_Cons split: nat.split)
  moreover have "distinct (zip vs (n # ns))" "set (zip vs (n # ns)) \<inter> live s = {}"
    "live s' = live s \<union> set (zip vs (n # ns))"
    using n ns m(4) by auto
  ultimately show ?case using ns(1-3) m(4) by (intro conjI exI [of _ "n # ns"]) simp_all
qed

lemma free_all_blocks:
  assumes "inv s" "set bs \<subseteq> live s" "distinct bs"
  shows "\<exists>s'. free_all (map fst bs) s = Some s' \<and> inv s' \<and> live s' = live s - set bs"
  using assms
proof (induction bs arbitrary: s)
  case Nil
  then show ?case by simp
next
  case (Cons b bs)
  then obtain s1 where f: "mfree (fst b) s = Some s1" "inv s1" "live s1 = live s - {b}"
    using free_live [of s b] by auto
  with Cons.prems have "set bs \<subseteq> live s1" "distinct bs" by auto
  from Cons.IH [OF f(2) this] f show ?case by auto
qed

lemma malloc_then_free_any_order:
  assumes "inv s" "\<forall>sz \<in> set szs. sz \<le> max_request" "malloc_all szs s = Some (vs, s1)" "mset ws = mset vs"
  shows "\<exists>s2. free_all ws s1 = Some s2 \<and> inv s2 \<and> live s2 = live s"
proof -
  obtain ns where ns: "inv s1" "length ns = length szs" "length vs = length szs" "distinct (zip vs ns)"
    "set (zip vs ns) \<inter> live s = {}" "live s1 = live s \<union> set (zip vs ns)"
    using malloc_all_blocks [OF assms(1-3)] by blast
  have "mset (map fst (zip vs ns)) = mset ws" using ns(2,3) assms(4) by simp
  then obtain bs where bs: "mset bs = mset (zip vs ns)" "map fst bs = ws"
    using reorder_preimage by (metis (mono_tags))
  then have "set bs = set (zip vs ns)" "distinct bs" using ns(4) by (metis mset_eq_setD, metis mset_eq_imp_distinct_iff)
  with free_all_blocks [of s1 bs] ns bs(2) show ?thesis by auto
qed

end

interpretation heap: allocator kmalloc kfree kh_blocks kh_wf
proof unfold_locales
  fix s b c assume "kh_wf s" "b \<in> kh_blocks s" "c \<in> kh_blocks s" "b \<noteq> c"
  then show "block_bytes b \<inter> block_bytes c = {}"
    using kh_blocks_disjoint [of s "fst b" "snd b" "fst c" "snd c"] by simp
next
  fix s sz va s' assume "kh_wf s" "sz \<le> max_request" "kmalloc sz s = Some (va, s')" "va \<noteq> 0"
  then show "kh_wf s' \<and> (\<exists>n. unat sz \<le> n \<and> (va, n) \<notin> kh_blocks s \<and> kh_blocks s' = insert (va, n) (kh_blocks s))"
    using kmalloc_block by (simp add: word_le_nat_alt)
next
  fix s b assume "kh_wf s" "b \<in> kh_blocks s"
  then show "\<exists>s'. kfree (fst b) s = Some s' \<and> kh_wf s' \<and> kh_blocks s' = kh_blocks s - {b}"
    using kfree_block [of s "fst b" "snd b"] by simp
qed

text \<open>The client programs, on kmalloc and kfree.\<close>

definition kmalloc_all :: "u32 list \<Rightarrow> kheap_state \<Rightarrow> (vaddr_t list \<times> kheap_state) option" where
  "kmalloc_all = heap.malloc_all"

definition kfree_all :: "vaddr_t list \<Rightarrow> kheap_state \<Rightarrow> kheap_state option" where
  "kfree_all = heap.free_all"

lemma kmalloc_all_simps [simp]:
  "kmalloc_all [] s = Some ([], s)"
  "kmalloc_all (sz # szs) s = do {
     (va, s1) \<leftarrow> kmalloc sz s;
     if va = 0 then None else do { (vs, s2) \<leftarrow> kmalloc_all szs s1; Some (va # vs, s2) } }"
  unfolding kmalloc_all_def by (simp_all only: heap.malloc_all.simps)

lemma kfree_all_simps [simp]:
  "kfree_all [] s = Some s" "kfree_all (va # vs) s = Option.bind (kfree va s) (kfree_all vs)"
  unfolding kfree_all_def by (simp_all only: heap.free_all.simps)

subsection \<open>A concrete heap\<close>

definition empty_root :: kheap_root where
  "empty_root = \<lparr>root_page = 0, pagerefs_inuse = replicate 8 0, numinuse = 0\<rparr>"

definition kheap_demo :: kheap_state where
  "kheap_demo = \<lparr>kheaproots = replicate 16 empty_root, kh_refs = (\<lambda>_. \<lparr>pageaddr_and_blocktype = 0, pr_freelist = [], pr_nfree = 0\<rparr>),
     sizebases = replicate 8 [], allbase = [], kh_pages = kp_demo\<rparr>"

lemma kp_demo_blocks: "kp_blocks kp_demo va = None"
proof (cases "kp_blocks kp_demo va")
  case (Some n)
  have c: "kp_cmap kp_demo = cm_demo" by (simp add: kp_demo_def)
  have "cm_range_ok (kp_cmap kp_demo)" using cm_demo_wf by (simp add: c cm_wf_def)
  from kp_blocks_frame [OF this, of va n] Some obtain i where "i < ram_frames cm_demo"
    "cme_state (cm_entries cm_demo ! i) = FIXED" "0 < cme_npages (cm_entries cm_demo ! i)" by (auto simp: c)
  then show ?thesis by (auto simp: cm_demo_def less_Suc_eq)
qed

lemma kheap_demo_wf: "kh_wf kheap_demo"
proof -
  have "pages_ok kp_demo" by (simp add: pages_ok_def kp_demo_live kps.apart_def kp_demo_blocks)
  moreover have "refs_ok kheap_demo" by (simp add: refs_ok_def kheap_demo_def)
  moreover have "\<not> inuse empty_root j" if "j < 256" for j
  proof -
    have "j div 32 < 8" using that by simp
    then have "pagerefs_inuse empty_root ! (j div 32) = 0" unfolding empty_root_def by simp
    then show ?thesis by (simp add: inuse_def)
  qed
  then have "{j. j < 256 \<and> inuse empty_root j} = {}" by blast
  then have "root_ok kp_demo empty_root" by (simp add: root_ok_def) (simp add: empty_root_def)
  then have "roots_ok kheap_demo" by (simp add: roots_ok_def kheap_demo_def)
  ultimately show ?thesis by (simp add: kh_wf_def) (simp add: heap_pages_def kheap_demo_def)
qed

lemma kheap_demo_empty: "kh_blocks kheap_demo = {}"
  by (simp add: kh_blocks_def) (simp add: kheap_demo_def kp_demo_blocks)

lemma kheap_demo_kmalloc: "\<exists>h'. kmalloc 5000 kheap_demo = Some (0x80004000, h')"
proof -
  obtain s' where "alloc_kpages 2 kp_demo = Some (0x80004000, s')" using kp_demo_alloc by blast
  then show ?thesis by (simp add: kmalloc_def kheap_demo_def)
qed

subsection \<open>The hand-over at vm_bootstrap\<close>

definition kpages_run :: "u32 list \<Rightarrow> kpages \<Rightarrow> ((vaddr_t \<times> nat) list \<times> kpages) option" where
  "kpages_run = kpg.alloc_all"

text \<open>The pages that the coremap array takes.\<close>

definition array_pages :: "ram \<Rightarrow> nat" where
  "array_pages r = (coremap_frames r * sizeof_cm_entry + 4095) div PAGE_BYTES"

lemma ram_ok_boot: "ram_ok r \<Longrightarrow> boot_args_ok (rm_lastpaddr r) (rm_firstpaddr r)"
  by (simp add: ram_ok_def boot_args_ok_def)

lemma coremap_frames_bound:
  assumes "ram_ok r"
  shows "coremap_frames r = (unat (rm_lastpaddr r) - unat (rm_firstpaddr r)) div 4096" "coremap_frames r \<le> 0x20000"
proof -
  have le: "rm_firstpaddr r \<le> rm_lastpaddr r" "unat (rm_lastpaddr r) \<le> 0x20000000"
    using assms by (auto simp: ram_ok_def word_le_nat_alt)
  have "unat (rm_lastpaddr r - rm_firstpaddr r) = unat (rm_lastpaddr r) - unat (rm_firstpaddr r)"
    by (rule unat_sub_u32 [OF le(1)])
  then show e: "coremap_frames r = (unat (rm_lastpaddr r) - unat (rm_firstpaddr r)) div 4096"
    by (simp add: coremap_frames_def ram_getsize_def ram_peekfirstfree_def unat_div_u32)
  have "(unat (rm_lastpaddr r) - unat (rm_firstpaddr r)) div 4096 \<le> 0x20000000 div 4096"
    using le(2) by (intro div_le_mono) linarith
  then show "coremap_frames r \<le> 0x20000" unfolding e by simp
qed

lemma vm_bootstrap_hands_over:
  assumes "\<not> cm_bootstrapped (kp_cmap (kh_pages h))" "ram_ok (kp_ram (kh_pages h))" "103 \<le> coremap_frames (kp_ram (kh_pages h))"
    and "vm_bootstrap False h = Some h'"
  shows "kp_inv (kh_pages h') \<and> (\<exists>va h1. kmalloc (of_nat (coremap_frames (kp_ram (kh_pages h)) * sizeof_cm_entry)) h = Some (va, h1) \<and>
    va \<noteq> 0 \<and> kp_held (kh_pages h) \<inter> block_pages (va, array_pages (kp_ram (kh_pages h))) = {} \<and>
    kp_held (kh_pages h) \<union> block_pages (va, array_pages (kp_ram (kh_pages h))) \<subseteq> kp_held (kh_pages h'))"
proof -
  let ?s = "kh_pages h" and ?r = "kp_ram (kh_pages h)"
  let ?n = "coremap_frames ?r"
  note nb = coremap_frames_bound [OF assms(2)]
  define sz :: u32 where "sz = of_nat (?n * sizeof_cm_entry)"
  have sz: "unat sz = ?n * 20" unfolding sz_def sizeof_cm_entry_def using nb(2) by (intro unat_of_nat_u32) simp
  have big: "LARGEST_SUBPAGE_SIZE \<le> sz" using assms(3) sz by (simp add: word_le_nat_alt)
  let ?k = "(sz + PAGE_SIZE - 1) div PAGE_SIZE"
  have "unat (sz + 4095) = unat sz + 4095" using sz nb(2) by (simp add: unat_add_u32)
  moreover have "?k = (sz + 4095) div PAGE_SIZE" by (simp add: add.commute)
  ultimately have k: "unat ?k = array_pages ?r"
    by (simp only: unat_div_u32 array_pages_def sizeof_cm_entry_def sz) simp
  have kpos: "0 < array_pages ?r" "array_pages ?r \<le> 0x80000"
    using assms(3) nb(2) by (simp_all add: array_pages_def sizeof_cm_entry_def)
  have kw: "0 < ?k" "?k \<le> max_pages"
    using kpos unfolding k [symmetric] by (simp_all add: word_less_nat_alt word_le_nat_alt)
  have "vm_bootstrap False h = do { (coremap, h1) \<leftarrow> kmalloc sz h;
      c \<leftarrow> cm_bootstrap (rm_lastpaddr ?r) (rm_firstpaddr ?r) (coremap \<noteq> 0);
      Some (h1\<lparr>kh_pages := (kh_pages h1)\<lparr>kp_cmap := c\<rparr>\<rparr>) }"
    unfolding vm_bootstrap_def Let_def sz_def ram_getsize_def ram_peekfirstfree_def by (simp only: if_False)
  with assms(4) obtain va h1 c where m: "kmalloc sz h = Some (va, h1)"
    and c: "cm_bootstrap (rm_lastpaddr ?r) (rm_firstpaddr ?r) (va \<noteq> 0) = Some c"
    and h': "h' = h1\<lparr>kh_pages := (kh_pages h1)\<lparr>kp_cmap := c\<rparr>\<rparr>"
    by (auto simp: bind_eq_Some_conv)
  have va: "va \<noteq> 0" using c by (auto simp: cm_bootstrap_def Let_def split: if_splits)
  from m big obtain s1 where a: "alloc_kpages ?k ?s = Some (va, s1)"
    by (auto simp: kmalloc_def Let_def split: if_splits)
  have inv: "kp_inv ?s" using assms(1,2) by (simp add: kp_inv_def)
  obtain p where p: "va = kpage p" "p + array_pages ?r \<le> 0x20000" "{p..<p + array_pages ?r} \<inter> kp_held ?s = {}"
    using alloc_kpages_block [OF inv kw a va] k by auto
  have bp: "block_pages (va, array_pages ?r) = {p..<p + array_pages ?r}" using p(1,2) kpos(1) by simp
  obtain pa r1 where st: "ram_stealmem ?k ?r = (pa, r1)" by fastforce
  from alloc_kpages_early [OF assms(1), of ?k va s1] a va st have pa: "va = PADDR_TO_KVADDR pa" "pa \<noteq> 0"
    by (auto split: if_splits)
  from stealmem_ok [OF assms(2) kw st] pa(2)
  have fit: "pa = rm_firstpaddr ?r" "unat (rm_firstpaddr ?r) + array_pages ?r * 4096 \<le> unat (rm_lastpaddr ?r)"
    unfolding k by (auto split: if_splits)
  have pn: "p = unat (rm_firstpaddr ?r) div 4096"
  proof -
    have "p < 0x20000" using p(2) kpos(1) by linarith
    from kpage_number [OF this] have "unat pa = p * 4096" using p(1) pa(1) by (metis kvaddr_paddr)
    then show ?thesis using fit(1) by simp
  qed
  have le: "array_pages ?r \<le> ?n"
    unfolding nb(1) using fit(2) by (simp add: less_eq_div_iff_mult_less_eq)
  have wf: "cm_wf c" by (rule cm_bootstrap_wf [OF ram_ok_boot [OF assms(2)] c])
  have cf: "cm_firstpaddr c = rm_firstpaddr ?r" "ram_frames c = ?n" "cm_bootstrapped c"
    "\<And>i. i < ?n \<Longrightarrow> cme_state (cm_entries c ! i) = (if i \<le> ?n * 20 div 4096 then FIXED else FREE)"
    using c va unfolding cm_bootstrap_def Let_def split_beta coremap_frames_def ram_getsize_def ram_peekfirstfree_def
    by (auto simp: boot_loop_nth sizeof_cm_entry_def)
  have base: "cm_base c = p" by (simp add: cm_base_def cf(1) pn)
  have "p + i \<in> kp_held (kh_pages h')" if "i < array_pages ?r" for i
  proof -
    have "i \<le> ?n * 20 div 4096" using that by (simp add: array_pages_def sizeof_cm_entry_def)
    moreover have "i < ?n" using that le by simp
    ultimately have "cm_abs c ! i \<noteq> Unowned" using cf(2,4) by (simp add: nth_cm_abs)
    then show ?thesis using kp_held_boot [of "kh_pages h'" i] \<open>i < ?n\<close> cf(2,3) base by (simp add: h')
  qed
  then have "{p..<p + array_pages ?r} \<subseteq> kp_held (kh_pages h')"
    by (metis atLeastLessThan_iff le_iff_add nat_add_left_cancel_less subsetI)
  moreover have "kp_held ?s = {..<p}" using assms(1) pn by (simp add: kp_held_def)
  then have "kp_held ?s \<subseteq> kp_held (kh_pages h')" using cf(3) base by (simp add: kp_held_def h')
  moreover have "kp_inv (kh_pages h')" using wf cf(3) by (simp add: kp_inv_def h')
  ultimately show ?thesis using p(3) bp m [unfolded sz_def] va by (intro conjI exI [of _ va] exI [of _ h1]) auto
qed

subsection \<open>Properties\<close>

text \<open>C20: kmalloc never hands out memory twice. A request of at most 2 GB (a larger one can wrap in the
  rounding to pages) that does not return NULL (a NULL can leave a pageref behind) gets a block of
  at least the requested length that shares no byte with any block that is out; the block
  joins those that are out, nothing else changes in them, and the invariant holds.\<close>

theorem kmalloc_gives_fresh_block:
  assumes "kh_wf h" "sz \<le> max_request" "kmalloc sz h = Some (va, h')" "va \<noteq> 0"
  shows "\<exists>n. unat sz \<le> n \<and> kh_blocks h' = insert (va, n) (kh_blocks h) \<and> kh_wf h' \<and>
    {b \<in> kh_blocks h. block_bytes b \<inter> block_bytes (va, n) \<noteq> {}} = {}"
proof -
  obtain n where n: "kh_wf h'" "unat sz \<le> n" "(va, n) \<notin> kh_blocks h" "kh_blocks h' = insert (va, n) (kh_blocks h)"
    using heap.malloc_new [OF assms] by blast
  have "block_bytes b \<inter> block_bytes (va, n) = {}" if "b \<in> kh_blocks h" for b
    using heap.live_apart [OF n(1), of b "(va, n)"] that n(3,4) by blast
  with n show ?thesis by blast
qed

theorem kmalloc_gives_fresh_block_witness:
  "\<exists>n h'. kmalloc 5000 kheap_demo = Some (0x80004000, h') \<and> 5000 \<le> n \<and> kh_blocks h' = {(0x80004000, n)}"
proof -
  obtain h' where h': "kmalloc 5000 kheap_demo = Some (0x80004000, h')" using kheap_demo_kmalloc by blast
  from kmalloc_gives_fresh_block [OF kheap_demo_wf _ h'] h' show ?thesis by (auto simp: kheap_demo_empty)
qed

text \<open>C21: what kmalloc gave, kfree takes back, in any order. After a series of requests that all succeeded,
  freeing the pointers in any order does not halt, and the blocks that are out are those from
  before the series.\<close>

theorem kmalloc_kfree_any_order:
  assumes "kh_wf h" "list_all (\<lambda>sz. sz \<le> max_request) szs" "kmalloc_all szs h = Some (vs, h1)" "mset ws = mset vs"
  shows "\<exists>h2. kfree_all ws h1 = Some h2 \<and> kh_wf h2 \<and> kh_blocks h2 = kh_blocks h"
  using heap.malloc_then_free_any_order [of h szs vs h1 ws] assms
  by (simp add: kmalloc_all_def kfree_all_def list_all_iff)

theorem kmalloc_kfree_any_order_witness:
  "\<exists>h1 h2. kmalloc 5000 kheap_demo = Some (0x80004000, h1) \<and> kfree 0x80004000 h1 = Some h2 \<and> kh_blocks h2 = {}"
proof -
  obtain h1 where h1: "kmalloc 5000 kheap_demo = Some (0x80004000, h1)" using kheap_demo_kmalloc by blast
  then have "kmalloc_all [5000] kheap_demo = Some ([0x80004000], h1)" by simp
  from kmalloc_kfree_any_order [OF kheap_demo_wf _ this, of "[0x80004000]"] h1 show ?thesis
    by (auto simp: kheap_demo_empty bind_eq_Some_conv)
qed

text \<open>C22: the hand-over of physical memory is safe. Take any series of blocks that alloc_kpages gave before
  vm_bootstrap, the coremap array, which vm_bootstrap got from kmalloc at the address va, and any series of
  blocks that alloc_kpages gives afterwards: all these are pairwise page-disjoint. The machine has at
  least 103 frames (with fewer, the array comes from the subpage allocator).\<close>

theorem boot_blocks_disjoint:
  assumes "\<not> cm_bootstrapped (kp_cmap s)" "ram_ok (kp_ram s)"
    and "list_all (\<lambda>n. 0 < n \<and> n \<le> max_pages) (ns1 @ ns2)" "kpages_run ns1 s = Some (bs1, kh_pages h)"
    and "\<not> cm_bootstrapped (kp_cmap (kh_pages h))" "103 \<le> coremap_frames (kp_ram (kh_pages h))"
    and "vm_bootstrap False h = Some h'" "kpages_run ns2 (kh_pages h') = Some (bs2, s3)"
  shows "\<exists>va h1. kmalloc (of_nat (coremap_frames (kp_ram (kh_pages h)) * sizeof_cm_entry)) h = Some (va, h1) \<and> va \<noteq> 0 \<and>
    sorted_wrt (\<lambda>b c. block_pages b \<inter> block_pages c = {}) (bs1 @ (va, array_pages (kp_ram (kh_pages h))) # bs2)"
proof -
  have inv: "kp_inv s" using assms(1,2) by (simp add: kp_inv_def)
  have r1: "kpg.alloc_all ns1 s = Some (bs1, kh_pages h)" and r2: "kpg.alloc_all ns2 (kh_pages h') = Some (bs2, s3)"
    using assms(4,8) by (simp_all add: kpages_run_def)
  have sizes: "\<forall>n \<in> set ns1. 0 < n \<and> n \<le> max_pages" "\<forall>n \<in> set ns2. 0 < n \<and> n \<le> max_pages"
    using assms(3) by (auto simp: list_all_iff)
  note d1 = kpg.alloc_all_disjoint [OF inv sizes(1) r1]
  then have ok: "ram_ok (kp_ram (kh_pages h))" using assms(5) by (simp add: kp_inv_def)
  obtain va h1 where va: "kp_inv (kh_pages h')" "kp_held (kh_pages h) \<inter> block_pages (va, array_pages (kp_ram (kh_pages h))) = {}"
    "kp_held (kh_pages h) \<union> block_pages (va, array_pages (kp_ram (kh_pages h))) \<subseteq> kp_held (kh_pages h')"
    and m: "kmalloc (of_nat (coremap_frames (kp_ram (kh_pages h)) * sizeof_cm_entry)) h = Some (va, h1)" "va \<noteq> 0"
    using vm_bootstrap_hands_over [OF assms(5) ok assms(6,7)] by blast
  note d2 = kpg.alloc_all_disjoint [OF va(1) sizes(2) r2]
  have old: "block_pages b \<subseteq> kp_held (kh_pages h)" if "b \<in> set bs1" for b using that d1 by blast
  have new: "block_pages c \<inter> kp_held (kh_pages h') = {}" if "c \<in> set bs2" for c using that d2 by blast
  let ?arr = "(va, array_pages (kp_ram (kh_pages h)))"
  have "block_pages b \<inter> block_pages ?arr = {}" if "b \<in> set bs1" for b using old [OF that] va(2) by blast
  moreover have "block_pages ?arr \<inter> block_pages c = {}" if "c \<in> set bs2" for c using new [OF that] va(3) by blast
  moreover have "block_pages b \<inter> block_pages c = {}" if "b \<in> set bs1" "c \<in> set bs2" for b c
    using old [OF that(1)] new [OF that(2)] va(3) by blast
  ultimately show ?thesis
    using d1 d2 m by (intro exI [of _ va] exI [of _ h1]) (simp add: sorted_wrt_append)
qed

text \<open>C24: a page taken before vm_bootstrap must not be freed afterwards. A block that alloc_kpages got from
  ram_stealmem lies below the first frame of the coremap; when it is freed after vm_bootstrap, whatever
  else was allocated in between, free_kpages computes for it an index past the end of the coremap array
  and reads there.\<close>

theorem free_kpages_early_page_out_of_bounds:
  assumes "\<not> cm_bootstrapped (kp_cmap s)" "ram_ok (kp_ram s)" "0 < n" "n \<le> max_pages"
    and "alloc_kpages n s = Some (va, s1)" "va \<noteq> 0"
    and "list_all (\<lambda>n. 0 < n \<and> n \<le> max_pages) (ns1 @ ns2)" "kpages_run ns1 s1 = Some (bs1, kh_pages h)"
    and "vm_bootstrap False h = Some h'" "kpages_run ns2 (kh_pages h') = Some (bs2, s3)"
  shows "va = PADDR_TO_KVADDR (fst (ram_stealmem n (kp_ram s))) \<and>
    ram_frames (kp_cmap s3) \<le> frame_pos (kp_cmap s3) (va - MIPS_KSEG0) \<and> free_kpages va s3 = None"
proof -
  have inv: "kp_inv s" using assms(1,2) by (simp add: kp_inv_def)
  have sizes: "\<forall>n \<in> set ns1. 0 < n \<and> n \<le> max_pages" "\<forall>n \<in> set ns2. 0 < n \<and> n \<le> max_pages"
    using assms(7) by (auto simp: list_all_iff)
  note E = alloc_kpages_early [OF assms(1), of n va s1]
  have steal: "va = PADDR_TO_KVADDR (fst (ram_stealmem n (kp_ram s)))" and c1: "kp_cmap s1 = kp_cmap s"
    using E assms(5,6) by (auto split: if_splits)
  obtain p where p: "kp_inv s1" "va = kpage p" "kp_held s1 = kp_held s \<union> {p..<p + unat n}"
    using alloc_kpages_block [OF inv assms(3-6)] by blast
  have n: "0 < unat n" using assms(3) by (simp add: unat_gt_0)
  have r1: "kpg.alloc_all ns1 s1 = Some (bs1, kh_pages h)" and r2: "kpg.alloc_all ns2 (kh_pages h') = Some (bs2, s3)"
    using assms(8,10) by (simp_all add: kpages_run_def)
  have ch: "\<not> cm_bootstrapped (kp_cmap (kh_pages h))" using alloc_all_early [OF _ r1] c1 assms(1) by simp
  note d1 = kpg.alloc_all_disjoint [OF p(1) sizes(1) r1]
  then have ok: "ram_ok (kp_ram (kh_pages h))" using ch by (simp add: kp_inv_def)
  have "p \<in> kp_held (kh_pages h)" using d1 p(3) n by auto
  then have pb: "p < unat (rm_firstpaddr (kp_ram (kh_pages h))) div 4096" using ch by (simp add: kp_held_def)
  obtain h1 c k where c: "cm_bootstrap (rm_lastpaddr (kp_ram (kh_pages h))) (rm_firstpaddr (kp_ram (kh_pages h))) k = Some c"
    and h': "h' = h1\<lparr>kh_pages := (kh_pages h1)\<lparr>kp_cmap := c\<rparr>\<rparr>"
    using assms(9) by (auto simp: vm_bootstrap_def Let_def ram_getsize_def ram_peekfirstfree_def bind_eq_Some_conv)
  have k: "k" using c by (cases k) (simp_all add: cm_bootstrap_def Let_def)
  have "cm_wf c" by (rule cm_bootstrap_wf [OF ram_ok_boot [OF ok] c [unfolded k]]) 
  moreover have "cm_bootstrapped c" "cm_firstpaddr c = rm_firstpaddr (kp_ram (kh_pages h))"
    using c k by (auto simp: cm_bootstrap_def Let_def split_beta)
  ultimately have live: "kp_live (kh_pages h')" and base: "p < cm_base (kp_cmap (kh_pages h'))"
    using pb by (simp_all add: kp_live_def kp_inv_def h' cm_base_def)
  have "kp_live s3" "p < cm_base (kp_cmap s3)" using alloc_all_late [OF live sizes(2) r2] base by simp_all
  then show ?thesis using free_kpages_below [of s3 p] steal p(2) by simp
qed

definition boot_demo_pages :: kpages where
  "boot_demo_pages = \<lparr>kp_ram = \<lparr>rm_firstpaddr = 0x40000, rm_lastpaddr = 0x100000\<rparr>,
     kp_cmap = \<lparr>cm_firstpaddr = 0, cm_lastpaddr = 0, cm_timestamp = 0, cm_bootstrapped = False, cm_entries = []\<rparr>,
     kp_cpu = None\<rparr>"

lemma boot_demo_run:
  "kpages_run [1] boot_demo_pages =
     Some ([(0x80040000, 1)], boot_demo_pages\<lparr>kp_ram := \<lparr>rm_firstpaddr = 0x41000, rm_lastpaddr = 0x100000\<rparr>\<rparr>)"
  by (simp add: kpages_run_def kpg.alloc_all.simps alloc_kpages_def boot_demo_pages_def is_bootstrapped_def
      dumbvm_can_sleep_def getppages_def ram_stealmem_def PADDR_TO_KVADDR_def)

lemma boot_demo_vm:
  "\<exists>h'. vm_bootstrap False (kheap_demo\<lparr>kh_pages := boot_demo_pages\<lparr>kp_ram := \<lparr>rm_firstpaddr = 0x41000, rm_lastpaddr = 0x100000\<rparr>\<rparr>\<rparr>) = Some h'"
  by (simp add: vm_bootstrap_def Let_def coremap_frames_def ram_getsize_def ram_peekfirstfree_def boot_demo_pages_def
      sizeof_cm_entry_def kmalloc_def alloc_kpages_def is_bootstrapped_def dumbvm_can_sleep_def getppages_def
      ram_stealmem_def PADDR_TO_KVADDR_def cm_bootstrap_def split_beta)

theorem boot_blocks_disjoint_witness:
  "\<exists>va. va \<noteq> 0 \<and> sorted_wrt (\<lambda>b c. block_pages b \<inter> block_pages c = {}) [(0x80040000, 1), (va, 1)]"
proof -
  let ?p = "boot_demo_pages\<lparr>kp_ram := \<lparr>rm_firstpaddr = 0x41000, rm_lastpaddr = 0x100000\<rparr>\<rparr>"
  let ?h = "kheap_demo\<lparr>kh_pages := ?p\<rparr>"
  obtain h' where h': "vm_bootstrap False ?h = Some h'" using boot_demo_vm by blast
  have n: "coremap_frames (kp_ram ?p) = 191"
    by (simp add: coremap_frames_def ram_getsize_def ram_peekfirstfree_def)
  then have k: "array_pages (kp_ram ?p) = 1" by (simp add: array_pages_def sizeof_cm_entry_def)
  have ok: "ram_ok (kp_ram boot_demo_pages)" by (simp add: ram_ok_def boot_demo_pages_def dvd_eq_mod_eq_0)
  have b: "\<not> cm_bootstrapped (kp_cmap boot_demo_pages)" by (simp add: boot_demo_pages_def)
  have r: "kpages_run [1] boot_demo_pages = Some ([(0x80040000, 1)], kh_pages ?h)" by (simp add: boot_demo_run)
  have "kpages_run [] (kh_pages h') = Some ([], kh_pages h')" by (simp add: kpages_run_def kpg.alloc_all.simps)
  from boot_blocks_disjoint [OF b ok _ r _ _ h' this] b n k show ?thesis by auto
qed

theorem free_kpages_early_page_out_of_bounds_witness:
  "\<exists>h'. vm_bootstrap False (kheap_demo\<lparr>kh_pages := boot_demo_pages\<lparr>kp_ram := \<lparr>rm_firstpaddr = 0x41000, rm_lastpaddr = 0x100000\<rparr>\<rparr>\<rparr>) = Some h' \<and>
     ram_frames (kp_cmap (kh_pages h')) \<le> frame_pos (kp_cmap (kh_pages h')) 0x40000 \<and> free_kpages 0x80040000 (kh_pages h') = None"
proof -
  let ?p = "boot_demo_pages\<lparr>kp_ram := \<lparr>rm_firstpaddr = 0x41000, rm_lastpaddr = 0x100000\<rparr>\<rparr>"
  let ?h = "kheap_demo\<lparr>kh_pages := ?p\<rparr>"
  obtain h' where h': "vm_bootstrap False ?h = Some h'" using boot_demo_vm by blast
  have ok: "ram_ok (kp_ram boot_demo_pages)" by (simp add: ram_ok_def boot_demo_pages_def dvd_eq_mod_eq_0)
  have b: "\<not> cm_bootstrapped (kp_cmap boot_demo_pages)" by (simp add: boot_demo_pages_def)
  have a: "alloc_kpages 1 boot_demo_pages = Some (0x80040000, ?p)"
    by (simp add: alloc_kpages_def boot_demo_pages_def is_bootstrapped_def dumbvm_can_sleep_def getppages_def
        ram_stealmem_def PADDR_TO_KVADDR_def)
  have r: "kpages_run [] ?p = Some ([], kh_pages ?h)" "kpages_run [] (kh_pages h') = Some ([], kh_pages h')"
    by (simp_all add: kpages_run_def kpg.alloc_all.simps)
  from free_kpages_early_page_out_of_bounds [OF b ok _ _ a _ _ r(1) h' r(2)] h' show ?thesis by auto
qed

end
