(* ===== verification/Vmstats.thy ===== *)
theory Vmstats
  imports Kprelude
begin

text \<open>
  The event counters of kern/vm/vm_stats.c: ten 32-bit counters, an increment
  guarded by a KASSERT on the index, and the three consistency checks that
  vmstats_print computes at shutdown.
\<close>

abbreviation (input) TOT_COUNTERS :: nat where "TOT_COUNTERS \<equiv> 10"
abbreviation (input) TLB_FAULT :: nat where "TLB_FAULT \<equiv> 0"
abbreviation (input) TLB_FAULT_FREE :: nat where "TLB_FAULT_FREE \<equiv> 1"
abbreviation (input) TLB_FAULT_REPLACE :: nat where "TLB_FAULT_REPLACE \<equiv> 2"
abbreviation (input) TLB_INVALID :: nat where "TLB_INVALID \<equiv> 3"
abbreviation (input) TLB_RELOAD :: nat where "TLB_RELOAD \<equiv> 4"
abbreviation (input) PAGE_FAULT_ZERO :: nat where "PAGE_FAULT_ZERO \<equiv> 5"
abbreviation (input) PAGE_FAULT_DISK :: nat where "PAGE_FAULT_DISK \<equiv> 6"
abbreviation (input) PAGE_FAULT_ELF :: nat where "PAGE_FAULT_ELF \<equiv> 7"
abbreviation (input) PAGE_FAULT_SWAP :: nat where "PAGE_FAULT_SWAP \<equiv> 8"
abbreviation (input) SWAP_FILE_WRITE :: nat where "SWAP_FILE_WRITE \<equiv> 9"

type_synonym stats = "nat \<Rightarrow> u32"

definition vmstats_init :: stats where
  "vmstats_init = (\<lambda>_. 0)"

definition vmstats_inc :: "nat \<Rightarrow> stats \<Rightarrow> stats option" where
  "vmstats_inc pos st = do {
     kassert (pos < TOT_COUNTERS);
     Some (st(pos := st pos + 1))
   }"

text \<open>
  vmstats_print prints the counters and, for each of its three checks, either a
  warning or an OK line with the two compared numbers.
\<close>

datatype check_result = Warning u32 u32 | OK u32 u32

definition check_line :: "u32 \<Rightarrow> u32 \<Rightarrow> check_result" where
  "check_line s n = (if s \<noteq> n then Warning s n else OK s n)"

definition vmstats_print :: "stats \<Rightarrow> u32 list \<times> check_result list" where
  "vmstats_print st =
     (let tlb_fault = st TLB_FAULT;
          sum_tlbfree_tlbreplace = st TLB_FAULT_FREE + st TLB_FAULT_REPLACE;
          sum_tlbreload_disk_zeroed = st PAGE_FAULT_DISK + st PAGE_FAULT_ZERO + st TLB_RELOAD;
          sum_pfelf_pfswap = st PAGE_FAULT_ELF + st PAGE_FAULT_SWAP;
          pf_disk = st PAGE_FAULT_DISK
      in (map st [0..<TOT_COUNTERS],
          [check_line sum_tlbfree_tlbreplace tlb_fault,
           check_line sum_tlbreload_disk_zeroed tlb_fault,
           check_line sum_pfelf_pfswap pf_disk]))"

lemma vmstats_inc_in [simp]: "pos < TOT_COUNTERS \<Longrightarrow> vmstats_inc pos st = Some (st(pos := st pos + 1))"
  by (simp add: vmstats_inc_def)

lemma vmstats_inc_SomeD: "vmstats_inc pos st = Some st' \<Longrightarrow> st' = st(pos := st pos + 1)"
  by (simp add: vmstats_inc_def split: if_splits)

text \<open>The three sums that the checks compare, as predicates on the counters.\<close>

definition stats_balanced :: "stats \<Rightarrow> bool" where
  "stats_balanced st \<longleftrightarrow>
     st TLB_FAULT_FREE + st TLB_FAULT_REPLACE = st TLB_FAULT \<and>
     st PAGE_FAULT_DISK + st PAGE_FAULT_ZERO + st TLB_RELOAD = st TLB_FAULT \<and>
     st PAGE_FAULT_ELF + st PAGE_FAULT_SWAP = st PAGE_FAULT_DISK"

lemma stats_balanced_init: "stats_balanced vmstats_init"
  by (simp add: stats_balanced_def vmstats_init_def)

text \<open>vmstats_print reports OK on all three checks exactly when the counters are balanced.\<close>

theorem vmstats_print_all_ok_iff:
  "list_all (\<lambda>l. \<exists>n. l = OK n n) (snd (vmstats_print st)) \<longleftrightarrow> stats_balanced st"
  by (auto simp: vmstats_print_def check_line_def stats_balanced_def Let_def)

theorem vmstats_print_all_ok_iff_witness:
  "list_all (\<lambda>l. \<exists>n. l = OK n n) (snd (vmstats_print vmstats_init))"
  using vmstats_print_all_ok_iff [of vmstats_init] stats_balanced_init by simp

end
