(* ===== verification/Tlb.thy ===== *)
theory Tlb
  imports Vmstats
begin

text \<open>
  The software-managed TLB: the 64 hardware slots with the access functions that
  arch/mips/include/tlb.h documents (tlb_write, tlb_read, tlb_probe, implemented
  in arch/mips/vm/tlb-mips161.S by one TLB instruction each), and the routines of
  kern/vm/tlb.c and as_activate that fill, replace and flush them. The routines
  run with interrupts off (splhigh ... splx), so each is one atomic function.

  The lemmas show the invariant that no two slots hold the same virtual page,
  what the processor translates after each routine, and which counter moves.
\<close>

subsection \<open>The hardware\<close>

abbreviation (input) NUM_TLB :: nat where "NUM_TLB \<equiv> 64"
abbreviation (input) TLBHI_VPAGE :: u32 where "TLBHI_VPAGE \<equiv> 0xfffff000"
abbreviation (input) TLBLO_PPAGE :: u32 where "TLBLO_PPAGE \<equiv> 0xfffff000"
abbreviation (input) TLBLO_DIRTY :: u32 where "TLBLO_DIRTY \<equiv> 0x00000400"
abbreviation (input) TLBLO_VALID :: u32 where "TLBLO_VALID \<equiv> 0x00000200"

definition TLBHI_INVALID :: "nat \<Rightarrow> u32" where
  "TLBHI_INVALID i = push_bit 12 (0x80000 + of_nat i)"

abbreviation (input) TLBLO_INVALID :: u32 where "TLBLO_INVALID \<equiv> 0"

record tlb =
  tlb_slots :: "(u32 \<times> u32) list"
  next_victim :: nat

definition tlb_write :: "u32 \<Rightarrow> u32 \<Rightarrow> nat \<Rightarrow> tlb \<Rightarrow> tlb" where
  "tlb_write ehi elo i t = t\<lparr>tlb_slots := (tlb_slots t)[i := (ehi, elo)]\<rparr>"

definition tlb_read :: "nat \<Rightarrow> tlb \<Rightarrow> u32 \<times> u32" where
  "tlb_read i t = tlb_slots t ! i"

abbreviation slot_page :: "u32 \<times> u32 \<Rightarrow> u32" where
  "slot_page e \<equiv> fst e AND TLBHI_VPAGE"

definition tlb_probe :: "u32 \<Rightarrow> tlb \<Rightarrow> nat option" where
  "tlb_probe ehi t = find_idx (\<lambda>e. slot_page e = ehi AND TLBHI_VPAGE) (tlb_slots t)"

text \<open>What the processor does with an address: translate, miss (no valid entry) or modify (write to a
  page without the dirty bit). The last two trap to vm_fault.\<close>

datatype mmu = Hit paddr_t | Miss | Modify

definition mmu_translate :: "tlb \<Rightarrow> vaddr_t \<Rightarrow> bool \<Rightarrow> mmu" where
  "mmu_translate t va wr =
     (case tlb_probe va t of
        None \<Rightarrow> Miss
      | Some i \<Rightarrow>
          (let elo = snd (tlb_slots t ! i) in
           if elo AND TLBLO_VALID = 0 then Miss
           else if wr \<and> elo AND TLBLO_DIRTY = 0 then Modify
           else Hit ((elo AND TLBLO_PPAGE) OR (va AND 0xfff))))"

subsection \<open>kern/vm/tlb.c\<close>

definition tlb_get_rr_victim :: "tlb \<Rightarrow> nat \<times> tlb" where
  "tlb_get_rr_victim t = (next_victim t, t\<lparr>next_victim := (next_victim t + 1) mod NUM_TLB\<rparr>)"

definition tlbR :: "vaddr_t \<Rightarrow> vaddr_t \<Rightarrow> paddr_t \<Rightarrow> tlb \<Rightarrow> stats \<Rightarrow> (tlb \<times> stats) option" where
  "tlbR victim faultaddress paddr t st =
     (case tlb_probe victim t of
        Some x \<Rightarrow> do {
          let t' = tlb_write faultaddress (paddr OR TLBLO_DIRTY OR TLBLO_VALID) x t;
          st' \<leftarrow> vmstats_inc TLB_FAULT_FREE st;
          Some (t', st')
        }
      | None \<Rightarrow> Some (t, st))"

definition tlbW_elo :: "paddr_t \<Rightarrow> int \<Rightarrow> u32" where
  "tlbW_elo paddr write =
     (let elo = paddr OR TLBLO_VALID in if 0 < write then elo OR TLBLO_DIRTY else elo)"

definition tlbW :: "vaddr_t \<Rightarrow> paddr_t \<Rightarrow> int \<Rightarrow> tlb \<Rightarrow> stats \<Rightarrow> (tlb \<times> stats) option" where
  "tlbW faultaddress paddr write t st =
     (case tlb_probe faultaddress t of
        Some i \<Rightarrow> do {
          let t' = tlb_write faultaddress (tlbW_elo paddr write) i t;
          st' \<leftarrow> vmstats_inc TLB_FAULT_FREE st;
          Some (t', st')
        }
      | None \<Rightarrow>
          (case find_idx (\<lambda>e. snd e AND TLBLO_VALID = 0) (tlb_slots t) of
             Some i \<Rightarrow> do {
               let t' = tlb_write faultaddress (tlbW_elo paddr write) i t;
               st' \<leftarrow> vmstats_inc TLB_FAULT_FREE st;
               Some (t', st')
             }
           | None \<Rightarrow> do {
               let (i, t1) = tlb_get_rr_victim t;
               let t' = tlb_write faultaddress (tlbW_elo paddr write) i t1;
               st' \<leftarrow> vmstats_inc TLB_FAULT_REPLACE st;
               Some (t', st')
             }))"

subsection \<open>The flush of as_activate\<close>

primrec tlb_flush :: "nat \<Rightarrow> tlb \<Rightarrow> tlb" where
  "tlb_flush 0 t = t"
| "tlb_flush (Suc n) t = tlb_write (TLBHI_INVALID n) TLBLO_INVALID n (tlb_flush n t)"

definition as_activate :: "ptr \<Rightarrow> tlb \<Rightarrow> stats \<Rightarrow> (tlb \<times> stats) option" where
  "as_activate as t st =
     (if as = NULL then Some (t, st)
      else do {
        let t' = tlb_flush NUM_TLB t;
        st' \<leftarrow> vmstats_inc TLB_INVALID st;
        Some (t', st')
      })"

subsection \<open>The invariant: no virtual page twice\<close>

definition tlb_wf :: "tlb \<Rightarrow> bool" where
  "tlb_wf t \<longleftrightarrow> length (tlb_slots t) = NUM_TLB \<and> next_victim t < NUM_TLB \<and>
     distinct (map slot_page (tlb_slots t))"

lemma tlb_wf_length [simp]: "tlb_wf t \<Longrightarrow> length (tlb_slots t) = NUM_TLB"
  by (simp add: tlb_wf_def)

lemma tlb_probe_Some:
  "tlb_probe va t = Some i \<Longrightarrow> i < length (tlb_slots t) \<and> slot_page (tlb_slots t ! i) = va AND TLBHI_VPAGE"
  by (auto simp: tlb_probe_def find_idx_Some)

lemma tlb_probe_None:
  "tlb_probe va t = None \<longleftrightarrow> (\<forall>e \<in> set (tlb_slots t). slot_page e \<noteq> va AND TLBHI_VPAGE)"
  by (simp add: tlb_probe_def find_idx_None)

lemma distinct_list_update:
  "distinct xs \<Longrightarrow> i < length xs \<Longrightarrow> (\<forall>j < length xs. j \<noteq> i \<longrightarrow> xs ! j \<noteq> x) \<Longrightarrow> distinct (xs[i := x])"
  by (auto simp: distinct_conv_nth nth_list_update)

lemma tlb_write_wf:
  assumes "tlb_wf t" "i < NUM_TLB"
    and "\<And>j. j < NUM_TLB \<Longrightarrow> j \<noteq> i \<Longrightarrow> slot_page (tlb_slots t ! j) \<noteq> ehi AND TLBHI_VPAGE"
  shows "tlb_wf (tlb_write ehi elo i t)"
proof -
  have "distinct ((map slot_page (tlb_slots t))[i := ehi AND TLBHI_VPAGE])"
    using assms by (intro distinct_list_update) (auto simp: tlb_wf_def)
  with assms(1) show ?thesis by (simp add: tlb_wf_def tlb_write_def map_update)
qed

text \<open>In a TLB without duplicates a probe finds the slot that holds the page, wherever it is.\<close>

lemma tlb_probe_unique:
  assumes "tlb_wf t" "i < NUM_TLB" "slot_page (tlb_slots t ! i) = va AND TLBHI_VPAGE"
  shows "tlb_probe va t = Some i"
proof -
  have "tlb_slots t ! i \<in> set (tlb_slots t)" using assms(1,2) by simp
  with assms(3) have "tlb_probe va t \<noteq> None" unfolding tlb_probe_None by blast
  then obtain k where k: "tlb_probe va t = Some k" by blast
  then have "k < NUM_TLB" "slot_page (tlb_slots t ! k) = slot_page (tlb_slots t ! i)"
    using tlb_probe_Some [OF k] assms by simp_all
  with assms nth_eq_iff_index_eq [of "map slot_page (tlb_slots t)" k i] have "k = i"
    by (simp add: tlb_wf_def)
  with k show ?thesis by simp
qed

lemma tlb_probe_cong: "va AND TLBHI_VPAGE = vb AND TLBHI_VPAGE \<Longrightarrow> tlb_probe va t = tlb_probe vb t"
  by (simp add: tlb_probe_def)

text \<open>The processor's view of a page whose slot is known, and of a page that is in no slot.\<close>

lemma mmu_translate_slot:
  "tlb_wf t \<Longrightarrow> i < NUM_TLB \<Longrightarrow> slot_page (tlb_slots t ! i) = va AND TLBHI_VPAGE \<Longrightarrow>
   mmu_translate t va wr =
     (let elo = snd (tlb_slots t ! i) in
      if elo AND TLBLO_VALID = 0 then Miss
      else if wr \<and> elo AND TLBLO_DIRTY = 0 then Modify
      else Hit ((elo AND TLBLO_PPAGE) OR (va AND 0xfff)))"
  by (simp add: mmu_translate_def tlb_probe_unique)

lemma mmu_translate_absent:
  "\<forall>e \<in> set (tlb_slots t). slot_page e \<noteq> va AND TLBHI_VPAGE \<Longrightarrow> mmu_translate t va wr = Miss"
  by (simp add: mmu_translate_def tlb_probe_None [THEN iffD2])

lemma mmu_translate_cong:
  assumes "tlb_wf t" "tlb_wf t'"
    and "\<And>i. i < NUM_TLB \<Longrightarrow> slot_page (tlb_slots t ! i) = va AND TLBHI_VPAGE \<or>
      slot_page (tlb_slots t' ! i) = va AND TLBHI_VPAGE \<Longrightarrow> tlb_slots t' ! i = tlb_slots t ! i"
  shows "mmu_translate t' va wr = mmu_translate t va wr"
proof (cases "\<exists>i < NUM_TLB. slot_page (tlb_slots t ! i) = va AND TLBHI_VPAGE")
  case True
  then obtain i where i: "i < NUM_TLB" "slot_page (tlb_slots t ! i) = va AND TLBHI_VPAGE" by blast
  with assms(3) have eq: "tlb_slots t' ! i = tlb_slots t ! i" by blast
  with i have "slot_page (tlb_slots t' ! i) = va AND TLBHI_VPAGE" by simp
  with i assms(1,2) eq show ?thesis by (simp add: mmu_translate_slot [of _ i])
next
  case False
  with assms(3) have "\<not> (\<exists>i < NUM_TLB. slot_page (tlb_slots t' ! i) = va AND TLBHI_VPAGE)" by metis
  with False assms(1,2) have "\<forall>e \<in> set (tlb_slots t). slot_page e \<noteq> va AND TLBHI_VPAGE"
    "\<forall>e \<in> set (tlb_slots t'). slot_page e \<noteq> va AND TLBHI_VPAGE"
    unfolding list_all_nth by auto
  then show ?thesis by (simp add: mmu_translate_absent)
qed

lemma tlb_write_nth:
  "length (tlb_slots t) = NUM_TLB \<Longrightarrow> i < NUM_TLB \<Longrightarrow> j < NUM_TLB \<Longrightarrow>
   tlb_slots (tlb_write ehi elo i t) ! j = (if j = i then (ehi, elo) else tlb_slots t ! j)"
  by (auto simp: tlb_write_def)

text \<open>The bits of an entry low word.\<close>

lemma page_bits:
  assumes "paddr AND PAGE_FRAME = paddr"
  shows "paddr AND TLBLO_VALID = 0" "paddr AND TLBLO_DIRTY = 0"
proof -
  have "paddr AND m = paddr AND (PAGE_FRAME AND m)" for m
  proof -
    have "paddr AND m = (paddr AND PAGE_FRAME) AND m" by (simp only: assms)
    then show ?thesis by (simp only: and.assoc)
  qed
  from this [of TLBLO_VALID] this [of TLBLO_DIRTY]
  show "paddr AND TLBLO_VALID = 0" "paddr AND TLBLO_DIRTY = 0" by simp_all
qed

lemma tlbW_elo_bits:
  assumes "paddr AND PAGE_FRAME = paddr"
  shows "tlbW_elo paddr w AND TLBLO_VALID = TLBLO_VALID"
    and "tlbW_elo paddr w AND TLBLO_DIRTY = (if 0 < w then TLBLO_DIRTY else 0)"
    and "tlbW_elo paddr w AND TLBLO_PPAGE = paddr"
  using assms page_bits [OF assms]
  by (simp_all add: tlbW_elo_def Let_def bit.conj_disj_distrib2)

text \<open>Every path of tlbW writes one slot: the page's own, the first invalid one, or the round-robin victim.\<close>

definition tlb_full :: "tlb \<Rightarrow> bool" where
  "tlb_full t \<longleftrightarrow> (\<forall>e \<in> set (tlb_slots t). snd e AND TLBLO_VALID \<noteq> 0)"

definition tlbW_counter :: "vaddr_t \<Rightarrow> tlb \<Rightarrow> nat" where
  "tlbW_counter va t = (if tlb_probe va t = None \<and> tlb_full t then TLB_FAULT_REPLACE else TLB_FAULT_FREE)"

lemma tlbW_cases:
  assumes "tlb_wf t"
  obtains i t1 where
    "tlbW va p w t st = Some (tlb_write va (tlbW_elo p w) i t1,
       st(tlbW_counter va t := st (tlbW_counter va t) + 1))"
    "i < NUM_TLB" "tlb_slots t1 = tlb_slots t" "next_victim t1 < NUM_TLB"
    "\<And>j. j < NUM_TLB \<Longrightarrow> j \<noteq> i \<Longrightarrow> slot_page (tlb_slots t ! j) \<noteq> va AND TLBHI_VPAGE"
proof -
  have len: "length (tlb_slots t) = NUM_TLB" "next_victim t < NUM_TLB" using assms by (auto simp: tlb_wf_def)
  show thesis
  proof (cases "tlb_probe va t")
    case (Some i)
    then have i: "i < NUM_TLB" "slot_page (tlb_slots t ! i) = va AND TLBHI_VPAGE"
      using tlb_probe_Some [OF Some] len by simp_all
    have "slot_page (tlb_slots t ! j) \<noteq> va AND TLBHI_VPAGE" if "j < NUM_TLB" "j \<noteq> i" for j
      using tlb_probe_unique [OF assms that(1)] Some that(2) by auto
    with that [of i t] Some i len show thesis by (simp add: tlbW_def tlbW_counter_def Let_def)
  next
    case None
    then have out: "slot_page (tlb_slots t ! j) \<noteq> va AND TLBHI_VPAGE" if "j < NUM_TLB" for j
      using that len unfolding tlb_probe_None by simp
    show thesis
    proof (cases "find_idx (\<lambda>e. snd e AND TLBLO_VALID = 0) (tlb_slots t)")
      case (Some i)
      then have "i < NUM_TLB" "\<not> tlb_full t"
        using len by (auto simp: find_idx_Some tlb_full_def)
      with that [of i t] Some None out len show thesis by (simp add: tlbW_def tlbW_counter_def Let_def)
    next
      case full: None
      then have "tlb_full t" by (simp add: find_idx_None tlb_full_def)
      with that [of "next_victim t" "t\<lparr>next_victim := (next_victim t + 1) mod NUM_TLB\<rparr>"]
        full None out len show thesis
        by (simp add: tlbW_def tlbW_counter_def Let_def tlb_get_rr_victim_def)
    qed
  qed
qed

lemma tlbW_wf:
  assumes "tlb_wf t" "tlbW va p w t st = Some (t', st')"
  shows "tlb_wf t'"
proof (rule tlbW_cases [OF assms(1), of va p w st])
  fix i t1
  assume i: "i < NUM_TLB" "tlb_slots t1 = tlb_slots t" "next_victim t1 < NUM_TLB"
    and out: "\<And>j. j < NUM_TLB \<Longrightarrow> j \<noteq> i \<Longrightarrow> slot_page (tlb_slots t ! j) \<noteq> va AND TLBHI_VPAGE"
    and "tlbW va p w t st = Some (tlb_write va (tlbW_elo p w) i t1,
      st(tlbW_counter va t := st (tlbW_counter va t) + 1))"
  with assms(2) have t': "t' = tlb_write va (tlbW_elo p w) i t1" by simp
  have "tlb_wf t1" using assms(1) i(2,3) by (simp add: tlb_wf_def)
  then show "tlb_wf t'" unfolding t' by (rule tlb_write_wf) (use i out in simp_all)
qed

lemma tlbW_total: "tlb_wf t \<Longrightarrow> \<exists>t' st'. tlbW va p w t st = Some (t', st')"
  by (rule tlbW_cases [of t va p w st]) auto

lemma tlbR_wf:
  assumes "tlb_wf t" "tlbR victim fa p t st = Some (t', st')" "tlb_probe fa t = None"
  shows "tlb_wf t'"
proof (cases "tlb_probe victim t")
  case None
  with assms show ?thesis by (simp add: tlbR_def)
next
  case (Some x)
  have "slot_page (tlb_slots t ! j) \<noteq> fa AND TLBHI_VPAGE" if "j < NUM_TLB" for j
    using assms(1,3) that unfolding tlb_probe_None by simp
  with Some assms tlb_probe_Some [OF Some] show ?thesis
    by (simp add: tlbR_def Let_def) (metis tlb_wf_length tlb_write_wf)
qed

subsection \<open>The flush\<close>

lemma TLBHI_INVALID_unat: "i < 64 \<Longrightarrow> unat (TLBHI_INVALID i) = 0x80000000 + i * 4096"
proof -
  assume i: "i < 64"
  then have "unat (of_nat i :: u32) = i" by (intro unat_of_nat_u32) simp
  with i show ?thesis by (simp add: TLBHI_INVALID_def push_bit_eq_mult unat_word_ariths)
qed

lemma TLBHI_INVALID_page: "i < 64 \<Longrightarrow> TLBHI_INVALID i AND TLBHI_VPAGE = TLBHI_INVALID i"
  using TLBHI_INVALID_unat [of i] by (simp add: page_frame_id)

lemma tlb_flush_slots [simp]: "length (tlb_slots (tlb_flush n t)) = length (tlb_slots t)"
  "next_victim (tlb_flush n t) = next_victim t"
  by (induction n) (simp_all add: tlb_write_def)

lemma tlb_flush_nth:
  "i < length (tlb_slots t) \<Longrightarrow>
   tlb_slots (tlb_flush n t) ! i = (if i < n then (TLBHI_INVALID i, TLBLO_INVALID) else tlb_slots t ! i)"
proof (induction n)
  case 0
  then show ?case by simp
next
  case (Suc n)
  then show ?case by (cases "i = n") (auto simp: tlb_write_def)
qed

lemma tlb_flush_wf:
  assumes "length (tlb_slots t) = NUM_TLB" "next_victim t < NUM_TLB"
  shows "tlb_wf (tlb_flush NUM_TLB t)"
proof -
  have "inj_on TLBHI_INVALID {0..<64}"
    by (rule inj_onI) (use TLBHI_INVALID_unat in \<open>fastforce dest: arg_cong [of _ _ unat]\<close>)
  moreover have "map slot_page (tlb_slots (tlb_flush NUM_TLB t)) = map TLBHI_INVALID [0..<64]"
    using assms(1) by (intro nth_equalityI) (simp_all add: tlb_flush_nth TLBHI_INVALID_page)
  ultimately have "distinct (map slot_page (tlb_slots (tlb_flush NUM_TLB t)))"
    by (simp only: distinct_map) simp
  with assms show ?thesis by (simp add: tlb_wf_def)
qed

lemma tlbW_mmu:
  assumes "tlb_wf t" "p AND PAGE_FRAME = p" "tlbW fa p w t st = Some (t', st')"
    and "va AND PAGE_FRAME = fa AND PAGE_FRAME"
  shows "mmu_translate t' va False = Hit (p OR (va AND 0xfff)) \<and>
    mmu_translate t' va True = (if 0 < w then Hit (p OR (va AND 0xfff)) else Modify) \<and>
    tlb_wf t' \<and> st' = st(tlbW_counter fa t := st (tlbW_counter fa t) + 1)"
proof (rule tlbW_cases [OF assms(1), of fa p w st])
  fix i t1
  assume i: "i < NUM_TLB" "tlb_slots t1 = tlb_slots t"
    and "tlbW fa p w t st = Some (tlb_write fa (tlbW_elo p w) i t1,
      st(tlbW_counter fa t := st (tlbW_counter fa t) + 1))"
  with assms(3) have t': "t' = tlb_write fa (tlbW_elo p w) i t1"
    and st': "st' = st(tlbW_counter fa t := st (tlbW_counter fa t) + 1)" by auto
  have wf: "tlb_wf t'" using assms(1,3) by (rule tlbW_wf)
  have "tlb_slots t' ! i = (fa, tlbW_elo p w)" using i assms(1) by (simp add: t' tlb_write_nth)
  with assms(4) have "mmu_translate t' va wr = (if wr \<and> \<not> 0 < w then Modify else Hit (p OR (va AND 0xfff)))" for wr
    by (subst mmu_translate_slot [OF wf i(1)]) (simp_all add: tlbW_elo_bits [OF assms(2)])
  with wf st' show ?thesis by simp
qed

subsection \<open>Properties\<close>

text \<open>C17: after tlbW the processor translates every address of the page to the frame, lets reads
  through always and writes only if write permission was asked for; the invariant holds and exactly
  one of the two fault counters has moved: TLB_FAULT_FREE also when the page was in the TLB already,
  where the comment in the code says that no counter is updated.\<close>

theorem tlbW_installs:
  assumes "tlb_wf t" "p AND PAGE_FRAME = p" "tlbW fa p w t st = Some (t', st')"
    and "va AND PAGE_FRAME = fa AND PAGE_FRAME"
  shows "mmu_translate t' va False = Hit (p OR (va AND 0xfff)) \<and>
    mmu_translate t' va True = (if 0 < w then Hit (p OR (va AND 0xfff)) else Modify) \<and>
    tlb_wf t' \<and> st' = st(tlbW_counter fa t := st (tlbW_counter fa t) + 1)"
  using assms by (rule tlbW_mmu)

text \<open>tlbW disturbs no other page unless the TLB is full and the page was in no slot; then the
  only other page that changes is the one in the round-robin slot, which now misses.\<close>

theorem tlbW_frame:
  assumes "tlb_wf t" "tlbW fa p w t st = Some (t', st')" "va AND PAGE_FRAME \<noteq> fa AND PAGE_FRAME"
  shows "mmu_translate t' va wr = mmu_translate t va wr \<or>
    (tlb_full t \<and> tlb_probe fa t = None \<and> slot_page (tlb_slots t ! next_victim t) = va AND PAGE_FRAME \<and>
     mmu_translate t' va wr = Miss)"
proof -
  have wf: "tlb_wf t'" using assms(1,2) by (rule tlbW_wf)
  have same: "mmu_translate t' va wr = mmu_translate t va wr"
    if "i < NUM_TLB" "slot_page (tlb_slots t ! i) \<noteq> va AND PAGE_FRAME"
      "t' = tlb_write fa elo i t1" "tlb_slots t1 = tlb_slots t" for i t1 elo
    using that assms(1,3) by (intro mmu_translate_cong wf) (auto simp: tlb_write_nth split: if_splits)
  have gone: "mmu_translate t' va wr = Miss"
    if "i < NUM_TLB" "slot_page (tlb_slots t ! i) = va AND PAGE_FRAME"
      "t' = tlb_write fa elo i t1" "tlb_slots t1 = tlb_slots t" for i t1 elo
  proof (rule mmu_translate_absent)
    have "slot_page (tlb_slots t' ! j) \<noteq> va AND TLBHI_VPAGE" if j: "j < NUM_TLB" for j
    proof (cases "j = i")
      case True
      with \<open>i < NUM_TLB\<close> assms(1,3) \<open>t' = _\<close> \<open>tlb_slots t1 = _\<close> show ?thesis by (simp add: tlb_write_nth)
    next
      case False
      with j \<open>i < NUM_TLB\<close> assms(1) \<open>t' = _\<close> \<open>tlb_slots t1 = _\<close> have "tlb_slots t' ! j = tlb_slots t ! j"
        by (simp add: tlb_write_nth)
      moreover have "slot_page (tlb_slots t ! j) \<noteq> slot_page (tlb_slots t ! i)"
        using False j \<open>i < NUM_TLB\<close> assms(1) nth_eq_iff_index_eq [of "map slot_page (tlb_slots t)" j i]
        by (simp add: tlb_wf_def)
      ultimately show ?thesis using \<open>slot_page (tlb_slots t ! i) = _\<close> by simp
    qed
    then show "\<forall>e \<in> set (tlb_slots t'). slot_page e \<noteq> va AND TLBHI_VPAGE"
      using wf unfolding list_all_nth by simp
  qed
  have len: "length (tlb_slots t) = NUM_TLB" "next_victim t < NUM_TLB" using assms(1) by (auto simp: tlb_wf_def)
  show ?thesis
  proof (cases "tlb_probe fa t")
    case (Some i)
    then have "i < NUM_TLB" "slot_page (tlb_slots t ! i) \<noteq> va AND PAGE_FRAME"
      "t' = tlb_write fa (tlbW_elo p w) i t"
      using tlb_probe_Some [OF Some] assms(2,3) len by (auto simp: tlbW_def Let_def)
    then show ?thesis using same by blast
  next
    case miss: None
    show ?thesis
    proof (cases "find_idx (\<lambda>e. snd e AND TLBLO_VALID = 0) (tlb_slots t)")
      case (Some i)
      have i: "i < NUM_TLB" "snd (tlb_slots t ! i) AND TLBLO_VALID = 0"
        using Some len by (simp_all add: find_idx_Some)
      have i3: "t' = tlb_write fa (tlbW_elo p w) i t"
        using Some assms(2) miss by (simp add: tlbW_def Let_def)
      show ?thesis
      proof (cases "slot_page (tlb_slots t ! i) = va AND PAGE_FRAME")
        case True
        with i assms(1) gone [OF i(1) True i3] show ?thesis by (simp add: mmu_translate_slot)
      next
        case False
        with i i3 same show ?thesis by blast
      qed
    next
      case full: None
      then have "tlb_full t" by (simp add: find_idx_None tlb_full_def)
      moreover have "t' = tlb_write fa (tlbW_elo p w) (next_victim t)
          (t\<lparr>next_victim := (next_victim t + 1) mod NUM_TLB\<rparr>)"
        using assms(2) miss full by (simp add: tlbW_def Let_def tlb_get_rr_victim_def)
      ultimately show ?thesis using same [OF len(2)] gone [OF len(2)] miss by fastforce
    qed
  qed
qed

text \<open>The successive victims of the round-robin pointer.\<close>

primrec rr_victims :: "nat \<Rightarrow> tlb \<Rightarrow> nat list" where
  "rr_victims 0 t = []"
| "rr_victims (Suc n) t = (let (v, t') = tlb_get_rr_victim t in v # rr_victims n t')"

lemma rr_victims_eq:
  "next_victim t < NUM_TLB \<Longrightarrow> rr_victims n t = map (\<lambda>k. (next_victim t + k) mod NUM_TLB) [0..<n]"
proof (induction n arbitrary: t)
  case 0
  then show ?case by simp
next
  case (Suc n)
  then have "rr_victims (Suc n) t = next_victim t #
      map (\<lambda>k. ((next_victim t + 1) mod NUM_TLB + k) mod NUM_TLB) [0..<n]"
    by (simp add: tlb_get_rr_victim_def)
  also have "\<dots> = map (\<lambda>k. (next_victim t + k) mod NUM_TLB) [0..<Suc n]"
    using Suc.prems by (intro nth_equalityI) (auto simp: nth_Cons mod_simps ac_simps simp del: upt_Suc split: nat.splits)
  finally show ?case .
qed

lemma mod_add_left_inj:
  fixes v x y n :: nat
  assumes "(v + x) mod n = (v + y) mod n" "x < n" "y < n"
  shows "x = y"
proof -
  have "b \<le> a" if "(v + a) mod n = (v + b) mod n" "a < n" "b < n" for a b
  proof (rule ccontr)
    assume "\<not> b \<le> a"
    then have "n dvd b - a" using that(1) mod_eq_dvd_iff_nat [of "v + a" "v + b" n] by simp
    then have "n \<le> b - a" using \<open>\<not> b \<le> a\<close> by (intro dvd_imp_le) simp_all
    with that(3) show False by linarith
  qed
  with assms show ?thesis by (metis le_antisym)
qed

text \<open>round robin is fair. Any 64 successive victims are the 64 slots, each once.\<close>

theorem rr_victims_fair:
  assumes "next_victim t < NUM_TLB"
  shows "distinct (rr_victims NUM_TLB t) \<and> set (rr_victims NUM_TLB t) = {..<NUM_TLB}"
proof -
  have "inj_on (\<lambda>k. (next_victim t + k) mod NUM_TLB) {0..<NUM_TLB}"
    by (rule inj_onI) (auto dest: mod_add_left_inj)
  then have d: "distinct (rr_victims NUM_TLB t)"
    unfolding rr_victims_eq [OF assms] distinct_map by simp
  have "set (rr_victims NUM_TLB t) \<subseteq> {..<NUM_TLB}" unfolding rr_victims_eq [OF assms] by auto
  moreover have "card (set (rr_victims NUM_TLB t)) = NUM_TLB"
    by (simp only: distinct_card [OF d]) (simp add: rr_victims_eq [OF assms])
  ultimately have "set (rr_victims NUM_TLB t) = {..<NUM_TLB}" by (intro card_subset_eq) simp_all
  with d show ?thesis by simp
qed

lemma as_activate_miss:
  assumes "length (tlb_slots t) = NUM_TLB" "next_victim t < NUM_TLB" "va < USERSPACETOP"
  shows "\<exists>t' st'. as_activate (Some a) t st = Some (t', st') \<and> mmu_translate t' va wr = Miss \<and> tlb_wf t' \<and>
    st' = st(TLB_INVALID := st TLB_INVALID + 1)"
proof -
  have "mmu_translate (tlb_flush NUM_TLB t) va wr = Miss"
  proof (rule mmu_translate_absent)
    have "unat (va AND TLBHI_VPAGE) < 0x80000000"
      using assms(3) by (simp add: page_frame_unat word_less_nat_alt)
    then have "TLBHI_INVALID i \<noteq> va AND TLBHI_VPAGE" if "i < 64" for i
      using TLBHI_INVALID_unat [OF that] by auto
    then show "\<forall>e \<in> set (tlb_slots (tlb_flush NUM_TLB t)). slot_page e \<noteq> va AND TLBHI_VPAGE"
      using assms(1) unfolding list_all_nth by (simp add: tlb_flush_nth TLBHI_INVALID_page)
  qed
  with tlb_flush_wf [OF assms(1,2)] show ?thesis by (simp add: as_activate_def Let_def)
qed

text \<open>as_activate leaves no translation of any user address, whatever the TLB held, and no
  duplicated page; a process without an address space leaves the TLB alone.\<close>

theorem as_activate_flushes:
  assumes "length (tlb_slots t) = NUM_TLB" "next_victim t < NUM_TLB" "va < USERSPACETOP"
  shows "\<exists>t' st'. as_activate (Some a) t st = Some (t', st') \<and> mmu_translate t' va wr = Miss \<and> tlb_wf t' \<and>
    st' = st(TLB_INVALID := st TLB_INVALID + 1)"
  using assms by (rule as_activate_miss)

text \<open>A flushed TLB, for the witnesses.\<close>

definition tlb_demo :: tlb where
  "tlb_demo = tlb_flush NUM_TLB \<lparr>tlb_slots = replicate NUM_TLB (0, 0), next_victim = 5\<rparr>"

lemma tlb_demo_wf: "tlb_wf tlb_demo"
  unfolding tlb_demo_def by (rule tlb_flush_wf) simp_all

theorem tlbW_installs_witness:
  "\<exists>t' st'. tlbW 0x400000 0x5000 2 tlb_demo vmstats_init = Some (t', st') \<and>
    mmu_translate t' 0x400123 True = Hit 0x5123"
proof -
  obtain t' st' where w: "tlbW 0x400000 0x5000 2 tlb_demo vmstats_init = Some (t', st')"
    using tlbW_total [OF tlb_demo_wf] by blast
  then show ?thesis using tlbW_installs [OF tlb_demo_wf _ w, of "0x400123"] by auto
qed

theorem tlbW_frame_witness:
  "\<exists>t' st'. tlbW 0x400000 0x5000 2 tlb_demo vmstats_init = Some (t', st') \<and>
    mmu_translate t' 0x401000 False = Miss"
proof -
  obtain t' st' where w: "tlbW 0x400000 0x5000 2 tlb_demo vmstats_init = Some (t', st')"
    using tlbW_total [OF tlb_demo_wf] by blast
  have "mmu_translate tlb_demo 0x401000 False = Miss"
    using as_activate_miss [of "\<lparr>tlb_slots = replicate NUM_TLB (0, 0), next_victim = 5\<rparr>" "0x401000"]
    by (simp add: tlb_demo_def as_activate_def Let_def)
  with w tlbW_frame [OF tlb_demo_wf w, of "0x401000" False] show ?thesis by auto
qed

theorem rr_victims_fair_witness: "distinct (rr_victims NUM_TLB tlb_demo)"
  using rr_victims_fair [of tlb_demo] tlb_demo_wf by (simp add: tlb_wf_def)

theorem as_activate_flushes_witness:
  "\<exists>t' st'. as_activate (Some 1) \<lparr>tlb_slots = replicate NUM_TLB (0x400000, 0x5600), next_victim = 5\<rparr> vmstats_init =
    Some (t', st') \<and> mmu_translate t' 0x400000 True = Miss"
  using as_activate_flushes [of "\<lparr>tlb_slots = replicate NUM_TLB (0x400000, 0x5600), next_victim = 5\<rparr>"
    "0x400000" 1 vmstats_init True] by auto

end
