(* ===== verification/Pagetable.thy ===== *)
theory Pagetable
  imports Kprelude
begin

text \<open>
  The page table and the segment list of an address space: kern/vm/pt.c,
  kern/vm/segment.c and their headers.

  The C page table is one singly linked list per address space. New chains are
  only ever put in front of it and the list is freed as a whole, so the list is a
  HOL list and a pointer into it (as->pt, or first_pt_entry of a segment) is the
  number of nodes from the pointed-to node to the end of the list, 0 for NULL:
  that number stays valid when nodes are put in front.

  kmalloc is modelled by the number of allocations that will still succeed. Neither
  pt_create nor sgm_create tests the pointer that kmalloc returns, so running out
  there is a halt.
\<close>

record pt_entry =
  pte_page :: vaddr_t
  pte_frame :: paddr_t
  pte_in_mem :: bool
  pte_in_swap :: bool

record permissions =
  perm_read :: int
  perm_write :: int
  perm_exec :: int

record segment_entry =
  sg_first_addr :: vaddr_t
  sg_npages :: nat
  sg_size :: u32
  sg_offset :: int
  sg_permission :: permissions
  sg_first_pte :: nat

type_synonym kheap = nat

definition kmalloc_ok :: "kheap \<Rightarrow> kheap option" where
  "kmalloc_ok k = (case k of 0 \<Rightarrow> None | Suc k' \<Rightarrow> Some k')"

lemma kmalloc_ok_Suc [simp]: "kmalloc_ok (Suc k) = Some k"
  by (simp add: kmalloc_ok_def)

lemma kmalloc_ok_0 [simp]: "kmalloc_ok 0 = None"
  by (simp add: kmalloc_ok_def)

subsection \<open>pt.c\<close>

definition pt_create :: "vaddr_t \<Rightarrow> kheap \<Rightarrow> (pt_entry \<times> kheap) option" where
  "pt_create vaddr k = do {
     k' \<leftarrow> kmalloc_ok k;
     Some (\<lparr>pte_page = vaddr, pte_frame = 0, pte_in_mem = False, pte_in_swap = False\<rparr>, k')
   }"

fun pt_free :: "pt_entry list \<Rightarrow> pt_entry list" where
  "pt_free [] = []"
| "pt_free (p # pt) = pt_free pt"

fun pt_update :: "pt_entry list \<Rightarrow> vaddr_t \<Rightarrow> pt_entry list" where
  "pt_update [] vaddr = []"
| "pt_update (tmp # rest) vaddr =
     (if pte_page tmp = vaddr
      then tmp\<lparr>pte_in_mem := False, pte_in_swap := True, pte_frame := 0\<rparr> # rest
      else tmp # pt_update rest vaddr)"

text \<open>The node a pointer stands for, and the write through it.\<close>

definition pt_node :: "pt_entry list \<Rightarrow> nat \<Rightarrow> pt_entry option" where
  "pt_node pt d = (if 0 < d \<and> d \<le> length pt then Some (pt ! (length pt - d)) else None)"

definition pt_store :: "pt_entry list \<Rightarrow> nat \<Rightarrow> pt_entry \<Rightarrow> pt_entry list" where
  "pt_store pt d e = pt[length pt - d := e]"

subsection \<open>segment.c\<close>

definition sgm_create ::
  "vaddr_t \<Rightarrow> int \<Rightarrow> nat \<Rightarrow> u32 \<Rightarrow> int \<Rightarrow> int \<Rightarrow> int \<Rightarrow> segment_entry list \<Rightarrow> kheap
     \<Rightarrow> (segment_entry list \<times> kheap) option" where
  "sgm_create vaddr offset sz segsz r w x next k = do {
     k1 \<leftarrow> kmalloc_ok k;
     k2 \<leftarrow> kmalloc_ok k1;
     Some (\<lparr>sg_first_addr = vaddr, sg_npages = sz, sg_size = segsz, sg_offset = offset,
            sg_permission = \<lparr>perm_read = r, perm_write = w, perm_exec = x\<rparr>,
            sg_first_pte = 0\<rparr> # next, k2)
   }"

fun sgm_free :: "segment_entry list \<Rightarrow> segment_entry list" where
  "sgm_free [] = []"
| "sgm_free (s # sge) = sgm_free sge"

subsection \<open>Lemmas\<close>

lemma pt_free_Nil [simp]: "pt_free pt = []"
  by (induction pt) auto

lemma sgm_free_Nil [simp]: "sgm_free sg = []"
  by (induction sg) auto

lemma length_pt_update [simp]: "length (pt_update pt va) = length pt"
  by (induction pt) auto

lemma map_page_pt_update [simp]: "map pte_page (pt_update pt va) = map pte_page pt"
  by (induction pt) auto

lemma pt_update_absent: "va \<notin> pte_page ` set pt \<Longrightarrow> pt_update pt va = pt"
  by (induction pt) auto

definition swapped_out :: "pt_entry \<Rightarrow> pt_entry" where
  "swapped_out e = e\<lparr>pte_in_mem := False, pte_in_swap := True, pte_frame := 0\<rparr>"

lemma pt_update_nth:
  "i < length pt \<Longrightarrow> pte_page (pt ! i) = va \<Longrightarrow> (\<forall>j < i. pte_page (pt ! j) \<noteq> va) \<Longrightarrow>
   pt_update pt va = pt[i := swapped_out (pt ! i)]"
proof (induction pt arbitrary: i)
  case Nil
  then show ?case by simp
next
  case (Cons e pt)
  show ?case
  proof (cases i)
    case 0
    with Cons.prems show ?thesis by (simp add: swapped_out_def)
  next
    case (Suc k)
    with Cons.prems have "pte_page e \<noteq> va" by force
    with Cons Suc show ?thesis by fastforce
  qed
qed

lemma pt_update_distinct:
  assumes "distinct (map pte_page pt)" "i < length pt"
  shows "pt_update pt (pte_page (pt ! i)) = pt[i := swapped_out (pt ! i)]"
proof (rule pt_update_nth)
  show "\<forall>j < i. pte_page (pt ! j) \<noteq> pte_page (pt ! i)"
    using assms nth_eq_iff_index_eq [of "map pte_page pt"] by fastforce
qed (use assms in simp_all)

text \<open>A pointer into the list survives an insertion in front of it.\<close>

lemma pt_node_append [simp]: "d \<le> length pt \<Longrightarrow> pt_node (chain @ pt) d = pt_node pt d"
  by (auto simp: pt_node_def nth_append)

lemma length_pt_store [simp]: "length (pt_store pt d e) = length pt"
  by (simp add: pt_store_def)

lemma pt_node_store:
  "0 < d \<Longrightarrow> d \<le> length pt \<Longrightarrow> pt_node (pt_store pt d e) d' = (if d' = d then Some e else pt_node pt d')"
  by (auto simp: pt_node_def pt_store_def nth_list_update)

lemma map_page_pt_store:
  "0 < d \<Longrightarrow> d \<le> length pt \<Longrightarrow> pte_page e = pte_page (pt ! (length pt - d)) \<Longrightarrow>
   map pte_page (pt_store pt d e) = map pte_page pt"
  by (simp add: pt_store_def map_update list_update_same_conv [THEN iffD2])

text \<open>pt_update marks the first entry of the page as swapped out, drops its frame, and leaves every
  other entry, the order of the list and every page address as they were.\<close>

theorem pt_update_marks_first:
  "pt_update pt va =
    (case find_idx (\<lambda>e. pte_page e = va) pt of
       None \<Rightarrow> pt
     | Some i \<Rightarrow> pt[i := (pt ! i)\<lparr>pte_in_mem := False, pte_in_swap := True, pte_frame := 0\<rparr>])"
proof (cases "find_idx (\<lambda>e. pte_page e = va) pt")
  case None
  then have "va \<notin> pte_page ` set pt" by (auto simp: find_idx_None)
  then show ?thesis unfolding None by (simp add: pt_update_absent)
next
  case (Some i)
  then have "i < length pt" "pte_page (pt ! i) = va" "\<forall>j < i. pte_page (pt ! j) \<noteq> va"
    by (simp_all add: find_idx_Some)
  then show ?thesis unfolding Some by (simp add: pt_update_nth swapped_out_def)
qed

end
