(* ===== verification/Swap.thy ===== *)
theory Swap
  imports Kprelude
begin

text \<open>
  The swap space of kern/vm/swap.c: the array swapspace, parallel to the file
  emu0:swapfile, that says which page of which address space each 4096-byte slot
  of the file holds. swap_out takes the first empty slot, swap_in looks a page up
  and empties its slot, and both panic when they find none. The slot bookkeeping
  runs under sw_lock. The bytes go through the file at offset slot * PAGE_SIZE;
  the copy between the file and user memory is in the theory Vm, which composes
  the two halves.

  The locale backing_store states what the pager relies on; it is interpreted on
  the model of the swap space.
\<close>

definition SWAP_SIZE :: nat where "SWAP_SIZE = 9 * 1024 * 1024 div 4096"

record swap_entry =
  sw_as :: ptr
  sw_vaddr :: vaddr_t

type_synonym page = "nat \<Rightarrow> u8"

definition empty_slot :: swap_entry where
  "empty_slot = \<lparr>sw_as = NULL, sw_vaddr = 0\<rparr>"

definition swapspace_bootstrap :: "bool \<Rightarrow> bool \<Rightarrow> swap_entry list option" where
  "swapspace_bootstrap kmalloc_ok open_ok = do {
     kassert (SWAP_SIZE \<le> 9 * 1024 * 1024);
     kassert kmalloc_ok;
     kassert open_ok;
     Some (replicate SWAP_SIZE empty_slot)
   }"

definition swap_in_slot :: "ptr \<Rightarrow> vaddr_t \<Rightarrow> swap_entry list \<Rightarrow> (nat \<times> swap_entry list) option" where
  "swap_in_slot as vaddr sp = do {
     i \<leftarrow> find_idx (\<lambda>e. sw_as e = as \<and> sw_vaddr e = vaddr) sp;
     Some (i, sp[i := empty_slot])
   }"

definition swap_out_slot :: "ptr \<Rightarrow> vaddr_t \<Rightarrow> swap_entry list \<Rightarrow> (nat \<times> swap_entry list) option" where
  "swap_out_slot as vaddr sp = do {
     i \<leftarrow> find_idx (\<lambda>e. sw_as e = NULL) sp;
     Some (i, sp[i := \<lparr>sw_as = as, sw_vaddr = vaddr\<rparr>])
   }"

definition swap_asfree :: "ptr \<Rightarrow> swap_entry list \<Rightarrow> swap_entry list" where
  "swap_asfree as sp = map (\<lambda>e. if sw_as e = as then empty_slot else e) sp"

text \<open>The slots that print_swap_state lists.\<close>

definition print_swap_state :: "swap_entry list \<Rightarrow> (nat \<times> vaddr_t) list" where
  "print_swap_state sp = map (\<lambda>i. (i, sw_vaddr (sp ! i))) (filter (\<lambda>i. sw_as (sp ! i) \<noteq> NULL) [0..<length sp])"

text \<open>The file: a byte per offset. A page is written to and read from the offset of its slot.\<close>

definition swapfile_write :: "nat \<Rightarrow> page \<Rightarrow> page \<Rightarrow> page" where
  "swapfile_write i pg f =
     (\<lambda>off. if i * PAGE_BYTES \<le> off \<and> off < i * PAGE_BYTES + PAGE_BYTES then pg (off - i * PAGE_BYTES) else f off)"

definition swapfile_read :: "nat \<Rightarrow> page \<Rightarrow> page" where
  "swapfile_read i f = (\<lambda>off. if off < PAGE_BYTES then f (i * PAGE_BYTES + off) else 0)"

definition clip :: "page \<Rightarrow> page" where
  "clip pg = (\<lambda>off. if off < PAGE_BYTES then pg off else 0)"

subsection \<open>What the pager relies on\<close>

locale backing_store =
  fixes norm :: "'p \<Rightarrow> 'p"
    and store :: "'k \<Rightarrow> 'p \<Rightarrow> 's \<Rightarrow> 's option"
    and fetch :: "'k \<Rightarrow> 's \<Rightarrow> ('p \<times> 's) option"
    and contents :: "'s \<Rightarrow> 'k \<Rightarrow> 'p option"
    and room :: "'s \<Rightarrow> bool"
    and ready :: "'k \<Rightarrow> 's \<Rightarrow> bool"
    and inv :: "'s \<Rightarrow> bool"
  assumes store_contents:
      "inv s \<Longrightarrow> k \<notin> dom (contents s) \<Longrightarrow> store k pg s = Some s' \<Longrightarrow> contents s' = (contents s)(k \<mapsto> norm pg)"
    and store_inv: "inv s \<Longrightarrow> k \<notin> dom (contents s) \<Longrightarrow> store k pg s = Some s' \<Longrightarrow> inv s'"
    and store_total: "inv s \<Longrightarrow> room s \<longleftrightarrow> (\<exists>s'. store k pg s = Some s')"
    and fetch_contents:
      "inv s \<Longrightarrow> fetch k s = Some (pg, s') \<Longrightarrow> contents s k = Some pg \<and> contents s' = (contents s)(k := None)"
    and fetch_inv: "inv s \<Longrightarrow> fetch k s = Some (pg, s') \<Longrightarrow> inv s'"
    and fetch_total: "inv s \<Longrightarrow> contents s k = Some pg \<Longrightarrow>
      \<exists>s'. fetch k s = (if ready k s then Some (pg, s') else None)"

datatype ('k, 'p) swap_op = Out 'k 'p | In 'k

context backing_store begin

fun run :: "('k, 'p) swap_op list \<Rightarrow> 's \<Rightarrow> ('p list \<times> 's) option" where
  "run [] s = Some ([], s)"
| "run (Out k pg # ops) s = (if contents s k = None then Option.bind (store k pg s) (run ops) else None)"
| "run (In k # ops) s =
     Option.bind (fetch k s) (\<lambda>(pg, s'). map_option (\<lambda>(pgs, s''). (pg # pgs, s'')) (run ops s'))"

text \<open>The same operations on the map from pages to contents.\<close>

fun run_map :: "('k, 'p) swap_op list \<Rightarrow> ('k \<rightharpoonup> 'p) \<Rightarrow> 'p list \<times> ('k \<rightharpoonup> 'p)" where
  "run_map [] m = ([], m)"
| "run_map (Out k pg # ops) m = run_map ops (m(k \<mapsto> norm pg))"
| "run_map (In k # ops) m = (let (pgs, m') = run_map ops (m(k := None)) in (the (m k) # pgs, m'))"

lemma run_refines:
  "inv s \<Longrightarrow> run ops s = Some (pgs, s') \<Longrightarrow> run_map ops (contents s) = (pgs, contents s') \<and> inv s'"
proof (induction ops s arbitrary: pgs rule: run.induct)
  case (1 s)
  then show ?case by simp
next
  case (2 k pg ops s)
  then obtain s1 where s1: "store k pg s = Some s1" "contents s k = None" "run ops s1 = Some (pgs, s')"
    by (auto simp: bind_eq_Some_conv split: if_splits)
  then have c: "contents s1 = (contents s)(k \<mapsto> norm pg)" and "inv s1"
    using 2(2) store_contents [of s k pg s1] store_inv [of s k pg s1] by auto
  with 2(1) [OF s1(2), of s1 pgs] s1 show ?case unfolding run_map.simps c [symmetric] by blast
next
  case (3 k ops s)
  then obtain pg s1 where s1: "fetch k s = Some (pg, s1)"
    by (auto simp: bind_eq_Some_conv)
  with 3(3) obtain pgs1 where pgs1: "run ops s1 = Some (pgs1, s')" "pgs = pg # pgs1"
    by auto
  have c: "contents s1 = (contents s)(k := None)" and pg: "contents s k = Some pg" and i: "inv s1"
    using 3(2) s1 fetch_contents [of s k pg s1] fetch_inv [of s k pg s1] by auto
  have "run_map ops (contents s1) = (pgs1, contents s') \<and> inv s'"
    by (rule 3(1) [of "(pg, s1)" pg s1]) (use s1 i pgs1 in simp_all)
  then show ?case unfolding run_map.simps c [symmetric] by (simp add: pg pgs1)
qed

end

subsection \<open>The swap space is a backing store\<close>

text \<open>The state is the slot array with the file; keys are pages of address spaces. The argument io
  says for a slot whether VOP_WRITE (True) or VOP_READ (False) of the file fails there: swap_out and
  swap_in panic on an error. swap_store and swap_fetch are what they do to the state, with
  the bytes of the page as an argument or a result.\<close>

type_synonym swap_state = "swap_entry list \<times> page"
type_synonym swap_key = "nat \<times> vaddr_t"

definition swap_store :: "(bool \<Rightarrow> nat \<Rightarrow> status) \<Rightarrow> swap_key \<Rightarrow> page \<Rightarrow> swap_state \<Rightarrow> swap_state option" where
  "swap_store io k pg s = do {
     (i, sp) \<leftarrow> swap_out_slot (Some (fst k)) (snd k) (fst s);
     kassert (io True i = None);
     Some (sp, swapfile_write i pg (snd s))
   }"

definition swap_fetch :: "(bool \<Rightarrow> nat \<Rightarrow> status) \<Rightarrow> swap_key \<Rightarrow> swap_state \<Rightarrow> (page \<times> swap_state) option" where
  "swap_fetch io k s = do {
     (i, sp) \<leftarrow> swap_in_slot (Some (fst k)) (snd k) (fst s);
     kassert (io False i = None);
     Some (swapfile_read i (snd s), (sp, snd s))
   }"

abbreviation slot_key :: "swap_key \<Rightarrow> swap_entry \<Rightarrow> bool" where
  "slot_key k e \<equiv> sw_as e = Some (fst k) \<and> sw_vaddr e = snd k"

definition swap_contents :: "swap_state \<Rightarrow> swap_key \<Rightarrow> page option" where
  "swap_contents s k = map_option (\<lambda>i. swapfile_read i (snd s)) (find_idx (slot_key k) (fst s))"

text \<open>A page can be swapped out when there is an empty slot and the first one can be written, and
  swapped in when its slot can be read.\<close>

definition slot_transfers :: "nat option \<Rightarrow> (nat \<Rightarrow> status) \<Rightarrow> bool" where
  "slot_transfers r io \<longleftrightarrow> (case r of None \<Rightarrow> False | Some i \<Rightarrow> io i = None)"

definition swap_room :: "(bool \<Rightarrow> nat \<Rightarrow> status) \<Rightarrow> swap_state \<Rightarrow> bool" where
  "swap_room io s \<longleftrightarrow> slot_transfers (find_idx (\<lambda>e. sw_as e = NULL) (fst s)) (io True)"

definition swap_ready :: "(bool \<Rightarrow> nat \<Rightarrow> status) \<Rightarrow> swap_key \<Rightarrow> swap_state \<Rightarrow> bool" where
  "swap_ready io k s \<longleftrightarrow> slot_transfers (find_idx (slot_key k) (fst s)) (io False)"

lemma slot_transfers_Some: "slot_transfers r io \<longleftrightarrow> (\<exists>i. r = Some i \<and> io i = None)"
  by (simp add: slot_transfers_def split: option.split)

text \<open>No page has two slots.\<close>

definition swap_inv :: "swap_state \<Rightarrow> bool" where
  "swap_inv s \<longleftrightarrow> (\<forall>i < length (fst s). \<forall>j < length (fst s). i \<noteq> j \<longrightarrow> sw_as (fst s ! i) \<noteq> NULL \<longrightarrow>
     (sw_as (fst s ! i), sw_vaddr (fst s ! i)) \<noteq> (sw_as (fst s ! j), sw_vaddr (fst s ! j)))"

lemma swapfile_read_write:
  "swapfile_read j (swapfile_write i pg f) = (if j = i then clip pg else swapfile_read j f)"
proof (rule ext)
  fix off :: nat
  have "j * 4096 + off < i * 4096 \<or> i * 4096 + 4096 \<le> j * 4096 + off" if "j \<noteq> i" "off < 4096"
  proof (cases "j < i")
    case True
    then have "Suc j * 4096 \<le> i * 4096" by (intro mult_le_mono1) simp
    with that(2) show ?thesis by simp
  next
    case False
    with that(1) have "Suc i * 4096 \<le> j * 4096" by (intro mult_le_mono1) simp
    then show ?thesis by simp
  qed
  then show "swapfile_read j (swapfile_write i pg f) off = (if j = i then clip pg else swapfile_read j f) off"
    by (auto simp: swapfile_read_def swapfile_write_def clip_def)
qed

lemma clip_clip [simp]: "clip (clip pg) = clip pg"
  by (auto simp: clip_def)

text \<open>With one slot per page, the first slot found is the only one.\<close>

lemma slot_unique:
  assumes "swap_inv s" "i < length (fst s)" "slot_key k (fst s ! i)"
  shows "find_idx (slot_key k) (fst s) = Some i"
proof -
  obtain j where j: "find_idx (slot_key k) (fst s) = Some j"
    using find_idx_ex [of i "fst s" "slot_key k"] assms(2,3) by blast
  then have jj: "j < length (fst s)" "slot_key k (fst s ! j)" unfolding find_idx_Some by blast+
  have "j = i"
  proof (rule ccontr)
    assume "j \<noteq> i"
    have "sw_as (fst s ! j) \<noteq> NULL" using jj(2) by simp
    with assms(1) jj(1) assms(2) \<open>j \<noteq> i\<close>
    have "(sw_as (fst s ! j), sw_vaddr (fst s ! j)) \<noteq> (sw_as (fst s ! i), sw_vaddr (fst s ! i))"
      unfolding swap_inv_def by blast
    then show False using jj(2) assms(3) by simp
  qed
  with j show ?thesis by simp
qed

text \<open>Filling an empty slot with a new key, and emptying a slot.\<close>

lemma swap_invD:
  "swap_inv s \<Longrightarrow> i < length (fst s) \<Longrightarrow> j < length (fst s) \<Longrightarrow> i \<noteq> j \<Longrightarrow> slot_key k (fst s ! i) \<Longrightarrow>
   \<not> slot_key k (fst s ! j)"
  unfolding swap_inv_def by (metis option.distinct(1))

lemma swap_invI:
  assumes "\<And>i j k. i < length (fst s) \<Longrightarrow> j < length (fst s) \<Longrightarrow> i \<noteq> j \<Longrightarrow> slot_key k (fst s ! i) \<Longrightarrow>
    slot_key k (fst s ! j) \<Longrightarrow> False"
  shows "swap_inv s"
  unfolding swap_inv_def
proof (intro allI impI notI)
  fix i j
  assume a: "i < length (fst s)" "j < length (fst s)" "i \<noteq> j" "sw_as (fst s ! i) \<noteq> NULL"
    "(sw_as (fst s ! i), sw_vaddr (fst s ! i)) = (sw_as (fst s ! j), sw_vaddr (fst s ! j))"
  then obtain x where "sw_as (fst s ! i) = Some x" by blast
  moreover from a(5) have "sw_as (fst s ! j) = sw_as (fst s ! i)" "sw_vaddr (fst s ! j) = sw_vaddr (fst s ! i)"
    by (simp_all only: prod.inject)
  ultimately show False
    by (intro assms [OF a(1-3), of "(x, sw_vaddr (fst s ! i))"]) (simp_all only: fst_conv snd_conv)
qed

lemma swap_inv_fill:
  assumes inv: "swap_inv s" and i: "i < length (fst s)" and none: "find_idx (slot_key k) (fst s) = None"
  shows "swap_inv ((fst s)[i := \<lparr>sw_as = Some (fst k), sw_vaddr = snd k\<rparr>], f)"
proof (rule swap_invI, unfold fst_conv length_list_update)
  let ?e = "\<lparr>sw_as = Some (fst k), sw_vaddr = snd k\<rparr>"
  have no: "\<not> slot_key k (fst s ! j)" if "j < length (fst s)" for j
    using none that unfolding find_idx_None list_all_nth by blast
  have new: "slot_key k' ?e \<longleftrightarrow> k' = k" for k' by (auto simp: prod_eq_iff)
  fix a b k'
  assume ab: "a < length (fst s)" "b < length (fst s)" "a \<noteq> b"
    and ka: "slot_key k' ((fst s)[i := ?e] ! a)" and kb: "slot_key k' ((fst s)[i := ?e] ! b)"
  consider "a = i" | "b = i" | "a \<noteq> i" "b \<noteq> i" by blast
  then show False
  proof cases
    case 1
    with ka kb ab i new no [of b] show False by simp
  next
    case 2
    with ka kb ab i new no [of a] show False by simp
  next
    case 3
    with ka kb ab swap_invD [OF inv ab, of k'] show False by simp
  qed
qed

lemma swap_inv_empty:
  assumes inv: "swap_inv s" and i: "i < length (fst s)"
  shows "swap_inv ((fst s)[i := empty_slot], f)"
proof (rule swap_invI, unfold fst_conv length_list_update)
  fix a b k'
  assume ab: "a < length (fst s)" "b < length (fst s)" "a \<noteq> b"
    and ka: "slot_key k' ((fst s)[i := empty_slot] ! a)" and kb: "slot_key k' ((fst s)[i := empty_slot] ! b)"
  have "a \<noteq> i" "b \<noteq> i" using ka kb i by (auto simp: empty_slot_def)
  with ka kb ab swap_invD [OF inv ab, of k'] show False by simp
qed

lemma swap_out_slot_Some:
  "swap_out_slot as va sp = Some (i, sp') \<longleftrightarrow>
     find_idx (\<lambda>e. sw_as e = NULL) sp = Some i \<and> sp' = sp[i := \<lparr>sw_as = as, sw_vaddr = va\<rparr>]"
  by (auto simp: swap_out_slot_def bind_eq_Some_conv)

lemma swap_in_slot_Some:
  "swap_in_slot as va sp = Some (i, sp') \<longleftrightarrow>
     find_idx (\<lambda>e. sw_as e = as \<and> sw_vaddr e = va) sp = Some i \<and> sp' = sp[i := empty_slot]"
  by (auto simp: swap_in_slot_def bind_eq_Some_conv)

lemma swap_contents_iff:
  assumes "swap_inv s"
  shows "swap_contents s k = Some pg \<longleftrightarrow>
    (\<exists>i < length (fst s). slot_key k (fst s ! i) \<and> pg = swapfile_read i (snd s))"
proof
  assume "swap_contents s k = Some pg"
  then obtain i where "find_idx (slot_key k) (fst s) = Some i" "pg = swapfile_read i (snd s)"
    unfolding swap_contents_def by auto
  then show "\<exists>i < length (fst s). slot_key k (fst s ! i) \<and> pg = swapfile_read i (snd s)"
    unfolding find_idx_Some by blast
next
  assume "\<exists>i < length (fst s). slot_key k (fst s ! i) \<and> pg = swapfile_read i (snd s)"
  then obtain i where i: "i < length (fst s)" "slot_key k (fst s ! i)" "pg = swapfile_read i (snd s)"
    by blast
  from slot_unique [OF assms i(1,2)] i(3) show "swap_contents s k = Some pg"
    unfolding swap_contents_def by simp
qed

lemma swap_contents_None: "swap_contents s k = None \<longleftrightarrow> find_idx (slot_key k) (fst s) = None"
  unfolding swap_contents_def by simp

lemma find_idx_congI: "(\<And>x. x \<in> set xs \<Longrightarrow> P x = Q x) \<Longrightarrow> find_idx P xs = find_idx Q xs"
  by (induction xs) auto

text \<open>Storing a page adds exactly its contents; fetching one removes exactly its contents.\<close>

lemma swap_store_contents:
  assumes inv: "swap_inv s" and k: "swap_contents s k = None" and st: "swap_store io k pg s = Some s'"
  shows "swap_contents s' = (swap_contents s)(k \<mapsto> clip pg)" and "swap_inv s'"
proof -
  obtain i where i: "find_idx (\<lambda>e. sw_as e = NULL) (fst s) = Some i"
    and s': "s' = ((fst s)[i := \<lparr>sw_as = Some (fst k), sw_vaddr = snd k\<rparr>], swapfile_write i pg (snd s))"
    using st unfolding swap_store_def by (auto simp: swap_out_slot_Some split: if_splits)
  then have il: "i < length (fst s)" and free: "sw_as (fst s ! i) = NULL"
    unfolding find_idx_Some by blast+
  have nk: "find_idx (slot_key k) (fst s) = None"
    using k unfolding swap_contents_None .
  show inv': "swap_inv s'" unfolding s' by (rule swap_inv_fill [OF inv il nk])
  show "swap_contents s' = (swap_contents s)(k \<mapsto> clip pg)"
  proof (rule ext)
    fix k'
    show "swap_contents s' k' = ((swap_contents s)(k \<mapsto> clip pg)) k'"
    proof (cases "k' = k")
      case True
      have "swap_contents s' k = Some (clip pg)"
        unfolding swap_contents_iff [OF inv'] by (rule exI [of _ i]) (simp add: s' il swapfile_read_write)
      with True show ?thesis by simp
    next
      case False
      have "find_idx (slot_key k') (fst s') = find_idx (slot_key k') (fst s)"
        unfolding s' fst_conv by (rule find_idx_update_same [OF il]) (use free False in \<open>auto simp: prod_eq_iff\<close>)
      moreover have "swapfile_read j (snd s') = swapfile_read j (snd s)"
        if "find_idx (slot_key k') (fst s) = Some j" for j
      proof -
        have "slot_key k' (fst s ! j)" using that unfolding find_idx_Some by blast
        then have "j \<noteq> i" using free by auto
        then show ?thesis by (simp add: s' swapfile_read_write)
      qed
      ultimately show ?thesis using False
        by (cases "find_idx (slot_key k') (fst s)") (simp_all add: swap_contents_def)
    qed
  qed
qed

lemma swap_fetch_contents:
  assumes inv: "swap_inv s" and ft: "swap_fetch io k s = Some (pg, s')"
  shows "swap_contents s k = Some pg" and "swap_contents s' = (swap_contents s)(k := None)"
    and "swap_inv s'"
proof -
  obtain i where i: "find_idx (slot_key k) (fst s) = Some i"
    and s': "s' = ((fst s)[i := empty_slot], snd s)" and pg: "pg = swapfile_read i (snd s)"
    using ft unfolding swap_fetch_def by (auto simp: swap_in_slot_Some split: if_splits)
  then have il: "i < length (fst s)" and ki: "slot_key k (fst s ! i)"
    unfolding find_idx_Some by blast+
  show "swap_contents s k = Some pg" unfolding swap_contents_def i pg by simp
  show inv': "swap_inv s'" unfolding s' by (rule swap_inv_empty [OF inv il])
  show "swap_contents s' = (swap_contents s)(k := None)"
  proof (rule ext)
    fix k'
    show "swap_contents s' k' = ((swap_contents s)(k := None)) k'"
    proof (cases "k' = k")
      case True
      have "\<not> slot_key k (fst s' ! j)" if "j < length (fst s')" for j
      proof
        assume kj: "slot_key k (fst s' ! j)"
        then have "j \<noteq> i" using il by (auto simp: s' empty_slot_def)
        then have "slot_key k (fst s ! j)" "j < length (fst s)" using kj that by (simp_all add: s')
        from slot_unique [OF inv this(2,1)] i \<open>j \<noteq> i\<close> show False by simp
      qed
      then have "swap_contents s' k = None"
        unfolding swap_contents_None find_idx_None list_all_nth by blast
      with True show ?thesis by simp
    next
      case False
      have "find_idx (slot_key k') (fst s') = find_idx (slot_key k') (fst s)"
        unfolding s' fst_conv
        by (rule find_idx_update_same [OF il]) (use ki False in \<open>auto simp: prod_eq_iff empty_slot_def\<close>)
      then show ?thesis using False by (simp add: swap_contents_def s')
    qed
  qed
qed

lemma swap_store_total: "swap_room io s \<longleftrightarrow> (\<exists>s'. swap_store io k pg s = Some s')"
  by (auto simp: swap_room_def slot_transfers_Some swap_store_def swap_out_slot_Some kassert_def)

lemma swap_fetch_total:
  "swap_contents s k = Some pg \<Longrightarrow> \<exists>s'. swap_fetch io k s = (if swap_ready io k s then Some (pg, s') else None)"
  by (auto simp: swap_contents_def swap_ready_def slot_transfers_def swap_fetch_def swap_in_slot_def kassert_def)

interpretation sw: backing_store clip "swap_store io" "swap_fetch io" swap_contents "swap_room io" "swap_ready io" swap_inv
  for io
proof unfold_locales
  fix s s' :: swap_state and k pg
  assume a: "swap_inv s" "k \<notin> dom (swap_contents s)" "swap_store io k pg s = Some s'"
  then have "swap_contents s k = None" by blast
  with swap_store_contents [OF a(1) this a(3)]
  show "swap_contents s' = (swap_contents s)(k \<mapsto> clip pg)" "swap_inv s'" by blast+
next
  fix s s' :: swap_state and k pg
  assume a: "swap_inv s" "swap_fetch io k s = Some (pg, s')"
  from swap_fetch_contents [OF a]
  show "swap_contents s k = Some pg \<and> swap_contents s' = (swap_contents s)(k := None)"
    "swap_inv s'" by blast+
qed (use swap_store_total swap_fetch_total in blast)+

text \<open>A page stored survives any traffic on other pages.\<close>

fun swap_op_key :: "('k, 'p) swap_op \<Rightarrow> 'k" where
  "swap_op_key (Out k pg) = k"
| "swap_op_key (In k) = k"

context backing_store begin

lemma run_map_other:
  "k \<notin> swap_op_key ` set ops \<Longrightarrow> snd (run_map ops m) k = m k"
proof (induction ops arbitrary: m)
  case Nil
  then show ?case by simp
next
  case (Cons x xs)
  then show ?case by (cases x) (auto simp: split: prod.splits, (metis fun_upd_other snd_conv)+)
qed

lemma store_run_fetch:
  assumes "inv s" "k \<notin> dom (contents s)" "store k pg s = Some s1"
    and "k \<notin> swap_op_key ` set ops" "run ops s1 = Some (pgs, s2)"
  shows "\<exists>s3. fetch k s2 = (if ready k s2 then Some (norm pg, s3) else None)"
proof -
  have "inv s1" and c: "contents s1 k = Some (norm pg)"
    using store_inv [OF assms(1-3)] store_contents [OF assms(1-3)] by auto
  then have r: "run_map ops (contents s1) = (pgs, contents s2)" and "inv s2"
    using run_refines [OF _ assms(5)] by blast+
  then have "contents s2 k = Some (norm pg)"
    using run_map_other [OF assms(4), of "contents s1"] c by simp
  with fetch_total [OF \<open>inv s2\<close>] show ?thesis by blast
qed

end

definition swap_run ::
  "(bool \<Rightarrow> nat \<Rightarrow> status) \<Rightarrow> (swap_key, page) swap_op list \<Rightarrow> swap_state \<Rightarrow> (page list \<times> swap_state) option" where
  "swap_run io = backing_store.run (swap_store io) (swap_fetch io) swap_contents"

lemma swap_asfree_contents:
  assumes "swap_inv s"
  shows "swap_contents (swap_asfree (Some a) (fst s), snd s) = (swap_contents s) |` {k. fst k \<noteq> a}"
    and "swap_inv (swap_asfree (Some a) (fst s), snd s)"
proof -
  let ?s = "(swap_asfree (Some a) (fst s), snd s)"
  have e: "fst ?s ! i = (if sw_as (fst s ! i) = Some a then empty_slot else fst s ! i)"
    if "i < length (fst s)" for i
    using that by (simp add: swap_asfree_def)
  have l: "length (fst ?s) = length (fst s)" by (simp add: swap_asfree_def)
  show inv': "swap_inv ?s"
    unfolding swap_inv_def l
  proof (intro allI impI)
    fix i j assume a: "i < length (fst s)" "j < length (fst s)" "i \<noteq> j" "sw_as (fst ?s ! i) \<noteq> NULL"
    have i: "fst ?s ! i = fst s ! i" using a(4) unfolding e [OF a(1)] by (auto simp: empty_slot_def)
    have "(sw_as (fst s ! i), sw_vaddr (fst s ! i)) \<noteq> (sw_as (fst s ! j), sw_vaddr (fst s ! j))"
      using assms a(1-3) a(4) unfolding i swap_inv_def by blast
    then show "(sw_as (fst ?s ! i), sw_vaddr (fst ?s ! i)) \<noteq> (sw_as (fst ?s ! j), sw_vaddr (fst ?s ! j))"
      using a(4) unfolding i e [OF a(2)] by (auto simp: empty_slot_def)
  qed
  have "slot_key k (fst ?s ! i) \<longleftrightarrow> slot_key k (fst s ! i) \<and> fst k \<noteq> a" if "i < length (fst s)" for i k
    unfolding e [OF that] by (auto simp: empty_slot_def)
  then have iff: "swap_contents ?s k = Some pg \<longleftrightarrow> swap_contents s k = Some pg \<and> fst k \<noteq> a" for k pg
    unfolding swap_contents_iff [OF inv'] swap_contents_iff [OF assms] l snd_conv by blast
  show "swap_contents ?s = (swap_contents s) |` {k. fst k \<noteq> a}"
  proof (rule ext)
    fix k
    have "swap_contents ?s k = Some pg \<longleftrightarrow> (swap_contents s |` {k. fst k \<noteq> a}) k = Some pg" for pg
      unfolding iff by (auto simp: restrict_map_def)
    then show "swap_contents ?s k = (swap_contents s |` {k. fst k \<noteq> a}) k"
      by (cases "(swap_contents s |` {k. fst k \<noteq> a}) k") (auto intro: option.exhaust)
  qed
qed

text \<open>C16: the swap file returns what it was given. A page swapped out into the store is
  returned intact (its 4096 bytes) by the swap-in that follows any sequence of swap-ins
  and swap-outs of other pages, and that swap-in panics only when reading the page's slot fails.\<close>

theorem swapped_page_survives:
  assumes "swap_inv s" "swap_contents s k = None" "swap_store io k pg s = Some s1"
    and "k \<notin> swap_op_key ` set ops" "swap_run io ops s1 = Some (pgs, s2)"
  shows "\<exists>s3. swap_fetch io k s2 = (if swap_ready io k s2 then Some (clip pg, s3) else None)"
  by (rule sw.store_run_fetch [of s k io pg s1 ops pgs s2]) (use assms in \<open>auto simp: swap_run_def\<close>)

definition swap_demo :: swap_state where
  "swap_demo = (replicate 3 empty_slot, \<lambda>_. 0)"

lemma swap_demo_inv: "swap_inv swap_demo"
  by (simp add: swap_inv_def swap_demo_def empty_slot_def)

lemma swap_demo_contents: "swap_contents swap_demo k = None"
  by (simp add: swap_contents_def swap_demo_def empty_slot_def numeral_3_eq_3)

abbreviation demo_key :: swap_key where "demo_key \<equiv> (1, 0x400000)"
abbreviation demo_key2 :: swap_key where "demo_key2 \<equiv> (2, 0x400000)"

abbreviation demo_io :: "bool \<Rightarrow> nat \<Rightarrow> status" where "demo_io \<equiv> \<lambda>w i. if w \<and> i = 2 then Some EIO else None"

lemmas swap_demo_simps = swap_demo_def swap_store_def swap_fetch_def swap_out_slot_def swap_in_slot_def
  swap_contents_def swap_run_def swap_ready_def slot_transfers_def kassert_def empty_slot_def numeral_3_eq_3

theorem swapped_page_survives_witness:
  "\<exists>s1 pgs s2 s3. swap_store demo_io demo_key (\<lambda>_. 7) swap_demo = Some s1 \<and>
     swap_run demo_io [Out demo_key2 (\<lambda>_. 9), In demo_key2] s1 = Some (pgs, s2) \<and>
     swap_fetch demo_io demo_key s2 = Some (clip (\<lambda>_. 7), s3)"
proof -
  obtain s1 where s1: "swap_store demo_io demo_key (\<lambda>_. 7) swap_demo = Some s1"
    by (simp add: swap_demo_simps)
  moreover obtain pgs s2 where s2: "swap_run demo_io [Out demo_key2 (\<lambda>_. 9), In demo_key2] s1 = Some (pgs, s2)"
    using s1 by (auto simp: swap_demo_simps)
  moreover have "swap_ready demo_io demo_key s2" using s1 s2 by (auto simp: swap_demo_simps)
  then obtain s3 where "swap_fetch demo_io demo_key s2 = Some (clip (\<lambda>_. 7), s3)"
    using swapped_page_survives [OF swap_demo_inv swap_demo_contents s1 _ s2] by auto
  ultimately show ?thesis by blast
qed

text \<open>When an address space is destroyed its slots are emptied and nobody else's: the
  contents that remain are exactly those of the other address spaces, and still one slot
  per page.\<close>

theorem swap_asfree_exact:
  assumes "swap_inv s"
  shows "swap_contents (swap_asfree (Some a) (fst s), snd s) = (swap_contents s) |` {k. fst k \<noteq> a} \<and>
     swap_inv (swap_asfree (Some a) (fst s), snd s)"
  using swap_asfree_contents [OF assms] by blast

theorem swap_asfree_exact_witness:
  "swap_contents (swap_asfree (Some 1) (fst swap_demo), snd swap_demo) = Map.empty"
  unfolding conjunct1 [OF swap_asfree_exact [OF swap_demo_inv]]
  by (rule ext) (simp add: restrict_map_def swap_demo_contents)

end
