(* ===== verification/Addrspace.thy ===== *)
theory Addrspace
  imports Coremap Tlb Pagetable Swap
begin

text \<open>
  Address spaces (kern/vm/addrspace.c, the OPT_PT and OPT_ONDEMAND configuration)
  and the state that the fault handler of kern/vm/vm.c works on.

  The record vmstate puts together the static data of coremap.c, tlb.c, vm_stats.c
  and swap.c, the physical memory, the files that vnodes stand for, and the address
  space of the current process (vs_as is the pointer proc_getas returns, vs_space the
  structure it points to). Address spaces of other processes appear only as owners of
  frames and of swap slots: nothing in the modelled code follows a pointer to them.

  The lemmas show that as_define_region and as_define_stack cover the requested range
  with one page-table entry per page, and keep the shape of segments and page table
  (as_wf) on which the fault handler walks.
\<close>

record addrspace =
  as_pt :: "pt_entry list"
  as_segments :: "segment_entry list"
  as_elf_file :: ptr
  as_heap_start :: vaddr_t
  as_heap_end :: vaddr_t

record vmstate =
  vs_cmap :: cmap
  vs_tlb :: tlb
  vs_stats :: stats
  vs_swap :: swap_state
  vs_mem :: "paddr_t \<Rightarrow> u8"
  vs_files :: "nat \<Rightarrow> u8 list"
  vs_swap_io :: "bool \<Rightarrow> nat \<Rightarrow> status"
  vs_elf_io :: "nat \<Rightarrow> int \<Rightarrow> status"
  vs_vnrefs :: "nat \<Rightarrow> nat"
  vs_curproc :: bool
  vs_as :: ptr
  vs_space :: addrspace

abbreviation (input) DUMBVM_STACKPAGES :: nat where "DUMBVM_STACKPAGES \<equiv> 18"

definition as_create :: "kheap \<Rightarrow> addrspace option \<times> kheap" where
  "as_create k =
     (case kmalloc_ok k of
        None \<Rightarrow> (None, k)
      | Some k' \<Rightarrow>
          (Some \<lparr>as_pt = [], as_segments = [], as_elf_file = NULL, as_heap_start = 0, as_heap_end = 0\<rparr>, k'))"

definition as_copy :: "addrspace \<Rightarrow> kheap \<Rightarrow> (errno + addrspace) \<times> kheap" where
  "as_copy old k =
     (case as_create k of
        (None, k') \<Rightarrow> (Inl ENOMEM, k')
      | (Some newas, k') \<Rightarrow> (Inr newas, k'))"

text \<open>vfs_close drops a reference; the last one is handed to the file system (count 0).\<close>

definition vfs_close :: "ptr \<Rightarrow> vmstate \<Rightarrow> vmstate option" where
  "vfs_close vn s = do {
     v \<leftarrow> vn;
     kassert (0 < vs_vnrefs s v);
     Some (s\<lparr>vs_vnrefs := (vs_vnrefs s)(v := vs_vnrefs s v - 1)\<rparr>)
   }"

definition as_destroy :: "nat \<Rightarrow> addrspace \<Rightarrow> vmstate \<Rightarrow> vmstate option" where
  "as_destroy a as s = do {
     let s1 = s\<lparr>vs_cmap := cm_asfree (Some a) (vs_cmap s)\<rparr>;
     let as1 = as\<lparr>as_pt := pt_free (as_pt as)\<rparr>;
     let s2 = s1\<lparr>vs_swap := (swap_asfree (Some a) (fst (vs_swap s1)), snd (vs_swap s1))\<rparr>;
     let as2 = as1\<lparr>as_segments := sgm_free (as_segments as1)\<rparr>;
     vfs_close (as_elf_file as2) s2
   }"

text \<open>The chain of entries that the two definition loops build, the first one first.\<close>

primrec pt_chain :: "(nat \<Rightarrow> vaddr_t) \<Rightarrow> nat \<Rightarrow> kheap \<Rightarrow> (pt_entry list \<times> kheap) option" where
  "pt_chain va 0 k = Some ([], k)"
| "pt_chain va (Suc i) k = do {
     (chain, k1) \<leftarrow> pt_chain va i k;
     (p, k2) \<leftarrow> pt_create (va i) k1;
     Some (chain @ [p], k2)
   }"

text \<open>Both loops leave page_head uninitialised when there is no page: a halt.\<close>

definition link_chain :: "pt_entry list \<Rightarrow> segment_entry list \<Rightarrow> addrspace \<Rightarrow> addrspace option" where
  "link_chain chain segs as = do {
     kassert (chain \<noteq> []);
     let pt' = chain @ as_pt as;
     segment \<leftarrow> arr_get segs 0;
     Some (as\<lparr>as_segments := segment\<lparr>sg_first_pte := length pt'\<rparr> # tl segs, as_pt := pt'\<rparr>)
   }"

definition as_define_region ::
  "addrspace \<Rightarrow> vaddr_t \<Rightarrow> int \<Rightarrow> u32 \<Rightarrow> int \<Rightarrow> int \<Rightarrow> int \<Rightarrow> kheap
     \<Rightarrow> ((errno + addrspace) \<times> kheap) option" where
  "as_define_region as vaddr offset sz readable writeable executable k = do {
     let segsz = sz;
     let sz1 = sz + (vaddr AND NOT PAGE_FRAME);
     let vaddr1 = vaddr AND PAGE_FRAME;
     let sz2 = (sz1 + PAGE_SIZE - 1) AND PAGE_FRAME;
     let npages = unat (sz2 div PAGE_SIZE);
     (segs, k1) \<leftarrow> sgm_create vaddr1 offset npages segsz readable writeable executable (as_segments as) k;
     (chain, k2) \<leftarrow> pt_chain (\<lambda>i. vaddr1 + of_nat i * PAGE_SIZE) npages k1;
     as' \<leftarrow> link_chain chain segs as;
     Some (Inr as', k2)
   }"

text \<open>The walk of as_prepare_load; it stops at the first page that gets no frame.\<close>

fun prepare_pages :: "ptr \<Rightarrow> pt_entry list \<Rightarrow> cmap \<Rightarrow> errno option \<times> pt_entry list \<times> cmap" where
  "prepare_pages a [] c = (None, [], c)"
| "prepare_pages a (p # pt) c =
     (let (fr, c1) = frame_alloc (pte_page p) a c;
          p1 = p\<lparr>pte_frame := fr\<rparr>
      in if fr = 0 then (Some ENOMEM, p1 # pt, c1)
         else let (r, pt', c2) = prepare_pages a pt c1 in (r, p1 # pt', c2))"

definition as_prepare_load :: "nat \<Rightarrow> addrspace \<Rightarrow> cmap \<Rightarrow> errno option \<times> addrspace \<times> cmap" where
  "as_prepare_load a as c =
     (let (r, pt', c') = prepare_pages (Some a) (as_pt as) c in (r, as\<lparr>as_pt := pt'\<rparr>, c'))"

definition as_complete_load :: "addrspace \<Rightarrow> ptr \<Rightarrow> errno option \<times> addrspace" where
  "as_complete_load as v = (None, as\<lparr>as_elf_file := v\<rparr>)"

definition as_define_stack :: "addrspace \<Rightarrow> kheap \<Rightarrow> ((errno + vaddr_t \<times> addrspace) \<times> kheap) option" where
  "as_define_stack as k = do {
     (segs, k1) \<leftarrow> sgm_create (USERSTACK - of_nat DUMBVM_STACKPAGES * PAGE_SIZE) (- 1) DUMBVM_STACKPAGES 0 4 2 0
       (as_segments as) k;
     (chain, k2) \<leftarrow> pt_chain (\<lambda>i. USERSTACK - of_nat (i + 1) * PAGE_SIZE) DUMBVM_STACKPAGES k1;
     as' \<leftarrow> link_chain chain segs as;
     Some (Inr (USERSTACK, as'), k2)
   }"

subsection \<open>The chain loops\<close>

definition fresh_pte :: "vaddr_t \<Rightarrow> pt_entry" where
  "fresh_pte va = \<lparr>pte_page = va, pte_frame = 0, pte_in_mem = False, pte_in_swap = False\<rparr>"

lemma fresh_pte_sel [simp]: "pte_page (fresh_pte va) = va" "pte_frame (fresh_pte va) = 0"
  "\<not> pte_in_mem (fresh_pte va)" "\<not> pte_in_swap (fresh_pte va)"
  by (simp_all add: fresh_pte_def)

lemma pt_create_Suc [simp]: "pt_create va (Suc k) = Some (fresh_pte va, k)"
  by (simp add: pt_create_def fresh_pte_def)

lemma pt_create_0 [simp]: "pt_create va 0 = None"
  by (simp add: pt_create_def)

lemma pt_chain_Some:
  "pt_chain va n k = Some (chain, k') \<longleftrightarrow>
     n \<le> k \<and> k' = k - n \<and> chain = map (\<lambda>i. fresh_pte (va i)) [0..<n]"
proof (induction n arbitrary: chain k')
  case 0
  then show ?case by auto
next
  case (Suc n)
  show ?case
  proof (cases "n < k")
    case True
    then have "k - n = Suc (k - Suc n)" by simp
    with True Suc.IH show ?thesis by (auto simp: bind_eq_Some_conv)
  next
    case False
    with Suc.IH show ?thesis by (auto simp: bind_eq_Some_conv)
  qed
qed

lemma sgm_create_Suc [simp]:
  "sgm_create va off n sz r w x nxt (Suc (Suc k)) =
     Some (\<lparr>sg_first_addr = va, sg_npages = n, sg_size = sz, sg_offset = off,
            sg_permission = \<lparr>perm_read = r, perm_write = w, perm_exec = x\<rparr>, sg_first_pte = 0\<rparr> # nxt, k)"
  by (simp add: sgm_create_def)

subsection \<open>The shape of an address space\<close>

text \<open>
  The k-th entry from first_pt_entry: load segments list their pages upwards, the
  stack (offset -1) downwards.
\<close>

definition seg_page :: "segment_entry \<Rightarrow> nat \<Rightarrow> vaddr_t" where
  "seg_page seg k =
     (if sg_offset seg < 0 then sg_first_addr seg + of_nat (sg_npages seg - 1 - k) * PAGE_SIZE
      else sg_first_addr seg + of_nat k * PAGE_SIZE)"

definition seg_ok :: "pt_entry list \<Rightarrow> segment_entry \<Rightarrow> bool" where
  "seg_ok pt seg \<longleftrightarrow>
     0 < sg_npages seg \<and> sg_npages seg \<le> sg_first_pte seg \<and> sg_first_pte seg \<le> length pt \<and>
     4096 dvd unat (sg_first_addr seg) \<and>
     unat (sg_first_addr seg) + sg_npages seg * PAGE_BYTES \<le> 0x80000000 \<and>
     (\<forall>k < sg_npages seg. map_option pte_page (pt_node pt (sg_first_pte seg - k)) = Some (seg_page seg k))"

definition user_page :: "vaddr_t \<Rightarrow> bool" where
  "user_page va \<longleftrightarrow> 4096 dvd unat va \<and> unat va < 0x80000000"

definition as_wf :: "addrspace \<Rightarrow> bool" where
  "as_wf as \<longleftrightarrow> distinct (map pte_page (as_pt as)) \<and> (\<forall>e \<in> set (as_pt as). user_page (pte_page e)) \<and>
     (\<forall>seg \<in> set (as_segments as). seg_ok (as_pt as) seg)"

lemma seg_ok_append: "seg_ok pt seg \<Longrightarrow> seg_ok (chain @ pt) seg"
  by (auto simp: seg_ok_def)

lemma pt_node_chain:
  "k < length chain \<Longrightarrow> pt_node (chain @ pt) (length chain + length pt - k) = Some (chain ! k)"
  by (auto simp: pt_node_def nth_append)

lemma as_wf_link:
  assumes "as_wf as" "chain \<noteq> []" "link_chain chain (seg # as_segments as) as = Some as'"
    and "length chain = sg_npages seg"
    and "4096 dvd unat (sg_first_addr seg)"
    and "unat (sg_first_addr seg) + sg_npages seg * PAGE_BYTES \<le> 0x80000000"
    and "\<And>k. k < sg_npages seg \<Longrightarrow> pte_page (chain ! k) = seg_page seg k"
    and "distinct (map pte_page chain)" "\<And>e. e \<in> set chain \<Longrightarrow> user_page (pte_page e)"
    and "pte_page ` set chain \<inter> pte_page ` set (as_pt as) = {}"
  shows "as_wf as'"
proof -
  let ?pt = "chain @ as_pt as" and ?seg = "seg\<lparr>sg_first_pte := length chain + length (as_pt as)\<rparr>"
  have as': "as_pt as' = ?pt" "as_segments as' = ?seg # as_segments as"
    using assms(2,3) by (auto simp: link_chain_def)
  have "seg_ok ?pt ?seg"
    using assms(2,4-7) pt_node_chain [of _ chain "as_pt as"] length_greater_0_conv [of chain]
    by (simp add: seg_ok_def seg_page_def)
  moreover have "seg_ok ?pt s" if "s \<in> set (as_segments as)" for s
    using assms(1) that by (intro seg_ok_append) (simp add: as_wf_def)
  ultimately show ?thesis
    using assms(1,8,9,10) unfolding as_wf_def as' by auto
qed

lemma link_chain_Some:
  "chain \<noteq> [] \<Longrightarrow> link_chain chain (seg # segs) as =
     Some (as\<lparr>as_segments := seg\<lparr>sg_first_pte := length chain + length (as_pt as)\<rparr> # segs,
              as_pt := chain @ as_pt as\<rparr>)"
  by (simp add: link_chain_def)

text \<open>The rounding of as_define_region, on numbers.\<close>

lemma page_off_not: "x AND NOT PAGE_FRAME = (x AND 0xfff :: u32)"
  by simp

lemma region_round:
  fixes vaddr sz :: u32
  assumes "0 < unat sz" "unat vaddr + unat sz \<le> 0x80000000"
  shows "unat (((sz + (vaddr AND NOT PAGE_FRAME)) + PAGE_SIZE - 1 AND PAGE_FRAME) div PAGE_SIZE) =
     (unat vaddr mod 4096 + unat sz + 4095) div 4096"
proof -
  have off: "unat (vaddr AND NOT PAGE_FRAME) = unat vaddr mod 4096"
    unfolding page_off_not by (rule page_off_unat)
  have le: "unat vaddr mod 4096 \<le> unat vaddr" by simp
  have s1: "unat (sz + (vaddr AND NOT PAGE_FRAME)) = unat sz + unat vaddr mod 4096"
    using assms le off by (subst unat_add_u32) linarith+
  have eq: "sz + (vaddr AND NOT PAGE_FRAME) + PAGE_SIZE - 1 = sz + (vaddr AND NOT PAGE_FRAME) + 4095"
    by simp
  have s2: "unat (sz + (vaddr AND NOT PAGE_FRAME) + 4095) = unat vaddr mod 4096 + unat sz + 4095"
    using assms le s1 by (subst unat_add_u32) simp_all
  have c: "unat PAGE_SIZE = 4096" by simp
  show ?thesis
    unfolding eq unat_div_u32 page_frame_unat s2 c by (simp add: minus_mod_eq_div_mult)
qed

text \<open>The pages of a region and of the stack, as numbers.\<close>

lemma page_step_unat:
  assumes "unat base + n * 4096 \<le> 0x80000000" "i < n"
  shows "unat (base + of_nat i * PAGE_SIZE :: u32) = unat base + i * 4096"
proof -
  have b: "i * 4096 < n * 4096" using assms(2) by simp
  then have "unat (of_nat i :: u32) = i" using assms(1) by (intro unat_of_nat_u32) linarith
  then have "unat (of_nat i * PAGE_SIZE :: u32) = i * 4096"
    using b assms(1) by (subst unat_mult_u32) simp_all
  then show ?thesis using b assms(1) by (subst unat_add_u32) simp_all
qed

lemma page_step_inj:
  assumes "unat base + n * 4096 \<le> 0x80000000"
  shows "inj_on (\<lambda>i. base + of_nat i * PAGE_SIZE :: u32) {..<n}"
  by (rule inj_onI) (metis page_step_unat [OF assms] add_left_cancel lessThan_iff mult_right_cancel zero_neq_numeral)

lemma round_fits:
  fixes v sz :: nat
  assumes "v + sz \<le> 0x80000000"
  shows "v div 4096 * 4096 + (v mod 4096 + sz + 4095) div 4096 * 4096 \<le> 0x80000000"
proof -
  define b m n where "b = v div 4096" and "m = v mod 4096" and "n = (m + sz + 4095) div 4096"
  have "v = b * 4096 + m" unfolding b_def m_def by simp
  moreover have "n * 4096 \<le> m + sz + 4095" unfolding n_def by simp
  ultimately have "(b + n) * 4096 < 0x80001 * 4096" using assms by simp
  then have "b + n < 0x80001" unfolding mult_less_cancel2 by simp
  then show ?thesis unfolding b_def [symmetric] m_def [symmetric] n_def [symmetric] by simp
qed

definition covers :: "vaddr_t \<Rightarrow> nat \<Rightarrow> vaddr_t \<Rightarrow> bool" where
  "covers base n p \<longleftrightarrow> (\<exists>i < n. p = base + of_nat i * PAGE_SIZE)"

text \<open>A page of the rounded region is a page that a byte of the region lies in.\<close>

lemma covers_region:
  assumes sz: "0 < unat sz" and top: "unat vaddr + unat sz \<le> 0x80000000"
    and n: "n = (unat vaddr mod 4096 + unat sz + 4095) div 4096"
  shows "covers (vaddr AND PAGE_FRAME) n p \<longleftrightarrow>
    (\<exists>x. unat vaddr \<le> x \<and> x < unat vaddr + unat sz \<and> unat p = x div 4096 * 4096)" (is "?L \<longleftrightarrow> ?R")
proof -
  define b where "b = unat vaddr div 4096"
  have base: "unat (vaddr AND PAGE_FRAME) = b * 4096"
    unfolding b_def page_frame_unat minus_mod_eq_div_mult ..
  have v: "unat vaddr = b * 4096 + unat vaddr mod 4096" unfolding b_def by simp
  have nb: "b * 4096 + n * 4096 \<le> 0x80000000"
    using round_fits [OF top] unfolding n b_def .
  have step: "unat ((vaddr AND PAGE_FRAME) + of_nat i * PAGE_SIZE) = (b + i) * 4096" if "i < n" for i
    using page_step_unat [of "vaddr AND PAGE_FRAME" n i] that nb base by simp
  have last: "i < n \<longleftrightarrow> i * 4096 < unat vaddr mod 4096 + unat sz" for i
    unfolding n by (simp add: less_eq_div_iff_mult_less_eq Suc_le_eq [symmetric])
  show ?thesis
  proof
    assume ?L
    then obtain i where i: "i < n" "unat p = (b + i) * 4096" unfolding covers_def using step by blast
    let ?x = "max (unat vaddr) ((b + i) * 4096)"
    have "?x < unat vaddr + unat sz" using i(1) sz v unfolding last by simp
    moreover have "?x div 4096 = b + i"
    proof (cases i)
      case 0
      then have "(b + i) * 4096 \<le> unat vaddr" using v by simp
      then show ?thesis using 0 by (simp add: b_def max_def)
    next
      case (Suc j)
      have "unat vaddr < b * 4096 + 4096" using v mod_less_divisor [of 4096 "unat vaddr"] by linarith
      then have "unat vaddr \<le> (b + i) * 4096" using Suc by simp
      then show ?thesis by (simp add: max_def)
    qed
    ultimately show ?R using i(2) by (intro exI [of _ ?x]) simp
  next
    assume ?R
    then obtain x where x: "unat vaddr \<le> x" "x < unat vaddr + unat sz" "unat p = x div 4096 * 4096" by blast
    have "b \<le> x div 4096" unfolding b_def by (rule div_le_mono) (fact x(1))
    then obtain i where i: "x div 4096 = b + i" using le_Suc_ex by blast
    have "(b + i) * 4096 \<le> x" unfolding i [symmetric] by simp
    then have "i * 4096 < unat vaddr mod 4096 + unat sz" using x(2) v by simp
    then have "i < n" unfolding last .
    with step [OF this] x(3) i have "p = (vaddr AND PAGE_FRAME) + of_nat i * PAGE_SIZE"
      by (metis word_unat_eq_iff)
    with \<open>i < n\<close> show ?L unfolding covers_def by blast
  qed
qed

lemma region_fits:
  assumes "0 < unat sz" "unat vaddr + unat sz \<le> 0x80000000"
  shows "unat (vaddr AND PAGE_FRAME) + (unat vaddr mod 4096 + unat sz + 4095) div 4096 * 4096 \<le> 0x80000000"
  using round_fits [OF assms(2)] unfolding page_frame_unat minus_mod_eq_div_mult .

definition region_pages :: "vaddr_t \<Rightarrow> u32 \<Rightarrow> nat" where
  "region_pages vaddr sz = (unat vaddr mod 4096 + unat sz + 4095) div 4096"

lemma as_define_region_Some:
  assumes "0 < unat sz" "unat vaddr + unat sz \<le> 0x80000000" "region_pages vaddr sz + 2 \<le> k"
  shows "as_define_region as vaddr offset sz r w x k =
    (let base = vaddr AND PAGE_FRAME; n = region_pages vaddr sz;
         chain = map (\<lambda>i. fresh_pte (base + of_nat i * PAGE_SIZE)) [0..<n]
     in Some (Inr (as\<lparr>as_segments :=
          \<lparr>sg_first_addr = base, sg_npages = n, sg_size = sz, sg_offset = offset,
           sg_permission = \<lparr>perm_read = r, perm_write = w, perm_exec = x\<rparr>,
           sg_first_pte = n + length (as_pt as)\<rparr> # as_segments as, as_pt := chain @ as_pt as\<rparr>), k - (n + 2)))"
proof -
  obtain j where k: "k = Suc (Suc j)" and j: "region_pages vaddr sz \<le> j"
    using assms(3) by (cases k) (auto, metis Suc_le_D Suc_le_mono)
  have n0: "0 < region_pages vaddr sz"
    unfolding region_pages_def using assms(1) by (simp add: div_greater_zero_iff)
  show ?thesis
    unfolding as_define_region_def Let_def region_round [OF assms(1,2)] region_pages_def [symmetric] k
    using n0 j by (simp add: link_chain_Some pt_chain_Some)
qed


text \<open>The result of as_define_region on a range that meets no page of the address space.\<close>

abbreviation (input) range_page :: "nat \<Rightarrow> nat \<Rightarrow> vaddr_t \<Rightarrow> bool" where
  "range_page va n p \<equiv> \<exists>x. va \<le> x \<and> x < va + n \<and> unat p = x div 4096 * 4096"

lemma define_region_ok:
  assumes "as_wf as" "0 < unat sz" "unat vaddr + unat sz \<le> 0x80000000"
    and "region_pages vaddr sz + 2 \<le> k" "0 \<le> offset"
    and "\<forall>p \<in> pte_page ` set (as_pt as). \<not> range_page (unat vaddr) (unat sz) p"
  shows "\<exists>as' chain seg. as_define_region as vaddr offset sz r w x k = Some (Inr as', k - (region_pages vaddr sz + 2)) \<and>
    as_wf as' \<and> as_pt as' = chain @ as_pt as \<and> pte_page ` set chain = {p. range_page (unat vaddr) (unat sz) p} \<and>
    (\<forall>e \<in> set chain. \<not> pte_in_mem e \<and> \<not> pte_in_swap e) \<and> as_segments as' = seg # as_segments as \<and>
    sg_first_addr seg = vaddr AND PAGE_FRAME \<and> sg_npages seg = region_pages vaddr sz \<and> sg_size seg = sz \<and> sg_offset seg = offset \<and> as_elf_file as' = as_elf_file as"
proof -
  let ?b = "vaddr AND PAGE_FRAME" and ?n = "region_pages vaddr sz"
  let ?chain = "map (\<lambda>i. fresh_pte (?b + of_nat i * PAGE_SIZE)) [0..<?n]"
  let ?seg = "\<lparr>sg_first_addr = ?b, sg_npages = ?n, sg_size = sz, sg_offset = offset,
    sg_permission = \<lparr>perm_read = r, perm_write = w, perm_exec = x\<rparr>, sg_first_pte = 0\<rparr>"
  have n0: "0 < ?n" unfolding region_pages_def using assms(2) by (simp add: div_greater_zero_iff)
  have fits: "unat ?b + ?n * 4096 \<le> 0x80000000"
    using region_fits [OF assms(2,3)] unfolding region_pages_def .
  have cov: "covers ?b ?n p \<longleftrightarrow> (\<exists>x. unat vaddr \<le> x \<and> x < unat vaddr + unat sz \<and> unat p = x div 4096 * 4096)"
    for p by (rule covers_region [OF assms(2,3) region_pages_def])
  have pages: "pte_page ` set ?chain = {p. covers ?b ?n p}"
    by (auto simp: covers_def image_image)
  define as' where "as' = as\<lparr>as_segments := ?seg\<lparr>sg_first_pte := length ?chain + length (as_pt as)\<rparr> # as_segments as,
    as_pt := ?chain @ as_pt as\<rparr>"
  have link: "link_chain ?chain (?seg # as_segments as) as = Some as'"
    unfolding as'_def using n0 by (intro link_chain_Some) simp
  have al: "4096 dvd unat ?b" using page_frame_id [of ?b] by simp
  have "as_wf as'"
  proof (rule as_wf_link [OF assms(1) _ link])
    show "?chain \<noteq> []" using n0 by simp
    show "distinct (map pte_page ?chain)"
      using page_step_inj [OF fits] by (simp add: distinct_map o_def atLeast0LessThan)
    show "pte_page (?chain ! i) = seg_page ?seg i" if "i < sg_npages ?seg" for i
      using that assms(5) by (simp add: seg_page_def)
    show "user_page (pte_page e)" if "e \<in> set ?chain" for e
    proof -
      have "pte_page e \<in> pte_page ` set ?chain" using that by (rule imageI)
      then obtain i where "i < ?n" "pte_page e = ?b + of_nat i * PAGE_SIZE"
        unfolding pages covers_def by blast
      then show ?thesis using page_step_unat [OF fits, of i] fits al by (simp add: user_page_def)
    qed
    show "pte_page ` set ?chain \<inter> pte_page ` set (as_pt as) = {}"
      using assms(6) unfolding pages cov by blast
  qed (use fits al in simp_all)
  moreover have "as_define_region as vaddr offset sz r w x k = Some (Inr as', k - (?n + 2))"
    unfolding as_define_region_Some [OF assms(2-4)] Let_def as'_def by simp
  moreover have "pte_page ` set ?chain = {p. range_page (unat vaddr) (unat sz) p}" unfolding pages cov ..
  moreover have "\<forall>e \<in> set ?chain. \<not> pte_in_mem e \<and> \<not> pte_in_swap e" by auto
  ultimately show ?thesis
    by (intro exI [of _ as'] exI [of _ ?chain] exI [of _ "?seg\<lparr>sg_first_pte := length ?chain + length (as_pt as)\<rparr>"] conjI)
      (simp_all add: as'_def)
qed

text \<open>C18: as_define_region covers its range. Called with a non-empty range of user space that
  meets no page of the address space, and with memory for the entries, it succeeds; the pages
  of the result are the old ones and exactly the pages in which a byte of the range lies, each
  once; the new entries have no frame; and the shape that the fault handler relies on is kept.\<close>

theorem as_define_region_covers:
  assumes "as_wf as" "0 < unat sz" "unat vaddr + unat sz \<le> 0x80000000"
    and "region_pages vaddr sz + 2 \<le> k" "0 \<le> offset"
    and "\<forall>p \<in> pte_page ` set (as_pt as). \<not> (\<exists>x. unat vaddr \<le> x \<and> x < unat vaddr + unat sz \<and> unat p = x div 4096 * 4096)"
  shows "\<exists>as' k'. as_define_region as vaddr offset sz r w x k = Some (Inr as', k') \<and> as_wf as' \<and>
    (\<forall>p. p \<in> pte_page ` set (as_pt as') \<longleftrightarrow> p \<in> pte_page ` set (as_pt as) \<or>
       (\<exists>x. unat vaddr \<le> x \<and> x < unat vaddr + unat sz \<and> unat p = x div 4096 * 4096)) \<and>
    (\<exists>chain. as_pt as' = chain @ as_pt as \<and> (\<forall>e \<in> set chain. \<not> pte_in_mem e \<and> \<not> pte_in_swap e))"
proof -
  obtain as' chain where "as_define_region as vaddr offset sz r w x k = Some (Inr as', k - (region_pages vaddr sz + 2))"
    "as_wf as'" "as_pt as' = chain @ as_pt as" "pte_page ` set chain = {p. range_page (unat vaddr) (unat sz) p}"
    "\<forall>e \<in> set chain. \<not> pte_in_mem e \<and> \<not> pte_in_swap e"
    using define_region_ok [OF assms(1-5), of r w x] assms(6) by blast
  moreover from this have "pte_page ` set (as_pt as') = {p. range_page (unat vaddr) (unat sz) p} \<union> pte_page ` set (as_pt as)"
    by (simp add: image_Un)
  ultimately show ?thesis by blast
qed

lemma as_link_pt: "as_pt (as\<lparr>as_segments := segs, as_pt := pt\<rparr>) = pt"
  by simp

lemma stack_page_unat:
  "i < 18 \<Longrightarrow> unat (USERSTACK - of_nat (i + 1) * PAGE_SIZE) = 0x80000000 - (i + 1) * 4096"
proof -
  assume i: "i < 18"
  then have "unat (of_nat (i + 1) :: u32) = i + 1" by (intro unat_of_nat_u32) simp
  then have m: "unat (of_nat (i + 1) * PAGE_SIZE :: u32) = (i + 1) * 4096"
    using i by (subst unat_mult_u32) simp_all
  then show ?thesis using i by (subst unat_sub_u32) (simp_all add: word_le_nat_alt)
qed

lemma define_stack_ok:
  assumes "as_wf as" "20 \<le> k"
    and "\<forall>p \<in> pte_page ` set (as_pt as). unat p < 0x80000000 - 18 * 4096"
  shows "\<exists>as' chain seg. as_define_stack as k = Some (Inr (USERSTACK, as'), k - 20) \<and> as_wf as' \<and>
    as_pt as' = chain @ as_pt as \<and> pte_page ` set chain = {p. user_page p \<and> 0x80000000 - 18 * 4096 \<le> unat p} \<and>
    (\<forall>e \<in> set chain. \<not> pte_in_mem e \<and> \<not> pte_in_swap e) \<and> as_segments as' = seg # as_segments as \<and>
    sg_first_addr seg = 0x7FFEE000 \<and> sg_npages seg = 18 \<and> sg_offset seg = - 1 \<and> as_elf_file as' = as_elf_file as"
proof -
  let ?f = "\<lambda>i. USERSTACK - of_nat (i + 1) * PAGE_SIZE"
  let ?chain = "map (\<lambda>i. fresh_pte (?f i)) [0..<18]"
  let ?b = "USERSTACK - of_nat 18 * PAGE_SIZE"
  let ?seg = "\<lparr>sg_first_addr = ?b, sg_npages = 18, sg_size = 0, sg_offset = - 1,
    sg_permission = \<lparr>perm_read = 4, perm_write = 2, perm_exec = 0\<rparr>, sg_first_pte = 0\<rparr>"
  define as' where "as' = as\<lparr>as_segments := ?seg\<lparr>sg_first_pte := length ?chain + length (as_pt as)\<rparr> # as_segments as,
    as_pt := ?chain @ as_pt as\<rparr>"
  obtain j where k: "k = Suc (Suc j)" "18 \<le> j"
    using assms(2) by (intro that [of "k - 2"]) simp_all
  have ub: "unat ?b = 0x7FFEE000" by simp
  have pages: "p \<in> pte_page ` set ?chain \<longleftrightarrow> user_page p \<and> 0x80000000 - 18 * 4096 \<le> unat p" for p
  proof
    assume "p \<in> pte_page ` set ?chain"
    then obtain i where i: "i < 18" "p = ?f i" by auto
    then have "unat p = (0x80000 - (i + 1)) * 4096" using stack_page_unat [of i] by simp
    then show "user_page p \<and> 0x80000000 - 18 * 4096 \<le> unat p"
      using i(1) by (simp add: user_page_def) arith
  next
    assume p: "user_page p \<and> 0x80000000 - 18 * 4096 \<le> unat p"
    then obtain q where q: "unat p = q * 4096" unfolding user_page_def by (metis dvd_def mult.commute)
    with p have "q < 0x80000" "0x80000 - 18 \<le> q" by (simp_all add: user_page_def)
    then obtain i where i: "i < 18" "q = 0x80000 - (i + 1)"
      by (intro that [of "0x7FFFF - q"]) simp_all
    then have "unat p = unat (?f i)" using stack_page_unat [OF i(1)] q by simp
    then have "p = ?f i" by (simp only: word_unat_eq_iff)
    then have "p = pte_page (fresh_pte (?f i))" by (simp only: fresh_pte_sel)
    moreover have "fresh_pte (?f i) \<in> set ?chain"
      unfolding set_map using i(1) by (intro imageI) simp
    ultimately show "p \<in> pte_page ` set ?chain" by (simp only: imageI)
  qed
  have link: "link_chain ?chain (?seg # as_segments as) as = Some as'"
    unfolding as'_def by (intro link_chain_Some) simp
  have apt: "as_pt as' = ?chain @ as_pt as"
    unfolding as'_def by (rule as_link_pt)
  have inj: "inj_on ?f {..<18}"
  proof (rule inj_onI)
    fix i j assume a: "i \<in> {..<18 :: nat}" "j \<in> {..<18 :: nat}" "?f i = ?f j"
    then have "(0x80000000 :: nat) - (i + 1) * 4096 = 0x80000000 - (j + 1) * 4096"
      using stack_page_unat [of i] stack_page_unat [of j] by (metis lessThan_iff)
    then show "i = j" using a(1,2) by simp
  qed
  have "as_wf as'"
  proof (rule as_wf_link [OF assms(1) _ link])
    show "distinct (map pte_page ?chain)"
      using inj by (simp add: distinct_map o_def atLeast0LessThan del: of_nat_Suc)
    show "pte_page (?chain ! i) = seg_page ?seg i" if "i < sg_npages ?seg" for i
    proof -
      have i: "i < 18" using that by simp
      have "unat (?b + of_nat (17 - i) * PAGE_SIZE) = unat ?b + (17 - i) * 4096"
        using ub i by (intro page_step_unat [of _ 18]) simp_all
      also have "\<dots> = unat (?f i)" using stack_page_unat [OF i] ub i by simp
      finally have "?b + of_nat (17 - i) * PAGE_SIZE = ?f i" by (simp only: word_unat_eq_iff)
      then show ?thesis using i by (simp add: seg_page_def del: of_nat_Suc)
    qed
    show "user_page (pte_page e)" if "e \<in> set ?chain" for e using that pages [of "pte_page e"] by blast
    show "pte_page ` set ?chain \<inter> pte_page ` set (as_pt as) = {}"
    proof (rule equals0I)
      fix p assume "p \<in> pte_page ` set ?chain \<inter> pte_page ` set (as_pt as)"
      then have "0x80000000 - 18 * 4096 \<le> unat p" "unat p < 0x80000000 - 18 * 4096"
        using pages [of p] assms(3) by blast+
      then show False by linarith
    qed
  qed simp_all
  moreover have "as_define_stack as k = Some (Inr (USERSTACK, as'), j - 18)"
  proof -
    have "pt_chain ?f 18 j = Some (?chain, j - 18)" unfolding pt_chain_Some using k(2) by blast
    then show ?thesis
      by (simp only: as_define_stack_def k sgm_create_Suc Option.bind.bind_lunit prod.case link)
  qed
  moreover have "pte_page ` set ?chain = {p. user_page p \<and> 0x80000000 - 18 * 4096 \<le> unat p}"
    using pages by (intro set_eqI) (simp only: mem_Collect_eq)
  moreover have "\<forall>e \<in> set ?chain. \<not> pte_in_mem e \<and> \<not> pte_in_swap e" by auto
  moreover have "as_elf_file as' = as_elf_file as"
    "as_segments as' = ?seg\<lparr>sg_first_pte := length ?chain + length (as_pt as)\<rparr> # as_segments as"
    unfolding as'_def by simp_all
  moreover have "j - 18 = k - 20" unfolding k by simp
  ultimately show ?thesis using apt
    by (intro exI [of _ as'] exI [of _ ?chain] exI [of _ "?seg\<lparr>sg_first_pte := length ?chain + length (as_pt as)\<rparr>"] conjI)
      (assumption | simp only: segment_entry.simps | simp)+
qed

text \<open>as_define_stack gives the process its 18 stack pages. With memory for the entries and no
  page of the address space in the top 72 KB of user space, it hands back USERSTACK, the pages
  added are exactly those of that range, and the shape of the address space is kept.\<close>

theorem as_define_stack_covers:
  assumes "as_wf as" "20 \<le> k"
    and "\<forall>p \<in> pte_page ` set (as_pt as). unat p < 0x80000000 - 18 * 4096"
  shows "\<exists>as' k'. as_define_stack as k = Some (Inr (USERSTACK, as'), k') \<and> as_wf as' \<and>
    (\<forall>p. p \<in> pte_page ` set (as_pt as') \<longleftrightarrow> p \<in> pte_page ` set (as_pt as) \<or>
       user_page p \<and> 0x80000000 - 18 * 4096 \<le> unat p)"
proof -
  obtain as' chain where "as_define_stack as k = Some (Inr (USERSTACK, as'), k - 20)" "as_wf as'"
    "as_pt as' = chain @ as_pt as" "pte_page ` set chain = {p. user_page p \<and> 0x80000000 - 18 * 4096 \<le> unat p}"
    using define_stack_ok [OF assms] by blast
  moreover from this have "pte_page ` set (as_pt as') =
      {p. user_page p \<and> 0x80000000 - 18 * 4096 \<le> unat p} \<union> pte_page ` set (as_pt as)"
    by (simp add: image_Un)
  ultimately show ?thesis by blast
qed

definition as_empty :: addrspace where
  "as_empty = \<lparr>as_pt = [], as_segments = [], as_elf_file = NULL, as_heap_start = 0, as_heap_end = 0\<rparr>"

lemma as_empty_wf: "as_wf as_empty"
  by (simp add: as_wf_def as_empty_def)

theorem as_define_region_covers_witness:
  "\<exists>as' k'. as_define_region as_empty 0x400010 0x10 5000 4 0 1 10 = Some (Inr as', k') \<and>
     0x401000 \<in> pte_page ` set (as_pt as')"
proof -
  have n: "region_pages 0x400010 5000 = 2" by (simp add: region_pages_def)
  obtain as' k' where r: "as_define_region as_empty 0x400010 0x10 5000 4 0 1 10 = Some (Inr as', k')"
    and c: "\<forall>p. p \<in> pte_page ` set (as_pt as') \<longleftrightarrow> p \<in> pte_page ` set (as_pt as_empty) \<or>
       (\<exists>x. unat (0x400010 :: u32) \<le> x \<and> x < unat (0x400010 :: u32) + unat (5000 :: u32) \<and> unat p = x div 4096 * 4096)"
    using as_define_region_covers [OF as_empty_wf, of 5000 "0x400010" 10 "0x10" 4 0 1] n
    by (auto simp: as_empty_def)
  have "0x401000 \<in> pte_page ` set (as_pt as')"
    unfolding c [rule_format] by (intro disjI2 exI [of _ "0x401000"]) simp
  with r show ?thesis by blast
qed

theorem as_define_stack_covers_witness:
  "\<exists>as' k'. as_define_stack as_empty 20 = Some (Inr (USERSTACK, as'), k') \<and> as_wf as'"
  using as_define_stack_covers [OF as_empty_wf, of 20] by (auto simp: as_empty_def)

lemma as_destroy_Some:
  "as_destroy a as s = Some s' \<longleftrightarrow> (\<exists>v. as_elf_file as = Some v \<and> 0 < vs_vnrefs s v \<and>
     s' = s\<lparr>vs_cmap := cm_asfree (Some a) (vs_cmap s),
            vs_swap := (swap_asfree (Some a) (fst (vs_swap s)), snd (vs_swap s)),
            vs_vnrefs := (vs_vnrefs s)(v := vs_vnrefs s v - 1)\<rparr>)"
  by (cases "as_elf_file as") (auto simp: as_destroy_def vfs_close_def Let_def)

text \<open>C19: the death of a process gives back all that it had and nothing else. as_destroy panics exactly
  when the address space has no executable vnode with a reference (the load failed before
  as_complete_load, or the space is a copy); otherwise every frame of the address space is
  free afterwards, every other frame keeps its owner, and the pages in the swap space that
  remain are exactly those of the others.\<close>

theorem as_destroy_releases:
  assumes "cm_wf (vs_cmap s)" "swap_inv (vs_swap s)"
  shows "(as_destroy a as s = None \<longleftrightarrow> (\<forall>v. as_elf_file as = Some v \<longrightarrow> vs_vnrefs s v = 0)) \<and>
    (\<forall>s'. as_destroy a as s = Some s' \<longrightarrow>
      (\<forall>i < ram_frames (vs_cmap s). cm_abs (vs_cmap s') ! i =
         (if \<exists>va. cm_abs (vs_cmap s) ! i = User a va then Unowned else cm_abs (vs_cmap s) ! i)) \<and>
      swap_contents (vs_swap s') = (swap_contents (vs_swap s)) |` {k. fst k \<noteq> a})"
proof (intro conjI allI impI)
  show "as_destroy a as s = None \<longleftrightarrow> (\<forall>v. as_elf_file as = Some v \<longrightarrow> vs_vnrefs s v = 0)"
    using as_destroy_Some [of a as s] by (metis not_None_eq not_gr_zero)
  fix s' assume d: "as_destroy a as s = Some s'"
  then have s': "vs_cmap s' = cm_asfree (Some a) (vs_cmap s)"
    "vs_swap s' = (swap_asfree (Some a) (fst (vs_swap s)), snd (vs_swap s))"
    unfolding as_destroy_Some by auto
  show "cm_abs (vs_cmap s') ! i =
      (if \<exists>va. cm_abs (vs_cmap s) ! i = User a va then Unowned else cm_abs (vs_cmap s) ! i)"
    if "i < ram_frames (vs_cmap s)" for i
    unfolding s'(1) cm_asfree_abs [OF assms(1)] using that by (simp split: owner.splits)
  show "swap_contents (vs_swap s') = (swap_contents (vs_swap s)) |` {k. fst k \<noteq> a}"
    unfolding s'(2) by (rule swap_asfree_contents(1) [OF assms(2)])
qed

definition destroy_demo :: vmstate where
  "destroy_demo = \<lparr>vs_cmap = cm_demo, vs_tlb = tlb_demo, vs_stats = vmstats_init, vs_swap = swap_demo,
     vs_mem = (\<lambda>_. 0), vs_files = (\<lambda>_. []), vs_swap_io = (\<lambda>_ _. None), vs_elf_io = (\<lambda>_ _. None), vs_vnrefs = (\<lambda>_. 1), vs_curproc = True, vs_as = Some 1,
     vs_space = as_empty\<rparr>"

theorem as_destroy_releases_witness:
  "as_destroy 1 as_empty destroy_demo = None \<and> as_destroy 1 (as_empty\<lparr>as_elf_file := Some 4\<rparr>) destroy_demo \<noteq> None"
proof -
  have wf: "cm_wf (vs_cmap destroy_demo)" "swap_inv (vs_swap destroy_demo)"
    using cm_demo_wf swap_demo_inv by (simp_all add: destroy_demo_def)
  have r: "vs_vnrefs destroy_demo v = 1" for v by (simp add: destroy_demo_def)
  show ?thesis
    using conjunct1 [OF as_destroy_releases [OF wf, of 1 as_empty]]
      conjunct1 [OF as_destroy_releases [OF wf, of 1 "as_empty\<lparr>as_elf_file := Some 4\<rparr>"]] r
    by (simp add: as_empty_def)
qed

end
