(* ===== verification/Usermem.thy ===== *)
theory Usermem
  imports Addrspace
begin

text \<open>
  Access to user memory from the kernel: what the processor does with a user address
  (TLB, trap to the fault handler on a miss, retry) and kern/vm/copyinout.c on top of it.

  The fault handler vm_fault is itself a client of these copies (it zeroes pages, reads the
  executable and moves pages to and from swap through user addresses), so they take the
  handler as an argument and the theory Vm ties the knot. A copy runs page by page: within
  a page no instruction but the first can miss.
\<close>

abbreviation (input) VM_FAULT_READ :: nat where "VM_FAULT_READ \<equiv> 0"
abbreviation (input) VM_FAULT_WRITE :: nat where "VM_FAULT_WRITE \<equiv> 1"
abbreviation (input) VM_FAULT_READONLY :: nat where "VM_FAULT_READONLY \<equiv> 2"

text \<open>The result of a C function that returns an int error: None is 0.\<close>

type_synonym handler = "nat \<Rightarrow> vaddr_t \<Rightarrow> vmstate \<Rightarrow> (status \<times> vmstate) option"

text \<open>
  A load or store at a user address. A miss, or a store to a page without the dirty bit, traps
  to the handler with the type of the fault; when the handler returns 0 the instruction is
  executed again, and may trap again. An access that never ends has no result (None), as one
  that halts the kernel.
\<close>

definition trap_type :: "mmu \<Rightarrow> bool \<Rightarrow> nat" where
  "trap_type r wr = (if r = Modify then VM_FAULT_READONLY else if wr then VM_FAULT_WRITE else VM_FAULT_READ)"

partial_function (option) access :: "handler \<Rightarrow> bool \<Rightarrow> vaddr_t \<Rightarrow> vmstate \<Rightarrow> ((errno + paddr_t) \<times> vmstate) option" where
  "access h wr va s =
     (case mmu_translate (vs_tlb s) va wr of
        Hit pa \<Rightarrow> Some (Inr pa, s)
      | trap \<Rightarrow> do {
          (r, s1) \<leftarrow> h (trap_type trap wr) va s;
          (case r of
             Some e \<Rightarrow> Some (Inl e, s1)
           | None \<Rightarrow> access h wr va s1)
        })"

lemma access_hit_now: "mmu_translate (vs_tlb s) va wr = Hit pa \<Longrightarrow> access h wr va s = Some (Inr pa, s)"
  by (subst access.simps) simp

lemma access_trap:
  "mmu_translate (vs_tlb s) va wr = t \<Longrightarrow> t = Miss \<or> t = Modify \<Longrightarrow> access h wr va s =
     Option.bind (h (trap_type t wr) va s) (\<lambda>(r, s1). case r of Some e \<Rightarrow> Some (Inl e, s1) | None \<Rightarrow> access h wr va s1)"
  by (subst access.simps) auto

text \<open>Induction over the traps of an access that returns.\<close>

lemma access_induct [consumes 1, case_names hit refused served]:
  assumes "access h wr va s = Some y"
    and hit: "\<And>s pa. mmu_translate (vs_tlb s) va wr = Hit pa \<Longrightarrow> P s (Inr pa, s)"
    and refused: "\<And>s t e s1. mmu_translate (vs_tlb s) va wr = t \<Longrightarrow> t = Miss \<or> t = Modify \<Longrightarrow>
      h (trap_type t wr) va s = Some (Some e, s1) \<Longrightarrow> P s (Inl e, s1)"
    and served: "\<And>s t s1 y. mmu_translate (vs_tlb s) va wr = t \<Longrightarrow> t = Miss \<or> t = Modify \<Longrightarrow>
      h (trap_type t wr) va s = Some (None, s1) \<Longrightarrow> P s1 y \<Longrightarrow> P s y"
  shows "P s y"
proof -
  let ?P = "\<lambda>h' wr' va' s y. h' = h \<longrightarrow> wr' = wr \<longrightarrow> va' = va \<longrightarrow> P s y"
  have "?P h wr va s y"
  proof (rule access.raw_induct [where P = ?P, OF _ assms(1)], intro impI)
    fix acc k w v t z
    assume IH: "\<And>k w v t z. acc k w v t = Some z \<Longrightarrow> k = h \<longrightarrow> w = wr \<longrightarrow> v = va \<longrightarrow> P t z"
      and r: "(case mmu_translate (vs_tlb t) v w of Hit pa \<Rightarrow> Some (Inr pa, t)
        | trap \<Rightarrow> do { (r, s1) \<leftarrow> k (trap_type trap w) v t; (case r of Some e \<Rightarrow> Some (Inl e, s1) | None \<Rightarrow> acc k w v s1) }) = Some z"
      and k: "k = h" "w = wr" "v = va"
    show "P t z"
    proof (cases "\<exists>pa. mmu_translate (vs_tlb t) va wr = Hit pa")
      case True
      then obtain pa where Hit: "mmu_translate (vs_tlb t) va wr = Hit pa" by blast
      then show ?thesis using r hit [OF Hit] k by auto
    next
      case False
      then obtain tr where tr: "mmu_translate (vs_tlb t) va wr = tr" "tr = Miss \<or> tr = Modify"
        by (cases "mmu_translate (vs_tlb t) va wr") auto
      then obtain res s1 where h: "h (trap_type tr wr) va t = Some (res, s1)"
        and rest: "(case res of Some e \<Rightarrow> Some (Inl e, s1) | None \<Rightarrow> acc h wr va s1) = Some z"
        using r k by (auto simp: bind_eq_Some_conv)
      show ?thesis
      proof (cases res)
        case (Some e)
        then show ?thesis using refused [OF tr, of e s1] h rest by simp
      next
        case None
        then have "acc h wr va s1 = Some z" using rest by simp
        then have "P s1 z" using IH by blast
        then show ?thesis using served [OF tr, of s1 z] h None by simp
      qed
    qed
  qed
  then show ?thesis by blast
qed

text \<open>n bytes of a buffer, stored at consecutive physical addresses.\<close>

definition mem_put :: "paddr_t \<Rightarrow> nat \<Rightarrow> page \<Rightarrow> (paddr_t \<Rightarrow> u8) \<Rightarrow> paddr_t \<Rightarrow> u8" where
  "mem_put pa n buf m = (\<lambda>x. if unat (x - pa) < n then buf (unat (x - pa)) else m x)"

definition mem_get :: "paddr_t \<Rightarrow> (paddr_t \<Rightarrow> u8) \<Rightarrow> page" where
  "mem_get pa m = (\<lambda>i. m (pa + of_nat i))"

abbreviation page_room :: "vaddr_t \<Rightarrow> nat" where
  "page_room va \<equiv> PAGE_BYTES - unat (va AND 0xfff)"

lemma page_room_pos: "0 < page_room va"
  by (simp add: page_off_unat)

function user_write :: "handler \<Rightarrow> vaddr_t \<Rightarrow> nat \<Rightarrow> page \<Rightarrow> vmstate \<Rightarrow> (status \<times> vmstate) option" where
  "user_write h va n buf s =
     (if n = 0 then Some (None, s)
      else do {
        let c = min n (page_room va);
        (r, s1) \<leftarrow> access h True va s;
        (case r of
           Inl e \<Rightarrow> Some (Some e, s1)
         | Inr pa \<Rightarrow>
             user_write h (va + of_nat c) (n - c) (\<lambda>i. buf (i + c))
               (s1\<lparr>vs_mem := mem_put pa c buf (vs_mem s1)\<rparr>))
      })"
  by pat_completeness auto
termination
proof (relation "measure (\<lambda>(_, _, n, _, _). n)")
  fix va :: vaddr_t and n c :: nat
  assume "n \<noteq> 0" "c = min n (page_room va)"
  then have "n - c < n" using page_room_pos [of va] by simp
  then show "((h, va + of_nat c, n - c, b, s2), (h, va, n, buf, s)) \<in> measure (\<lambda>(_, _, n, _, _). n)"
    for h :: handler and b buf :: page and s s2 :: vmstate by simp
qed simp

function user_read :: "handler \<Rightarrow> vaddr_t \<Rightarrow> nat \<Rightarrow> vmstate \<Rightarrow> ((errno + page) \<times> vmstate) option" where
  "user_read h va n s =
     (if n = 0 then Some (Inr (\<lambda>_. 0), s)
      else do {
        let c = min n (page_room va);
        (r, s1) \<leftarrow> access h False va s;
        (case r of
           Inl e \<Rightarrow> Some (Inl e, s1)
         | Inr pa \<Rightarrow> do {
             (r2, s2) \<leftarrow> user_read h (va + of_nat c) (n - c) s1;
             (case r2 of
                Inl e \<Rightarrow> Some (Inl e, s2)
              | Inr rest \<Rightarrow> Some (Inr (\<lambda>i. if i < c then mem_get pa (vs_mem s1) i else rest (i - c)), s2))
           })
      })"
  by pat_completeness auto
termination
proof (relation "measure (\<lambda>(_, _, n, _). n)")
  fix va :: vaddr_t and n c :: nat
  assume "n \<noteq> 0" "c = min n (page_room va)"
  then have "n - c < n" using page_room_pos [of va] by simp
  then show "((h, va + of_nat c, n - c, s2), (h, va, n, s)) \<in> measure (\<lambda>(_, _, n, _). n)"
    for h :: handler and s s2 :: vmstate by simp
qed simp

declare user_write.simps [simp del] user_read.simps [simp del]

subsection \<open>kern/vm/copyinout.c\<close>

definition copycheck :: "vaddr_t \<Rightarrow> u32 \<Rightarrow> errno + u32" where
  "copycheck userptr len =
     (let bot = userptr; top = bot + len - 1 in
      if top < bot then Inl EFAULT
      else if USERSPACETOP \<le> bot then Inl EFAULT
      else if USERSPACETOP \<le> top then Inr (USERSPACETOP - bot)
      else Inr len)"

text \<open>
  A fault that the handler refuses, while tm_badfaultfunc is set, returns EFAULT. The field and the
  jump buffer are not part of the state: every copy here runs with them set. In the code a copy
  nested in the fault handler resets the field when it ends, so that a refusal later in the outer
  copy is a panic; the copies of the fault handler are all of pages of the process, which it does
  not refuse.
\<close>

definition copyin :: "handler \<Rightarrow> vaddr_t \<Rightarrow> u32 \<Rightarrow> vmstate \<Rightarrow> ((errno + page) \<times> vmstate) option" where
  "copyin h usersrc len s =
     (case copycheck usersrc len of
        Inl e \<Rightarrow> Some (Inl e, s)
      | Inr stoplen \<Rightarrow>
          if stoplen \<noteq> len then Some (Inl EFAULT, s)
          else do {
            (r, s1) \<leftarrow> user_read h usersrc (unat len) s;
            (case r of
               Inl _ \<Rightarrow> Some (Inl EFAULT, s1)
             | Inr buf \<Rightarrow> Some (Inr buf, s1))
          })"

definition copyout :: "handler \<Rightarrow> page \<Rightarrow> vaddr_t \<Rightarrow> u32 \<Rightarrow> vmstate \<Rightarrow> (status \<times> vmstate) option" where
  "copyout h src userdest len s =
     (case copycheck userdest len of
        Inl e \<Rightarrow> Some (Some e, s)
      | Inr stoplen \<Rightarrow>
          if stoplen \<noteq> len then Some (Some EFAULT, s)
          else do {
            (r, s1) \<leftarrow> user_write h userdest (unat len) src s;
            (case r of
               Some _ \<Rightarrow> Some (Some EFAULT, s1)
             | None \<Rightarrow> Some (None, s1))
          })"

text \<open>copystr on the readable source bytes: the string with its terminator, or the error.\<close>

function copystr :: "(nat \<Rightarrow> u8) \<Rightarrow> nat \<Rightarrow> nat \<Rightarrow> nat \<Rightarrow> u8 list \<Rightarrow> errno + u8 list" where
  "copystr src maxlen stoplen i dest =
     (if i < maxlen \<and> i < stoplen
      then if src i = 0 then Inr (dest @ [src i])
           else copystr src maxlen stoplen (Suc i) (dest @ [src i])
      else if stoplen < maxlen then Inl EFAULT else Inl ENAMETOOLONG)"
  by pat_completeness auto
termination by (relation "measure (\<lambda>(_, maxlen, _, i, _). maxlen - i)") auto

declare copystr.simps [simp del]

text \<open>The bytes of a user string are fetched one at a time; a refused fault is EFAULT.\<close>

function copyinstr_loop ::
  "handler \<Rightarrow> vaddr_t \<Rightarrow> nat \<Rightarrow> nat \<Rightarrow> nat \<Rightarrow> u8 list \<Rightarrow> vmstate \<Rightarrow> ((errno + u8 list) \<times> vmstate) option" where
  "copyinstr_loop h src maxlen stoplen i dest s =
     (if i < maxlen \<and> i < stoplen
      then do {
        (r, s1) \<leftarrow> access h False (src + of_nat i) s;
        (case r of
           Inl _ \<Rightarrow> Some (Inl EFAULT, s1)
         | Inr pa \<Rightarrow>
             (let b = vs_mem s1 pa in
              if b = 0 then Some (Inr (dest @ [b]), s1)
              else copyinstr_loop h src maxlen stoplen (Suc i) (dest @ [b]) s1))
      }
      else Some (Inl (if stoplen < maxlen then EFAULT else ENAMETOOLONG), s))"
  by pat_completeness auto
termination by (relation "measure (\<lambda>(_, _, maxlen, _, i, _, _). maxlen - i)") auto

declare copyinstr_loop.simps [simp del]

definition copyinstr :: "handler \<Rightarrow> vaddr_t \<Rightarrow> u32 \<Rightarrow> vmstate \<Rightarrow> ((errno + u8 list) \<times> vmstate) option" where
  "copyinstr h usersrc len s =
     (case copycheck usersrc len of
        Inl e \<Rightarrow> Some (Inl e, s)
      | Inr stoplen \<Rightarrow> copyinstr_loop h usersrc (unat len) (unat stoplen) 0 [] s)"

function copyoutstr_loop ::
  "handler \<Rightarrow> (nat \<Rightarrow> u8) \<Rightarrow> vaddr_t \<Rightarrow> nat \<Rightarrow> nat \<Rightarrow> nat \<Rightarrow> vmstate \<Rightarrow> ((errno + nat) \<times> vmstate) option" where
  "copyoutstr_loop h src dest maxlen stoplen i s =
     (if i < maxlen \<and> i < stoplen
      then do {
        (r, s1) \<leftarrow> access h True (dest + of_nat i) s;
        (case r of
           Inl _ \<Rightarrow> Some (Inl EFAULT, s1)
         | Inr pa \<Rightarrow>
             (let s2 = s1\<lparr>vs_mem := (vs_mem s1)(pa := src i)\<rparr> in
              if src i = 0 then Some (Inr (Suc i), s2)
              else copyoutstr_loop h src dest maxlen stoplen (Suc i) s2))
      }
      else Some (Inl (if stoplen < maxlen then EFAULT else ENAMETOOLONG), s))"
  by pat_completeness auto
termination by (relation "measure (\<lambda>(_, _, _, maxlen, _, i, _). maxlen - i)") auto

declare copyoutstr_loop.simps [simp del]

definition copyoutstr :: "handler \<Rightarrow> (nat \<Rightarrow> u8) \<Rightarrow> vaddr_t \<Rightarrow> u32 \<Rightarrow> vmstate \<Rightarrow> ((errno + nat) \<times> vmstate) option" where
  "copyoutstr h src userdest len s =
     (case copycheck userdest len of
        Inl e \<Rightarrow> Some (Inl e, s)
      | Inr stoplen \<Rightarrow> copyoutstr_loop h src userdest (unat len) (unat stoplen) 0 s)"

end
