(* ===== verification/Vminv.thy ===== *)
theory Vminv
  imports Vm
begin

text \<open>
  Correctness of the page-fault handler: the invariant vm_inv that ties page table, coremap,
  TLB and swap space together, the abstract view of a process's memory (one array of 4096
  bytes per page, wherever the bytes are), and the proof that a fault keeps both.
\<close>

subsection \<open>The walk of the fault handler\<close>

lemma stat_inc_Some [simp]:
  "pos < TOT_COUNTERS \<Longrightarrow> stat_inc pos s = Some (s\<lparr>vs_stats := (vs_stats s)(pos := vs_stats s pos + 1)\<rparr>)"
  by (simp add: stat_inc_def)

text \<open>A search in a chain depends only on the page addresses, and finds the entry it names.\<close>

lemma pt_node_page_cong:
  assumes "map pte_page pt = map pte_page pt'"
  shows "map_option pte_page (pt_node pt d) = map_option pte_page (pt_node pt' d)"
proof -
  have l: "length pt = length pt'" using assms by (rule map_eq_imp_length_eq)
  have "pte_page (pt ! i) = pte_page (pt' ! i)" if "i < length pt" for i
    using assms that l by (metis nth_map)
  then show ?thesis by (auto simp: pt_node_def l)
qed

lemma pte_scan_unfold:
  "pte_scan pt d i n va =
     (if i \<le> n
      then (case map_option pte_page (pt_node pt d) of
              None \<Rightarrow> None
            | Some p \<Rightarrow> if va = p then Some (Some (i, d)) else pte_scan pt (d - 1) (i + 1) n va)
      else Some None)"
  by (subst pte_scan.simps) (cases "pt_node pt d"; simp)

lemma pte_scan_cong:
  assumes "map pte_page pt = map pte_page pt'"
  shows "pte_scan pt d i n va = pte_scan pt' d i n va"
proof (induction "n + 1 - i" arbitrary: i d rule: less_induct)
  case less
  show ?case
  proof (cases "i \<le> n")
    case False
    then show ?thesis by (subst (1 2) pte_scan_unfold) simp
  next
    case True
    then have "pte_scan pt (d - 1) (i + 1) n va = pte_scan pt' (d - 1) (i + 1) n va"
      by (intro less) simp
    then show ?thesis
      by (subst (1 2) pte_scan_unfold) (simp only: pt_node_page_cong [OF assms])
  qed
qed

lemma pte_scan_Some:
  "pte_scan pt d i n va = Some (Some (j, e)) \<Longrightarrow>
   i \<le> j \<and> j \<le> n \<and> e = d - (j - i) \<and> map_option pte_page (pt_node pt e) = Some va"
proof (induction "n + 1 - i" arbitrary: i d rule: less_induct)
  case less
  have i: "i \<le> n" using less.prems by (subst (asm) pte_scan_unfold) (simp split: if_splits)
  show ?case
  proof (cases "map_option pte_page (pt_node pt d) = Some va")
    case True
    with less.prems i show ?thesis by (subst (asm) pte_scan_unfold) simp
  next
    case False
    with less.prems i have r: "pte_scan pt (d - 1) (i + 1) n va = Some (Some (j, e))"
      by (subst (asm) pte_scan_unfold) (auto split: option.splits if_splits)
    have "i + 1 \<le> j \<and> j \<le> n \<and> e = d - 1 - (j - (i + 1)) \<and> map_option pte_page (pt_node pt e) = Some va"
      by (rule less.hyps) (use r i in simp_all)
    then show ?thesis by auto
  qed
qed

text \<open>In a well-shaped segment the walk never runs off the chain.\<close>

lemma pte_scan_total:
  assumes "\<forall>k < m. pt_node pt (d - k) \<noteq> None" "n + 1 - i \<le> m"
  shows "pte_scan pt d i n va \<noteq> None"
  using assms
proof (induction m arbitrary: d i)
  case 0
  then show ?case by (subst pte_scan_unfold) simp
next
  case (Suc m)
  have "\<forall>k < m. pt_node pt (d - 1 - k) \<noteq> None"
  proof (intro allI impI)
    fix k assume "k < m"
    then have "pt_node pt (d - Suc k) \<noteq> None" using Suc.prems(1) by blast
    then show "pt_node pt (d - 1 - k) \<noteq> None" by simp
  qed
  moreover have "n + 1 - (i + 1) \<le> m" using Suc.prems(2) by simp
  ultimately have "pte_scan pt (d - 1) (i + 1) n va \<noteq> None" by (rule Suc.IH)
  moreover have "pt_node pt d \<noteq> None" using Suc.prems(1) by (metis diff_zero zero_less_Suc)
  ultimately show ?case by (subst pte_scan_unfold) (auto split: option.splits)
qed

lemma seg_ok_scan_total:
  assumes "seg_ok pt seg"
  shows "pte_scan pt (sg_first_pte seg) 1 (sg_npages seg) va \<noteq> None"
  by (rule pte_scan_total [of "sg_npages seg"]) (use assms in \<open>auto simp: seg_ok_def\<close>)

lemma seg_lookup_Some: "seg_lookup segs va = Some seg \<Longrightarrow> seg \<in> set segs"
  by (induction segs) (auto simp: Let_def split: if_splits)

text \<open>Where the handler finds a page: the segment, the page's number in it, and its entry.\<close>

definition lookup :: "addrspace \<Rightarrow> vaddr_t \<Rightarrow> (segment_entry \<times> nat \<times> nat) option" where
  "lookup as va = do {
     seg \<leftarrow> seg_lookup (as_segments as) va;
     found \<leftarrow> pte_scan (as_pt as) (sg_first_pte seg) 1 (sg_npages seg) va;
     (i, d) \<leftarrow> found;
     Some (seg, i, d)
   }"

lemma lookup_cong:
  assumes "as_segments as = as_segments as'" "map pte_page (as_pt as) = map pte_page (as_pt as')"
  shows "lookup as va = lookup as' va"
  unfolding lookup_def assms(1) pte_scan_cong [OF assms(2)] ..

lemma lookup_Some:
  assumes "lookup as va = Some (seg, i, d)"
  shows "seg_lookup (as_segments as) va = Some seg" "seg \<in> set (as_segments as)"
    "pte_scan (as_pt as) (sg_first_pte seg) 1 (sg_npages seg) va = Some (Some (i, d))"
    "1 \<le> i" "i \<le> sg_npages seg" "d = sg_first_pte seg - (i - 1)"
    "map_option pte_page (pt_node (as_pt as) d) = Some va"
proof -
  show s: "seg_lookup (as_segments as) va = Some seg"
    and p: "pte_scan (as_pt as) (sg_first_pte seg) 1 (sg_npages seg) va = Some (Some (i, d))"
    using assms by (auto simp: lookup_def bind_eq_Some_conv)
  show "seg \<in> set (as_segments as)" using s by (rule seg_lookup_Some)
  show "1 \<le> i" "i \<le> sg_npages seg" "d = sg_first_pte seg - (i - 1)"
    "map_option pte_page (pt_node (as_pt as) d) = Some va"
    using pte_scan_Some [OF p] by blast+
qed

lemma pt_node_in: "pt_node pt d = Some e \<Longrightarrow> 0 < d \<and> d \<le> length pt \<and> e = pt ! (length pt - d) \<and> e \<in> set pt"
  by (auto simp: pt_node_def split: if_splits)

text \<open>The handler's dispatch once the walk is done.\<close>

lemma vm_fault_body_found:
  assumes "ft = VM_FAULT_READ \<or> ft = VM_FAULT_WRITE" "vs_curproc s" "vs_as s = Some a"
    and "lookup (vs_space s) (va AND PAGE_FRAME) = Some (seg, i, d)" "pt_node (cur_pt s) d = Some e"
  shows "vm_fault_body h ft va s =
    (let s1 = s\<lparr>vs_stats := (vs_stats s)(TLB_FAULT := vs_stats s TLB_FAULT + 1)\<rparr>; fa = va AND PAGE_FRAME in
     if pte_in_mem e then fault_in_mem seg e fa s1
     else if pte_in_swap e then fault_in_swap h a seg d fa s1
     else fault_first h a seg i d fa s1)"
  using assms(1-3,5) lookup_Some(1,3) [OF assms(4)] by (auto simp: vm_fault_body_def Let_def)

lemma vm_fault_body_missing:
  assumes "ft = VM_FAULT_READ \<or> ft = VM_FAULT_WRITE" "vs_curproc s" "vs_as s = Some a"
    and "lookup (vs_space s) (va AND PAGE_FRAME) = None" "as_wf (vs_space s)"
  shows "vm_fault_body h ft va s =
    Some (Some EFAULT, s\<lparr>vs_stats := (vs_stats s)(TLB_FAULT := vs_stats s TLB_FAULT + 1)\<rparr>)"
proof (cases "seg_lookup (as_segments (vs_space s)) (va AND PAGE_FRAME)")
  case None
  with assms(1-3) show ?thesis by (auto simp: vm_fault_body_def Let_def)
next
  case (Some seg)
  then have "seg_ok (cur_pt s) seg" using assms(5) seg_lookup_Some by (auto simp: as_wf_def)
  from seg_ok_scan_total [OF this]
  obtain r where r: "pte_scan (cur_pt s) (sg_first_pte seg) 1 (sg_npages seg) (va AND PAGE_FRAME) = Some r" by blast
  with Some assms(4) have "r = None" by (cases r) (auto simp: lookup_def)
  with r Some assms(1-3) show ?thesis by (auto simp: vm_fault_body_def Let_def)
qed

subsection \<open>Touching a page that is in memory\<close>

text \<open>A TLB entry is either one of the invalid ones or maps a page to the frame the page table says.\<close>

definition tlb_coherent :: "tlb \<Rightarrow> pt_entry list \<Rightarrow> bool" where
  "tlb_coherent t pt \<longleftrightarrow> (\<forall>e \<in> set (tlb_slots t).
     (snd e AND TLBLO_VALID = 0 \<and> 0x80000000 \<le> unat (slot_page e)) \<or>
     (snd e AND TLBLO_VALID \<noteq> 0 \<and>
      (\<exists>p \<in> set pt. pte_in_mem p \<and> pte_page p = slot_page e \<and> snd e AND TLBLO_PPAGE = pte_frame p)))"

definition resident :: "vmstate \<Rightarrow> vaddr_t \<Rightarrow> pt_entry \<Rightarrow> bool" where
  "resident s va e \<longleftrightarrow> vs_curproc s \<and> vs_as s \<noteq> NULL \<and> as_wf (vs_space s) \<and> tlb_wf (vs_tlb s) \<and>
     tlb_coherent (vs_tlb s) (cur_pt s) \<and>
     (\<exists>seg i d. lookup (vs_space s) va = Some (seg, i, d) \<and> pt_node (cur_pt s) d = Some e) \<and>
     pte_in_mem e \<and> pte_frame e AND PAGE_FRAME = pte_frame e \<and>
     frame_pos (vs_cmap s) (pte_frame e) < ram_frames (vs_cmap s)"

abbreviation (input) frame_entry :: "vmstate \<Rightarrow> pt_entry \<Rightarrow> cm_entry" where
  "frame_entry s e \<equiv> cm_entries (vs_cmap s) ! frame_pos (vs_cmap s) (pte_frame e)"

lemma resident_page:
  assumes "resident s va e"
  shows "e \<in> set (cur_pt s)" "pte_page e = va" "va AND PAGE_FRAME = va" "unat va < 0x80000000" "pte_in_mem e"
proof -
  obtain seg i d where l: "lookup (vs_space s) va = Some (seg, i, d)" and n: "pt_node (cur_pt s) d = Some e"
    using assms unfolding resident_def by blast
  show e: "e \<in> set (cur_pt s)" using pt_node_in [OF n] by blast
  show p: "pte_page e = va" using lookup_Some(7) [OF l] n by simp
  have "user_page va" using assms e p unfolding resident_def as_wf_def by blast
  then show "va AND PAGE_FRAME = va" "unat va < 0x80000000"
    unfolding user_page_def page_frame_id by blast+
  show "pte_in_mem e" using assms unfolding resident_def by blast
qed

text \<open>What a step may change when it only touches a resident page.\<close>

definition tlb_moved :: "vmstate \<Rightarrow> vmstate \<Rightarrow> bool" where
  "tlb_moved s s' \<longleftrightarrow> (\<exists>t st. s' = s\<lparr>vs_tlb := t, vs_stats := st\<rparr> \<and> tlb_wf t \<and> tlb_coherent t (cur_pt s))"

lemma tlb_movedD:
  "tlb_moved s s' \<Longrightarrow> vs_cmap s' = vs_cmap s \<and> vs_swap s' = vs_swap s \<and> vs_mem s' = vs_mem s \<and>
     vs_files s' = vs_files s \<and> vs_swap_io s' = vs_swap_io s \<and> vs_elf_io s' = vs_elf_io s \<and> vs_vnrefs s' = vs_vnrefs s \<and> vs_curproc s' = vs_curproc s \<and>
     vs_as s' = vs_as s \<and> vs_space s' = vs_space s \<and> tlb_wf (vs_tlb s') \<and> tlb_coherent (vs_tlb s') (cur_pt s')"
  by (auto simp: tlb_moved_def)

lemma tlb_moved_trans: "tlb_moved s s1 \<Longrightarrow> tlb_moved s1 s2 \<Longrightarrow> tlb_moved s s2"
  unfolding tlb_moved_def by (elim exE conjE, intro exI conjI) simp_all

lemma tlb_moved_refl: "tlb_wf (vs_tlb s) \<Longrightarrow> tlb_coherent (vs_tlb s) (cur_pt s) \<Longrightarrow> tlb_moved s s"
  unfolding tlb_moved_def by (intro exI [of _ "vs_tlb s"] exI [of _ "vs_stats s"]) simp

lemma resident_moved: "tlb_moved s s' \<Longrightarrow> resident s va e \<Longrightarrow> resident s' va e"
  unfolding resident_def by (frule tlb_movedD) (elim conjE, simp)

text \<open>Installing the mapping of a page that is in memory keeps the TLB coherent.\<close>

lemma tlbW_coherent:
  assumes "tlb_wf t" "tlb_coherent t pt" "e \<in> set pt" "pte_in_mem e" "pte_page e = va"
    and "va AND PAGE_FRAME = va" "pte_frame e AND PAGE_FRAME = pte_frame e"
    and "tlbW va (pte_frame e) w t st = Some (t', st')"
  shows "tlb_coherent t' pt"
proof (rule tlbW_cases [OF assms(1), of va "pte_frame e" w st])
  fix i t1
  assume i: "i < NUM_TLB" "tlb_slots t1 = tlb_slots t"
    and r: "tlbW va (pte_frame e) w t st = Some (tlb_write va (tlbW_elo (pte_frame e) w) i t1,
      st(tlbW_counter va t := st (tlbW_counter va t) + 1))"
  from r assms(8) have t': "tlb_slots t' = (tlb_slots t)[i := (va, tlbW_elo (pte_frame e) w)]"
    using i by (auto simp: tlb_write_def)
  show ?thesis
    unfolding tlb_coherent_def t'
  proof
    fix x assume "x \<in> set ((tlb_slots t)[i := (va, tlbW_elo (pte_frame e) w)])"
    then consider "x = (va, tlbW_elo (pte_frame e) w)" | "x \<in> set (tlb_slots t)"
      using set_update_subset_insert by fastforce
    then show "(snd x AND TLBLO_VALID = 0 \<and> 0x80000000 \<le> unat (slot_page x)) \<or>
     (snd x AND TLBLO_VALID \<noteq> 0 \<and>
      (\<exists>p \<in> set pt. pte_in_mem p \<and> pte_page p = slot_page x \<and> snd x AND TLBLO_PPAGE = pte_frame p))"
    proof cases
      case 1
      have "snd x AND TLBLO_VALID \<noteq> 0" unfolding 1 snd_conv tlbW_elo_bits [OF assms(7)] by simp
      moreover have "slot_page x = va" "snd x AND TLBLO_PPAGE = pte_frame e"
        unfolding 1 snd_conv fst_conv by (rule assms(6), rule tlbW_elo_bits(3) [OF assms(7)])
      ultimately show ?thesis using assms(3-5) by blast
    next
      case 2
      then show ?thesis using assms(2) unfolding tlb_coherent_def by blast
    qed
  qed
qed

text \<open>The translation of a resident page by a coherent TLB.\<close>

lemma coherent_translate:
  assumes wf: "tlb_wf t" and co: "tlb_coherent t pt" and d: "distinct (map pte_page pt)"
    and e: "e \<in> set pt" and va: "va AND PAGE_FRAME = pte_page e" "unat (pte_page e) < 0x80000000"
  shows "mmu_translate t va wr \<in> {Miss, Hit (pte_frame e OR (va AND 0xfff))} \<union> (if wr then {Modify} else {})"
proof (cases "\<exists>i < NUM_TLB. slot_page (tlb_slots t ! i) = va AND TLBHI_VPAGE")
  case False
  then have "mmu_translate t va wr = Miss"
    using wf by (intro mmu_translate_absent) (simp add: list_all_nth)
  then show ?thesis by simp
next
  case True
  then obtain i where i: "i < NUM_TLB" "slot_page (tlb_slots t ! i) = va AND TLBHI_VPAGE" by blast
  let ?e = "tlb_slots t ! i"
  have "?e \<in> set (tlb_slots t)" using i(1) wf by simp
  moreover have "\<not> 0x80000000 \<le> unat (slot_page ?e)" using i(2) va by simp
  ultimately obtain p where p: "p \<in> set pt" "pte_page p = slot_page ?e" "snd ?e AND TLBLO_PPAGE = pte_frame p"
    using co unfolding tlb_coherent_def by blast
  have "p = e" using d e p(1,2) i(2) va(1) by (metis distinct_map inj_onD)
  with p(3) show ?thesis
    unfolding mmu_translate_slot [OF wf i] Let_def by simp
qed

lemma coherent_no_entry:
  assumes "tlb_wf t" "tlb_coherent t pt" "va AND PAGE_FRAME = va" "unat va < 0x80000000"
    and "\<forall>p \<in> set pt. pte_page p = va \<longrightarrow> \<not> pte_in_mem p"
  shows "tlb_probe va t = None"
  unfolding tlb_probe_None
proof
  fix x assume "x \<in> set (tlb_slots t)"
  then have "0x80000000 \<le> unat (slot_page x) \<or> (\<exists>p \<in> set pt. pte_in_mem p \<and> pte_page p = slot_page x)"
    using assms(2) unfolding tlb_coherent_def by blast
  then show "slot_page x \<noteq> va AND TLBHI_VPAGE" using assms(3-5) by auto
qed

text \<open>A fault on a resident page reloads the TLB and does nothing else.\<close>

lemma fault_resident:
  assumes r: "resident s va e" and f: "x AND PAGE_FRAME = va" and ft: "ft = VM_FAULT_READ \<or> ft = VM_FAULT_WRITE"
  defines "w \<equiv> if cme_state (frame_entry s e) = LOADING then 2
    else (case lookup (vs_space s) va of Some (seg, _) \<Rightarrow> perm_write (sg_permission seg) | None \<Rightarrow> 0)"
  shows "\<exists>s'. vm_fault (Suc n) ft x s = Some (None, s') \<and> tlb_moved s s' \<and>
    mmu_translate (vs_tlb s') x False = Hit (pte_frame e OR (x AND 0xfff)) \<and>
    mmu_translate (vs_tlb s') x True = (if 0 < w then Hit (pte_frame e OR (x AND 0xfff)) else Modify)"
proof -
  obtain seg i d where l: "lookup (vs_space s) va = Some (seg, i, d)" and nd: "pt_node (cur_pt s) d = Some e"
    using r unfolding resident_def by blast
  note pg = resident_page [OF r]
  obtain a where cur: "vs_curproc s" "vs_as s = Some a" and wf: "tlb_wf (vs_tlb s)" "tlb_coherent (vs_tlb s) (cur_pt s)"
    and al: "pte_frame e AND PAGE_FRAME = pte_frame e"
    and pos: "frame_pos (vs_cmap s) (pte_frame e) < ram_frames (vs_cmap s)"
    using r unfolding resident_def by blast
  define st where "st = ((vs_stats s)(TLB_FAULT := vs_stats s TLB_FAULT + 1))(TLB_RELOAD := vs_stats s TLB_RELOAD + 1)"
  obtain t' st' where t': "tlbW va (pte_frame e) w (vs_tlb s) st = Some (t', st')"
    using tlbW_total [OF wf(1)] by blast
  let ?s' = "s\<lparr>vs_tlb := t', vs_stats := st'\<rparr>"
  have w': "w = (if cme_state (frame_entry s e) = LOADING then 2 else perm_write (sg_permission seg))"
    unfolding w_def l by simp
  have "vm_fault (Suc n) ft x s = Some (None, ?s')"
    unfolding vm_fault.simps vm_fault_body_found [OF ft cur l [folded f] nd]
    using pg(5) pos t' [unfolded w' st_def]
    by (simp add: Let_def fault_in_mem_def f cm_check_state_def tlb_store_def)
  moreover have "tlb_moved s ?s'"
    unfolding tlb_moved_def
    using tlbW_wf [OF wf(1) t'] tlbW_coherent [OF wf pg(1,5,2,3) al t'] by blast
  moreover have "mmu_translate t' x False = Hit (pte_frame e OR (x AND 0xfff)) \<and>
    mmu_translate t' x True = (if 0 < w then Hit (pte_frame e OR (x AND 0xfff)) else Modify)"
    using tlbW_mmu [OF wf(1) al t', of x] f pg(3) by simp
  ultimately show ?thesis by (intro exI [of _ ?s']) simp
qed

text \<open>So a load from a resident page returns its frame, and a store too while it may be written.\<close>

definition writable_now :: "vmstate \<Rightarrow> vaddr_t \<Rightarrow> pt_entry \<Rightarrow> bool" where
  "writable_now s va e \<longleftrightarrow> cme_state (frame_entry s e) = LOADING \<and> mmu_translate (vs_tlb s) va True \<noteq> Modify"

lemma mmu_page_cong:
  assumes "tlb_wf t" "x AND PAGE_FRAME = y AND PAGE_FRAME"
  shows "mmu_translate t x wr = Modify \<longleftrightarrow> mmu_translate t y wr = Modify"
  using assms(2) by (simp add: mmu_translate_def tlb_probe_cong [OF assms(2)] Let_def split: option.splits)

lemma access_resident:
  assumes r: "resident s va e" and f: "x AND PAGE_FRAME = va" and w: "wr \<longrightarrow> writable_now s va e"
  shows "\<exists>s'. access (vm_fault (Suc n)) wr x s = Some (Inr (pte_frame e OR (x AND 0xfff)), s') \<and>
    tlb_moved s s' \<and> (wr \<longrightarrow> writable_now s' va e)"
proof -
  note pg = resident_page [OF r]
  have wf: "tlb_wf (vs_tlb s)" "tlb_coherent (vs_tlb s) (cur_pt s)" "distinct (map pte_page (cur_pt s))"
    using r unfolding resident_def as_wf_def by blast+
  have no_mod: "mmu_translate (vs_tlb s) x wr \<noteq> Modify"
  proof (cases wr)
    case True
    with w have "mmu_translate (vs_tlb s) va True \<noteq> Modify" unfolding writable_now_def by blast
    then show ?thesis using mmu_page_cong [OF wf(1), of x va True] f pg(3) True by simp
  next
    case False
    with coherent_translate [OF wf pg(1), of x wr] f pg(2,4) show ?thesis by auto
  qed
  then consider "mmu_translate (vs_tlb s) x wr = Hit (pte_frame e OR (x AND 0xfff))"
    | "mmu_translate (vs_tlb s) x wr = Miss"
    using coherent_translate [OF wf pg(1), of x wr] f pg(2,4) by (auto split: if_splits)
  then show ?thesis
  proof cases
    case 1
    then show ?thesis using w tlb_moved_refl [OF wf(1,2)] access_hit_now [OF 1] by auto
  next
    case 2
    let ?ft = "if wr then VM_FAULT_WRITE else VM_FAULT_READ"
    have ft: "?ft = VM_FAULT_READ \<or> ?ft = VM_FAULT_WRITE" by simp
    obtain s' where s': "vm_fault (Suc n) ?ft x s = Some (None, s')" "tlb_moved s s'"
      and rd: "mmu_translate (vs_tlb s') x False = Hit (pte_frame e OR (x AND 0xfff))"
      and wt: "mmu_translate (vs_tlb s') x True =
        (if 0 < (if cme_state (frame_entry s e) = LOADING then 2
             else (case lookup (vs_space s) va of Some (seg, _) \<Rightarrow> perm_write (sg_permission seg) | None \<Rightarrow> 0))
         then Hit (pte_frame e OR (x AND 0xfff)) else Modify)"
      using fault_resident [OF r f ft, of n] by blast
    have hit: "mmu_translate (vs_tlb s') x wr = Hit (pte_frame e OR (x AND 0xfff))"
      using rd wt w by (cases wr) (simp_all add: writable_now_def)
    have "writable_now s' va e" if wr
    proof -
      have "mmu_translate (vs_tlb s') va True \<noteq> Modify"
        using mmu_page_cong [of "vs_tlb s'" x va True] hit f pg(3) that tlb_movedD [OF s'(2)] by simp
      then show ?thesis using w that tlb_movedD [OF s'(2)] by (simp add: writable_now_def)
    qed
    moreover have "access (vm_fault (Suc n)) wr x s = Some (Inr (pte_frame e OR (x AND 0xfff)), s')"
      using access_trap [OF 2] s'(1) access_hit_now [OF hit] by (cases wr) (simp_all add: trap_type_def)
    ultimately show ?thesis using s'(2) by blast
  qed
qed

subsection \<open>Copies within a resident page\<close>

lemma user_write_resident:
  assumes r: "resident s va e" and f: "x AND PAGE_FRAME = va" and w: "writable_now s va e"
    and n: "n \<le> page_room x"
  shows "\<exists>s'. user_write (vm_fault (Suc m)) x n buf s =
      Some (None, s'\<lparr>vs_mem := mem_put (pte_frame e OR (x AND 0xfff)) n buf (vs_mem s)\<rparr>) \<and>
    tlb_moved s s' \<and> writable_now s' va e"
proof (cases "n = 0")
  case True
  have "mem_put p 0 buf (vs_mem s) = vs_mem s" for p by (simp add: mem_put_def)
  moreover have "tlb_moved s s" using r by (intro tlb_moved_refl) (auto simp: resident_def)
  ultimately show ?thesis using True w by (intro exI [of _ s]) (simp add: user_write.simps)
next
  case False
  obtain s' where s': "access (vm_fault (Suc m)) True x s = Some (Inr (pte_frame e OR (x AND 0xfff)), s')"
    "tlb_moved s s'" "writable_now s' va e"
    using access_resident [OF r f, of True m] w by blast
  have c: "min n (page_room x) = n" using n by simp
  have "user_write (vm_fault (Suc m)) x n buf s =
      user_write (vm_fault (Suc m)) (x + of_nat n) 0 (\<lambda>i. buf (i + n))
        (s'\<lparr>vs_mem := mem_put (pte_frame e OR (x AND 0xfff)) n buf (vs_mem s')\<rparr>)"
    by (subst user_write.simps) (simp only: False c s'(1) Let_def if_False Option.bind.bind_lunit
        prod.case sum.case diff_self_eq_0)
  also have "\<dots> = Some (None, s'\<lparr>vs_mem := mem_put (pte_frame e OR (x AND 0xfff)) n buf (vs_mem s)\<rparr>)"
    using tlb_movedD [OF s'(2)] by (simp add: user_write.simps)
  finally show ?thesis using s'(2,3) by blast
qed

lemma user_read_resident:
  assumes r: "resident s va e" and f: "x AND PAGE_FRAME = va" and n: "n \<le> page_room x"
  shows "\<exists>s'. user_read (vm_fault (Suc m)) x n s =
      Some (Inr (\<lambda>i. if i < n then mem_get (pte_frame e OR (x AND 0xfff)) (vs_mem s) i else 0), s') \<and>
    tlb_moved s s'"
proof (cases "n = 0")
  case True
  have "tlb_moved s s" using r by (intro tlb_moved_refl) (auto simp: resident_def)
  then show ?thesis using True by (intro exI [of _ s]) (simp add: user_read.simps)
next
  case False
  obtain s' where s': "access (vm_fault (Suc m)) False x s = Some (Inr (pte_frame e OR (x AND 0xfff)), s')"
    "tlb_moved s s'"
    using access_resident [OF r f, of False m] by blast
  have c: "min n (page_room x) = n" using n by simp
  have z: "user_read h y 0 s' = Some (Inr (\<lambda>_. 0), s')" for h y by (simp add: user_read.simps)
  have "user_read (vm_fault (Suc m)) x n s =
      Some (Inr (\<lambda>i. if i < n then mem_get (pte_frame e OR (x AND 0xfff)) (vs_mem s') i else 0), s')"
    by (subst user_read.simps) (simp only: False c s'(1) Let_def if_False Option.bind.bind_lunit
        prod.case sum.case diff_self_eq_0 z)
  moreover have "vs_mem s' = vs_mem s" using tlb_movedD [OF s'(2)] by blast
  ultimately show ?thesis using s'(2) by (intro exI [of _ s']) (simp only: simp_thms)
qed

lemma copycheck_ok:
  assumes "0 < unat len" "unat p + unat len \<le> 0x80000000"
  shows "copycheck p len = Inr len"
proof -
  have s: "unat (p + len) = unat p + unat len" using assms(2) by (intro unat_add_u32) simp
  then have "unat (p + len - 1) = unat p + unat len - 1"
    using assms(1) by (subst unat_sub_u32) (simp_all add: word_le_nat_alt)
  then show ?thesis
    by (simp add: copycheck_def Let_def word_less_nat_alt word_le_nat_alt) (use assms in linarith)
qed

lemma in_page:
  assumes "x AND PAGE_FRAME = va" "4096 dvd unat va" "unat va < 0x80000000"
  shows "unat x = unat va + unat (x AND 0xfff)" "unat va + 4096 \<le> 0x80000000"
proof -
  show "unat x = unat va + unat (x AND 0xfff)"
    using assms(1) page_frame_unat [of x] page_off_unat [of x] by simp
  show "unat va + 4096 \<le> 0x80000000" using assms(2,3) by (auto elim!: dvdE)
qed

lemma copyout_resident:
  assumes r: "resident s va e" and f: "x AND PAGE_FRAME = va" and w: "writable_now s va e"
    and n: "0 < unat n" "unat n \<le> page_room x"
  shows "\<exists>s'. copyout (vm_fault (Suc m)) buf x n s =
      Some (None, s'\<lparr>vs_mem := mem_put (pte_frame e OR (x AND 0xfff)) (unat n) buf (vs_mem s)\<rparr>) \<and>
    tlb_moved s s' \<and> writable_now s' va e"
proof -
  note pg = resident_page [OF r]
  have "4096 dvd unat va" using pg(3) page_frame_id by blast
  from in_page [OF f this pg(4)] n have "copycheck x n = Inr n"
    by (intro copycheck_ok) (simp_all add: page_off_unat)
  with user_write_resident [OF r f w n(2), of m buf] show ?thesis
    by (auto simp: copyout_def)
qed

lemma copyin_resident:
  assumes r: "resident s va e"
  shows "\<exists>s'. copyin (vm_fault (Suc m)) va PAGE_SIZE s =
      Some (Inr (clip (mem_get (pte_frame e) (vs_mem s))), s') \<and> tlb_moved s s'"
proof -
  note pg = resident_page [OF r]
  have d: "4096 dvd unat va" using pg(3) page_frame_id by blast
  have off: "va AND 0xfff = 0" using d page_off_unat [of va] by (simp add: unat_eq_0 [symmetric])
  have "copycheck va PAGE_SIZE = Inr PAGE_SIZE"
    using in_page(2) [OF pg(3) d pg(4)] by (intro copycheck_ok) simp_all
  moreover obtain s' where "user_read (vm_fault (Suc m)) va 4096 s =
      Some (Inr (\<lambda>i. if i < 4096 then mem_get (pte_frame e) (vs_mem s) i else 0), s')" "tlb_moved s s'"
  proof -
    have "pte_frame e OR (va AND 0xfff) = pte_frame e" "4096 \<le> page_room va" by (simp_all add: off)
    then show ?thesis using that user_read_resident [OF r pg(3), of 4096 m] by (simp only:) blast
  qed
  ultimately show ?thesis by (simp add: copyin_def clip_def)
qed

subsection \<open>Frames of memory\<close>

definition frame_bytes :: "vmstate \<Rightarrow> paddr_t \<Rightarrow> page" where
  "frame_bytes s p = clip (mem_get p (vs_mem s))"

lemma aligned_or:
  assumes "p AND PAGE_FRAME = (p :: u32)"
  shows "p OR (x AND 0xfff) = p + (x AND 0xfff)"
proof -
  have "p AND (x AND 0xfff) = (p AND PAGE_FRAME) AND (x AND 0xfff)" by (simp only: assms)
  also have "\<dots> = (p AND x) AND (PAGE_FRAME AND 0xfff)" by (simp only: ac_simps)
  also have "\<dots> = 0" by simp
  finally show ?thesis by (rule disjunctive_add_eq_or [symmetric])
qed

lemma unat_diff_u32:
  "unat (x - y :: u32) = (if unat y \<le> unat x then unat x - unat y else unat x + 4294967296 - unat y)"
  by (simp add: unat_sub_if')

lemma mem_put_frame:
  assumes "unat p + 4096 \<le> 0x20000000" "k + n \<le> 4096"
  shows "clip (mem_get p (mem_put (p + of_nat k) n buf m)) =
     clip (\<lambda>i. if k \<le> i \<and> i < k + n then buf (i - k) else mem_get p m i)"
proof (rule ext)
  fix i
  show "clip (mem_get p (mem_put (p + of_nat k) n buf m)) i =
     clip (\<lambda>i. if k \<le> i \<and> i < k + n then buf (i - k) else mem_get p m i) i"
  proof (cases "i < 4096 \<and> k < 4096")
    case True
    then have u: "unat (of_nat i :: u32) = i" "unat (of_nat k :: u32) = k"
      by (simp_all add: unat_of_nat_u32)
    then have v: "unat (p + of_nat i) = unat p + i" "unat (p + of_nat k) = unat p + k"
      using True assms(1) by (simp_all add: unat_add_u32)
    have "unat (p + of_nat i - (p + of_nat k)) < n \<longleftrightarrow> k \<le> i \<and> i < k + n"
      unfolding unat_diff_u32 v using True assms by (cases "k \<le> i") auto
    moreover have "k \<le> i \<Longrightarrow> unat (p + of_nat i - (p + of_nat k)) = i - k"
      unfolding unat_diff_u32 v by simp
    ultimately show ?thesis by (auto simp: clip_def mem_get_def mem_put_def)
  next
    case False
    then have "4096 \<le> i \<or> n = 0" using assms(2) by auto
    then show ?thesis by (auto simp: clip_def mem_get_def mem_put_def)
  qed
qed

lemma mem_put_other:
  assumes "unat p + 4096 \<le> 0x20000000" "unat q + 4096 \<le> 0x20000000" "k + n \<le> 4096"
    and "unat p + 4096 \<le> unat q \<or> unat q + 4096 \<le> unat p"
  shows "clip (mem_get q (mem_put (p + of_nat k) n buf m)) = clip (mem_get q m)"
proof (rule ext)
  fix i
  show "clip (mem_get q (mem_put (p + of_nat k) n buf m)) i = clip (mem_get q m) i"
  proof (cases "i < 4096 \<and> k < 4096")
    case True
    then have u: "unat (of_nat i :: u32) = i" "unat (of_nat k :: u32) = k"
      by (simp_all add: unat_of_nat_u32)
    then have v: "unat (q + of_nat i) = unat q + i" "unat (p + of_nat k) = unat p + k"
      using True assms(1,2) by (simp_all add: unat_add_u32)
    have "\<not> unat (q + of_nat i - (p + of_nat k)) < n"
      unfolding unat_diff_u32 v using True assms by auto
    then show ?thesis by (simp add: clip_def mem_get_def mem_put_def)
  next
    case False
    then have "4096 \<le> i \<or> n = 0" using assms(3) by auto
    then show ?thesis by (auto simp: clip_def mem_get_def mem_put_def)
  qed
qed

text \<open>Two frames of the coremap do not overlap.\<close>

lemma frame_paddr_room:
  assumes "cm_range_ok c" "i < ram_frames c"
  shows "unat (frame_paddr c i) + 4096 \<le> 0x20000000"
proof -
  have "(i + 1) * 4096 \<le> ram_frames c * 4096" using assms(2) by (intro mult_le_mono1) simp
  then show ?thesis using assms frame_paddr_unat [OF assms] by (simp add: cm_range_ok_def)
qed

lemma frame_paddr_disjoint:
  assumes "cm_range_ok c" "i < ram_frames c" "j < ram_frames c" "i \<noteq> j"
  shows "unat (frame_paddr c i) + 4096 \<le> unat (frame_paddr c j) \<or>
    unat (frame_paddr c j) + 4096 \<le> unat (frame_paddr c i)"
proof (cases "i < j")
  case True
  then have "(i + 1) * 4096 \<le> j * 4096" by (intro mult_le_mono1) simp
  then show ?thesis using frame_paddr_unat [OF assms(1,2)] frame_paddr_unat [OF assms(1,3)] by simp
next
  case False
  then have "(j + 1) * 4096 \<le> i * 4096" using assms(4) by (intro mult_le_mono1) simp
  then show ?thesis using frame_paddr_unat [OF assms(1,2)] frame_paddr_unat [OF assms(1,3)] by simp
qed

subsection \<open>The invariant\<close>

text \<open>A page in memory has a frame that the coremap gives to it; the frame is CLEAN, or LOADING while
  the fault on that very page is being served (ld).\<close>

definition pt_backed :: "nat \<Rightarrow> vaddr_t option \<Rightarrow> cmap \<Rightarrow> pt_entry list \<Rightarrow> bool" where
  "pt_backed a ld c pt \<longleftrightarrow> (\<forall>e \<in> set pt. pte_in_mem e \<longrightarrow> \<not> pte_in_swap e \<and>
     (\<exists>i < ram_frames c. pte_frame e = frame_paddr c i \<and> cme_as (cm_entries c ! i) = Some a \<and>
        cme_vaddr (cm_entries c ! i) = pte_page e \<and>
        cme_state (cm_entries c ! i) = (if ld = Some (pte_page e) then LOADING else CLEAN)))"

text \<open>Every frame the coremap gives to the process backs one of its pages.\<close>

definition cm_backed :: "nat \<Rightarrow> cmap \<Rightarrow> pt_entry list \<Rightarrow> bool" where
  "cm_backed a c pt \<longleftrightarrow> (\<forall>i < ram_frames c. cme_as (cm_entries c ! i) = Some a \<longrightarrow>
     (\<exists>e \<in> set pt. pte_in_mem e \<and> pte_frame e = frame_paddr c i))"

text \<open>A page in memory can be found by the walk of the fault handler.\<close>

definition pt_reachable :: "addrspace \<Rightarrow> bool" where
  "pt_reachable as \<longleftrightarrow> (\<forall>e \<in> set (as_pt as). pte_in_mem e \<longrightarrow> lookup as (pte_page e) \<noteq> None)"

text \<open>The swap space holds exactly the pages marked in_swap, except that the one being served is open.\<close>

definition swap_match :: "nat \<Rightarrow> vaddr_t option \<Rightarrow> swap_state \<Rightarrow> pt_entry list \<Rightarrow> bool" where
  "swap_match a ld sw pt \<longleftrightarrow> (\<forall>e \<in> set pt. Some (pte_page e) \<noteq> ld \<longrightarrow>
     (pte_in_swap e \<longleftrightarrow> swap_contents sw (a, pte_page e) \<noteq> None))"

text \<open>What the loader computes with: the size and file offset of a segment fit its pages, and a
  segment smaller than a page lies within one.\<close>

definition load_geom :: "segment_entry \<Rightarrow> bool" where
  "load_geom seg \<longleftrightarrow> 0 \<le> sg_offset seg \<longrightarrow>
     0 < unat (sg_size seg) \<and> nat (sg_offset seg) + unat (sg_size seg) < 0x100000000 \<and>
     sg_npages seg = (nat (sg_offset seg) mod 4096 + unat (sg_size seg) + 4095) div 4096 \<and>
     (unat (sg_size seg) < 4096 \<longrightarrow> sg_npages seg = 1)"

definition load_ok :: "addrspace \<Rightarrow> bool" where
  "load_ok as \<longleftrightarrow> as_elf_file as \<noteq> NULL \<and> (\<forall>seg \<in> set (as_segments as). load_geom seg)"

definition vm_inv :: "nat \<Rightarrow> vaddr_t option \<Rightarrow> vmstate \<Rightarrow> bool" where
  "vm_inv a ld s \<longleftrightarrow> vs_curproc s \<and> vs_as s = Some a \<and> cm_wf (vs_cmap s) \<and> tlb_wf (vs_tlb s) \<and>
     as_wf (vs_space s) \<and> tlb_coherent (vs_tlb s) (cur_pt s) \<and> pt_backed a ld (vs_cmap s) (cur_pt s) \<and>
     cm_backed a (vs_cmap s) (cur_pt s) \<and> pt_reachable (vs_space s) \<and> swap_inv (vs_swap s) \<and>
     swap_match a ld (vs_swap s) (cur_pt s) \<and> load_ok (vs_space s)"

lemma vm_invD:
  assumes "vm_inv a ld s"
  shows "vs_curproc s" "vs_as s = Some a" "cm_wf (vs_cmap s)" "tlb_wf (vs_tlb s)" "as_wf (vs_space s)"
    "tlb_coherent (vs_tlb s) (cur_pt s)" "pt_backed a ld (vs_cmap s) (cur_pt s)"
    "cm_backed a (vs_cmap s) (cur_pt s)" "pt_reachable (vs_space s)" "swap_inv (vs_swap s)"
    "swap_match a ld (vs_swap s) (cur_pt s)" "load_ok (vs_space s)" "cm_range_ok (vs_cmap s)"
    "distinct (map pte_page (cur_pt s))"
  using assms unfolding vm_inv_def cm_wf_def as_wf_def by simp_all

subsection \<open>The process's view of its memory\<close>

text \<open>The bytes of a page before its first fault: zeros for the stack, and for a load segment the
  bytes of the executable at their place, or zeros if they cannot be read.\<close>

definition seg_image :: "u8 list \<Rightarrow> segment_entry \<Rightarrow> nat \<Rightarrow> page" where
  "seg_image f seg i = (\<lambda>off.
     let x = (i - 1) * 4096 + off; pad = nat (sg_offset seg) mod 4096 in
     if off < PAGE_BYTES \<and> pad \<le> x \<and> x < pad + unat (sg_size seg) then file_page f (sg_offset seg) (x - pad) else 0)"

definition init_page :: "vmstate \<Rightarrow> vaddr_t \<Rightarrow> page" where
  "init_page s va =
     (case lookup (vs_space s) va of
        None \<Rightarrow> (\<lambda>_. 0)
      | Some (seg, i, d) \<Rightarrow>
          if sg_offset seg < 0 then (\<lambda>_. 0)
          else (case as_elf_file (vs_space s) of
                  None \<Rightarrow> (\<lambda>_. 0)
                | Some v \<Rightarrow> if vs_elf_io s v (compute_offset (sg_offset seg) i) = None then seg_image (vs_files s v) seg i
                    else (\<lambda>_. 0)))"

definition page_view :: "nat \<Rightarrow> vmstate \<Rightarrow> pt_entry \<Rightarrow> page" where
  "page_view a s e =
     (if pte_in_mem e then frame_bytes s (pte_frame e)
      else case swap_contents (vs_swap s) (a, pte_page e) of
             Some pg \<Rightarrow> pg
           | None \<Rightarrow> init_page s (pte_page e))"

definition user_view :: "nat \<Rightarrow> vmstate \<Rightarrow> vaddr_t \<Rightarrow> page option" where
  "user_view a s = map_of (map (\<lambda>e. (pte_page e, page_view a s e)) (cur_pt s))"

lemma user_view_Some:
  assumes "distinct (map pte_page (cur_pt s))"
  shows "user_view a s va = Some pg \<longleftrightarrow> (\<exists>e \<in> set (cur_pt s). pte_page e = va \<and> pg = page_view a s e)"
proof -
  have "distinct (map fst (map (\<lambda>e. (pte_page e, page_view a s e)) (cur_pt s)))"
    using assms by (simp add: o_def)
  then have "user_view a s va = Some pg \<longleftrightarrow> (va, pg) \<in> set (map (\<lambda>e. (pte_page e, page_view a s e)) (cur_pt s))"
    unfolding user_view_def by (rule map_of_eq_Some_iff)
  then show ?thesis by auto
qed

lemma user_view_eqI:
  assumes "distinct (map pte_page (cur_pt s))" "map pte_page (cur_pt s') = map pte_page (cur_pt s)"
    and "\<And>e e'. e \<in> set (cur_pt s) \<Longrightarrow> e' \<in> set (cur_pt s') \<Longrightarrow> pte_page e = pte_page e' \<Longrightarrow>
      page_view a s e = page_view a s' e'"
  shows "user_view a s' = user_view a s"
proof (rule ext)
  fix va
  have set_eq: "pte_page ` set (cur_pt s') = pte_page ` set (cur_pt s)"
    using arg_cong [OF assms(2), of set] by simp
  have "user_view a s' va = Some pg \<longleftrightarrow> user_view a s va = Some pg" for pg
  proof -
    have "(\<exists>e \<in> set (cur_pt s'). pte_page e = va \<and> pg = page_view a s' e) \<longleftrightarrow>
      (\<exists>e \<in> set (cur_pt s). pte_page e = va \<and> pg = page_view a s e)" (is "?L \<longleftrightarrow> ?R")
    proof
      assume ?L
      then obtain e' where e': "e' \<in> set (cur_pt s')" "pte_page e' = va" "pg = page_view a s' e'" by blast
      have "pte_page e' \<in> pte_page ` set (cur_pt s)" unfolding set_eq [symmetric] by (rule imageI) (fact e'(1))
      then obtain e where e: "pte_page e' = pte_page e" "e \<in> set (cur_pt s)" by (rule imageE)
      have "page_view a s e = page_view a s' e'" by (rule assms(3) [OF e(2) e'(1) e(1) [symmetric]])
      with e e'(2,3) show ?R by (intro bexI [of _ e]) simp_all
    next
      assume ?R
      then obtain e where e: "e \<in> set (cur_pt s)" "pte_page e = va" "pg = page_view a s e" by blast
      have "pte_page e \<in> pte_page ` set (cur_pt s')" unfolding set_eq by (rule imageI) (fact e(1))
      then obtain e' where e': "pte_page e = pte_page e'" "e' \<in> set (cur_pt s')" by (rule imageE)
      have "page_view a s e = page_view a s' e'" by (rule assms(3) [OF e(1) e'(2,1)])
      with e' e(2,3) show ?L by (intro bexI [of _ e']) simp_all
    qed
    then show ?thesis
      unfolding user_view_Some [OF assms(1)] user_view_Some [of s', unfolded assms(2), OF assms(1)] .
  qed
  then show "user_view a s' va = user_view a s va"
    by (rule option_eqI)
qed

subsection \<open>Steps that only move the TLB\<close>

lemma init_page_cong:
  assumes "vs_files s' = vs_files s" "as_segments (vs_space s') = as_segments (vs_space s)"
    and "as_elf_file (vs_space s') = as_elf_file (vs_space s)"
    and "map pte_page (cur_pt s') = map pte_page (cur_pt s)" and "vs_elf_io s' = vs_elf_io s"
  shows "init_page s' va = init_page s va"
  unfolding init_page_def lookup_cong [OF assms(2,4)] assms(1,3,5) ..

lemma tlb_moved_inv: "tlb_moved s s' \<Longrightarrow> vm_inv a ld s \<Longrightarrow> vm_inv a ld s'"
  unfolding vm_inv_def by (frule tlb_movedD) (elim conjE, simp)

lemma tlb_moved_init: "tlb_moved s s' \<Longrightarrow> init_page s' va = init_page s va"
  by (rule init_page_cong) (use tlb_movedD [of s s'] in simp_all)

lemma tlb_moved_view: "tlb_moved s s' \<Longrightarrow> page_view a s' e = page_view a s e"
  using tlb_movedD [of s s'] tlb_moved_init [of s s']
  by (simp add: page_view_def frame_bytes_def split: option.split)

lemma tlb_moved_user_view: "tlb_moved s s' \<Longrightarrow> user_view a s' = user_view a s"
  using tlb_movedD [of s s'] by (simp add: user_view_def tlb_moved_view)

lemma vm_inv_entry:
  assumes "vm_inv a ld s" "e \<in> set (cur_pt s)" "pte_in_mem e"
  obtains i where "i < ram_frames (vs_cmap s)" "pte_frame e = frame_paddr (vs_cmap s) i"
    "cme_as (cm_entries (vs_cmap s) ! i) = Some a" "cme_vaddr (cm_entries (vs_cmap s) ! i) = pte_page e"
    "cme_state (cm_entries (vs_cmap s) ! i) = (if ld = Some (pte_page e) then LOADING else CLEAN)"
    "frame_pos (vs_cmap s) (pte_frame e) = i" "pte_frame e AND PAGE_FRAME = pte_frame e" "\<not> pte_in_swap e"
proof -
  from vm_invD(7) [OF assms(1)] assms(2,3) obtain i where i: "i < ram_frames (vs_cmap s)"
    "pte_frame e = frame_paddr (vs_cmap s) i"
    "cme_as (cm_entries (vs_cmap s) ! i) = Some a" "cme_vaddr (cm_entries (vs_cmap s) ! i) = pte_page e"
    "cme_state (cm_entries (vs_cmap s) ! i) = (if ld = Some (pte_page e) then LOADING else CLEAN)" "\<not> pte_in_swap e"
    unfolding pt_backed_def by blast
  with frame_pos_frame_paddr [OF vm_invD(13) [OF assms(1)] i(1)]
    frame_paddr_aligned [OF vm_invD(13) [OF assms(1)] i(1)] that show thesis by metis
qed

lemma pt_page_unique:
  "distinct (map pte_page pt) \<Longrightarrow> e \<in> set pt \<Longrightarrow> e' \<in> set pt \<Longrightarrow> pte_page e = pte_page e' \<Longrightarrow> e = e'"
  by (auto simp: distinct_map dest: inj_onD)

lemma lookup_node:
  assumes "lookup as va = Some (seg, i, d)" "distinct (map pte_page (as_pt as))" "e \<in> set (as_pt as)" "pte_page e = va"
  shows "pt_node (as_pt as) d = Some e"
proof -
  obtain e' where e': "pt_node (as_pt as) d = Some e'" "pte_page e' = va"
    using lookup_Some(7) [OF assms(1)] by blast
  then have "e' = e" using pt_node_in [OF e'(1)] pt_page_unique [OF assms(2,3), of e'] assms(4) by metis
  with e'(1) show ?thesis by simp
qed

lemma vm_inv_resident:
  assumes "vm_inv a ld s" "e \<in> set (cur_pt s)" "pte_in_mem e"
  shows "resident s (pte_page e) e"
proof -
  obtain seg i d where l: "lookup (vs_space s) (pte_page e) = Some (seg, i, d)"
    using vm_invD(9) [OF assms(1)] assms(2,3) unfolding pt_reachable_def by auto
  have n: "pt_node (cur_pt s) d = Some e"
    by (rule lookup_node [OF l vm_invD(14) [OF assms(1)] assms(2) refl])
  obtain j where "j < ram_frames (vs_cmap s)" "frame_pos (vs_cmap s) (pte_frame e) = j"
    "pte_frame e AND PAGE_FRAME = pte_frame e"
    using vm_inv_entry [OF assms] by metis
  then show ?thesis
    unfolding resident_def using vm_invD(1,2,4,5,6) [OF assms(1)] l n assms(3) by auto
qed

text \<open>A fault on a page in memory keeps the invariant and the view.\<close>

lemma vm_fault_in_mem:
  assumes "vm_inv a None s" "e \<in> set (cur_pt s)" "pte_in_mem e" "pte_page e = va AND PAGE_FRAME"
    and "ft = VM_FAULT_READ \<or> ft = VM_FAULT_WRITE"
  shows "\<exists>s'. vm_fault (Suc n) ft va s = Some (None, s') \<and> vm_inv a None s' \<and> user_view a s' = user_view a s \<and>
    mmu_translate (vs_tlb s') va False = Hit (pte_frame e OR (va AND 0xfff))"
proof -
  have "resident s (va AND PAGE_FRAME) e" using vm_inv_resident [OF assms(1-3)] assms(4) by simp
  from fault_resident [OF this refl assms(5), of n]
  show ?thesis using tlb_moved_inv [OF _ assms(1)] tlb_moved_user_view by blast
qed

subsection \<open>Replacing one entry of the page table\<close>

lemma pt_store_set:
  assumes "distinct (map pte_page pt)" "pt_node pt d = Some e" "pte_page x = pte_page e"
  shows "map pte_page (pt_store pt d x) = map pte_page pt" "set (pt_store pt d x) = insert x (set pt - {e})"
proof -
  have d: "0 < d" "d \<le> length pt" "e = pt ! (length pt - d)" using pt_node_in [OF assms(2)] by auto
  show "map pte_page (pt_store pt d x) = map pte_page pt"
    by (rule map_page_pt_store) (use d assms(3) in simp_all)
  have "distinct pt" using assms(1) by (simp add: distinct_map)
  then show "set (pt_store pt d x) = insert x (set pt - {e})"
    unfolding pt_store_def d(3) by (rule set_update_distinct) (use d in simp)
qed

lemma pt_update_set:
  assumes "distinct (map pte_page pt)" "e \<in> set pt"
  shows "set (pt_update pt (pte_page e)) = insert (swapped_out e) (set pt - {e})"
proof -
  obtain i where i: "i < length pt" "e = pt ! i" using assms(2) by (metis in_set_conv_nth)
  have "distinct pt" using assms(1) by (simp add: distinct_map)
  with i show ?thesis unfolding i(2) pt_update_distinct [OF assms(1) i(1)]
    by (intro set_update_distinct)
qed

lemma swapped_out_sel [simp]: "pte_page (swapped_out e) = pte_page e" "\<not> pte_in_mem (swapped_out e)"
  "pte_in_swap (swapped_out e)"
  by (simp_all add: swapped_out_def)

text \<open>The shape of the address space depends on the page addresses only.\<close>

lemma seg_ok_cong:
  assumes "map pte_page pt = map pte_page pt'"
  shows "seg_ok pt seg \<longleftrightarrow> seg_ok pt' seg"
  unfolding seg_ok_def pt_node_page_cong [OF assms] map_eq_imp_length_eq [OF assms] ..

lemma as_wf_cong:
  assumes "map pte_page (as_pt as) = map pte_page (as_pt as')" "as_segments as = as_segments as'" "as_wf as'"
  shows "as_wf as"
proof -
  have "pte_page ` set (as_pt as) = pte_page ` set (as_pt as')"
    using arg_cong [OF assms(1), of set] by simp
  then have "(\<forall>e \<in> set (as_pt as). user_page (pte_page e)) \<longleftrightarrow> (\<forall>e \<in> set (as_pt as'). user_page (pte_page e))"
    by (metis (no_types, lifting) image_iff)
  then show ?thesis
    using assms unfolding as_wf_def seg_ok_cong [OF assms(1)] by simp
qed

lemma tlb_coherent_mono:
  "tlb_coherent t pt \<Longrightarrow> (\<And>p. p \<in> set pt \<Longrightarrow> pte_in_mem p \<Longrightarrow> p \<in> set pt') \<Longrightarrow> tlb_coherent t pt'"
  unfolding tlb_coherent_def by blast

definition mapped :: "paddr_t \<Rightarrow> pt_entry \<Rightarrow> pt_entry" where
  "mapped p e = e\<lparr>pte_frame := p, pte_in_mem := True, pte_in_swap := False\<rparr>"

lemma mapped_sel [simp]: "pte_page (mapped p e) = pte_page e" "pte_in_mem (mapped p e)"
  "\<not> pte_in_swap (mapped p e)" "pte_frame (mapped p e) = p"
  by (simp_all add: mapped_def)

lemma map_frame_Some:
  "pt_node (cur_pt s) d = Some e \<Longrightarrow> map_frame d p s = Some (set_pt (pt_store (cur_pt s) d (mapped p e)) s)"
  by (simp add: map_frame_def mapped_def)

lemma set_pt_sel [simp]: "cur_pt (set_pt pt s) = pt" "vs_cmap (set_pt pt s) = vs_cmap s"
  "vs_tlb (set_pt pt s) = vs_tlb s" "vs_stats (set_pt pt s) = vs_stats s" "vs_swap (set_pt pt s) = vs_swap s"
  "vs_mem (set_pt pt s) = vs_mem s" "vs_files (set_pt pt s) = vs_files s"
  "vs_swap_io (set_pt pt s) = vs_swap_io s" "vs_elf_io (set_pt pt s) = vs_elf_io s"
  "vs_curproc (set_pt pt s) = vs_curproc s" "vs_as (set_pt pt s) = vs_as s"
  "as_segments (vs_space (set_pt pt s)) = as_segments (vs_space s)"
  "as_elf_file (vs_space (set_pt pt s)) = as_elf_file (vs_space s)"
  by (simp_all add: set_pt_def)

subsection \<open>A page gets a frame\<close>

text \<open>The state in which a page with entry e and address va has just been given the frame p: the
  invariant holds with that page being served, the frame may be written, and nothing else moved.\<close>

definition given :: "nat \<Rightarrow> vmstate \<Rightarrow> pt_entry \<Rightarrow> paddr_t \<Rightarrow> vmstate \<Rightarrow> bool" where
  "given a s e p s2 \<longleftrightarrow>
     vm_inv a (Some (pte_page e)) s2 \<and> mapped p e \<in> set (cur_pt s2) \<and>
     writable_now s2 (pte_page e) (mapped p e) \<and>
     vs_files s2 = vs_files s \<and> as_segments (vs_space s2) = as_segments (vs_space s) \<and>
     as_elf_file (vs_space s2) = as_elf_file (vs_space s) \<and> map pte_page (cur_pt s2) = map pte_page (cur_pt s) \<and>
     swap_contents (vs_swap s2) (a, pte_page e) = swap_contents (vs_swap s) (a, pte_page e) \<and>
     vs_swap_io s2 = vs_swap_io s \<and> vs_elf_io s2 = vs_elf_io s \<and>
     find_idx (slot_key (a, pte_page e)) (fst (vs_swap s2)) = find_idx (slot_key (a, pte_page e)) (fst (vs_swap s)) \<and>
     (\<forall>x \<in> set (cur_pt s). \<forall>x2 \<in> set (cur_pt s2).
        pte_page x = pte_page x2 \<longrightarrow> pte_page x \<noteq> pte_page e \<longrightarrow> page_view a s2 x2 = page_view a s x)"

lemma page_view_cong:
  assumes "vs_swap s' = vs_swap s" "vs_mem s' = vs_mem s" "\<And>va. init_page s' va = init_page s va"
  shows "page_view a s' e = page_view a s e"
  unfolding page_view_def frame_bytes_def assms ..

text \<open>The common part of the two ways to get a frame: entry i of the coremap is new, it was not in use
  by a page that stays in memory, and the page table has the entry e replaced by its mapped version.\<close>

lemma given_frame:
  assumes inv: "vm_inv a None s" and e: "pt_node (cur_pt s1) d = Some e" "\<not> pte_in_mem e"
    and look: "lookup (vs_space s) (pte_page e) \<noteq> None"
    and pt1: "map pte_page (cur_pt s1) = map pte_page (cur_pt s)"
    and same: "vs_files s1 = vs_files s" "vs_mem s1 = vs_mem s" "vs_curproc s1 = vs_curproc s" "vs_as s1 = vs_as s"
      "as_segments (vs_space s1) = as_segments (vs_space s)" "as_elf_file (vs_space s1) = as_elf_file (vs_space s)"
      "vs_swap_io s1 = vs_swap_io s" "vs_elf_io s1 = vs_elf_io s"
    and cm: "cm_wf (vs_cmap s1)" "ram_frames (vs_cmap s1) = ram_frames (vs_cmap s)"
      "cm_firstpaddr (vs_cmap s1) = cm_firstpaddr (vs_cmap s)"
    and i: "i < ram_frames (vs_cmap s)" "cme_as (cm_entries (vs_cmap s1) ! i) = Some a"
      "cme_vaddr (cm_entries (vs_cmap s1) ! i) = pte_page e" "cme_state (cm_entries (vs_cmap s1) ! i) = LOADING"
    and others: "\<And>j. j < ram_frames (vs_cmap s) \<Longrightarrow> j \<noteq> i \<Longrightarrow> cm_entries (vs_cmap s1) ! j = cm_entries (vs_cmap s) ! j"
    and mem1: "\<And>x. x \<in> set (cur_pt s1) \<Longrightarrow> pte_in_mem x \<Longrightarrow>
      x \<in> set (cur_pt s) \<and> pte_frame x \<noteq> frame_paddr (vs_cmap s) i"
    and mem2: "\<And>x. x \<in> set (cur_pt s) \<Longrightarrow> pte_in_mem x \<Longrightarrow> pte_frame x \<noteq> frame_paddr (vs_cmap s) i \<Longrightarrow>
      x \<in> set (cur_pt s1)"
    and tlb: "tlb_wf (vs_tlb s1)"
      "tlb_coherent (vs_tlb s1) (pt_store (cur_pt s1) d (mapped (frame_paddr (vs_cmap s) i) e))"
      "mmu_translate (vs_tlb s1) (pte_page e) True \<noteq> Modify"
    and sw: "swap_inv (vs_swap s1)"
      "swap_contents (vs_swap s1) (a, pte_page e) = swap_contents (vs_swap s) (a, pte_page e)"
      "\<And>x. x \<in> set (cur_pt s1) \<Longrightarrow> pte_page x \<noteq> pte_page e \<Longrightarrow>
         (pte_in_swap x \<longleftrightarrow> swap_contents (vs_swap s1) (a, pte_page x) \<noteq> None)"
      "find_idx (slot_key (a, pte_page e)) (fst (vs_swap s1)) = find_idx (slot_key (a, pte_page e)) (fst (vs_swap s))"
    and view: "\<And>x x1. x \<in> set (cur_pt s) \<Longrightarrow> x1 \<in> set (cur_pt s1) \<Longrightarrow> pte_page x = pte_page x1 \<Longrightarrow>
      pte_page x \<noteq> pte_page e \<Longrightarrow> page_view a s1 x1 = page_view a s x"
  shows "\<exists>s2. map_frame d (frame_paddr (vs_cmap s) i) s1 = Some s2 \<and> given a s e (frame_paddr (vs_cmap s) i) s2"
proof -
  let ?c = "vs_cmap s" and ?p = "frame_paddr (vs_cmap s) i"
  let ?e = "mapped ?p e" and ?pt = "pt_store (cur_pt s1) d (mapped ?p e)"
  let ?s2 = "set_pt ?pt s1"
  note I = vm_invD [OF inv]
  have dist: "distinct (map pte_page (cur_pt s1))" unfolding pt1 by (rule I(14))
  have pages: "map pte_page ?pt = map pte_page (cur_pt s)" and set_pt: "set ?pt = insert ?e (set (cur_pt s1) - {e})"
    using pt_store_set [OF dist e(1), of ?e] pt1 by simp_all
  have fp: "frame_paddr (vs_cmap s1) = frame_paddr ?c" by (rule ext) (simp add: frame_paddr_def cm(3))
  have range: "cm_range_ok (vs_cmap s1)" using cm(1) by (simp add: cm_wf_def)
  have look2: "lookup (vs_space ?s2) va = lookup (vs_space s) va" for va
    by (rule lookup_cong) (simp_all add: same(5) pages)
  have "as_wf (vs_space ?s2)"
    by (rule as_wf_cong [OF _ _ I(5)]) (simp_all add: same(5) pages)
  moreover have "pt_backed a (Some (pte_page e)) (vs_cmap s1) ?pt"
    unfolding pt_backed_def
  proof (intro ballI impI)
    fix x assume x: "x \<in> set ?pt" "pte_in_mem x"
    show "\<not> pte_in_swap x \<and> (\<exists>j < ram_frames (vs_cmap s1). pte_frame x = frame_paddr (vs_cmap s1) j \<and>
        cme_as (cm_entries (vs_cmap s1) ! j) = Some a \<and> cme_vaddr (cm_entries (vs_cmap s1) ! j) = pte_page x \<and>
        cme_state (cm_entries (vs_cmap s1) ! j) = (if Some (pte_page e) = Some (pte_page x) then LOADING else CLEAN))"
    proof (cases "x = ?e")
      case True
      then show ?thesis using i cm(2) fp by (intro conjI exI [of _ i]) simp_all
    next
      case False
      then have x1: "x \<in> set (cur_pt s1)" "x \<noteq> e" using x(1) set_pt by auto
      from mem1 [OF x1(1) x(2)] have xs: "x \<in> set (cur_pt s)" "pte_frame x \<noteq> ?p" by blast+
      obtain j where j: "j < ram_frames ?c" "pte_frame x = frame_paddr ?c j"
        "cme_as (cm_entries ?c ! j) = Some a" "cme_vaddr (cm_entries ?c ! j) = pte_page x"
        "cme_state (cm_entries ?c ! j) = CLEAN" "\<not> pte_in_swap x"
        by (rule vm_inv_entry [OF inv xs(1) x(2)]) simp
      have "j \<noteq> i" using j(2) xs(2) by auto
      moreover have "pte_page x \<noteq> pte_page e"
        using pt_page_unique [OF dist x1(1), of e] pt_node_in [OF e(1)] x1(2) by blast
      ultimately show ?thesis using j others [OF j(1)] cm(2) fp by (intro conjI exI [of _ j]) simp_all
    qed
  qed
  moreover have "cm_backed a (vs_cmap s1) ?pt"
    unfolding cm_backed_def
  proof (intro allI impI)
    fix j assume j: "j < ram_frames (vs_cmap s1)" "cme_as (cm_entries (vs_cmap s1) ! j) = Some a"
    show "\<exists>x \<in> set ?pt. pte_in_mem x \<and> pte_frame x = frame_paddr (vs_cmap s1) j"
    proof (cases "j = i")
      case True
      then show ?thesis unfolding set_pt fp by (intro bexI [of _ ?e]) simp_all
    next
      case False
      then have "cme_as (cm_entries ?c ! j) = Some a" "j < ram_frames ?c" using j others cm(2) by simp_all
      then obtain x where x: "x \<in> set (cur_pt s)" "pte_in_mem x" "pte_frame x = frame_paddr ?c j"
        using I(8) unfolding cm_backed_def by blast
      have "pte_frame x \<noteq> ?p" using x(3) False frame_paddr_inj [OF I(13)] i(1) \<open>j < ram_frames ?c\<close> by simp
      then have "x \<in> set (cur_pt s1)" by (rule mem2 [OF x(1,2)])
      moreover have "x \<noteq> e" using x(2) e(2) by blast
      ultimately show ?thesis unfolding set_pt fp using x(2,3) by blast
    qed
  qed
  moreover have "pt_reachable (vs_space ?s2)"
    unfolding pt_reachable_def look2
  proof (intro ballI impI)
    fix x assume x: "x \<in> set (cur_pt ?s2)" "pte_in_mem x"
    then consider "x = ?e" | "x \<in> set (cur_pt s1)" "x \<noteq> ?e" using set_pt by auto
    then show "lookup (vs_space s) (pte_page x) \<noteq> None"
    proof cases
      case 1
      then show ?thesis using look by simp
    next
      case 2
      then show ?thesis using mem1 x(2) I(9) unfolding pt_reachable_def by blast
    qed
  qed
  moreover have "swap_match a (Some (pte_page e)) (vs_swap s1) ?pt"
    unfolding swap_match_def set_pt using sw(3) by auto
  moreover have "load_ok (vs_space ?s2)" using I(12) by (simp add: load_ok_def same(5,6))
  ultimately have "vm_inv a (Some (pte_page e)) ?s2"
    unfolding vm_inv_def using I(1,2) same(3,4) cm(1) tlb(1,2) sw(1) by simp
  moreover have "writable_now ?s2 (pte_page e) ?e"
    unfolding writable_now_def using tlb(3) i cm(2) frame_pos_frame_paddr [OF range, of i] fp by simp
  moreover have "page_view a ?s2 x2 = page_view a s x"
    if x: "x \<in> set (cur_pt s)" "x2 \<in> set ?pt" "pte_page x = pte_page x2" "pte_page x \<noteq> pte_page e" for x x2
  proof -
    have "x2 \<in> set (cur_pt s1)" using x(2-4) set_pt by auto
    then have "page_view a s1 x2 = page_view a s x" by (rule view [OF x(1) _ x(3,4)])
    moreover have "page_view a ?s2 x2 = page_view a s1 x2"
      by (rule page_view_cong, simp_all, rule init_page_cong) (simp_all add: pages pt1)
    ultimately show ?thesis by simp
  qed
  ultimately show ?thesis
    unfolding map_frame_Some [OF e(1)] given_def using same(1,5-8) pages sw(2,4) set_pt by simp
qed

lemma frame_alloc_Some:
  assumes "find_idx (\<lambda>e. cme_state e = FREE) (cm_entries c) = Some i"
  shows "frame_alloc va (Some a) c =
     (frame_paddr c i, c\<lparr>cm_entries := (cm_entries c)[i := \<lparr>cme_as = Some a, cme_vaddr = va,
        cme_state = LOADING, cme_npages = 1, cme_ts = cm_timestamp c\<rparr>], cm_timestamp := cm_timestamp c + 1\<rparr>)"
  unfolding frame_alloc_def assms by simp

lemma frame_alloc_None:
  assumes "find_idx (\<lambda>e. cme_state e = FREE) (cm_entries c) = None"
  shows "frame_alloc va (Some a) c = (0, c)"
  unfolding frame_alloc_def assms by simp

text \<open>Two pages in memory have different frames.\<close>

lemma vm_inv_frames_inj:
  assumes inv: "vm_inv a ld s" and x: "x \<in> set (cur_pt s)" "pte_in_mem x" and y: "y \<in> set (cur_pt s)" "pte_in_mem y"
    and f: "pte_frame x = pte_frame y"
  shows "x = y"
proof -
  obtain i where i: "cme_vaddr (cm_entries (vs_cmap s) ! i) = pte_page x" "frame_pos (vs_cmap s) (pte_frame x) = i"
    by (rule vm_inv_entry [OF inv x]) blast
  obtain j where j: "cme_vaddr (cm_entries (vs_cmap s) ! j) = pte_page y" "frame_pos (vs_cmap s) (pte_frame y) = j"
    by (rule vm_inv_entry [OF inv y]) blast
  from i j f have "pte_page x = pte_page y" by simp
  with pt_page_unique [OF vm_invD(14) [OF inv] x(1) y(1)] show ?thesis by blast
qed

lemma vm_inv_page:
  assumes "vm_inv a ld s" "e \<in> set (cur_pt s)"
  shows "pte_page e AND PAGE_FRAME = pte_page e" "unat (pte_page e) < 0x80000000"
proof -
  have "user_page (pte_page e)" using vm_invD(5) [OF assms(1)] assms(2) by (simp add: as_wf_def)
  then show "pte_page e AND PAGE_FRAME = pte_page e" "unat (pte_page e) < 0x80000000"
    unfolding user_page_def page_frame_id by blast+
qed

lemma not_resident_probe:
  assumes "vm_inv a ld s" "e \<in> set (cur_pt s)" "\<not> pte_in_mem e"
  shows "tlb_probe (pte_page e) (vs_tlb s) = None"
proof (rule coherent_no_entry [OF vm_invD(4,6) [OF assms(1)] vm_inv_page [OF assms(1,2)]])
  show "\<forall>p \<in> set (cur_pt s). pte_page p = pte_page e \<longrightarrow> \<not> pte_in_mem p"
    using pt_page_unique [OF vm_invD(14) [OF assms(1)] _ assms(2)] assms(3) by blast
qed

lemma probe_none_miss: "tlb_probe va t = None \<Longrightarrow> mmu_translate t va wr = Miss"
  by (simp add: mmu_translate_def)

subsection \<open>A free frame\<close>

lemma obtain_free:
  assumes inv: "vm_inv a None s" and e: "pt_node (cur_pt s) d = Some e" "\<not> pte_in_mem e"
    and look: "lookup (vs_space s) (pte_page e) \<noteq> None"
    and free: "find_idx (\<lambda>x. cme_state x = FREE) (cm_entries (vs_cmap s)) = Some i"
  shows "\<exists>p s1 s2. obtain_frame h a (pte_page e) s = Some (Inr p, s1) \<and> map_frame d p s1 = Some s2 \<and> given a s e p s2"
proof -
  let ?c = "vs_cmap s"
  define c1 where "c1 = snd (frame_alloc (pte_page e) (Some a) (vs_cmap s))"
  let ?s1 = "s\<lparr>vs_cmap := c1\<rparr>"
  note I = vm_invD [OF inv]
  have i: "i < ram_frames ?c" "cme_state (cm_entries ?c ! i) = FREE"
    using free find_idx_lt find_idx_sat by blast+
  have fa: "frame_alloc (pte_page e) (Some a) ?c = (frame_paddr ?c i, c1)"
    unfolding c1_def frame_alloc_Some [OF free] by simp
  have c1: "cm_entries c1 = (cm_entries ?c)[i := \<lparr>cme_as = Some a, cme_vaddr = pte_page e,
      cme_state = LOADING, cme_npages = 1, cme_ts = cm_timestamp ?c\<rparr>]" "cm_firstpaddr c1 = cm_firstpaddr ?c"
    unfolding c1_def frame_alloc_Some [OF free] by simp_all
  have ein: "e \<in> set (cur_pt s)" using pt_node_in [OF e(1)] by blast
  have ob: "obtain_frame h a (pte_page e) s = Some (Inr (frame_paddr ?c i), ?s1)"
    unfolding obtain_frame_def fa using frame_paddr_nonzero [OF I(13) i(1)] by simp
  have nofr: "pte_frame x \<noteq> frame_paddr ?c i" if x: "x \<in> set (cur_pt s)" "pte_in_mem x" for x
  proof -
    obtain j where j: "j < ram_frames ?c" "pte_frame x = frame_paddr ?c j" "cme_state (cm_entries ?c ! j) = CLEAN"
      by (rule vm_inv_entry [OF inv x]) simp
    then have "j \<noteq> i" using i(2) by auto
    then show ?thesis using j frame_paddr_inj [OF I(13)] i(1) by simp
  qed
  have "\<exists>s2. map_frame d (frame_paddr ?c i) ?s1 = Some s2 \<and> given a s e (frame_paddr ?c i) s2"
  proof (rule given_frame [OF inv])
    show "pt_node (cur_pt ?s1) d = Some e" using e(1) by simp
    show "cm_wf (vs_cmap ?s1)" using frame_alloc_wf [OF I(3)] by (simp add: c1_def)
    show "tlb_coherent (vs_tlb ?s1) (pt_store (cur_pt ?s1) d (mapped (frame_paddr ?c i) e))"
    proof (rule tlb_coherent_mono)
      show "tlb_coherent (vs_tlb ?s1) (cur_pt s)" using I(6) by simp
      fix x assume "x \<in> set (cur_pt s)" "pte_in_mem x"
      then show "x \<in> set (pt_store (cur_pt ?s1) d (mapped (frame_paddr ?c i) e))"
        using pt_store_set(2) [OF I(14) e(1), of "mapped (frame_paddr ?c i) e"] e(2) by auto
    qed
    show "mmu_translate (vs_tlb ?s1) (pte_page e) True \<noteq> Modify"
      using probe_none_miss [OF not_resident_probe [OF inv ein e(2)]] by simp
    show "pte_in_swap x \<longleftrightarrow> swap_contents (vs_swap ?s1) (a, pte_page x) \<noteq> None"
      if "x \<in> set (cur_pt ?s1)" for x
      using I(11) that by (simp add: swap_match_def)
    show "page_view a ?s1 x1 = page_view a s x"
      if "x \<in> set (cur_pt s)" "x1 \<in> set (cur_pt ?s1)" "pte_page x = pte_page x1" for x x1
    proof -
      have "x1 = x" using that pt_page_unique [OF I(14)] by simp
      moreover have "page_view a ?s1 x = page_view a s x"
        by (rule page_view_cong, simp_all, rule init_page_cong) simp_all
      ultimately show ?thesis by simp
    qed
    show "x \<in> set (cur_pt s) \<and> pte_frame x \<noteq> frame_paddr ?c i" if "x \<in> set (cur_pt ?s1)" "pte_in_mem x" for x
      using that nofr by simp
    show "pte_in_mem x \<Longrightarrow> x \<in> set (cur_pt s) \<Longrightarrow> x \<in> set (cur_pt ?s1)" for x by simp
  qed (use e look c1 i I(1,2,4,10) in simp_all)
  with ob show ?thesis by blast
qed

subsection \<open>A victim's frame\<close>

lemma resident_cong:
  assumes "resident s va e" "vs_curproc s' = vs_curproc s" "vs_as s' = vs_as s" "vs_space s' = vs_space s"
    and "vs_tlb s' = vs_tlb s" "cm_firstpaddr (vs_cmap s') = cm_firstpaddr (vs_cmap s)"
    and "ram_frames (vs_cmap s') = ram_frames (vs_cmap s)"
  shows "resident s' va e"
  using assms(1) unfolding resident_def assms(2-5) frame_pos_def assms(6,7) .

text \<open>A page can be swapped out when there is an empty slot and the first one can be written, and
  swapped in when its slot can be read.\<close>

definition swap_writable :: "vmstate \<Rightarrow> bool" where
  "swap_writable s \<longleftrightarrow> swap_room (vs_swap_io s) (vs_swap s)"

definition swap_readable :: "nat \<Rightarrow> vmstate \<Rightarrow> vaddr_t \<Rightarrow> bool" where
  "swap_readable a s va \<longleftrightarrow> swap_ready (vs_swap_io s) (a, va) (vs_swap s)"

lemmas swap_transfer_defs = swap_writable_def swap_readable_def swap_room_def swap_ready_def slot_transfers_Some

lemma swap_ok_stats [simp]:
  "swap_writable (s\<lparr>vs_stats := st\<rparr>) \<longleftrightarrow> swap_writable s"
  "swap_readable a (s\<lparr>vs_stats := st\<rparr>) va \<longleftrightarrow> swap_readable a s va"
  by (simp_all add: swap_writable_def swap_readable_def)

lemma swap_store_slot:
  assumes "swap_store io k pg sw = Some sw'" "k' \<noteq> k"
  shows "find_idx (slot_key k') (fst sw') = find_idx (slot_key k') (fst sw)"
proof -
  obtain i where i: "find_idx (\<lambda>e. sw_as e = NULL) (fst sw) = Some i"
    "fst sw' = (fst sw)[i := \<lparr>sw_as = Some (fst k), sw_vaddr = snd k\<rparr>]"
    using assms(1) unfolding swap_store_def by (auto simp: swap_out_slot_Some split: if_splits)
  then have "i < length (fst sw)" "sw_as (fst sw ! i) = NULL" unfolding find_idx_Some by blast+
  then show ?thesis unfolding i(2) by (intro find_idx_update_same) (use assms(2) in \<open>auto simp: prod_eq_iff\<close>)
qed

lemma swap_out_resident:
  assumes r: "resident s va v" and room: "swap_writable s"
  shows "\<exists>sw t st. swap_out (vm_fault (Suc n)) a va s = Some (s\<lparr>vs_swap := sw, vs_tlb := t, vs_stats := st\<rparr>) \<and>
    swap_store (vs_swap_io s) (a, va) (frame_bytes s (pte_frame v)) (vs_swap s) = Some sw \<and>
    tlb_wf t \<and> tlb_coherent t (cur_pt s)"
proof -
  obtain sw0 where "swap_store (vs_swap_io s) (a, va) (frame_bytes s (pte_frame v)) (vs_swap s) = Some sw0"
    using room unfolding swap_writable_def swap_store_total [of _ _ "(a, va)" "frame_bytes s (pte_frame v)"] by blast
  then obtain i sp where slot: "swap_out_slot (Some a) va (fst (vs_swap s)) = Some (i, sp)" and io: "vs_swap_io s True i = None"
    by (auto simp: swap_store_def split: if_splits)
  let ?s1 = "s\<lparr>vs_swap := (sp, snd (vs_swap s))\<rparr>"
  have "resident ?s1 va v" by (rule resident_cong [OF r]) simp_all
  from copyin_resident [OF this, of n]
  obtain s2 where s2: "copyin (vm_fault (Suc n)) va PAGE_SIZE ?s1 =
      Some (Inr (clip (mem_get (pte_frame v) (vs_mem ?s1))), s2)" "tlb_moved ?s1 s2"
    by blast
  then obtain t st where t: "s2 = ?s1\<lparr>vs_tlb := t, vs_stats := st\<rparr>" "tlb_wf t" "tlb_coherent t (cur_pt ?s1)"
    unfolding tlb_moved_def by blast
  let ?sw = "(sp, swapfile_write i (frame_bytes s (pte_frame v)) (snd (vs_swap s)))"
  have "swap_out (vm_fault (Suc n)) a va s = Some (s\<lparr>vs_swap := ?sw, vs_tlb := t, vs_stats := st\<rparr>)"
    using slot io s2(1) t(1) by (simp add: swap_out_def frame_bytes_def)
  moreover have "swap_store (vs_swap_io s) (a, va) (frame_bytes s (pte_frame v)) (vs_swap s) = Some ?sw"
    using slot io by (simp add: swap_store_def)
  ultimately show ?thesis using t(2,3) by auto
qed

lemma victim_entry:
  assumes inv: "vm_inv a None s" and ev: "cm_evict (Some a) (vs_cmap s) = Some (victim, p, pos, c1)"
  obtains v where "v \<in> set (cur_pt s)" "pte_in_mem v" "pte_page v = victim" "pte_frame v = p"
    "pos < ram_frames (vs_cmap s)" "p = frame_paddr (vs_cmap s) pos"
proof -
  note d = cm_evict_SomeD [OF ev]
  have pos: "pos < ram_frames (vs_cmap s)" "cme_as (cm_entries (vs_cmap s) ! pos) = Some a"
    using d(1) by (simp_all add: oldest_def evictable_def)
  then obtain v where v: "v \<in> set (cur_pt s)" "pte_in_mem v" "pte_frame v = frame_paddr (vs_cmap s) pos"
    using vm_invD(8) [OF inv] unfolding cm_backed_def by blast
  obtain i where "i < ram_frames (vs_cmap s)" "cme_vaddr (cm_entries (vs_cmap s) ! i) = pte_page v"
    "pte_frame v = frame_paddr (vs_cmap s) i"
    by (rule vm_inv_entry [OF inv v(1,2)]) blast
  moreover from this v(3) pos(1) have "i = pos"
    using frame_paddr_inj [OF vm_invD(13) [OF inv]] by simp
  ultimately have "pte_page v = victim" using d(2) by simp
  with that v d(3) pos(1) show thesis by blast
qed

text \<open>The TLB after tlbR: the victim's entry, if there was one, maps the new page; nothing maps the victim.\<close>

lemma tlbR_coherent:
  assumes wf: "tlb_wf t" and co: "tlb_coherent t pt" and none: "tlb_probe va t = None"
    and v: "pte_page v AND PAGE_FRAME = pte_page v" and va: "va AND PAGE_FRAME = va"
    and p: "p AND PAGE_FRAME = p" and r: "tlbR (pte_page v) va p t st = Some (t', st')"
    and e: "e2 \<in> set pt'" "pte_in_mem e2" "pte_page e2 = va" "pte_frame e2 = p"
    and keep: "\<And>x. x \<in> set pt \<Longrightarrow> pte_in_mem x \<Longrightarrow> pte_page x \<noteq> pte_page v \<Longrightarrow> x \<in> set pt'"
    and vuser: "unat (pte_page v) < 0x80000000"
  shows "tlb_coherent t' pt'" "mmu_translate t' va True \<noteq> Modify"
proof -
  let ?ok = "\<lambda>pt e. (snd e AND TLBLO_VALID = 0 \<and> 0x80000000 \<le> unat (slot_page e)) \<or>
     (snd e AND TLBLO_VALID \<noteq> 0 \<and>
      (\<exists>p \<in> set pt. pte_in_mem p \<and> pte_page p = slot_page e \<and> snd e AND TLBLO_PPAGE = pte_frame p))"
  have old: "?ok pt' x" if x: "x \<in> set (tlb_slots t)" "slot_page x \<noteq> pte_page v" for x
  proof -
    have "?ok pt x" using co x(1) unfolding tlb_coherent_def by blast
    then show ?thesis using keep x(2) by metis
  qed
  have "tlb_coherent t' pt' \<and> mmu_translate t' va True \<noteq> Modify"
  proof (cases "tlb_probe (pte_page v) t")
    case None
    with r have t': "t' = t" by (simp add: tlbR_def)
    have "\<forall>x \<in> set (tlb_slots t). slot_page x \<noteq> pte_page v"
      using None unfolding tlb_probe_None v .
    then have "tlb_coherent t pt'" unfolding tlb_coherent_def using old by blast
    with none show ?thesis unfolding t' by (simp add: mmu_translate_def)
  next
    case (Some k)
    define elo where "elo = p OR TLBLO_DIRTY OR TLBLO_VALID"
    have t': "t' = tlb_write va elo k t" using r Some by (simp add: tlbR_def elo_def Let_def)
    have k: "k < NUM_TLB" "slot_page (tlb_slots t ! k) = pte_page v"
      using tlb_probe_Some [OF Some] wf v by simp_all
    have bits: "elo AND TLBLO_VALID \<noteq> 0" "elo AND TLBLO_DIRTY \<noteq> 0" "elo AND TLBLO_PPAGE = p"
      using page_bits [OF p] p by (simp_all add: elo_def bit.conj_disj_distrib2)
    have nth: "tlb_slots t' ! j = (if j = k then (va, elo) else tlb_slots t ! j)" if "j < NUM_TLB" for j
      unfolding t' by (rule tlb_write_nth) (use wf k(1) that in simp_all)
    have len: "length (tlb_slots t') = NUM_TLB" using wf by (simp add: t' tlb_write_def)
    have "?ok pt' (tlb_slots t' ! j)" if j: "j < NUM_TLB" for j
    proof (cases "j = k")
      case True
      then show ?thesis unfolding nth [OF j] using bits va e by auto
    next
      case False
      have "slot_page (tlb_slots t ! j) \<noteq> pte_page v"
        using tlb_probe_unique [OF wf j, of "pte_page v"] Some False v by auto
      then show ?thesis unfolding nth [OF j] using False old [of "tlb_slots t ! j"] j wf by simp
    qed
    then have "tlb_coherent t' pt'" unfolding tlb_coherent_def list_all_nth len by blast
    moreover have "tlb_wf t'" by (rule tlbR_wf [OF wf r none])
    then have "mmu_translate t' va True = Hit (p OR (va AND 0xfff))"
      using nth [OF k(1)] va bits by (subst mmu_translate_slot [OF _ k(1)]) (simp_all add: Let_def)
    ultimately show ?thesis by simp
  qed
  then show "tlb_coherent t' pt'" "mmu_translate t' va True \<noteq> Modify" by blast+
qed

lemma tlbR_total: "\<exists>t' st'. tlbR victim va p t st = Some (t', st')"
  by (auto simp: tlbR_def Let_def split: option.split)

lemma pt_node_update:
  assumes "distinct (map pte_page pt)" "v \<in> set pt" "pt_node pt d = Some e" "e \<noteq> v"
  shows "pt_node (pt_update pt (pte_page v)) d = Some e"
proof -
  obtain k where k: "k < length pt" "v = pt ! k" using assms(2) by (metis in_set_conv_nth)
  have d: "0 < d" "d \<le> length pt" "e = pt ! (length pt - d)" using pt_node_in [OF assms(3)] by auto
  have "length pt - d \<noteq> k" using d(3) k(2) assms(4) by auto
  then show ?thesis unfolding k(2) pt_update_distinct [OF assms(1) k(1)] using d by (simp add: pt_node_def)
qed

lemma obtain_victim:
  assumes inv: "vm_inv a None s" and e: "pt_node (cur_pt s) d = Some e" "\<not> pte_in_mem e"
    and look: "lookup (vs_space s) (pte_page e) \<noteq> None"
    and full: "find_idx (\<lambda>x. cme_state x = FREE) (cm_entries (vs_cmap s)) = None"
    and ev: "cm_evict (Some a) (vs_cmap s) = Some (victim, p, pos, c1)"
    and room: "swap_writable s"
  shows "\<exists>s1 s2. obtain_frame (vm_fault (Suc n)) a (pte_page e) s = Some (Inr p, s1) \<and>
    map_frame d p s1 = Some s2 \<and> given a s e p s2"
proof -
  let ?c = "vs_cmap s" and ?pt = "cur_pt s"
  note I = vm_invD [OF inv]
  note D = cm_evict_SomeD [OF ev]
  obtain v where v: "v \<in> set ?pt" "pte_in_mem v" "pte_page v = victim" "pte_frame v = p"
    and pos: "pos < ram_frames ?c" and p: "p = frame_paddr ?c pos"
    by (rule victim_entry [OF inv ev]) blast
  have ein: "e \<in> set ?pt" using pt_node_in [OF e(1)] by blast
  have ne: "e \<noteq> v" using e(2) v(2) by blast
  have pne: "pte_page e \<noteq> victim" using pt_page_unique [OF I(14) ein v(1)] ne v(3) by metis
  have palign: "p AND PAGE_FRAME = p" unfolding p by (rule frame_paddr_aligned [OF I(13) pos])
  define st1 where "st1 = (vs_stats s)(SWAP_FILE_WRITE := vs_stats s SWAP_FILE_WRITE + 1)"
  define sB where "sB = s\<lparr>vs_stats := st1, vs_cmap := c1\<rparr>"
  have "resident sB victim v"
    by (rule resident_cong [OF vm_inv_resident [OF inv v(1,2), unfolded v(3)]]) (simp_all add: sB_def D(4))
  moreover have "swap_writable sB" using room by (simp add: swap_writable_def sB_def)
  ultimately obtain sw t st where so: "swap_out (vm_fault (Suc n)) a victim sB = Some (sB\<lparr>vs_swap := sw, vs_tlb := t, vs_stats := st\<rparr>)"
    and sw: "swap_store (vs_swap_io s) (a, victim) (frame_bytes s p) (vs_swap s) = Some sw"
    and t: "tlb_wf t" "tlb_coherent t ?pt"
    using swap_out_resident [of sB victim v n a] unfolding v(4) by (auto simp: sB_def frame_bytes_def)
  have vkey: "swap_contents (vs_swap s) (a, victim) = None"
  proof -
    obtain j where "\<not> pte_in_swap v" by (rule vm_inv_entry [OF inv v(1,2)]) blast
    then show ?thesis using I(11) v(1,3) unfolding swap_match_def by blast
  qed
  note swc = swap_store_contents [OF I(10) vkey sw]
  define pt1 where "pt1 = pt_update ?pt victim"
  have pt1: "set pt1 = insert (swapped_out v) (set ?pt - {v})" "map pte_page pt1 = map pte_page ?pt"
    "pt_node pt1 d = Some e"
    unfolding pt1_def v(3) [symmetric]
    using pt_update_set [OF I(14) v(1)] pt_node_update [OF I(14) v(1) e(1) ne] by simp_all
  define c3 where "c3 = c1\<lparr>cm_entries := (cm_entries c1)[pos := \<lparr>cme_as = Some a, cme_vaddr = pte_page e,
      cme_state = LOADING, cme_npages = 1, cme_ts = cm_timestamp c1\<rparr>], cm_timestamp := cm_timestamp c1 + 1\<rparr>"
  have c3: "cm_update_vaddr (Some a) pos (pte_page e) c1 = Some c3"
    using pos by (simp add: cm_update_vaddr_def c3_def D(4))
  have c3wf: "cm_wf c3"
    by (rule cm_update_vaddr_wf [OF cm_evict_wf [OF I(3) ev] c3]) (use pos in \<open>simp_all add: D(4)\<close>)
  obtain t' st' where r: "tlbR victim (pte_page e) p t st = Some (t', st')" using tlbR_total by blast
  define s1 where "s1 = set_pt pt1 (s\<lparr>vs_swap := sw, vs_cmap := c3, vs_tlb := t', vs_stats := st'\<rparr>)"
  have "handle_victim_and_swapout (vm_fault (Suc n)) a (pte_page e) s = Some (Inr p, s1)"
  proof -
    have "p \<noteq> 0" unfolding p by (rule frame_paddr_nonzero [OF I(13) pos])
    then show ?thesis
      using ev so c3 r
      by (simp add: handle_victim_and_swapout_def sB_def st1_def s1_def set_pt_def pt1_def)
  qed
  then have ob: "obtain_frame (vm_fault (Suc n)) a (pte_page e) s = Some (Inr p, s1)"
    unfolding obtain_frame_def frame_alloc_None [OF full] by simp
  note s1sel = s1_def set_pt_def
  have none: "tlb_probe (pte_page e) t = None"
    by (rule coherent_no_entry [OF t vm_inv_page [OF inv ein]])
      (use pt_page_unique [OF I(14) _ ein] e(2) in blast)
  have pst: "set (pt_store pt1 d (mapped p e)) = insert (mapped p e) (set pt1 - {e})"
    by (rule pt_store_set(2)) (use pt1 I(14) in simp_all)
  have tlb': "tlb_coherent t' (pt_store pt1 d (mapped p e))" "mmu_translate t' (pte_page e) True \<noteq> Modify"
  proof -
    have "x \<in> set (pt_store pt1 d (mapped p e))"
      if "x \<in> set ?pt" "pte_in_mem x" "pte_page x \<noteq> pte_page v" for x
      unfolding pst pt1(1) using that e(2) by auto
    from tlbR_coherent [OF t none _ _ palign r [folded v(3)] _ _ _ _ this]
      vm_inv_page [OF inv v(1)] vm_inv_page [OF inv ein] pst
    show "tlb_coherent t' (pt_store pt1 d (mapped p e))" "mmu_translate t' (pte_page e) True \<noteq> Modify"
      by (metis insertI1 mapped_sel(1,2,4))+
  qed
  have "\<exists>s2. map_frame d (frame_paddr ?c pos) s1 = Some s2 \<and> given a s e (frame_paddr ?c pos) s2"
  proof (rule given_frame [OF inv])
    show "pt_node (cur_pt s1) d = Some e" using pt1(3) by (simp add: s1sel)
    show "cm_wf (vs_cmap s1)" using c3wf by (simp add: s1sel)
    show "tlb_wf (vs_tlb s1)" using tlbR_wf [OF t(1) r none] by (simp add: s1sel)
    show "tlb_coherent (vs_tlb s1) (pt_store (cur_pt s1) d (mapped (frame_paddr ?c pos) e))"
      using tlb'(1) p by (simp add: s1sel)
    show "mmu_translate (vs_tlb s1) (pte_page e) True \<noteq> Modify" using tlb'(2) by (simp add: s1sel)
    show "map pte_page (cur_pt s1) = map pte_page ?pt" using pt1(2) by (simp add: s1sel)
    show "swap_inv (vs_swap s1)" using swc(2) by (simp add: s1sel)
    show "swap_contents (vs_swap s1) (a, pte_page e) = swap_contents (vs_swap s) (a, pte_page e)"
      using swc(1) pne by (simp add: s1sel)
    show "find_idx (slot_key (a, pte_page e)) (fst (vs_swap s1)) = find_idx (slot_key (a, pte_page e)) (fst (vs_swap s))"
      using swap_store_slot [OF sw, of "(a, pte_page e)"] pne by (simp add: s1sel)
    show "cm_entries (vs_cmap s1) ! j = cm_entries ?c ! j" if "j < ram_frames ?c" "j \<noteq> pos" for j
      using that by (simp add: s1sel c3_def D(4))
    show "x \<in> set ?pt \<and> pte_frame x \<noteq> frame_paddr ?c pos" if x: "x \<in> set (cur_pt s1)" "pte_in_mem x" for x
    proof -
      have "x \<noteq> swapped_out v" using x(2) by auto
      then have x1: "x \<in> set ?pt" "x \<noteq> v" using x pt1(1) by (auto simp: s1sel)
      then show ?thesis using vm_inv_frames_inj [OF inv x1(1) x(2) v(1,2)] v(4) p by auto
    qed
    show "x \<in> set (cur_pt s1)" if "x \<in> set ?pt" "pte_in_mem x" "pte_frame x \<noteq> frame_paddr ?c pos" for x
      using that v(4) p pt1(1) by (auto simp: s1sel)
    show "pte_in_swap x \<longleftrightarrow> swap_contents (vs_swap s1) (a, pte_page x) \<noteq> None"
      if x: "x \<in> set (cur_pt s1)" for x
    proof (cases "x = swapped_out v")
      case True
      then show ?thesis using swc(1) v(3) by (simp add: s1sel)
    next
      case False
      then have x1: "x \<in> set ?pt" "x \<noteq> v" using x pt1(1) by (auto simp: s1sel)
      then have "pte_page x \<noteq> victim" using pt_page_unique [OF I(14) x1(1) v(1)] v(3) x1(2) by metis
      then have "swap_contents (vs_swap s1) (a, pte_page x) = swap_contents (vs_swap s) (a, pte_page x)"
        using swc(1) by (simp add: s1sel)
      then show ?thesis using I(11) x1(1) unfolding swap_match_def by simp
    qed
    show "page_view a s1 x1 = page_view a s x"
      if x: "x \<in> set ?pt" "x1 \<in> set (cur_pt s1)" "pte_page x = pte_page x1" for x x1
    proof (cases "x1 = swapped_out v")
      case True
      then have "x = v" using x(1,3) pt_page_unique [OF I(14) x(1) v(1)] by simp
      then show ?thesis using True v swc(1) by (simp add: page_view_def s1sel frame_bytes_def)
    next
      case False
      then have x1: "x1 \<in> set ?pt" "x1 \<noteq> v" using x(2) pt1(1) by (auto simp: s1sel)
      have eq: "x1 = x" using pt_page_unique [OF I(14) x(1) x1(1) x(3)] by simp
      have "pte_page x \<noteq> victim" using pt_page_unique [OF I(14) x(1) v(1)] v(3) x1(2) eq by metis
      then have c: "swap_contents (vs_swap s1) (a, pte_page x) = swap_contents (vs_swap s) (a, pte_page x)"
        using swc(1) by (simp add: s1sel)
      have ip: "init_page s1 va = init_page s va" for va
        by (rule init_page_cong) (use pt1(2) in \<open>simp_all add: s1sel\<close>)
      have fb: "frame_bytes s1 q = frame_bytes s q" for q by (simp add: frame_bytes_def s1sel)
      show ?thesis unfolding page_view_def eq c ip fb ..
    qed
  qed (use e look pos I(1,2) in \<open>simp_all add: s1sel c3_def D(4)\<close>)
  with ob show ?thesis unfolding p by blast
qed

subsection \<open>The loader's arithmetic\<close>

abbreviation seg_pad :: "segment_entry \<Rightarrow> nat" where
  "seg_pad seg \<equiv> nat (sg_offset seg) mod 4096"

lemma geom_pages:
  assumes "load_geom seg" "0 \<le> sg_offset seg"
  shows "(sg_npages seg - 1) * 4096 < seg_pad seg + unat (sg_size seg)"
    "seg_pad seg + unat (sg_size seg) \<le> sg_npages seg * 4096" "0 < sg_npages seg"
proof -
  let ?m = "seg_pad seg + unat (sg_size seg)"
  have n: "sg_npages seg = (?m + 4095) div 4096" and pos: "0 < ?m"
    using assms unfolding load_geom_def by auto
  have d: "sg_npages seg * 4096 \<le> ?m + 4095" unfolding n by simp
  show "?m \<le> sg_npages seg * 4096"
  proof -
    have "?m + 4095 < (?m + 4095) div 4096 * 4096 + 4096"
      using mod_less_divisor [of 4096 "?m + 4095"] by (metis add_strict_left_mono div_mult_mod_eq zero_less_numeral)
    then show ?thesis unfolding n by linarith
  qed
  show "0 < sg_npages seg" unfolding n using pos by (simp add: div_greater_zero_iff Suc_le_eq)
  then show "(sg_npages seg - 1) * 4096 < ?m" using d by (simp add: diff_mult_distrib)
qed

lemma seg_off_word:
  assumes "0 \<le> sg_offset seg"
  shows "unat (word_of_int (sg_offset seg) AND (0xfff :: u32)) = seg_pad seg"
proof -
  have "unat (word_of_int (sg_offset seg) :: u32) = nat (sg_offset seg) mod 2 ^ 32"
    using assms by (simp add: unat_eq_nat_uint uint_word_of_int nat_mod_distrib take_bit_eq_mod)
  then show ?thesis unfolding page_off_unat by (simp add: mod_mod_cancel)
qed

text \<open>The size computed for the i-th page is the length of the part of the segment in that page.\<close>

lemma compute_memsz_unat:
  assumes g: "load_geom seg" "0 \<le> sg_offset seg" and i: "1 \<le> i" "i \<le> sg_npages seg"
    and top: "sg_npages seg * 4096 \<le> 0x80000000"
  shows "unat (compute_memsz seg i) =
    min (seg_pad seg + unat (sg_size seg)) (i * 4096) - max (seg_pad seg) ((i - 1) * 4096)"
proof -
  let ?pad = "seg_pad seg" and ?sz = "unat (sg_size seg)" and ?n = "sg_npages seg"
  let ?o = "word_of_int (sg_offset seg) AND (0xfff :: u32)"
  note P = geom_pages [OF g]
  have pad: "unat ?o = ?pad" by (rule seg_off_word [OF g(2)])
  have pl: "?pad < 4096" by simp
  have lt: "sg_size seg < PAGE_SIZE \<longleftrightarrow> ?sz < 4096" by (simp add: word_less_nat_alt)
  have ole: "?o \<le> PAGE_SIZE" using pl pad by (simp add: word_le_nat_alt)
  consider "?sz < 4096" | "4096 \<le> ?sz" "i = 1" | "4096 \<le> ?sz" "i \<noteq> 1" "i = ?n"
    | "4096 \<le> ?sz" "i \<noteq> 1" "i < ?n" using i(2) by linarith
  then show ?thesis
  proof cases
    case 1
    then have "?n = 1" using g unfolding load_geom_def by blast
    then have "i = 1" "?pad + ?sz \<le> 4096" using i P(2) by simp_all
    then show ?thesis using 1 lt by (simp add: compute_memsz_def Let_def)
  next
    case 2
    have "unat (PAGE_SIZE - ?o) = 4096 - ?pad" using ole pad by (subst unat_sub_u32) simp_all
    then show ?thesis using 2 lt pl by (simp add: compute_memsz_def Let_def)
  next
    case 3
    have n2: "2 \<le> ?n" using 3 i by simp
    then obtain m where m: "?n = m + 2" using le_Suc_ex by (metis add.commute)
    have un: "unat (of_nat ?n :: u32) = ?n" using top by (intro unat_of_nat_u32) linarith
    then have nm: "unat (of_nat ?n * PAGE_SIZE :: u32) = ?n * 4096"
      using top by (subst unat_mult_u32) simp_all
    let ?A = "of_nat ?n * PAGE_SIZE - sg_size seg"
    have "sg_size seg \<le> of_nat ?n * PAGE_SIZE" using P(2) unfolding word_le_nat_alt nm by linarith
    then have A: "unat ?A = ?n * 4096 - ?sz" by (subst unat_sub_u32) (simp_all only: nm)
    have "?o \<le> ?A" using P(2) unfolding word_le_nat_alt A pad by linarith
    then have B: "unat (?A - ?o) = ?n * 4096 - ?sz - ?pad"
      by (subst unat_sub_u32) (simp_all only: A pad)
    have "?A - ?o \<le> PAGE_SIZE" using P(1) m unfolding word_le_nat_alt B by simp
    then have C: "unat (PAGE_SIZE - (?A - ?o)) = 4096 - (?n * 4096 - ?sz - ?pad)"
      by (subst unat_sub_u32) (simp_all only: B, simp)
    have "compute_memsz seg i = PAGE_SIZE - (?A - ?o)"
      using 3 lt by (simp add: compute_memsz_def Let_def)
    then have "unat (compute_memsz seg i) = 4096 - (?n * 4096 - ?sz - ?pad)" by (simp only: C)
    also have "\<dots> = ?pad + ?sz - (?n - 1) * 4096" using P(1,2) m by simp (simp only: add.commute)
    also have "\<dots> = min (?pad + ?sz) (i * 4096) - max ?pad ((i - 1) * 4096)"
      using P(2) 3(3) m pl by (simp add: min_absorb1 max_absorb2)
    finally show ?thesis .
  next
    case 4
    have "(i - 1) * 4096 + 4096 \<le> (?n - 1) * 4096"
    proof -
      have "(i - 1 + 1) * 4096 \<le> (?n - 1) * 4096" using 4(3) i by (intro mult_le_mono1) simp
      then show ?thesis by simp
    qed
    moreover have "4096 \<le> (i - 1) * 4096" using 4(2) i(1) by simp
    moreover have "i * 4096 = (i - 1) * 4096 + 4096" using i(1) by (cases i) simp_all
    moreover have "max ?pad ((i - 1) * 4096) = (i - 1) * 4096"
      by (rule max_absorb2) (use pl \<open>4096 \<le> (i - 1) * 4096\<close> in linarith)
    ultimately show ?thesis using 4 lt P(1) by (simp add: compute_memsz_def Let_def)
  qed
qed

lemma and_page_frame_int: "(x AND 0xfffff000 :: int) = x div 4096 * 4096" if "0 \<le> x" "x < 0x100000000"
proof -
  have m: "(0xfffff000 :: int) = NOT (mask 12) AND mask 32" by (simp add: mask_eq_exp_minus_1)
  have s: "x AND NOT (mask 12) = push_bit 12 (drop_bit 12 x)"
    by (auto intro!: bit_eqI simp: bit_simps)
  have t: "x AND NOT (mask 12) = x div 4096 * 4096"
    unfolding s by (simp add: push_bit_eq_mult drop_bit_eq_div)
  have "x AND 0xfffff000 = take_bit 32 (x AND NOT (mask 12))"
    unfolding m by (simp only: take_bit_eq_mask and.assoc)
  also have "\<dots> = x AND NOT (mask 12)"
  proof (rule take_bit_int_eq_self)
    have "x div 4096 * 4096 + x mod 4096 = x" "0 \<le> x mod 4096" by simp_all
    then show "x AND NOT (mask 12) < 2 ^ 32" unfolding t using that by simp
    show "0 \<le> x AND NOT (mask 12)" using that by simp
  qed
  finally show ?thesis unfolding t .
qed

lemma compute_offset_nat:
  assumes g: "load_geom seg" "0 \<le> sg_offset seg" and i: "1 \<le> i" "i \<le> sg_npages seg"
  shows "0 \<le> compute_offset (sg_offset seg) i"
    "nat (compute_offset (sg_offset seg) i) =
       nat (sg_offset seg) + (max (seg_pad seg) ((i - 1) * 4096) - seg_pad seg)"
proof -
  obtain o' where o': "sg_offset seg = int o'" using g(2) nonneg_int_cases by blast
  have pl: "o' mod 4096 < 4096" "o' mod 4096 \<le> o'" by simp_all
  have "0 \<le> compute_offset (sg_offset seg) i \<and> nat (compute_offset (sg_offset seg) i) =
       nat (sg_offset seg) + (max (seg_pad seg) ((i - 1) * 4096) - seg_pad seg)"
  proof (cases "i = 1")
    case True
    then show ?thesis using o' by (simp add: compute_offset_def Let_def)
  next
    case False
    then obtain k where k: "i = k + 2" using i(1) by (intro that [of "i - 2"]) simp
    define q r where "q = o' div 4096" and "r = o' mod 4096"
    have qr: "o' = q * 4096 + r" "r < 4096" by (simp_all add: q_def r_def)
    have "(k + 1) * 4096 \<le> (sg_npages seg - 1) * 4096" using i(2) k by (intro mult_le_mono1) simp
    then have "(k + 1) * 4096 < r + unat (sg_size seg)" using geom_pages(1) [OF g] o' by (simp add: r_def)
    moreover have "o' + unat (sg_size seg) < 4294967296" using g o' unfolding load_geom_def by simp
    ultimately have "(q + (k + 1)) * 4096 < 1048576 * 4096" using qr by simp
    then have "q + (k + 1) < 1048576" unfolding mult_less_cancel2 by simp
    then have lt: "o' + (k + 1) * 4096 < 4294967296" using qr by simp
    have "compute_offset (sg_offset seg) i = int (o' + (k + 1) * 4096) AND 0xfffff000"
      using k o' by (simp add: compute_offset_def Let_def algebra_simps)
    also have "\<dots> = int (o' + (k + 1) * 4096) div 4096 * 4096"
      using lt by (intro and_page_frame_int) simp_all
    also have "\<dots> = int ((o' + (k + 1) * 4096) div 4096 * 4096)" by (simp only: zdiv_int of_nat_mult of_nat_numeral)
    also have "(o' + (k + 1) * 4096) div 4096 = q + (k + 1)" by (simp add: q_def)
    finally have x: "compute_offset (sg_offset seg) i = int ((q + (k + 1)) * 4096)" .
    have "max r ((k + 1) * 4096) = (k + 1) * 4096" using qr(2) by simp
    moreover have "nat (sg_offset seg) = o'" "i - 1 = k + 1" using o' k by simp_all
    moreover have "(q + (k + 1)) * 4096 = o' + ((k + 1) * 4096 - r)" using qr by simp
    ultimately show ?thesis unfolding x by (simp only: nat_int r_def [symmetric]) simp
  qed
  then show "0 \<le> compute_offset (sg_offset seg) i"
    "nat (compute_offset (sg_offset seg) i) =
       nat (sg_offset seg) + (max (seg_pad seg) ((i - 1) * 4096) - seg_pad seg)" by blast+
qed

lemma page_index: "p \<le> b + k \<Longrightarrow> k \<le> j \<Longrightarrow> x + (b + k - p) + (j - k) = x + (b + j - p)" for x :: nat
  by simp

lemma page_part:
  "m = min (p + z) (b + 4096) - (b + k) \<Longrightarrow> p < 4096 \<Longrightarrow> 4096 \<le> b \<Longrightarrow> k = 0 \<Longrightarrow> j < 4096 \<Longrightarrow>
   p \<le> b + j \<and> b + j < p + z \<longleftrightarrow> k \<le> j \<and> j < k + (m :: nat)"
  by auto

text \<open>The bytes that the loader puts into the i-th page are those of the segment.\<close>

lemma seg_image_load:
  fixes f :: "u8 list"
  assumes g: "load_geom seg" "0 \<le> sg_offset seg" and i: "1 \<le> i" "i \<le> sg_npages seg"
    and top: "sg_npages seg * 4096 \<le> 0x80000000"
    and k_def: "k = (if i = 1 then seg_pad seg else 0)"
    and n_def: "n = file_avail f (compute_offset (sg_offset seg) i) (unat (compute_memsz seg i))"
  shows "k + unat (compute_memsz seg i) \<le> 4096"
    "clip (\<lambda>j. if k \<le> j \<and> j < k + n then file_page f (compute_offset (sg_offset seg) i) (j - k) else 0) =
       seg_image f seg i"
proof -
  let ?pad = "seg_pad seg" and ?sz = "unat (sg_size seg)" and ?b = "(i - 1) * 4096"
  define m where "m = unat (compute_memsz seg i)"
  have pl: "?pad < 4096" by simp
  have ib: "i * 4096 = ?b + 4096" using i(1) by (cases i) simp_all
  have kb: "max ?pad ?b = ?b + k"
  proof (cases "i = 1")
    case False
    then have "4096 \<le> ?b" using i(1) by simp
    then show ?thesis using False pl by (simp add: k_def max_absorb2)
  qed (simp add: k_def)
  have m: "m = min (?pad + ?sz) (?b + 4096) - (?b + k)"
    unfolding m_def compute_memsz_unat [OF g i top] ib kb ..
  have k: "k < 4096" using pl by (simp add: k_def)
  show "k + unat (compute_memsz seg i) \<le> 4096" using m k unfolding m_def [symmetric] by linarith
  have off: "nat (compute_offset (sg_offset seg) i) = nat (sg_offset seg) + (?b + k - ?pad)"
    unfolding compute_offset_nat(2) [OF g i] kb ..
  have pb: "?pad \<le> ?b + k" using kb by (metis max.cobounded1)
  show "clip (\<lambda>j. if k \<le> j \<and> j < k + n then file_page f (compute_offset (sg_offset seg) i) (j - k) else 0) =
       seg_image f seg i"
  proof (rule ext)
    fix j
    show "clip (\<lambda>j. if k \<le> j \<and> j < k + n then file_page f (compute_offset (sg_offset seg) i) (j - k) else 0) j =
       seg_image f seg i j"
    proof (cases "j < 4096")
      case False
      then show ?thesis by (simp add: clip_def seg_image_def Let_def)
    next
      case True
      have in_m: "?pad \<le> ?b + j \<and> ?b + j < ?pad + ?sz \<longleftrightarrow> k \<le> j \<and> j < k + m"
      proof (cases "i = 1")
        case True
        then show ?thesis using m \<open>j < 4096\<close> by (simp add: k_def)
      next
        case False
        then have "4096 \<le> ?b" "k = 0" using i(1) by (simp_all add: k_def)
        then show ?thesis by (intro page_part [OF m pl] \<open>j < 4096\<close>)
      qed
      have idx: "nat (compute_offset (sg_offset seg) i) + (j - k) = nat (sg_offset seg) + (?b + j - ?pad)" if "k \<le> j"
        unfolding off by (rule page_index [OF pb that])
      have n: "n = min m (length f - nat (compute_offset (sg_offset seg) i))"
        by (simp add: n_def file_avail_def m_def)
      show ?thesis
      proof (cases "k \<le> j \<and> j < k + m")
        case False
        then have "\<not> (k \<le> j \<and> j < k + n)" using n by linarith
        then have "clip (\<lambda>j. if k \<le> j \<and> j < k + n then file_page f (compute_offset (sg_offset seg) i) (j - k) else 0) j = 0"
          unfolding clip_def by (simp only: if_False if_cancel)
        moreover have "\<not> (?pad \<le> ?b + j \<and> ?b + j < ?pad + ?sz)" using False in_m by blast
        then have "seg_image f seg i j = 0" unfolding seg_image_def Let_def by (simp only: simp_thms if_False)
        ultimately show ?thesis by simp
      next
        case inm: True
        then have img: "seg_image f seg i j = file_page f (sg_offset seg) (?b + j - ?pad)"
          using in_m \<open>j < 4096\<close> by (simp add: seg_image_def Let_def)
        have fp: "file_page f (sg_offset seg) (?b + j - ?pad) = file_page f (compute_offset (sg_offset seg) i) (j - k)"
          unfolding file_page_def using idx inm by simp
        show ?thesis
        proof (cases "j < k + n")
          case True
          then show ?thesis using inm img fp \<open>j < 4096\<close> by (simp add: clip_def)
        next
          case False
          then have "length f \<le> nat (compute_offset (sg_offset seg) i) + (j - k)" using n inm by linarith
          then have "file_page f (compute_offset (sg_offset seg) i) (j - k) = 0" by (simp add: file_page_def)
          then show ?thesis using False img fp \<open>j < 4096\<close> by (simp add: clip_def)
        qed
      qed
    qed
  qed
qed

subsection \<open>Filling the frame of the page being served\<close>

lemma vm_inv_mem [simp]: "vm_inv a ld (s\<lparr>vs_mem := m\<rparr>) \<longleftrightarrow> vm_inv a ld s"
  by (simp add: vm_inv_def)

lemma vm_inv_stats [simp]: "vm_inv a ld (s\<lparr>vs_stats := st\<rparr>) \<longleftrightarrow> vm_inv a ld s"
  by (simp add: vm_inv_def)

lemma writable_now_mem [simp]: "writable_now (s\<lparr>vs_mem := m\<rparr>) va e \<longleftrightarrow> writable_now s va e"
  by (simp add: writable_now_def)

lemma frame_fill:
  assumes inv: "vm_inv a ld s" and e: "e \<in> set (cur_pt s)" "pte_in_mem e" and kn: "k + n \<le> 4096"
    and s'_def: "s' = s\<lparr>vs_mem := mem_put (pte_frame e + of_nat k) n buf (vs_mem s)\<rparr>"
  shows "frame_bytes s' (pte_frame e) =
      clip (\<lambda>i. if k \<le> i \<and> i < k + n then buf (i - k) else mem_get (pte_frame e) (vs_mem s) i)"
    and "\<And>x. x \<in> set (cur_pt s) \<Longrightarrow> x \<noteq> e \<Longrightarrow> page_view a s' x = page_view a s x"
proof -
  have range: "cm_range_ok (vs_cmap s)" by (rule vm_invD(13) [OF inv])
  obtain i where i: "i < ram_frames (vs_cmap s)" "pte_frame e = frame_paddr (vs_cmap s) i"
    by (rule vm_inv_entry [OF inv e]) blast
  have room: "unat (pte_frame e) + 4096 \<le> 0x20000000" unfolding i(2) by (rule frame_paddr_room [OF range i(1)])
  show "frame_bytes s' (pte_frame e) =
      clip (\<lambda>i. if k \<le> i \<and> i < k + n then buf (i - k) else mem_get (pte_frame e) (vs_mem s) i)"
    unfolding frame_bytes_def s'_def using mem_put_frame [OF room kn] by simp
  fix x assume x: "x \<in> set (cur_pt s)" "x \<noteq> e"
  have ip: "init_page s' va = init_page s va" for va
    by (rule init_page_cong) (simp_all add: s'_def)
  show "page_view a s' x = page_view a s x"
  proof (cases "pte_in_mem x")
    case False
    then show ?thesis unfolding page_view_def ip by (simp add: s'_def)
  next
    case True
    obtain j where j: "j < ram_frames (vs_cmap s)" "pte_frame x = frame_paddr (vs_cmap s) j"
      by (rule vm_inv_entry [OF inv x(1) True]) blast
    have "j \<noteq> i" using vm_inv_frames_inj [OF inv x(1) True e] x(2) i(2) j(2) by metis
    then have "unat (pte_frame e) + 4096 \<le> unat (pte_frame x) \<or> unat (pte_frame x) + 4096 \<le> unat (pte_frame e)"
      unfolding i(2) j(2) using frame_paddr_disjoint [OF range j(1) i(1)] by blast
    moreover have "unat (pte_frame x) + 4096 \<le> 0x20000000"
      unfolding j(2) by (rule frame_paddr_room [OF range j(1)])
    ultimately have "frame_bytes s' (pte_frame x) = frame_bytes s (pte_frame x)"
      unfolding frame_bytes_def s'_def using mem_put_other [OF room _ kn] by simp
    then show ?thesis using True by (simp add: page_view_def)
  qed
qed

subsection \<open>The end of a fault\<close>

lemma update_clean:
  assumes inv: "vm_inv a (Some (pte_page e)) s" and e: "e \<in> set (cur_pt s)" "pte_in_mem e"
    and sw: "swap_contents (vs_swap s) (a, pte_page e) = None"
  shows "\<exists>c. update_state (pte_frame e) CLEAN s = Some (s\<lparr>vs_cmap := c\<rparr>) \<and> vm_inv a None (s\<lparr>vs_cmap := c\<rparr>)"
proof -
  let ?c = "vs_cmap s"
  note I = vm_invD [OF inv]
  obtain i where i: "i < ram_frames ?c" "pte_frame e = frame_paddr ?c i" "cme_as (cm_entries ?c ! i) = Some a"
    "cme_vaddr (cm_entries ?c ! i) = pte_page e" "cme_state (cm_entries ?c ! i) = LOADING"
    "frame_pos ?c (pte_frame e) = i" "\<not> pte_in_swap e"
    by (rule vm_inv_entry [OF inv e]) simp
  define c where "c = ?c\<lparr>cm_entries := (cm_entries ?c)[i := (cm_entries ?c ! i)\<lparr>cme_state := CLEAN\<rparr>]\<rparr>"
  have up: "cm_update_state (pte_frame e) CLEAN ?c = Some c"
    unfolding cm_update_state_def Let_def i(6) using i(1) by (simp add: c_def)
  have wf: "cm_wf c"
    by (rule cm_update_state_wf [OF I(3) i(1,5)]) (use i(3) up in \<open>simp_all add: i(2)\<close>)
  have fp: "frame_paddr c = frame_paddr ?c" by (rule ext) (simp add: frame_paddr_def c_def)
  have ent: "cm_entries c ! j = (if j = i then (cm_entries ?c ! i)\<lparr>cme_state := CLEAN\<rparr> else cm_entries ?c ! j)"
    if "j < ram_frames ?c" for j
    using that by (simp add: c_def)
  have as_eq: "cme_as (cm_entries c ! j) = cme_as (cm_entries ?c ! j)" if "j < ram_frames ?c" for j
    using ent [OF that] by simp
  have va_eq: "cme_vaddr (cm_entries c ! j) = cme_vaddr (cm_entries ?c ! j)" if "j < ram_frames ?c" for j
    using ent [OF that] by simp
  have len: "ram_frames c = ram_frames ?c" by (simp add: c_def)
  have "pt_backed a None c (cur_pt s)"
    unfolding pt_backed_def
  proof (intro ballI impI)
    fix x assume x: "x \<in> set (cur_pt s)" "pte_in_mem x"
    obtain j where j: "j < ram_frames ?c" "pte_frame x = frame_paddr ?c j" "cme_as (cm_entries ?c ! j) = Some a"
      "cme_vaddr (cm_entries ?c ! j) = pte_page x"
      "cme_state (cm_entries ?c ! j) = (if Some (pte_page e) = Some (pte_page x) then LOADING else CLEAN)"
      "\<not> pte_in_swap x"
      by (rule vm_inv_entry [OF inv x]) blast
    have st: "cme_state (cm_entries c ! j) = CLEAN"
    proof (cases "j = i")
      case False
      then have "pte_frame x \<noteq> pte_frame e"
        unfolding i(2) j(2) using frame_paddr_inj [OF I(13) j(1) i(1)] by simp
      then have "pte_page x \<noteq> pte_page e" using pt_page_unique [OF I(14) x(1) e(1)] by metis
      then show ?thesis using ent [OF j(1)] False j(5) by simp
    qed (use ent [OF i(1)] in simp)
    show "\<not> pte_in_swap x \<and> (\<exists>j < ram_frames c. pte_frame x = frame_paddr c j \<and>
        cme_as (cm_entries c ! j) = Some a \<and> cme_vaddr (cm_entries c ! j) = pte_page x \<and>
        cme_state (cm_entries c ! j) = (if None = Some (pte_page x) then LOADING else CLEAN))"
      by (intro conjI exI [of _ j]) (simp_all add: len fp st as_eq [OF j(1)] va_eq [OF j(1)] j(1-4,6))
  qed
  moreover have "cm_backed a c (cur_pt s)"
    using I(8) as_eq unfolding cm_backed_def len fp by simp
  moreover have "swap_match a None (vs_swap s) (cur_pt s)"
    unfolding swap_match_def
  proof (intro ballI impI)
    fix x assume x: "x \<in> set (cur_pt s)"
    show "pte_in_swap x \<longleftrightarrow> swap_contents (vs_swap s) (a, pte_page x) \<noteq> None"
    proof (cases "x = e")
      case True
      then show ?thesis using i(7) sw by simp
    next
      case False
      then have "pte_page x \<noteq> pte_page e" using pt_page_unique [OF I(14) x e(1)] by metis
      then show ?thesis using I(11) x unfolding swap_match_def by simp
    qed
  qed
  ultimately have "vm_inv a None (s\<lparr>vs_cmap := c\<rparr>)"
    using inv wf unfolding vm_inv_def by simp
  moreover have "update_state (pte_frame e) CLEAN s = Some (s\<lparr>vs_cmap := c\<rparr>)"
    using up by (simp add: update_state_def)
  ultimately show ?thesis by blast
qed

lemma tlb_store_served:
  assumes inv: "vm_inv a ld s" and e: "e \<in> set (cur_pt s)" "pte_in_mem e" and x: "x AND PAGE_FRAME = pte_page e"
  shows "\<exists>s'. tlb_store (pte_page e) (pte_frame e) w s = Some s' \<and> tlb_moved s s' \<and>
    mmu_translate (vs_tlb s') x False = Hit (pte_frame e OR (x AND 0xfff)) \<and>
    mmu_translate (vs_tlb s') x True = (if 0 < w then Hit (pte_frame e OR (x AND 0xfff)) else Modify)"
proof -
  note I = vm_invD [OF inv]
  obtain t st where t: "tlbW (pte_page e) (pte_frame e) w (vs_tlb s) (vs_stats s) = Some (t, st)"
    using tlbW_total [OF I(4)] by blast
  obtain i where al: "pte_frame e AND PAGE_FRAME = pte_frame e"
    by (rule vm_inv_entry [OF inv e]) blast
  have "tlb_moved s (s\<lparr>vs_tlb := t, vs_stats := st\<rparr>)"
    unfolding tlb_moved_def
    using tlbW_wf [OF I(4) t] tlbW_coherent [OF I(4,6) e refl vm_inv_page(1) [OF inv e(1)] al t] by blast
  then show ?thesis
    using t tlbW_mmu [OF I(4) al t, of x] x vm_inv_page(1) [OF inv e(1)]
    by (intro exI [of _ "s\<lparr>vs_tlb := t, vs_stats := st\<rparr>"]) (simp add: tlb_store_def)
qed

text \<open>What a served fault at address x leaves: the invariant, the same view, the page in memory, and a
  translation that lets the access through as far as the segment permits.\<close>

definition served :: "nat \<Rightarrow> vmstate \<Rightarrow> vaddr_t \<Rightarrow> int \<Rightarrow> vmstate \<Rightarrow> bool" where
  "served a s x w s' \<longleftrightarrow> vm_inv a None s' \<and> user_view a s' = user_view a s \<and>
     (\<exists>e \<in> set (cur_pt s'). pte_in_mem e \<and> pte_page e = x AND PAGE_FRAME \<and>
        mmu_translate (vs_tlb s') x False = Hit (pte_frame e OR (x AND 0xfff)) \<and>
        mmu_translate (vs_tlb s') x True = (if 0 < w then Hit (pte_frame e OR (x AND 0xfff)) else Modify))"

lemma given_view:
  assumes inv: "vm_inv a None s" and ein: "e \<in> set (cur_pt s)" and g: "given a s e p s2"
    and pt: "cur_pt s' = cur_pt s2"
    and other: "\<And>x. x \<in> set (cur_pt s2) \<Longrightarrow> pte_page x \<noteq> pte_page e \<Longrightarrow> page_view a s' x = page_view a s2 x"
    and own: "page_view a s' (mapped p e) = page_view a s e"
  shows "user_view a s' = user_view a s"
proof (rule user_view_eqI)
  show d: "distinct (map pte_page (cur_pt s))" by (rule vm_invD(14) [OF inv])
  show "map pte_page (cur_pt s') = map pte_page (cur_pt s)" unfolding pt using g by (simp add: given_def)
  fix x x2 assume x: "x \<in> set (cur_pt s)" "x2 \<in> set (cur_pt s')" "pte_page x = pte_page x2"
  show "page_view a s x = page_view a s' x2"
  proof (cases "pte_page x = pte_page e")
    case True
    have "x = e" by (rule pt_page_unique [OF d x(1) ein True])
    moreover have m: "mapped p e \<in> set (cur_pt s2)" and d2: "distinct (map pte_page (cur_pt s2))"
      using g vm_invD(14) unfolding given_def by blast+
    have "x2 \<in> set (cur_pt s2)" "pte_page x2 = pte_page (mapped p e)" using x(2,3) True pt by simp_all
    then have "x2 = mapped p e" using pt_page_unique [OF d2 _ m] by blast
    ultimately show ?thesis using own by simp
  next
    case False
    have x2: "x2 \<in> set (cur_pt s2)" using x(2) unfolding pt .
    have "page_view a s2 x2 = page_view a s x"
      using g x(1) x2 x(3) False unfolding given_def by blast
    moreover have "page_view a s' x2 = page_view a s2 x2" by (rule other [OF x2]) (use x(3) False in simp)
    ultimately show ?thesis by simp
  qed
qed

lemma clip_full: "clip (\<lambda>i. if 0 \<le> i \<and> i < 0 + 4096 then buf (i - 0) else r i) = clip buf"
  by (auto simp: clip_def)

lemma clip_swapfile_read [simp]: "clip (swapfile_read i f) = swapfile_read i f"
  by (auto simp: clip_def swapfile_read_def)

lemma page_off_0: "x AND PAGE_FRAME = x \<Longrightarrow> x AND 0xfff = (0 :: u32)"
proof -
  assume "x AND PAGE_FRAME = x"
  then have "unat (x AND 0xfff) = 0" using page_frame_unat [of x] by (simp add: page_off_unat page_frame_id dvd_eq_mod_eq_0)
  then show ?thesis by (simp add: unat_eq_0)
qed

lemma fault_in_swap_served:
  assumes inv: "vm_inv a None s" and e: "pt_node (cur_pt s) d = Some e" "\<not> pte_in_mem e" "pte_in_swap e"
    and ob: "obtain_frame (vm_fault (Suc n)) a (pte_page e) s = Some (Inr p, s1)"
    and mf: "map_frame d p s1 = Some s2" and g: "given a s e p s2"
    and x: "x AND PAGE_FRAME = pte_page e" and rd: "swap_readable a s (pte_page e)"
  shows "\<exists>s'. fault_in_swap (vm_fault (Suc n)) a seg d (pte_page e) s = Some (None, s') \<and>
    served a s x (perm_write (sg_permission seg)) s'"
proof -
  let ?va = "pte_page e" and ?m = "mapped p e"
  have ein: "e \<in> set (cur_pt s)" using pt_node_in [OF e(1)] by blast
  note V = vm_inv_page [OF inv ein]
  have inv2: "vm_inv a (Some ?va) s2" and m2: "?m \<in> set (cur_pt s2)" and w2: "writable_now s2 ?va ?m"
    and c2: "swap_contents (vs_swap s2) (a, ?va) = swap_contents (vs_swap s) (a, ?va)"
    using g unfolding given_def by blast+
  obtain pg where pg: "swap_contents (vs_swap s) (a, ?va) = Some pg"
    using vm_invD(11) [OF inv] ein e(3) unfolding swap_match_def by auto
  moreover have "swap_ready (vs_swap_io s) (a, ?va) (vs_swap s2)"
    using rd g by (auto simp: swap_transfer_defs given_def)
  ultimately obtain sw where ft: "swap_fetch (vs_swap_io s) (a, ?va) (vs_swap s2) = Some (pg, sw)"
    using swap_fetch_total [of "vs_swap s2" "(a, ?va)" pg "vs_swap_io s"] c2 by auto
  note F = swap_fetch_contents [OF vm_invD(10) [OF inv2] ft]
  obtain i where slot: "swap_in_slot (Some a) ?va (fst (vs_swap s2)) = Some (i, fst sw)"
    and sw: "snd sw = snd (vs_swap s2)" and pgr: "pg = swapfile_read i (snd (vs_swap s2))"
    using ft by (auto simp: swap_fetch_def split: if_splits)
  have io: "vs_swap_io s2 False i = None"
    using slot rd g by (auto simp: swap_in_slot_Some swap_transfer_defs given_def)
  define t where "t = s2\<lparr>vs_swap := sw\<rparr>"
  have swt: "sw = (fst sw, snd (vs_swap s2))" using sw by (metis prod.collapse)
  have "swap_match a (Some ?va) sw (cur_pt s2)"
    using vm_invD(11) [OF inv2] F(2) unfolding swap_match_def by auto
  then have invt: "vm_inv a (Some ?va) t" using inv2 F(3) unfolding vm_inv_def t_def by simp
  have mt: "?m \<in> set (cur_pt t)" using m2 by (simp add: t_def)
  have wt: "writable_now t ?va ?m" using w2 by (simp add: writable_now_def t_def)
  have rt: "resident t ?va ?m" using vm_inv_resident [OF invt mt] by simp
  have off: "?va AND 0xfff = 0" by (rule page_off_0 [OF V(1)])
  then have "unat PAGE_SIZE \<le> page_room ?va" "0 < unat PAGE_SIZE" by simp_all
  from copyout_resident [OF rt V(1) wt this(2,1), of n "swapfile_read i (snd (vs_swap s2))"] off
  obtain s3 where co: "copyout (vm_fault (Suc n)) (swapfile_read i (snd (vs_swap s2))) ?va PAGE_SIZE t =
      Some (None, s3\<lparr>vs_mem := mem_put p 4096 (swapfile_read i (snd (vs_swap s2))) (vs_mem t)\<rparr>)"
    and mv: "tlb_moved t s3"
    by auto
  define u where "u = s3\<lparr>vs_mem := mem_put p 4096 (swapfile_read i (snd (vs_swap s2))) (vs_mem s3)\<rparr>"
  have si: "swap_in (vm_fault (Suc n)) a ?va s2 = Some u"
    using co slot io swt tlb_movedD [OF mv] by (simp add: swap_in_def u_def t_def)
  have inv3: "vm_inv a (Some ?va) s3" by (rule tlb_moved_inv [OF mv invt])
  have m3: "?m \<in> set (cur_pt s3)" using mt tlb_movedD [OF mv] by simp
  have fill: "frame_bytes u p = pg" "\<And>x. x \<in> set (cur_pt s3) \<Longrightarrow> x \<noteq> ?m \<Longrightarrow> page_view a u x = page_view a s3 x"
    using frame_fill [OF inv3 m3 mapped_sel(2), of 0 4096 u "swapfile_read i (snd (vs_swap s2))"]
    unfolding clip_full by (simp_all add: u_def pgr)
  define st where "st = ((vs_stats u)(PAGE_FAULT_SWAP := vs_stats u PAGE_FAULT_SWAP + 1))
    (PAGE_FAULT_DISK := vs_stats u PAGE_FAULT_DISK + 1)"
  define y where "y = u\<lparr>vs_stats := st\<rparr>"
  have invy: "vm_inv a (Some ?va) y" using inv3 by (simp add: y_def u_def)
  have my: "?m \<in> set (cur_pt y)" using m3 by (simp add: y_def u_def)
  have swy: "swap_contents (vs_swap y) (a, ?va) = None"
    using F(2) tlb_movedD [OF mv] by (simp add: y_def u_def t_def)
  from update_clean [of a ?m y] invy my swy
  obtain c where up: "update_state p CLEAN y = Some (y\<lparr>vs_cmap := c\<rparr>)" and invc: "vm_inv a None (y\<lparr>vs_cmap := c\<rparr>)"
    by auto
  have mc: "?m \<in> set (cur_pt (y\<lparr>vs_cmap := c\<rparr>))" using my by simp
  from tlb_store_served [OF invc mc mapped_sel(2), of x "perm_write (sg_permission seg)"] x
  obtain z where tz: "tlb_store ?va p (perm_write (sg_permission seg)) (y\<lparr>vs_cmap := c\<rparr>) = Some z"
    and mz: "tlb_moved (y\<lparr>vs_cmap := c\<rparr>) z"
    and hz: "mmu_translate (vs_tlb z) x False = Hit (p OR (x AND 0xfff))"
      "mmu_translate (vs_tlb z) x True =
       (if 0 < perm_write (sg_permission seg) then Hit (p OR (x AND 0xfff)) else Modify)"
    by auto
  have res: "fault_in_swap (vm_fault (Suc n)) a seg d ?va s = Some (None, z)"
    using ob mf si up tz by (simp add: fault_in_swap_def y_def st_def)
  have ptz: "cur_pt z = cur_pt s2" using tlb_movedD [OF mz] tlb_movedD [OF mv] by (simp add: y_def u_def t_def)
  have view_zu: "page_view a z r = page_view a u r" for r
  proof -
    have "page_view a z r = page_view a (y\<lparr>vs_cmap := c\<rparr>) r" by (rule tlb_moved_view [OF mz])
    also have "\<dots> = page_view a u r"
      by (rule page_view_cong, simp_all add: y_def, rule init_page_cong) simp_all
    finally show ?thesis .
  qed
  have "user_view a z = user_view a s"
  proof (rule given_view [OF inv ein g ptz])
    show "page_view a z ?m = page_view a s e"
      unfolding view_zu using fill(1) pg e(2) by (simp add: page_view_def)
    fix r assume r: "r \<in> set (cur_pt s2)" "pte_page r \<noteq> ?va"
    have "page_view a z r = page_view a s3 r"
      unfolding view_zu by (rule fill(2)) (use r tlb_movedD [OF mv] in \<open>auto simp: t_def\<close>)
    also have "\<dots> = page_view a t r" by (rule tlb_moved_view [OF mv])
    also have "\<dots> = page_view a s2 r"
    proof -
      have ip: "init_page t v = init_page s2 v" for v by (rule init_page_cong) (simp_all add: t_def)
      have cc: "swap_contents (vs_swap t) (a, pte_page r) = swap_contents (vs_swap s2) (a, pte_page r)"
        using F(2) r(2) by (simp add: t_def)
      have fb: "frame_bytes t q = frame_bytes s2 q" for q by (simp add: frame_bytes_def t_def)
      show ?thesis unfolding page_view_def ip cc fb ..
    qed
    finally show "page_view a z r = page_view a s2 r" .
  qed
  moreover have "vm_inv a None z" by (rule tlb_moved_inv [OF mz invc])
  ultimately have "served a s x (perm_write (sg_permission seg)) z"
    unfolding served_def using hz m2 x ptz by (intro conjI bexI [of _ ?m]) simp_all
  with res show ?thesis by blast
qed

text \<open>A step that fills the frame of one entry and otherwise only moves the TLB.\<close>

definition filled :: "nat \<Rightarrow> vmstate \<Rightarrow> pt_entry \<Rightarrow> page \<Rightarrow> vmstate \<Rightarrow> bool" where
  "filled a s e pg s' \<longleftrightarrow> vm_inv a (Some (pte_page e)) s' \<and> e \<in> set (cur_pt s') \<and> writable_now s' (pte_page e) e \<and>
     vs_swap s' = vs_swap s \<and> vs_files s' = vs_files s \<and> vs_elf_io s' = vs_elf_io s \<and> vs_space s' = vs_space s \<and>
     frame_bytes s' (pte_frame e) = pg \<and>
     (\<forall>x \<in> set (cur_pt s). x \<noteq> e \<longrightarrow> page_view a s' x = page_view a s x)"

lemma filled_trans: "filled a s e pg s1 \<Longrightarrow> filled a s1 e pg2 s2 \<Longrightarrow> filled a s e pg2 s2"
  unfolding filled_def by (elim conjE, intro conjI ballI impI) simp_all

lemma filled_write:
  assumes inv: "vm_inv a (Some (pte_page e)) s" and e: "e \<in> set (cur_pt s)" "pte_in_mem e"
    and mv: "tlb_moved s s1" and w: "writable_now s1 (pte_page e) e" and kn: "k + n \<le> 4096"
    and p': "p' = pte_frame e + of_nat k"
  shows "filled a s e (clip (\<lambda>i. if k \<le> i \<and> i < k + n then buf (i - k) else mem_get (pte_frame e) (vs_mem s) i))
    (s1\<lparr>vs_mem := mem_put p' n buf (vs_mem s)\<rparr>)"
proof -
  note T = tlb_movedD [OF mv]
  have inv1: "vm_inv a (Some (pte_page e)) s1" by (rule tlb_moved_inv [OF mv inv])
  have e1: "e \<in> set (cur_pt s1)" using e(1) T by simp
  note fill = frame_fill [OF inv1 e1 e(2) kn refl, where buf = buf]
  have "page_view a (s1\<lparr>vs_mem := mem_put p' n buf (vs_mem s)\<rparr>) x = page_view a s x"
    if "x \<in> set (cur_pt s)" "x \<noteq> e" for x
    using fill(2) [of x] tlb_moved_view [OF mv, of a x] that T p' by simp
  moreover have "frame_bytes (s1\<lparr>vs_mem := mem_put p' n buf (vs_mem s)\<rparr>) (pte_frame e) =
    clip (\<lambda>i. if k \<le> i \<and> i < k + n then buf (i - k) else mem_get (pte_frame e) (vs_mem s) i)"
  proof -
    have "vs_mem s1 = vs_mem s" using T by blast
    then show ?thesis using fill(1) unfolding p' by (simp only:)
  qed
  ultimately show ?thesis
    unfolding filled_def using inv1 e1 w T by simp
qed

lemma bzero_resident:
  assumes inv: "vm_inv a (Some (pte_page e)) s" and e: "e \<in> set (cur_pt s)" "pte_in_mem e"
    and w: "writable_now s (pte_page e) e"
  shows "\<exists>s'. bzero_page (vm_fault (Suc m)) (pte_page e) s = Some s' \<and> filled a s e (\<lambda>_. 0) s'"
proof -
  note V = vm_inv_page [OF inv e(1)]
  have off: "pte_page e AND 0xfff = 0" by (rule page_off_0 [OF V(1)])
  have room: "PAGE_BYTES \<le> page_room (pte_page e)" using off by simp
  from user_write_resident [OF vm_inv_resident [OF inv e] V(1) w room, of m "\<lambda>_. 0"] off
  obtain s1 where s1: "user_write (vm_fault (Suc m)) (pte_page e) PAGE_BYTES (\<lambda>_. 0) s =
      Some (None, s1\<lparr>vs_mem := mem_put (pte_frame e) 4096 (\<lambda>_. 0) (vs_mem s)\<rparr>)"
    "tlb_moved s s1" "writable_now s1 (pte_page e) e" by auto
  have "filled a s e (clip (\<lambda>i. if 0 \<le> i \<and> i < 0 + 4096 then (\<lambda>_. 0) (i - 0) else mem_get (pte_frame e) (vs_mem s) i))
    (s1\<lparr>vs_mem := mem_put (pte_frame e) 4096 (\<lambda>_. 0) (vs_mem s)\<rparr>)"
    by (rule filled_write [OF inv e s1(2,3)]) simp_all
  moreover have "clip (\<lambda>i. if 0 \<le> i \<and> i < 0 + 4096 then (\<lambda>_. 0) (i - 0) else r i) = (\<lambda>_. 0)" for r
    by (rule ext) (simp add: clip_def)
  ultimately have "filled a s e (\<lambda>_. 0) (s1\<lparr>vs_mem := mem_put (pte_frame e) 4096 (\<lambda>_. 0) (vs_mem s)\<rparr>)"
    by (simp only:)
  moreover have "pte_page e < USERSPACETOP" using V(2) by (simp add: word_less_nat_alt)
  ultimately show ?thesis using s1(1) by (simp add: bzero_page_def)
qed

lemma page_plus_off:
  assumes "va AND PAGE_FRAME = (va :: u32)"
  shows "(va + (x AND 0xfff)) AND PAGE_FRAME = va" "(va + (x AND 0xfff)) AND 0xfff = x AND 0xfff"
proof -
  have o: "va + (x AND 0xfff) = va OR (x AND 0xfff)" using aligned_or [OF assms] by simp
  have z: "va AND 0xfff = 0" by (rule page_off_0 [OF assms])
  show "(va + (x AND 0xfff)) AND PAGE_FRAME = va"
    unfolding o by (simp add: bit.conj_disj_distrib2 assms and.assoc)
  show "(va + (x AND 0xfff)) AND 0xfff = x AND 0xfff"
    unfolding o by (simp add: bit.conj_disj_distrib2 z and.assoc)
qed

lemma load_resident:
  assumes inv: "vm_inv a (Some (pte_page e)) s" and e: "e \<in> set (cur_pt s)" "pte_in_mem e"
    and w: "writable_now s (pte_page e) e" and zero: "frame_bytes s (pte_frame e) = (\<lambda>_. 0)"
    and g: "load_geom seg" "0 \<le> sg_offset seg" and i: "1 \<le> i" "i \<le> sg_npages seg"
    and top: "sg_npages seg * 4096 \<le> 0x80000000" and v: "as_elf_file (vs_space s) = Some v"
  defines "va \<equiv> (if i = 1 then pte_page e + (word_of_int (sg_offset seg) AND 0xfff) else pte_page e)"
  shows "\<exists>r s'. load_page_from_elf (vm_fault (Suc m)) va (compute_offset (sg_offset seg) i)
      (compute_memsz seg i) (compute_memsz seg i) x s = Some (r, s') \<and>
    filled a s e (if vs_elf_io s v (compute_offset (sg_offset seg) i) = None then seg_image (vs_files s v) seg i else (\<lambda>_. 0)) s'"
    and "va AND PAGE_FRAME = pte_page e"
proof -
  let ?off = "compute_offset (sg_offset seg) i" and ?f = "vs_files s v"
  define n where "n = file_avail ?f ?off (unat (compute_memsz seg i))"
  define k where "k = (if i = 1 then seg_pad seg else 0)"
  note S = seg_image_load [OF g i top k_def n_def]
  note V = vm_inv_page [OF inv e(1)]
  note P = page_plus_off [OF V(1), of "word_of_int (sg_offset seg)"]
  show vp: "va AND PAGE_FRAME = pte_page e" using P(1) V(1) by (simp add: va_def)
  have vo: "unat (va AND 0xfff) = k"
    using P(2) seg_off_word [OF g(2)] page_off_0 [OF V(1)] by (simp add: va_def k_def)
  have nk: "k + n \<le> 4096" using S(1) by (simp add: n_def file_avail_def)
  have fr: "pte_frame e OR (va AND 0xfff) = pte_frame e + of_nat k"
  proof -
    obtain j where "pte_frame e AND PAGE_FRAME = pte_frame e" by (rule vm_inv_entry [OF inv e]) blast
    then have "pte_frame e OR (va AND 0xfff) = pte_frame e + (va AND 0xfff)" by (rule aligned_or)
    moreover have "va AND 0xfff = of_nat k" unfolding vo [symmetric] by simp
    ultimately show ?thesis by simp
  qed
  have img: "clip (\<lambda>j. if k \<le> j \<and> j < k + n then file_page ?f ?off (j - k) else mem_get (pte_frame e) (vs_mem s) j)
    = seg_image ?f seg i"
    unfolding S(2) [symmetric]
  proof (rule ext)
    fix j
    have "j < 4096 \<Longrightarrow> mem_get (pte_frame e) (vs_mem s) j = 0"
      using fun_cong [OF zero, of j] by (simp add: frame_bytes_def clip_def)
    then show "clip (\<lambda>j. if k \<le> j \<and> j < k + n then file_page ?f ?off (j - k) else mem_get (pte_frame e) (vs_mem s) j) j
      = clip (\<lambda>j. if k \<le> j \<and> j < k + n then file_page ?f ?off (j - k) else 0) j"
      by (simp add: clip_def)
  qed
  have res: "load_page_from_elf (vm_fault (Suc m)) va ?off (compute_memsz seg i) (compute_memsz seg i) x s =
    Option.bind (if n = 0 then Some (None, s) else copyout (vm_fault (Suc m)) (file_page ?f ?off) va (of_nat n) s)
      (\<lambda>(r, s1). case r of Some e \<Rightarrow> Some (Some e, s1)
         | None \<Rightarrow> Some (if n \<noteq> unat (compute_memsz seg i) then Some ENOEXEC else None, s1))"
    if "vs_elf_io s v ?off = None" using that by (simp add: load_page_from_elf_def v n_def Let_def)
  have err: "load_page_from_elf (vm_fault (Suc m)) va ?off (compute_memsz seg i) (compute_memsz seg i) x s =
    Some (vs_elf_io s v ?off, s)" if "vs_elf_io s v ?off \<noteq> None"
    using that by (simp add: load_page_from_elf_def v Let_def)
  have "filled a s e (\<lambda>_. 0) s" unfolding filled_def using inv e(1) w zero by simp
  then show "\<exists>r s'. load_page_from_elf (vm_fault (Suc m)) va ?off (compute_memsz seg i) (compute_memsz seg i) x s =
      Some (r, s') \<and> filled a s e (if vs_elf_io s v ?off = None then seg_image ?f seg i else (\<lambda>_. 0)) s'"
  proof (cases "vs_elf_io s v ?off = None")
    case False
    then show ?thesis using err [OF False] \<open>filled a s e (\<lambda>_. 0) s\<close> by auto
  next
    case io: True
    have "\<exists>r s'. load_page_from_elf (vm_fault (Suc m)) va ?off (compute_memsz seg i) (compute_memsz seg i) x s =
      Some (r, s') \<and> filled a s e (seg_image ?f seg i) s'"
  proof (cases "n = 0")
    case True
    have "seg_image ?f seg i = frame_bytes s (pte_frame e)"
      unfolding img [symmetric] frame_bytes_def by (rule ext) (auto simp: clip_def True)
    then have "filled a s e (seg_image ?f seg i) s"
      unfolding filled_def using inv e(1) w by simp
    then show ?thesis unfolding res [OF io] using True by auto
  next
    case False
    have un: "unat (of_nat n :: u32) = n" using nk by (intro unat_of_nat_u32) simp
    have room: "unat (of_nat n :: u32) \<le> page_room va" unfolding un vo using nk by simp
    have pos: "0 < unat (of_nat n :: u32)" unfolding un using False by simp
    obtain s1 where s1: "copyout (vm_fault (Suc m)) (file_page ?f ?off) va (of_nat n) s =
        Some (None, s1\<lparr>vs_mem := mem_put (pte_frame e + of_nat k) n (file_page ?f ?off) (vs_mem s)\<rparr>)"
      "tlb_moved s s1" "writable_now s1 (pte_page e) e"
      using copyout_resident [OF vm_inv_resident [OF inv e] vp w pos room, of m "file_page ?f ?off"]
      unfolding un fr by blast
    have "filled a s e (seg_image ?f seg i)
      (s1\<lparr>vs_mem := mem_put (pte_frame e + of_nat k) n (file_page ?f ?off) (vs_mem s)\<rparr>)"
      unfolding img [symmetric] by (rule filled_write [OF inv e s1(2,3) nk refl])
    then show ?thesis unfolding res [OF io] s1(1) using False by auto
  qed
    then show ?thesis using io by simp
  qed
qed

lemma lookup_mapped:
  "as_segments (vs_space s2) = as_segments (vs_space s) \<Longrightarrow> map pte_page (cur_pt s2) = map pte_page (cur_pt s) \<Longrightarrow>
   lookup (vs_space s2) va = lookup (vs_space s) va"
  by (rule lookup_cong)

text \<open>The last steps, common to the two kinds of first touch and to the return from swap.\<close>

lemma finish_fault:
  assumes inv: "vm_inv a (Some (pte_page e)) s" and e: "e \<in> set (cur_pt s)" "pte_in_mem e"
    and sw: "swap_contents (vs_swap s) (a, pte_page e) = None" and x: "x AND PAGE_FRAME = pte_page e"
  shows "\<exists>s1 s2. update_state (pte_frame e) CLEAN s = Some s1 \<and> tlb_store (pte_page e) (pte_frame e) w s1 = Some s2 \<and>
    vm_inv a None s2 \<and> cur_pt s2 = cur_pt s \<and> (\<forall>r. page_view a s2 r = page_view a s r) \<and>
    mmu_translate (vs_tlb s2) x False = Hit (pte_frame e OR (x AND 0xfff)) \<and>
    mmu_translate (vs_tlb s2) x True = (if 0 < w then Hit (pte_frame e OR (x AND 0xfff)) else Modify)"
proof -
  obtain c where up: "update_state (pte_frame e) CLEAN s = Some (s\<lparr>vs_cmap := c\<rparr>)"
    and invc: "vm_inv a None (s\<lparr>vs_cmap := c\<rparr>)"
    using update_clean [OF inv e sw] by blast
  have ec: "e \<in> set (cur_pt (s\<lparr>vs_cmap := c\<rparr>))" using e(1) by simp
  obtain z where z: "tlb_store (pte_page e) (pte_frame e) w (s\<lparr>vs_cmap := c\<rparr>) = Some z" "tlb_moved (s\<lparr>vs_cmap := c\<rparr>) z"
    "mmu_translate (vs_tlb z) x False = Hit (pte_frame e OR (x AND 0xfff))"
    "mmu_translate (vs_tlb z) x True = (if 0 < w then Hit (pte_frame e OR (x AND 0xfff)) else Modify)"
    using tlb_store_served [OF invc ec e(2) x, of w] by blast
  have "page_view a z r = page_view a s r" for r
  proof -
    have "page_view a z r = page_view a (s\<lparr>vs_cmap := c\<rparr>) r" by (rule tlb_moved_view [OF z(2)])
    also have "\<dots> = page_view a s r" by (rule page_view_cong, simp_all, rule init_page_cong) simp_all
    finally show ?thesis .
  qed
  moreover have "vm_inv a None z" by (rule tlb_moved_inv [OF z(2) invc])
  moreover have "cur_pt z = cur_pt s" using tlb_movedD [OF z(2)] by simp
  ultimately show ?thesis using up z(1,3,4) by blast
qed

lemma page_view_stats [simp]: "page_view a (s\<lparr>vs_stats := st\<rparr>) r = page_view a s r"
  by (rule page_view_cong, simp_all, rule init_page_cong) simp_all

lemma fault_first_served:
  assumes inv: "vm_inv a None s" and look: "lookup (vs_space s) (pte_page e) = Some (seg, i, d)"
    and e: "pt_node (cur_pt s) d = Some e" "\<not> pte_in_mem e" "\<not> pte_in_swap e"
    and ob: "obtain_frame (vm_fault (Suc n)) a (pte_page e) s = Some (Inr p, s1)"
    and mf: "map_frame d p s1 = Some s2" and g: "given a s e p s2"
    and x: "x AND PAGE_FRAME = pte_page e"
  shows "\<exists>s'. fault_first (vm_fault (Suc n)) a seg i d (pte_page e) s = Some (None, s') \<and>
    served a s x (perm_write (sg_permission seg)) s'"
proof -
  let ?va = "pte_page e" and ?m = "mapped p e" and ?w = "perm_write (sg_permission seg)"
  note I = vm_invD [OF inv]
  have ein: "e \<in> set (cur_pt s)" using pt_node_in [OF e(1)] by blast
  have inv2: "vm_inv a (Some (pte_page ?m)) s2" and m2: "?m \<in> set (cur_pt s2)" and w2: "writable_now s2 (pte_page ?m) ?m"
    and c2: "swap_contents (vs_swap s2) (a, ?va) = swap_contents (vs_swap s) (a, ?va)"
    and files: "vs_files s2 = vs_files s" and eio: "vs_elf_io s2 = vs_elf_io s" and elf: "as_elf_file (vs_space s2) = as_elf_file (vs_space s)"
    using g unfolding given_def mapped_sel(1) by blast+
  have nsw: "swap_contents (vs_swap s) (a, ?va) = None"
    using I(11) ein e(3) unfolding swap_match_def by blast
  obtain s3 where bz: "bzero_page (vm_fault (Suc n)) ?va s2 = Some s3" and f3: "filled a s2 ?m (\<lambda>_. 0) s3"
    using bzero_resident [OF inv2 m2 mapped_sel(2) w2, of n] by auto
  text \<open>It remains to fill the page with its initial contents and to finish.\<close>
  have finish: "\<exists>u1 u2. update_state p CLEAN (u\<lparr>vs_stats := st\<rparr>) = Some u1 \<and> tlb_store ?va p ?w u1 = Some u2 \<and>
      (\<forall>st2. served a s x ?w (u2\<lparr>vs_stats := st2\<rparr>))"
    if fu: "filled a s2 ?m (init_page s ?va) u" for u st
  proof -
    have U: "vm_inv a (Some (pte_page ?m)) (u\<lparr>vs_stats := st\<rparr>)" "?m \<in> set (cur_pt (u\<lparr>vs_stats := st\<rparr>))"
      "swap_contents (vs_swap (u\<lparr>vs_stats := st\<rparr>)) (a, pte_page ?m) = None"
      using fu c2 nsw m2 unfolding filled_def by simp_all
    have x': "x AND PAGE_FRAME = pte_page ?m" using x by simp
    obtain u1 u2 where u: "update_state p CLEAN (u\<lparr>vs_stats := st\<rparr>) = Some u1" "tlb_store ?va p ?w u1 = Some u2"
      and inv': "vm_inv a None u2" and pt: "cur_pt u2 = cur_pt (u\<lparr>vs_stats := st\<rparr>)"
      and vw: "\<And>r. page_view a u2 r = page_view a (u\<lparr>vs_stats := st\<rparr>) r"
      and tr: "mmu_translate (vs_tlb u2) x False = Hit (p OR (x AND 0xfff))"
        "mmu_translate (vs_tlb u2) x True = (if 0 < ?w then Hit (p OR (x AND 0xfff)) else Modify)"
      using finish_fault [OF U(1,2) mapped_sel(2) U(3) x', of ?w] by auto
    have ptu: "cur_pt u2 = cur_pt s2" using pt fu by (simp add: filled_def)
    have "user_view a u2 = user_view a s"
    proof (rule given_view [OF inv ein g ptu])
      show "page_view a u2 ?m = page_view a s e"
        unfolding vw using fu nsw e(2) by (simp add: page_view_def filled_def frame_bytes_def)
      fix r assume r: "r \<in> set (cur_pt s2)" "pte_page r \<noteq> ?va"
      then have "r \<noteq> ?m" by auto
      then show "page_view a u2 r = page_view a s2 r" unfolding vw using fu r(1) by (simp add: filled_def)
    qed
    moreover have "user_view a (u2\<lparr>vs_stats := st2\<rparr>) = user_view a u2" for st2
      by (simp add: user_view_def)
    ultimately have "served a s x ?w (u2\<lparr>vs_stats := st2\<rparr>)" for st2
      unfolding served_def using inv' tr m2 ptu x by (intro conjI bexI [of _ ?m]) simp_all
    with u show ?thesis by blast
  qed
  have init: "init_page s ?va = (if sg_offset seg < 0 then (\<lambda>_. 0)
      else (case as_elf_file (vs_space s) of None \<Rightarrow> (\<lambda>_. 0) | Some v \<Rightarrow>
        if vs_elf_io s v (compute_offset (sg_offset seg) i) = None then seg_image (vs_files s v) seg i else (\<lambda>_. 0)))"
    by (simp add: init_page_def look)
  show ?thesis
  proof (cases "sg_offset seg < 0")
    case True
    then have "filled a s2 ?m (init_page s ?va) s3" using f3 init by simp
    from finish [OF this, of "vs_stats s3"] obtain u1 u2 where
      u: "update_state p CLEAN s3 = Some u1" "tlb_store ?va p ?w u1 = Some u2" "\<And>st2. served a s x ?w (u2\<lparr>vs_stats := st2\<rparr>)"
      by auto
    have "fault_first (vm_fault (Suc n)) a seg i d ?va s =
      Some (None, u2\<lparr>vs_stats := (vs_stats u2)(PAGE_FAULT_ZERO := vs_stats u2 PAGE_FAULT_ZERO + 1)\<rparr>)"
      using ob mf bz u(1,2) True by (simp add: fault_first_def)
    then show ?thesis using u(3) by blast
  next
    case False
    then have off: "0 \<le> sg_offset seg" by simp
    note L = lookup_Some [OF look]
    have geom: "load_geom seg" using I(12) L(2) by (simp add: load_ok_def)
    obtain v where v: "as_elf_file (vs_space s) = Some v" using I(12) by (auto simp: load_ok_def)
    have top: "sg_npages seg * 4096 \<le> 0x80000000"
      using I(5) L(2) unfolding as_wf_def seg_ok_def by fastforce
    have F: "vm_inv a (Some (pte_page ?m)) s3" "?m \<in> set (cur_pt s3)" "writable_now s3 (pte_page ?m) ?m"
      "frame_bytes s3 (pte_frame ?m) = (\<lambda>_. 0)" "as_elf_file (vs_space s3) = Some v" "vs_files s3 = vs_files s"
      "vs_elf_io s3 = vs_elf_io s"
      using f3 v elf files eio m2 unfolding filled_def by simp_all
    define va where "va = (if i = 1 then ?va + (word_of_int (sg_offset seg) AND 0xfff) else ?va)"
    have vap: "va AND PAGE_FRAME = ?va"
      using load_resident(2) [OF F(1,2) mapped_sel(2) F(3,4) geom off L(4,5) top F(5)]
      unfolding mapped_sel(1) va_def .
    obtain r u where lp: "load_page_from_elf (vm_fault (Suc n)) va (compute_offset (sg_offset seg) i)
        (compute_memsz seg i) (compute_memsz seg i) (perm_exec (sg_permission seg)) s3 = Some (r, u)"
      and fu: "filled a s3 ?m (if vs_elf_io s v (compute_offset (sg_offset seg) i) = None then seg_image (vs_files s v) seg i
        else (\<lambda>_. 0)) u"
      using load_resident(1) [OF F(1,2) mapped_sel(2) F(3,4) geom off L(4,5) top F(5), of n
          "perm_exec (sg_permission seg)"] unfolding F(6,7) mapped_sel(1) va_def by blast
    have "filled a s2 ?m (init_page s ?va) u"
      using filled_trans [OF f3 fu] init False v by simp
    from finish [OF this, of "((vs_stats u)(PAGE_FAULT_ELF := vs_stats u PAGE_FAULT_ELF + 1))
        (PAGE_FAULT_DISK := vs_stats u PAGE_FAULT_DISK + 1)"]
    obtain u1 u2 where
      u: "update_state p CLEAN (u\<lparr>vs_stats := ((vs_stats u)(PAGE_FAULT_ELF := vs_stats u PAGE_FAULT_ELF + 1))
        (PAGE_FAULT_DISK := vs_stats u PAGE_FAULT_DISK + 1)\<rparr>) = Some u1" "tlb_store ?va p ?w u1 = Some u2"
      "\<And>st2. served a s x ?w (u2\<lparr>vs_stats := st2\<rparr>)"
      by blast
    have "fault_first (vm_fault (Suc n)) a seg i d ?va s = Some (None, u2)"
      using ob mf bz lp u(1,2) False vap by (simp add: fault_first_def va_def Let_def)
    moreover have "served a s x ?w u2" using u(3) [of "vs_stats u2"] by simp
    ultimately show ?thesis by blast
  qed
qed

subsection \<open>The outcome of a fault\<close>

text \<open>A frame is to be had when one is free, or when the process has a frame that may be evicted and
  the swap space can take the page. A page can be brought in when it is in memory, or a frame is to be
  had and the page is not in a slot of the swap file that cannot be read.\<close>

definition can_obtain :: "nat \<Rightarrow> vmstate \<Rightarrow> bool" where
  "can_obtain a s \<longleftrightarrow> (\<exists>x \<in> set (cm_entries (vs_cmap s)). cme_state x = FREE) \<or>
     (cm_evict (Some a) (vs_cmap s) \<noteq> None \<and> swap_writable s)"

definition can_serve :: "nat \<Rightarrow> vmstate \<Rightarrow> pt_entry \<Rightarrow> bool" where
  "can_serve a s e \<longleftrightarrow> pte_in_mem e \<or> (can_obtain a s \<and> (pte_in_swap e \<longrightarrow> swap_readable a s (pte_page e)))"

lemma obtain_served:
  assumes inv: "vm_inv a None s" and e: "pt_node (cur_pt s) d = Some e" "\<not> pte_in_mem e"
    and look: "lookup (vs_space s) (pte_page e) \<noteq> None" and c: "can_obtain a s"
  shows "\<exists>p s1 s2. obtain_frame (vm_fault (Suc n)) a (pte_page e) s = Some (Inr p, s1) \<and>
    map_frame d p s1 = Some s2 \<and> given a s e p s2"
proof (cases "find_idx (\<lambda>x. cme_state x = FREE) (cm_entries (vs_cmap s))")
  case (Some i)
  then show ?thesis by (rule obtain_free [OF inv e look])
next
  case None
  then have "\<not> (\<exists>x \<in> set (cm_entries (vs_cmap s)). cme_state x = FREE)" unfolding find_idx_None by blast
  then have "cm_evict (Some a) (vs_cmap s) \<noteq> None" and room: "swap_writable s"
    using c unfolding can_obtain_def by blast+
  then obtain victim p pos c1 where "cm_evict (Some a) (vs_cmap s) = Some (victim, p, pos, c1)" by auto
  from obtain_victim [OF inv e look None this room] show ?thesis by blast
qed

lemma obtain_panics:
  assumes "\<not> can_obtain a s"
  shows "obtain_frame h a va s = None"
proof -
  have no: "find_idx (\<lambda>x. cme_state x = FREE) (cm_entries (vs_cmap s)) = None"
    using assms unfolding can_obtain_def find_idx_None by blast
  have "handle_victim_and_swapout h a va s = None"
  proof (cases "cm_evict (Some a) (vs_cmap s)")
    case None
    then show ?thesis by (simp add: handle_victim_and_swapout_def)
  next
    case (Some r)
    then have w: "\<not> swap_writable s" using assms unfolding can_obtain_def by blast
    have "swap_out h a v t = None" if t: "vs_swap t = vs_swap s" "vs_swap_io t = vs_swap_io s" for v t
    proof (cases "find_idx (\<lambda>e. sw_as e = NULL) (fst (vs_swap s))")
      case None
      then show ?thesis by (simp add: swap_out_def swap_out_slot_def t)
    next
      case (Some i)
      then have "vs_swap_io s True i \<noteq> None" using w by (simp add: swap_transfer_defs)
      then show ?thesis using Some by (auto simp: swap_out_def swap_out_slot_def t)
    qed
    then show ?thesis using Some by (cases r) (simp add: handle_victim_and_swapout_def)
  qed
  then show ?thesis unfolding obtain_frame_def frame_alloc_None [OF no] by simp
qed

text \<open>A page in a slot that cannot be read is not brought in.\<close>

lemma swap_in_panics:
  assumes "swap_inv (vs_swap s2)" "\<not> swap_readable a s va" "vs_swap_io s2 = vs_swap_io s"
    and "find_idx (slot_key (a, va)) (fst (vs_swap s2)) = find_idx (slot_key (a, va)) (fst (vs_swap s))"
  shows "swap_in h a va s2 = None"
proof (cases "find_idx (slot_key (a, va)) (fst (vs_swap s))")
  case None
  then show ?thesis using assms(4) by (simp add: swap_in_def swap_in_slot_def)
next
  case (Some i)
  then have "vs_swap_io s False i \<noteq> None" using assms(2) by (simp add: swap_transfer_defs)
  then show ?thesis using Some assms(3,4) by (auto simp: swap_in_def swap_in_slot_def)
qed

abbreviation faulted :: "vmstate \<Rightarrow> vmstate" where
  "faulted s \<equiv> s\<lparr>vs_stats := (vs_stats s)(TLB_FAULT := vs_stats s TLB_FAULT + 1)\<rparr>"

lemma served_faulted: "served a (faulted s) x w s' \<longleftrightarrow> served a s x w s'"
  unfolding served_def by (simp add: user_view_def)

lemma vm_fault_served:
  assumes inv: "vm_inv a None s" and ft: "ft = VM_FAULT_READ \<or> ft = VM_FAULT_WRITE"
    and look: "lookup (vs_space s) (x AND PAGE_FRAME) = Some (seg, i, d)" and nd: "pt_node (cur_pt s) d = Some e"
    and c: "can_serve a s e"
  shows "\<exists>s'. vm_fault (Suc (Suc n)) ft x s = Some (None, s') \<and> served a s x (perm_write (sg_permission seg)) s'"
proof -
  note I = vm_invD [OF inv]
  have pg: "pte_page e = x AND PAGE_FRAME" using lookup_Some(7) [OF look] nd by simp
  have inv1: "vm_inv a None (faulted s)" using inv by simp
  have body: "vm_fault (Suc (Suc n)) ft x s =
    (if pte_in_mem e then fault_in_mem seg e (pte_page e) (faulted s)
     else if pte_in_swap e then fault_in_swap (vm_fault (Suc n)) a seg d (pte_page e) (faulted s)
     else fault_first (vm_fault (Suc n)) a seg i d (pte_page e) (faulted s))"
    unfolding vm_fault.simps(2) [of "Suc n"] vm_fault_body_found [OF ft I(1,2) look nd] pg Let_def ..
  have look1: "lookup (vs_space (faulted s)) (pte_page e) = Some (seg, i, d)" using look pg by simp
  have nd1: "pt_node (cur_pt (faulted s)) d = Some e" using nd by simp
  have x: "x AND PAGE_FRAME = pte_page e" using pg by simp
  show ?thesis
  proof (cases "pte_in_mem e")
    case True
    have ein: "e \<in> set (cur_pt s)" using pt_node_in [OF nd] by blast
    have res: "resident s (pte_page e) e" by (rule vm_inv_resident [OF inv ein True])
    obtain j where st: "cme_state (frame_entry s e) \<noteq> LOADING" by (rule vm_inv_entry [OF inv ein True]) auto
    from fault_resident [OF res x ft, of "Suc n"] st look1
    obtain s' where "vm_fault (Suc (Suc n)) ft x s = Some (None, s')" and mv: "tlb_moved s s'"
      and h: "mmu_translate (vs_tlb s') x False = Hit (pte_frame e OR (x AND 0xfff))"
        "mmu_translate (vs_tlb s') x True =
         (if 0 < perm_write (sg_permission seg) then Hit (pte_frame e OR (x AND 0xfff)) else Modify)"
      by auto
    moreover have "served a s x (perm_write (sg_permission seg)) s'"
      unfolding served_def
      using tlb_moved_inv [OF mv inv] tlb_moved_user_view [OF mv] h True ein pg tlb_movedD [OF mv]
      by (intro conjI bexI [of _ e]) simp_all
    ultimately show ?thesis by blast
  next
    case False
    have c1: "can_obtain a (faulted s)" using c False by (simp add: can_serve_def can_obtain_def)
    obtain p s1 s2 where g: "obtain_frame (vm_fault (Suc n)) a (pte_page e) (faulted s) = Some (Inr p, s1)"
      "map_frame d p s1 = Some s2" "given a (faulted s) e p s2"
      using obtain_served [OF inv1 nd1 False _ c1] look1 by blast
    show ?thesis
    proof (cases "pte_in_swap e")
      case True
      then have "swap_readable a (faulted s) (pte_page e)" using c False by (simp add: can_serve_def)
      from fault_in_swap_served [OF inv1 nd1 False True g x this, of seg] False True
      show ?thesis unfolding body served_faulted by simp
    next
      case ns: False
      from fault_first_served [OF inv1 look1 nd1 False ns g x] False ns
      show ?thesis unfolding body served_faulted by simp
    qed
  qed
qed

lemma vm_fault_no_room:
  assumes inv: "vm_inv a None s" and ft: "ft = VM_FAULT_READ \<or> ft = VM_FAULT_WRITE"
    and look: "lookup (vs_space s) (x AND PAGE_FRAME) = Some (seg, i, d)" and nd: "pt_node (cur_pt s) d = Some e"
    and c: "\<not> can_serve a s e"
  shows "vm_fault (Suc (Suc n)) ft x s = None"
proof -
  note I = vm_invD [OF inv]
  let ?t = "faulted s" and ?h = "vm_fault (Suc n)"
  have pg: "pte_page e = x AND PAGE_FRAME" using lookup_Some(7) [OF look] nd by simp
  have m: "\<not> pte_in_mem e" using c by (simp add: can_serve_def)
  have inv1: "vm_inv a None ?t" using inv by simp
  have nd1: "pt_node (cur_pt ?t) d = Some e" using nd by simp
  have "fault_in_swap ?h a seg d (pte_page e) ?t = None" if sw: "pte_in_swap e"
  proof (cases "can_obtain a ?t")
    case False
    then show ?thesis using obtain_panics by (simp add: fault_in_swap_def)
  next
    case True
    have look1: "lookup (vs_space ?t) (pte_page e) \<noteq> None" using look pg by simp
    obtain p s1 s2 where g: "obtain_frame ?h a (pte_page e) ?t = Some (Inr p, s1)" "map_frame d p s1 = Some s2" "given a ?t e p s2"
      using obtain_served [OF inv1 nd1 m look1 True] by blast
    have "can_obtain a s" using True by (simp add: can_obtain_def)
    then have "\<not> swap_readable a ?t (pte_page e)" using c sw by (simp add: can_serve_def)
    moreover have "swap_inv (vs_swap s2)" "vs_swap_io s2 = vs_swap_io ?t"
      "find_idx (slot_key (a, pte_page e)) (fst (vs_swap s2)) = find_idx (slot_key (a, pte_page e)) (fst (vs_swap ?t))"
      using g(3) vm_invD(10) unfolding given_def by blast+
    ultimately have "swap_in ?h a (pte_page e) s2 = None" by (intro swap_in_panics)
    then show ?thesis using g(1,2) by (simp add: fault_in_swap_def)
  qed
  moreover have "fault_first ?h a seg i d (pte_page e) ?t = None" if "\<not> pte_in_swap e"
  proof -
    have "\<not> can_obtain a ?t" using c that by (simp add: can_serve_def can_obtain_def)
    then show ?thesis using obtain_panics by (simp add: fault_first_def)
  qed
  ultimately show ?thesis
    unfolding vm_fault.simps(2) [of "Suc n"] vm_fault_body_found [OF ft I(1,2) look nd] Let_def pg [symmetric]
    using m by simp
qed

lemma vm_fault_outside:
  assumes inv: "vm_inv a None s" and ft: "ft = VM_FAULT_READ \<or> ft = VM_FAULT_WRITE"
    and look: "lookup (vs_space s) (x AND PAGE_FRAME) = None"
  shows "vm_fault (Suc n) ft x s = Some (Some EFAULT, faulted s)"
  unfolding vm_fault.simps vm_fault_body_missing [OF ft vm_invD(1,2) [OF inv] look vm_invD(5) [OF inv]] ..

lemma vm_fault_readonly: "vm_fault n VM_FAULT_READONLY x s = None"
  by (cases n) (simp_all add: vm_fault_body_def vm_fault.simps)

text \<open>Whatever a fault returns, the invariant and the process's memory are as before.\<close>

lemma vm_fault_keeps:
  assumes inv: "vm_inv a None s" and r: "vm_fault (Suc (Suc n)) ft x s = Some (r, s')"
  shows "vm_inv a None s' \<and> user_view a s' = user_view a s"
proof -
  consider "ft = VM_FAULT_READONLY" | "ft \<noteq> VM_FAULT_READONLY" "\<not> (ft = VM_FAULT_READ \<or> ft = VM_FAULT_WRITE)"
    | "ft = VM_FAULT_READ \<or> ft = VM_FAULT_WRITE" by blast
  then show ?thesis
  proof cases
    case 1
    then show ?thesis using r vm_fault_readonly by simp
  next
    case 2
    then have "s' = s" using r by (simp add: vm_fault.simps vm_fault_body_def)
    then show ?thesis using inv by simp
  next
    case 3
    show ?thesis
    proof (cases "lookup (vs_space s) (x AND PAGE_FRAME)")
      case None
      then have "s' = faulted s" using vm_fault_outside [OF inv 3 None, of "Suc n"] r by simp
      then show ?thesis using inv by (simp add: user_view_def)
    next
      case (Some l)
      obtain seg i d where l: "l = (seg, i, d)" by (cases l) blast
      obtain e where nd: "pt_node (cur_pt s) d = Some e"
        using lookup_Some(7) [OF Some [unfolded l]] by auto
      show ?thesis
      proof (cases "can_serve a s e")
        case True
        from vm_fault_served [OF inv 3 Some [unfolded l] nd True, of n] r
        show ?thesis by (auto simp: served_def)
      next
        case False
        from vm_fault_no_room [OF inv 3 Some [unfolded l] nd False, of n] r show ?thesis by simp
      qed
    qed
  qed
qed

end
