(* ===== verification/Paging.thy ===== *)
theory Paging
  imports Vminv
begin

text \<open>
  What the fault handler guarantees to the process. The machine (loads and stores through the
  TLB, faults, eviction to swap, loading from the executable) behaves like a flat memory of one
  byte array per page. The interface is the locale virtual_memory; it is interpreted on the
  processor's access and vm_fault.
\<close>

subsection \<open>The depth of nested faults\<close>

text \<open>A result at some depth is the result at every greater depth: the order below is that of
  results that may still be missing.\<close>

definition res_le :: "'r option \<Rightarrow> 'r option \<Rightarrow> bool" where
  "res_le x y \<longleftrightarrow> x = None \<or> x = y"

lemma res_le_refl [simp, intro]: "res_le x x"
  by (simp add: res_le_def)

lemma res_le_None [simp, intro]: "res_le None y"
  by (simp add: res_le_def)

lemma res_leD: "res_le x y \<Longrightarrow> x = Some r \<Longrightarrow> y = Some r"
  by (auto simp: res_le_def)

lemma res_le_bind: "res_le x y \<Longrightarrow> (\<And>r. res_le (f r) (g r)) \<Longrightarrow> res_le (Option.bind x f) (Option.bind y g)"
  unfolding res_le_def by (cases x) (auto, metis)

definition handler_le :: "handler \<Rightarrow> handler \<Rightarrow> bool" where
  "handler_le h h' \<longleftrightarrow> (\<forall>ft va s. res_le (h ft va s) (h' ft va s))"

locale deeper_handler =
  fixes h h' :: handler
  assumes le: "handler_le h h'"
begin

lemma access_le: "res_le (access h wr va s) (access h' wr va s)"
proof -
  have "access h' wr va s = Some r" if "access h wr va s = Some r" for r
    using that
  proof (induction rule: access_induct)
    case (hit s pa)
    then show ?case by (rule access_hit_now)
  next
    case (refused s t e s1)
    have "h' (trap_type t wr) va s = Some (Some e, s1)" using le refused(3) unfolding handler_le_def by (metis res_leD)
    then show ?case by (simp add: access_trap [OF refused(1,2)])
  next
    case (served s t s1 y)
    have "h' (trap_type t wr) va s = Some (None, s1)" using le served(3) unfolding handler_le_def by (metis res_leD)
    then show ?case using served(4) by (simp add: access_trap [OF served(1,2)])
  qed
  then show ?thesis unfolding res_le_def by (cases "access h wr va s") auto
qed

lemma user_write_le: "res_le (user_write h va n buf s) (user_write h' va n buf s)"
proof (induction n arbitrary: va buf s rule: less_induct)
  case (less n)
  show ?case
  proof (cases "n = 0")
    case True
    then show ?thesis by (simp add: user_write.simps)
  next
    case False
    have "n - min n (page_room va) < n" using False page_room_pos [of va] by simp
    then show ?thesis
      by (subst (1 2) user_write.simps)
        (auto simp: Let_def intro!: res_le_bind access_le less split: sum.split)
  qed
qed

lemma user_read_le: "res_le (user_read h va n s) (user_read h' va n s)"
proof (induction n arbitrary: va s rule: less_induct)
  case (less n)
  show ?case
  proof (cases "n = 0")
    case True
    then show ?thesis by (simp add: user_read.simps)
  next
    case False
    have "n - min n (page_room va) < n" using False page_room_pos [of va] by simp
    then show ?thesis
      by (subst (1 2) user_read.simps)
        (auto simp: Let_def intro!: res_le_bind access_le less split: sum.split)
  qed
qed

lemmas copy_le = access_le user_write_le user_read_le

lemma copyin_le: "res_le (copyin h va n s) (copyin h' va n s)"
  unfolding copyin_def by (auto intro!: res_le_bind copy_le split: sum.split)

lemma copyout_le: "res_le (copyout h buf va n s) (copyout h' buf va n s)"
  unfolding copyout_def by (auto intro!: res_le_bind copy_le split: sum.split)

lemma bzero_le: "res_le (bzero_page h va s) (bzero_page h' va s)"
  unfolding bzero_page_def by (auto intro!: res_le_bind copy_le split: option.split)

lemma swap_out_le: "res_le (swap_out h a va s) (swap_out h' a va s)"
  unfolding swap_out_def Let_def by (auto intro!: res_le_bind copyin_le split: sum.split)

lemma swap_in_le: "res_le (swap_in h a va s) (swap_in h' a va s)"
  unfolding swap_in_def Let_def by (auto intro!: res_le_bind copyout_le split: option.split)

lemma load_page_le: "res_le (load_page_from_elf h va off m f x s) (load_page_from_elf h' va off m f x s)"
  unfolding load_page_from_elf_def Let_def by (auto intro!: res_le_bind copyout_le split: option.split)

lemma victim_le: "res_le (handle_victim_and_swapout h a va s) (handle_victim_and_swapout h' a va s)"
  unfolding handle_victim_and_swapout_def Let_def by (auto intro!: res_le_bind swap_out_le)

lemma obtain_le: "res_le (obtain_frame h a va s) (obtain_frame h' a va s)"
  unfolding obtain_frame_def Let_def by (auto intro!: victim_le split: prod.split)

lemma fault_in_swap_le: "res_le (fault_in_swap h a seg d va s) (fault_in_swap h' a seg d va s)"
  unfolding fault_in_swap_def by (auto intro!: res_le_bind obtain_le swap_in_le split: sum.split)

lemma fault_first_le: "res_le (fault_first h a seg i d va s) (fault_first h' a seg i d va s)"
  unfolding fault_first_def Let_def
  by (auto intro!: res_le_bind obtain_le bzero_le load_page_le split: sum.split)

lemma vm_fault_body_le: "res_le (vm_fault_body h ft va s) (vm_fault_body h' ft va s)"
  unfolding vm_fault_body_def Let_def
  by (auto intro!: res_le_bind fault_in_swap_le fault_first_le split: option.split)

end

lemma vm_fault_le: "handler_le (vm_fault n) (vm_fault (n + k))"
proof (induction n)
  case 0
  then show ?case by (simp add: handler_le_def vm_fault.simps)
next
  case (Suc n)
  then have "deeper_handler (vm_fault n) (vm_fault (n + k))" by unfold_locales
  from deeper_handler.vm_fault_body_le [OF this]
  show ?case by (simp add: handler_le_def vm_fault.simps)
qed

interpretation deeper: deeper_handler "vm_fault n" "vm_fault (n + k)" for n k
  by unfold_locales (rule vm_fault_le)

lemma vm_fault_deeper:
  assumes "vm_fault n ft va s = Some r" "n \<le> m"
  shows "vm_fault m ft va s = Some r"
proof -
  have "res_le (vm_fault n ft va s) (vm_fault (n + (m - n)) ft va s)"
    using deeper.le unfolding handler_le_def by blast
  with assms show ?thesis by (auto dest: res_leD)
qed

lemma access_deeper:
  assumes "access (vm_fault n) wr va s = Some r" "n \<le> m"
  shows "access (vm_fault m) wr va s = Some r"
  using res_leD [OF deeper.access_le [of n wr va s "m - n"] assms(1)] assms(2) by simp

subsection \<open>A flat memory\<close>

text \<open>The flat memory that a process sees: addresses (a page and an offset) to bytes.\<close>

datatype ('addr, 'b) mem_op = Load 'addr | Store 'addr 'b

locale virtual_memory =
  fixes load :: "'addr \<Rightarrow> 's \<Rightarrow> ('b \<times> 's) option"
    and store :: "'addr \<Rightarrow> 'b \<Rightarrow> 's \<Rightarrow> 's option"
    and view :: "'s \<Rightarrow> 'addr \<Rightarrow> 'b option"
    and inv :: "'s \<Rightarrow> bool"
  assumes load_value: "inv s \<Longrightarrow> load va s = Some (b, s') \<Longrightarrow> view s va = Some b"
    and load_view: "inv s \<Longrightarrow> load va s = Some (b, s') \<Longrightarrow> view s' = view s"
    and load_inv: "inv s \<Longrightarrow> load va s = Some (b, s') \<Longrightarrow> inv s'"
    and store_view: "inv s \<Longrightarrow> store va b s = Some s' \<Longrightarrow> view s' = (view s)(va \<mapsto> b)"
    and store_inv: "inv s \<Longrightarrow> store va b s = Some s' \<Longrightarrow> inv s'"
begin

fun run_machine :: "('addr, 'b) mem_op list \<Rightarrow> 's \<Rightarrow> ('b list \<times> 's) option" where
  "run_machine [] s = Some ([], s)"
| "run_machine (Load va # ops) s = do {
     (b, s1) \<leftarrow> load va s;
     (bs, s2) \<leftarrow> run_machine ops s1;
     Some (b # bs, s2)
   }"
| "run_machine (Store va b # ops) s = do {
     s1 \<leftarrow> store va b s;
     run_machine ops s1
   }"

fun run_flat :: "('addr, 'b) mem_op list \<Rightarrow> ('addr \<rightharpoonup> 'b) \<Rightarrow> ('b list \<times> ('addr \<rightharpoonup> 'b)) option" where
  "run_flat [] m = Some ([], m)"
| "run_flat (Load va # ops) m = do {
     b \<leftarrow> m va;
     (bs, m') \<leftarrow> run_flat ops m;
     Some (b # bs, m')
   }"
| "run_flat (Store va b # ops) m = run_flat ops (m(va \<mapsto> b))"

lemma run_refines_flat:
  "inv s \<Longrightarrow> run_machine ops s = Some (bs, s') \<Longrightarrow> run_flat ops (view s) = Some (bs, view s') \<and> inv s'"
proof (induction ops arbitrary: s bs)
  case Nil
  then show ?case by simp
next
  case (Cons x ops)
  show ?case
  proof (cases x)
    case (Load va)
    with Cons.prems(2) obtain b s1 bs1 where s1: "load va s = Some (b, s1)" "run_machine ops s1 = Some (bs1, s')"
      "bs = b # bs1" by auto
    note L = load_value [OF Cons.prems(1) s1(1)] load_view [OF Cons.prems(1) s1(1)] load_inv [OF Cons.prems(1) s1(1)]
    from Cons.IH [OF L(3) s1(2)] L(1) show ?thesis unfolding Load L(2) s1(3) by simp
  next
    case (Store va b)
    with Cons.prems(2) obtain s1 where s1: "store va b s = Some s1" "run_machine ops s1 = Some (bs, s')"
      by (auto simp: bind_eq_Some_conv)
    from Cons.IH [OF store_inv [OF Cons.prems(1) s1(1)] s1(2)]
    show ?thesis unfolding Store run_flat.simps store_view [OF Cons.prems(1) s1(1), symmetric] .
  qed
qed

end

text \<open>A load and a store of the process, with faults served at depth 2. A refused fault (EFAULT ends the
  process) and a panic give no result.\<close>

definition user_load :: "vaddr_t \<Rightarrow> vmstate \<Rightarrow> (u8 \<times> vmstate) option" where
  "user_load va s = do {
     (r, s1) \<leftarrow> access (vm_fault 2) False va s;
     (case r of Inl e \<Rightarrow> None | Inr pa \<Rightarrow> Some (vs_mem s1 pa, s1))
   }"

definition user_store :: "vaddr_t \<Rightarrow> u8 \<Rightarrow> vmstate \<Rightarrow> vmstate option" where
  "user_store va b s = do {
     (r, s1) \<leftarrow> access (vm_fault 2) True va s;
     (case r of Inl e \<Rightarrow> None | Inr pa \<Rightarrow> Some (s1\<lparr>vs_mem := (vs_mem s1)(pa := b)\<rparr>))
   }"

lemma case_sum_Some:
  "(case r of Inl e \<Rightarrow> None | Inr x \<Rightarrow> Some (g x)) = Some y \<longleftrightarrow> (\<exists>x. r = Inr x \<and> y = g x)"
  by (cases r) auto

definition byte_view :: "nat \<Rightarrow> vmstate \<Rightarrow> vaddr_t \<Rightarrow> u8 option" where
  "byte_view a s va = map_option (\<lambda>pg. pg (unat (va AND 0xfff))) (user_view a s (va AND PAGE_FRAME))"

text \<open>A translation that the TLB makes is the one of the page table.\<close>

lemma hit_resident:
  assumes inv: "vm_inv a ld s" and hit: "mmu_translate (vs_tlb s) va wr = Hit pa"
  obtains e where "e \<in> set (cur_pt s)" "pte_in_mem e" "pte_page e = va AND PAGE_FRAME"
    "pa = pte_frame e + (va AND 0xfff)"
proof -
  note I = vm_invD [OF inv]
  obtain k where k: "tlb_probe va (vs_tlb s) = Some k"
    using hit by (auto simp: mmu_translate_def split: option.splits)
  let ?slot = "tlb_slots (vs_tlb s) ! k"
  have v: "snd ?slot AND TLBLO_VALID \<noteq> 0" and pa: "pa = (snd ?slot AND TLBLO_PPAGE) OR (va AND 0xfff)"
    using hit k by (auto simp: mmu_translate_def Let_def split: if_splits)
  have "?slot \<in> set (tlb_slots (vs_tlb s))" and pg: "slot_page ?slot = va AND PAGE_FRAME"
    using tlb_probe_Some [OF k] by simp_all
  then obtain e where e: "e \<in> set (cur_pt s)" "pte_in_mem e" "pte_page e = slot_page ?slot"
    "snd ?slot AND TLBLO_PPAGE = pte_frame e"
    using I(6) v unfolding tlb_coherent_def by blast
  obtain i where "pte_frame e AND PAGE_FRAME = pte_frame e" by (rule vm_inv_entry [OF inv e(1,2)]) blast
  then have "pa = pte_frame e + (va AND 0xfff)" unfolding pa e(4) by (rule aligned_or)
  with that e pg show thesis by metis
qed

lemma access_hit:
  assumes inv: "vm_inv a None s" and acc: "access (vm_fault (Suc (Suc n))) wr va s = Some (Inr pa, s1)"
  shows "vm_inv a None s1 \<and> user_view a s1 = user_view a s \<and> mmu_translate (vs_tlb s1) va wr = Hit pa"
proof -
  have "vm_inv a None s \<longrightarrow> (\<forall>pa s1. y = (Inr pa, s1) \<longrightarrow>
      vm_inv a None s1 \<and> user_view a s1 = user_view a s \<and> mmu_translate (vs_tlb s1) va wr = Hit pa)"
    if "access (vm_fault (Suc (Suc n))) wr va s = Some y" for y
    using that
  proof (induction rule: access_induct)
    case (served s t s1 y)
    show ?case
    proof (rule impI)
      assume "vm_inv a None s"
      from vm_fault_keeps [OF this served(3)] have "vm_inv a None s1" "user_view a s1 = user_view a s" by blast+
      then show "\<forall>pa s1. y = (Inr pa, s1) \<longrightarrow>
          vm_inv a None s1 \<and> user_view a s1 = user_view a s \<and> mmu_translate (vs_tlb s1) va wr = Hit pa"
        using served(4) by simp
    qed
  qed simp_all
  then show ?thesis using assms by blast
qed

lemma user_view_entry:
  "vm_inv a ld s \<Longrightarrow> e \<in> set (cur_pt s) \<Longrightarrow> user_view a s (pte_page e) = Some (page_view a s e)"
  using user_view_Some [OF vm_invD(14)] by blast

lemma page_off_lt: "unat (va AND 0xfff :: u32) < 4096"
  unfolding page_off_unat by simp

lemma frame_byte:
  "pte_in_mem e \<Longrightarrow> page_view a s e (unat (va AND 0xfff :: u32)) = vs_mem s (pte_frame e + (va AND 0xfff))"
  using page_off_lt [of va] by (simp add: page_view_def frame_bytes_def clip_def mem_get_def)

lemma user_load_byte:
  assumes inv: "vm_inv a None s" and ld: "user_load va s = Some (b, s')"
  shows "byte_view a s va = Some b \<and> byte_view a s' = byte_view a s \<and> vm_inv a None s'"
proof -
  obtain pa where acc: "access (vm_fault 2) False va s = Some (Inr pa, s')" and b: "b = vs_mem s' pa"
    using ld by (auto simp: user_load_def case_sum_Some)
  note A = access_hit [OF inv, of 0 False va pa s', folded numeral_2_eq_2, OF acc]
  then have inv': "vm_inv a None s'" and vw: "user_view a s' = user_view a s" by blast+
  obtain e where e: "e \<in> set (cur_pt s')" "pte_in_mem e" "pte_page e = va AND PAGE_FRAME"
    "pa = pte_frame e + (va AND 0xfff)"
    using hit_resident [OF inv'] A by blast
  have "byte_view a s' va = Some b"
    unfolding byte_view_def e(3) [symmetric] user_view_entry [OF inv' e(1)]
    using frame_byte [OF e(2)] b e(4) by simp
  moreover have "byte_view a s' = byte_view a s" by (rule ext) (simp add: byte_view_def vw)
  ultimately show ?thesis using inv' by simp
qed

lemma mem_put_byte: "mem_put p 1 (\<lambda>_. b) m = m(p := b)"
proof (rule ext)
  fix x
  have "unat (x - p) < 1 \<longleftrightarrow> x = p" by (simp add: unat_eq_0)
  then show "mem_put p 1 (\<lambda>_. b) m x = (m(p := b)) x" by (simp add: mem_put_def)
qed

lemma off_inj: "va AND PAGE_FRAME = vb AND PAGE_FRAME \<Longrightarrow> unat (va AND 0xfff) = unat (vb AND 0xfff) \<Longrightarrow> va = (vb :: u32)"
proof -
  assume a: "va AND PAGE_FRAME = vb AND PAGE_FRAME" "unat (va AND 0xfff) = unat (vb AND 0xfff)"
  have "unat x = unat (x AND PAGE_FRAME) + unat (x AND 0xfff)" for x :: u32
    unfolding page_off_unat page_frame_unat by simp
  then have "unat va = unat vb" using a by metis
  then show "va = vb" by (simp only: word_unat_eq_iff)
qed

lemma user_store_byte:
  assumes inv: "vm_inv a None s" and st: "user_store va b s = Some s'"
  shows "byte_view a s' = (byte_view a s)(va \<mapsto> b) \<and> vm_inv a None s'"
proof -
  obtain pa s1 where acc: "access (vm_fault 2) True va s = Some (Inr pa, s1)"
    and s': "s' = s1\<lparr>vs_mem := (vs_mem s1)(pa := b)\<rparr>"
    using st by (auto simp: user_store_def case_sum_Some)
  note A = access_hit [OF inv, of 0 True va pa s1, folded numeral_2_eq_2, OF acc]
  then have inv1: "vm_inv a None s1" and vw: "user_view a s1 = user_view a s" by blast+
  obtain e where e: "e \<in> set (cur_pt s1)" "pte_in_mem e" "pte_page e = va AND PAGE_FRAME"
    "pa = pte_frame e + (va AND 0xfff)"
    using hit_resident [OF inv1] A by blast
  let ?k = "unat (va AND 0xfff)"
  have k: "?k + 1 \<le> 4096" using page_off_lt [of va] by simp
  have s'': "s' = s1\<lparr>vs_mem := mem_put (pte_frame e + of_nat ?k) 1 (\<lambda>_. b) (vs_mem s1)\<rparr>"
    unfolding mem_put_byte s' e(4) by simp
  note F = frame_fill [OF inv1 e(1,2) k s'']
  have inv': "vm_inv a None s'" using inv1 s' by simp
  have pt: "cur_pt s' = cur_pt s1" using s' by simp
  have pv: "page_view a s' e off = (if off = ?k then b else page_view a s1 e off)" for off
  proof -
    have "page_view a s' e off = clip (\<lambda>i. if ?k \<le> i \<and> i < ?k + 1 then b else mem_get (pte_frame e) (vs_mem s1) i) off"
      using F(1) e(2) by (simp add: page_view_def)
    then show ?thesis using k e(2) by (auto simp: clip_def page_view_def frame_bytes_def)
  qed
  have "byte_view a s' vb = ((byte_view a s1)(va \<mapsto> b)) vb" for vb
  proof (cases "vb AND PAGE_FRAME = pte_page e")
    case True
    have "byte_view a s' vb = Some (page_view a s' e (unat (vb AND 0xfff)))"
      "byte_view a s1 vb = Some (page_view a s1 e (unat (vb AND 0xfff)))"
      unfolding byte_view_def True using user_view_entry [OF inv' e(1) [folded pt]] user_view_entry [OF inv1 e(1)]
      by simp_all
    then show ?thesis using pv off_inj [of vb va] True e(3) by auto
  next
    case False
    have "user_view a s' (vb AND PAGE_FRAME) = user_view a s1 (vb AND PAGE_FRAME)"
    proof (rule option_eqI)
      fix pg
      have "(\<exists>r \<in> set (cur_pt s1). pte_page r = vb AND PAGE_FRAME \<and> pg = page_view a s' r) \<longleftrightarrow>
        (\<exists>r \<in> set (cur_pt s1). pte_page r = vb AND PAGE_FRAME \<and> pg = page_view a s1 r)"
      proof (rule bex_cong [OF refl])
        fix r assume r: "r \<in> set (cur_pt s1)"
        show "pte_page r = vb AND PAGE_FRAME \<and> pg = page_view a s' r \<longleftrightarrow>
          pte_page r = vb AND PAGE_FRAME \<and> pg = page_view a s1 r"
        proof (cases "r = e")
          case True
          then show ?thesis using False by metis
        next
          case ne: False
          show ?thesis unfolding F(2) [OF r ne] ..
        qed
      qed
      then show "user_view a s' (vb AND PAGE_FRAME) = Some pg \<longleftrightarrow> user_view a s1 (vb AND PAGE_FRAME) = Some pg"
        unfolding user_view_Some [OF vm_invD(14) [OF inv']] user_view_Some [OF vm_invD(14) [OF inv1]] pt .
    qed
    moreover have "vb \<noteq> va" using False e(3) by auto
    ultimately show ?thesis by (simp add: byte_view_def)
  qed
  then have "byte_view a s' = (byte_view a s1)(va \<mapsto> b)" by (rule ext)
  moreover have "byte_view a s1 = byte_view a s" by (rule ext) (simp add: byte_view_def vw)
  ultimately show ?thesis using inv' by simp
qed

interpretation vmem: virtual_memory user_load user_store "byte_view a" "vm_inv a None" for a
  by unfold_locales (use user_load_byte user_store_byte in blast)+

subsection \<open>A small machine\<close>

definition demo_text :: segment_entry where
  "demo_text = \<lparr>sg_first_addr = 0x400000, sg_npages = 1, sg_size = 3, sg_offset = 0x10,
     sg_permission = \<lparr>perm_read = 4, perm_write = 0, perm_exec = 1\<rparr>, sg_first_pte = 1\<rparr>"

definition demo_stack :: segment_entry where
  "demo_stack = \<lparr>sg_first_addr = 0x7ffff000, sg_npages = 1, sg_size = 0, sg_offset = - 1,
     sg_permission = \<lparr>perm_read = 4, perm_write = 2, perm_exec = 0\<rparr>, sg_first_pte = 2\<rparr>"

definition demo_space :: addrspace where
  "demo_space = \<lparr>as_pt = [fresh_pte 0x7ffff000, fresh_pte 0x400000], as_segments = [demo_stack, demo_text],
     as_elf_file = Some 0, as_heap_start = 0, as_heap_end = 0\<rparr>"

definition demo_file :: "u8 list" where
  "demo_file = replicate 16 0 @ [0x41, 0x42, 0x43]"

definition free_cm_entry :: cm_entry where
  "free_cm_entry = \<lparr>cme_as = NULL, cme_vaddr = 0, cme_state = FREE, cme_npages = 0, cme_ts = -1\<rparr>"

definition vm_demo :: vmstate where
  "vm_demo = \<lparr>vs_cmap = \<lparr>cm_firstpaddr = 0x1000, cm_lastpaddr = 0x2000, cm_timestamp = 0, cm_bootstrapped = True,
       cm_entries = [free_cm_entry]\<rparr>,
     vs_tlb = tlb_flush NUM_TLB \<lparr>tlb_slots = replicate NUM_TLB (0, 0), next_victim = 0\<rparr>,
     vs_stats = vmstats_init, vs_swap = swap_demo, vs_mem = (\<lambda>_. 0xff), vs_files = (\<lambda>_. demo_file),
     vs_swap_io = (\<lambda>_ _. None), vs_elf_io = (\<lambda>_ _. None), vs_vnrefs = (\<lambda>_. 1), vs_curproc = True, vs_as = Some 1, vs_space = demo_space\<rparr>"

lemma vm_demo_sel [simp]:
  "vs_cmap vm_demo = \<lparr>cm_firstpaddr = 0x1000, cm_lastpaddr = 0x2000, cm_timestamp = 0, cm_bootstrapped = True,
       cm_entries = [free_cm_entry]\<rparr>"
  "vs_tlb vm_demo = tlb_flush NUM_TLB \<lparr>tlb_slots = replicate NUM_TLB (0, 0), next_victim = 0\<rparr>"
  "vs_swap vm_demo = swap_demo" "vs_files vm_demo = (\<lambda>_. demo_file)" "vs_elf_io vm_demo = (\<lambda>_ _. None)" "vs_curproc vm_demo" "vs_as vm_demo = Some 1"
  "vs_space vm_demo = demo_space"
  by (simp_all add: vm_demo_def)

lemma demo_lookup_text: "lookup demo_space 0x400000 = Some (demo_text, 1, 1)"
  by (simp add: lookup_def demo_space_def demo_stack_def demo_text_def Let_def pte_scan.simps pt_node_def)


lemma demo_space_wf: "as_wf demo_space"
  by (simp add: as_wf_def demo_space_def demo_stack_def demo_text_def seg_ok_def seg_page_def user_page_def pt_node_def)

lemma demo_load_ok: "load_ok demo_space"
  by (simp add: load_ok_def demo_space_def demo_stack_def demo_text_def load_geom_def)

lemma flush_coherent:
  assumes "length (tlb_slots t) = NUM_TLB"
  shows "tlb_coherent (tlb_flush NUM_TLB t) pt"
  unfolding tlb_coherent_def list_all_nth
  using assms by (auto simp: tlb_flush_nth TLBHI_INVALID_page TLBHI_INVALID_unat)

lemma vm_demo_inv: "vm_inv 1 None vm_demo"
proof -
  have "cm_wf (vs_cmap vm_demo)"
    by (simp add: cm_wf_def cm_range_ok_def entry_ok_def blocks_ok_def free_cm_entry_def)
  moreover have "tlb_wf (vs_tlb vm_demo)"
    unfolding vm_demo_sel by (rule tlb_flush_wf) simp_all
  moreover have "tlb_coherent (vs_tlb vm_demo) (cur_pt vm_demo)"
    unfolding vm_demo_sel(2) by (rule flush_coherent) simp
  moreover have "swap_contents swap_demo k = None" for k by (rule swap_demo_contents)
  ultimately show ?thesis
    using demo_space_wf demo_load_ok swap_demo_inv
    by (simp add: vm_inv_def pt_backed_def cm_backed_def pt_reachable_def swap_match_def demo_space_def free_cm_entry_def)
qed

subsection \<open>Properties\<close>

definition user_run :: "(vaddr_t, u8) mem_op list \<Rightarrow> vmstate \<Rightarrow> (u8 list \<times> vmstate) option" where
  "user_run = vmem.run_machine"

definition flat_run :: "(vaddr_t, u8) mem_op list \<Rightarrow> (vaddr_t \<rightharpoonup> u8) \<Rightarrow> (u8 list \<times> (vaddr_t \<rightharpoonup> u8)) option" where
  "flat_run = vmem.run_flat"

text \<open>C1: demand paging is transparent. Whatever sequence of loads and stores a process makes, with all
  the TLB misses, page faults, evictions to swap and reloads that it causes, the values it
  reads and the memory it ends with are those of a flat memory that starts with its initial
  contents.\<close>

theorem paging_refines_flat_memory:
  assumes "vm_inv a None s" "user_run ops s = Some (bs, s')"
  shows "flat_run ops (byte_view a s) = Some (bs, byte_view a s') \<and> vm_inv a None s'"
  using vmem.run_refines_flat [OF assms(1)] assms(2) unfolding user_run_def flat_run_def by blast

text \<open>C3: a fault on a page of the process is served. In every state that keeps the invariant, a read or
  write fault on a page of some segment, when the page is in memory, a frame is free, or a
  frame of the process can be evicted into a swap slot that can be written (and the page, if it is
  swapped out, can be read), returns 0 (two levels of nested faults suffice); afterwards the invariant holds, no byte of the process has changed, and the
  processor translates the address to a frame that holds the page's bytes, for writing
  exactly when the segment is writable.\<close>

theorem vm_fault_serves:
  assumes "vm_inv a None s" "ft = VM_FAULT_READ \<or> ft = VM_FAULT_WRITE"
    and "lookup (vs_space s) (va AND PAGE_FRAME) = Some (seg, i, d)" "pt_node (cur_pt s) d = Some e"
    and "can_serve a s e"
  shows "\<exists>s' pa. vm_fault 2 ft va s = Some (None, s') \<and> vm_inv a None s' \<and> user_view a s' = user_view a s \<and>
    mmu_translate (vs_tlb s') va False = Hit pa \<and> byte_view a s va = Some (vs_mem s' pa) \<and>
    mmu_translate (vs_tlb s') va True = (if 0 < perm_write (sg_permission seg) then Hit pa else Modify)"
proof -
  obtain s' where s': "vm_fault 2 ft va s = Some (None, s')" "served a s va (perm_write (sg_permission seg)) s'"
    using vm_fault_served [OF assms(1-5), of 0] unfolding numeral_2_eq_2 by blast
  then obtain e' where inv: "vm_inv a None s'" and vw: "user_view a s' = user_view a s"
    and e': "e' \<in> set (cur_pt s')" "pte_in_mem e'" "pte_page e' = va AND PAGE_FRAME"
    and tr: "mmu_translate (vs_tlb s') va False = Hit (pte_frame e' OR (va AND 0xfff))"
      "mmu_translate (vs_tlb s') va True =
       (if 0 < perm_write (sg_permission seg) then Hit (pte_frame e' OR (va AND 0xfff)) else Modify)"
    unfolding served_def by blast
  obtain j where "pte_frame e' AND PAGE_FRAME = pte_frame e'" by (rule vm_inv_entry [OF inv e'(1,2)]) blast
  then have "pte_frame e' OR (va AND 0xfff) = pte_frame e' + (va AND 0xfff)" by (rule aligned_or)
  then have "byte_view a s va = Some (vs_mem s' (pte_frame e' OR (va AND 0xfff)))"
    unfolding byte_view_def vw [symmetric] e'(3) [symmetric] user_view_entry [OF inv e'(1)]
    using frame_byte [OF e'(2)] by simp
  with s'(1) inv vw tr show ?thesis by blast
qed


text \<open>C5: when the handler panics. Under the invariant, a read or write fault halts the kernel if and only
  if the page is not in memory and either no frame is free and none can be made free - cm_evict
  finds no victim among the process's own frames, the swap space has no empty slot, or writing
  the first empty one fails - or the page is swapped out and reading its slot fails; the
  depth of nested faults does not matter.\<close>

theorem vm_fault_panics_iff:
  assumes "vm_inv a None s" "ft = VM_FAULT_READ \<or> ft = VM_FAULT_WRITE" "2 \<le> n"
    and "lookup (vs_space s) (va AND PAGE_FRAME) = Some (seg, i, d)" "pt_node (cur_pt s) d = Some e"
  shows "vm_fault n ft va s = None \<longleftrightarrow>
    \<not> pte_in_mem e \<and>
    ((\<forall>x \<in> set (cm_entries (vs_cmap s)). cme_state x \<noteq> FREE) \<and>
       (cm_evict (Some a) (vs_cmap s) = None \<or> \<not> swap_writable s) \<or>
     pte_in_swap e \<and> \<not> swap_readable a s (pte_page e))"
proof -
  obtain m where n: "n = Suc (Suc m)" using assms(3) by (metis Suc_le_D numeral_2_eq_2 Suc_le_mono)
  have "vm_fault n ft va s = None \<longleftrightarrow> \<not> can_serve a s e"
  proof (cases "can_serve a s e")
    case True
    then show ?thesis using vm_fault_served [OF assms(1,2,4,5) True, of m] n by auto
  next
    case False
    then show ?thesis using vm_fault_no_room [OF assms(1,2,4,5) False, of m] n by simp
  qed
  then show ?thesis unfolding can_serve_def can_obtain_def by blast
qed

text \<open>C7: two levels of faults are all there are. Under the invariant the handler gives at every depth from
  2 on the result that it gives at depth 2: a fault inside a fault is always served from memory.\<close>

theorem vm_fault_depth_two:
  assumes "vm_inv a None s" "2 \<le> n"
  shows "vm_fault n ft va s = vm_fault 2 ft va s"
proof (cases "vm_fault 2 ft va s")
  case (Some r)
  then show ?thesis using vm_fault_deeper [OF Some assms(2)] by simp
next
  case None
  obtain m where n: "n = Suc (Suc m)" using assms(2) by (metis Suc_le_D numeral_2_eq_2 Suc_le_mono)
  show ?thesis
  proof (cases "ft = VM_FAULT_READ \<or> ft = VM_FAULT_WRITE")
    case False
    then show ?thesis by (auto simp: n numeral_2_eq_2 vm_fault.simps vm_fault_body_def Let_def)
  next
    case True
    obtain seg i d where look: "lookup (vs_space s) (va AND PAGE_FRAME) = Some (seg, i, d)"
      using vm_fault_outside [OF assms(1) True, of va 1] None
      by (cases "lookup (vs_space s) (va AND PAGE_FRAME)") (auto simp: numeral_2_eq_2)
    obtain e where nd: "pt_node (cur_pt s) d = Some e" using lookup_Some(7) [OF look] by auto
    have "\<not> can_serve a s e" using vm_fault_served [OF assms(1) True look nd, of 0] None by (auto simp: numeral_2_eq_2)
    then show ?thesis unfolding None n by (rule vm_fault_no_room [OF assms(1) True look nd])
  qed
qed

text \<open>C9: a process can halt the kernel by writing to its own read-only memory. A store to a page of a
  segment without write permission that is not in memory yet is served as a write fault; the
  instruction is executed again, the processor reports a modification of a page without the dirty
  bit, and for VM_FAULT_READONLY the handler panics in that state instead of returning an error.\<close>

theorem readonly_store_panics:
  assumes "vm_inv a None s" "lookup (vs_space s) (va AND PAGE_FRAME) = Some (seg, i, d)"
    and "pt_node (cur_pt s) d = Some e" "\<not> pte_in_mem e" "\<not> 0 < perm_write (sg_permission seg)" "can_serve a s e"
  shows "mmu_translate (vs_tlb s) va True = Miss \<and>
    (\<exists>s'. vm_fault 2 VM_FAULT_WRITE va s = Some (None, s') \<and> vm_inv a None s' \<and>
       mmu_translate (vs_tlb s') va True = Modify \<and> (\<forall>n. vm_fault n VM_FAULT_READONLY va s' = None)) \<and>
    user_store va b s = None"
proof -
  have ein: "e \<in> set (cur_pt s)" using pt_node_in [OF assms(3)] by blast
  have pg: "pte_page e = va AND PAGE_FRAME" using lookup_Some(7) [OF assms(2)] assms(3) by simp
  have "tlb_probe va (vs_tlb s) = tlb_probe (pte_page e) (vs_tlb s)"
    by (rule tlb_probe_cong) (simp add: pg)
  then have miss: "mmu_translate (vs_tlb s) va True = Miss"
    using not_resident_probe [OF assms(1) ein assms(4)] probe_none_miss by simp
  have w: "VM_FAULT_WRITE = VM_FAULT_READ \<or> VM_FAULT_WRITE = VM_FAULT_WRITE" by simp
  obtain s' where s': "vm_fault 2 VM_FAULT_WRITE va s = Some (None, s')" "vm_inv a None s'" "mmu_translate (vs_tlb s') va True = Modify"
    using vm_fault_served [OF assms(1) w assms(2,3,6), of 0] assms(5)
    unfolding numeral_2_eq_2 served_def by auto
  have "access (vm_fault 2) True va s = None"
    using access_trap [OF miss] access_trap [OF s'(3)] s'(1) vm_fault_readonly by (simp add: trap_type_def)
  then show ?thesis using miss s' vm_fault_readonly by (auto simp: user_store_def)
qed


text \<open>The sizes that compute_memsz gives for the pages of a segment, and the positions that
  compute_offset gives.\<close>

lemma loader_tiles:
  assumes "load_geom seg" "0 \<le> sg_offset seg" "1 \<le> i" "i \<le> sg_npages seg"
    and "sg_npages seg * 4096 \<le> 0x80000000"
  shows "let pad = nat (sg_offset seg) mod 4096; start = max pad ((i - 1) * 4096) in
    start + unat (compute_memsz seg i) = min (pad + unat (sg_size seg)) (i * 4096) \<and>
    nat (compute_offset (sg_offset seg) i) = nat (sg_offset seg) + (start - pad)"
proof -
  define pad where "pad = seg_pad seg"
  define start where "start = max pad ((i - 1) * 4096)"
  note P = geom_pages [OF assms(1,2)]
  have a: "(i - 1) * 4096 \<le> (sg_npages seg - 1) * 4096" using assms(4) by (intro mult_le_mono1) simp
  have b: "(i - 1) * 4096 \<le> i * 4096" by simp
  have c: "pad < i * 4096" using assms(3) by (cases i) (simp_all add: pad_def)
  have "start \<le> min (pad + unat (sg_size seg)) (i * 4096)"
    using a b c P(1) unfolding start_def pad_def [symmetric] by simp
  then have "start + unat (compute_memsz seg i) = min (pad + unat (sg_size seg)) (i * 4096)"
    using compute_memsz_unat [OF assms] unfolding start_def pad_def by simp
  moreover have "nat (compute_offset (sg_offset seg) i) = nat (sg_offset seg) + (start - pad)"
    using compute_offset_nat(2) [OF assms(1-4)] unfolding start_def pad_def .
  ultimately show ?thesis unfolding Let_def start_def pad_def by blast
qed

text \<open>C8: when the loader cuts a segment rightly into pages. For a segment on as many pages as its size and
  file offset ask for, the sizes that compute_memsz gives are the lengths of consecutive
  intervals of the segment, one inside each page, and compute_offset gives the file position of
  each interval's start, unless the segment is shorter than a page and straddles a page boundary: then
  compute_memsz gives the whole size for both pages and the loader goes past the first page and past the
  segment's end.\<close>

theorem loader_tiles_iff:
  assumes "0 \<le> sg_offset seg" "0 < unat (sg_size seg)" "nat (sg_offset seg) + unat (sg_size seg) < 0x100000000"
    and "sg_npages seg = (nat (sg_offset seg) mod 4096 + unat (sg_size seg) + 4095) div 4096" "sg_npages seg * 4096 \<le> 0x80000000"
  shows "(\<forall>i \<in> {1..sg_npages seg}.
      let pad = nat (sg_offset seg) mod 4096; start = max pad ((i - 1) * 4096) in
        start + unat (compute_memsz seg i) = min (pad + unat (sg_size seg)) (i * 4096) \<and>
        nat (compute_offset (sg_offset seg) i) = nat (sg_offset seg) + (start - pad)) \<longleftrightarrow>
    \<not> (unat (sg_size seg) < 4096 \<and> sg_npages seg = 2)"
    (is "?tiles \<longleftrightarrow> \<not> ?small")
proof
  assume t: ?tiles
  show "\<not> ?small"
  proof
    assume s: ?small
    have "2 \<le> sg_npages seg" using s by simp
    then have n: "4096 < nat (sg_offset seg) mod 4096 + unat (sg_size seg)" unfolding assms(4) by linarith
    have "compute_memsz seg 1 = sg_size seg" using s by (simp add: compute_memsz_def Let_def word_less_nat_alt)
    moreover have "(1 :: nat) \<in> {1..sg_npages seg}" using s by simp
    ultimately show False using bspec [OF t, of 1] n by (simp add: Let_def)
  qed
next
  assume s: "\<not> ?small"
  have "sg_npages seg = 1" if "unat (sg_size seg) < 4096"
  proof -
    have "nat (sg_offset seg) mod 4096 + unat (sg_size seg) + 4095 < 3 * 4096" using that mod_less_divisor [of 4096 "nat (sg_offset seg)"] by linarith
    then have "sg_npages seg < 3" unfolding assms(4) by (simp add: div_less_iff_less_mult)
    moreover have "1 \<le> sg_npages seg" unfolding assms(4) using assms(2) by linarith
    ultimately show ?thesis using s that by linarith
  qed
  then have "load_geom seg" using assms(2-4) by (simp add: load_geom_def)
  from loader_tiles [OF this assms(1) _ _ assms(5)] show ?tiles by simp
qed

subsection \<open>Witnesses\<close>

lemma vm_demo_serve: "can_serve a vm_demo (fresh_pte va)"
  by (simp add: can_serve_def can_obtain_def free_cm_entry_def fresh_pte_def)

lemma demo_node: "pt_node (cur_pt vm_demo) 1 = Some (fresh_pte 0x400000)"
  by (simp add: pt_node_def demo_space_def)

lemma demo_lookup: "lookup (vs_space vm_demo) (0x400001 AND PAGE_FRAME) = Some (demo_text, 1, 1)"
  by (simp add: demo_lookup_text)

theorem vm_fault_serves_witness:
  "\<exists>s' pa. vm_fault 2 VM_FAULT_READ 0x400001 vm_demo = Some (None, s') \<and> vm_inv 1 None s' \<and>
     mmu_translate (vs_tlb s') 0x400001 False = Hit pa"
  using vm_fault_serves [OF vm_demo_inv _ demo_lookup demo_node vm_demo_serve, of VM_FAULT_READ] by blast

lemma demo_load: "\<exists>b s'. user_load 0x400001 vm_demo = Some (b, s')"
proof -
  obtain s' where s': "vm_fault 2 VM_FAULT_READ 0x400001 vm_demo = Some (None, s')"
    "served 1 vm_demo 0x400001 0 s'"
    using vm_fault_served [OF vm_demo_inv _ demo_lookup demo_node vm_demo_serve, of VM_FAULT_READ 0]
    by (auto simp: numeral_2_eq_2 demo_text_def)
  then obtain pa where pa: "mmu_translate (vs_tlb s') 0x400001 False = Hit pa" unfolding served_def by blast
  have miss: "mmu_translate (vs_tlb vm_demo) 0x400001 False = Miss"
  proof -
    have "tlb_probe 0x400001 (vs_tlb vm_demo) = tlb_probe 0x400000 (vs_tlb vm_demo)"
      by (rule tlb_probe_cong) simp
    moreover have "tlb_probe (pte_page (fresh_pte 0x400000)) (vs_tlb vm_demo) = None"
      by (rule not_resident_probe [OF vm_demo_inv]) (simp_all add: demo_space_def)
    ultimately show ?thesis by (intro probe_none_miss) (simp only: fresh_pte_sel)
  qed
  have "access (vm_fault 2) False 0x400001 vm_demo = Some (Inr pa, s')"
    using access_trap [OF miss] access_hit_now [OF pa] s'(1) by (simp add: trap_type_def)
  then show ?thesis by (auto simp: user_load_def)
qed

theorem paging_refines_flat_memory_witness:
  "\<exists>b s'. user_run [Load 0x400001] vm_demo = Some ([b], s') \<and>
     flat_run [Load 0x400001] (byte_view 1 vm_demo) = Some ([b], byte_view 1 s')"
proof -
  obtain b s' where "user_load 0x400001 vm_demo = Some (b, s')" using demo_load by blast
  then have r: "user_run [Load 0x400001] vm_demo = Some ([b], s')" by (simp add: user_run_def)
  with paging_refines_flat_memory [OF vm_demo_inv r] show ?thesis by blast
qed


theorem vm_fault_panics_iff_witness:
  "vm_fault 3 VM_FAULT_READ 0x400001 vm_demo \<noteq> None"
  by (subst vm_fault_panics_iff [OF vm_demo_inv _ _ demo_lookup demo_node]) (simp_all add: free_cm_entry_def)

theorem vm_fault_depth_two_witness: "vm_fault 7 VM_FAULT_READ 0x400001 vm_demo = vm_fault 2 VM_FAULT_READ 0x400001 vm_demo"
  by (rule vm_fault_depth_two [OF vm_demo_inv]) simp

theorem readonly_store_panics_witness:
  "mmu_translate (vs_tlb vm_demo) 0x400001 True = Miss \<and>
    (\<exists>s'. vm_fault 2 VM_FAULT_WRITE 0x400001 vm_demo = Some (None, s') \<and> vm_inv 1 None s' \<and>
       mmu_translate (vs_tlb s') 0x400001 True = Modify \<and> (\<forall>n. vm_fault n VM_FAULT_READONLY 0x400001 s' = None)) \<and>
    user_store 0x400001 7 vm_demo = None"
  by (rule readonly_store_panics [OF vm_demo_inv demo_lookup demo_node _ _ vm_demo_serve]) (simp_all add: demo_text_def)


theorem loader_tiles_iff_witness:
  "unat (compute_memsz demo_text 1) = 3"
  using loader_tiles_iff [of demo_text] by (simp add: demo_text_def)

end
