(* ===== verification/Uio.thy ===== *)
theory Uio
  imports Usermem
begin

text \<open>
  kern/lib/uio.c: moving bytes between a kernel buffer and the buffers that a struct uio
  describes, in kernel or user memory.

  A kernel buffer is its list of bytes and a kernel pointer into it is the list with a
  position; leaving the list is a halt. User memory is reached through copyin and copyout,
  which are bundled in a record with the memory they act on (umem_of ties it to the copies
  of theory Usermem). The memory uiomove moves to or from and the buffer behind the iovec do
  not overlap in this model.

  The locale uio_stream says what a file system may rely on: a uio opened for reading is a
  sink with room for so many bytes and one opened for writing is a source of so many, and
  uiomove takes exactly the bytes asked for, in order. It is interpreted on the uio that
  uio_kinit sets up.
\<close>

datatype uio_rw = UIO_READ | UIO_WRITE
datatype uio_seg = UIO_USERISPACE | UIO_USERSPACE | UIO_SYSSPACE

record iovec =
  iov_kbuf :: "u8 list"
  iov_kpos :: nat
  iov_ubase :: vaddr_t
  iov_len :: u32

text \<open>uio_past holds the iovecs that uio_iov++ has left behind; uio_iovcnt is length uio_iov.\<close>

record uio =
  uio_past :: "iovec list"
  uio_iov :: "iovec list"
  uio_offset :: int
  uio_resid :: u32
  uio_segflg :: uio_seg
  uio_rw :: uio_rw
  uio_space :: "nat option"

text \<open>User memory as uiomove sees it: the two copies and the current address space.\<close>

record 'm umem =
  um_copyin :: "vaddr_t \<Rightarrow> u32 \<Rightarrow> 'm \<Rightarrow> ((errno + u8 list) \<times> 'm) option"
  um_copyout :: "u8 list \<Rightarrow> vaddr_t \<Rightarrow> 'm \<Rightarrow> (status \<times> 'm) option"
  um_getas :: "'m \<Rightarrow> nat option"

definition umem_of :: "handler \<Rightarrow> vmstate umem" where
  "umem_of h = \<lparr>
     um_copyin = (\<lambda>va n s. do {
       (r, s') \<leftarrow> copyin h va n s;
       Some (map_sum id (\<lambda>buf. map buf [0..<unat n]) r, s') }),
     um_copyout = (\<lambda>bs va s. copyout h (\<lambda>i. if i < length bs then bs ! i else 0) va (of_nat (length bs)) s),
     um_getas = vs_as \<rparr>"

subsection \<open>Pieces of a buffer\<close>

definition buf_take :: "u8 list \<Rightarrow> nat \<Rightarrow> nat \<Rightarrow> u8 list option" where
  "buf_take buf pos n = (if pos + n \<le> length buf then Some (take n (drop pos buf)) else None)"

definition buf_put :: "u8 list \<Rightarrow> nat \<Rightarrow> u8 list \<Rightarrow> u8 list option" where
  "buf_put buf pos bs =
     (if pos + length bs \<le> length buf then Some (take pos buf @ bs @ drop (pos + length bs) buf) else None)"

subsection \<open>kern/lib/uio.c\<close>

text \<open>The move of one piece between ptr = buf + k and the iovec, and the advance of iov_base.\<close>

definition move_piece ::
  "'m umem \<Rightarrow> uio_seg \<Rightarrow> uio_rw \<Rightarrow> u8 list \<Rightarrow> nat \<Rightarrow> u32 \<Rightarrow> iovec \<Rightarrow> 'm \<Rightarrow>
   ((status \<times> u8 list \<times> iovec) \<times> 'm) option" where
  "move_piece um seg rw buf k amount iov m =
     (if seg = UIO_SYSSPACE
      then (if rw = UIO_READ
        then do {
          bs \<leftarrow> buf_take buf k (unat amount);
          kb \<leftarrow> buf_put (iov_kbuf iov) (iov_kpos iov) bs;
          Some ((None, buf, iov\<lparr>iov_kbuf := kb, iov_kpos := iov_kpos iov + unat amount\<rparr>), m)
        }
        else do {
          bs \<leftarrow> buf_take (iov_kbuf iov) (iov_kpos iov) (unat amount);
          buf' \<leftarrow> buf_put buf k bs;
          Some ((None, buf', iov\<lparr>iov_kpos := iov_kpos iov + unat amount\<rparr>), m)
        })
      else (if rw = UIO_READ
        then do {
          bs \<leftarrow> buf_take buf k (unat amount);
          (r, m') \<leftarrow> um_copyout um bs (iov_ubase iov) m;
          Some ((r, buf, if r = None then iov\<lparr>iov_ubase := iov_ubase iov + amount\<rparr> else iov), m')
        }
        else do {
          (r, m') \<leftarrow> um_copyin um (iov_ubase iov) amount m;
          (case r of
             Inl e \<Rightarrow> Some ((Some e, buf, iov), m')
           | Inr bs \<Rightarrow> do {
               buf' \<leftarrow> buf_put buf k bs;
               Some ((None, buf', iov\<lparr>iov_ubase := iov_ubase iov + amount\<rparr>), m')
             })
        }))"

function uiomove_loop ::
  "'m umem \<Rightarrow> u8 list \<Rightarrow> nat \<Rightarrow> u32 \<Rightarrow> uio \<Rightarrow> 'm \<Rightarrow> ((status \<times> u8 list \<times> uio) \<times> 'm) option" where
  "uiomove_loop um buf k n u m =
     (if 0 < n \<and> 0 < uio_resid u
      then (case uio_iov u of
          [] \<Rightarrow> None
        | iov # iovs \<Rightarrow>
            (let amount = (if iov_len iov > n then n else iov_len iov) in
             if amount = 0
             then (if iovs = [] then None
                   else uiomove_loop um buf k n (u\<lparr>uio_iov := iovs, uio_past := uio_past u @ [iov]\<rparr>) m)
             else do {
               ((r, buf', iov'), m') \<leftarrow> move_piece um (uio_segflg u) (uio_rw u) buf k amount iov m;
               (case r of
                  Some e \<Rightarrow> Some ((Some e, buf', u), m')
                | None \<Rightarrow>
                    uiomove_loop um buf' (k + unat amount) (n - amount)
                      (u\<lparr>uio_iov := iov'\<lparr>iov_len := iov_len iov - amount\<rparr> # iovs,
                         uio_resid := uio_resid u - amount, uio_offset := uio_offset u + int (unat amount)\<rparr>) m')
             }))
      else Some ((None, buf, u), m))"
  by pat_completeness auto
termination
proof (relation "measure (\<lambda>(_, _, _, n, u, _). unat n + length (uio_iov u))")
  fix u :: uio and n amount :: u32 and iov iov' :: iovec and iovs
  assume "uio_iov u = iov # iovs" "amount = (if iov_len iov > n then n else iov_len iov)" "amount \<noteq> 0"
  moreover from this have "unat (n - amount) < unat n"
    using word_neq_0_conv [of amount] by (subst unat_sub) (auto simp: word_less_nat_alt word_le_nat_alt)
  ultimately show
    "((um, buf', k + unat amount, n - amount,
       u\<lparr>uio_iov := iov'\<lparr>iov_len := iov_len iov - amount\<rparr> # iovs,
         uio_resid := uio_resid u - amount, uio_offset := uio_offset u + int (unat amount)\<rparr>, m'),
      (um, buf, k, n, u, m)) \<in> measure (\<lambda>(_, _, _, n, u, _). unat n + length (uio_iov u))"
    for um :: "'m umem" and buf buf' k and m m' :: 'm by simp
qed auto

declare uiomove_loop.simps [simp del]

definition uiomove :: "'m umem \<Rightarrow> u8 list \<Rightarrow> u32 \<Rightarrow> uio \<Rightarrow> 'm \<Rightarrow> ((status \<times> u8 list \<times> uio) \<times> 'm) option" where
  "uiomove um buf n u m = do {
     kassert (if uio_segflg u = UIO_SYSSPACE then uio_space u = None else uio_space u = um_getas um m);
     uiomove_loop um buf 0 n u m
   }"

function uiomovezeros :: "'m umem \<Rightarrow> u32 \<Rightarrow> uio \<Rightarrow> 'm \<Rightarrow> ((status \<times> uio) \<times> 'm) option" where
  "uiomovezeros um n u m = do {
     kassert (uio_rw u = UIO_READ);
     if 0 < n
     then (let amt = (if 16 > n then n else 16) in do {
       ((r, _, u'), m') \<leftarrow> uiomove um (replicate 16 0) amt u m;
       (case r of
          Some e \<Rightarrow> Some ((Some e, u'), m')
        | None \<Rightarrow> uiomovezeros um (n - amt) u' m')
     })
     else Some ((None, u), m)
   }"
  by pat_completeness auto
termination
proof (relation "measure (\<lambda>(_, n, _, _). unat n)")
  fix n amt :: u32
  assume n: "0 < n" and amt: "amt = (if 16 > n then n else 16)"
  have "amt \<le> n" using amt by (simp add: word_le_nat_alt word_less_nat_alt)
  moreover have "0 < amt" using n amt by simp
  ultimately have "unat (n - amt) < unat n" by (simp add: unat_sub word_less_nat_alt word_le_nat_alt)
  then show "((um, n - amt, u', m'), (um, n, u, m)) \<in> measure (\<lambda>(_, n, _, _). unat n)"
    for um :: "'m umem" and u u' :: uio and m m' :: 'm by simp
qed simp

declare uiomovezeros.simps [simp del]

definition uio_kinit :: "u8 list \<Rightarrow> u32 \<Rightarrow> int \<Rightarrow> uio_rw \<Rightarrow> uio" where
  "uio_kinit kbuf len pos rw =
     \<lparr>uio_past = [], uio_iov = [\<lparr>iov_kbuf = kbuf, iov_kpos = 0, iov_ubase = 0, iov_len = len\<rparr>],
      uio_offset = pos, uio_resid = len, uio_segflg = UIO_SYSSPACE, uio_rw = rw, uio_space = None\<rparr>"


subsection \<open>A uio as a stream of bytes\<close>

definition uio_moved :: "uio \<Rightarrow> u32 \<Rightarrow> uio \<Rightarrow> bool" where
  "uio_moved u n u' \<longleftrightarrow> uio_rw u' = uio_rw u \<and> uio_resid u' = uio_resid u - n \<and>
     uio_offset u' = uio_offset u + int (unat n)"

lemma uio_moved_add:
  assumes "uio_moved u n u1" "uio_moved u1 k u2" "unat n + unat k < 4294967296"
  shows "uio_moved u (n + k) u2"
  using assms by (simp add: uio_moved_def unat_add_u32)

lemma uio_moved_0 [simp]: "uio_moved u 0 u"
  by (simp add: uio_moved_def)

text \<open>
  room is how many bytes the iovecs still hold or take, src the bytes a uio opened for
  writing has to offer, out the bytes that one opened for reading has received. File
  systems store to uio_offset and uio_resid themselves, so nothing depends on these.
\<close>

locale uio_stream =
  fixes um :: "'m umem"
    and ok :: "uio \<Rightarrow> 'm \<Rightarrow> bool"
    and room :: "uio \<Rightarrow> 'm \<Rightarrow> nat"
    and src :: "uio \<Rightarrow> 'm \<Rightarrow> u8 list"
    and out :: "uio \<Rightarrow> 'm \<Rightarrow> u8 list"
  assumes set_offset [simp]: "ok (u\<lparr>uio_offset := x\<rparr>) m = ok u m" "room (u\<lparr>uio_offset := x\<rparr>) m = room u m"
      "src (u\<lparr>uio_offset := x\<rparr>) m = src u m" "out (u\<lparr>uio_offset := x\<rparr>) m = out u m"
    and set_resid [simp]: "ok (u\<lparr>uio_resid := r\<rparr>) m = ok u m" "room (u\<lparr>uio_resid := r\<rparr>) m = room u m"
      "src (u\<lparr>uio_resid := r\<rparr>) m = src u m" "out (u\<lparr>uio_resid := r\<rparr>) m = out u m"
    and room_src: "ok u m \<Longrightarrow> uio_rw u = UIO_WRITE \<Longrightarrow> length (src u m) = room u m"
    and move_read: "ok u m \<Longrightarrow> uio_rw u = UIO_READ \<Longrightarrow> unat n \<le> length buf \<Longrightarrow> unat n \<le> room u m \<Longrightarrow>
      n \<le> uio_resid u \<Longrightarrow> \<exists>u' m'. uiomove um buf n u m = Some ((None, buf, u'), m') \<and> ok u' m' \<and>
        uio_moved u n u' \<and> room u' m' = room u m - unat n \<and> out u' m' = out u m @ take (unat n) buf"
    and move_write: "ok u m \<Longrightarrow> uio_rw u = UIO_WRITE \<Longrightarrow> unat n \<le> length buf \<Longrightarrow> unat n \<le> room u m \<Longrightarrow>
      n \<le> uio_resid u \<Longrightarrow> \<exists>u' m'. uiomove um buf n u m =
          Some ((None, take (unat n) (src u m) @ drop (unat n) buf, u'), m') \<and> ok u' m' \<and>
        uio_moved u n u' \<and> room u' m' = room u m - unat n \<and> src u' m' = drop (unat n) (src u m)"
begin

lemma move_zeros:
  assumes "ok u m" "uio_rw u = UIO_READ" "unat n \<le> room u m" "n \<le> uio_resid u"
  shows "\<exists>u' m'. uiomovezeros um n u m = Some ((None, u'), m') \<and> ok u' m' \<and>
    uio_moved u n u' \<and> room u' m' = room u m - unat n \<and> out u' m' = out u m @ replicate (unat n) 0"
  using assms
proof (induction "unat n" arbitrary: n u m rule: less_induct)
  case less
  show ?case
  proof (cases "0 < n")
    case False
    then have "n = 0" using word_neq_0_conv by blast
    then show ?thesis using less.prems by (simp add: uiomovezeros.simps [of um 0])
  next
    case True
    define amt where "amt = (if 16 > n then n else 16)"
    have amt: "0 < unat amt" "unat amt \<le> unat n" "unat amt \<le> 16" "amt \<le> n"
      using True by (auto simp: amt_def word_less_nat_alt word_le_nat_alt)
    then have rem: "unat (n - amt) = unat n - unat amt" by (simp add: unat_sub)
    have "amt \<le> uio_resid u" using amt(4) less.prems(4) by (rule order_trans)
    then obtain u1 m1 where u1: "uiomove um (replicate 16 0) amt u m = Some ((None, replicate 16 0, u1), m1)"
        "ok u1 m1" "uio_moved u amt u1" "room u1 m1 = room u m - unat amt"
        "out u1 m1 = out u m @ take (unat amt) (replicate 16 0)"
      using move_read [of u m amt "replicate 16 0"] less.prems amt by auto
    have "n - amt \<le> uio_resid u1" using u1(3) less.prems(4) amt rem
      by (simp add: uio_moved_def word_le_nat_alt unat_sub)
    moreover have "unat (n - amt) < unat n" "unat (n - amt) \<le> room u1 m1" "uio_rw u1 = UIO_READ"
      using amt rem u1(3,4) less.prems by (auto simp: uio_moved_def)
    ultimately obtain u2 m2 where u2: "uiomovezeros um (n - amt) u1 m1 = Some ((None, u2), m2)"
        "ok u2 m2" "uio_moved u1 (n - amt) u2" "room u2 m2 = room u1 m1 - unat (n - amt)"
        "out u2 m2 = out u1 m1 @ replicate (unat (n - amt)) 0"
      using less.hyps [of "n - amt" u1 m1] u1(2) by blast
    have run: "uiomovezeros um n u m = Some ((None, u2), m2)"
      using True less.prems(2) u1(1) u2(1) by (subst uiomovezeros.simps) (simp add: amt_def Let_def)
    have "uio_moved u (amt + (n - amt)) u2"
      using uio_moved_add [OF u1(3) u2(3)] amt(2) rem unat_u32_lt [of n] by simp
    moreover have "take (unat amt) (replicate 16 0) @ replicate (unat (n - amt)) (0 :: u8) = replicate (unat n) 0"
      using amt rem by (simp add: min_def flip: replicate_add)
    ultimately show ?thesis using run u2 u1 rem amt by auto
  qed
qed

end

text \<open>The uio of uio_kinit on a buffer of len bytes, before and during its use.\<close>

definition kuio_ok :: "nat \<Rightarrow> uio \<Rightarrow> 'm \<Rightarrow> bool" where
  "kuio_ok len u m \<longleftrightarrow> uio_segflg u = UIO_SYSSPACE \<and> uio_space u = None \<and> length (uio_iov u) = 1 \<and>
     length (iov_kbuf (hd (uio_iov u))) = len \<and>
     iov_kpos (hd (uio_iov u)) + unat (iov_len (hd (uio_iov u))) \<le> length (iov_kbuf (hd (uio_iov u)))"

definition kuio_room :: "uio \<Rightarrow> 'm \<Rightarrow> nat" where
  "kuio_room u m = unat (iov_len (hd (uio_iov u)))"

definition kuio_src :: "uio \<Rightarrow> 'm \<Rightarrow> u8 list" where
  "kuio_src u m = take (kuio_room u m) (drop (iov_kpos (hd (uio_iov u))) (iov_kbuf (hd (uio_iov u))))"

definition kuio_out :: "uio \<Rightarrow> 'm \<Rightarrow> u8 list" where
  "kuio_out u m = take (iov_kpos (hd (uio_iov u))) (iov_kbuf (hd (uio_iov u)))"


lemma uiomove_0: "uiomove um buf 0 u m = (if (if uio_segflg u = UIO_SYSSPACE then uio_space u = None
    else uio_space u = um_getas um m) then Some ((None, buf, u), m) else None)"
  by (simp add: uiomove_def uiomove_loop.simps)

text \<open>One piece is all there is.\<close>

lemma uiomove_kuio:
  assumes "kuio_ok N u m" "unat n \<le> kuio_room u m" "n \<le> uio_resid u" "0 < n"
  shows "uiomove um buf n u m = do {
     ((r, buf', iov'), m') \<leftarrow> move_piece um UIO_SYSSPACE (uio_rw u) buf 0 n (hd (uio_iov u)) m;
     (case r of
        Some e \<Rightarrow> Some ((Some e, buf', u), m')
      | None \<Rightarrow> Some ((None, buf', u\<lparr>uio_iov := [iov'\<lparr>iov_len := iov_len (hd (uio_iov u)) - n\<rparr>],
          uio_resid := uio_resid u - n, uio_offset := uio_offset u + int (unat n)\<rparr>), m'))
   }"
proof -
  from assms(1) obtain iov where iov: "uio_iov u = [iov]"
    by (auto simp: kuio_ok_def length_Suc_conv)
  have len: "n \<le> iov_len iov" using assms(2) iov by (simp add: kuio_room_def word_le_nat_alt)
  then have sz: "(if iov_len iov > n then n else iov_len iov) = n" by auto
  have pos: "0 < uio_resid u" using assms(3,4) by (rule less_le_trans [rotated])
  have seg: "uio_segflg u = UIO_SYSSPACE" "uio_space u = None" using assms(1) by (auto simp: kuio_ok_def)
  have "uiomove um buf n u m = uiomove_loop um buf 0 n u m" using seg by (simp add: uiomove_def)
  also have "\<dots> = (case move_piece um UIO_SYSSPACE (uio_rw u) buf 0 n iov m of None \<Rightarrow> None
      | Some ((r, buf', iov'), m') \<Rightarrow>
        (case r of
           Some e \<Rightarrow> Some ((Some e, buf', u), m')
         | None \<Rightarrow> uiomove_loop um buf' (unat n) 0 (u\<lparr>uio_iov := [iov'\<lparr>iov_len := iov_len iov - n\<rparr>],
          uio_resid := uio_resid u - n, uio_offset := uio_offset u + int (unat n)\<rparr>) m'))"
    unfolding uiomove_loop.simps [of um buf 0 n u m] iov list.case Let_def sz seg
    using assms(4) pos by (cases "move_piece um UIO_SYSSPACE (uio_rw u) buf 0 n iov m") (auto split: option.split)
  finally show ?thesis using iov
    by (simp add: uiomove_loop.simps [of um _ _ 0] split: option.split)
qed

lemma kuio_read:
  assumes "kuio_ok N u m" "uio_rw u = UIO_READ" "unat n \<le> length buf" "unat n \<le> kuio_room u m" "n \<le> uio_resid u"
  shows "\<exists>u' m'. uiomove um buf n u m = Some ((None, buf, u'), m') \<and> kuio_ok N u' m' \<and>
    uio_moved u n u' \<and> kuio_room u' m' = kuio_room u m - unat n \<and> kuio_out u' m' = kuio_out u m @ take (unat n) buf"
proof (cases "n = 0")
  case True
  then show ?thesis using assms by (auto simp: uiomove_0 kuio_ok_def)
next
  case False
  then have pos: "0 < n" using word_neq_0_conv by blast
  obtain iov where iov: "uio_iov u = [iov]" using assms(1) by (auto simp: kuio_ok_def length_Suc_conv)
  then have l: "iov_kpos iov + unat (iov_len iov) \<le> length (iov_kbuf iov)" "unat n \<le> unat (iov_len iov)"
    using assms(1,4) by (simp_all add: kuio_ok_def kuio_room_def)
  then have u: "unat (iov_len iov - n) = unat (iov_len iov) - unat n" by (simp add: unat_sub word_le_nat_alt)
  have mn: "min (length (iov_kbuf iov) - iov_kpos iov) (unat n) = unat n" "min (unat (iov_len iov)) (unat n) = unat n"
    using l by (simp_all add: min_absorb2)
  show ?thesis
    unfolding uiomove_kuio [OF assms(1,4,5) pos] using assms l iov u mn
    by (auto simp: move_piece_def buf_take_def buf_put_def kuio_ok_def kuio_room_def kuio_out_def uio_moved_def)
qed

lemma kuio_write:
  assumes "kuio_ok N u m" "uio_rw u = UIO_WRITE" "unat n \<le> length buf" "unat n \<le> kuio_room u m" "n \<le> uio_resid u"
  shows "\<exists>u' m'. uiomove um buf n u m = Some ((None, take (unat n) (kuio_src u m) @ drop (unat n) buf, u'), m') \<and>
    kuio_ok N u' m' \<and> uio_moved u n u' \<and> kuio_room u' m' = kuio_room u m - unat n \<and>
    kuio_src u' m' = drop (unat n) (kuio_src u m)"
proof (cases "n = 0")
  case True
  then show ?thesis using assms by (auto simp: uiomove_0 kuio_ok_def)
next
  case False
  then have pos: "0 < n" using word_neq_0_conv by blast
  obtain iov where iov: "uio_iov u = [iov]" using assms(1) by (auto simp: kuio_ok_def length_Suc_conv)
  then have l: "iov_kpos iov + unat (iov_len iov) \<le> length (iov_kbuf iov)" "unat n \<le> unat (iov_len iov)"
    using assms(1,4) by (simp_all add: kuio_ok_def kuio_room_def)
  then have u: "unat (iov_len iov - n) = unat (iov_len iov) - unat n" by (simp add: unat_sub word_le_nat_alt)
  have mn: "min (length (iov_kbuf iov) - iov_kpos iov) (unat n) = unat n" "min (unat (iov_len iov)) (unat n) = unat n"
    using l by (simp_all add: min_absorb2)
  show ?thesis
    unfolding uiomove_kuio [OF assms(1,4,5) pos] using assms l iov u mn
    by (auto simp: move_piece_def buf_take_def buf_put_def kuio_ok_def kuio_room_def kuio_src_def uio_moved_def drop_take add.commute)
qed

interpretation kuio: uio_stream um "kuio_ok N" kuio_room kuio_src kuio_out
  for um :: "'m umem" and N :: nat
proof unfold_locales
  fix u :: uio and m :: 'm
  show "kuio_ok N u m \<Longrightarrow> uio_rw u = UIO_WRITE \<Longrightarrow> length (kuio_src u m) = kuio_room u m"
    by (auto simp: kuio_src_def kuio_room_def kuio_ok_def)
qed (rule kuio_read kuio_write, assumption+ | simp add: kuio_ok_def kuio_room_def kuio_src_def kuio_out_def)+

lemma kuio_kinit:
  assumes "unat len \<le> length kbuf"
  shows "kuio_ok (length kbuf) (uio_kinit kbuf len pos rw) m" "kuio_room (uio_kinit kbuf len pos rw) m = unat len"
    "kuio_src (uio_kinit kbuf len pos rw) m = take (unat len) kbuf" "kuio_out (uio_kinit kbuf len pos rw) m = []"
    "uio_rw (uio_kinit kbuf len pos rw) = rw" "uio_offset (uio_kinit kbuf len pos rw) = pos"
    "uio_resid (uio_kinit kbuf len pos rw) = len"
  using assms by (auto simp: uio_kinit_def kuio_ok_def kuio_room_def kuio_src_def kuio_out_def)

end
