(* ===== verification/Bytes.thy ===== *)
theory Bytes
  imports Kprelude
begin

text \<open>
  Integers in memory. The MIPS of System/161 is big-endian and the kernel's on-disk
  structures and the executables it loads hold big-endian integers, which the code reads by
  laying a C struct over the bytes. These functions are that overlay for 16 and 32 bits and
  for arrays of 32-bit words, with their round trips.
\<close>

definition be16 :: "u16 \<Rightarrow> u8 list" where
  "be16 x = [ucast (drop_bit 8 x), ucast x]"

definition be32 :: "u32 \<Rightarrow> u8 list" where
  "be32 x = [ucast (drop_bit 24 x), ucast (drop_bit 16 x), ucast (drop_bit 8 x), ucast x]"

fun of_be16 :: "u8 list \<Rightarrow> u16" where
  "of_be16 (a # b # _) = push_bit 8 (ucast a) OR ucast b"
| "of_be16 _ = 0"

fun of_be32 :: "u8 list \<Rightarrow> u32" where
  "of_be32 (a # b # c # d # _) =
     push_bit 24 (ucast a) OR push_bit 16 (ucast b) OR push_bit 8 (ucast c) OR ucast d"
| "of_be32 _ = 0"

text \<open>The integer at an offset of a structure.\<close>

definition get16 :: "u8 list \<Rightarrow> nat \<Rightarrow> u16" where
  "get16 bs off = of_be16 (drop off bs)"

definition get32 :: "u8 list \<Rightarrow> nat \<Rightarrow> u32" where
  "get32 bs off = of_be32 (drop off bs)"

definition words_of :: "nat \<Rightarrow> u8 list \<Rightarrow> u32 list" where
  "words_of n bs = map (\<lambda>i. get32 bs (4 * i)) [0..<n]"

definition bytes_of :: "u32 list \<Rightarrow> u8 list" where
  "bytes_of ws = concat (map be32 ws)"

lemma length_be [simp]: "length (be16 x) = 2" "length (be32 y) = 4"
  by (simp_all add: be16_def be32_def)

lemma bit_of_byte: "bit (ucast (a :: u8) :: 'b::len word) n \<longleftrightarrow> bit a n \<and> n < LENGTH('b)"
  by (auto simp: bit_ucast_iff)

lemma bit_u8: "bit (a :: u8) n \<Longrightarrow> n < 8"
  using bit_imp_le_length [of a n] by simp

lemma bit_of_be32:
  "bit (of_be32 (a # b # c # d # r)) n \<longleftrightarrow> n < 32 \<and>
     (if n < 8 then bit d n else if n < 16 then bit c (n - 8) else if n < 24 then bit b (n - 16)
      else bit a (n - 24))"
  by (auto simp: bit_or_iff bit_push_bit_iff bit_of_byte dest: bit_u8)

lemma bit_of_be16:
  "bit (of_be16 (a # b # r)) n \<longleftrightarrow> n < 16 \<and> (if n < 8 then bit b n else bit a (n - 8))"
  by (auto simp: bit_or_iff bit_push_bit_iff bit_of_byte dest: bit_u8)

lemma of_be16_be16 [simp]: "of_be16 (be16 x @ r) = x"
proof (rule bit_eqI)
  fix n
  show "bit (of_be16 (be16 x @ r)) n = bit x n"
    using bit_imp_le_length [of x n]
    by (auto simp del: of_be16.simps simp: be16_def bit_of_be16 bit_ucast_iff bit_drop_bit_eq)
qed

lemma of_be32_be32 [simp]: "of_be32 (be32 x @ r) = x"
proof (rule bit_eqI)
  fix n
  show "bit (of_be32 (be32 x @ r)) n = bit x n"
    using bit_imp_le_length [of x n]
    by (auto simp del: of_be32.simps simp: be32_def bit_of_be32 bit_ucast_iff bit_drop_bit_eq)
qed

lemma be32_of_be32: "length bs = 4 \<Longrightarrow> be32 (of_be32 bs) = bs"
proof -
  assume "length bs = 4"
  then obtain a b c d where bs: "bs = [a, b, c, d]"
    by (auto simp: length_Suc_conv numeral_eq_Suc)
  show ?thesis unfolding bs
    by (auto intro!: bit_eqI simp del: of_be32.simps
        simp: be32_def bit_of_be32 bit_ucast_iff bit_drop_bit_eq dest: bit_u8)
qed

lemma length_words_of [simp]: "length (words_of n bs) = n"
  by (simp add: words_of_def)

lemma nth_words_of [simp]: "i < n \<Longrightarrow> words_of n bs ! i = get32 bs (4 * i)"
  by (simp add: words_of_def)

lemma length_bytes_of [simp]: "length (bytes_of ws) = 4 * length ws"
  by (induction ws) (auto simp: bytes_of_def)

lemma bytes_of_Cons [simp]: "bytes_of (w # ws) = be32 w @ bytes_of ws"
  by (simp add: bytes_of_def)

lemma bytes_of_Nil [simp]: "bytes_of [] = []"
  by (simp add: bytes_of_def)

lemma drop_bytes_of: "i \<le> length ws \<Longrightarrow> drop (4 * i) (bytes_of ws) = bytes_of (drop i ws)"
proof (induction ws arbitrary: i)
  case (Cons w ws)
  then show ?case by (cases i) (auto simp: drop_append)
qed simp

lemma get32_bytes_of: "i < length ws \<Longrightarrow> get32 (bytes_of ws @ r) (4 * i) = ws ! i"
proof -
  assume i: "i < length ws"
  then have "drop i ws = ws ! i # drop (Suc i) ws" by (rule Cons_nth_drop_Suc [symmetric])
  moreover have "drop (4 * i) (bytes_of ws @ r) = bytes_of (drop i ws) @ r"
    using i drop_bytes_of [of i ws] by (simp only: drop_append) simp
  ultimately have "drop (4 * i) (bytes_of ws @ r) = be32 (ws ! i) @ bytes_of (drop (Suc i) ws) @ r"
    by simp
  then show ?thesis by (simp add: get32_def)
qed

lemma words_of_bytes_of [simp]: "length ws = n \<Longrightarrow> words_of n (bytes_of ws @ r) = ws"
  by (intro nth_equalityI) (simp_all add: get32_bytes_of)

lemma words_of_bytes_of' [simp]: "length ws = n \<Longrightarrow> words_of n (bytes_of ws) = ws"
  using words_of_bytes_of [of ws n "[]"] by simp

lemma of_be32_zeros: "of_be32 (replicate k 0) = 0"
proof (cases "replicate k 0 :: u8 list" rule: of_be32.cases)
  case (1 a b c d r)
  then have "set (a # b # c # d # r) \<subseteq> {0}" by (metis set_replicate_conv_if empty_subsetI order_refl)
  then show ?thesis unfolding 1 by simp
qed auto

lemma words_of_zeros [simp]: "words_of n (replicate k 0) = replicate n 0"
  by (intro nth_equalityI) (simp_all add: get32_def of_be32_zeros)

end
