(* ===== verification/Loadelf.thy ===== *)
theory Loadelf
  imports Uio Bytes
begin

text \<open>
  The executable loader, load_elf of kern/syscall/loadelf.c in the OPT_PT and OPT_ONDEMAND
  configuration: it reads the headers of an ELF file and defines the regions of the address
  space; the contents follow on demand (theory Vm).

  The structures are those of kern/include/elf.h, laid out big-endian as on the machine. The
  reads are VOP_READ of the vnode with a kernel uio; which file system serves them is not the
  loader's business, so the read operation is a parameter, and the locale file_reader says
  what the loader relies on: a read hands over the bytes of the file from the offset on, as
  many as asked for or as there are, and leaves the rest of the request in uio_resid.
\<close>

record Elf_Ehdr =
  e_ident :: "u8 list"
  e_type :: u16
  e_machine :: u16
  e_version :: u32
  e_entry :: u32
  e_phoff :: u32
  e_shoff :: u32
  e_flags :: u32
  e_ehsize :: u16
  e_phentsize :: u16
  e_phnum :: u16
  e_shentsize :: u16
  e_shnum :: u16
  e_shstrndx :: u16

record Elf_Phdr =
  p_type :: u32
  p_offset :: u32
  p_vaddr :: u32
  p_paddr :: u32
  p_filesz :: u32
  p_memsz :: u32
  p_flags :: u32
  p_align :: u32

abbreviation (input) EHDR_SIZE :: nat where "EHDR_SIZE \<equiv> 52"
abbreviation (input) PHDR_SIZE :: nat where "PHDR_SIZE \<equiv> 32"
abbreviation (input) PT_NULL :: u32 where "PT_NULL \<equiv> 0"
abbreviation (input) PT_LOAD :: u32 where "PT_LOAD \<equiv> 1"
abbreviation (input) PT_PHDR :: u32 where "PT_PHDR \<equiv> 6"
abbreviation (input) PT_MIPS_REGINFO :: u32 where "PT_MIPS_REGINFO \<equiv> 0x70000000"
abbreviation (input) PF_R :: u32 where "PF_R \<equiv> 4"
abbreviation (input) PF_W :: u32 where "PF_W \<equiv> 2"
abbreviation (input) PF_X :: u32 where "PF_X \<equiv> 1"

definition ehdr_of :: "u8 list \<Rightarrow> Elf_Ehdr" where
  "ehdr_of bs = \<lparr>e_ident = take 16 bs, e_type = get16 bs 16, e_machine = get16 bs 18, e_version = get32 bs 20,
     e_entry = get32 bs 24, e_phoff = get32 bs 28, e_shoff = get32 bs 32, e_flags = get32 bs 36,
     e_ehsize = get16 bs 40, e_phentsize = get16 bs 42, e_phnum = get16 bs 44, e_shentsize = get16 bs 46,
     e_shnum = get16 bs 48, e_shstrndx = get16 bs 50\<rparr>"

definition phdr_of :: "u8 list \<Rightarrow> Elf_Phdr" where
  "phdr_of bs = \<lparr>p_type = get32 bs 0, p_offset = get32 bs 4, p_vaddr = get32 bs 8, p_paddr = get32 bs 12,
     p_filesz = get32 bs 16, p_memsz = get32 bs 20, p_flags = get32 bs 24, p_align = get32 bs 28\<rparr>"

text \<open>ELFMAG0 to ELFMAG3, ELFCLASS32, ELFDATA2MSB, EV_CURRENT, ET_EXEC and EM_MIPS.\<close>

definition elf_header_ok :: "Elf_Ehdr \<Rightarrow> bool" where
  "elf_header_ok eh \<longleftrightarrow> \<not> (e_ident eh ! 0 \<noteq> 0x7f \<or> e_ident eh ! 1 \<noteq> 0x45 \<or> e_ident eh ! 2 \<noteq> 0x4c \<or>
     e_ident eh ! 3 \<noteq> 0x46 \<or> e_ident eh ! 4 \<noteq> 1 \<or> e_ident eh ! 5 \<noteq> 2 \<or> e_ident eh ! 6 \<noteq> 1 \<or>
     e_version eh \<noteq> 1 \<or> e_type eh \<noteq> 2 \<or> e_machine eh \<noteq> 8)"

subsection \<open>kern/syscall/loadelf.c\<close>

type_synonym 'v reader = "uio \<Rightarrow> 'v \<Rightarrow> ((status \<times> uio) \<times> 'v) option"

text \<open>uio_kinit and VOP_READ of a structure of len bytes; a short read is ENOEXEC. (What the
  structure on the stack holds before is not used.)\<close>

definition read_struct :: "'v reader \<Rightarrow> nat \<Rightarrow> int \<Rightarrow> 'v \<Rightarrow> ((errno + u8 list) \<times> 'v) option" where
  "read_struct rd len off v = do {
     ((result, ku), v1) \<leftarrow> rd (uio_kinit (replicate len 0) (of_nat len) off UIO_READ) v;
     (case result of
        Some e \<Rightarrow> Some (Inl e, v1)
      | None \<Rightarrow>
          if uio_resid ku \<noteq> 0 then Some (Inl ENOEXEC, v1)
          else Some (Inr (iov_kbuf (hd (uio_iov ku))), v1))
   }"

text \<open>The offset is computed in 32 bits and then widened to off_t.\<close>

definition phdr_offset :: "Elf_Ehdr \<Rightarrow> nat \<Rightarrow> int" where
  "phdr_offset eh i = int (unat (e_phoff eh + of_nat i * ucast (e_phentsize eh)))"

fun load_phdrs ::
  "'v reader \<Rightarrow> Elf_Ehdr \<Rightarrow> nat \<Rightarrow> addrspace \<Rightarrow> kheap \<Rightarrow> 'v \<Rightarrow> (status \<times> addrspace \<times> kheap \<times> 'v) option" where
  "load_phdrs rd eh 0 as k v = Some (None, as, k, v)"
| "load_phdrs rd eh (Suc n) as k v = do {
     let i = unat (e_phnum eh) - Suc n;
     (r, v1) \<leftarrow> read_struct rd PHDR_SIZE (phdr_offset eh i) v;
     (case r of
        Inl e \<Rightarrow> Some (Some e, as, k, v1)
      | Inr bs \<Rightarrow>
          (let ph = phdr_of bs in
           if p_type ph = PT_NULL \<or> p_type ph = PT_PHDR \<or> p_type ph = PT_MIPS_REGINFO
           then load_phdrs rd eh n as k v1
           else if p_type ph \<noteq> PT_LOAD then Some (Some ENOEXEC, as, k, v1)
           else do {
             (r2, k1) \<leftarrow> as_define_region as (p_vaddr ph) (int (unat (p_offset ph))) (p_memsz ph)
               (int (unat (p_flags ph AND PF_R))) (int (unat (p_flags ph AND PF_W)))
               (int (unat (p_flags ph AND PF_X))) k;
             (case r2 of
                Inl e \<Rightarrow> Some (Some e, as, k1, v1)
              | Inr as1 \<Rightarrow> load_phdrs rd eh n as1 k1 v1)
           }))
   }"

text \<open>vn is the vnode itself, as as_complete_load stores it; the address space is the current
  process's. Inr is the entry point.\<close>

definition load_elf ::
  "'v reader \<Rightarrow> nat \<Rightarrow> addrspace \<Rightarrow> kheap \<Rightarrow> 'v \<Rightarrow> ((errno + vaddr_t) \<times> addrspace \<times> kheap \<times> 'v) option" where
  "load_elf rd vn as k v = do {
     (r, v1) \<leftarrow> read_struct rd EHDR_SIZE 0 v;
     (case r of
        Inl e \<Rightarrow> Some (Inl e, as, k, v1)
      | Inr bs \<Rightarrow>
          (let eh = ehdr_of bs in
           if \<not> elf_header_ok eh then Some (Inl ENOEXEC, as, k, v1)
           else do {
             (r2, as1, k1, v2) \<leftarrow> load_phdrs rd eh (unat (e_phnum eh)) as k v1;
             (case r2 of
                Some e \<Rightarrow> Some (Inl e, as1, k1, v2)
              | None \<Rightarrow>
                  (let (r3, as2) = as_complete_load as1 (Some vn) in
                   case r3 of
                     Some e \<Rightarrow> Some (Inl e, as2, k1, v2)
                   | None \<Rightarrow> Some (Inr (e_entry eh), as2, k1, v2)))
           }))
   }"


subsection \<open>What a file describes\<close>

definition phdr_at :: "u8 list \<Rightarrow> Elf_Ehdr \<Rightarrow> nat \<Rightarrow> Elf_Phdr" where
  "phdr_at f eh i = phdr_of (take PHDR_SIZE (drop (nat (phdr_offset eh i)) f))"

definition phdr_in :: "u8 list \<Rightarrow> Elf_Ehdr \<Rightarrow> nat \<Rightarrow> bool" where
  "phdr_in f eh i \<longleftrightarrow> nat (phdr_offset eh i) + PHDR_SIZE \<le> length f \<and>
     p_type (phdr_at f eh i) \<in> {PT_NULL, PT_LOAD, PT_PHDR, PT_MIPS_REGINFO}"

text \<open>The pages in which a byte of a load segment lies.\<close>

definition load_pages :: "Elf_Phdr \<Rightarrow> vaddr_t set" where
  "load_pages p = {q. range_page (unat (p_vaddr p)) (unat (p_memsz p)) q}"

definition load_cost :: "Elf_Phdr \<Rightarrow> nat" where
  "load_cost p = region_pages (p_vaddr p) (p_memsz p) + 2"

definition load_fits :: "Elf_Phdr \<Rightarrow> bool" where
  "load_fits p \<longleftrightarrow> 0 < unat (p_memsz p) \<and> unat (p_vaddr p) + unat (p_memsz p) \<le> 0x80000000"

fun loads_apart :: "Elf_Phdr list \<Rightarrow> bool" where
  "loads_apart [] = True"
| "loads_apart (p # ps) = ((\<forall>q \<in> set ps. load_pages p \<inter> load_pages q = {}) \<and> loads_apart ps)"

text \<open>What the segment entry of a load segment says.\<close>

definition seg_key :: "segment_entry \<Rightarrow> int \<times> u32 \<times> vaddr_t \<times> nat" where
  "seg_key g = (sg_offset g, sg_size g, sg_first_addr g, sg_npages g)"

definition phdr_key :: "Elf_Phdr \<Rightarrow> int \<times> u32 \<times> vaddr_t \<times> nat" where
  "phdr_key p = (int (unat (p_offset p)), p_memsz p, p_vaddr p AND PAGE_FRAME, region_pages (p_vaddr p) (p_memsz p))"

text \<open>The address space as' is as with the segments qs added: these pages and no others, none of
  them in memory, and one segment entry for each, the last one first.\<close>

definition space_loaded :: "addrspace \<Rightarrow> Elf_Phdr list \<Rightarrow> addrspace \<Rightarrow> bool" where
  "space_loaded as qs as' \<longleftrightarrow> as_wf as' \<and> as_elf_file as' = as_elf_file as \<and>
     pte_page ` set (as_pt as') = \<Union>(load_pages ` set qs) \<union> pte_page ` set (as_pt as) \<and>
     (\<forall>e \<in> set (as_pt as') - set (as_pt as). \<not> pte_in_mem e \<and> \<not> pte_in_swap e) \<and>
     (\<exists>segs. as_segments as' = rev segs @ as_segments as \<and>
       map seg_key segs =
       map phdr_key qs)"

lemma space_loaded_Nil: "as_wf as \<Longrightarrow> space_loaded as [] as"
  by (simp add: space_loaded_def)

lemma space_loaded_Cons:
  assumes "space_loaded as [p] as1" "space_loaded as1 qs as2"
  shows "space_loaded as (p # qs) as2"
proof -
  obtain s1 s2 where s: "as_segments as1 = rev s1 @ as_segments as" "map seg_key s1 = [phdr_key p]"
    "as_segments as2 = rev s2 @ as_segments as1" "map seg_key s2 = map phdr_key qs"
    using assms unfolding space_loaded_def by auto
  then have "as_segments as2 = rev (s1 @ s2) @ as_segments as" "map seg_key (s1 @ s2) = map phdr_key (p # qs)" by simp_all
  moreover have "pte_page ` set (as_pt as2) = \<Union>(load_pages ` set (p # qs)) \<union> pte_page ` set (as_pt as)"
    using assms unfolding space_loaded_def by auto
  moreover have "\<forall>e \<in> set (as_pt as2) - set (as_pt as). \<not> pte_in_mem e \<and> \<not> pte_in_swap e"
    using assms unfolding space_loaded_def by blast
  moreover have "as_wf as2" "as_elf_file as2 = as_elf_file as" using assms unfolding space_loaded_def by simp_all
  ultimately show ?thesis unfolding space_loaded_def by blast
qed

lemma define_load:
  assumes "as_wf as" "load_fits p" "load_cost p \<le> k" "load_pages p \<inter> pte_page ` set (as_pt as) = {}"
  shows "\<exists>as1. as_define_region as (p_vaddr p) (int (unat (p_offset p))) (p_memsz p) r w x k =
    Some (Inr as1, k - load_cost p) \<and> space_loaded as [p] as1"
proof -
  have fits: "0 < unat (p_memsz p)" "unat (p_vaddr p) + unat (p_memsz p) \<le> 0x80000000"
    using assms(2) unfolding load_fits_def by blast+
  have apart: "0 \<le> int (unat (p_offset p))"
    "\<forall>q \<in> pte_page ` set (as_pt as). \<not> range_page (unat (p_vaddr p)) (unat (p_memsz p)) q"
    using assms(4) unfolding load_pages_def by auto
  obtain as1 chain seg where d: "as_define_region as (p_vaddr p) (int (unat (p_offset p))) (p_memsz p) r w x k =
      Some (Inr as1, k - load_cost p)" "as_wf as1" "as_pt as1 = chain @ as_pt as" "pte_page ` set chain = load_pages p"
      "\<forall>e \<in> set chain. \<not> pte_in_mem e \<and> \<not> pte_in_swap e" "as_segments as1 = seg # as_segments as"
      "sg_first_addr seg = p_vaddr p AND PAGE_FRAME" "sg_npages seg = region_pages (p_vaddr p) (p_memsz p)" "sg_size seg = p_memsz p"
      "sg_offset seg = int (unat (p_offset p))" "as_elf_file as1 = as_elf_file as"
    using define_region_ok [OF assms(1) fits assms(3) [unfolded load_cost_def], of "int (unat (p_offset p))" r w x] apart
    unfolding load_cost_def load_pages_def by blast
  have "\<exists>segs. as_segments as1 = rev segs @ as_segments as \<and>
       map seg_key segs =
       map phdr_key [p]"
    using d by (intro exI [of _ "[seg]"]) (simp add: seg_key_def phdr_key_def)
  then show ?thesis using d unfolding space_loaded_def by auto
qed

text \<open>An executable that can be run: a header for this machine, program headers inside the file and
  of the known types, and load segments in user space that share no page.\<close>

definition elf_image :: "u8 list \<Rightarrow> Elf_Ehdr \<Rightarrow> Elf_Phdr list \<Rightarrow> bool" where
  "elf_image f eh qs \<longleftrightarrow> EHDR_SIZE \<le> length f \<and> eh = ehdr_of (take EHDR_SIZE f) \<and> elf_header_ok eh \<and>
     (\<forall>i \<in> {0..<unat (e_phnum eh)}. phdr_in f eh i) \<and>
     qs = filter (\<lambda>p. p_type p = PT_LOAD) (map (phdr_at f eh) [0..<unat (e_phnum eh)]) \<and>
     (\<forall>p \<in> set qs. load_fits p) \<and> loads_apart qs"

text \<open>as_define_region leaves the executable vnode alone and returns no error.\<close>

lemma define_region_file:
  "as_define_region as va off sz r w x k = Some (res, k') \<Longrightarrow>
   \<exists>as'. res = Inr as' \<and> as_elf_file as' = as_elf_file as"
  by (auto simp: as_define_region_def link_chain_def Let_def bind_eq_Some_conv split: if_splits)

subsection \<open>What the loader relies on\<close>

text \<open>Whatever the reader is, an error of load_elf is ENOEXEC or one that the reader returned, and the
  address space has no executable then if it had none before.\<close>

definition read_fails :: "'v reader \<Rightarrow> errno \<Rightarrow> bool" where
  "read_fails rd e \<longleftrightarrow> (\<exists>u v u' v'. rd u v = Some ((Some e, u'), v'))"

lemma read_struct_error: "read_struct rd n off v = Some (Inl e, v') \<Longrightarrow> e = ENOEXEC \<or> read_fails rd e"
  by (auto simp: read_struct_def read_fails_def bind_eq_Some_conv split: option.splits if_splits)

lemma load_phdrs_any_error:
  assumes "load_phdrs rd eh n as k v = Some (Some e, as', k', v')"
  shows "(e = ENOEXEC \<or> read_fails rd e) \<and> as_elf_file as' = as_elf_file as"
  using assms
proof (induction n arbitrary: as k v)
  case (Suc n)
  let ?i = "unat (e_phnum eh) - Suc n"
  obtain r v1 where r: "read_struct rd PHDR_SIZE (phdr_offset eh ?i) v = Some (r, v1)"
    using Suc.prems by (auto simp: Let_def bind_eq_Some_conv)
  show ?case
  proof (cases r)
    case (Inl x)
    then show ?thesis using Suc.prems r read_struct_error [of rd PHDR_SIZE "phdr_offset eh ?i" v x v1] by simp
  next
    case (Inr bs)
    then show ?thesis using Suc.prems r Suc.IH
      by (auto simp: Let_def bind_eq_Some_conv split: if_splits dest!: define_region_file)
  qed
qed simp

lemma load_elf_any_error:
  assumes "load_elf rd vn as k v = Some (Inl e, as', k', v')"
  shows "(e = ENOEXEC \<or> read_fails rd e) \<and> as_elf_file as' = as_elf_file as"
proof -
  obtain r v1 where r: "read_struct rd EHDR_SIZE 0 v = Some (r, v1)"
    using assms by (auto simp: load_elf_def bind_eq_Some_conv)
  show ?thesis
  proof (cases r)
    case (Inl x)
    then show ?thesis using assms r read_struct_error [of rd EHDR_SIZE 0 v x v1] by (simp add: load_elf_def)
  next
    case (Inr bs)
    then show ?thesis using assms r
      by (auto simp: load_elf_def as_complete_load_def Let_def bind_eq_Some_conv split: if_splits option.splits
          dest: load_phdrs_any_error)
  qed
qed

locale file_reader =
  fixes rd :: "'v reader"
    and ok :: "'v \<Rightarrow> bool"
    and f :: "u8 list"
  assumes read: "ok v \<Longrightarrow> n < 4294967296 \<Longrightarrow> \<exists>u v'.
      rd (uio_kinit (replicate n 0) (of_nat n) (int x) UIO_READ) v = Some ((None, u), v') \<and> ok v' \<and>
      unat (uio_resid u) = n - length (take n (drop x f)) \<and>
      (x + n \<le> length f \<longrightarrow> iov_kbuf (hd (uio_iov u)) = take n (drop x f))"
begin

lemma read_struct_eq:
  assumes "ok v" "0 < n" "n < 4294967296"
  shows "\<exists>v'. read_struct rd n (int x) v =
    Some (if x + n \<le> length f then Inr (take n (drop x f)) else Inl ENOEXEC, v') \<and> ok v'"
proof -
  obtain u v' where u: "rd (uio_kinit (replicate n 0) (of_nat n) (int x) UIO_READ) v = Some ((None, u), v')" "ok v'"
    "unat (uio_resid u) = n - length (take n (drop x f))"
    "x + n \<le> length f \<Longrightarrow> iov_kbuf (hd (uio_iov u)) = take n (drop x f)"
    using read [OF assms(1,3), of x] by blast
  have "uio_resid u = 0 \<longleftrightarrow> n \<le> length f - x" using u(3) unat_eq_0 [of "uio_resid u"] by auto
  then show ?thesis using u assms(2) by (auto simp: read_struct_def)
qed

lemma read_phdr:
  assumes "ok v"
  shows "\<exists>v'. read_struct rd PHDR_SIZE (phdr_offset eh i) v =
    Some (if nat (phdr_offset eh i) + PHDR_SIZE \<le> length f
      then Inr (take PHDR_SIZE (drop (nat (phdr_offset eh i)) f)) else Inl ENOEXEC, v') \<and> ok v'"
  using read_struct_eq [OF assms, of 32 "nat (phdr_offset eh i)"] by (simp add: phdr_offset_def)

lemma load_phdrs_ok:
  assumes "ok v" "as_wf as" "n \<le> unat (e_phnum eh)"
    and "\<forall>i \<in> {unat (e_phnum eh) - n..<unat (e_phnum eh)}. phdr_in f eh i"
    and "qs = filter (\<lambda>p. p_type p = PT_LOAD) (map (phdr_at f eh) [unat (e_phnum eh) - n..<unat (e_phnum eh)])"
    and "\<forall>p \<in> set qs. load_fits p \<and> load_pages p \<inter> pte_page ` set (as_pt as) = {}" "loads_apart qs"
    and "sum_list (map load_cost qs) \<le> k"
  shows "\<exists>as' v'. load_phdrs rd eh n as k v = Some (None, as', k - sum_list (map load_cost qs), v') \<and> ok v' \<and>
    space_loaded as qs as'"
  using assms
proof (induction n arbitrary: as k v qs)
  case 0
  then show ?case by (simp add: space_loaded_Nil)
next
  case (Suc n)
  define i where "i = unat (e_phnum eh) - Suc n"
  have i: "i < unat (e_phnum eh)" "Suc i = unat (e_phnum eh) - n" using Suc.prems(3) by (simp_all add: i_def)
  let ?ph = "phdr_at f eh i"
  define rest where "rest = filter (\<lambda>p. p_type p = PT_LOAD) (map (phdr_at f eh) [unat (e_phnum eh) - n..<unat (e_phnum eh)])"
  have ix: "[i..<unat (e_phnum eh)] = i # [unat (e_phnum eh) - n..<unat (e_phnum eh)]"
    unfolding i(2) [symmetric] by (rule upt_conv_Cons [OF i(1)])
  have qs: "qs = (if p_type ?ph = PT_LOAD then ?ph # rest else rest)"
    unfolding Suc.prems(5) i_def [symmetric] ix rest_def by simp
  have pin: "phdr_in f eh i" using Suc.prems(4) i(1) unfolding i_def [symmetric] by simp
  have rest_in: "\<forall>j \<in> {unat (e_phnum eh) - n..<unat (e_phnum eh)}. phdr_in f eh j"
    using Suc.prems(4) unfolding i_def [symmetric] i(2) [symmetric] by simp
  obtain v1 where v1: "read_struct rd PHDR_SIZE (phdr_offset eh i) v =
      Some (Inr (take PHDR_SIZE (drop (nat (phdr_offset eh i)) f)), v1)" "ok v1"
    using read_phdr [OF Suc.prems(1), of eh i] pin by (auto simp: phdr_in_def)
  note IH = Suc.IH [OF v1(2) _ _ rest_in rest_def]
  show ?case
  proof (cases "p_type ?ph = PT_LOAD")
    case False
    then have "load_phdrs rd eh (Suc n) as k v = load_phdrs rd eh n as k v1"
      using v1(1) pin by (auto simp: phdr_in_def phdr_at_def Let_def simp flip: i_def)
    then show ?thesis using IH [of as k] Suc.prems False unfolding qs by simp
  next
    case True
    have P: "load_fits ?ph" "load_pages ?ph \<inter> pte_page ` set (as_pt as) = {}" "load_cost ?ph \<le> k"
      using Suc.prems(6,8) True unfolding qs by simp_all
    obtain as1 where as1: "as_define_region as (p_vaddr ?ph) (int (unat (p_offset ?ph))) (p_memsz ?ph)
        (int (unat (p_flags ?ph AND PF_R))) (int (unat (p_flags ?ph AND PF_W))) (int (unat (p_flags ?ph AND PF_X))) k =
        Some (Inr as1, k - load_cost ?ph)" "space_loaded as [?ph] as1"
      using define_load [OF Suc.prems(2) P(1,3,2)] by blast
    have run: "load_phdrs rd eh (Suc n) as k v = load_phdrs rd eh n as1 (k - load_cost ?ph) v1"
      using v1(1) True as1(1) by (simp add: phdr_at_def Let_def flip: i_def)
    have a1: "as_wf as1" "pte_page ` set (as_pt as1) = load_pages ?ph \<union> pte_page ` set (as_pt as)"
      using as1(2) by (simp_all add: space_loaded_def)
    have all: "\<forall>p \<in> set rest. load_fits p \<and> load_pages p \<inter> pte_page ` set (as_pt as) = {}"
      and ap: "\<forall>q \<in> set rest. load_pages ?ph \<inter> load_pages q = {}"
      and R2: "loads_apart rest" "sum_list (map load_cost rest) \<le> k - load_cost ?ph"
      using Suc.prems(6-8) True unfolding qs by simp_all
    have "\<forall>p \<in> set rest. load_fits p \<and> load_pages p \<inter> pte_page ` set (as_pt as1) = {}"
      using all ap unfolding a1(2) by blast
    note R = this R2
    obtain as' v' where "load_phdrs rd eh n as1 (k - load_cost ?ph) v1 =
        Some (None, as', k - load_cost ?ph - sum_list (map load_cost rest), v')" "ok v'" "space_loaded as1 rest as'"
      using IH [OF a1(1) _ R] Suc.prems(3) by auto
    then show ?thesis using run True space_loaded_Cons [OF as1(2)] unfolding qs by auto
  qed
qed

lemma load_elf_ok:
  assumes "ok v" "elf_image f eh qs" "as_wf as" "as_pt as = []" "sum_list (map load_cost qs) \<le> k"
  shows "\<exists>as1 v'. load_elf rd vn as k v =
      Some (Inr (e_entry eh), as1\<lparr>as_elf_file := Some vn\<rparr>, k - sum_list (map load_cost qs), v') \<and>
    ok v' \<and> space_loaded as qs as1"
proof -
  note I = assms(2) [unfolded elf_image_def]
  obtain v1 where v1: "read_struct rd EHDR_SIZE 0 v = Some (Inr (take EHDR_SIZE f), v1)" "ok v1"
    using read_struct_eq [OF assms(1), of EHDR_SIZE 0] I by auto
  obtain as1 v2 where p: "load_phdrs rd eh (unat (e_phnum eh)) as k v1 =
      Some (None, as1, k - sum_list (map load_cost qs), v2)" "ok v2" "space_loaded as qs as1"
    using load_phdrs_ok [OF v1(2) assms(3), of "unat (e_phnum eh)" eh qs k] I assms(4,5) by auto
  have eh: "ehdr_of (take EHDR_SIZE f) = eh" "elf_header_ok eh" using I by blast+
  have "load_elf rd vn as k v =
      Some (Inr (e_entry eh), as1\<lparr>as_elf_file := Some vn\<rparr>, k - sum_list (map load_cost qs), v2)"
    by (simp add: load_elf_def as_complete_load_def v1(1) eh p(1))
  then show ?thesis using p by blast
qed

lemma load_phdrs_error:
  assumes "ok v" "load_phdrs rd eh n as k v = Some (Some e, as', k', v')"
  shows "e = ENOEXEC \<and> as_elf_file as' = as_elf_file as"
  using assms
proof (induction n arbitrary: as k v)
  case 0
  then show ?case by simp
next
  case (Suc n)
  let ?i = "unat (e_phnum eh) - Suc n"
  obtain v1 where v1: "read_struct rd PHDR_SIZE (phdr_offset eh ?i) v =
    Some (if nat (phdr_offset eh ?i) + PHDR_SIZE \<le> length f
      then Inr (take PHDR_SIZE (drop (nat (phdr_offset eh ?i)) f)) else Inl ENOEXEC, v1)" "ok v1"
    using read_phdr [OF Suc.prems(1)] by blast
  show ?case
    using Suc.prems(2) v1 Suc.IH
    by (auto simp: Let_def bind_eq_Some_conv split: if_splits dest!: define_region_file)
qed

lemma load_elf_error:
  assumes "ok v" "load_elf rd vn as k v = Some (Inl e, as', k', v')"
  shows "e = ENOEXEC \<and> as_elf_file as' = as_elf_file as"
proof -
  obtain v1 where v1: "read_struct rd EHDR_SIZE 0 v =
      Some (if EHDR_SIZE \<le> length f then Inr (take EHDR_SIZE f) else Inl ENOEXEC, v1)" "ok v1"
    using read_struct_eq [OF assms(1), of EHDR_SIZE 0] by auto
  show ?thesis
    using assms(2) v1 load_phdrs_error [OF v1(2)]
    by (auto simp: load_elf_def as_complete_load_def Let_def bind_eq_Some_conv split: if_splits option.splits)
qed

lemma load_elf_bad_header:
  assumes "ok v" "\<not> (EHDR_SIZE \<le> length f \<and> elf_header_ok (ehdr_of (take EHDR_SIZE f)))"
  shows "\<exists>v'. load_elf rd vn as k v = Some (Inl ENOEXEC, as, k, v') \<and> ok v'"
proof -
  obtain v1 where v1: "read_struct rd EHDR_SIZE 0 v =
      Some (if EHDR_SIZE \<le> length f then Inr (take EHDR_SIZE f) else Inl ENOEXEC, v1)" "ok v1"
    using read_struct_eq [OF assms(1), of EHDR_SIZE 0] by auto
  then show ?thesis using assms(2) by (simp add: load_elf_def)
qed

end

end
