(* ===== verification/Program.thy ===== *)
theory Program
  imports Paging Loadelf
begin

text \<open>
  Starting a program: runprogram of kern/syscall/runprogram.c with proc_getas and proc_setas of
  kern/proc/proc.c. This is where the loader, the address space and the TLB flush come
  together, and where the state that theories Vminv and Paging start from is made.

  The result of vfs_open is an argument: the vnode, or the error. The address a of the new
  struct addrspace, which names the address space in the coremap and in the swap table, is an
  argument too; what the theorem asks of it is that no frame and no slot still names it.
\<close>

definition proc_getas :: "vmstate \<Rightarrow> ptr" where
  "proc_getas s = (if \<not> vs_curproc s then NULL else vs_as s)"

definition proc_setas :: "nat \<Rightarrow> addrspace \<Rightarrow> vmstate \<Rightarrow> vmstate option" where
  "proc_setas a newas s = do {
     kassert (vs_curproc s);
     Some (s\<lparr>vs_as := Some a, vs_space := newas\<rparr>)
   }"

text \<open>enter_new_process does not return: the process runs with this stack pointer and entry point.\<close>

datatype run_result = Failed errno | Running vaddr_t vaddr_t

definition runprogram ::
  "'v reader \<Rightarrow> errno + nat \<Rightarrow> nat \<Rightarrow> vmstate \<Rightarrow> kheap \<Rightarrow> 'v \<Rightarrow> (run_result \<times> vmstate \<times> kheap \<times> 'v) option" where
  "runprogram rd opened a s k v =
     (case opened of
        Inl e \<Rightarrow> Some (Failed e, s, k, v)
      | Inr vn \<Rightarrow> do {
          kassert (proc_getas s = NULL);
          (case as_create k of
             (None, k1) \<Rightarrow> do {
               s1 \<leftarrow> vfs_close (Some vn) s;
               Some (Failed ENOMEM, s1, k1, v)
             }
           | (Some as, k1) \<Rightarrow> do {
               s1 \<leftarrow> proc_setas a as s;
               (t, st) \<leftarrow> as_activate (proc_getas s1) (vs_tlb s1) (vs_stats s1);
               let s2 = s1\<lparr>vs_tlb := t, vs_stats := st\<rparr>;
               (r, as1, k2, v1) \<leftarrow> load_elf rd vn (vs_space s2) k1 v;
               let s3 = s2\<lparr>vs_space := as1\<rparr>;
               (case r of
                  Inl e \<Rightarrow> do {
                    s4 \<leftarrow> vfs_close (Some vn) s3;
                    Some (Failed e, s4, k2, v1)
                  }
                | Inr entrypoint \<Rightarrow> do {
                    (r2, k3) \<leftarrow> as_define_stack (vs_space s3) k2;
                    (case r2 of
                       Inl e \<Rightarrow> Some (Failed e, s3, k3, v1)
                     | Inr (stackptr, as2) \<Rightarrow> Some (Running stackptr entrypoint, s3\<lparr>vs_space := as2\<rparr>, k3, v1))
                  })
             })
        })"


subsection \<open>The memory that an executable describes\<close>

text \<open>Whether an address lies on a page of a load segment.\<close>

definition in_load :: "Elf_Phdr \<Rightarrow> vaddr_t \<Rightarrow> bool" where
  "in_load p va \<longleftrightarrow> unat (p_vaddr p) div 4096 \<le> unat va div 4096 \<and>
     unat va div 4096 \<le> (unat (p_vaddr p) + unat (p_memsz p) - 1) div 4096"

text \<open>The byte at an address, as elf.h describes a segment: the p_filesz bytes of the file at its
  start (as far as the file goes), and zeros in the rest.\<close>

definition load_byte :: "u8 list \<Rightarrow> Elf_Phdr \<Rightarrow> vaddr_t \<Rightarrow> u8" where
  "load_byte f p va =
     (if unat (p_vaddr p) \<le> unat va \<and> unat va < unat (p_vaddr p) + min (unat (p_memsz p)) (unat (p_filesz p))
      then (let i = unat (p_offset p) + (unat va - unat (p_vaddr p)) in if i < length f then f ! i else 0)
      else 0)"

definition elf_memory :: "u8 list \<Rightarrow> Elf_Phdr list \<Rightarrow> vaddr_t \<rightharpoonup> u8" where
  "elf_memory f qs va =
     (if 0x7FFEE000 \<le> unat va then (if unat va < 0x80000000 then Some 0 else None)
      else map_option (\<lambda>p. load_byte f p va) (find (\<lambda>p. in_load p va) qs))"

text \<open>What the on-demand loader needs of a segment beyond load_fits (compare load_geom): that it keeps
  the page offset of the file, that it is below the stack, that it does not straddle a page boundary
  if it is shorter than a page, and that it has no bytes past p_filesz, because the loader never looks
  at that field and takes them from the file as well (theory Paging, first_load_reads_image).\<close>

definition load_sound :: "Elf_Phdr \<Rightarrow> bool" where
  "load_sound p \<longleftrightarrow> unat (p_offset p) mod 4096 = unat (p_vaddr p) mod 4096 \<and>
     unat (p_offset p) + unat (p_memsz p) < 0x100000000 \<and>
     (unat (p_memsz p) < 4096 \<longrightarrow> region_pages (p_vaddr p) (p_memsz p) = 1) \<and>
     unat (p_vaddr p) + unat (p_memsz p) \<le> 0x7FFEE000 \<and> unat (p_memsz p) \<le> unat (p_filesz p)"

lemma in_load_pages:
  assumes "load_fits p"
  shows "va AND PAGE_FRAME \<in> load_pages p \<longleftrightarrow> in_load p va"
proof -
  have u: "unat (va AND PAGE_FRAME) = unat va div 4096 * 4096"
    unfolding page_frame_unat minus_mod_eq_div_mult ..
  show ?thesis
  proof
    assume "va AND PAGE_FRAME \<in> load_pages p"
    then obtain x where x: "unat (p_vaddr p) \<le> x" "x < unat (p_vaddr p) + unat (p_memsz p)"
      "unat (va AND PAGE_FRAME) = x div 4096 * 4096" unfolding load_pages_def by blast
    then have "unat va div 4096 = x div 4096" unfolding u by simp
    with x(1,2) show "in_load p va" unfolding in_load_def by (auto intro: div_le_mono)
  next
    assume i: "in_load p va"
    let ?x = "max (unat (p_vaddr p)) (unat va div 4096 * 4096)"
    have "?x < unat (p_vaddr p) + unat (p_memsz p)"
    proof -
      have "unat va div 4096 * 4096 \<le> unat (p_vaddr p) + unat (p_memsz p) - 1"
        using i unfolding in_load_def by (metis div_times_less_eq_dividend less_eq_div_iff_mult_less_eq zero_less_numeral)
      then show ?thesis using assms by (auto simp: load_fits_def)
    qed
    moreover have "?x div 4096 = unat va div 4096"
      using i unfolding in_load_def max_def by (auto intro: antisym div_le_mono)
    ultimately show "va AND PAGE_FRAME \<in> load_pages p"
      unfolding load_pages_def by (intro CollectI exI [of _ ?x]) (simp add: u)
  qed
qed


subsection \<open>Where the handler finds the pages of a new program\<close>

definition seg_covers :: "segment_entry \<Rightarrow> vaddr_t \<Rightarrow> bool" where
  "seg_covers g va \<longleftrightarrow> sg_first_addr g \<le> va \<and> va < sg_first_addr g + of_nat (sg_npages g) * PAGE_SIZE"

lemma seg_lookup_first: "g \<in> set segs \<Longrightarrow> seg_covers g va \<Longrightarrow> \<exists>g' \<in> set segs. seg_lookup segs va = Some g' \<and> seg_covers g' va"
  by (induction segs) (auto simp: seg_covers_def Let_def)

lemma seg_covers_iff:
  assumes "unat (sg_first_addr g) + sg_npages g * 4096 \<le> 0x80000000"
  shows "seg_covers g va \<longleftrightarrow> unat (sg_first_addr g) \<le> unat va \<and> unat va < unat (sg_first_addr g) + sg_npages g * 4096"
proof -
  have n: "unat (of_nat (sg_npages g) :: u32) = sg_npages g" using assms by (intro unat_of_nat_u32) linarith
  then have m: "unat (of_nat (sg_npages g) * PAGE_SIZE :: u32) = sg_npages g * 4096"
    using assms by (subst unat_mult_u32) simp_all
  then have "unat (sg_first_addr g + of_nat (sg_npages g) * PAGE_SIZE) = unat (sg_first_addr g) + sg_npages g * 4096"
    using assms by (subst unat_add_u32) simp_all
  then show ?thesis unfolding seg_covers_def word_le_nat_alt word_less_nat_alt by simp
qed

lemma aligned_covers:
  assumes "unat (sg_first_addr g) + sg_npages g * 4096 \<le> 0x80000000" "4096 dvd unat (sg_first_addr g)" "4096 dvd unat va"
  shows "seg_covers g va \<longleftrightarrow> covers (sg_first_addr g) (sg_npages g) va"
proof
  assume "seg_covers g va"
  then have r: "unat (sg_first_addr g) \<le> unat va" "unat va < unat (sg_first_addr g) + sg_npages g * 4096"
    unfolding seg_covers_iff [OF assms(1)] by blast+
  obtain x y where xy: "unat (sg_first_addr g) = 4096 * x" "unat va = 4096 * y" using assms(2,3) by (auto elim!: dvdE)
  then have i: "y - x < sg_npages g" "x \<le> y" using r by linarith+
  have "unat (sg_first_addr g + of_nat (y - x) * PAGE_SIZE) = unat va"
    using page_step_unat [OF assms(1) i(1)] xy i(2) by simp
  then show "covers (sg_first_addr g) (sg_npages g) va" using i(1) unfolding covers_def by (metis word_unat_eq_iff)
next
  assume "covers (sg_first_addr g) (sg_npages g) va"
  then obtain i where "i < sg_npages g" "va = sg_first_addr g + of_nat i * PAGE_SIZE" unfolding covers_def by blast
  then show "seg_covers g va" unfolding seg_covers_iff [OF assms(1)] using page_step_unat [OF assms(1)] by simp
qed

lemma pte_scan_missing:
  "pte_scan pt d i n va = Some None \<Longrightarrow> i \<le> j \<Longrightarrow> j \<le> n \<Longrightarrow> map_option pte_page (pt_node pt (d - (j - i))) \<noteq> Some va"
proof (induction "n + 1 - i" arbitrary: i d rule: less_induct)
  case less
  have i: "i \<le> n" using less.prems by linarith
  have hd: "map_option pte_page (pt_node pt d) \<noteq> Some va" and tl: "pte_scan pt (d - 1) (i + 1) n va = Some None"
    using less.prems(1) i by (subst (asm) pte_scan_unfold; simp split: option.splits if_splits)+
  show ?case
  proof (cases "i = j")
    case True
    then show ?thesis using hd by simp
  next
    case False
    have "map_option pte_page (pt_node pt (d - 1 - (j - (i + 1)))) \<noteq> Some va"
      by (rule less.hyps [OF _ tl]) (use less.prems(2,3) False i in linarith)+
    moreover have "d - 1 - (j - (i + 1)) = d - (j - i)" using less.prems(2) False by linarith
    ultimately show ?thesis by simp
  qed
qed

lemma lookup_covered:
  assumes "as_wf as" "g \<in> set (as_segments as)" "seg_covers g va" "4096 dvd unat va"
  shows "\<exists>g' i d. lookup as va = Some (g', i, d) \<and> g' \<in> set (as_segments as) \<and> seg_covers g' va \<and>
    seg_page g' (i - 1) = va"
proof -
  obtain g' where g': "g' \<in> set (as_segments as)" "seg_lookup (as_segments as) va = Some g'" "seg_covers g' va"
    using seg_lookup_first [OF assms(2,3)] by blast
  have ok: "seg_ok (as_pt as) g'" using assms(1) g'(1) unfolding as_wf_def by blast
  then have fit: "unat (sg_first_addr g') + sg_npages g' * 4096 \<le> 0x80000000" "4096 dvd unat (sg_first_addr g')"
    and node: "\<forall>k < sg_npages g'. map_option pte_page (pt_node (as_pt as) (sg_first_pte g' - k)) = Some (seg_page g' k)"
    unfolding seg_ok_def by auto
  obtain i where i: "i < sg_npages g'" "va = sg_first_addr g' + of_nat i * PAGE_SIZE"
    using g'(3) unfolding aligned_covers [OF fit assms(4)] covers_def by blast
  define k where "k = (if sg_offset g' < 0 then sg_npages g' - 1 - i else i)"
  have k: "k < sg_npages g'" "seg_page g' k = va" using i by (auto simp: k_def seg_page_def)
  obtain r where r: "pte_scan (as_pt as) (sg_first_pte g') 1 (sg_npages g') va = Some r"
    using seg_ok_scan_total [OF ok] by blast
  have "r \<noteq> None"
  proof
    assume "r = None"
    then have "map_option pte_page (pt_node (as_pt as) (sg_first_pte g' - (Suc k - 1))) \<noteq> Some va"
      using k(1) r by (intro pte_scan_missing) (simp_all add: Suc_le_eq)
    then show False using node k by simp
  qed
  then obtain i' d' where l: "lookup as va = Some (g', i', d')" using r g'(2) by (auto simp: lookup_def)
  have "i' - 1 < sg_npages g'" using lookup_Some(4,5) [OF l] by linarith
  then have "map_option pte_page (pt_node (as_pt as) d') = Some (seg_page g' (i' - 1))"
    using node unfolding lookup_Some(6) [OF l] by blast
  then have "seg_page g' (i' - 1) = va" unfolding lookup_Some(7) [OF l] by simp
  then show ?thesis using l g'(1,3) by blast
qed


text \<open>The address space of a program that has just been loaded: load segments and the stack.\<close>

definition program_space :: "Elf_Phdr list \<Rightarrow> addrspace \<Rightarrow> bool" where
  "program_space qs as \<longleftrightarrow> as_wf as \<and> (\<forall>e \<in> set (as_pt as). \<not> pte_in_mem e \<and> \<not> pte_in_swap e) \<and>
     pte_page ` set (as_pt as) = \<Union>(load_pages ` set qs) \<union> {q. user_page q \<and> 0x7FFEE000 \<le> unat q} \<and>
     (\<exists>g segs. as_segments as = g # segs \<and> sg_first_addr g = 0x7FFEE000 \<and> sg_npages g = 18 \<and> sg_offset g = - 1 \<and>
       seg_key ` set segs = phdr_key ` set qs)"

lemma loads_apart_iff:
  "loads_apart qs \<Longrightarrow> p \<in> set qs \<Longrightarrow> q \<in> set qs \<Longrightarrow> va \<in> load_pages p \<Longrightarrow> va \<in> load_pages q \<Longrightarrow> p = q"
  by (induction qs) auto

lemma load_pages_user:
  assumes "load_fits p" "va \<in> load_pages p"
  shows "user_page va"
proof -
  obtain x where x: "unat va = x div 4096 * 4096" "x < unat (p_vaddr p) + unat (p_memsz p)"
    using assms(2) unfolding load_pages_def by blast
  have "x div 4096 * 4096 \<le> x" by simp
  then have "unat va < 0x80000000" using x assms(1) unfolding load_fits_def by linarith
  then show ?thesis using x(1) by (simp add: user_page_def)
qed

lemma load_seg_covers:
  assumes "load_fits p" "seg_key g = phdr_key p" "4096 dvd unat va"
  shows "seg_covers g va \<longleftrightarrow> va \<in> load_pages p"
proof -
  have g: "sg_first_addr g = p_vaddr p AND PAGE_FRAME" "sg_npages g = (unat (p_vaddr p) mod 4096 + unat (p_memsz p) + 4095) div 4096"
    using assms(2) by (simp_all add: seg_key_def phdr_key_def region_pages_def)
  have f: "0 < unat (p_memsz p)" "unat (p_vaddr p) + unat (p_memsz p) \<le> 0x80000000"
    using assms(1) by (simp_all add: load_fits_def)
  have fit: "unat (sg_first_addr g) + sg_npages g * 4096 \<le> 0x80000000" unfolding g by (rule region_fits [OF f])
  have "4096 dvd unat (sg_first_addr g)" unfolding g using page_frame_id [of "p_vaddr p AND PAGE_FRAME"] by simp
  from aligned_covers [OF fit this assms(3)] show ?thesis
    unfolding g(1) covers_region [OF f g(2)] load_pages_def by simp
qed

lemma stack_seg_covers:
  assumes "sg_first_addr g = 0x7FFEE000" "sg_npages g = 18"
  shows "seg_covers g va \<longleftrightarrow> 0x7FFEE000 \<le> unat va \<and> unat va < 0x80000000"
  by (subst seg_covers_iff) (simp_all add: assms)

lemma program_lookup:
  assumes "program_space qs as" "loads_apart qs" "\<forall>p \<in> set qs. load_fits p \<and> load_sound p"
  shows "p \<in> set qs \<Longrightarrow> va \<in> load_pages p \<Longrightarrow> \<exists>g i d. lookup as va = Some (g, i, d) \<and> seg_key g = phdr_key p \<and>
      seg_page g (i - 1) = va"
    "user_page va \<Longrightarrow> 0x7FFEE000 \<le> unat va \<Longrightarrow> \<exists>g i d. lookup as va = Some (g, i, d) \<and> sg_offset g = - 1"
proof -
  obtain g0 segs where S: "as_segments as = g0 # segs" "sg_first_addr g0 = 0x7FFEE000" "sg_npages g0 = 18"
      "sg_offset g0 = - 1" "seg_key ` set segs = phdr_key ` set qs"
    using assms(1) [unfolded program_space_def] by (elim conjE exE) (rule that)
  have wf: "as_wf as" using assms(1) unfolding program_space_def by (rule conjunct1)
  have low: "unat va < 0x7FFEE000" if p: "p \<in> set qs" "va \<in> load_pages p" for p va
  proof -
    obtain x where "unat va = x div 4096 * 4096" "x < unat (p_vaddr p) + unat (p_memsz p)"
      using p(2) unfolding load_pages_def by blast
    moreover have "unat (p_vaddr p) + unat (p_memsz p) \<le> 0x7FFEE000" using assms(3) p(1) unfolding load_sound_def by blast
    moreover have "x div 4096 * 4096 \<le> x" by simp
    ultimately show ?thesis by linarith
  qed
  have key: "\<exists>p \<in> set qs. seg_key g = phdr_key p" if "g \<in> set segs" for g
  proof -
    have "seg_key g \<in> phdr_key ` set qs" unfolding S(5) [symmetric] using that by (rule imageI)
    then show ?thesis by blast
  qed
  show "\<exists>g i d. lookup as va = Some (g, i, d) \<and> seg_key g = phdr_key p \<and> seg_page g (i - 1) = va"
    if p: "p \<in> set qs" "va \<in> load_pages p"
  proof -
    have al: "4096 dvd unat va" using load_pages_user [of p va] p assms(3) unfolding user_page_def by blast
    have "phdr_key p \<in> seg_key ` set segs" unfolding S(5) using p(1) by (rule imageI)
    then obtain g where g: "g \<in> set segs" "seg_key g = phdr_key p" by (metis imageE)
    have "seg_covers g va" using load_seg_covers [OF _ g(2) al] assms(3) p by blast
    then obtain g' i d where l: "lookup as va = Some (g', i, d)" "g' \<in> set (as_segments as)" "seg_covers g' va"
        "seg_page g' (i - 1) = va"
      using lookup_covered [OF wf, of g va] g(1) al unfolding S(1) by auto
    have "g' \<noteq> g0" using l(3) low [OF p] stack_seg_covers [OF S(2,3)] by auto
    then obtain p' where p': "p' \<in> set qs" "seg_key g' = phdr_key p'" using l(2) key unfolding S(1) by auto
    have "va \<in> load_pages p'" using load_seg_covers [OF _ p'(2) al] assms(3) p'(1) l(3) by blast
    then have "p' = p" using loads_apart_iff [OF assms(2)] p' p by blast
    then show ?thesis using l p'(2) by blast
  qed
  show "\<exists>g i d. lookup as va = Some (g, i, d) \<and> sg_offset g = - 1" if u: "user_page va" "0x7FFEE000 \<le> unat va"
  proof -
    have al: "4096 dvd unat va" "seg_covers g0 va" using u stack_seg_covers [OF S(2,3)] by (auto simp: user_page_def)
    then obtain g' i d where l: "lookup as va = Some (g', i, d)" "g' \<in> set (as_segments as)" "seg_covers g' va"
      using lookup_covered [OF wf, of g0 va] unfolding S(1) by auto
    have "g' = g0"
    proof (rule ccontr)
      assume "g' \<noteq> g0"
      then obtain p' where p': "p' \<in> set qs" "seg_key g' = phdr_key p'" using l(2) key unfolding S(1) by auto
      have "va \<in> load_pages p'" using load_seg_covers [OF _ p'(2) al(1)] assms(3) p'(1) l(3) by blast
      then have "unat va < 0x7FFEE000" by (rule low [OF p'(1)])
      then show False using u(2) by linarith
    qed
    then show ?thesis using l(1) S(4) by blast
  qed
qed


text \<open>The bytes of a page before its first fault are those the executable describes.\<close>

lemma page_split:
  fixes va :: u32
  shows "unat va = unat (va AND PAGE_FRAME) + unat (va AND 0xfff)"
  unfolding page_frame_unat page_off_unat by simp

lemma load_init:
  assumes "seg_key g = phdr_key p" "load_fits p" "load_sound p" "seg_page g (i - 1) = va AND PAGE_FRAME"
    and "va AND PAGE_FRAME \<in> load_pages p" "1 \<le> i" "i \<le> sg_npages g"
  shows "seg_image f g i (unat (va AND 0xfff)) = load_byte f p va"
proof -
  have g: "sg_first_addr g = p_vaddr p AND PAGE_FRAME" "sg_offset g = int (unat (p_offset p))" "sg_size g = p_memsz p"
      "sg_npages g = (unat (p_vaddr p) mod 4096 + unat (p_memsz p) + 4095) div 4096"
    using assms(1) by (simp_all add: seg_key_def phdr_key_def region_pages_def)
  have f: "0 < unat (p_memsz p)" "unat (p_vaddr p) + unat (p_memsz p) \<le> 0x80000000"
    using assms(2) by (simp_all add: load_fits_def)
  have fit: "unat (sg_first_addr g) + sg_npages g * 4096 \<le> 0x80000000" unfolding g by (rule region_fits [OF f])
  have "seg_page g (i - 1) = sg_first_addr g + of_nat (i - 1) * PAGE_SIZE" by (simp add: seg_page_def g(2))
  moreover have "unat (sg_first_addr g + of_nat (i - 1) * PAGE_SIZE) = unat (sg_first_addr g) + (i - 1) * 4096"
    by (rule page_step_unat [OF fit]) (use assms(6,7) in linarith)
  ultimately have va: "unat (va AND PAGE_FRAME) = unat (p_vaddr p AND PAGE_FRAME) + (i - 1) * 4096"
    unfolding assms(4) g(1) by simp
  define o' where "o' = unat (va AND 0xfff)"
  have o4: "o' < 4096" unfolding o'_def by (rule page_off_lt)
  define x where "x = (i - 1) * 4096 + o'"
  define pad where "pad = unat (p_vaddr p) mod 4096"
  have pv: "unat (p_vaddr p) = unat (p_vaddr p AND PAGE_FRAME) + pad" unfolding pad_def page_frame_unat by simp
  have e: "unat va + pad = unat (p_vaddr p) + x" using va page_split [of va] pv unfolding x_def o'_def by linarith
  have off: "nat (sg_offset g) = unat (p_offset p)" "unat (p_offset p) mod 4096 = pad"
    using assms(3) by (simp_all add: g(2) load_sound_def pad_def)
  have "(pad \<le> x \<and> x < pad + unat (p_memsz p)) = (unat (p_vaddr p) \<le> unat va \<and> unat va < unat (p_vaddr p) + unat (p_memsz p))"
    using e by linarith
  moreover have "x - pad = unat va - unat (p_vaddr p)" using e by linarith
  moreover have "min (unat (p_memsz p)) (unat (p_filesz p)) = unat (p_memsz p)" using assms(3) by (simp add: load_sound_def)
  ultimately show ?thesis
    unfolding seg_image_def Let_def off o'_def [symmetric] x_def [symmetric] g(3) load_byte_def file_page_def
    using o4 by simp
qed

lemma elf_memory_load:
  assumes "loads_apart qs" "\<forall>p \<in> set qs. load_fits p \<and> load_sound p" "p \<in> set qs" "va AND PAGE_FRAME \<in> load_pages p"
  shows "elf_memory f qs va = Some (load_byte f p va)"
proof -
  have "in_load p va" using in_load_pages assms(2-4) by blast
  then obtain q where q: "find (\<lambda>p. in_load p va) qs = Some q"
    using assms(3) by (cases "find (\<lambda>p. in_load p va) qs") (auto simp: find_None_iff)
  then have "q \<in> set qs" "in_load q va" by (auto simp: find_Some_iff)
  then have "q = p" using loads_apart_iff [OF assms(1) _ assms(3) _ assms(4)] in_load_pages assms(2) by blast
  have "unat va < 0x7FFEE000"
  proof -
    have s: "unat (p_vaddr p) + unat (p_memsz p) \<le> 0x7FFEE000" using assms(2,3) unfolding load_sound_def by blast
    moreover have "unat va div 4096 \<le> (unat (p_vaddr p) + unat (p_memsz p) - 1) div 4096"
      using \<open>in_load p va\<close> unfolding in_load_def by blast
    moreover have "(unat (p_vaddr p) + unat (p_memsz p) - 1) div 4096 \<le> 0x7FFEDFFF div 4096"
      using s by (intro div_le_mono) linarith
    ultimately have "unat va div 4096 < 0x7FFEE" by simp
    then show ?thesis by (simp add: div_less_iff_less_mult)
  qed
  then show ?thesis using q \<open>q = p\<close> by (simp add: elf_memory_def)
qed


lemma program_inv:
  assumes "program_space qs (vs_space s)" "\<forall>p \<in> set qs. load_fits p \<and> load_sound p"
    and "vs_curproc s" "vs_as s = Some a" "cm_wf (vs_cmap s)" "tlb_wf (vs_tlb s)" "tlb_coherent (vs_tlb s) (cur_pt s)"
    and "\<forall>i < ram_frames (vs_cmap s). cme_as (cm_entries (vs_cmap s) ! i) \<noteq> Some a" "swap_inv (vs_swap s)"
    and "\<forall>va. swap_contents (vs_swap s) (a, va) = None" "as_elf_file (vs_space s) \<noteq> NULL"
  shows "vm_inv a None s"
proof -
  have P: "as_wf (vs_space s)" "\<forall>e \<in> set (cur_pt s). \<not> pte_in_mem e \<and> \<not> pte_in_swap e"
    using assms(1) unfolding program_space_def by blast+
  obtain g0 segs where S: "as_segments (vs_space s) = g0 # segs" "sg_first_addr g0 = 0x7FFEE000" "sg_npages g0 = 18"
      "sg_offset g0 = - 1" "seg_key ` set segs = phdr_key ` set qs"
    using assms(1) [unfolded program_space_def] by (elim conjE exE) (rule that)
  have "load_geom g" if "g \<in> set segs" for g
  proof -
    have "seg_key g \<in> phdr_key ` set qs" unfolding S(5) [symmetric] using that by (rule imageI)
    then obtain p where p: "p \<in> set qs" "seg_key g = phdr_key p" by blast
    then have "load_fits p" "load_sound p" using assms(2) by blast+
    then show ?thesis using p(2)
      by (simp add: load_geom_def load_fits_def load_sound_def seg_key_def phdr_key_def region_pages_def)
  qed
  moreover have "load_geom g0" using S(4) by (simp add: load_geom_def)
  ultimately have "load_ok (vs_space s)" using assms(11) S(1) by (simp add: load_ok_def)
  moreover have "pt_backed a None (vs_cmap s) (cur_pt s)" using P(2) unfolding pt_backed_def by blast
  moreover have "cm_backed a (vs_cmap s) (cur_pt s)" using assms(8) unfolding cm_backed_def by blast
  moreover have "pt_reachable (vs_space s)" using P(2) unfolding pt_reachable_def by blast
  moreover have "swap_match a None (vs_swap s) (cur_pt s)" using P(2) assms(10) by (simp add: swap_match_def)
  ultimately show ?thesis using assms(3-7,9) P(1) unfolding vm_inv_def by blast
qed

lemma program_view:
  assumes "vm_inv a None s" "program_space qs (vs_space s)" "loads_apart qs"
    and qs: "\<forall>p \<in> set qs. load_fits p \<and> load_sound p"
    and "\<forall>va. swap_contents (vs_swap s) (a, va) = None" "as_elf_file (vs_space s) = Some vn" "vs_elf_io s vn = (\<lambda>_. None)"
  shows "byte_view a s = elf_memory (vs_files s vn) qs"
proof (rule ext)
  fix va :: vaddr_t
  let ?pg = "va AND PAGE_FRAME"
  have fresh: "\<forall>e \<in> set (cur_pt s). \<not> pte_in_mem e" "pte_page ` set (cur_pt s) =
      \<Union>(load_pages ` set qs) \<union> {q. user_page q \<and> 0x7FFEE000 \<le> unat q}"
    using assms(2) unfolding program_space_def by blast+
  have view: "byte_view a s va = Some (init_page s ?pg (unat (va AND 0xfff)))" if pg: "?pg \<in> pte_page ` set (cur_pt s)"
  proof -
    obtain e where e: "?pg = pte_page e" "e \<in> set (cur_pt s)" using pg by (rule imageE)
    then have "page_view a s e = init_page s ?pg" using fresh(1) assms(5) by (simp add: page_view_def)
    then show ?thesis using user_view_entry [OF assms(1) e(2)] by (simp add: byte_view_def e(1))
  qed
  note U = page_split [of va] and L = page_off_lt [of va]
  have al: "4096 dvd unat ?pg" using page_frame_id [of ?pg] by simp
  consider (load) p where "p \<in> set qs" "?pg \<in> load_pages p" | (stack) "user_page ?pg" "0x7FFEE000 \<le> unat ?pg"
    | (none) "?pg \<notin> pte_page ` set (cur_pt s)" "\<And>p. p \<in> set qs \<Longrightarrow> ?pg \<notin> load_pages p"
      "\<not> (user_page ?pg \<and> 0x7FFEE000 \<le> unat ?pg)"
    unfolding fresh(2) by blast
  then show "byte_view a s va = elf_memory (vs_files s vn) qs va"
  proof cases
    case load
    then obtain g i d where l: "lookup (vs_space s) ?pg = Some (g, i, d)" "seg_key g = phdr_key p" "seg_page g (i - 1) = ?pg"
      using program_lookup(1) [OF assms(2,3) qs] by blast
    have "0 \<le> sg_offset g" using l(2) by (simp add: seg_key_def phdr_key_def)
    then have "init_page s ?pg = seg_image (vs_files s vn) g i" using l(1) assms(6,7) by (simp add: init_page_def)
    moreover have "seg_image (vs_files s vn) g i (unat (va AND 0xfff)) = load_byte (vs_files s vn) p va"
      using load_init [OF l(2) _ _ l(3) load(2) lookup_Some(4,5) [OF l(1)]] load(1) qs by blast
    moreover have "?pg \<in> pte_page ` set (cur_pt s)" unfolding fresh(2) using load by blast
    ultimately show ?thesis using view elf_memory_load [OF assms(3) qs load] by simp
  next
    case stack
    then obtain g i d where l: "lookup (vs_space s) ?pg = Some (g, i, d)" "sg_offset g = - 1"
      using program_lookup(2) [OF assms(2,3) qs] by blast
    then have "init_page s ?pg = (\<lambda>_. 0)" by (simp add: init_page_def)
    moreover have "?pg \<in> pte_page ` set (cur_pt s)" unfolding fresh(2) using stack by blast
    moreover obtain q where "unat ?pg = 4096 * q" using al by (rule dvdE)
    then have "unat va < 0x80000000" using stack(1) U L by (simp add: user_page_def)
    ultimately show ?thesis using view stack(2) U by (simp add: elf_memory_def)
  next
    case none
    have "user_view a s ?pg = None"
    proof (rule ccontr)
      assume "user_view a s ?pg \<noteq> None"
      then obtain pg where "user_view a s ?pg = Some pg" by blast
      then obtain e where "e \<in> set (cur_pt s)" "pte_page e = ?pg"
        unfolding user_view_Some [OF vm_invD(14) [OF assms(1)]] by blast
      then show False using none(1) by (metis imageI)
    qed
    then have "byte_view a s va = None" by (simp add: byte_view_def)
    moreover have "find (\<lambda>p. in_load p va) qs = None"
      using none(2) in_load_pages qs by (auto simp: find_None_iff)
    moreover have "\<not> (0x7FFEE000 \<le> unat va \<and> unat va < 0x80000000)"
    proof
      assume r: "0x7FFEE000 \<le> unat va \<and> unat va < 0x80000000"
      obtain q where q: "unat ?pg = 4096 * q" using al by (rule dvdE)
      then have "0x7FFEE \<le> q" using r U L by linarith
      then have "0x7FFEE000 \<le> unat ?pg" using q by linarith
      moreover have "unat ?pg < 0x80000000" using r U by linarith
      ultimately show False using none(3) al unfolding user_page_def by blast
    qed
    ultimately show ?thesis by (simp add: elf_memory_def)
  qed
qed


text \<open>What a kernel that is about to start a program in the new address space a must look like.\<close>

definition ready_for :: "nat \<Rightarrow> vmstate \<Rightarrow> bool" where
  "ready_for a s \<longleftrightarrow> vs_curproc s \<and> vs_as s = NULL \<and> cm_wf (vs_cmap s) \<and> swap_inv (vs_swap s) \<and>
     length (tlb_slots (vs_tlb s)) = NUM_TLB \<and> next_victim (vs_tlb s) < NUM_TLB \<and>
     (\<forall>i \<in> {0..<ram_frames (vs_cmap s)}. cme_as (cm_entries (vs_cmap s) ! i) \<noteq> Some a) \<and>
     (\<forall>e \<in> set (fst (vs_swap s)). sw_as e \<noteq> Some a)"

lemma no_swap: "\<forall>e \<in> set (fst sw). sw_as e \<noteq> Some a \<Longrightarrow> swap_contents sw (a, va) = None"
  by (auto simp: swap_contents_None find_idx_None)

lemma space_program:
  assumes "space_loaded as_empty qs as1" "\<forall>p \<in> set qs. load_fits p \<and> load_sound p" "20 \<le> k"
  shows "\<exists>as2. as_define_stack (as1\<lparr>as_elf_file := Some vn\<rparr>) k = Some (Inr (USERSTACK, as2), k - 20) \<and>
    program_space qs as2 \<and> as_elf_file as2 = Some vn"
proof -
  let ?as = "as1\<lparr>as_elf_file := Some vn\<rparr>"
  obtain segs where S: "as_wf as1" "pte_page ` set (as_pt as1) = \<Union>(load_pages ` set qs)"
      "\<forall>e \<in> set (as_pt as1). \<not> pte_in_mem e \<and> \<not> pte_in_swap e" "as_segments as1 = rev segs"
      "map seg_key segs = map phdr_key qs"
    using assms(1) unfolding space_loaded_def by (auto simp: as_empty_def)
  have wf: "as_wf ?as" using S(1) by (simp add: as_wf_def)
  have low: "unat va < 0x80000000 - 18 * 4096" if "va \<in> pte_page ` set (as_pt ?as)" for va
  proof -
    have "va \<in> \<Union>(load_pages ` set qs)" using that S(2) by simp
    then obtain p where p: "p \<in> set qs" "va \<in> load_pages p" by blast
    then obtain x where "unat va = x div 4096 * 4096" "x < unat (p_vaddr p) + unat (p_memsz p)"
      unfolding load_pages_def by blast
    moreover have "unat (p_vaddr p) + unat (p_memsz p) \<le> 0x7FFEE000" using assms(2) p(1) unfolding load_sound_def by blast
    moreover have "x div 4096 * 4096 \<le> x" by simp
    ultimately show ?thesis by linarith
  qed
  obtain as2 chain g where D: "as_define_stack ?as k = Some (Inr (USERSTACK, as2), k - 20)" "as_wf as2"
      "as_pt as2 = chain @ as_pt ?as" "pte_page ` set chain = {p. user_page p \<and> 0x80000000 - 18 * 4096 \<le> unat p}"
      "\<forall>e \<in> set chain. \<not> pte_in_mem e \<and> \<not> pte_in_swap e" "as_segments as2 = g # as_segments ?as"
      "sg_first_addr g = 0x7FFEE000" "sg_npages g = 18" "sg_offset g = - 1" "as_elf_file as2 = as_elf_file ?as"
    using define_stack_ok [OF wf assms(3)] low by blast
  have "pte_page ` set (as_pt as2) = \<Union>(load_pages ` set qs) \<union> {q. user_page q \<and> 0x7FFEE000 \<le> unat q}"
    using D(3,4) S(2) by (simp add: image_Un Un_commute)
  moreover have "seg_key ` set (rev segs) = phdr_key ` set qs" using arg_cong [OF S(5), of set] by simp
  moreover have "\<forall>e \<in> set (as_pt as2). \<not> pte_in_mem e \<and> \<not> pte_in_swap e" using D(3,5) S(3) by auto
  ultimately have "program_space qs as2"
    unfolding program_space_def using D(2,6-9) S(4) by (intro conjI exI [of _ g] exI [of _ "rev segs"]) simp_all
  then show ?thesis using D(1,10) by auto
qed

lemma runprogram_ok:
  assumes "file_reader rd ok (vs_files s vn)" "ok v" "elf_image (vs_files s vn) eh qs" "\<forall>p \<in> set qs. load_sound p"
    and "ready_for a s" "sum_list (map load_cost qs) + 21 \<le> k" "vs_elf_io s vn = (\<lambda>_. None)"
  shows "\<exists>s' k' v'. runprogram rd (Inr vn) a s k v = Some (Running USERSTACK (e_entry eh), s', k', v') \<and>
    vm_inv a None s' \<and> byte_view a s' = elf_memory (vs_files s vn) qs"
proof -
  note R = assms(5) [unfolded ready_for_def]
  have qs: "\<forall>p \<in> set qs. load_fits p \<and> load_sound p" "loads_apart qs"
    using assms(3,4) unfolding elf_image_def by blast+
  obtain k0 where k0: "k = Suc k0" "sum_list (map load_cost qs) + 20 \<le> k0" using assms(6) by (cases k) auto
  obtain as1 v1 where L: "load_elf rd vn as_empty k0 v =
      Some (Inr (e_entry eh), as1\<lparr>as_elf_file := Some vn\<rparr>, k0 - sum_list (map load_cost qs), v1)"
      "space_loaded as_empty qs as1"
    using file_reader.load_elf_ok [OF assms(1,2,3) as_empty_wf, of k0 vn] k0(2) by (auto simp: as_empty_def)
  have stk: "20 \<le> k0 - sum_list (map load_cost qs)" using k0(2) by linarith
  obtain as2 where D: "as_define_stack (as1\<lparr>as_elf_file := Some vn\<rparr>) (k0 - sum_list (map load_cost qs)) =
      Some (Inr (USERSTACK, as2), k0 - sum_list (map load_cost qs) - 20)" "program_space qs as2" "as_elf_file as2 = Some vn"
    using space_program [OF L(2) qs(1) stk, of vn] by blast
  define s' where "s' = s\<lparr>vs_as := Some a, vs_tlb := tlb_flush NUM_TLB (vs_tlb s),
    vs_stats := (vs_stats s)(TLB_INVALID := vs_stats s TLB_INVALID + 1), vs_space := as2\<rparr>"
  have c: "as_create k = (Some as_empty, k0)" by (simp add: as_create_def kmalloc_ok_def k0(1) as_empty_def)
  have run: "runprogram rd (Inr vn) a s k v =
      Some (Running USERSTACK (e_entry eh), s', k0 - sum_list (map load_cost qs) - 20, v1)"
    using R by (simp add: runprogram_def proc_getas_def proc_setas_def c as_activate_def L(1) D(1) s'_def Let_def)
  have inv: "vm_inv a None s'"
    by (rule program_inv [of qs])
      (use D(2,3) qs(1) R tlb_flush_wf [of "vs_tlb s"] flush_coherent [of "vs_tlb s" "as_pt as2"] no_swap
        in \<open>simp_all add: s'_def\<close>)
  have "byte_view a s' = elf_memory (vs_files s' vn) qs"
    by (rule program_view [OF inv _ qs(2,1)]) (use D(2,3) R no_swap assms(7) in \<open>simp_all add: s'_def\<close>)
  then show ?thesis using run inv by (auto simp: s'_def)
qed

end
