(* ===== verification/Bitmap.thy ===== *)
theory Bitmap
  imports Kprelude
begin

text \<open>
  The fixed-size bit array of kern/lib/bitmap.c that file systems keep their free maps in.
  A bitmap is its bit count and the bytes v; bits holds the same as a list of booleans, one
  for each byte of storage times eight, and bm_ok is the invariant of bitmap_create: enough
  bytes, and the bits past nbits marked.

  bitmap_alloc walks the bytes, skips the full ones and then walks the bits of a byte; the
  lemmas show that this is the search for the first clear bit in the list of bits.
\<close>

abbreviation (input) BITS_PER_WORD :: u32 where "BITS_PER_WORD \<equiv> 8"
abbreviation (input) WORD_ALLBITS :: u8 where "WORD_ALLBITS \<equiv> 0xff"

text \<open>DIVROUNDUP of lib.h on unsigned operands; the addition wraps.\<close>

definition DIVROUNDUP :: "u32 \<Rightarrow> u32 \<Rightarrow> u32" where
  "DIVROUNDUP a b = (a + b - 1) div b"

record bitmap =
  nbits :: u32
  bm_v :: "u8 list"

subsection \<open>kern/lib/bitmap.c\<close>

text \<open>The bits from overbits on in the last byte, marked by bitmap_create.\<close>

fun mark_over :: "nat \<Rightarrow> nat \<Rightarrow> u8 \<Rightarrow> u8" where
  "mark_over j 0 w = w"
| "mark_over j (Suc n) w = mark_over (Suc j) n (w OR push_bit j 1)"

text \<open>got_b and got_v say whether the two kmalloc calls return a block.\<close>

definition bitmap_create :: "bool \<Rightarrow> bool \<Rightarrow> u32 \<Rightarrow> bitmap option option" where
  "bitmap_create got_b got_v n =
     (let words = DIVROUNDUP n BITS_PER_WORD in
      if \<not> got_b then Some None
      else if \<not> got_v then Some None
      else
        (let v = replicate (unat words) 0 in
         if words > n div BITS_PER_WORD
         then (let ix = words - 1; overbits = n - ix * BITS_PER_WORD in do {
           kassert (n div BITS_PER_WORD = words - 1);
           kassert (0 < overbits \<and> overbits < BITS_PER_WORD);
           w \<leftarrow> arr_get v (unat ix);
           v' \<leftarrow> arr_set v (unat ix) (mark_over (unat overbits) (8 - unat overbits) w);
           Some (Some \<lparr>nbits = n, bm_v = v'\<rparr>)
         })
         else Some (Some \<lparr>nbits = n, bm_v = v\<rparr>)))"

definition bitmap_getdata :: "bitmap \<Rightarrow> u8 list" where
  "bitmap_getdata b = bm_v b"

text \<open>The bit loop of bitmap_alloc in one byte: the first clear offset.\<close>

function alloc_bit :: "nat \<Rightarrow> u8 \<Rightarrow> nat option" where
  "alloc_bit offset w =
     (if offset < 8
      then (if w AND push_bit offset 1 = 0 then Some offset else alloc_bit (Suc offset) w)
      else None)"
  by pat_completeness auto
termination by (relation "measure (\<lambda>(offset, _). 8 - offset)") auto

declare alloc_bit.simps [simp del]

function alloc_word :: "nat \<Rightarrow> nat \<Rightarrow> bitmap \<Rightarrow> ((errno + u32) \<times> bitmap) option" where
  "alloc_word ix maxix b =
     (if ix < maxix
      then do {
        w \<leftarrow> arr_get (bm_v b) ix;
        if w \<noteq> WORD_ALLBITS
        then do {
          offset \<leftarrow> alloc_bit 0 w;
          v \<leftarrow> arr_set (bm_v b) ix (w OR push_bit offset 1);
          let index = of_nat ix * BITS_PER_WORD + of_nat offset;
          kassert (index < nbits b);
          Some (Inr index, b\<lparr>bm_v := v\<rparr>)
        }
        else alloc_word (Suc ix) maxix b
      }
      else Some (Inl ENOSPC, b))"
  by pat_completeness auto
termination by (relation "measure (\<lambda>(ix, maxix, _). maxix - ix)") auto

declare alloc_word.simps [simp del]

definition bitmap_alloc :: "bitmap \<Rightarrow> ((errno + u32) \<times> bitmap) option" where
  "bitmap_alloc b = alloc_word 0 (unat (DIVROUNDUP (nbits b) BITS_PER_WORD)) b"

definition bitmap_translate :: "u32 \<Rightarrow> nat \<times> u8" where
  "bitmap_translate bitno = (unat (bitno div BITS_PER_WORD), push_bit (unat (bitno mod BITS_PER_WORD)) 1)"

definition bitmap_mark :: "bitmap \<Rightarrow> u32 \<Rightarrow> bitmap option" where
  "bitmap_mark b index = do {
     kassert (index < nbits b);
     let (ix, mask) = bitmap_translate index;
     w \<leftarrow> arr_get (bm_v b) ix;
     kassert (w AND mask = 0);
     v \<leftarrow> arr_set (bm_v b) ix (w OR mask);
     Some (b\<lparr>bm_v := v\<rparr>)
   }"

definition bitmap_unmark :: "bitmap \<Rightarrow> u32 \<Rightarrow> bitmap option" where
  "bitmap_unmark b index = do {
     kassert (index < nbits b);
     let (ix, mask) = bitmap_translate index;
     w \<leftarrow> arr_get (bm_v b) ix;
     kassert (w AND mask \<noteq> 0);
     v \<leftarrow> arr_set (bm_v b) ix (w AND NOT mask);
     Some (b\<lparr>bm_v := v\<rparr>)
   }"

definition bitmap_isset :: "bitmap \<Rightarrow> u32 \<Rightarrow> bool option" where
  "bitmap_isset b index = do {
     let (ix, mask) = bitmap_translate index;
     w \<leftarrow> arr_get (bm_v b) ix;
     Some (w AND mask \<noteq> 0)
   }"

subsection \<open>The bits\<close>

definition bits :: "bitmap \<Rightarrow> bool list" where
  "bits b = concat (map (\<lambda>w. map (bit w) [0..<8]) (bm_v b))"

definition bm_ok :: "bitmap \<Rightarrow> bool" where
  "bm_ok b \<longleftrightarrow> unat (nbits b) + 7 < 4294967296 \<and> length (bm_v b) = (unat (nbits b) + 7) div 8 \<and>
     (\<forall>i < length (bits b). unat (nbits b) \<le> i \<longrightarrow> bits b ! i)"

lemma length_bits [simp]: "length (bits b) = 8 * length (bm_v b)"
proof -
  have "length (concat (map (\<lambda>w. map (bit w) [0..<8]) xs)) = 8 * length xs" for xs :: "u8 list"
    by (induction xs) auto
  then show ?thesis by (simp add: bits_def)
qed

lemma nth_bits:
  assumes "i < 8 * length (bm_v b)"
  shows "bits b ! i = bit (bm_v b ! (i div 8)) (i mod 8)"
proof -
  have "i < 8 * length xs \<Longrightarrow>
      concat (map (\<lambda>w. map (bit w) [0..<8]) xs) ! i = bit (xs ! (i div 8)) (i mod 8)" for xs :: "u8 list"
  proof (induction xs arbitrary: i)
    case Nil
    then show ?case by simp
  next
    case (Cons x xs)
    show ?case
    proof (cases "i < 8")
      case True
      then show ?thesis by (simp add: nth_append del: upt_rec_numeral upt_Suc)
    next
      case False
      have "i div 8 = Suc ((i - 8) div 8)" "i mod 8 = (i - 8) mod 8" using False
        by (auto simp: le_div_geq le_mod_geq)
      then show ?thesis using Cons.IH [of "i - 8"] Cons.prems False
        by (simp add: nth_append del: upt_rec_numeral upt_Suc)
    qed
  qed
  then show ?thesis using assms by (simp add: bits_def)
qed

lemma bit_two_power: "bit ((2 :: u8) ^ k) n \<longleftrightarrow> n = k \<and> k < 8"
  by (auto simp: bit_exp_iff)

lemma and_push_one: "(w :: u8) AND push_bit k 1 = 0 \<longleftrightarrow> \<not> bit w k"
proof
  assume "w AND push_bit k 1 = 0"
  then have "\<not> bit (w AND push_bit k 1) k" by simp
  then show "\<not> bit w k" using bit_imp_le_length [of w k] by (auto simp: bit_and_iff bit_two_power)
next
  assume "\<not> bit w k"
  then show "w AND push_bit k 1 = 0" by (intro bit_eqI) (auto simp: bit_and_iff bit_two_power)
qed

lemma bit_or_push: "bit (w OR push_bit k (1 :: u8)) n \<longleftrightarrow> bit w n \<or> n = k \<and> k < 8"
  by (simp add: bit_or_iff bit_two_power)

lemma bit_and_not_push: "bit (w AND NOT (push_bit k (1 :: u8))) n \<longleftrightarrow> bit w n \<and> n \<noteq> k"
  using bit_imp_le_length [of w n] by (auto simp: bit_and_iff bit_not_iff bit_two_power)

lemma allbits: "w = 0xff \<longleftrightarrow> (\<forall>k < 8. bit (w :: u8) k)"
proof -
  have m: "(0xff :: u8) = mask 8" by (simp add: mask_eq_exp_minus_1)
  show ?thesis unfolding m
    by (auto intro!: bit_eqI simp: bit_mask_iff dest: bit_imp_le_length)
qed

text \<open>Writing one bit.\<close>

definition set_bit_at :: "nat \<Rightarrow> bool \<Rightarrow> u8 list \<Rightarrow> u8 list" where
  "set_bit_at i x v = v[i div 8 := (if x then v ! (i div 8) OR push_bit (i mod 8) 1
     else v ! (i div 8) AND NOT (push_bit (i mod 8) 1))]"

lemma bits_set_bit_at:
  assumes "i < 8 * length (bm_v b)"
  shows "bits (b\<lparr>bm_v := set_bit_at i x (bm_v b)\<rparr>) = (bits b)[i := x]"
proof (rule nth_equalityI)
  show "length (bits (b\<lparr>bm_v := set_bit_at i x (bm_v b)\<rparr>)) = length ((bits b)[i := x])"
    by (simp add: set_bit_at_def)
  fix j
  assume "j < length (bits (b\<lparr>bm_v := set_bit_at i x (bm_v b)\<rparr>))"
  then have j: "j < 8 * length (bm_v b)" by (simp add: set_bit_at_def)
  have eq: "j = i \<longleftrightarrow> j div 8 = i div 8 \<and> j mod 8 = i mod 8" by (metis div_mult_mod_eq)
  define q r where "q = j div 8" and "r = j mod 8"
  have r: "r < 8" "i mod 8 < 8" by (simp_all add: r_def)
  have q: "q < length (bm_v b)" "i div 8 < length (bm_v b)" using j assms by (auto simp: q_def)
  show "bits (b\<lparr>bm_v := set_bit_at i x (bm_v b)\<rparr>) ! j = (bits b)[i := x] ! j"
    using eq r q j assms
    by (cases "q = i div 8"; cases "r = i mod 8")
      (simp_all add: nth_bits set_bit_at_def bit_or_push bit_and_not_push nth_list_update
        flip: q_def r_def del: push_bit_of_1)
qed


lemma set_bit_at_ok:
  "bm_ok b \<Longrightarrow> i < unat (nbits b) \<Longrightarrow> bm_ok (b\<lparr>bm_v := set_bit_at i x (bm_v b)\<rparr>)"
proof -
  assume ok: "bm_ok b" and i: "i < unat (nbits b)"
  then have "i < 8 * length (bm_v b)" by (auto simp: bm_ok_def)
  with ok i show ?thesis
    unfolding bm_ok_def bits_set_bit_at [OF \<open>i < 8 * length (bm_v b)\<close>]
    by (auto simp: set_bit_at_def nth_list_update)
qed

subsection \<open>The search of bitmap_alloc\<close>

lemma alloc_bit_Some:
  "alloc_bit off w = Some k \<longleftrightarrow> off \<le> k \<and> k < 8 \<and> \<not> bit w k \<and> (\<forall>j. off \<le> j \<and> j < k \<longrightarrow> bit w j)"
proof (induction off w rule: alloc_bit.induct)
  case (1 off w)
  consider "8 \<le> off" | "off < 8" "bit w off" | "off < 8" "\<not> bit w off" by linarith
  then show ?case
  proof cases
    case 1
    then show ?thesis by (auto simp: alloc_bit.simps)
  next
    case 2
    have "(Suc off \<le> k \<and> k < 8 \<and> \<not> bit w k \<and> (\<forall>j. Suc off \<le> j \<and> j < k \<longrightarrow> bit w j)) \<longleftrightarrow>
        (off \<le> k \<and> k < 8 \<and> \<not> bit w k \<and> (\<forall>j. off \<le> j \<and> j < k \<longrightarrow> bit w j))"
      using 2(2) less_eq_Suc_le le_eq_less_or_eq by (metis (no_types, lifting))
    moreover have "w AND push_bit off 1 \<noteq> 0" using 2(2) by (simp only: and_push_one) simp
    then have "alloc_bit off w = alloc_bit (Suc off) w" by (subst alloc_bit.simps) (simp add: 2(1))
    ultimately show ?thesis
      using "1.IH" [OF 2(1) \<open>w AND push_bit off 1 \<noteq> 0\<close>] by (simp only:)
  next
    case 3
    then have "w AND push_bit off 1 = 0" by (simp only: and_push_one) simp
    then have "alloc_bit off w = Some off" by (subst alloc_bit.simps) (simp add: 3(1))
    then show ?thesis using 3 by (auto simp: order_le_less)
  qed
qed

lemma alloc_bit_None: "alloc_bit 0 w = None \<longleftrightarrow> w = 0xff"
proof
  assume n: "alloc_bit 0 w = None"
  have "bit w k" if "k < 8" for k
    using that
  proof (induction k rule: less_induct)
    case (less k)
    have "alloc_bit 0 w \<noteq> Some k" using n by simp
    with less show ?case unfolding alloc_bit_Some by auto
  qed
  then show "w = 0xff" unfolding allbits by blast
next
  assume "w = 0xff"
  then have "alloc_bit 0 w \<noteq> Some k" for k unfolding alloc_bit_Some allbits by blast
  then show "alloc_bit 0 w = None" by (cases "alloc_bit 0 w") auto
qed

lemma bits_word:
  assumes "ix < length (bm_v b)" "k < 8"
  shows "bits b ! (8 * ix + k) = bit (bm_v b ! ix) k"
  using assms by (simp add: nth_bits)

lemma divroundup_8: "unat n + 7 < 4294967296 \<Longrightarrow> unat (DIVROUNDUP n 8) = (unat n + 7) div 8"
  by (simp add: DIVROUNDUP_def unat_div_u32 unat_add_u32 add_diff_eq [symmetric])


text \<open>One step of the word loop, in terms of the list of bits.\<close>

lemma alloc_word_bits:
  assumes "bm_ok b" "ix \<le> length (bm_v b)" "\<And>i. i < 8 * ix \<Longrightarrow> bits b ! i"
  shows "alloc_word ix (length (bm_v b)) b =
    (case find_idx Not (bits b) of
       None \<Rightarrow> Some (Inl ENOSPC, b)
     | Some i \<Rightarrow> Some (Inr (of_nat i), b\<lparr>bm_v := set_bit_at i True (bm_v b)\<rparr>))"
  using assms
proof (induction "length (bm_v b) - ix" arbitrary: ix)
  case 0
  then have "ix = length (bm_v b)" by simp
  then have "find_idx Not (bits b) = None" using 0 by (auto simp: find_idx_None list_all_nth)
  then show ?case using \<open>ix = length (bm_v b)\<close> by (simp add: alloc_word.simps)
next
  case (Suc m)
  then have ix: "ix < length (bm_v b)" by simp
  note size = Suc.prems(1) [unfolded bm_ok_def]
  show ?case
  proof (cases "alloc_bit 0 (bm_v b ! ix)")
    case None
    then have full: "bm_v b ! ix = 0xff" by (simp add: alloc_bit_None)
    have "bits b ! i" if "i < 8 * Suc ix" for i
    proof (cases "i < 8 * ix")
      case False
      have "i - 8 * ix < 8" using that False by simp
      moreover have "bit (bm_v b ! ix) (i - 8 * ix)" using full calculation allbits by blast
      ultimately have "bits b ! (8 * ix + (i - 8 * ix))" using ix by (subst bits_word) auto
      then show ?thesis using False by simp
    qed (use Suc.prems in blast)
    then show ?thesis using Suc.hyps(1) [of "Suc ix"] Suc.hyps(2) Suc.prems(1) ix full
      by (simp add: alloc_word.simps [of ix])
  next
    case (Some k)
    then have k: "k < 8" "\<not> bit (bm_v b ! ix) k" "\<And>j. j < k \<Longrightarrow> bit (bm_v b ! ix) j"
      by (auto simp: alloc_bit_Some)
    let ?i = "8 * ix + k"
    have i: "?i < length (bits b)" "\<not> bits b ! ?i" using ix k by (auto simp: bits_word)
    have before: "bits b ! j" if "j < ?i" for j
    proof (cases "j < 8 * ix")
      case False
      then have "bits b ! (8 * ix + (j - 8 * ix))" using that ix k by (subst bits_word) auto
      then show ?thesis using False by simp
    qed (use Suc.prems in blast)
    have found: "find_idx Not (bits b) = Some ?i" using i before by (simp add: find_idx_Some)
    have lt: "?i < unat (nbits b)" using i size by (metis linorder_not_less)
    have idx: "of_nat ix * 8 + of_nat k = (of_nat ?i :: u32)" by (simp add: mult.commute)
    have "unat (of_nat ?i :: u32) = ?i" using lt unat_u32_lt [of "nbits b"] by (intro unat_of_nat_u32) linarith
    then have guard: "(of_nat ?i :: u32) < nbits b" using lt by (simp only: word_less_nat_alt)
    have neq: "bm_v b ! ix \<noteq> 0xff" using Some alloc_bit_None [of "bm_v b ! ix"] by auto
    have upd: "set_bit_at ?i True (bm_v b) = (bm_v b)[ix := bm_v b ! ix OR push_bit k 1]"
      using k by (simp add: set_bit_at_def)
    show ?thesis unfolding found option.case upd
      by (subst alloc_word.simps) (use ix neq Some guard in \<open>simp add: idx del: of_nat_add of_nat_mult push_bit_of_1\<close>)
  qed
qed

lemma bitmap_alloc_bits:
  assumes "bm_ok b"
  shows "bitmap_alloc b =
    (case find_idx Not (bits b) of
       None \<Rightarrow> Some (Inl ENOSPC, b)
     | Some i \<Rightarrow> Some (Inr (of_nat i), b\<lparr>bm_v := set_bit_at i True (bm_v b)\<rparr>))"
proof -
  have "unat (DIVROUNDUP (nbits b) 8) = length (bm_v b)" using assms by (simp add: bm_ok_def divroundup_8)
  then show ?thesis using alloc_word_bits [of b 0] assms by (simp add: bitmap_alloc_def)
qed


subsection \<open>The bitmap as a set of free indices\<close>

definition bm_free :: "bitmap \<Rightarrow> nat set" where
  "bm_free b = {i. i < unat (nbits b) \<and> \<not> bits b ! i}"

lemma bm_len: "bm_ok b \<Longrightarrow> i < unat (nbits b) \<Longrightarrow> i < 8 * length (bm_v b)"
  by (auto simp: bm_ok_def)

lemma bm_free_set:
  assumes "bm_ok b" "i < unat (nbits b)"
  shows "bm_free (b\<lparr>bm_v := set_bit_at i x (bm_v b)\<rparr>) = (if x then bm_free b - {i} else insert i (bm_free b))"
  using assms bm_len [OF assms]
  by (auto simp: bm_free_def bits_set_bit_at nth_list_update bm_len split: if_splits)

lemma translate_bit:
  assumes "bm_ok b" "index < nbits b"
  shows "fst (bitmap_translate index) < length (bm_v b)"
    and "bm_v b ! fst (bitmap_translate index) AND snd (bitmap_translate index) = 0 \<longleftrightarrow> \<not> bits b ! unat index"
    and "fst (bitmap_translate index) = unat index div 8"
    and "snd (bitmap_translate index) = push_bit (unat index mod 8) 1"
proof -
  have i: "unat index < 8 * length (bm_v b)" using assms bm_len by (simp only: word_less_nat_alt)
  show f: "fst (bitmap_translate index) = unat index div 8"
    by (simp only: bitmap_translate_def fst_conv unat_div_u32) simp
  show m: "snd (bitmap_translate index) = push_bit (unat index mod 8) 1"
    by (simp only: bitmap_translate_def snd_conv unat_mod_u32) simp
  show "fst (bitmap_translate index) < length (bm_v b)" unfolding f using i by linarith
  show "bm_v b ! fst (bitmap_translate index) AND snd (bitmap_translate index) = 0 \<longleftrightarrow> \<not> bits b ! unat index"
    unfolding f m and_push_one using i by (simp add: nth_bits)
qed

lemma in_bm_free: "index < nbits b \<Longrightarrow> unat index \<in> bm_free b \<longleftrightarrow> \<not> bits b ! unat index"
  by (simp add: bm_free_def word_less_nat_alt)

lemma bitmap_mark_eq:
  assumes "bm_ok b"
  shows "bitmap_mark b index =
    (if unat index \<in> bm_free b then Some (b\<lparr>bm_v := set_bit_at (unat index) True (bm_v b)\<rparr>) else None)"
proof (cases "index < nbits b")
  case True
  show ?thesis using translate_bit [OF assms True] True in_bm_free [OF True]
    by (auto simp: bitmap_mark_def Let_def set_bit_at_def case_prod_beta)
next
  case False
  then show ?thesis by (simp add: bitmap_mark_def bm_free_def word_less_nat_alt)
qed

lemma bitmap_unmark_eq:
  assumes "bm_ok b"
  shows "bitmap_unmark b index =
    (if index < nbits b \<and> unat index \<notin> bm_free b
     then Some (b\<lparr>bm_v := set_bit_at (unat index) False (bm_v b)\<rparr>) else None)"
proof (cases "index < nbits b")
  case True
  show ?thesis using translate_bit [OF assms True] True in_bm_free [OF True]
    by (auto simp: bitmap_unmark_def Let_def set_bit_at_def case_prod_beta)
next
  case False
  then show ?thesis by (simp add: bitmap_unmark_def)
qed

lemma bitmap_isset_eq:
  assumes "bm_ok b" "index < nbits b"
  shows "bitmap_isset b index = Some (unat index \<notin> bm_free b)"
  using translate_bit [OF assms] in_bm_free [OF assms(2)]
  by (simp add: bitmap_isset_def Let_def case_prod_beta)

text \<open>Without a KASSERT on the index: a bit past the end in the last byte is marked, a byte past the end is read out of bounds.\<close>

lemma bitmap_isset_any:
  assumes "bm_ok b"
  shows "bitmap_isset b index =
    (if unat index < 8 * ((unat (nbits b) + 7) div 8) then Some (unat index \<notin> bm_free b) else None)"
proof -
  have l: "length (bm_v b) = (unat (nbits b) + 7) div 8" using assms by (simp add: bm_ok_def)
  have t: "bitmap_translate index = (unat index div 8, push_bit (unat index mod 8) 1)"
    by (simp add: bitmap_translate_def unat_div unat_mod)
  show ?thesis
  proof (cases "unat index < 8 * length (bm_v b)")
    case False
    then have "\<not> unat index div 8 < length (bm_v b)" by linarith
    then show ?thesis using False l by (simp add: bitmap_isset_def t Let_def arr_get_def)
  next
    case True
    then have ix: "unat index div 8 < length (bm_v b)" by linarith
    have "bits b ! unat index \<longleftrightarrow> unat index \<notin> bm_free b"
      using assms True by (auto simp: bm_ok_def bm_free_def)
    then have "bm_v b ! (unat index div 8) AND push_bit (unat index mod 8) 1 \<noteq> 0 \<longleftrightarrow> unat index \<notin> bm_free b"
      unfolding and_push_one nth_bits [OF True] by simp
    then show ?thesis using True ix l by (simp add: bitmap_isset_def t Let_def arr_get_def del: push_bit_of_1)
  qed
qed

subsection \<open>What a file system relies on\<close>

text \<open>
  The contract of a free map: free is the set of indices that can be handed out, alloc takes
  the least of them, release gives one back, used tells whether an index is out.
\<close>

locale free_map =
  fixes alloc :: "'b \<Rightarrow> ((errno + u32) \<times> 'b) option"
    and release :: "'b \<Rightarrow> u32 \<Rightarrow> 'b option"
    and used :: "'b \<Rightarrow> u32 \<Rightarrow> bool option"
    and free :: "'b \<Rightarrow> nat set"
    and limit :: "'b \<Rightarrow> u32"
    and ok :: "'b \<Rightarrow> bool"
  assumes free_limit: "free b \<subseteq> {..<unat (limit b)}"
    and alloc_full: "ok b \<Longrightarrow> free b = {} \<Longrightarrow> alloc b = Some (Inl ENOSPC, b)"
    and alloc_least: "ok b \<Longrightarrow> free b \<noteq> {} \<Longrightarrow> \<exists>i b'. alloc b = Some (Inr i, b') \<and>
      unat i = Min (free b) \<and> free b' = free b - {unat i} \<and> limit b' = limit b \<and> ok b'"
    and release_spec: "ok b \<Longrightarrow> i < limit b \<Longrightarrow> unat i \<notin> free b \<Longrightarrow> \<exists>b'. release b i = Some b' \<and>
      free b' = insert (unat i) (free b) \<and> limit b' = limit b \<and> ok b'"
    and used_spec: "ok b \<Longrightarrow> i < limit b \<Longrightarrow> used b i = Some (unat i \<notin> free b)"
begin

lemma free_finite: "finite (free b)"
  using free_limit [of b] finite_subset by blast

lemma alloc_some:
  assumes "ok b" "alloc b = Some (r, b')"
  shows "r = Inl ENOSPC \<and> b' = b \<and> free b = {} \<or>
    (\<exists>i. r = Inr i \<and> unat i \<in> free b \<and> (\<forall>j \<in> free b. unat i \<le> j) \<and> free b' = free b - {unat i} \<and>
       limit b' = limit b \<and> ok b')"
proof (cases "free b = {}")
  case False
  then have "Min (free b) \<in> free b" "\<forall>j \<in> free b. Min (free b) \<le> j" using free_finite by simp_all
  then show ?thesis using alloc_least [OF assms(1) False] assms(2) by force
qed (use alloc_full assms in force)

lemma alloc_total: "ok b \<Longrightarrow> \<exists>r b'. alloc b = Some (r, b')"
  using alloc_full alloc_least by blast

lemma alloc_release:
  assumes "ok b" "alloc b = Some (Inr i, b')"
  shows "\<exists>b2. release b' i = Some b2 \<and> free b2 = free b \<and> limit b2 = limit b \<and> ok b2"
proof -
  have i: "unat i \<in> free b" "free b' = free b - {unat i}" "limit b' = limit b" "ok b'"
    using alloc_some [OF assms] by auto
  then have "i < limit b'" using free_limit [of b] by (auto simp: word_less_nat_alt)
  then show ?thesis using release_spec [of b' i] i by (auto simp: insert_absorb)
qed

end

lemma bm_free_first:
  assumes "bm_ok b"
  shows "find_idx Not (bits b) = (if bm_free b = {} then None else Some (Min (bm_free b)))"
proof (cases "bm_free b = {}")
  case True
  have "bits b ! i" if "i < length (bits b)" for i
    using that True assms by (cases "i < unat (nbits b)") (auto simp: bm_free_def bm_ok_def)
  then show ?thesis using True by (auto simp: find_idx_None list_all_nth)
next
  case False
  have fin: "finite (bm_free b)" by (simp add: bm_free_def)
  then have m: "Min (bm_free b) \<in> bm_free b" using False by simp
  then have "Min (bm_free b) < length (bits b)" using bm_len [OF assms] by (auto simp: bm_free_def)
  moreover have "bits b ! j" if "j < Min (bm_free b)" for j
  proof (rule ccontr)
    assume "\<not> bits b ! j"
    moreover have "Min (bm_free b) < unat (nbits b)" using m unfolding bm_free_def by blast
    ultimately have "j \<in> bm_free b" using that unfolding bm_free_def by simp
    then show False using Min_le [OF fin] that by fastforce
  qed
  moreover have "\<not> bits b ! Min (bm_free b)" using m unfolding bm_free_def by blast
  ultimately have "find_idx Not (bits b) = Some (Min (bm_free b))" by (simp add: find_idx_Some)
  then show ?thesis using False by simp
qed

interpretation bm: free_map bitmap_alloc bitmap_unmark bitmap_isset bm_free nbits bm_ok
proof unfold_locales
  fix b :: bitmap and i :: u32
  show "bm_free b \<subseteq> {..<unat (nbits b)}" by (auto simp: bm_free_def)
  show "bm_ok b \<Longrightarrow> bm_free b = {} \<Longrightarrow> bitmap_alloc b = Some (Inl ENOSPC, b)"
    by (simp add: bitmap_alloc_bits bm_free_first)
  show "bm_ok b \<Longrightarrow> i < nbits b \<Longrightarrow> unat i \<notin> bm_free b \<Longrightarrow> \<exists>b'. bitmap_unmark b i = Some b' \<and>
      bm_free b' = insert (unat i) (bm_free b) \<and> nbits b' = nbits b \<and> bm_ok b'"
    by (auto simp: bitmap_unmark_eq bm_free_set set_bit_at_ok word_less_nat_alt)
  show "bm_ok b \<Longrightarrow> i < nbits b \<Longrightarrow> bitmap_isset b i = Some (unat i \<notin> bm_free b)"
    by (rule bitmap_isset_eq)
  assume ok: "bm_ok b" and ne: "bm_free b \<noteq> {}"
  have "finite (bm_free b)" by (simp add: bm_free_def)
  then have m: "Min (bm_free b) \<in> bm_free b" using ne by (rule Min_in)
  then have lt: "Min (bm_free b) < unat (nbits b)" unfolding bm_free_def by blast
  then have u: "unat (of_nat (Min (bm_free b)) :: u32) = Min (bm_free b)"
    using unat_u32_lt [of "nbits b"] by (intro unat_of_nat_u32) linarith
  show "\<exists>i b'. bitmap_alloc b = Some (Inr i, b') \<and> unat i = Min (bm_free b) \<and>
      bm_free b' = bm_free b - {unat i} \<and> nbits b' = nbits b \<and> bm_ok b'"
    using ok ne lt u by (simp add: bitmap_alloc_bits bm_free_first bm_free_set set_bit_at_ok)
qed


subsection \<open>Creation\<close>

lemma bit_mark_over: "bit (mark_over j n w) k \<longleftrightarrow> bit w k \<or> j \<le> k \<and> k < j + n \<and> k < 8"
proof (induction n arbitrary: j w)
  case (Suc n)
  show ?case unfolding mark_over.simps Suc.IH bit_or_push by auto
qed auto

lemma bitmap_create_ok:
  assumes "unat n + 7 < 4294967296"
  shows "\<exists>b. bitmap_create True True n = Some (Some b) \<and> nbits b = n \<and> bm_ok b \<and> bm_free b = {..<unat n}"
proof -
  define words where "words = (unat n + 7) div 8"
  have w: "unat (DIVROUNDUP n 8) = words" using assms by (simp add: divroundup_8 words_def)
  have nd: "unat (n div 8) = unat n div 8" by (simp add: unat_div_u32)
  show ?thesis
  proof (cases "DIVROUNDUP n 8 > n div 8")
    case False
    then have "words \<le> unat n div 8" using w nd by (simp only: word_less_nat_alt)
    then have "unat n = 8 * words" unfolding words_def by linarith
    then have "bm_ok \<lparr>nbits = n, bm_v = replicate words 0\<rparr>"
      "bm_free \<lparr>nbits = n, bm_v = replicate words 0\<rparr> = {..<unat n}"
      using assms by (auto simp: bm_ok_def words_def bm_free_def nth_bits)
    then show ?thesis using False w by (simp add: bitmap_create_def Let_def)
  next
    case True
    then have gt: "unat n div 8 < words" using w nd by (simp only: word_less_nat_alt)
    define ix over where "ix = words - 1" and "over = unat n - 8 * ix"
    have arith: "words = Suc ix" "unat n div 8 = ix" "0 < over" "over < 8" "unat n = 8 * ix + over"
      using gt unfolding ix_def over_def words_def by linarith+
    have ge: "1 \<le> DIVROUNDUP n 8" using arith(1) w by (simp add: word_le_nat_alt)
    have uix: "unat (DIVROUNDUP n 8 - 1) = ix" using unat_sub_u32 [OF ge] w arith(1) by simp
    have k1: "n div 8 = DIVROUNDUP n 8 - 1" using nd uix arith(2) by (simp only: word_unat_eq_iff)
    have mul: "unat ((DIVROUNDUP n 8 - 1) * 8) = 8 * ix"
      using uix arith(5) unat_u32_lt [of n] by (subst unat_mult_u32) auto
    then have ov: "unat (n - (DIVROUNDUP n 8 - 1) * 8) = over"
      using arith(5) by (subst unat_sub_u32) (auto simp: word_le_nat_alt)
    have k2: "0 < n - (DIVROUNDUP n 8 - 1) * 8" "n - (DIVROUNDUP n 8 - 1) * 8 < 8"
      unfolding word_less_nat_alt ov using arith by simp_all
    define b where "b = \<lparr>nbits = n, bm_v = (replicate words 0)[ix := mark_over over (8 - over) 0]\<rparr>"
    define dd where "dd = DIVROUNDUP n 8 - 1"
    define ow where "ow = n - dd * 8"
    note folded = True k1 k2 uix ov
    have "arr_get (replicate words (0 :: u8)) ix = Some 0"
      using arith(1) by (simp del: replicate_Suc)
    moreover have "arr_set (replicate words 0) ix (mark_over over (8 - over) 0) = Some (bm_v b)"
      using arith(1) by (simp add: b_def del: replicate_Suc)
    ultimately have "bitmap_create True True n = Some (Some b)"
      unfolding bitmap_create_def Let_def using folded w
      unfolding dd_def [symmetric] ow_def [symmetric] by (simp add: b_def)
    moreover have len: "length (bm_v b) = words" and nb: "nbits b = n" by (simp_all add: b_def)
    moreover have byte: "bm_v b ! k = (if k = ix then mark_over over (8 - over) 0 else 0)" if "k < words" for k
      using that by (simp add: b_def nth_list_update)
    have bit: "bits b ! i \<longleftrightarrow> unat n \<le> i" if "i < 8 * words" for i
    proof -
      have i: "i div 8 < words" "i = 8 * (i div 8) + i mod 8" "i mod 8 < 8" using that by simp_all
      have "bits b ! i \<longleftrightarrow> i div 8 = ix \<and> over \<le> i mod 8"
        using that i by (simp add: nth_bits len byte bit_mark_over) (use arith in simp)
      also have "\<dots> \<longleftrightarrow> unat n \<le> i" using i arith by linarith
      finally show ?thesis .
    qed
    have "bm_ok b" using assms bit by (simp add: bm_ok_def len nb words_def)
    moreover have "bm_free b = {..<unat n}" using bit arith by (auto simp: bm_free_def nb)
    ultimately show ?thesis by blast
  qed
qed

subsection \<open>Properties\<close>

text \<open>The reference allocator: a set of free indices, from which the least is taken.\<close>

datatype bm_call = Alloc | Mark u32 | Unmark u32 | Isset u32

fun set_op :: "nat \<Rightarrow> bm_call \<Rightarrow> nat set \<Rightarrow> ((errno + nat) \<times> nat set) option" where
  "set_op n Alloc F = (if F = {} then Some (Inl ENOSPC, F) else Some (Inr (Min F), F - {Min F}))"
| "set_op n (Mark i) F = (if unat i < n \<and> unat i \<in> F then Some (Inr (unat i), F - {unat i}) else None)"
| "set_op n (Unmark i) F =
     (if unat i < n \<and> unat i \<notin> F then Some (Inr (unat i), insert (unat i) F) else None)"
| "set_op n (Isset i) F =
     (if unat i < 8 * ((n + 7) div 8) then Some (Inr (if unat i \<in> F then 0 else 1), F) else None)"

fun bm_op :: "bm_call \<Rightarrow> bitmap \<Rightarrow> ((errno + nat) \<times> bitmap) option" where
  "bm_op Alloc b = do { (r, b') \<leftarrow> bitmap_alloc b; Some (map_sum id unat r, b') }"
| "bm_op (Mark i) b = do { b' \<leftarrow> bitmap_mark b i; Some (Inr (unat i), b') }"
| "bm_op (Unmark i) b = do { b' \<leftarrow> bitmap_unmark b i; Some (Inr (unat i), b') }"
| "bm_op (Isset i) b = do { s \<leftarrow> bitmap_isset b i; Some (Inr (if s then 1 else 0), b) }"

fun run_ops :: "('o \<Rightarrow> 's \<Rightarrow> ('r \<times> 's) option) \<Rightarrow> 'o list \<Rightarrow> 's \<Rightarrow> ('r list \<times> 's) option" where
  "run_ops f [] s = Some ([], s)"
| "run_ops f (x # xs) s = do { (r, s1) \<leftarrow> f x s; (rs, s2) \<leftarrow> run_ops f xs s1; Some (r # rs, s2) }"

lemma bm_op_set:
  assumes "bm_ok b"
  shows "(\<exists>r b'. bm_op x b = Some (r, b') \<and> set_op (unat (nbits b)) x (bm_free b) = Some (r, bm_free b') \<and>
      bm_ok b' \<and> nbits b' = nbits b) \<or>
    bm_op x b = None \<and> set_op (unat (nbits b)) x (bm_free b) = None"
proof (cases x)
  case Alloc
  show ?thesis
  proof (cases "bm_free b = {}")
    case True
    then show ?thesis using bm.alloc_full [OF assms True] assms by (simp add: Alloc)
  next
    case False
    then obtain i b' where "bitmap_alloc b = Some (Inr i, b')" "unat i = Min (bm_free b)"
        "bm_free b' = bm_free b - {unat i}" "nbits b' = nbits b" "bm_ok b'"
      using bm.alloc_least [OF assms] by blast
    then show ?thesis using False by (simp add: Alloc)
  qed
next
  case (Mark i)
  have "unat i < unat (nbits b)" if "unat i \<in> bm_free b" using that by (simp add: bm_free_def)
  then show ?thesis
    using assms by (auto simp: Mark bitmap_mark_eq bm_free_set set_bit_at_ok)
next
  case (Isset i)
  then show ?thesis using assms by (auto simp: bitmap_isset_any)
next
  case (Unmark i)
  then show ?thesis
    using bm.release_spec [OF assms, of i] assms by (auto simp: bitmap_unmark_eq word_less_nat_alt)
qed

lemma run_bm_ops:
  assumes "bm_ok b"
  shows "map_option (\<lambda>(rs, b'). (rs, bm_free b')) (run_ops bm_op xs b) =
    run_ops (set_op (unat (nbits b))) xs (bm_free b)"
  using assms
proof (induction xs arbitrary: b)
  case (Cons x xs)
  from bm_op_set [OF Cons.prems, of x] show ?case
  proof (elim disjE exE conjE)
    fix r b'
    assume s: "bm_op x b = Some (r, b')" "set_op (unat (nbits b)) x (bm_free b) = Some (r, bm_free b')"
      "bm_ok b'" "nbits b' = nbits b"
    have "map_option (\<lambda>(rs, b'). (rs, bm_free b')) (run_ops bm_op xs b') =
        run_ops (set_op (unat (nbits b))) xs (bm_free b')"
      using Cons.IH [OF s(3)] s(4) by simp
    from this [symmetric] show ?thesis using s
      by (cases "run_ops bm_op xs b'") auto
  qed simp
qed simp

text \<open>
  C25: a bitmap made by bitmap_create for n bits is the reference allocator: any sequence of
  bitmap_alloc, bitmap_mark, bitmap_unmark and bitmap_isset calls on it halts where the set allocator
  does (a mark of a number that is out or past the end, an unmark of one that is free or past the
  end, an isset past the last byte) and otherwise returns the same answers, each bitmap_alloc the
  least number that is free, and leaves the same free numbers; with all n out the answer of
  bitmap_alloc is ENOSPC. The byte and bit loops, the skipping of full bytes and the marking of the
  bits past the end in the last byte do not show, except that bitmap_isset gives true for these.
\<close>

theorem bitmap_is_set_allocator:
  assumes "unat n + 7 < 4294967296" "bitmap_create True True n = Some (Some b)"
  shows "map_option (\<lambda>(rs, b'). (rs, bm_free b')) (run_ops bm_op xs b) =
    run_ops (set_op (unat n)) xs {..<unat n}"
  using bitmap_create_ok [OF assms(1)] assms(2) run_bm_ops [of b xs] by auto

theorem bitmap_is_set_allocator_witness:
  "map_option (\<lambda>(rs, b'). (rs, bm_free b'))
     (run_ops bm_op (replicate 11 Alloc @ [Unmark 3, Isset 3, Mark 3, Isset 15]) \<lparr>nbits = 11, bm_v = [0, 248]\<rparr>) =
   run_ops (set_op 11) (replicate 11 Alloc @ [Unmark 3, Isset 3, Mark 3, Isset 15]) {..<11}"
proof -
  have "bitmap_create True True 11 = Some (Some \<lparr>nbits = 11, bm_v = [0, 248]\<rparr>)" by code_simp
  from bitmap_is_set_allocator [OF _ this, of "replicate 11 Alloc @ [Unmark 3, Isset 3, Mark 3, Isset 15]"]
  show ?thesis by simp
qed

end
