(* ===== verification/Lhd.thy ===== *)
theory Lhd
  imports Uio "HOL-Library.Signed_Division"
begin

text \<open>
  The hard disk driver kern/dev/lamebus/lhd.c, from the request of a file system to the
  status register. The device is its sectors, the on-card buffer, and the status values it
  will show at the coming interrupts (none means success); an operation that succeeds moves
  the on-card buffer to the sector or back, and one that fails moves nothing. The semaphores
  lh_clear and lh_done make requests take turns and wait for the interrupt; a request here
  runs from its P to its V without another one in between.
\<close>

abbreviation (input) LHD_SECTSIZE :: nat where "LHD_SECTSIZE \<equiv> 512"
abbreviation (input) LHD_STATEMASK :: u32 where "LHD_STATEMASK \<equiv> 0x1d"
abbreviation (input) LHD_IDLE :: u32 where "LHD_IDLE \<equiv> 0"
abbreviation (input) LHD_WORKING :: u32 where "LHD_WORKING \<equiv> 1"
abbreviation (input) LHD_OK :: u32 where "LHD_OK \<equiv> 4"
abbreviation (input) LHD_INVSECT :: u32 where "LHD_INVSECT \<equiv> 12"
abbreviation (input) LHD_MEDIA :: u32 where "LHD_MEDIA \<equiv> 20"

record lhd_softc =
  lh_buf :: "u8 list"
  lh_blocks :: u32
  lh_sectors :: "nat \<Rightarrow> u8 list"
  lh_status :: "u32 list"

definition lhd_code_to_errno :: "u32 \<Rightarrow> status" where
  "lhd_code_to_errno code =
     (let c = code AND LHD_STATEMASK in
      if c = LHD_OK then None
      else if c = LHD_INVSECT then Some EINVAL
      else if c = LHD_MEDIA then Some EIO
      else Some EAGAIN)"

text \<open>The interrupt handler: Some result when it calls lhd_iodone.\<close>

definition lhd_irq :: "u32 \<Rightarrow> status option" where
  "lhd_irq val =
     (let c = val AND LHD_STATEMASK in
      if c = LHD_IDLE \<or> c = LHD_WORKING then None
      else if c = LHD_OK \<or> c = LHD_INVSECT \<or> c = LHD_MEDIA then Some (lhd_code_to_errno val)
      else None)"

text \<open>P on lh_done: the interrupts until one of them completes the operation.\<close>

fun lhd_wait :: "u32 list \<Rightarrow> status \<times> u32 list" where
  "lhd_wait [] = (None, [])"
| "lhd_wait (c # cs) = (case lhd_irq c of None \<Rightarrow> lhd_wait cs | Some r \<Rightarrow> (r, cs))"

definition lhd_op :: "bool \<Rightarrow> u32 \<Rightarrow> lhd_softc \<Rightarrow> status \<times> lhd_softc" where
  "lhd_op wr sector lh =
     (let (r, cs) = lhd_wait (lh_status lh); lh1 = lh\<lparr>lh_status := cs\<rparr> in
      if r \<noteq> None then (r, lh1)
      else if wr then (None, lh1\<lparr>lh_sectors := (lh_sectors lh1)(unat sector := lh_buf lh1)\<rparr>)
      else (None, lh1\<lparr>lh_buf := lh_sectors lh1 (unat sector)\<rparr>))"

fun lhd_loop ::
  "'m umem \<Rightarrow> nat \<Rightarrow> u32 \<Rightarrow> uio \<Rightarrow> lhd_softc \<Rightarrow> 'm \<Rightarrow> ((status \<times> uio) \<times> lhd_softc \<times> 'm) option" where
  "lhd_loop um 0 sector u lh m = Some ((None, u), lh, m)"
| "lhd_loop um (Suc n) sector u lh m =
     (if uio_rw u = UIO_WRITE
      then do {
        ((r, buf, u1), m1) \<leftarrow> uiomove um (lh_buf lh) 512 u m;
        let lh1 = lh\<lparr>lh_buf := buf\<rparr>;
        if r \<noteq> None then Some ((r, u1), lh1, m1)
        else (let (r2, lh2) = lhd_op True sector lh1 in
          if r2 \<noteq> None then Some ((r2, u1), lh2, m1) else lhd_loop um n (sector + 1) u1 lh2 m1)
      }
      else (let (r, lh1) = lhd_op False sector lh in
        if r \<noteq> None then Some ((r, u), lh1, m)
        else do {
          ((r2, _, u1), m1) \<leftarrow> uiomove um (lh_buf lh1) 512 u m;
          if r2 \<noteq> None then Some ((r2, u1), lh1, m1) else lhd_loop um n (sector + 1) u1 lh1 m1
        }))"

definition lhd_io :: "'m umem \<Rightarrow> uio \<Rightarrow> lhd_softc \<Rightarrow> 'm \<Rightarrow> ((status \<times> uio) \<times> lhd_softc \<times> 'm) option" where
  "lhd_io um u lh m =
     (let sector = word_of_int (uio_offset u sdiv 512) :: u32;
          sectoff = word_of_int (uio_offset u smod 512) :: u32;
          len = uio_resid u div 512;
          lenoff = uio_resid u mod 512 in
      if sectoff \<noteq> 0 \<or> lenoff \<noteq> 0 then Some ((Some EINVAL, u), lh, m)
      else if sector + len > lh_blocks lh then Some ((Some EINVAL, u), lh, m)
      else lhd_loop um (unat len) sector u lh m)"

subsection \<open>A device without errors\<close>

definition lhd_calm :: "lhd_softc \<Rightarrow> bool" where
  "lhd_calm lh \<longleftrightarrow> (\<forall>c \<in> set (lh_status lh). lhd_irq c = None \<or> lhd_irq c = Some None)"

definition lhd_ok :: "lhd_softc \<Rightarrow> bool" where
  "lhd_ok lh \<longleftrightarrow> lhd_calm lh \<and> length (lh_buf lh) = LHD_SECTSIZE \<and> (\<forall>b. length (lh_sectors lh b) = LHD_SECTSIZE)"

lemma lhd_wait_calm:
  "\<forall>c \<in> set cs. lhd_irq c = None \<or> lhd_irq c = Some None \<Longrightarrow>
   \<exists>cs'. lhd_wait cs = (None, cs') \<and> (\<forall>c \<in> set cs'. lhd_irq c = None \<or> lhd_irq c = Some None)"
  by (induction cs) (auto split: option.split)

lemma lhd_op_ok:
  assumes "lhd_ok lh"
  shows "\<exists>lh'. lhd_op wr sector lh = (None, lh') \<and> lhd_ok lh' \<and> lh_blocks lh' = lh_blocks lh \<and>
    lh_sectors lh' = (if wr then (lh_sectors lh)(unat sector := lh_buf lh) else lh_sectors lh) \<and>
    lh_buf lh' = (if wr then lh_buf lh else lh_sectors lh (unat sector))"
  using assms lhd_wait_calm [of "lh_status lh"] by (auto simp: lhd_op_def lhd_ok_def lhd_calm_def)

text \<open>One aligned sector inside the device.\<close>

lemma lhd_io_sector:
  assumes "uio_offset u = 512 * int b" "uio_resid u = 512" "b < unat (lh_blocks lh)"
  shows "lhd_io um u lh m = lhd_loop um 1 (of_nat b) u lh m"
proof -
  have b: "b < 4294967295" using assms(3) unat_u32_lt [of "lh_blocks lh"] by linarith
  have "unat (of_nat b + 1 :: u32) = b + 1"
    using b by (subst unat_add_u32) (simp_all add: unat_of_nat_u32)
  then have "\<not> lh_blocks lh < of_nat b + 1" using assms(3) by (simp only: word_less_nat_alt)
  moreover have "uio_offset u sdiv 512 = int b" "uio_offset u smod 512 = 0"
    using assms(1) by (simp_all add: signed_divide_int_def signed_modulo_int_def) (simp add: sgn_if)
  moreover have "(512 :: u32) div 512 = 1" "(512 :: u32) mod 512 = 0" by code_simp+
  ultimately show ?thesis using assms(2) by (simp add: lhd_io_def Let_def)
qed

context uio_stream
begin

lemma lhd_read:
  assumes "ok u m" "uio_rw u = UIO_READ" "uio_offset u = 512 * int b" "uio_resid u = 512"
    and "512 \<le> room u m" "b < unat (lh_blocks lh)" "lhd_ok lh"
  shows "\<exists>u' m' lh'. lhd_io um u lh m = Some ((None, u'), lh', m') \<and> ok u' m' \<and> uio_moved u 512 u' \<and>
    room u' m' = room u m - 512 \<and> out u' m' = out u m @ lh_sectors lh b \<and>
    lhd_ok lh' \<and> lh_blocks lh' = lh_blocks lh \<and> lh_sectors lh' = lh_sectors lh"
proof -
  have b: "unat (of_nat b :: u32) = b"
    using assms(6) unat_u32_lt [of "lh_blocks lh"] by (intro unat_of_nat_u32) linarith
  obtain lh1 where lh1: "lhd_op False (of_nat b) lh = (None, lh1)" "lhd_ok lh1" "lh_blocks lh1 = lh_blocks lh"
      "lh_sectors lh1 = lh_sectors lh" "lh_buf lh1 = lh_sectors lh b"
    using lhd_op_ok [OF assms(7), of False "of_nat b"] b by auto
  have len: "length (lh_buf lh1) = 512" using lh1(2) by (simp add: lhd_ok_def)
  then obtain u1 m1 where "uiomove um (lh_buf lh1) 512 u m = Some ((None, lh_buf lh1, u1), m1)" "ok u1 m1"
      "uio_moved u 512 u1" "room u1 m1 = room u m - 512" "out u1 m1 = out u m @ lh_buf lh1"
    using move_read [of u m 512 "lh_buf lh1"] assms by auto
  then show ?thesis unfolding lhd_io_sector [OF assms(3,4,6)] using assms(2) lh1 by simp
qed

lemma lhd_write:
  assumes "ok u m" "uio_rw u = UIO_WRITE" "uio_offset u = 512 * int b" "uio_resid u = 512"
    and "512 \<le> room u m" "b < unat (lh_blocks lh)" "lhd_ok lh"
  shows "\<exists>u' m' lh'. lhd_io um u lh m = Some ((None, u'), lh', m') \<and> ok u' m' \<and> uio_moved u 512 u' \<and>
    room u' m' = room u m - 512 \<and> src u' m' = drop 512 (src u m) \<and>
    lhd_ok lh' \<and> lh_blocks lh' = lh_blocks lh \<and> lh_sectors lh' = (lh_sectors lh)(b := take 512 (src u m))"
proof -
  have b: "unat (of_nat b :: u32) = b"
    using assms(6) unat_u32_lt [of "lh_blocks lh"] by (intro unat_of_nat_u32) linarith
  have len: "length (lh_buf lh) = 512" "length (src u m) = room u m"
    using assms room_src by (auto simp: lhd_ok_def)
  then obtain u1 m1 where u1: "uiomove um (lh_buf lh) 512 u m = Some ((None, take 512 (src u m), u1), m1)" "ok u1 m1"
      "uio_moved u 512 u1" "room u1 m1 = room u m - 512" "src u1 m1 = drop 512 (src u m)"
    using move_write [of u m 512 "lh_buf lh"] assms by auto
  let ?lh = "lh\<lparr>lh_buf := take 512 (src u m)\<rparr>"
  have "lhd_ok ?lh" using assms(5,7) len by (simp add: lhd_ok_def lhd_calm_def)
  then obtain lh1 where "lhd_op True (of_nat b) ?lh = (None, lh1)" "lhd_ok lh1" "lh_blocks lh1 = lh_blocks lh"
      "lh_sectors lh1 = (lh_sectors lh)(b := take 512 (src u m))"
    using lhd_op_ok [of ?lh True "of_nat b"] b by auto
  then show ?thesis unfolding lhd_io_sector [OF assms(3,4,6)] using assms(2) u1 by simp
qed

end

end
