(* ===== verification/Sfs.thy ===== *)
theory Sfs
  imports Lhd Bitmap Bytes
begin

text \<open>
  The volume layer of SFS, kern/fs/sfs: the structures of kern/sfs.h and sfs.h, block I/O
  (sfs_io.c), block allocation (sfs_balloc.c) and the map from the blocks of a file to the
  blocks of the volume (sfs_bmap.c). All of it runs under the VFS big lock, so an operation
  runs from its start to its end without another one in between.

  A volume is mounted on an lhd disk, whose state is part of the volume's. A vnode is passed
  by value and returned updated; theory Sfsnode keeps the table of them.
\<close>

abbreviation (input) SFS_MAGIC :: u32 where "SFS_MAGIC \<equiv> 0xabadf001"
abbreviation (input) SFS_BLOCKSIZE :: nat where "SFS_BLOCKSIZE \<equiv> 512"
abbreviation (input) SFS_NDIRECT :: nat where "SFS_NDIRECT \<equiv> 15"
abbreviation (input) SFS_NINDIRECT :: nat where "SFS_NINDIRECT \<equiv> 1"
abbreviation (input) SFS_DBPERIDB :: nat where "SFS_DBPERIDB \<equiv> 128"
abbreviation (input) SFS_TYPE_INVAL :: u16 where "SFS_TYPE_INVAL \<equiv> 0"
abbreviation (input) SFS_TYPE_FILE :: u16 where "SFS_TYPE_FILE \<equiv> 1"
abbreviation (input) SFS_TYPE_DIR :: u16 where "SFS_TYPE_DIR \<equiv> 2"

record sfs_superblock =
  sb_magic :: u32
  sb_nblocks :: u32
  sb_volname :: "u8 list"
  sb_reserved :: "u32 list"

record sfs_dinode =
  sfi_size :: u32
  sfi_type :: u16
  sfi_linkcount :: u16
  sfi_direct :: "u32 list"
  sfi_indirect :: u32
  sfi_waste :: "u32 list"

record sfs_vnode =
  sv_i :: sfs_dinode
  sv_ino :: u32
  sv_dirty :: bool
  sv_refcount :: nat

record sfs_fs =
  sfs_sb :: sfs_superblock
  sfs_superdirty :: bool
  sfs_device :: lhd_softc
  sfs_freemap :: bitmap
  sfs_freemapdirty :: bool

subsection \<open>Block I/O: kern/fs/sfs/sfs_io.c\<close>

function rwblock_loop ::
  "'m umem \<Rightarrow> nat \<Rightarrow> uio \<Rightarrow> sfs_fs \<Rightarrow> 'm \<Rightarrow> ((status \<times> uio) \<times> sfs_fs \<times> 'm) option" where
  "rwblock_loop um tries u fs m = do {
     ((result, u1), lh, m1) \<leftarrow> lhd_io um u (sfs_device fs) m;
     let fs1 = fs\<lparr>sfs_device := lh\<rparr>;
     if result = Some EINVAL then None
     else if result = Some EIO \<and> tries < 10 then rwblock_loop um (tries + 1) u1 fs1 m1
     else Some ((result, u1), fs1, m1)
   }"
  by pat_completeness auto
termination by (relation "measure (\<lambda>(_, tries, _). 10 - tries)") auto

declare rwblock_loop.simps [simp del]

definition sfs_rwblock :: "'m umem \<Rightarrow> uio \<Rightarrow> sfs_fs \<Rightarrow> 'm \<Rightarrow> ((status \<times> uio) \<times> sfs_fs \<times> 'm) option" where
  "sfs_rwblock um u fs m = rwblock_loop um 0 u fs m"

text \<open>A kernel uio never reaches user memory.\<close>

definition no_user :: "unit umem" where
  "no_user = \<lparr>um_copyin = (\<lambda>_ _ _. None), um_copyout = (\<lambda>_ _ _. None), um_getas = (\<lambda>_. None)\<rparr>"

definition SFSUIO :: "u8 list \<Rightarrow> u32 \<Rightarrow> uio_rw \<Rightarrow> uio" where
  "SFSUIO buf block rw = uio_kinit buf 512 (int (unat block) * 512) rw"

definition sfs_readblock :: "sfs_fs \<Rightarrow> u32 \<Rightarrow> u8 list \<Rightarrow> nat \<Rightarrow> ((status \<times> u8 list) \<times> sfs_fs) option" where
  "sfs_readblock fs block data len = do {
     kassert (len = SFS_BLOCKSIZE);
     ((r, u), fs1, _) \<leftarrow> sfs_rwblock no_user (SFSUIO data block UIO_READ) fs ();
     Some ((r, iov_kbuf (hd (uio_iov u))), fs1)
   }"

definition sfs_writeblock :: "sfs_fs \<Rightarrow> u32 \<Rightarrow> u8 list \<Rightarrow> nat \<Rightarrow> (status \<times> sfs_fs) option" where
  "sfs_writeblock fs block data len = do {
     kassert (len = SFS_BLOCKSIZE);
     ((r, _), fs1, _) \<leftarrow> sfs_rwblock no_user (SFSUIO data block UIO_WRITE) fs ();
     Some (r, fs1)
   }"

subsection \<open>Block allocation: kern/fs/sfs/sfs_balloc.c\<close>

definition sfs_clearblock :: "sfs_fs \<Rightarrow> u32 \<Rightarrow> (status \<times> sfs_fs) option" where
  "sfs_clearblock fs block = sfs_writeblock fs block (replicate 512 0) SFS_BLOCKSIZE"

definition sfs_balloc :: "sfs_fs \<Rightarrow> ((errno + u32) \<times> sfs_fs) option" where
  "sfs_balloc fs = do {
     (r, bm) \<leftarrow> bitmap_alloc (sfs_freemap fs);
     (case r of
        Inl e \<Rightarrow> Some (Inl e, fs\<lparr>sfs_freemap := bm\<rparr>)
      | Inr diskblock \<Rightarrow> do {
          let fs1 = fs\<lparr>sfs_freemap := bm, sfs_freemapdirty := True\<rparr>;
          kassert (\<not> diskblock \<ge> sb_nblocks (sfs_sb fs1));
          (r2, fs2) \<leftarrow> sfs_clearblock fs1 diskblock;
          (case r2 of
             Some e \<Rightarrow> do {
               bm2 \<leftarrow> bitmap_unmark (sfs_freemap fs2) diskblock;
               Some (Inl e, fs2\<lparr>sfs_freemap := bm2\<rparr>)
             }
           | None \<Rightarrow> Some (Inr diskblock, fs2))
        })
   }"

definition sfs_bfree :: "sfs_fs \<Rightarrow> u32 \<Rightarrow> sfs_fs option" where
  "sfs_bfree fs diskblock = do {
     bm \<leftarrow> bitmap_unmark (sfs_freemap fs) diskblock;
     Some (fs\<lparr>sfs_freemap := bm, sfs_freemapdirty := True\<rparr>)
   }"

definition sfs_bused :: "sfs_fs \<Rightarrow> u32 \<Rightarrow> bool option" where
  "sfs_bused fs diskblock = do {
     kassert (\<not> diskblock \<ge> sb_nblocks (sfs_sb fs));
     bitmap_isset (sfs_freemap fs) diskblock
   }"

subsection \<open>Block mapping: kern/fs/sfs/sfs_bmap.c\<close>

definition set_inode :: "(sfs_dinode \<Rightarrow> sfs_dinode) \<Rightarrow> sfs_vnode \<Rightarrow> sfs_vnode" where
  "set_inode f sv = sv\<lparr>sv_i := f (sv_i sv)\<rparr>"

text \<open>The check at the end of both branches: a block that is handed back is in use.\<close>

definition check_used :: "sfs_fs \<Rightarrow> u32 \<Rightarrow> unit option" where
  "check_used fs block = (if block \<noteq> 0 then do { used \<leftarrow> sfs_bused fs block; kassert used } else Some ())"

definition bmap_direct ::
  "sfs_vnode \<Rightarrow> nat \<Rightarrow> bool \<Rightarrow> sfs_fs \<Rightarrow> ((errno + u32) \<times> sfs_vnode \<times> sfs_fs) option" where
  "bmap_direct sv fileblock doalloc fs = do {
     block \<leftarrow> arr_get (sfi_direct (sv_i sv)) fileblock;
     if block = 0 \<and> doalloc
     then do {
       (r, fs1) \<leftarrow> sfs_balloc fs;
       (case r of
          Inl e \<Rightarrow> Some (Inl e, sv, fs1)
        | Inr block \<Rightarrow> do {
            direct \<leftarrow> arr_set (sfi_direct (sv_i sv)) fileblock block;
            let sv1 = (set_inode (sfi_direct_update (\<lambda>_. direct)) sv)\<lparr>sv_dirty := True\<rparr>;
            check_used fs1 block;
            Some (Inr block, sv1, fs1)
          })
     }
     else do {
       check_used fs block;
       Some (Inr block, sv, fs)
     }
   }"

text \<open>The indirect block is in idbuf: find the block there or allocate it.\<close>

definition bmap_entry ::
  "sfs_vnode \<Rightarrow> u32 \<Rightarrow> u32 list \<Rightarrow> nat \<Rightarrow> bool \<Rightarrow> sfs_fs \<Rightarrow> ((errno + u32) \<times> sfs_vnode \<times> sfs_fs) option" where
  "bmap_entry sv idblock idbuf idoff doalloc fs = do {
     block \<leftarrow> arr_get idbuf idoff;
     if block = 0 \<and> doalloc
     then do {
       (r, fs1) \<leftarrow> sfs_balloc fs;
       (case r of
          Inl e \<Rightarrow> Some (Inl e, sv, fs1)
        | Inr block \<Rightarrow> do {
            idbuf1 \<leftarrow> arr_set idbuf idoff block;
            (r2, fs2) \<leftarrow> sfs_writeblock fs1 idblock (bytes_of idbuf1) SFS_BLOCKSIZE;
            (case r2 of
               Some e \<Rightarrow> Some (Inl e, sv, fs2)
             | None \<Rightarrow> do {
                 check_used fs2 block;
                 Some (Inr block, sv, fs2)
               })
          })
     }
     else do {
       check_used fs block;
       Some (Inr block, sv, fs)
     }
   }"

definition sfs_bmap ::
  "sfs_vnode \<Rightarrow> u32 \<Rightarrow> bool \<Rightarrow> sfs_fs \<Rightarrow> ((errno + u32) \<times> sfs_vnode \<times> sfs_fs) option" where
  "sfs_bmap sv fileblock doalloc fs =
     (if unat fileblock < SFS_NDIRECT then bmap_direct sv (unat fileblock) doalloc fs
      else
        (let fileblock = fileblock - 15;
             idnum = fileblock div 128;
             idoff = fileblock mod 128;
             idblock = sfi_indirect (sv_i sv) in
         if unat idnum \<ge> SFS_NINDIRECT then Some (Inl EFBIG, sv, fs)
         else if idblock = 0 \<and> \<not> doalloc then Some (Inr 0, sv, fs)
         else if idblock = 0
         then do {
           (r, fs1) \<leftarrow> sfs_balloc fs;
           (case r of
              Inl e \<Rightarrow> Some (Inl e, sv, fs1)
            | Inr idblock \<Rightarrow>
                (let sv1 = (set_inode (sfi_indirect_update (\<lambda>_. idblock)) sv)\<lparr>sv_dirty := True\<rparr> in
                 bmap_entry sv1 idblock (replicate SFS_DBPERIDB 0) (unat idoff) doalloc fs1))
         }
         else do {
           ((r, bs), fs1) \<leftarrow> sfs_readblock fs idblock (replicate 512 0) SFS_BLOCKSIZE;
           (case r of
              Some e \<Rightarrow> Some (Inl e, sv, fs1)
            | None \<Rightarrow> bmap_entry sv idblock (words_of SFS_DBPERIDB bs) (unat idoff) doalloc fs1)
         }))"

text \<open>The two loops of sfs_itrunc, over the direct blocks and over the indirect block.\<close>

function itrunc_direct :: "nat \<Rightarrow> u32 \<Rightarrow> sfs_vnode \<Rightarrow> sfs_fs \<Rightarrow> (sfs_vnode \<times> sfs_fs) option" where
  "itrunc_direct i blocklen sv fs =
     (if i < SFS_NDIRECT
      then do {
        block \<leftarrow> arr_get (sfi_direct (sv_i sv)) i;
        if of_nat i \<ge> blocklen \<and> block \<noteq> 0
        then do {
          fs1 \<leftarrow> sfs_bfree fs block;
          direct \<leftarrow> arr_set (sfi_direct (sv_i sv)) i 0;
          itrunc_direct (i + 1) blocklen ((set_inode (sfi_direct_update (\<lambda>_. direct)) sv)\<lparr>sv_dirty := True\<rparr>) fs1
        }
        else itrunc_direct (i + 1) blocklen sv fs
      }
      else Some (sv, fs))"
  by pat_completeness auto
termination by (relation "measure (\<lambda>(i, _). 15 - i)") auto

declare itrunc_direct.simps [simp del]

function itrunc_indirect ::
  "nat \<Rightarrow> u32 \<Rightarrow> u32 list \<Rightarrow> bool \<Rightarrow> bool \<Rightarrow> sfs_fs \<Rightarrow> ((u32 list \<times> bool \<times> bool) \<times> sfs_fs) option" where
  "itrunc_indirect j blocklen idbuf hasnonzero iddirty fs =
     (if j < SFS_DBPERIDB
      then do {
        block \<leftarrow> arr_get idbuf j;
        ((idbuf1, iddirty1), fs1) \<leftarrow>
          (if blocklen < 15 + of_nat j \<and> block \<noteq> 0
           then do {
             fs1 \<leftarrow> sfs_bfree fs block;
             idbuf1 \<leftarrow> arr_set idbuf j 0;
             Some ((idbuf1, True), fs1)
           }
           else Some ((idbuf, iddirty), fs));
        b \<leftarrow> arr_get idbuf1 j;
        itrunc_indirect (j + 1) blocklen idbuf1 (hasnonzero \<or> b \<noteq> 0) iddirty1 fs1
      }
      else Some ((idbuf, hasnonzero, iddirty), fs))"
  by pat_completeness auto
termination by (relation "measure (\<lambda>(j, _). 128 - j)") auto

declare itrunc_indirect.simps [simp del]

text \<open>What sfs_itrunc does about the indirect block.\<close>

definition itrunc_idblock :: "u32 \<Rightarrow> sfs_vnode \<Rightarrow> sfs_fs \<Rightarrow> (status \<times> sfs_vnode \<times> sfs_fs) option" where
  "itrunc_idblock blocklen sv fs =
     (let idblock = sfi_indirect (sv_i sv);
          baseblock = (15 :: u32);
          highblock = baseblock + 128 - 1 in
      if blocklen < highblock \<and> idblock \<noteq> 0
      then do {
        ((r, bs), fs1) \<leftarrow> sfs_readblock fs idblock (replicate 512 0) SFS_BLOCKSIZE;
        (case r of
           Some e \<Rightarrow> Some (Some e, sv, fs1)
         | None \<Rightarrow> do {
             ((idbuf, hasnonzero, iddirty), fs2) \<leftarrow>
               itrunc_indirect 0 blocklen (words_of SFS_DBPERIDB bs) False False fs1;
             if \<not> hasnonzero
             then do {
               fs3 \<leftarrow> sfs_bfree fs2 idblock;
               Some (None, (set_inode (sfi_indirect_update (\<lambda>_. 0)) sv)\<lparr>sv_dirty := True\<rparr>, fs3)
             }
             else if iddirty
             then do {
               (r, fs3) \<leftarrow> sfs_writeblock fs2 idblock (bytes_of idbuf) SFS_BLOCKSIZE;
               Some (r, sv, fs3)
             }
             else Some (None, sv, fs2)
           })
      }
      else Some (None, sv, fs))"

definition sfs_itrunc :: "sfs_vnode \<Rightarrow> int \<Rightarrow> sfs_fs \<Rightarrow> (status \<times> sfs_vnode \<times> sfs_fs) option" where
  "sfs_itrunc sv len fs = do {
     let blocklen = (word_of_int ((len + 511) sdiv 512) :: u32);
     (sv1, fs1) \<leftarrow> itrunc_direct 0 blocklen sv fs;
     (r, sv2, fs2) \<leftarrow> itrunc_idblock blocklen sv1 fs1;
     (case r of
        Some e \<Rightarrow> Some (Some e, sv2, fs2)
      | None \<Rightarrow>
          Some (None, (set_inode (sfi_size_update (\<lambda>_. word_of_int len)) sv2)\<lparr>sv_dirty := True\<rparr>, fs2))
   }"

end
