(* ===== verification/Sfsmap.thy ===== *)
theory Sfsmap
  imports Sfs
begin

text \<open>
  What the block layer of SFS guarantees on a disk without errors. fs_ok is the invariant of
  a mounted volume: the blocks of the volume are on the disk and in the free map, and only
  they can be free, block 0 (the superblock) never. ftab lists the blocks of a file by file
  block number, 0 for a hole; sv_ok says that these and the indirect block are different
  blocks in use. fbyte is the file as an array of bytes, which is what reads and writes are
  specified by.
\<close>

abbreviation dsk :: "sfs_fs \<Rightarrow> nat \<Rightarrow> u8 list" where
  "dsk fs \<equiv> lh_sectors (sfs_device fs)"

abbreviation fs_free :: "sfs_fs \<Rightarrow> nat set" where
  "fs_free fs \<equiv> bm_free (sfs_freemap fs)"

abbreviation nblk :: "sfs_fs \<Rightarrow> nat" where
  "nblk fs \<equiv> unat (sb_nblocks (sfs_sb fs))"

definition fs_ok :: "sfs_fs \<Rightarrow> bool" where
  "fs_ok fs \<longleftrightarrow> lhd_ok (sfs_device fs) \<and> bm_ok (sfs_freemap fs) \<and>
     nblk fs \<le> unat (lh_blocks (sfs_device fs)) \<and> nblk fs \<le> unat (nbits (sfs_freemap fs)) \<and>
     fs_free fs \<subseteq> {0<..<nblk fs}"

text \<open>The same volume, whatever its blocks hold.\<close>

definition fs_same :: "sfs_fs \<Rightarrow> sfs_fs \<Rightarrow> bool" where
  "fs_same fs fs' \<longleftrightarrow> sfs_sb fs' = sfs_sb fs \<and> lh_blocks (sfs_device fs') = lh_blocks (sfs_device fs) \<and>
     nbits (sfs_freemap fs') = nbits (sfs_freemap fs) \<and> sfs_superdirty fs' = sfs_superdirty fs"

lemma fs_same_refl [simp]: "fs_same fs fs"
  by (simp add: fs_same_def)

lemma fs_same_trans: "fs_same a b \<Longrightarrow> fs_same b c \<Longrightarrow> fs_same a c"
  by (simp add: fs_same_def)

lemma fs_same_nblk: "fs_same fs fs' \<Longrightarrow> nblk fs' = nblk fs" "fs_same fs fs' \<Longrightarrow> sfs_sb fs' = sfs_sb fs"
  by (simp_all add: fs_same_def)

lemma dsk_length: "fs_ok fs \<Longrightarrow> length (dsk fs b) = 512"
  by (simp add: fs_ok_def lhd_ok_def)

lemma fs_okD:
  assumes "fs_ok fs"
  shows "lhd_ok (sfs_device fs)" "bm_ok (sfs_freemap fs)" "nblk fs \<le> unat (lh_blocks (sfs_device fs))"
    "nblk fs \<le> unat (nbits (sfs_freemap fs))" "fs_free fs \<subseteq> {0<..<nblk fs}"
  using assms by (auto simp: fs_ok_def)

lemma rwblock_ok:
  "lhd_io um u (sfs_device fs) m = Some ((None, u'), lh', m') \<Longrightarrow>
   sfs_rwblock um u fs m = Some ((None, u'), fs\<lparr>sfs_device := lh'\<rparr>, m')"
  by (simp add: sfs_rwblock_def rwblock_loop.simps)

context uio_stream
begin

lemma rwblock_read:
  assumes "ok u m" "uio_rw u = UIO_READ" "uio_offset u = 512 * int b" "uio_resid u = 512"
    and "512 \<le> room u m" "b < nblk fs" "fs_ok fs"
  shows "\<exists>u' m' lh'. sfs_rwblock um u fs m = Some ((None, u'), fs\<lparr>sfs_device := lh'\<rparr>, m') \<and> ok u' m' \<and>
    uio_moved u 512 u' \<and> room u' m' = room u m - 512 \<and> out u' m' = out u m @ dsk fs b \<and>
    lhd_ok lh' \<and> lh_blocks lh' = lh_blocks (sfs_device fs) \<and> lh_sectors lh' = dsk fs"
proof -
  have "b < unat (lh_blocks (sfs_device fs))" using fs_okD(3) [OF assms(7)] assms(6) by linarith
  from lhd_read [OF assms(1-5) this fs_okD(1) [OF assms(7)]]
  obtain u' m' lh' where "lhd_io um u (sfs_device fs) m = Some ((None, u'), lh', m')" "ok u' m'"
    "uio_moved u 512 u'" "room u' m' = room u m - 512" "out u' m' = out u m @ dsk fs b"
    "lhd_ok lh'" "lh_blocks lh' = lh_blocks (sfs_device fs)" "lh_sectors lh' = dsk fs" by blast
  then show ?thesis using rwblock_ok [of um u fs m u' lh' m'] by (intro exI [of _ u'] exI [of _ m'] exI [of _ lh']) simp
qed

lemma rwblock_write:
  assumes "ok u m" "uio_rw u = UIO_WRITE" "uio_offset u = 512 * int b" "uio_resid u = 512"
    and "512 \<le> room u m" "b < nblk fs" "fs_ok fs"
  shows "\<exists>u' m' lh'. sfs_rwblock um u fs m = Some ((None, u'), fs\<lparr>sfs_device := lh'\<rparr>, m') \<and> ok u' m' \<and>
    uio_moved u 512 u' \<and> room u' m' = room u m - 512 \<and> src u' m' = drop 512 (src u m) \<and>
    lhd_ok lh' \<and> lh_blocks lh' = lh_blocks (sfs_device fs) \<and>
    lh_sectors lh' = (dsk fs)(b := take 512 (src u m))"
proof -
  have "b < unat (lh_blocks (sfs_device fs))" using fs_okD(3) [OF assms(7)] assms(6) by linarith
  from lhd_write [OF assms(1-5) this fs_okD(1) [OF assms(7)]]
  obtain u' m' lh' where "lhd_io um u (sfs_device fs) m = Some ((None, u'), lh', m')" "ok u' m'"
    "uio_moved u 512 u'" "room u' m' = room u m - 512" "src u' m' = drop 512 (src u m)"
    "lhd_ok lh'" "lh_blocks lh' = lh_blocks (sfs_device fs)"
    "lh_sectors lh' = (dsk fs)(b := take 512 (src u m))" by blast
  then show ?thesis using rwblock_ok [of um u fs m u' lh' m'] by (intro exI [of _ u'] exI [of _ m'] exI [of _ lh']) simp
qed

end

lemma SFSUIO_simps:
  assumes "length data = 512"
  shows "kuio_ok 512 (SFSUIO data block rw) m" "kuio_room (SFSUIO data block rw) m = 512"
    "kuio_src (SFSUIO data block rw) m = data" "kuio_out (SFSUIO data block rw) m = []"
    "uio_rw (SFSUIO data block rw) = rw" "uio_offset (SFSUIO data block rw) = 512 * int (unat block)"
    "uio_resid (SFSUIO data block rw) = 512"
  using kuio_kinit [of 512 data "int (unat block) * 512" rw] assms by (simp_all add: SFSUIO_def)

text \<open>A kernel buffer that has been filled is what was received.\<close>

lemma kuio_out_full: "kuio_ok len u m \<Longrightarrow> length (kuio_out u m) = len \<Longrightarrow> iov_kbuf (hd (uio_iov u)) = kuio_out u m"
  by (auto simp: kuio_out_def kuio_ok_def)

lemma device_upd_ok:
  "fs_ok fs \<Longrightarrow> lhd_ok lh \<Longrightarrow> lh_blocks lh = lh_blocks (sfs_device fs) \<Longrightarrow>
   fs_ok (fs\<lparr>sfs_device := lh\<rparr>) \<and> fs_same fs (fs\<lparr>sfs_device := lh\<rparr>)"
  by (simp add: fs_ok_def fs_same_def)

definition fs_keep :: "sfs_fs \<Rightarrow> sfs_fs \<Rightarrow> bool" where
  "fs_keep fs fs' \<longleftrightarrow> fs_ok fs' \<and> fs_same fs fs' \<and> sfs_freemap fs' = sfs_freemap fs \<and>
     sfs_freemapdirty fs' = sfs_freemapdirty fs"

lemma readblock_ok:
  assumes "fs_ok fs" "unat b < nblk fs" "length data = 512"
  shows "\<exists>fs'. sfs_readblock fs b data 512 = Some ((None, dsk fs (unat b)), fs') \<and> fs_keep fs fs' \<and> dsk fs' = dsk fs"
proof -
  note S = SFSUIO_simps [OF assms(3)]
  obtain u' lh' where u: "sfs_rwblock no_user (SFSUIO data b UIO_READ) fs () = Some ((None, u'), fs\<lparr>sfs_device := lh'\<rparr>, ())"
      "kuio_ok 512 u' ()" "kuio_out u' () = dsk fs (unat b)" "lhd_ok lh'" "lh_blocks lh' = lh_blocks (sfs_device fs)"
      "lh_sectors lh' = dsk fs"
    using kuio.rwblock_read [of 512 "SFSUIO data b UIO_READ" "()" "unat b" fs no_user] assms by (auto simp: S)
  then have "iov_kbuf (hd (uio_iov u')) = dsk fs (unat b)"
    using kuio_out_full [OF u(2)] dsk_length [OF assms(1)] by simp
  then show ?thesis using u device_upd_ok [OF assms(1) u(4,5)] by (simp add: sfs_readblock_def fs_keep_def)
qed

lemma writeblock_ok:
  assumes "fs_ok fs" "unat b < nblk fs" "length data = 512"
  shows "\<exists>fs'. sfs_writeblock fs b data 512 = Some (None, fs') \<and> fs_keep fs fs' \<and> dsk fs' = (dsk fs)(unat b := data)"
proof -
  note S = SFSUIO_simps [OF assms(3)]
  obtain u' lh' where u: "sfs_rwblock no_user (SFSUIO data b UIO_WRITE) fs () = Some ((None, u'), fs\<lparr>sfs_device := lh'\<rparr>, ())"
      "lhd_ok lh'" "lh_blocks lh' = lh_blocks (sfs_device fs)" "lh_sectors lh' = (dsk fs)(unat b := take 512 data)"
    using kuio.rwblock_write [of 512 "SFSUIO data b UIO_WRITE" "()" "unat b" fs no_user] assms by (auto simp: S)
  then show ?thesis using device_upd_ok [OF assms(1) u(2,3)] assms(3) by (simp add: sfs_writeblock_def fs_keep_def)
qed

lemma balloc_cases:
  assumes "fs_ok fs"
  obtains (full) "sfs_balloc fs = Some (Inl ENOSPC, fs)" "fs_free fs = {}"
  | (got) b fs' where "sfs_balloc fs = Some (Inr b, fs')" "unat b \<in> fs_free fs"
      "\<forall>j \<in> fs_free fs. unat b \<le> j" "fs_free fs' = fs_free fs - {unat b}"
      "dsk fs' = (dsk fs)(unat b := replicate 512 0)" "fs_ok fs'" "fs_same fs fs'"
proof -
  note ok = fs_okD [OF assms]
  obtain r bm where bm: "bitmap_alloc (sfs_freemap fs) = Some (r, bm)" using bm.alloc_total [OF ok(2)] by blast
  from bm.alloc_some [OF ok(2) bm] show thesis
  proof (elim disjE exE conjE)
    assume "r = Inl ENOSPC" "bm = sfs_freemap fs" "fs_free fs = {}"
    then show thesis using full bm by (simp add: sfs_balloc_def)
  next
    fix b
    assume b: "r = Inr b" "unat b \<in> fs_free fs" "\<forall>j \<in> fs_free fs. unat b \<le> j"
      "bm_free bm = fs_free fs - {unat b}" "nbits bm = nbits (sfs_freemap fs)" "bm_ok bm"
    then have lt: "unat b < nblk fs" using ok(5) by auto
    define fs1 where "fs1 = fs\<lparr>sfs_freemap := bm, sfs_freemapdirty := True\<rparr>"
    have fs1: "fs_ok fs1" using assms b(4-6) by (auto simp: fs_ok_def fs1_def)
    have lt1: "unat b < nblk fs1" using lt by (simp add: fs1_def)
    obtain fs2 where fs2: "sfs_writeblock fs1 b (replicate 512 0) 512 = Some (None, fs2)" "fs_keep fs1 fs2"
        "dsk fs2 = (dsk fs1)(unat b := replicate 512 0)"
      using writeblock_ok [OF fs1 lt1, of "replicate 512 0"] by auto
    have "\<not> sb_nblocks (sfs_sb fs1) \<le> b" using lt1 by (simp add: word_le_nat_alt)
    then have "sfs_balloc fs = Some (Inr b, fs2)" using bm b(1) fs2(1)
      unfolding sfs_balloc_def sfs_clearblock_def fs1_def by (simp add: Let_def)
    then show thesis using got b fs2 by (simp add: fs_keep_def fs_same_def fs1_def)
  qed
qed

lemma bfree_ok:
  assumes "fs_ok fs" "0 < b" "unat b < nblk fs" "unat b \<notin> fs_free fs"
  shows "\<exists>fs'. sfs_bfree fs b = Some fs' \<and> fs_ok fs' \<and> fs_same fs fs' \<and> dsk fs' = dsk fs \<and>
    fs_free fs' = insert (unat b) (fs_free fs)"
proof -
  note ok = fs_okD [OF assms(1)]
  have "b < nbits (sfs_freemap fs)" using ok(4) assms(3) by (simp add: word_less_nat_alt)
  then obtain bm where "bitmap_unmark (sfs_freemap fs) b = Some bm" "bm_free bm = insert (unat b) (fs_free fs)"
      "nbits bm = nbits (sfs_freemap fs)" "bm_ok bm"
    using bm.release_spec [OF ok(2) _ assms(4)] by blast
  moreover have "0 < unat b" using assms(2) by (simp add: word_less_nat_alt)
  ultimately show ?thesis using assms ok by (auto simp: sfs_bfree_def fs_ok_def fs_same_def)
qed

lemma bused_eq: "fs_ok fs \<Longrightarrow> unat b < nblk fs \<Longrightarrow> sfs_bused fs b = Some (unat b \<notin> fs_free fs)"
  using fs_okD(2,4) [of fs] bm.used_spec [of "sfs_freemap fs" b]
  by (auto simp: sfs_bused_def word_le_nat_alt word_less_nat_alt)

lemma check_used_ok: "fs_ok fs \<Longrightarrow> unat b < nblk fs \<Longrightarrow> unat b \<notin> fs_free fs \<Longrightarrow> check_used fs b = Some ()"
  by (simp add: check_used_def bused_eq)

lemma check_used_0 [simp]: "check_used fs 0 = Some ()"
  by (simp add: check_used_def)


subsection \<open>The blocks of a file\<close>

abbreviation sv_direct :: "sfs_vnode \<Rightarrow> u32 list" where
  "sv_direct sv \<equiv> sfi_direct (sv_i sv)"

abbreviation sv_indirect :: "sfs_vnode \<Rightarrow> u32" where
  "sv_indirect sv \<equiv> sfi_indirect (sv_i sv)"

definition indtab :: "sfs_fs \<Rightarrow> sfs_vnode \<Rightarrow> u32 list" where
  "indtab fs sv = (if sv_indirect sv = 0 then replicate 128 0 else words_of 128 (dsk fs (unat (sv_indirect sv))))"

definition ftab :: "sfs_fs \<Rightarrow> sfs_vnode \<Rightarrow> u32 list" where
  "ftab fs sv = sv_direct sv @ indtab fs sv"

definition sv_blocks :: "sfs_fs \<Rightarrow> sfs_vnode \<Rightarrow> u32 set" where
  "sv_blocks fs sv = set (sv_indirect sv # ftab fs sv) - {0}"

definition sv_ok :: "sfs_fs \<Rightarrow> sfs_vnode \<Rightarrow> bool" where
  "sv_ok fs sv \<longleftrightarrow> length (sv_direct sv) = 15 \<and>
     (\<forall>i < 143. \<forall>j < 143. i \<noteq> j \<longrightarrow> ftab fs sv ! i \<noteq> 0 \<longrightarrow> ftab fs sv ! i \<noteq> ftab fs sv ! j) \<and>
     (sv_indirect sv \<noteq> 0 \<longrightarrow> sv_indirect sv \<notin> set (ftab fs sv)) \<and>
     (\<forall>b \<in> sv_blocks fs sv. unat b < nblk fs \<and> unat b \<notin> fs_free fs)"

text \<open>A file is an array of bytes; a hole reads as zeros.\<close>

definition fbyte :: "sfs_fs \<Rightarrow> sfs_vnode \<Rightarrow> nat \<Rightarrow> u8" where
  "fbyte fs sv p = (let b = ftab fs sv ! (p div 512) in if b = 0 then 0 else dsk fs (unat b) ! (p mod 512))"

abbreviation (input) max_bytes :: nat where "max_bytes \<equiv> 143 * 512"

text \<open>Nothing of the inode but its block map has changed.\<close>

definition sv_same :: "sfs_vnode \<Rightarrow> sfs_vnode \<Rightarrow> bool" where
  "sv_same sv sv' \<longleftrightarrow> sv_ino sv' = sv_ino sv \<and> sv_refcount sv' = sv_refcount sv \<and>
     sfi_size (sv_i sv') = sfi_size (sv_i sv) \<and> sfi_type (sv_i sv') = sfi_type (sv_i sv) \<and>
     sfi_linkcount (sv_i sv') = sfi_linkcount (sv_i sv) \<and> sfi_waste (sv_i sv') = sfi_waste (sv_i sv)"

text \<open>Blocks in use outside the set are not touched and stay in use.\<close>

definition fs_frame :: "u32 set \<Rightarrow> sfs_fs \<Rightarrow> sfs_fs \<Rightarrow> bool" where
  "fs_frame B fs fs' \<longleftrightarrow> (\<forall>n < nblk fs. n \<notin> fs_free fs \<longrightarrow> n \<notin> unat ` B \<longrightarrow> n \<notin> fs_free fs' \<and> dsk fs' n = dsk fs n)"

lemma sv_same_refl [simp]: "sv_same sv sv"
  by (simp add: sv_same_def)

lemma sv_same_trans: "sv_same a b \<Longrightarrow> sv_same b c \<Longrightarrow> sv_same a c"
  by (simp add: sv_same_def)

lemma length_indtab [simp]: "length (indtab fs sv) = 128"
  by (simp add: indtab_def)

lemma sv_direct_length: "sv_ok fs sv \<Longrightarrow> length (sv_direct sv) = 15"
  unfolding sv_ok_def by blast

lemma length_ftab: "sv_ok fs sv \<Longrightarrow> length (ftab fs sv) = 143"
  by (simp add: ftab_def sv_ok_def)

lemma ftab_direct: "sv_ok fs sv \<Longrightarrow> k < 15 \<Longrightarrow> ftab fs sv ! k = sv_direct sv ! k"
  by (simp add: ftab_def sv_ok_def nth_append)

lemma ftab_indirect: "sv_ok fs sv \<Longrightarrow> k < 128 \<Longrightarrow> ftab fs sv ! (15 + k) = indtab fs sv ! k"
  by (simp add: ftab_def sv_ok_def nth_append)

lemma ftab_block:
  assumes "sv_ok fs sv" "k < 143" "ftab fs sv ! k \<noteq> 0"
  shows "ftab fs sv ! k \<in> sv_blocks fs sv" "unat (ftab fs sv ! k) < nblk fs" "unat (ftab fs sv ! k) \<notin> fs_free fs"
    "ftab fs sv ! k \<noteq> sv_indirect sv"
proof -
  have "ftab fs sv ! k \<in> set (ftab fs sv)" using assms length_ftab by force
  then show "ftab fs sv ! k \<in> sv_blocks fs sv" "ftab fs sv ! k \<noteq> sv_indirect sv"
    using assms by (auto simp: sv_blocks_def sv_ok_def)
  then show "unat (ftab fs sv ! k) < nblk fs" "unat (ftab fs sv ! k) \<notin> fs_free fs"
    using assms by (auto simp: sv_ok_def)
qed

lemma indirect_block:
  assumes "sv_ok fs sv" "sv_indirect sv \<noteq> 0"
  shows "sv_indirect sv \<in> sv_blocks fs sv" "unat (sv_indirect sv) < nblk fs" "unat (sv_indirect sv) \<notin> fs_free fs"
proof -
  show "sv_indirect sv \<in> sv_blocks fs sv" using assms by (simp add: sv_blocks_def)
  then show "unat (sv_indirect sv) < nblk fs" "unat (sv_indirect sv) \<notin> fs_free fs"
    using assms by (auto simp: sv_ok_def)
qed

lemma free_new:
  assumes "fs_ok fs" "sv_ok fs sv" "unat b \<in> fs_free fs"
  shows "b \<noteq> 0" "b \<notin> sv_blocks fs sv" "unat b < nblk fs"
  using assms fs_okD(5) [OF assms(1)] by (auto simp: sv_ok_def)

text \<open>What holds of a file depends on its own blocks only.\<close>

lemma ftab_cong:
  "(sv_indirect sv \<noteq> 0 \<Longrightarrow> dsk fs' (unat (sv_indirect sv)) = dsk fs (unat (sv_indirect sv))) \<Longrightarrow>
   ftab fs' sv = ftab fs sv"
  by (simp add: ftab_def indtab_def)

lemma fs_frame_file:
  assumes "sv_ok fs sv" "fs_same fs fs'" "fs_frame B fs fs'" "unat ` sv_blocks fs sv \<inter> unat ` B = {}"
  shows "ftab fs' sv = ftab fs sv" "sv_blocks fs' sv = sv_blocks fs sv" "sv_ok fs' sv"
    "p < max_bytes \<Longrightarrow> fbyte fs' sv p = fbyte fs sv p"
proof -
  have keep: "unat b \<notin> fs_free fs' \<and> dsk fs' (unat b) = dsk fs (unat b)" if "b \<in> sv_blocks fs sv" for b
    using that assms by (fastforce simp: sv_ok_def fs_frame_def)
  show t: "ftab fs' sv = ftab fs sv" using keep indirect_block [OF assms(1)] by (blast intro: ftab_cong)
  show b: "sv_blocks fs' sv = sv_blocks fs sv" by (simp add: sv_blocks_def t)
  show "sv_ok fs' sv" using assms(1,2) keep unfolding sv_ok_def t b fs_same_nblk [OF assms(2)] by blast
  assume "p < max_bytes"
  then have "p div 512 < 143" by linarith
  then show "fbyte fs' sv p = fbyte fs sv p"
    using keep ftab_block(1) [OF assms(1), of "p div 512"] by (simp add: fbyte_def t Let_def)
qed

lemma fs_frame_trans:
  assumes "fs_frame B fs fs1" "fs_frame B fs1 fs2" "fs_same fs fs1"
  shows "fs_frame B fs fs2"
  using assms by (auto simp: fs_frame_def fs_same_def)

lemma fs_frame_mono: "fs_frame A fs fs' \<Longrightarrow> A \<subseteq> B \<Longrightarrow> fs_frame B fs fs'"
  by (auto simp: fs_frame_def)

lemma fs_frame_alloc:
  assumes "unat b \<in> fs_free fs" "fs_free fs' = fs_free fs - {unat b}" "dsk fs' = (dsk fs)(unat b := x)"
  shows "fs_frame B fs fs'"
  using assms by (auto simp: fs_frame_def)


text \<open>A new block goes into a hole of the map.\<close>

lemma install_block:
  assumes "sv_ok fs sv" "k < 143" "ftab fs sv ! k = 0" "b \<noteq> 0" "b \<notin> sv_blocks fs sv"
    and "ftab fs' sv' = (ftab fs sv)[k := b]" "length (sv_direct sv') = 15" "sv_indirect sv' = sv_indirect sv"
    and "nblk fs' = nblk fs" "\<And>c. c \<in> insert b (sv_blocks fs sv) \<Longrightarrow> unat c < nblk fs' \<and> unat c \<notin> fs_free fs'"
  shows "sv_ok fs' sv'" "sv_blocks fs' sv' = insert b (sv_blocks fs sv)"
proof -
  note len = length_ftab [OF assms(1)]
  have new: "b \<notin> set (ftab fs sv)" "b \<noteq> sv_indirect sv" using assms(4,5) by (auto simp: sv_blocks_def)
  have "set ((ftab fs sv)[k := b]) - {0} = insert b (set (ftab fs sv)) - {0}"
  proof (intro set_eqI)
    fix x
    have "x \<in> set ((ftab fs sv)[k := b]) \<longleftrightarrow> (\<exists>i < 143. x = (if i = k then b else ftab fs sv ! i))"
      by (auto simp: in_set_conv_nth len nth_list_update)
    moreover have "x \<in> set (ftab fs sv) \<longleftrightarrow> (\<exists>i < 143. x = ftab fs sv ! i)"
      by (auto simp: in_set_conv_nth len)
    ultimately show "x \<in> set ((ftab fs sv)[k := b]) - {0} \<longleftrightarrow> x \<in> insert b (set (ftab fs sv)) - {0}"
      using assms(2,3) by (auto split: if_splits)
  qed
  then show bl: "sv_blocks fs' sv' = insert b (sv_blocks fs sv)"
    using assms(4,8) by (auto simp: sv_blocks_def assms(6))
  have inj: "(ftab fs sv)[k := b] ! i \<noteq> (ftab fs sv)[k := b] ! j"
    if "i < 143" "j < 143" "i \<noteq> j" "(ftab fs sv)[k := b] ! i \<noteq> 0" for i j
  proof -
    have "b \<noteq> ftab fs sv ! n" if "n < 143" for n using new(1) that len nth_mem by metis
    then show ?thesis using that assms(1,2) len by (auto simp: sv_ok_def nth_list_update split: if_splits)
  qed
  have "sv_indirect sv \<notin> set ((ftab fs sv)[k := b])" if "sv_indirect sv \<noteq> 0"
    using that assms(1) new(2) set_update_subset_insert [of "ftab fs sv" k b] by (auto simp: sv_ok_def)
  then show "sv_ok fs' sv'" unfolding sv_ok_def bl assms(6,8)
    using assms(7,10) inj by auto
qed

lemma install_bytes:
  assumes "sv_ok fs sv" "k < 143" "ftab fs sv ! k = 0" "ftab fs' sv' = (ftab fs sv)[k := b]"
    and "dsk fs' (unat b) = replicate 512 0"
    and "\<And>j. j < 143 \<Longrightarrow> ftab fs sv ! j \<noteq> 0 \<Longrightarrow> dsk fs' (unat (ftab fs sv ! j)) = dsk fs (unat (ftab fs sv ! j))"
    and "p < max_bytes"
  shows "fbyte fs' sv' p = fbyte fs sv p"
proof -
  have "p div 512 < 143" using assms(7) by linarith
  then show ?thesis using assms(3,5,6) length_ftab [OF assms(1)]
    by (cases "p div 512 = k") (auto simp: fbyte_def assms(4) Let_def)
qed

text \<open>
  An operation on one file: it takes new blocks from the free ones only, and a block that was
  free or the file's own is free or the file's own afterwards, so none is lost.
\<close>

abbreviation file_pool :: "sfs_fs \<Rightarrow> sfs_vnode \<Rightarrow> nat set" where
  "file_pool fs sv \<equiv> unat ` sv_blocks fs sv \<union> fs_free fs"

definition file_grow :: "sfs_fs \<Rightarrow> sfs_vnode \<Rightarrow> sfs_fs \<Rightarrow> sfs_vnode \<Rightarrow> bool" where
  "file_grow fs sv fs' sv' \<longleftrightarrow> fs_ok fs' \<and> fs_same fs fs' \<and> sv_ok fs' sv' \<and>
     fs_frame (sv_blocks fs sv) fs fs' \<and> fs_free fs' \<subseteq> fs_free fs \<and>
     unat ` sv_blocks fs' sv' \<subseteq> unat ` sv_blocks fs sv \<union> fs_free fs"

definition file_step :: "sfs_fs \<Rightarrow> sfs_vnode \<Rightarrow> sfs_fs \<Rightarrow> sfs_vnode \<Rightarrow> bool" where
  "file_step fs sv fs' sv' \<longleftrightarrow> file_grow fs sv fs' sv' \<and> file_pool fs sv \<subseteq> file_pool fs' sv'"

lemma file_step_iff:
  "file_step fs sv fs' sv' \<longleftrightarrow> fs_ok fs' \<and> fs_same fs fs' \<and> sv_ok fs' sv' \<and>
     fs_frame (sv_blocks fs sv) fs fs' \<and> fs_free fs' \<subseteq> fs_free fs \<and>
     unat ` sv_blocks fs' sv' \<subseteq> unat ` sv_blocks fs sv \<union> fs_free fs \<and> file_pool fs sv \<subseteq> file_pool fs' sv'"
  by (auto simp: file_step_def file_grow_def)

lemma grow_trans: "Z \<subseteq> Y \<union> F1 \<Longrightarrow> Y \<subseteq> X \<union> F \<Longrightarrow> F1 \<subseteq> F \<Longrightarrow> Z \<subseteq> X \<union> (F :: nat set)"
  by blast

lemma file_grow_trans:
  assumes "file_grow fs sv fs1 sv1" "file_grow fs1 sv1 fs2 sv2"
  shows "file_grow fs sv fs2 sv2"
proof -
  have same: "fs_same fs fs1" "fs_same fs1 fs2" and fr: "fs_frame (sv_blocks fs sv) fs fs1" "fs_frame (sv_blocks fs1 sv1) fs1 fs2"
    and sub: "fs_free fs1 \<subseteq> fs_free fs" "fs_free fs2 \<subseteq> fs_free fs1"
      "unat ` sv_blocks fs1 sv1 \<subseteq> unat ` sv_blocks fs sv \<union> fs_free fs"
      "unat ` sv_blocks fs2 sv2 \<subseteq> unat ` sv_blocks fs1 sv1 \<union> fs_free fs1"
    and ok: "fs_ok fs2" "sv_ok fs2 sv2"
    using assms by (simp_all add: file_grow_def)
  have nb: "nblk fs1 = nblk fs" by (rule fs_same_nblk(1) [OF same(1)])
  have "fs_frame (sv_blocks fs sv) fs fs2" unfolding fs_frame_def
  proof (intro allI impI)
    fix n
    assume n: "n < nblk fs" "n \<notin> fs_free fs" "n \<notin> unat ` sv_blocks fs sv"
    then have "n \<notin> fs_free fs1" "dsk fs1 n = dsk fs n" using fr(1) by (simp_all add: fs_frame_def)
    moreover have "n \<notin> unat ` sv_blocks fs1 sv1" using sub(3) n by blast
    ultimately show "n \<notin> fs_free fs2 \<and> dsk fs2 n = dsk fs n" using fr(2) n(1) nb by (simp add: fs_frame_def)
  qed
  then show ?thesis
    using ok fs_same_trans [OF same] grow_trans [OF sub(4,3,1)] order_trans [OF sub(2,1)] by (simp add: file_grow_def)
qed

lemma file_step_trans: "file_step fs sv fs1 sv1 \<Longrightarrow> file_step fs1 sv1 fs2 sv2 \<Longrightarrow> file_step fs sv fs2 sv2"
  using file_grow_trans [of fs sv fs1 sv1 fs2 sv2] unfolding file_step_def by blast

lemma file_step_refl: "fs_ok fs \<Longrightarrow> sv_ok fs sv \<Longrightarrow> file_step fs sv fs sv"
  by (simp add: file_step_iff fs_frame_def)

lemma file_stepD:
  assumes "file_step fs sv fs' sv'"
  shows "fs_ok fs'" "sv_ok fs' sv'" "fs_same fs fs'" "nblk fs' = nblk fs"
  using assms fs_same_nblk(1) by (auto simp: file_step_iff)

text \<open>What sfs_bmap promises, whatever it returns.\<close>

definition bmap_post :: "sfs_fs \<Rightarrow> sfs_vnode \<Rightarrow> sfs_fs \<Rightarrow> sfs_vnode \<Rightarrow> bool" where
  "bmap_post fs sv fs' sv' \<longleftrightarrow> file_step fs sv fs' sv' \<and> sv_same sv sv' \<and>
     (\<forall>p < max_bytes. fbyte fs' sv' p = fbyte fs sv p)"

definition bmap_result :: "sfs_fs \<Rightarrow> sfs_vnode \<Rightarrow> nat \<Rightarrow> bool \<Rightarrow> errno + u32 \<Rightarrow> sfs_fs \<Rightarrow> sfs_vnode \<Rightarrow> bool" where
  "bmap_result fs sv k doalloc r fs' sv' \<longleftrightarrow>
     (case r of
        Inl e \<Rightarrow> ftab fs' sv' = ftab fs sv \<and>
          (if e = ENOSPC
           then k < 143 \<and> doalloc \<and> ftab fs sv ! k = 0 \<and>
             card (fs_free fs) < (if k < 15 \<or> sv_indirect sv \<noteq> 0 then 1 else 2)
           else e = EFBIG \<and> 143 \<le> k)
      | Inr b \<Rightarrow> k < 143 \<and> ftab fs' sv' = (ftab fs sv)[k := b] \<and>
          (if ftab fs sv ! k \<noteq> 0 \<or> \<not> doalloc then b = ftab fs sv ! k \<and> sv' = sv \<and> dsk fs' = dsk fs \<and> fs_free fs' = fs_free fs
           else b \<noteq> 0 \<and> unat b \<in> fs_free fs))"

lemma bmap_post_refl: "fs_ok fs \<Longrightarrow> sv_ok fs sv \<Longrightarrow> bmap_post fs sv fs sv"
  by (simp add: bmap_post_def file_step_refl)

text \<open>The state after sfs_balloc took b, before anything points to it.\<close>

lemma after_balloc:
  assumes "fs_ok fs" "sv_ok fs sv" "unat b \<in> fs_free fs" "fs_free fs' = fs_free fs - {unat b}"
    and "dsk fs' = (dsk fs)(unat b := x)" "fs_ok fs'" "fs_same fs fs'"
  shows "file_grow fs sv fs' sv" "ftab fs' sv = ftab fs sv" "sv_blocks fs' sv = sv_blocks fs sv"
    "p < max_bytes \<Longrightarrow> fbyte fs' sv p = fbyte fs sv p" "file_pool fs sv \<subseteq> insert (unat b) (file_pool fs' sv)"
proof -
  have fr: "fs_frame {} fs fs'" using assms by (intro fs_frame_alloc) auto
  note F = fs_frame_file [OF assms(2,7) fr]
  show "ftab fs' sv = ftab fs sv" "sv_blocks fs' sv = sv_blocks fs sv" using F by simp_all
  show "p < max_bytes \<Longrightarrow> fbyte fs' sv p = fbyte fs sv p" using F(4) by simp
  show "file_grow fs sv fs' sv" using F assms fs_frame_mono [OF fr] by (auto simp: file_grow_def)
  show "file_pool fs sv \<subseteq> insert (unat b) (file_pool fs' sv)" using F(2) assms(4) by auto
qed

lemma bmap_direct_spec:
  assumes "fs_ok fs" "sv_ok fs sv" "k < 15"
  shows "\<exists>r sv' fs'. bmap_direct sv k doalloc fs = Some (r, sv', fs') \<and> bmap_post fs sv fs' sv' \<and>
    bmap_result fs sv k doalloc r fs' sv'"
proof -
  have k: "k < 143" using assms(3) by simp
  have d: "k < length (sv_direct sv)" "ftab fs sv ! k = sv_direct sv ! k"
    using assms(3) sv_direct_length [OF assms(2)] ftab_direct [OF assms(2,3)] by simp_all
  show ?thesis
  proof (cases "sv_direct sv ! k = 0 \<and> doalloc")
    case False
    have "check_used fs (sv_direct sv ! k) = Some ()"
    proof (cases "sv_direct sv ! k = 0")
      case False
      then show ?thesis using ftab_block(2,3) [OF assms(2) k, unfolded d(2)] check_used_ok [OF assms(1)] by blast
    qed simp
    then have "bmap_direct sv k doalloc fs = Some (Inr (sv_direct sv ! k), sv, fs)"
      using d(1) by (simp add: bmap_direct_def if_not_P [OF False])
    moreover have "(ftab fs sv)[k := sv_direct sv ! k] = ftab fs sv"
      using list_update_id [of "ftab fs sv" k] d(2) by simp
    ultimately show ?thesis using False d k bmap_post_refl [OF assms(1,2)] by (auto simp: bmap_result_def)
  next
    case True
    from assms(1) show ?thesis
    proof (cases rule: balloc_cases)
      case full
      then have "bmap_direct sv k doalloc fs = Some (Inl ENOSPC, sv, fs)" using True d by (simp add: bmap_direct_def)
      then show ?thesis using True d k full bmap_post_refl [OF assms(1,2)] assms(3) by (simp add: bmap_result_def)
    next
      case (got b fs1)
      note new = free_new [OF assms(1,2) got(2)] and A = after_balloc [OF assms(1,2) got(2,4-7)]
      define sv1 where "sv1 = (set_inode (sfi_direct_update (\<lambda>_. (sv_direct sv)[k := b])) sv)\<lparr>sv_dirty := True\<rparr>"
      have sv1: "sv_direct sv1 = (sv_direct sv)[k := b]" "sv_indirect sv1 = sv_indirect sv" "sv_same sv sv1"
        by (simp_all add: sv1_def set_inode_def sv_same_def)
      have t: "ftab fs1 sv1 = (ftab fs sv)[k := b]"
      proof -
        have "indtab fs1 sv = indtab fs sv" using A(2) by (simp add: ftab_def)
        moreover have "indtab fs1 sv1 = indtab fs1 sv" by (simp add: indtab_def sv1)
        ultimately show ?thesis using d(1) by (simp add: ftab_def sv1 list_update_append)
      qed
      have used: "unat c < nblk fs1 \<and> unat c \<notin> fs_free fs1" if "c \<in> insert b (sv_blocks fs sv)" for c
        using that new assms(2) got(4) fs_same_nblk [OF got(7)] by (auto simp: sv_ok_def)
      note I = install_block [OF assms(2) k _ new(1,2) t _ sv1(2) fs_same_nblk(1) [OF got(7)] used]
      have ok1: "sv_ok fs1 sv1" and bl1: "sv_blocks fs1 sv1 = insert b (sv_blocks fs sv)"
        using I True d sv1(1) sv_direct_length [OF assms(2)] by simp_all
      have "dsk fs1 (unat (ftab fs sv ! j)) = dsk fs (unat (ftab fs sv ! j))" if "j < 143" "ftab fs sv ! j \<noteq> 0" for j
        using ftab_block(3) [OF assms(2) that] got(2,5) by auto
      then have bytes: "\<forall>p < max_bytes. fbyte fs1 sv1 p = fbyte fs sv p"
        using install_bytes [OF assms(2) k _ t] True d got(5) by simp
      have "check_used fs1 b = Some ()" using used check_used_ok [OF got(6)] by blast
      then have "bmap_direct sv k doalloc fs = Some (Inr b, sv1, fs1)"
        using True d got(1) by (simp add: bmap_direct_def sv1_def)
      moreover have "bmap_post fs sv fs1 sv1"
        using A(1) ok1 bytes sv1(3) bl1 got(2,4) by (auto simp: bmap_post_def file_step_iff file_grow_def)
      ultimately show ?thesis using True d k new got(2) t by (auto simp: bmap_result_def)
    qed
  qed
qed


text \<open>The indirect block: fs0 and sv0 are the state that sfs_bmap was called in.\<close>

lemma bmap_entry_spec:
  assumes "fs_ok fs" "sv_ok fs sv" "sv_indirect sv \<noteq> 0" "off < 128"
    and "idbuf = indtab fs sv"
  shows "\<exists>r sv' fs'. bmap_entry sv (sv_indirect sv) idbuf off doalloc fs = Some (r, sv', fs') \<and>
    bmap_post fs sv fs' sv' \<and> bmap_result fs sv (15 + off) doalloc r fs' sv'"
proof -
  let ?k = "15 + off" and ?id = "sv_indirect sv"
  have k: "?k < 143" using assms(4) by simp
  have d: "off < length idbuf" "ftab fs sv ! ?k = idbuf ! off"
    using assms(4,5) ftab_indirect [OF assms(2,4)] by simp_all
  note id = indirect_block [OF assms(2,3)]
  show ?thesis
  proof (cases "idbuf ! off = 0 \<and> doalloc")
    case False
    have "check_used fs (idbuf ! off) = Some ()"
    proof (cases "idbuf ! off = 0")
      case False
      then show ?thesis using ftab_block(2,3) [OF assms(2) k, unfolded d(2)] check_used_ok [OF assms(1)] by blast
    qed simp
    then have "bmap_entry sv ?id idbuf off doalloc fs = Some (Inr (idbuf ! off), sv, fs)"
      using d(1) by (simp add: bmap_entry_def if_not_P [OF False])
    moreover have "(ftab fs sv)[?k := idbuf ! off] = ftab fs sv"
      using list_update_id [of "ftab fs sv" ?k] d(2) by simp
    ultimately show ?thesis using False d k bmap_post_refl [OF assms(1,2)] by (auto simp: bmap_result_def)
  next
    case True
    from assms(1) show ?thesis
    proof (cases rule: balloc_cases)
      case full
      then have "bmap_entry sv ?id idbuf off doalloc fs = Some (Inl ENOSPC, sv, fs)" using True d by (simp add: bmap_entry_def)
      then show ?thesis using True d k full bmap_post_refl [OF assms(1,2)] assms(3) by (simp add: bmap_result_def)
    next
      case (got b fs1)
      note new = free_new [OF assms(1,2) got(2)] and A = after_balloc [OF assms(1,2) got(2,4-7)]
      have nb: "nblk fs1 = nblk fs" by (rule fs_same_nblk(1) [OF got(7)])
      have bid: "unat b \<noteq> unat ?id" using new(2) id(1) by (metis word_unat_eq_iff)
      obtain fs2 where fs2: "sfs_writeblock fs1 ?id (bytes_of (idbuf[off := b])) 512 = Some (None, fs2)"
          "fs_keep fs1 fs2" "dsk fs2 = (dsk fs1)(unat ?id := bytes_of (idbuf[off := b]))"
        using writeblock_ok [OF got(6), of ?id "bytes_of (idbuf[off := b])"] id(2) nb assms(5) by auto
      have keep2: "fs_ok fs2" "fs_same fs fs2" "fs_free fs2 = fs_free fs1" "nblk fs2 = nblk fs"
        using fs2(2) fs_same_trans [OF got(7)] nb by (auto simp: fs_keep_def fs_same_nblk)
      have t: "ftab fs2 sv = (ftab fs sv)[?k := b]"
        using fs2(3) assms(3,5) sv_direct_length [OF assms(2)] by (simp add: ftab_def indtab_def list_update_append)
      have used: "unat c < nblk fs2 \<and> unat c \<notin> fs_free fs2" if "c \<in> insert b (sv_blocks fs sv)" for c
        using that new assms(2) got(4) keep2 by (auto simp: sv_ok_def)
      note I = install_block [OF assms(2) k _ new(1,2) t sv_direct_length [OF assms(2)] refl keep2(4) used]
      have ok2: "sv_ok fs2 sv" using I(1) True d by simp
      have data: "dsk fs2 (unat (ftab fs sv ! j)) = dsk fs (unat (ftab fs sv ! j))" if "j < 143" "ftab fs sv ! j \<noteq> 0" for j
      proof -
        have "unat (ftab fs sv ! j) \<noteq> unat ?id" using ftab_block(4) [OF assms(2) that] by (metis word_unat_eq_iff)
        then show ?thesis using ftab_block(3) [OF assms(2) that] got(2,5) fs2(3) by auto
      qed
      have bytes: "\<forall>p < max_bytes. fbyte fs2 sv p = fbyte fs sv p"
        using install_bytes [OF assms(2) k _ t _ data] True d got(5) fs2(3) bid by simp
      have "fs_frame (sv_blocks fs sv) fs fs2"
        using got(2,4,5) fs2(3) keep2(3) id(1) unfolding fs_frame_def by auto
      then have post: "bmap_post fs sv fs2 sv"
        using keep2 ok2 bytes I(2) got(2,4) True d by (auto simp: bmap_post_def file_step_iff)
      have "check_used fs2 b = Some ()" using used check_used_ok [OF keep2(1)] by blast
      then have "bmap_entry sv ?id idbuf off doalloc fs = Some (Inr b, sv, fs2)"
        using True d got(1) fs2(1) by (simp add: bmap_entry_def)
      then show ?thesis using True d k new got(2) t post by (auto simp: bmap_result_def)
    qed
  qed
qed


lemma bmap_post_trans:
  assumes "bmap_post fs sv fs1 sv1" "bmap_post fs1 sv1 fs2 sv2"
  shows "bmap_post fs sv fs2 sv2"
  using assms file_step_trans [of fs sv fs1 sv1 fs2 sv2] sv_same_trans [of sv sv1 sv2]
  by (auto simp: bmap_post_def)

text \<open>A fresh block becomes the indirect block.\<close>

lemma new_indirect:
  assumes "fs_ok fs" "sv_ok fs sv" "sv_indirect sv = 0" "unat b \<in> fs_free fs" "fs_free fs1 = fs_free fs - {unat b}"
    and "dsk fs1 = (dsk fs)(unat b := replicate 512 0)" "fs_ok fs1" "fs_same fs fs1"
    and "sv1 = (set_inode (sfi_indirect_update (\<lambda>_. b)) sv)\<lparr>sv_dirty := True\<rparr>"
  shows "bmap_post fs sv fs1 sv1" "ftab fs1 sv1 = ftab fs sv" "indtab fs1 sv1 = replicate 128 0"
    "sv_blocks fs1 sv1 = insert b (sv_blocks fs sv)"
proof -
  note new = free_new [OF assms(1,2,4)] and A = after_balloc [OF assms(1,2,4-8)]
  have sv1: "sv_direct sv1 = sv_direct sv" "sv_indirect sv1 = b" "sv_same sv sv1"
    by (simp_all add: assms(9) set_inode_def sv_same_def)
  show i: "indtab fs1 sv1 = replicate 128 0" using new(1) assms(6) by (simp add: indtab_def sv1)
  then show t: "ftab fs1 sv1 = ftab fs sv" using assms(3) by (simp add: ftab_def sv1 indtab_def)
  show bl: "sv_blocks fs1 sv1 = insert b (sv_blocks fs sv)"
    using new(1) assms(3) by (auto simp: sv_blocks_def t sv1)
  have bn: "b \<notin> set (ftab fs sv)" using new(1,2) by (auto simp: sv_blocks_def)
  have used: "unat c < nblk fs1 \<and> unat c \<notin> fs_free fs1" if "c \<in> insert b (sv_blocks fs sv)" for c
    using that new assms(2,5) fs_same_nblk(1) [OF assms(8)] by (auto simp: sv_ok_def)
  have inj: "\<forall>i < 143. \<forall>j < 143. i \<noteq> j \<longrightarrow> ftab fs sv ! i \<noteq> 0 \<longrightarrow> ftab fs sv ! i \<noteq> ftab fs sv ! j"
    using assms(2) unfolding sv_ok_def by blast
  have ok: "sv_ok fs1 sv1" unfolding sv_ok_def bl t sv1(1,2)
    using sv_direct_length [OF assms(2)] inj bn used by blast
  have "fbyte fs1 sv1 p = fbyte fs sv p" if "p < max_bytes" for p
  proof -
    have "fbyte fs1 sv1 p = fbyte fs1 sv p" by (simp add: fbyte_def t A(2))
    then show ?thesis using A(4) that by simp
  qed
  then show "bmap_post fs sv fs1 sv1"
    using A(1) ok sv1(3) bl assms(4,5) by (auto simp: bmap_post_def file_step_iff file_grow_def)
qed

lemma block_index:
  assumes "\<not> unat k < 15"
  shows "unat (k - 15 :: u32) = unat k - 15" "unat ((k - 15) div 128 :: u32) = (unat k - 15) div 128"
    "unat ((k - 15) mod 128 :: u32) = (unat k - 15) mod 128"
proof -
  show 1: "unat (k - 15) = unat k - 15" using assms by (subst unat_sub_u32) (auto simp: word_le_nat_alt)
  show "unat ((k - 15) div 128) = (unat k - 15) div 128" "unat ((k - 15) mod 128) = (unat k - 15) mod 128"
    by (simp_all only: unat_div_u32 unat_mod_u32 1) simp_all
qed

theorem bmap_spec:
  assumes "fs_ok fs" "sv_ok fs sv"
  shows "\<exists>r sv' fs'. sfs_bmap sv k doalloc fs = Some (r, sv', fs') \<and> bmap_post fs sv fs' sv' \<and>
    bmap_result fs sv (unat k) doalloc r fs' sv'"
proof (cases "unat k < 15")
  case True
  then show ?thesis using bmap_direct_spec [OF assms True, of doalloc] by (simp add: sfs_bmap_def)
next
  case False
  note ix = block_index [OF False]
  define off where "off = (unat k - 15) mod 128"
  show ?thesis
  proof (cases "(unat k - 15) div 128 \<ge> 1")
    case True
    then have "143 \<le> unat k" by linarith
    moreover have "sfs_bmap sv k doalloc fs = Some (Inl EFBIG, sv, fs)"
      using False True by (simp add: sfs_bmap_def Let_def ix)
    ultimately show ?thesis using bmap_post_refl [OF assms] by (simp add: bmap_result_def)
  next
    case small: False
    then have "unat k - 15 < 128" by linarith
    then have k: "unat k = 15 + off" "off < 128" using False by (simp_all add: off_def)
    have run: "sfs_bmap sv k doalloc fs =
      (if sv_indirect sv = 0 \<and> \<not> doalloc then Some (Inr 0, sv, fs)
       else if sv_indirect sv = 0
         then do {
           (r, fs1) \<leftarrow> sfs_balloc fs;
           (case r of
              Inl e \<Rightarrow> Some (Inl e, sv, fs1)
            | Inr idblock \<Rightarrow>
                (let sv1 = (set_inode (sfi_indirect_update (\<lambda>_. idblock)) sv)\<lparr>sv_dirty := True\<rparr> in
                 bmap_entry sv1 idblock (replicate SFS_DBPERIDB 0) off doalloc fs1))
         }
         else do {
           ((r, bs), fs1) \<leftarrow> sfs_readblock fs (sv_indirect sv) (replicate 512 0) SFS_BLOCKSIZE;
           (case r of
              Some e \<Rightarrow> Some (Inl e, sv, fs1)
            | None \<Rightarrow> bmap_entry sv (sv_indirect sv) (words_of SFS_DBPERIDB bs) off doalloc fs1)
         })"
      unfolding sfs_bmap_def Let_def ix off_def [symmetric] if_not_P [OF False] if_not_P [OF small] ..
    consider (hole) "sv_indirect sv = 0" "\<not> doalloc" | (fresh) "sv_indirect sv = 0" doalloc
      | (there) "sv_indirect sv \<noteq> 0" by blast
    then show ?thesis
    proof cases
      case hole
      then have "ftab fs sv ! unat k = 0" using ftab_indirect [OF assms(2) k(2)] k by (simp add: indtab_def)
      then show ?thesis using hole run k bmap_post_refl [OF assms] list_update_id [of "ftab fs sv" "unat k"]
        by (simp add: bmap_result_def)
    next
      case there
      note id = indirect_block [OF assms(2) there]
      obtain fs1 where fs1: "sfs_readblock fs (sv_indirect sv) (replicate 512 0) 512 = Some ((None, dsk fs (unat (sv_indirect sv))), fs1)"
          "fs_keep fs fs1" "dsk fs1 = dsk fs"
        using readblock_ok [OF assms(1) id(2), of "replicate 512 0"] by auto
      have k1: "fs_ok fs1" "fs_same fs fs1" "fs_free fs1 = fs_free fs" using fs1(2) by (simp_all add: fs_keep_def)
      have fr: "fs_frame {} fs fs1" using k1 fs1(3) by (simp add: fs_frame_def)
      have "unat ` sv_blocks fs sv \<inter> unat ` {} = {}" by simp
      note F = fs_frame_file [OF assms(2) k1(2) fr this]
      have post1: "bmap_post fs sv fs1 sv"
        using k1 F fs_frame_mono [OF fr] by (auto simp: bmap_post_def file_step_iff)
      have "words_of 128 (dsk fs (unat (sv_indirect sv))) = indtab fs1 sv" using there fs1(3) by (simp add: indtab_def)
      from bmap_entry_spec [OF k1(1) _ there k(2) this, of doalloc] F
      obtain r sv' fs' where e: "bmap_entry sv (sv_indirect sv) (words_of 128 (dsk fs (unat (sv_indirect sv)))) off doalloc fs1 =
          Some (r, sv', fs')" "bmap_post fs1 sv fs' sv'" "bmap_result fs1 sv (15 + off) doalloc r fs' sv'" by auto
      have "sfs_bmap sv k doalloc fs = Some (r, sv', fs')" using run there fs1(1) e(1) by simp
      moreover have "bmap_post fs sv fs' sv'" by (rule bmap_post_trans [OF post1 e(2)])
      moreover have "bmap_result fs sv (unat k) doalloc r fs' sv'"
        using e(3) unfolding bmap_result_def k(1) F(1) fs1(3) k1(3) .
      ultimately show ?thesis by blast
    next
      case fresh
      from assms(1) show ?thesis
      proof (cases rule: balloc_cases)
        case full
        moreover have "ftab fs sv ! (15 + off) = 0" using ftab_indirect [OF assms(2) k(2)] k fresh by (simp add: indtab_def)
        ultimately show ?thesis using fresh run k bmap_post_refl [OF assms] by (simp add: bmap_result_def)
      next
        case (got b fs1)
        define sv1 where "sv1 = (set_inode (sfi_indirect_update (\<lambda>_. b)) sv)\<lparr>sv_dirty := True\<rparr>"
        note N = new_indirect [OF assms fresh(1) got(2,4-7) sv1_def] and new = free_new [OF assms got(2)]
        have i1: "sv_indirect sv1 = b" by (simp add: sv1_def set_inode_def)
        have fs1: "fs_ok fs1" "sv_ok fs1 sv1" using N(1) by (simp_all add: bmap_post_def file_step_iff)
        from bmap_entry_spec [OF fs1 _ k(2) N(3) [symmetric], of doalloc] new(1) i1
        obtain r sv' fs' where e: "bmap_entry sv1 b (replicate 128 0) off doalloc fs1 = Some (r, sv', fs')"
          "bmap_post fs1 sv1 fs' sv'" "bmap_result fs1 sv1 (15 + off) doalloc r fs' sv'" by auto
        have "sfs_bmap sv k doalloc fs = Some (r, sv', fs')" using run fresh got(1) e(1) by (simp add: Let_def sv1_def)
        moreover have "bmap_post fs sv fs' sv'" by (rule bmap_post_trans [OF N(1) e(2)])
        moreover have "bmap_result fs sv (unat k) doalloc r fs' sv'"
        proof -
          have hole: "ftab fs sv ! (15 + off) = 0"
            using ftab_indirect [OF assms(2) k(2)] k(2) fresh(1) by (simp add: indtab_def)
          have fin: "finite (fs_free fs)" by (rule bm.free_finite)
          have less: "card (fs_free fs) < 2" if "card (fs_free fs1) < 1"
            using that got(2,4) fin by (simp add: card_Diff_singleton)
          show ?thesis
          proof (cases r)
            case (Inl x)
            then show ?thesis using e(3) less fresh(1,2) new(1) hole k
              by (auto simp: bmap_result_def N(2) i1 split: if_splits)
          next
            case (Inr c)
            then show ?thesis using e(3) fresh(2) got(4) hole k by (auto simp: bmap_result_def N(2))
          qed
        qed
        ultimately show ?thesis by blast
      qed
    qed
  qed
qed


text \<open>The two uses of sfs_bmap: for writing and for reading.\<close>

lemma bmap_alloc_cases:
  assumes "fs_ok fs" "sv_ok fs sv"
  obtains (error) e sv' fs' where "sfs_bmap sv k True fs = Some (Inl e, sv', fs')" "bmap_post fs sv fs' sv'"
      "e = EFBIG \<and> 143 \<le> unat k \<or> e = ENOSPC \<and> unat k < 143 \<and> card (fs_free fs) < 2"
  | (block) b sv' fs' where "sfs_bmap sv k True fs = Some (Inr b, sv', fs')" "bmap_post fs sv fs' sv'"
      "unat k < 143" "ftab fs' sv' ! unat k = b" "b \<noteq> 0"
proof -
  obtain r sv' fs' where r: "sfs_bmap sv k True fs = Some (r, sv', fs')" "bmap_post fs sv fs' sv'"
      "bmap_result fs sv (unat k) True r fs' sv'"
    using bmap_spec [OF assms, of k True] by blast
  show thesis
  proof (cases r)
    case (Inl e)
    then show thesis using error [of e sv' fs'] r by (auto simp: bmap_result_def split: if_splits)
  next
    case (Inr b)
    then show thesis using block [of b sv' fs'] r length_ftab [OF assms(2)]
      by (auto simp: bmap_result_def split: if_splits)
  qed
qed

lemma bmap_lookup:
  assumes "fs_ok fs" "sv_ok fs sv" "unat k < 143"
  shows "\<exists>fs'. sfs_bmap sv k False fs = Some (Inr (ftab fs sv ! unat k), sv, fs') \<and> bmap_post fs sv fs' sv \<and>
    dsk fs' = dsk fs \<and> fs_free fs' = fs_free fs \<and> ftab fs' sv = ftab fs sv"
proof -
  obtain r sv' fs' where r: "sfs_bmap sv k False fs = Some (r, sv', fs')" "bmap_post fs sv fs' sv'"
      "bmap_result fs sv (unat k) False r fs' sv'"
    using bmap_spec [OF assms(1,2), of k False] by blast
  have "r = Inr (ftab fs sv ! unat k) \<and> sv' = sv \<and> dsk fs' = dsk fs \<and> fs_free fs' = fs_free fs"
    using r(3) assms(3) by (auto simp: bmap_result_def split: sum.splits if_splits)
  moreover from this have "ftab fs' sv = ftab fs sv" by (intro ftab_cong) simp
  ultimately show ?thesis using r by auto
qed

text \<open>Overwriting a data block of the file.\<close>

lemma data_write:
  assumes "sv_ok fs sv" "k < 143" "ftab fs sv ! k \<noteq> 0"
    and "fs_keep fs fs'" "dsk fs' = (dsk fs)(unat (ftab fs sv ! k) := bs)"
  shows "file_step fs sv fs' sv" "ftab fs' sv = ftab fs sv"
    "p < max_bytes \<Longrightarrow> fbyte fs' sv p = (if p div 512 = k then bs ! (p mod 512) else fbyte fs sv p)"
proof -
  let ?b = "ftab fs sv ! k"
  note K = assms(4) [unfolded fs_keep_def] and B = ftab_block [OF assms(1-3)]
  have "unat ?b \<noteq> unat (sv_indirect sv)" using B(4) by (metis word_unat_eq_iff)
  then show t: "ftab fs' sv = ftab fs sv" by (intro ftab_cong) (simp add: assms(5))
  then have bl: "sv_blocks fs' sv = sv_blocks fs sv" by (simp add: sv_blocks_def)
  have ok: "sv_ok fs' sv" using assms(1) K fs_same_nblk(1) unfolding sv_ok_def bl t by auto
  have "fs_frame (sv_blocks fs sv) fs fs'" using K B(1) assms(5) by (auto simp: fs_frame_def)
  then show "file_step fs sv fs' sv" using K ok by (simp add: file_step_iff bl)
  assume p: "p < max_bytes"
  show "fbyte fs' sv p = (if p div 512 = k then bs ! (p mod 512) else fbyte fs sv p)"
  proof (cases "p div 512 = k")
    case True
    then show ?thesis using assms(3,5) by (simp add: fbyte_def t)
  next
    case False
    have "p div 512 < 143" using p by linarith
    then have "ftab fs sv ! (p div 512) \<noteq> ?b" if "ftab fs sv ! (p div 512) \<noteq> 0"
      using that False assms(1,2) unfolding sv_ok_def by blast
    then show ?thesis using False assms(5) by (auto simp: fbyte_def t Let_def word_unat_eq_iff)
  qed
qed

end
