(* ===== verification/Sfsio.thy ===== *)
theory Sfsio
  imports Sfsmap
begin

text \<open>
  Reading and writing the files of an SFS volume: the file-level part of
  kern/fs/sfs/sfs_io.c. A transfer is cut into a partial first block, whole blocks and a
  partial last block. The main lemmas say that on a disk without errors sfs_io is a read or
  a write of a range of the array of bytes that is the file (fbyte), for any uio that obeys
  the contract uio_stream.
\<close>

type_synonym 'm io_result = "((status \<times> uio) \<times> sfs_vnode \<times> sfs_fs \<times> 'm) option"

definition fileblock_of :: "int \<Rightarrow> u32" where
  "fileblock_of off = word_of_int (off sdiv 512)"

definition sfs_partialio ::
  "'m umem \<Rightarrow> sfs_vnode \<Rightarrow> uio \<Rightarrow> u32 \<Rightarrow> u32 \<Rightarrow> sfs_fs \<Rightarrow> 'm \<Rightarrow> 'm io_result" where
  "sfs_partialio um sv u skipstart len fs m = do {
     let doalloc = (uio_rw u = UIO_WRITE);
     kassert (skipstart + len \<le> 512);
     let fileblock = fileblock_of (uio_offset u);
     (r, sv1, fs1) \<leftarrow> sfs_bmap sv fileblock doalloc fs;
     (case r of
        Inl e \<Rightarrow> Some ((Some e, u), sv1, fs1, m)
      | Inr diskblock \<Rightarrow> do {
          ((r1, iobuf), fs2) \<leftarrow>
            (if diskblock = 0
             then do { kassert (uio_rw u = UIO_READ); Some ((None, replicate 512 0), fs1) }
             else sfs_readblock fs1 diskblock (replicate 512 0) SFS_BLOCKSIZE);
          (case r1 of
             Some e \<Rightarrow> Some ((Some e, u), sv1, fs2, m)
           | None \<Rightarrow> do {
               ((r2, part, u1), m1) \<leftarrow> uiomove um (drop (unat skipstart) iobuf) len u m;
               let iobuf1 = take (unat skipstart) iobuf @ part;
               (case r2 of
                  Some e \<Rightarrow> Some ((Some e, u1), sv1, fs2, m1)
                | None \<Rightarrow>
                    if uio_rw u1 = UIO_WRITE
                    then do {
                      (r3, fs3) \<leftarrow> sfs_writeblock fs2 diskblock iobuf1 SFS_BLOCKSIZE;
                      Some ((r3, u1), sv1, fs3, m1)
                    }
                    else Some ((None, u1), sv1, fs2, m1))
             })
        })
   }"

text \<open>The multiplication for diskoff is one of 32-bit unsigned integers.\<close>

definition sfs_blockio :: "'m umem \<Rightarrow> sfs_vnode \<Rightarrow> uio \<Rightarrow> sfs_fs \<Rightarrow> 'm \<Rightarrow> 'm io_result" where
  "sfs_blockio um sv u fs m = do {
     let doalloc = (uio_rw u = UIO_WRITE);
     let fileblock = fileblock_of (uio_offset u);
     (r, sv1, fs1) \<leftarrow> sfs_bmap sv fileblock doalloc fs;
     (case r of
        Inl e \<Rightarrow> Some ((Some e, u), sv1, fs1, m)
      | Inr diskblock \<Rightarrow>
          if diskblock = 0
          then do {
            kassert (uio_rw u = UIO_READ);
            ((r1, u1), m1) \<leftarrow> uiomovezeros um 512 u m;
            Some ((r1, u1), sv1, fs1, m1)
          }
          else do {
            let saveoff = uio_offset u;
            let diskoff = int (unat (diskblock * 512));
            kassert (uio_resid u \<ge> 512);
            let saveres = int (unat (uio_resid u));
            let diskres = 512;
            ((r1, u1), fs2, m1) \<leftarrow> sfs_rwblock um (u\<lparr>uio_offset := diskoff, uio_resid := 512\<rparr>) fs1 m;
            Some ((r1, u1\<lparr>uio_offset := (uio_offset u1 - diskoff) + saveoff,
                         uio_resid := word_of_int ((int (unat (uio_resid u1)) - diskres) + saveres)\<rparr>), sv1, fs2, m1)
          })
   }"

fun blockio_loop :: "'m umem \<Rightarrow> nat \<Rightarrow> sfs_vnode \<Rightarrow> uio \<Rightarrow> sfs_fs \<Rightarrow> 'm \<Rightarrow> 'm io_result" where
  "blockio_loop um 0 sv u fs m = Some ((None, u), sv, fs, m)"
| "blockio_loop um (Suc n) sv u fs m = do {
     ((r, u1), sv1, fs1, m1) \<leftarrow> sfs_blockio um sv u fs m;
     (case r of
        Some e \<Rightarrow> Some ((Some e, u1), sv1, fs1, m1)
      | None \<Rightarrow> blockio_loop um n sv1 u1 fs1 m1)
   }"

text \<open>The three phases of sfs_io, up to the label out.\<close>

definition io_tail :: "'m umem \<Rightarrow> sfs_vnode \<Rightarrow> uio \<Rightarrow> sfs_fs \<Rightarrow> 'm \<Rightarrow> 'm io_result" where
  "io_tail um sv u fs m = do {
     kassert (uio_resid u < 512);
     if uio_resid u > 0 then sfs_partialio um sv u 0 (uio_resid u) fs m
     else Some ((None, u), sv, fs, m)
   }"

definition io_rest :: "'m umem \<Rightarrow> sfs_vnode \<Rightarrow> uio \<Rightarrow> sfs_fs \<Rightarrow> 'm \<Rightarrow> 'm io_result" where
  "io_rest um sv u fs m =
     (if uio_resid u = 0 then Some ((None, u), sv, fs, m)
      else do {
        kassert (uio_offset u smod 512 = 0);
        let nblocks = uio_resid u div 512;
        ((r, u1), sv1, fs1, m1) \<leftarrow> blockio_loop um (unat nblocks) sv u fs m;
        (case r of
           Some e \<Rightarrow> Some ((Some e, u1), sv1, fs1, m1)
         | None \<Rightarrow> io_tail um sv1 u1 fs1 m1)
      })"

definition io_skip :: "uio \<Rightarrow> u32" where
  "io_skip u = word_of_int (uio_offset u smod 512)"

definition io_len :: "uio \<Rightarrow> u32" where
  "io_len u = (let len = 512 - io_skip u in if len > uio_resid u then uio_resid u else len)"

definition io_phases :: "'m umem \<Rightarrow> sfs_vnode \<Rightarrow> uio \<Rightarrow> sfs_fs \<Rightarrow> 'm \<Rightarrow> 'm io_result" where
  "io_phases um sv u fs m =
     (if io_skip u \<noteq> 0
      then do {
        ((r, u1), sv1, fs1, m1) \<leftarrow> sfs_partialio um sv u (io_skip u) (io_len u) fs m;
        (case r of
           Some e \<Rightarrow> Some ((Some e, u1), sv1, fs1, m1)
         | None \<Rightarrow> io_rest um sv1 u1 fs1 m1)
      }
      else io_rest um sv u fs m)"

text \<open>How far a read would go past the end of the file.\<close>

definition extraresid :: "sfs_vnode \<Rightarrow> uio \<Rightarrow> u32" where
  "extraresid sv u =
     (let sz = int (unat (sfi_size (sv_i sv))); endpos = uio_offset u + int (unat (uio_resid u)) in
      if uio_rw u = UIO_READ \<and> endpos > sz then word_of_int (endpos - sz) else 0)"

definition sfs_io :: "'m umem \<Rightarrow> sfs_vnode \<Rightarrow> uio \<Rightarrow> sfs_fs \<Rightarrow> 'm \<Rightarrow> 'm io_result" where
  "sfs_io um sv u fs m =
     (let origresid = uio_resid u;
          sz = int (unat (sfi_size (sv_i sv)));
          endpos = uio_offset u + int (unat (uio_resid u)) in
      if uio_rw u = UIO_READ \<and> uio_offset u \<ge> sz then Some ((None, u), sv, fs, m)
      else do {
        let extra = extraresid sv u;
        kassert (uio_rw u = UIO_READ \<and> endpos > sz \<longrightarrow> uio_resid u > extra);
        ((r, u1), sv1, fs1, m1) \<leftarrow> io_phases um sv (u\<lparr>uio_resid := uio_resid u - extra\<rparr>) fs m;
        let sv2 = (if uio_resid u1 \<noteq> origresid \<and> uio_rw u1 = UIO_WRITE \<and>
                      uio_offset u1 > int (unat (sfi_size (sv_i sv1)))
                   then (set_inode (sfi_size_update (\<lambda>_. word_of_int (uio_offset u1))) sv1)\<lparr>sv_dirty := True\<rparr>
                   else sv1);
        Some ((r, u1\<lparr>uio_resid := uio_resid u1 + extra\<rparr>), sv2, fs1, m1)
      })"

text \<open>Metadata: a range of bytes inside one block, read into or written from a kernel buffer.\<close>

definition sfs_metaio ::
  "sfs_vnode \<Rightarrow> int \<Rightarrow> u8 list \<Rightarrow> nat \<Rightarrow> uio_rw \<Rightarrow> sfs_fs \<Rightarrow> ((status \<times> u8 list) \<times> sfs_vnode \<times> sfs_fs) option" where
  "sfs_metaio sv actualpos data len rw fs = do {
     let vnblock = fileblock_of actualpos;
     let blockoffset = unat (word_of_int (actualpos smod 512) :: u32);
     (r, sv1, fs1) \<leftarrow> sfs_bmap sv vnblock (rw = UIO_WRITE) fs;
     (case r of
        Inl e \<Rightarrow> Some ((Some e, data), sv1, fs1)
      | Inr diskblock \<Rightarrow>
          if diskblock = 0
          then do {
            kassert (rw = UIO_READ);
            Some ((None, replicate len 0), sv1, fs1)
          }
          else do {
            ((r1, buf), fs2) \<leftarrow> sfs_readblock fs1 diskblock (replicate 512 0) SFS_BLOCKSIZE;
            (case r1 of
               Some e \<Rightarrow> Some ((Some e, data), sv1, fs2)
             | None \<Rightarrow>
                 if rw = UIO_READ
                 then do {
                   bs \<leftarrow> buf_take buf blockoffset len;
                   Some ((None, bs), sv1, fs2)
                 }
                 else do {
                   buf1 \<leftarrow> buf_put buf blockoffset (take len data);
                   (r2, fs3) \<leftarrow> sfs_writeblock fs2 diskblock buf1 SFS_BLOCKSIZE;
                   (case r2 of
                      Some e \<Rightarrow> Some ((Some e, data), sv1, fs3)
                    | None \<Rightarrow>
                        (let endpos = actualpos + int len in
                         Some ((None, data),
                           if endpos > int (unat (sfi_size (sv_i sv1)))
                           then (set_inode (sfi_size_update (\<lambda>_. word_of_int endpos)) sv1)\<lparr>sv_dirty := True\<rparr>
                           else sv1, fs3)))
                 })
          })
   }"


subsection \<open>Ranges of a file\<close>

text \<open>Writing bs at offset x, and nowhere else.\<close>

definition file_upd :: "sfs_fs \<Rightarrow> sfs_vnode \<Rightarrow> sfs_fs \<Rightarrow> sfs_vnode \<Rightarrow> nat \<Rightarrow> u8 list \<Rightarrow> bool" where
  "file_upd fs sv fs' sv' x bs \<longleftrightarrow> file_step fs sv fs' sv' \<and> sv_same sv sv' \<and>
     (\<forall>p < max_bytes. fbyte fs' sv' p = (if x \<le> p \<and> p < x + length bs then bs ! (p - x) else fbyte fs sv p))"

definition file_range :: "sfs_fs \<Rightarrow> sfs_vnode \<Rightarrow> nat \<Rightarrow> nat \<Rightarrow> u8 list" where
  "file_range fs sv x n = map (fbyte fs sv) [x..<x + n]"

lemma length_file_range [simp]: "length (file_range fs sv x n) = n"
  by (simp add: file_range_def)

lemma file_upd_Nil: "file_upd fs sv fs' sv' x [] \<longleftrightarrow> bmap_post fs sv fs' sv'"
  by (auto simp: file_upd_def bmap_post_def)

lemma file_upd_refl: "fs_ok fs \<Longrightarrow> sv_ok fs sv \<Longrightarrow> file_upd fs sv fs sv x []"
  by (simp add: file_upd_Nil bmap_post_refl)

lemma file_updD:
  assumes "file_upd fs sv fs' sv' x bs"
  shows "fs_ok fs'" "sv_ok fs' sv'" "fs_same fs fs'" "sv_same sv sv'" "file_step fs sv fs' sv'"
  using assms file_stepD by (auto simp: file_upd_def)

lemma file_upd_append:
  assumes "file_upd fs sv fs1 sv1 x as" "file_upd fs1 sv1 fs2 sv2 (x + length as) bs"
  shows "file_upd fs sv fs2 sv2 x (as @ bs)"
proof -
  have "fbyte fs2 sv2 p = (if x \<le> p \<and> p < x + length (as @ bs) then (as @ bs) ! (p - x) else fbyte fs sv p)"
    if "p < max_bytes" for p
    using assms that unfolding file_upd_def by (auto simp: nth_append)
  then show ?thesis using assms file_step_trans sv_same_trans unfolding file_upd_def by blast
qed

lemma fileblock_of_nat:
  assumes "x div 512 < 4294967296"
  shows "unat (fileblock_of (int x)) = x div 512"
proof -
  have "int x sdiv 512 = int (x div 512)" by (auto simp: signed_divide_int_def sgn_if zdiv_int)
  then show ?thesis using assms by (simp add: fileblock_of_def unat_of_nat_u32)
qed

lemma smod_of_nat: "int x smod 512 = int (x mod 512)"
  by (auto simp: signed_modulo_int_def sgn_if zmod_int)

lemma file_range_upd:
  assumes "file_upd fs sv fs' sv' x bs" "x + length bs \<le> max_bytes"
  shows "file_range fs' sv' x (length bs) = bs"
  using assms by (intro nth_equalityI) (auto simp: file_range_def file_upd_def)

lemma file_range_append: "file_range fs sv x (n + k) = file_range fs sv x n @ file_range fs sv (x + n) k"
  unfolding file_range_def add.assoc [symmetric] by (subst upt_add_eq_append) simp_all

text \<open>A range inside one block is a piece of the block.\<close>

lemma file_range_block:
  assumes "fs_ok fs" "ftab fs sv ! k \<noteq> 0" "s + n \<le> 512"
  shows "file_range fs sv (512 * k + s) n = take n (drop s (dsk fs (unat (ftab fs sv ! k))))"
proof (rule nth_equalityI)
  show "length (file_range fs sv (512 * k + s) n) = length (take n (drop s (dsk fs (unat (ftab fs sv ! k)))))"
    using assms dsk_length [OF assms(1)] by simp
  fix i
  assume "i < length (file_range fs sv (512 * k + s) n)"
  then have i: "s + i < 512" "i < n" using assms(3) by simp_all
  then have "(512 * k + s + i) div 512 = k" "(512 * k + s + i) mod 512 = s + i" by (simp_all add: add.assoc)
  then show "file_range fs sv (512 * k + s) n ! i = take n (drop s (dsk fs (unat (ftab fs sv ! k)))) ! i"
    using i assms(2) dsk_length [OF assms(1)] by (simp add: file_range_def fbyte_def)
qed

lemma file_range_hole:
  assumes "ftab fs sv ! k = 0" "s + n \<le> 512"
  shows "file_range fs sv (512 * k + s) n = replicate n 0"
proof (rule nth_equalityI)
  fix i
  assume "i < length (file_range fs sv (512 * k + s) n)"
  then have i: "s + i < 512" "i < n" using assms(2) by simp_all
  then have "(512 * k + s + i) div 512 = k" by (simp add: add.assoc)
  then show "file_range fs sv (512 * k + s) n ! i = replicate n 0 ! i"
    using i assms(1) by (simp add: file_range_def fbyte_def)
qed simp

text \<open>Putting bytes into a block.\<close>

lemma splice_nth:
  assumes "length buf = 512" "s + length bs \<le> 512" "i < 512"
  shows "(take s buf @ bs @ drop (s + length bs) buf) ! i = (if s \<le> i \<and> i < s + length bs then bs ! (i - s) else buf ! i)"
  using assms by (auto simp: nth_append min_def)

lemma data_splice:
  assumes "fs_ok fs" "sv_ok fs sv" "k < 143" "ftab fs sv ! k \<noteq> 0" "s + length bs \<le> 512" "fs_keep fs fs'"
    and "dsk fs' = (dsk fs)(unat (ftab fs sv ! k) :=
      take s (dsk fs (unat (ftab fs sv ! k))) @ bs @ drop (s + length bs) (dsk fs (unat (ftab fs sv ! k))))"
  shows "file_upd fs sv fs' sv (512 * k + s) bs"
proof -
  note W = data_write [OF assms(2,3,4,6,7)] and len = dsk_length [OF assms(1)]
  have "fbyte fs' sv p = (if 512 * k + s \<le> p \<and> p < 512 * k + s + length bs then bs ! (p - (512 * k + s)) else fbyte fs sv p)"
    if p: "p < max_bytes" for p
  proof (cases "p div 512 = k")
    case True
    then have "p = 512 * k + p mod 512" by (metis mult_div_mod_eq)
    then obtain i where i: "i < 512" "p = 512 * k + i" "p mod 512 = i" by (metis mod_less_divisor zero_less_numeral)
    have "fbyte fs sv p = dsk fs (unat (ftab fs sv ! k)) ! i" using assms(4) True i(3) by (simp add: fbyte_def)
    moreover have "fbyte fs' sv p = (if s \<le> i \<and> i < s + length bs then bs ! (i - s)
        else dsk fs (unat (ftab fs sv ! k)) ! i)"
      using W(3) [OF p] True splice_nth [OF len assms(5) i(1)] i(3) by simp
    moreover have "512 * k + s \<le> p \<and> p < 512 * k + s + length bs \<longleftrightarrow> s \<le> i \<and> i < s + length bs"
      "p - (512 * k + s) = i - s" using i(2) by auto
    ultimately show ?thesis by simp
  next
    case False
    then have "\<not> (512 * k + s \<le> p \<and> p < 512 * k + s + length bs)" using assms(5) by auto
    then show ?thesis using W(3) [OF p] False by (simp only: if_False)
  qed
  then show ?thesis using W(1) by (simp add: file_upd_def)
qed


text \<open>The first phase of sfs_io: the unaligned start, and how far it goes.\<close>

lemma io_first_piece:
  assumes "uio_offset u = int x"
  shows "unat (io_skip u) = x mod 512" "unat (io_skip u) + unat (io_len u) \<le> 512" "io_len u \<le> uio_resid u"
    "unat (io_len u) \<le> unat (uio_resid u)" "0 < uio_resid u \<Longrightarrow> 0 < io_len u"
    "(x + unat (io_len u)) mod 512 = 0 \<or> unat (io_len u) = unat (uio_resid u)"
proof -
  obtain q t where qt: "x = 512 * q + t" "t < 512" "x mod 512 = t"
    by (metis mod_less_divisor mult_div_mod_eq zero_less_numeral)
  have skip: "unat (io_skip u) = t"
  proof -
    have "io_skip u = of_nat t" by (simp add: io_skip_def assms smod_of_nat qt(3))
    then show ?thesis using qt(2) unat_of_nat_u32 [of t] by simp
  qed
  then have "unat (512 - io_skip u) = 512 - t" using qt(2) by (simp add: unat_sub_u32 word_le_nat_alt)
  then have len: "unat (io_len u) = min (512 - t) (unat (uio_resid u))"
    by (auto simp: io_len_def Let_def word_less_nat_alt min_def)
  show "unat (io_skip u) = x mod 512" using skip qt(3) by simp
  show "unat (io_skip u) + unat (io_len u) \<le> 512" "io_len u \<le> uio_resid u" "unat (io_len u) \<le> unat (uio_resid u)"
    "0 < uio_resid u \<Longrightarrow> 0 < io_len u" "(x + unat (io_len u)) mod 512 = 0 \<or> unat (io_len u) = unat (uio_resid u)"
    using skip len qt(2)
    by (cases "512 - t \<le> unat (uio_resid u)"; simp add: qt(1) word_le_nat_alt word_less_nat_alt min_def)+
qed

subsection \<open>Writing\<close>

text \<open>The errors of a write: no room on the volume, or past the largest file.\<close>

definition io_error :: "errno \<Rightarrow> sfs_fs \<Rightarrow> nat \<Rightarrow> bool" where
  "io_error e fs x \<longleftrightarrow> e = EFBIG \<and> max_bytes \<le> x \<or> e = ENOSPC \<and> card (fs_free fs) < 2"

lemma fewer_free:
  assumes "bmap_post fs sv fs' sv'"
  shows "card (fs_free fs') \<le> card (fs_free fs)"
  using assms card_mono [OF bm.free_finite] by (simp add: bmap_post_def file_step_iff)

lemma splice_piece:
  assumes "length buf = 512" "s + n \<le> 512" "length bs = n"
  shows "take s buf @ bs @ drop n (drop s buf) = take s buf @ bs @ drop (s + length bs) buf"
    "length (take s buf @ bs @ drop (s + length bs) buf) = 512"
  using assms by (auto simp: add.commute min_def)

context uio_stream
begin

definition wrote :: "uio \<Rightarrow> 'm \<Rightarrow> nat \<Rightarrow> uio \<Rightarrow> 'm \<Rightarrow> bool" where
  "wrote u m n u' m' \<longleftrightarrow> ok u' m' \<and> uio_moved u (of_nat n) u' \<and> n \<le> unat (uio_resid u) \<and> room u' m' = room u m - n \<and>
     src u' m' = drop n (src u m)"

lemma wrote_0: "ok u m \<Longrightarrow> wrote u m 0 u m"
  by (simp add: wrote_def)

lemma partial_write:
  assumes "fs_ok fs" "sv_ok fs sv" "ok u m" "uio_rw u = UIO_WRITE" "uio_offset u = int x" "x div 512 < 4294967296"
    and "unat skip = x mod 512" "unat skip + unat len \<le> 512" "unat len \<le> room u m" "len \<le> uio_resid u"
  shows "\<exists>r u' sv' fs' m' n. sfs_partialio um sv u skip len fs m = Some ((r, u'), sv', fs', m') \<and>
    wrote u m n u' m' \<and> file_upd fs sv fs' sv' x (take n (src u m)) \<and>
    (case r of None \<Rightarrow> n = unat len \<and> x div 512 < 143 | Some e \<Rightarrow> n = 0 \<and> io_error e fs' x)"
proof -
  have blk: "unat (fileblock_of (uio_offset u)) = x div 512" using assms(5,6) fileblock_of_nat by simp
  have guard: "skip + len \<le> 512"
    using assms(8) unat_add_u32 [of skip len] by (simp add: word_le_nat_alt)
  from assms(1,2) show ?thesis
  proof (cases rule: bmap_alloc_cases [where k = "fileblock_of (uio_offset u)"])
    case (error e sv1 fs1)
    then have "sfs_partialio um sv u skip len fs m = Some ((Some e, u), sv1, fs1, m)"
      using guard assms(4) by (simp add: sfs_partialio_def Let_def)
    moreover have "io_error e fs1 x" using error(3) fewer_free [OF error(2)] unfolding blk io_error_def by auto
    moreover have "file_upd fs sv fs1 sv1 x (take 0 (src u m))" using error(2) by (simp add: file_upd_Nil)
    ultimately show ?thesis using wrote_0 [OF assms(3)] by (intro exI conjI) auto
  next
    case (block b sv1 fs1)
    note post = block(2) [unfolded bmap_post_def] and k = block(3) [unfolded blk]
    note S = file_stepD [of fs sv fs1 sv1]
    have fs1: "fs_ok fs1" "sv_ok fs1 sv1" "nblk fs1 = nblk fs" using S post by blast+
    have b: "ftab fs1 sv1 ! (x div 512) = b" using block(4) blk by simp
    then have b0: "ftab fs1 sv1 ! (x div 512) \<noteq> 0" using block(5) by simp
    have blt: "unat b < nblk fs1" using ftab_block(2) [OF fs1(2) k b0] b by simp
    obtain fs2 where fs2: "sfs_readblock fs1 b (replicate 512 0) 512 = Some ((None, dsk fs1 (unat b)), fs2)"
        "fs_keep fs1 fs2" "dsk fs2 = dsk fs1" using readblock_ok [OF fs1(1) blt, of "replicate 512 0"] by auto
    define buf where "buf = dsk fs1 (unat b)"
    have lb: "length buf = 512" using dsk_length [OF fs1(1)] by (simp add: buf_def)
    let ?bs = "take (unat len) (src u m)"
    have room_buf: "unat len \<le> length (drop (unat skip) buf)" using lb assms(8) by simp
    have ls: "length ?bs = unat len" using room_src [OF assms(3,4)] assms(9) by simp
    obtain u1 m1 where u1: "uiomove um (drop (unat skip) buf) len u m =
          Some ((None, ?bs @ drop (unat len) (drop (unat skip) buf), u1), m1)" "ok u1 m1" "uio_moved u len u1"
        "room u1 m1 = room u m - unat len" "src u1 m1 = drop (unat len) (src u m)"
      using move_write [OF assms(3,4) room_buf assms(9,10)] by blast
    define new where "new = take (unat skip) buf @ ?bs @ drop (unat skip + length ?bs) buf"
    have new: "take (unat skip) buf @ ?bs @ drop (unat len) (drop (unat skip) buf) = new" "length new = 512"
      using splice_piece [OF lb assms(8) ls] by (simp_all add: new_def)
    have fs2': "fs_ok fs2" "unat b < nblk fs2" using fs2(2) blt fs_same_nblk(1) by (auto simp: fs_keep_def)
    obtain fs3 where fs3: "sfs_writeblock fs2 b new 512 = Some (None, fs3)" "fs_keep fs2 fs3"
        "dsk fs3 = (dsk fs2)(unat b := new)" using writeblock_ok [OF fs2' new(2)] by blast
    have keep: "fs_keep fs1 fs3" using fs2(2) fs3(2) fs_same_trans by (auto simp: fs_keep_def)
    have "uio_rw u1 = UIO_WRITE" using u1(3) assms(4) by (simp add: uio_moved_def)
    then have run: "sfs_partialio um sv u skip len fs m = Some ((None, u1), sv1, fs3, m1)"
      using guard assms(4) block(1,5) fs2(1) u1(1) fs3(1) new(1) by (simp add: sfs_partialio_def Let_def buf_def)
    have "x = 512 * (x div 512) + unat skip" using assms(7) by simp
    moreover have "file_upd fs1 sv1 fs3 sv1 (512 * (x div 512) + unat skip) ?bs"
      using assms(8) ls b new fs2(3) fs3(3) by (intro data_splice [OF fs1(1,2) k b0 _ keep]) (simp_all add: new_def buf_def)
    ultimately have "file_upd fs1 sv1 fs3 sv1 x ?bs" by simp
    then have upd: "file_upd fs sv fs3 sv1 x ?bs"
      using file_upd_append [of fs sv fs1 sv1 x "[]"] block(2) by (simp add: file_upd_Nil)
    have "wrote u m (unat len) u1 m1" using u1 assms(10) by (simp add: wrote_def word_le_nat_alt)
    then show ?thesis using run upd k by (intro exI conjI) auto
  qed
qed

lemma restore_resid:
  assumes "512 \<le> r" shows "word_of_int (int (unat (0 :: u32)) - 512 + int (unat r)) = r - (512 :: u32)"
proof -
  have "int (unat (0 :: u32)) - 512 + int (unat r) = uint r - 512" by simp
  then show ?thesis by (simp add: wi_hom_sub [symmetric] flip: word_of_int_uint)
qed

lemma block_write:
  assumes "fs_ok fs" "sv_ok fs sv" "ok u m" "uio_rw u = UIO_WRITE" "uio_offset u = int (512 * k)" "k < 4294967296"
    and "512 \<le> room u m" "512 \<le> uio_resid u" "nblk fs \<le> 2 ^ 23"
  shows "\<exists>r u' sv' fs' m' n. sfs_blockio um sv u fs m = Some ((r, u'), sv', fs', m') \<and>
    wrote u m n u' m' \<and> file_upd fs sv fs' sv' (512 * k) (take n (src u m)) \<and>
    (case r of None \<Rightarrow> n = 512 \<and> k < 143 | Some e \<Rightarrow> n = 0 \<and> io_error e fs' (512 * k))"
proof -
  have blk: "unat (fileblock_of (uio_offset u)) = k" using assms(5,6) fileblock_of_nat [of "512 * k"] by simp
  from assms(1,2) show ?thesis
  proof (cases rule: bmap_alloc_cases [where k = "fileblock_of (uio_offset u)"])
    case (error e sv1 fs1)
    then have "sfs_blockio um sv u fs m = Some ((Some e, u), sv1, fs1, m)"
      using assms(4) by (simp add: sfs_blockio_def Let_def)
    moreover have "io_error e fs1 (512 * k)" using error(3) fewer_free [OF error(2)] unfolding blk io_error_def by auto
    moreover have "file_upd fs sv fs1 sv1 (512 * k) (take 0 (src u m))" using error(2) by (simp add: file_upd_Nil)
    ultimately show ?thesis using wrote_0 [OF assms(3)] by (intro exI conjI) auto
  next
    case (block b sv1 fs1)
    note post = block(2) [unfolded bmap_post_def] and k = block(3) [unfolded blk]
    note S = file_stepD [of fs sv fs1 sv1]
    have fs1: "fs_ok fs1" "sv_ok fs1 sv1" "nblk fs1 = nblk fs" using S post by blast+
    have b: "ftab fs1 sv1 ! k = b" using block(4) blk by simp
    then have b0: "ftab fs1 sv1 ! k \<noteq> 0" using block(5) by simp
    have blt: "unat b < nblk fs1" using ftab_block(2) [OF fs1(2) k b0] b by simp
    have off: "unat (b * 512) = 512 * unat b" using blt fs1(3) assms(9) by (subst unat_mult_u32) auto
    define u0 where "u0 = u\<lparr>uio_offset := int (unat (b * 512)), uio_resid := 512\<rparr>"
    have u0: "ok u0 m" "uio_rw u0 = UIO_WRITE" "uio_offset u0 = 512 * int (unat b)" "uio_resid u0 = 512"
      "512 \<le> room u0 m" "room u0 m = room u m" "src u0 m = src u m"
      using assms(3,4,7) off by (simp_all add: u0_def)
    obtain u1 m1 lh where u1: "sfs_rwblock um u0 fs1 m = Some ((None, u1), fs1\<lparr>sfs_device := lh\<rparr>, m1)" "ok u1 m1"
        "uio_moved u0 512 u1" "room u1 m1 = room u m - 512" "src u1 m1 = drop 512 (src u m)"
        "lhd_ok lh" "lh_blocks lh = lh_blocks (sfs_device fs1)"
        "lh_sectors lh = (dsk fs1)(unat b := take 512 (src u m))"
      using rwblock_write [OF u0(1-5) blt fs1(1)] unfolding u0(6,7) by blast
    define u2 where "u2 = u1\<lparr>uio_offset := (uio_offset u1 - int (unat (b * 512))) + uio_offset u,
      uio_resid := word_of_int ((int (unat (uio_resid u1)) - 512) + int (unat (uio_resid u)))\<rparr>"
    have r1: "uio_resid u1 = 0" "uio_offset u1 = int (unat (b * 512)) + 512" "uio_rw u1 = UIO_WRITE"
      using u1(3) assms(4) by (simp_all add: uio_moved_def u0_def)
    have moved: "uio_moved u 512 u2"
      using r1 assms(4) restore_resid [OF assms(8)] by (simp add: uio_moved_def u2_def)
    have run: "sfs_blockio um sv u fs m = Some ((None, u2), sv1, fs1\<lparr>sfs_device := lh\<rparr>, m1)"
      using assms(4,8) block(1,5) u1(1) by (simp add: sfs_blockio_def Let_def u0_def u2_def)
    have keep: "fs_keep fs1 (fs1\<lparr>sfs_device := lh\<rparr>)"
      using device_upd_ok [OF fs1(1) u1(6,7)] by (simp add: fs_keep_def)
    have ls: "length (take 512 (src u m)) = 512" using room_src [OF assms(3,4)] assms(7) by simp
    have "file_upd fs1 sv1 (fs1\<lparr>sfs_device := lh\<rparr>) sv1 (512 * k + 0) (take 512 (src u m))"
      using ls b u1(8) dsk_length [OF fs1(1)] by (intro data_splice [OF fs1(1,2) k b0 _ keep]) simp_all
    then have upd: "file_upd fs sv (fs1\<lparr>sfs_device := lh\<rparr>) sv1 (512 * k) (take 512 (src u m))"
      using file_upd_append [of fs sv fs1 sv1 "512 * k" "[]"] block(2) by (simp add: file_upd_Nil)
    have "wrote u m 512 u2 m1"
      using u1(2,4,5) moved assms(8) by (simp add: wrote_def u2_def word_le_nat_alt)
    then show ?thesis using run upd k by (intro exI conjI) auto
  qed
qed

lemma wrote_add:
  assumes "wrote u m n u1 m1" "wrote u1 m1 k u2 m2"
  shows "wrote u m (n + k) u2 m2"
proof -
  have n: "unat (of_nat n :: u32) = n" using assms(1) unat_u32_lt [of "uio_resid u"]
    by (intro unat_of_nat_u32) (simp add: wrote_def)
  have k: "unat (of_nat k :: u32) = k" using assms(2) unat_u32_lt [of "uio_resid u1"]
    by (intro unat_of_nat_u32) (simp add: wrote_def)
  have "unat (uio_resid u1) = unat (uio_resid u) - n"
    using assms(1) n by (simp add: wrote_def uio_moved_def unat_sub_u32 word_le_nat_alt)
  then have "n + k \<le> unat (uio_resid u)" using assms by (auto simp: wrote_def)
  moreover from this have "uio_moved u (of_nat n + of_nat k) u2"
    using assms n k unat_u32_lt [of "uio_resid u"] by (intro uio_moved_add) (auto simp: wrote_def)
  ultimately show ?thesis using assms by (simp add: wrote_def add.commute)
qed

lemma wroteD:
  assumes "wrote u m n u' m'" "uio_offset u = int x"
  shows "ok u' m'" "uio_rw u' = uio_rw u" "uio_offset u' = int (x + n)" "unat (uio_resid u') = unat (uio_resid u) - n"
    "room u' m' = room u m - n" "src u' m' = drop n (src u m)" "n \<le> unat (uio_resid u)"
proof -
  have n: "unat (of_nat n :: u32) = n" using assms(1) unat_u32_lt [of "uio_resid u"]
    by (intro unat_of_nat_u32) (simp add: wrote_def)
  show "ok u' m'" "uio_rw u' = uio_rw u" "uio_offset u' = int (x + n)" "unat (uio_resid u') = unat (uio_resid u) - n"
    "room u' m' = room u m - n" "src u' m' = drop n (src u m)" "n \<le> unat (uio_resid u)"
    using assms n by (auto simp: wrote_def uio_moved_def unat_sub_u32 word_le_nat_alt)
qed

text \<open>Writes one after the other make one write; the first error ends it.\<close>

definition write_post ::
  "sfs_fs \<Rightarrow> sfs_vnode \<Rightarrow> uio \<Rightarrow> 'm \<Rightarrow> nat \<Rightarrow> nat \<Rightarrow> (status \<times> uio) \<times> sfs_vnode \<times> sfs_fs \<times> 'm \<Rightarrow> bool" where
  "write_post fs sv u m x len res = (case res of ((r, u'), sv', fs', m') \<Rightarrow>
     (\<exists>n. wrote u m n u' m' \<and> file_upd fs sv fs' sv' x (take n (src u m)) \<and>
       (0 < n \<longrightarrow> x + n \<le> max_bytes) \<and>
       (case r of None \<Rightarrow> n = len
        | Some e \<Rightarrow> n < len \<and> io_error e fs' (x + n))))"

lemma write_post_add:
  assumes "write_post fs sv u m x len ((None, u1), sv1, fs1, m1)"
    and "write_post fs1 sv1 u1 m1 (x + len) len2 res" "uio_offset u = int x" "len \<le> length (src u m)"
  shows "write_post fs sv u m x (len + len2) res"
proof -
  obtain r u2 sv2 fs2 m2 where res: "res = ((r, u2), sv2, fs2, m2)" by (metis prod_cases3 surj_pair)
  have a: "wrote u m len u1 m1" "file_upd fs sv fs1 sv1 x (take len (src u m))"
    and ax: "0 < len \<longrightarrow> x + len \<le> max_bytes"
    using assms(1) by (auto simp: write_post_def)
  obtain n where b: "wrote u1 m1 n u2 m2" "file_upd fs1 sv1 fs2 sv2 (x + len) (take n (src u1 m1))"
      "0 < n \<longrightarrow> x + len + n \<le> max_bytes" "case r of None \<Rightarrow> n = len2 | Some e \<Rightarrow> n < len2 \<and> io_error e fs2 (x + len + n)"
    using assms(2) by (auto simp: write_post_def res)
  have "take (len + n) (src u m) = take len (src u m) @ take n (src u1 m1)"
    using wroteD(6) [OF a(1) assms(3)] by (simp add: take_add)
  then have "file_upd fs sv fs2 sv2 x (take (len + n) (src u m))"
    using file_upd_append [OF a(2)] b(2) assms(4) by (simp add: min_absorb2)
  then show ?thesis using wrote_add [OF a(1) b(1)] b(3,4) ax
    unfolding res write_post_def by (auto split: option.splits simp: add.assoc intro!: exI [of _ "len + n"])
qed

lemma write_post_stop:
  "write_post fs sv u m x len ((Some e, u1), sv1, fs1, m1) \<Longrightarrow>
   write_post fs sv u m x (len + len2) ((Some e, u1), sv1, fs1, m1)"
  by (auto simp: write_post_def)

definition writable :: "sfs_fs \<Rightarrow> sfs_vnode \<Rightarrow> uio \<Rightarrow> 'm \<Rightarrow> nat \<Rightarrow> bool" where
  "writable fs sv u m x \<longleftrightarrow> fs_ok fs \<and> sv_ok fs sv \<and> nblk fs \<le> 2 ^ 23 \<and> ok u m \<and> uio_rw u = UIO_WRITE \<and>
     uio_offset u = int x \<and> (x + unat (uio_resid u)) div 512 < 4294967296 \<and> unat (uio_resid u) \<le> room u m"

lemma writable_src: "writable fs sv u m x \<Longrightarrow> length (src u m) = room u m"
  using room_src by (simp add: writable_def)

lemma writable_next:
  assumes "writable fs sv u m x" "write_post fs sv u m x len ((None, u1), sv1, fs1, m1)"
  shows "writable fs1 sv1 u1 m1 (x + len)" "unat (uio_resid u1) = unat (uio_resid u) - len" "len \<le> unat (uio_resid u)"
proof -
  have w: "wrote u m len u1 m1" "file_upd fs sv fs1 sv1 x (take len (src u m))"
    using assms(2) by (auto simp: write_post_def)
  have o: "uio_offset u = int x" using assms(1) by (simp add: writable_def)
  note D = wroteD [OF w(1) o] and F = file_updD [OF w(2)]
  show "unat (uio_resid u1) = unat (uio_resid u) - len" "len \<le> unat (uio_resid u)" by (fact D(4,7))+
  then show "writable fs1 sv1 u1 m1 (x + len)"
    using assms(1) D F fs_same_nblk(1) [OF F(3)] by (auto simp: writable_def)
qed

lemma partial_post:
  assumes "writable fs sv u m x" "unat skip = x mod 512" "unat skip + unat len \<le> 512" "len \<le> uio_resid u" "0 < len"
  shows "\<exists>res. sfs_partialio um sv u skip len fs m = Some res \<and> write_post fs sv u m x (unat len) res"
proof -
  have le: "unat len \<le> unat (uio_resid u)" using assms(4) by (simp add: word_le_nat_alt)
  have "x div 512 \<le> (x + unat (uio_resid u)) div 512" by (simp add: div_le_mono)
  then have x: "x div 512 < 4294967296" using assms(1) by (simp add: writable_def)
  have pos: "0 < unat len" using assms(5) by (simp add: word_less_nat_alt)
  note W = assms(1) [unfolded writable_def]
  have room: "unat len \<le> room u m" using W le by linarith
  obtain r u' sv' fs' m' n where p: "sfs_partialio um sv u skip len fs m = Some ((r, u'), sv', fs', m')"
    "wrote u m n u' m'" "file_upd fs sv fs' sv' x (take n (src u m))"
    "case r of None \<Rightarrow> n = unat len \<and> x div 512 < 143 | Some e \<Rightarrow> n = 0 \<and> io_error e fs' x"
    using partial_write [of fs sv u m x skip len] W x room assms(2-4) by blast
  have "x + unat len \<le> max_bytes" if "x div 512 < 143"
  proof -
    have "x = 512 * (x div 512) + x mod 512" by simp
    moreover have "512 * (x div 512) + 512 \<le> max_bytes" using that by linarith
    ultimately show ?thesis using assms(2,3) by linarith
  qed
  then have "write_post fs sv u m x (unat len) ((r, u'), sv', fs', m')"
    using p(2-4) pos by (auto simp: write_post_def split: option.splits)
  then show ?thesis using p(1) by blast
qed

lemma block_post:
  assumes "writable fs sv u m x" "x mod 512 = 0" "512 \<le> unat (uio_resid u)"
  shows "\<exists>res. sfs_blockio um sv u fs m = Some res \<and> write_post fs sv u m x 512 res"
proof -
  have "x div 512 \<le> (x + unat (uio_resid u)) div 512" by (simp add: div_le_mono)
  then have x: "x div 512 < 4294967296" using assms(1) by (simp add: writable_def)
  have xk: "x = 512 * (x div 512)" using assms(2) by auto
  note W = assms(1) [unfolded writable_def]
  have r: "512 \<le> uio_resid u" "512 \<le> room u m" using assms(3) W by (simp_all add: word_le_nat_alt)
  have off: "uio_offset u = int (512 * (x div 512))" using W xk by simp
  obtain r u' sv' fs' m' n where p: "sfs_blockio um sv u fs m = Some ((r, u'), sv', fs', m')"
    "wrote u m n u' m'" "file_upd fs sv fs' sv' x (take n (src u m))"
    "case r of None \<Rightarrow> n = 512 \<and> x div 512 < 143 | Some e \<Rightarrow> n = 0 \<and> io_error e fs' x"
    using block_write [of fs sv u m "x div 512"] W x r off xk by metis
  have "x + 512 \<le> max_bytes" if "x div 512 < 143" using that xk by linarith
  then have "write_post fs sv u m x 512 ((r, u'), sv', fs', m')"
    using p(2-4) by (auto simp: write_post_def split: option.splits)
  then show ?thesis using p(1) by blast
qed

lemma write_post_0:
  "writable fs sv u m x \<Longrightarrow> write_post fs sv u m x 0 ((None, u), sv, fs, m)"
  using wrote_0 [of u m] file_upd_refl [of fs sv x] by (auto simp: write_post_def writable_def)

lemma loop_post:
  assumes "writable fs sv u m x" "x mod 512 = 0" "512 * N \<le> unat (uio_resid u)"
  shows "\<exists>res. blockio_loop um N sv u fs m = Some res \<and> write_post fs sv u m x (512 * N) res"
  using assms
proof (induction N arbitrary: fs sv u m x)
  case 0
  then show ?case by (simp add: write_post_0)
next
  case (Suc N)
  then have "512 \<le> unat (uio_resid u)" by simp
  from block_post [OF Suc.prems(1,2) this] obtain r u1 sv1 fs1 m1
    where b: "sfs_blockio um sv u fs m = Some ((r, u1), sv1, fs1, m1)" "write_post fs sv u m x 512 ((r, u1), sv1, fs1, m1)"
    by (metis prod_cases3 surj_pair)
  show ?case
  proof (cases r)
    case (Some e)
    then show ?thesis using b write_post_stop [of fs sv u m x 512 e u1 sv1 fs1 m1 "512 * N"] by simp
  next
    case None
    note nx = writable_next [OF Suc.prems(1) b(2) [unfolded None]]
    have "(x + 512) mod 512 = 0" "512 * N \<le> unat (uio_resid u1)" using Suc.prems nx(2) by simp_all
    from Suc.IH [OF nx(1) this] obtain res where
      l: "blockio_loop um N sv1 u1 fs1 m1 = Some res" "write_post fs1 sv1 u1 m1 (x + 512) (512 * N) res" by blast
    have "512 \<le> length (src u m)" using Suc.prems(1,3) writable_src [OF Suc.prems(1)] by (simp add: writable_def)
    then have "write_post fs sv u m x (512 + 512 * N) res"
      using write_post_add [OF b(2) [unfolded None] l(2)] Suc.prems(1) by (simp add: writable_def)
    then show ?thesis using b(1) None l(1) by simp
  qed
qed

lemma tail_post:
  assumes "writable fs sv u m x" "x mod 512 = 0" "unat (uio_resid u) < 512"
  shows "\<exists>res. io_tail um sv u fs m = Some res \<and> write_post fs sv u m x (unat (uio_resid u)) res"
proof (cases "uio_resid u = 0")
  case True
  then show ?thesis using write_post_0 [OF assms(1)] by (simp add: io_tail_def)
next
  case False
  then have pos: "0 < uio_resid u" using word_neq_0_conv by blast
  have "uio_resid u < 512" using assms(3) by (simp add: word_less_nat_alt)
  then have "io_tail um sv u fs m = sfs_partialio um sv u 0 (uio_resid u) fs m"
    using pos by (simp add: io_tail_def)
  then show ?thesis using partial_post [OF assms(1), of 0 "uio_resid u"] assms(2,3) pos by simp
qed

lemma rest_post:
  assumes "writable fs sv u m x" "x mod 512 = 0 \<or> uio_resid u = 0"
  shows "\<exists>res. io_rest um sv u fs m = Some res \<and> write_post fs sv u m x (unat (uio_resid u)) res"
proof (cases "uio_resid u = 0")
  case True
  then show ?thesis using write_post_0 [OF assms(1)] by (simp add: io_rest_def)
next
  case False
  then have x: "x mod 512 = 0" using assms(2) by simp
  define N where "N = unat (uio_resid u div 512)"
  have N: "N = unat (uio_resid u) div 512" by (simp add: N_def unat_div_u32)
  have W: "uio_offset u = int x" "unat (uio_resid u) \<le> length (src u m)"
    using assms(1) writable_src [OF assms(1)] by (simp_all add: writable_def)
  have al: "uio_offset u smod 512 = 0"
    using W(1) x by (simp add: smod_of_nat)
  have le: "512 * N \<le> unat (uio_resid u)" unfolding N by simp
  obtain r u1 sv1 fs1 m1 where l: "blockio_loop um N sv u fs m = Some ((r, u1), sv1, fs1, m1)"
      "write_post fs sv u m x (512 * N) ((r, u1), sv1, fs1, m1)"
    using loop_post [OF assms(1) x le] by (metis prod_cases3 surj_pair)
  have len: "512 * N + unat (uio_resid u) mod 512 = unat (uio_resid u)" unfolding N by simp
  show ?thesis
  proof (cases r)
    case (Some e)
    then have "write_post fs sv u m x (512 * N + unat (uio_resid u) mod 512) ((r, u1), sv1, fs1, m1)"
      using write_post_stop l(2) by blast
    then show ?thesis using l(1) Some False al len by (simp add: io_rest_def Let_def N_def)
  next
    case None
    note nx = writable_next [OF assms(1) l(2) [unfolded None]]
    have r1: "unat (uio_resid u1) = unat (uio_resid u) mod 512" using nx(2) len by linarith
    have "(x + 512 * N) mod 512 = 0" "unat (uio_resid u1) < 512" using x r1 by simp_all
    from tail_post [OF nx(1) this] obtain res where
      t: "io_tail um sv1 u1 fs1 m1 = Some res" "write_post fs1 sv1 u1 m1 (x + 512 * N) (unat (uio_resid u) mod 512) res"
      unfolding r1 by blast
    have "write_post fs sv u m x (512 * N + unat (uio_resid u) mod 512) res"
      using write_post_add [OF l(2) [unfolded None] t(2) W(1)] le W(2) by linarith
    then show ?thesis using l(1) None False al len t(1) by (simp add: io_rest_def Let_def N_def)
  qed
qed

lemma phases_post:
  assumes "writable fs sv u m x" "0 < uio_resid u"
  shows "\<exists>res. io_phases um sv u fs m = Some res \<and> write_post fs sv u m x (unat (uio_resid u)) res"
proof -
  have W: "uio_offset u = int x" "unat (uio_resid u) \<le> length (src u m)"
    using assms(1) writable_src [OF assms(1)] by (simp_all add: writable_def)
  note P = io_first_piece [OF W(1)]
  show ?thesis
  proof (cases "io_skip u = 0")
    case True
    then have "x mod 512 = 0" using P(1) by simp
    then show ?thesis using rest_post [OF assms(1)] True by (simp add: io_phases_def)
  next
    case False
    obtain r u1 sv1 fs1 m1 where p: "sfs_partialio um sv u (io_skip u) (io_len u) fs m = Some ((r, u1), sv1, fs1, m1)"
        "write_post fs sv u m x (unat (io_len u)) ((r, u1), sv1, fs1, m1)"
      using partial_post [OF assms(1) P(1-3) P(5) [OF assms(2)]] by (metis prod_cases3 surj_pair)
    have split: "unat (io_len u) + (unat (uio_resid u) - unat (io_len u)) = unat (uio_resid u)" using P(4) by simp
    show ?thesis
    proof (cases r)
      case (Some e)
      then show ?thesis
        using write_post_stop [of fs sv u m x "unat (io_len u)" e u1 sv1 fs1 m1 "unat (uio_resid u) - unat (io_len u)"] p False split
        by (simp add: io_phases_def)
    next
      case None
      note nx = writable_next [OF assms(1) p(2) [unfolded None]]
      have "(x + unat (io_len u)) mod 512 = 0 \<or> uio_resid u1 = 0" using P(4,6) nx(2) by (auto simp: unat_eq_zero)
      from rest_post [OF nx(1) this] obtain res where
        t: "io_rest um sv1 u1 fs1 m1 = Some res"
          "write_post fs1 sv1 u1 m1 (x + unat (io_len u)) (unat (uio_resid u) - unat (io_len u)) res"
        unfolding nx(2) by blast
      have "write_post fs sv u m x (unat (io_len u) + (unat (uio_resid u) - unat (io_len u))) res"
        using write_post_add [OF p(2) [unfolded None] t(2) W(1)] P(4) W(2) by linarith
      then show ?thesis using False p(1) None t(1) split by (simp add: io_phases_def)
    qed
  qed
qed

theorem io_write:
  assumes "writable fs sv u m x" "0 < uio_resid u"
  shows "\<exists>r u' sv' fs' m' n. sfs_io um sv u fs m = Some ((r, u'), sv', fs', m') \<and> wrote u m n u' m' \<and>
    file_step fs sv fs' sv' \<and>
    (\<forall>p < max_bytes. fbyte fs' sv' p = (if x \<le> p \<and> p < x + n then src u m ! (p - x) else fbyte fs sv p)) \<and>
    unat (sfi_size (sv_i sv')) = (if n = 0 then unat (sfi_size (sv_i sv)) else max (unat (sfi_size (sv_i sv))) (x + n)) \<and>
    (0 < n \<longrightarrow> x + n \<le> max_bytes) \<and>
    (case r of None \<Rightarrow> n = unat (uio_resid u)
     | Some e \<Rightarrow> n < unat (uio_resid u) \<and> io_error e fs' (x + n))"
proof -
  obtain r u1 sv1 fs1 m1 where p: "io_phases um sv u fs m = Some ((r, u1), sv1, fs1, m1)"
      "write_post fs sv u m x (unat (uio_resid u)) ((r, u1), sv1, fs1, m1)"
    using phases_post [OF assms] by (metis prod_cases3 surj_pair)
  obtain n where n: "wrote u m n u1 m1" "file_upd fs sv fs1 sv1 x (take n (src u m))" "0 < n \<longrightarrow> x + n \<le> max_bytes"
      "case r of None \<Rightarrow> n = unat (uio_resid u) | Some e \<Rightarrow> n < unat (uio_resid u) \<and> io_error e fs1 (x + n)"
    using p(2) by (auto simp: write_post_def)
  have W: "uio_rw u = UIO_WRITE" "uio_offset u = int x" "unat (uio_resid u) \<le> length (src u m)"
    using assms(1) writable_src [OF assms(1)] by (simp_all add: writable_def)
  note D = wroteD [OF n(1) W(2)] and F = file_updD [OF n(2)]
  define grow where "grow \<longleftrightarrow> uio_resid u1 \<noteq> uio_resid u \<and> int x + int n > int (unat (sfi_size (sv_i sv1)))"
  define sv2 where "sv2 = (if grow
     then (set_inode (sfi_size_update (\<lambda>_. word_of_int (int x + int n))) sv1)\<lparr>sv_dirty := True\<rparr> else sv1)"
  have run: "sfs_io um sv u fs m = Some ((r, u1), sv2, fs1, m1)"
    using W(1) D(2,3) p(1) by (simp add: sfs_io_def extraresid_def Let_def sv2_def grow_def)
  have tabs: "sv_direct sv2 = sv_direct sv1" "sv_indirect sv2 = sv_indirect sv1"
    by (simp_all add: sv2_def set_inode_def)
  then have t: "ftab fs' sv2 = ftab fs' sv1" for fs' by (simp add: ftab_def indtab_def)
  have bl: "sv_blocks fs1 sv2 = sv_blocks fs1 sv1" by (simp add: sv_blocks_def t tabs)
  have ok: "sv_ok fs1 sv2" using F(2) unfolding sv_ok_def t bl tabs .
  have step: "file_step fs sv fs1 sv2" using F(5) ok by (simp add: file_step_iff bl)
  have bytes: "fbyte fs1 sv2 p = (if x \<le> p \<and> p < x + n then src u m ! (p - x) else fbyte fs sv p)"
    if "p < max_bytes" for p
  proof -
    have "fbyte fs1 sv2 p = fbyte fs1 sv1 p" by (simp add: fbyte_def t)
    moreover have "length (take n (src u m)) = n" using D(7) W(3) by simp
    ultimately show ?thesis using n(2) that by (auto simp: file_upd_def)
  qed
  have n0: "uio_resid u1 \<noteq> uio_resid u \<longleftrightarrow> n \<noteq> 0" using D(4,7) by (metis diff_diff_cancel diff_zero minus_nat.diff_0 diff_self_eq_0 word_unat_eq_iff)
  have sz: "unat (sfi_size (sv_i sv2)) =
      (if n = 0 then unat (sfi_size (sv_i sv)) else max (unat (sfi_size (sv_i sv))) (x + n))"
  proof -
    have same: "sfi_size (sv_i sv1) = sfi_size (sv_i sv)" using F(4) by (simp add: sv_same_def)
    have "unat (word_of_int (int x + int n) :: u32) = x + n" if "n \<noteq> 0"
    proof -
      have "word_of_int (int x + int n) = (of_nat (x + n) :: u32)" by simp
      then show ?thesis using that n(3) unat_of_nat_u32 [of "x + n"] by simp
    qed
    moreover have "grow \<longleftrightarrow> n \<noteq> 0 \<and> unat (sfi_size (sv_i sv)) < x + n"
      unfolding grow_def n0 same by (metis of_nat_add of_nat_less_iff)
    ultimately show ?thesis using same by (auto simp: sv2_def set_inode_def)
  qed
  from run n(1) step bytes sz n(3,4) show ?thesis by blast
qed

end

subsection \<open>Reading\<close>

text \<open>A read changes nothing on the volume.\<close>

definition fs_quiet :: "sfs_fs \<Rightarrow> sfs_fs \<Rightarrow> bool" where
  "fs_quiet fs fs' \<longleftrightarrow> fs_ok fs' \<and> fs_same fs fs' \<and> dsk fs' = dsk fs \<and> fs_free fs' = fs_free fs"

lemma fs_quiet_trans: "fs_quiet a b \<Longrightarrow> fs_quiet b c \<Longrightarrow> fs_quiet a c"
  using fs_same_trans by (auto simp: fs_quiet_def)

lemma fs_quiet_refl: "fs_ok fs \<Longrightarrow> fs_quiet fs fs"
  by (simp add: fs_quiet_def)

lemma quiet_file:
  assumes "fs_quiet fs fs'"
  shows "ftab fs' sv = ftab fs sv" "fbyte fs' sv = fbyte fs sv" "file_range fs' sv = file_range fs sv"
    "sv_ok fs sv \<Longrightarrow> sv_ok fs' sv" "fs_ok fs'" "nblk fs' = nblk fs"
proof -
  show t: "ftab fs' sv = ftab fs sv" using assms by (intro ftab_cong) (simp add: fs_quiet_def)
  show b: "fbyte fs' sv = fbyte fs sv" using assms by (intro ext) (simp add: fbyte_def t fs_quiet_def Let_def)
  show "file_range fs' sv = file_range fs sv" by (intro ext) (simp add: file_range_def b)
  show "fs_ok fs'" "nblk fs' = nblk fs" using assms fs_same_nblk(1) by (auto simp: fs_quiet_def)
  have "sv_blocks fs' sv = sv_blocks fs sv" by (simp add: sv_blocks_def t)
  then show "sv_ok fs sv \<Longrightarrow> sv_ok fs' sv"
    unfolding sv_ok_def t using assms fs_same_nblk(1) by (auto simp: fs_quiet_def)
qed

lemma quiet_keep: "fs_keep fs fs' \<Longrightarrow> dsk fs' = dsk fs \<Longrightarrow> fs_quiet fs fs'"
  by (simp add: fs_quiet_def fs_keep_def)

lemma quiet_lookup:
  assumes "fs_ok fs" "sv_ok fs sv" "unat k < 143"
  shows "\<exists>fs'. sfs_bmap sv k False fs = Some (Inr (ftab fs sv ! unat k), sv, fs') \<and> fs_quiet fs fs'"
  using bmap_lookup [OF assms] by (auto simp: bmap_post_def file_step_iff fs_quiet_def)

context uio_stream
begin

definition got :: "uio \<Rightarrow> 'm \<Rightarrow> u8 list \<Rightarrow> uio \<Rightarrow> 'm \<Rightarrow> bool" where
  "got u m bs u' m' \<longleftrightarrow> ok u' m' \<and> uio_moved u (of_nat (length bs)) u' \<and> length bs \<le> unat (uio_resid u) \<and>
     room u' m' = room u m - length bs \<and> out u' m' = out u m @ bs"

lemma got_Nil: "ok u m \<Longrightarrow> got u m [] u m"
  by (simp add: got_def)

lemma gotD:
  assumes "got u m bs u' m'" "uio_offset u = int x"
  shows "ok u' m'" "uio_rw u' = uio_rw u" "uio_offset u' = int (x + length bs)"
    "unat (uio_resid u') = unat (uio_resid u) - length bs" "room u' m' = room u m - length bs"
    "out u' m' = out u m @ bs" "length bs \<le> unat (uio_resid u)"
proof -
  have n: "unat (of_nat (length bs) :: u32) = length bs" using assms(1) unat_u32_lt [of "uio_resid u"]
    by (intro unat_of_nat_u32) (simp add: got_def)
  show "ok u' m'" "uio_rw u' = uio_rw u" "uio_offset u' = int (x + length bs)"
    "unat (uio_resid u') = unat (uio_resid u) - length bs" "room u' m' = room u m - length bs"
    "out u' m' = out u m @ bs" "length bs \<le> unat (uio_resid u)"
    using assms n by (auto simp: got_def uio_moved_def unat_sub_u32 word_le_nat_alt)
qed

lemma got_add:
  assumes "got u m as u1 m1" "got u1 m1 bs u2 m2"
  shows "got u m (as @ bs) u2 m2"
proof -
  have n: "unat (of_nat (length as) :: u32) = length as" using assms(1) unat_u32_lt [of "uio_resid u"]
    by (intro unat_of_nat_u32) (simp add: got_def)
  have k: "unat (of_nat (length bs) :: u32) = length bs" using assms(2) unat_u32_lt [of "uio_resid u1"]
    by (intro unat_of_nat_u32) (simp add: got_def)
  have "unat (uio_resid u1) = unat (uio_resid u) - length as"
    using assms(1) n by (simp add: got_def uio_moved_def unat_sub_u32 word_le_nat_alt)
  then have le: "length as + length bs \<le> unat (uio_resid u)" using assms by (auto simp: got_def)
  moreover from this have "uio_moved u (of_nat (length as) + of_nat (length bs)) u2"
    using assms n k unat_u32_lt [of "uio_resid u"] by (intro uio_moved_add) (auto simp: got_def)
  ultimately show ?thesis using assms by (simp add: got_def)
qed

definition readable :: "sfs_fs \<Rightarrow> sfs_vnode \<Rightarrow> uio \<Rightarrow> 'm \<Rightarrow> nat \<Rightarrow> bool" where
  "readable fs sv u m x \<longleftrightarrow> fs_ok fs \<and> sv_ok fs sv \<and> nblk fs \<le> 2 ^ 23 \<and> ok u m \<and> uio_rw u = UIO_READ \<and>
     uio_offset u = int x \<and> x + unat (uio_resid u) \<le> max_bytes \<and> unat (uio_resid u) \<le> room u m"

definition read_post ::
  "sfs_fs \<Rightarrow> sfs_vnode \<Rightarrow> uio \<Rightarrow> 'm \<Rightarrow> nat \<Rightarrow> nat \<Rightarrow> (status \<times> uio) \<times> sfs_vnode \<times> sfs_fs \<times> 'm \<Rightarrow> bool" where
  "read_post fs sv u m x len res = (case res of ((r, u'), sv', fs', m') \<Rightarrow>
     r = None \<and> sv' = sv \<and> fs_quiet fs fs' \<and> got u m (file_range fs sv x len) u' m')"

lemma read_postD:
  assumes "read_post fs sv u m x len res" "readable fs sv u m x"
  obtains u' fs' m' where "res = ((None, u'), sv, fs', m')" "fs_quiet fs fs'"
    "got u m (file_range fs sv x len) u' m'" "readable fs' sv u' m' (x + len)"
    "unat (uio_resid u') = unat (uio_resid u) - len" "len \<le> unat (uio_resid u)"
proof -
  obtain r u' sv' fs' m' where res: "res = ((r, u'), sv', fs', m')" by (metis prod_cases3 surj_pair)
  have p: "r = None" "sv' = sv" "fs_quiet fs fs'" "got u m (file_range fs sv x len) u' m'"
    using assms(1) by (simp_all add: read_post_def res)
  have o: "uio_offset u = int x" using assms(2) by (simp add: readable_def)
  note D = gotD [OF p(4) o, unfolded length_file_range] and Q = quiet_file [OF p(3)]
  have "readable fs' sv u' m' (x + len)"
    using assms(2) D Q by (auto simp: readable_def)
  then show thesis using that res p D(4,7) by blast
qed

lemma read_post_add:
  assumes "got u m (file_range fs sv x len) u1 m1" "fs_quiet fs fs1"
    and "read_post fs1 sv u1 m1 (x + len) len2 res"
  shows "read_post fs sv u m x (len + len2) res"
  using assms got_add [OF assms(1)] fs_quiet_trans [OF assms(2)] quiet_file(3) [OF assms(2)]
  by (auto simp: read_post_def file_range_append)

lemma read_post_0: "readable fs sv u m x \<Longrightarrow> read_post fs sv u m x 0 ((None, u), sv, fs, m)"
  by (simp add: read_post_def readable_def fs_quiet_refl got_Nil file_range_def)

lemma partial_read:
  assumes "readable fs sv u m x" "unat skip = x mod 512" "unat skip + unat len \<le> 512" "len \<le> uio_resid u" "x < max_bytes"
  shows "\<exists>res. sfs_partialio um sv u skip len fs m = Some res \<and> read_post fs sv u m x (unat len) res"
proof -
  note R = assms(1) [unfolded readable_def]
  have le: "unat len \<le> unat (uio_resid u)" using assms(4) by (simp add: word_le_nat_alt)
  define k where "k = x div 512"
  have xk: "x = 512 * k + unat skip" "k < 143" using assms(2,5) unfolding k_def by auto
  have blk: "unat (fileblock_of (uio_offset u)) = k" using R xk(2) fileblock_of_nat [of x] by (simp add: k_def)
  have guard: "skip + len \<le> 512"
    using assms(3) unat_add_u32 [of skip len] by (simp add: word_le_nat_alt)
  have R1: "fs_ok fs" "sv_ok fs sv" "ok u m" "uio_rw u = UIO_READ" using R by blast+
  obtain fs1 where fs1: "sfs_bmap sv (fileblock_of (uio_offset u)) False fs = Some (Inr (ftab fs sv ! k), sv, fs1)"
      "fs_quiet fs fs1" using quiet_lookup [OF R1(1,2), of "fileblock_of (uio_offset u)"] blk xk(2) by auto
  note Q1 = quiet_file [OF fs1(2)]
  obtain iobuf fs2 where buf: "(if ftab fs sv ! k = 0
       then do { kassert (uio_rw u = UIO_READ); Some ((None, replicate 512 0), fs1) }
       else sfs_readblock fs1 (ftab fs sv ! k) (replicate 512 0) 512) = Some ((None, iobuf), fs2)"
     "fs_quiet fs1 fs2" "length iobuf = 512" "take (unat len) (drop (unat skip) iobuf) = file_range fs sv x (unat len)"
  proof (cases "ftab fs sv ! k = 0")
    case True
    show thesis
    proof (rule that)
      show "take (unat len) (drop (unat skip) (replicate 512 0)) = file_range fs sv x (unat len)"
        unfolding xk(1) file_range_hole [OF True assms(3)] using assms(3) by (simp add: min_def)
    qed (use True R1(4) fs_quiet_refl Q1(5) in simp_all)
  next
    case False
    have "unat (ftab fs sv ! k) < nblk fs1" using ftab_block(2) [OF R1(2) xk(2) False] Q1(6) by simp
    from readblock_ok [OF Q1(5) this, of "replicate 512 0"]
    obtain fs2 where r: "sfs_readblock fs1 (ftab fs sv ! k) (replicate 512 0) 512 =
        Some ((None, dsk fs1 (unat (ftab fs sv ! k))), fs2)" "fs_keep fs1 fs2" "dsk fs2 = dsk fs1" by auto
    show thesis
    proof (rule that)
      show "take (unat len) (drop (unat skip) (dsk fs1 (unat (ftab fs sv ! k)))) = file_range fs sv x (unat len)"
        using file_range_block [OF R1(1) False assms(3)] fs1(2) xk(1) by (simp add: fs_quiet_def)
    qed (use False r quiet_keep dsk_length [OF Q1(5)] in simp_all)
  qed
  have room: "unat len \<le> length (drop (unat skip) iobuf)" "unat len \<le> room u m" using buf(3) assms(3) R le by simp_all
  obtain u1 m1 where u1: "uiomove um (drop (unat skip) iobuf) len u m = Some ((None, drop (unat skip) iobuf, u1), m1)"
      "ok u1 m1" "uio_moved u len u1" "room u1 m1 = room u m - unat len"
      "out u1 m1 = out u m @ file_range fs sv x (unat len)"
    using move_read [OF R1(3,4) room assms(4)] buf(4) by auto
  have "uio_rw u1 = UIO_READ" using u1(3) R1(4) by (simp add: uio_moved_def)
  then have "sfs_partialio um sv u skip len fs m = Some ((None, u1), sv, fs2, m1)"
    using guard R1(4) fs1(1) buf(1) u1(1) by (simp add: sfs_partialio_def Let_def)
  moreover have "got u m (file_range fs sv x (unat len)) u1 m1"
    using u1 le by (simp add: got_def)
  ultimately show ?thesis using fs_quiet_trans [OF fs1(2) buf(2)] by (auto simp: read_post_def)
qed

lemma block_read:
  assumes "readable fs sv u m x" "x mod 512 = 0" "512 \<le> unat (uio_resid u)"
  shows "\<exists>res. sfs_blockio um sv u fs m = Some res \<and> read_post fs sv u m x 512 res"
proof -
  note R = assms(1) [unfolded readable_def]
  define k where "k = x div 512"
  have xk: "x = 512 * k + 0" "k < 143" using R assms(2,3) unfolding k_def by auto
  have blk: "unat (fileblock_of (uio_offset u)) = k" using R xk(2) fileblock_of_nat [of x] by (simp add: k_def)
  have R1: "fs_ok fs" "sv_ok fs sv" "ok u m" "uio_rw u = UIO_READ" "512 \<le> room u m" "512 \<le> uio_resid u"
    using R assms(3) by (simp_all add: word_le_nat_alt)
  obtain fs1 where fs1: "sfs_bmap sv (fileblock_of (uio_offset u)) False fs = Some (Inr (ftab fs sv ! k), sv, fs1)"
      "fs_quiet fs fs1" using quiet_lookup [OF R1(1,2), of "fileblock_of (uio_offset u)"] blk xk(2) by auto
  note Q1 = quiet_file [OF fs1(2)]
  show ?thesis
  proof (cases "ftab fs sv ! k = 0")
    case True
    obtain u1 m1 where u1: "uiomovezeros um 512 u m = Some ((None, u1), m1)" "ok u1 m1" "uio_moved u 512 u1"
        "room u1 m1 = room u m - 512" "out u1 m1 = out u m @ replicate 512 0"
      using move_zeros [OF R1(3,4) _ R1(6)] R1(5) by auto
    have "file_range fs sv x 512 = replicate 512 0" unfolding xk(1) by (rule file_range_hole [OF True]) simp
    then have "got u m (file_range fs sv x 512) u1 m1" using u1 assms(3) by (simp add: got_def)
    moreover have "sfs_blockio um sv u fs m = Some ((None, u1), sv, fs1, m1)"
      using R1(4) fs1(1) u1(1) True by (simp add: sfs_blockio_def Let_def)
    ultimately show ?thesis using fs1(2) by (auto simp: read_post_def)
  next
    case False
    define b where "b = ftab fs sv ! k"
    have blt: "unat b < nblk fs1" using ftab_block(2) [OF R1(2) xk(2) False] Q1(6) by (simp add: b_def)
    have off: "unat (b * 512) = 512 * unat b" using blt Q1(6) R by (subst unat_mult_u32) auto
    define u0 where "u0 = u\<lparr>uio_offset := int (unat (b * 512)), uio_resid := 512\<rparr>"
    have u0: "ok u0 m" "uio_rw u0 = UIO_READ" "uio_offset u0 = 512 * int (unat b)" "uio_resid u0 = 512"
      "512 \<le> room u0 m" "room u0 m = room u m" "out u0 m = out u m"
      using R1 off by (simp_all add: u0_def)
    obtain u1 m1 lh where u1: "sfs_rwblock um u0 fs1 m = Some ((None, u1), fs1\<lparr>sfs_device := lh\<rparr>, m1)" "ok u1 m1"
        "uio_moved u0 512 u1" "room u1 m1 = room u m - 512" "out u1 m1 = out u m @ dsk fs1 (unat b)"
        "lhd_ok lh" "lh_blocks lh = lh_blocks (sfs_device fs1)" "lh_sectors lh = dsk fs1"
      using rwblock_read [OF u0(1-5) blt Q1(5)] unfolding u0(6,7) by blast
    define u2 where "u2 = u1\<lparr>uio_offset := (uio_offset u1 - int (unat (b * 512))) + uio_offset u,
      uio_resid := word_of_int ((int (unat (uio_resid u1)) - 512) + int (unat (uio_resid u)))\<rparr>"
    have r1: "uio_resid u1 = 0" "uio_offset u1 = int (unat (b * 512)) + 512" "uio_rw u1 = UIO_READ"
      using u1(3) R1(4) by (simp_all add: uio_moved_def u0_def)
    have moved: "uio_moved u 512 u2"
      using r1 R1(4) restore_resid [OF R1(6)] by (simp add: uio_moved_def u2_def)
    have run: "sfs_blockio um sv u fs m = Some ((None, u2), sv, fs1\<lparr>sfs_device := lh\<rparr>, m1)"
      using R1(4,6) fs1(1) u1(1) False by (simp add: sfs_blockio_def Let_def u0_def u2_def b_def)
    have quiet: "fs_quiet fs (fs1\<lparr>sfs_device := lh\<rparr>)"
      using device_upd_ok [OF Q1(5) u1(6,7)] u1(8) fs1(2) fs_same_trans by (auto simp: fs_quiet_def)
    have "file_range fs sv x 512 = dsk fs1 (unat b)"
      using file_range_block [OF R1(1) False, of 0 512] fs1(2) dsk_length [OF R1(1)] xk(1)
      by (simp add: fs_quiet_def b_def)
    then have "got u m (file_range fs sv x 512) u2 m1"
      using u1(2,4,5) moved assms(3) dsk_length [OF Q1(5)] by (simp add: got_def u2_def)
    then show ?thesis using run quiet by (auto simp: read_post_def)
  qed
qed

lemma loop_read:
  assumes "readable fs sv u m x" "x mod 512 = 0" "512 * N \<le> unat (uio_resid u)"
  shows "\<exists>res. blockio_loop um N sv u fs m = Some res \<and> read_post fs sv u m x (512 * N) res"
  using assms
proof (induction N arbitrary: fs u m x)
  case 0
  then show ?case by (simp add: read_post_0)
next
  case (Suc N)
  then have "512 \<le> unat (uio_resid u)" by simp
  from block_read [OF Suc.prems(1,2) this] obtain res where
    b: "sfs_blockio um sv u fs m = Some res" "read_post fs sv u m x 512 res" by blast
  from read_postD [OF b(2) Suc.prems(1)] obtain u1 fs1 m1 where
    r: "res = ((None, u1), sv, fs1, m1)" "fs_quiet fs fs1" "got u m (file_range fs sv x 512) u1 m1"
      "readable fs1 sv u1 m1 (x + 512)" "unat (uio_resid u1) = unat (uio_resid u) - 512" by blast
  have "(x + 512) mod 512 = 0" "512 * N \<le> unat (uio_resid u1)" using Suc.prems r(5) by simp_all
  from Suc.IH [OF r(4) this] obtain res2 where
    l: "blockio_loop um N sv u1 fs1 m1 = Some res2" "read_post fs1 sv u1 m1 (x + 512) (512 * N) res2" by blast
  then show ?case using b(1) r(1) read_post_add [OF r(3,2) l(2)] by simp
qed

lemma tail_read:
  assumes "readable fs sv u m x" "x mod 512 = 0" "unat (uio_resid u) < 512"
  shows "\<exists>res. io_tail um sv u fs m = Some res \<and> read_post fs sv u m x (unat (uio_resid u)) res"
proof (cases "uio_resid u = 0")
  case True
  then show ?thesis using read_post_0 [OF assms(1)] by (simp add: io_tail_def)
next
  case False
  then have pos: "0 < uio_resid u" using word_neq_0_conv by blast
  have "uio_resid u < 512" using assms(3) by (simp add: word_less_nat_alt)
  moreover have x: "x < max_bytes"
    using assms(1) pos by (simp add: readable_def word_less_nat_alt)
  ultimately have "io_tail um sv u fs m = sfs_partialio um sv u 0 (uio_resid u) fs m"
    using pos by (simp add: io_tail_def)
  then show ?thesis using partial_read [OF assms(1), of 0 "uio_resid u"] assms(2,3) x by simp
qed

lemma rest_read:
  assumes "readable fs sv u m x" "x mod 512 = 0 \<or> uio_resid u = 0"
  shows "\<exists>res. io_rest um sv u fs m = Some res \<and> read_post fs sv u m x (unat (uio_resid u)) res"
proof (cases "uio_resid u = 0")
  case True
  then show ?thesis using read_post_0 [OF assms(1)] by (simp add: io_rest_def)
next
  case False
  then have x: "x mod 512 = 0" using assms(2) by simp
  define N where "N = unat (uio_resid u div 512)"
  have N: "N = unat (uio_resid u) div 512" by (simp add: N_def unat_div_u32)
  have al: "uio_offset u smod 512 = 0" using assms(1) x by (simp add: readable_def smod_of_nat)
  have le: "512 * N \<le> unat (uio_resid u)" unfolding N by simp
  obtain res where l: "blockio_loop um N sv u fs m = Some res" "read_post fs sv u m x (512 * N) res"
    using loop_read [OF assms(1) x le] by blast
  from read_postD [OF l(2) assms(1)] obtain u1 fs1 m1 where
    r: "res = ((None, u1), sv, fs1, m1)" "fs_quiet fs fs1" "got u m (file_range fs sv x (512 * N)) u1 m1"
      "readable fs1 sv u1 m1 (x + 512 * N)" "unat (uio_resid u1) = unat (uio_resid u) - 512 * N" by blast
  have len: "512 * N + unat (uio_resid u) mod 512 = unat (uio_resid u)" unfolding N by simp
  have r1: "unat (uio_resid u1) = unat (uio_resid u) mod 512" using r(5) len by linarith
  have "(x + 512 * N) mod 512 = 0" "unat (uio_resid u1) < 512" using x r1 by simp_all
  from tail_read [OF r(4) this] obtain res2 where
    t: "io_tail um sv u1 fs1 m1 = Some res2" "read_post fs1 sv u1 m1 (x + 512 * N) (unat (uio_resid u) mod 512) res2"
    unfolding r1 by blast
  then show ?thesis
    using read_post_add [OF r(3,2) t(2)] l(1) r(1) False al len by (simp add: io_rest_def Let_def N_def)
qed

lemma phases_read:
  assumes "readable fs sv u m x" "x < max_bytes"
  shows "\<exists>res. io_phases um sv u fs m = Some res \<and> read_post fs sv u m x (unat (uio_resid u)) res"
proof -
  have o: "uio_offset u = int x" using assms(1) by (simp add: readable_def)
  note P = io_first_piece [OF o]
  show ?thesis
  proof (cases "io_skip u = 0")
    case True
    then have "x mod 512 = 0" using P(1) by simp
    then show ?thesis using rest_read [OF assms(1)] True by (simp add: io_phases_def)
  next
    case False
    obtain res where p: "sfs_partialio um sv u (io_skip u) (io_len u) fs m = Some res" "read_post fs sv u m x (unat (io_len u)) res"
      using partial_read [OF assms(1) P(1-3) assms(2)] by blast
    from read_postD [OF p(2) assms(1)] obtain u1 fs1 m1 where
      r: "res = ((None, u1), sv, fs1, m1)" "fs_quiet fs fs1" "got u m (file_range fs sv x (unat (io_len u))) u1 m1"
        "readable fs1 sv u1 m1 (x + unat (io_len u))" "unat (uio_resid u1) = unat (uio_resid u) - unat (io_len u)" by blast
    have split: "unat (io_len u) + (unat (uio_resid u) - unat (io_len u)) = unat (uio_resid u)" using P(4) by simp
    have "(x + unat (io_len u)) mod 512 = 0 \<or> uio_resid u1 = 0" using P(4,6) r(5) by (auto simp: unat_eq_zero)
    from rest_read [OF r(4) this] obtain res2 where
      t: "io_rest um sv u1 fs1 m1 = Some res2"
        "read_post fs1 sv u1 m1 (x + unat (io_len u)) (unat (uio_resid u) - unat (io_len u)) res2"
      unfolding r(5) by blast
    then show ?thesis using read_post_add [OF r(3,2) t(2)] False p(1) r(1) split by (simp add: io_phases_def)
  qed
qed

theorem io_read:
  assumes "fs_ok fs" "sv_ok fs sv" "nblk fs \<le> 2 ^ 23" "ok u m" "uio_rw u = UIO_READ" "uio_offset u = int x"
    and "unat (uio_resid u) \<le> room u m" "unat (sfi_size (sv_i sv)) \<le> max_bytes"
  shows "\<exists>u' fs' m'. sfs_io um sv u fs m = Some ((None, u'), sv, fs', m') \<and> fs_quiet fs fs' \<and>
    got u m (file_range fs sv x (min (unat (uio_resid u)) (unat (sfi_size (sv_i sv)) - x))) u' m'"
proof -
  define sz where "sz = unat (sfi_size (sv_i sv))"
  consider (eof) "sz \<le> x" | (some) "x < sz" by linarith
  then show ?thesis
  proof cases
    case eof
    then have "sfs_io um sv u fs m = Some ((None, u), sv, fs, m)"
      using assms(5,6) unfolding sfs_io_def Let_def sz_def [symmetric] by simp
    then show ?thesis using eof assms(1) got_Nil [OF assms(4)] fs_quiet_refl by (auto simp: sz_def file_range_def)
  next
    case some
    define extra where "extra = (if int x + int (unat (uio_resid u)) > int sz
      then word_of_int (int x + int (unat (uio_resid u)) - int sz) else 0 :: u32)"
    define n where "n = min (unat (uio_resid u)) (sz - x)"
    have ex: "unat extra = unat (uio_resid u) - n"
    proof (cases "x + unat (uio_resid u) > sz")
      case True
      then have c: "int x + int (unat (uio_resid u)) > int sz"
        and d: "int x + int (unat (uio_resid u)) - int sz = int (x + unat (uio_resid u) - sz)" by linarith+
      have e: "extra = of_nat (x + unat (uio_resid u) - sz)" unfolding extra_def if_P [OF c] d by simp
      have "x + unat (uio_resid u) - sz < 4294967296" using some unat_u32_lt [of "uio_resid u"] by linarith
      then have "unat extra = x + unat (uio_resid u) - sz" unfolding e by (rule unat_of_nat_u32)
      then show ?thesis using True some by (simp add: n_def)
    next
      case False
      then have c: "\<not> int x + int (unat (uio_resid u)) > int sz" by linarith
      have "extra = 0" unfolding extra_def if_not_P [OF c] ..
      then show ?thesis using False some by (simp add: n_def)
    qed
    have pos: "n \<le> unat (uio_resid u)" "n \<le> sz - x" by (simp_all add: n_def)
    have guard: "extra \<le> uio_resid u" using ex by (simp add: word_le_nat_alt)
    have check: "int x + int (unat (uio_resid u)) > int sz \<longrightarrow> extra < uio_resid u"
    proof
      assume "int x + int (unat (uio_resid u)) > int sz"
      then have "0 < unat (uio_resid u)" using some by linarith
      then have "0 < n" using some by (simp add: n_def)
      then show "extra < uio_resid u" using ex pos by (simp add: word_less_nat_alt)
    qed
    define u0 where "u0 = u\<lparr>uio_resid := uio_resid u - extra\<rparr>"
    have r0: "unat (uio_resid u0) = n" using ex pos guard by (simp add: u0_def unat_sub_u32)
    have rd: "readable fs sv u0 m x" using assms r0 pos some
      by (auto simp: readable_def u0_def sz_def)
    have "x < max_bytes" using some assms(8) by (simp add: sz_def)
    from phases_read [OF rd this] obtain res where
      p: "io_phases um sv u0 fs m = Some res" "read_post fs sv u0 m x n res" unfolding r0 by blast
    from read_postD [OF p(2) rd] obtain u1 fs1 m1 where
      r: "res = ((None, u1), sv, fs1, m1)" "fs_quiet fs fs1" "got u0 m (file_range fs sv x n) u1 m1" by blast
    have rw1: "uio_rw u1 = UIO_READ" using r(3) assms(5) by (simp add: got_def uio_moved_def u0_def)
    have "sfs_io um sv u fs m = Some ((None, u1\<lparr>uio_resid := uio_resid u1 + extra\<rparr>), sv, fs1, m1)"
    proof -
      have "extraresid sv u = extra" using assms(5,6) unfolding extraresid_def extra_def Let_def sz_def by simp
      then show ?thesis using assms(5,6) p(1) r(1) rw1 check some
        unfolding sfs_io_def Let_def sz_def [symmetric] u0_def by simp
    qed
    moreover have "got u m (file_range fs sv x n) (u1\<lparr>uio_resid := uio_resid u1 + extra\<rparr>) m1"
      using r(3) pos by (simp add: got_def uio_moved_def u0_def)
    ultimately show ?thesis using r(2) by (auto simp: n_def sz_def)
  qed
qed

end


subsection \<open>Files as arrays of bytes\<close>

text \<open>kern/fs/sfs/sfs_vnops.c: read and write of a file, under the big lock.\<close>

definition sfs_read :: "'m umem \<Rightarrow> sfs_vnode \<Rightarrow> uio \<Rightarrow> sfs_fs \<Rightarrow> 'm \<Rightarrow> 'm io_result" where
  "sfs_read um sv u fs m = do { kassert (uio_rw u = UIO_READ); sfs_io um sv u fs m }"

definition sfs_write :: "'m umem \<Rightarrow> sfs_vnode \<Rightarrow> uio \<Rightarrow> sfs_fs \<Rightarrow> 'm \<Rightarrow> 'm io_result" where
  "sfs_write um sv u fs m = do { kassert (uio_rw u = UIO_WRITE); sfs_io um sv u fs m }"

text \<open>The abstract file: a size and a byte at every offset.\<close>

type_synonym afile = "nat \<times> (nat \<Rightarrow> u8)"

definition abs_file :: "sfs_fs \<Rightarrow> sfs_vnode \<Rightarrow> afile" where
  "abs_file fs sv = (unat (sfi_size (sv_i sv)), \<lambda>p. if p < max_bytes then fbyte fs sv p else 0)"

definition abs_write :: "nat \<Rightarrow> u8 list \<Rightarrow> afile \<Rightarrow> afile" where
  "abs_write x bs f = (if bs = [] then f
     else (max (fst f) (x + length bs), \<lambda>p. if x \<le> p \<and> p < x + length bs then bs ! (p - x) else snd f p))"

definition abs_read :: "nat \<Rightarrow> nat \<Rightarrow> afile \<Rightarrow> u8 list" where
  "abs_read x n f = map (snd f) [x..<x + min n (fst f - x)]"

definition file_ready :: "sfs_fs \<Rightarrow> sfs_vnode \<Rightarrow> bool" where
  "file_ready fs sv \<longleftrightarrow> fs_ok fs \<and> sv_ok fs sv \<and> nblk fs \<le> 2 ^ 23 \<and> unat (sfi_size (sv_i sv)) \<le> max_bytes"

lemma kuio_of:
  assumes "length bs < 4294967296"
  shows "kuio_ok (length bs) (uio_kinit bs (of_nat (length bs)) pos rw) m"
    "kuio_room (uio_kinit bs (of_nat (length bs)) pos rw) m = length bs"
    "kuio_src (uio_kinit bs (of_nat (length bs)) pos rw) m = bs"
    "kuio_out (uio_kinit bs (of_nat (length bs)) pos rw) m = []"
    "uio_rw (uio_kinit bs (of_nat (length bs)) pos rw) = rw"
    "uio_offset (uio_kinit bs (of_nat (length bs)) pos rw) = pos"
    "unat (uio_resid (uio_kinit bs (of_nat (length bs)) pos rw)) = length bs"
proof -
  have n: "unat (of_nat (length bs) :: u32) = length bs" using assms by (rule unat_of_nat_u32)
  show "kuio_ok (length bs) (uio_kinit bs (of_nat (length bs)) pos rw) m"
    "kuio_room (uio_kinit bs (of_nat (length bs)) pos rw) m = length bs"
    "kuio_src (uio_kinit bs (of_nat (length bs)) pos rw) m = bs"
    "kuio_out (uio_kinit bs (of_nat (length bs)) pos rw) m = []"
    "uio_rw (uio_kinit bs (of_nat (length bs)) pos rw) = rw"
    "uio_offset (uio_kinit bs (of_nat (length bs)) pos rw) = pos"
    "unat (uio_resid (uio_kinit bs (of_nat (length bs)) pos rw)) = length bs"
    using kuio_kinit [of "of_nat (length bs)" bs pos rw] n by simp_all
qed

text \<open>A small volume of 16 blocks with blocks 3 to 15 free, and an empty file on it.\<close>

definition demo_fs :: sfs_fs where
  "demo_fs = \<lparr>sfs_sb = \<lparr>sb_magic = SFS_MAGIC, sb_nblocks = 16, sb_volname = replicate 32 0,
       sb_reserved = replicate 118 0\<rparr>,
     sfs_superdirty = False,
     sfs_device = \<lparr>lh_buf = replicate 512 0, lh_blocks = 16, lh_sectors = (\<lambda>_. replicate 512 0), lh_status = []\<rparr>,
     sfs_freemap = \<lparr>nbits = 4096, bm_v = 7 # 0 # replicate 510 0xff\<rparr>, sfs_freemapdirty = False\<rparr>"

definition demo_file :: sfs_vnode where
  "demo_file = \<lparr>sv_i = \<lparr>sfi_size = 0, sfi_type = SFS_TYPE_FILE, sfi_linkcount = 1, sfi_direct = replicate 15 0,
     sfi_indirect = 0, sfi_waste = replicate 110 0\<rparr>, sv_ino = 2, sv_dirty = False, sv_refcount = 1\<rparr>"

lemma demo_bits:
  assumes "i < 4096" shows "bits (sfs_freemap demo_fs) ! i \<longleftrightarrow> i < 3 \<or> 16 \<le> i"
proof -
  have "bits (sfs_freemap demo_fs) ! i = bit ((7 # 0 # replicate 510 0xff) ! (i div 8) :: u8) (i mod 8)"
    using assms by (subst nth_bits) (simp_all add: demo_fs_def)
  moreover consider "i < 8" | "8 \<le> i" "i < 16" | "16 \<le> i" by linarith
  then have "bit ((7 # 0 # replicate 510 0xff) ! (i div 8) :: u8) (i mod 8) \<longleftrightarrow> i < 3 \<or> 16 \<le> i"
  proof cases
    case 1
    then have "i \<in> {0, 1, 2, 3, 4, 5, 6, 7}" by auto
    then show ?thesis by auto
  next
    case 2
    then have "i div 8 = 1" by simp
    then show ?thesis using 2 by simp
  next
    case 3
    define k where "k = i div 8 - 2"
    have k: "i div 8 = Suc (Suc k)" "k < 510" using 3 assms unfolding k_def by linarith+
    have "bit (0xff :: u8) (i mod 8)" using allbits [of "0xff"] by simp
    then show ?thesis using 3 k by simp
  qed
  ultimately show ?thesis by simp
qed

lemma demo_ready: "file_ready demo_fs demo_file" "fs_free demo_fs = {3..<16}"
proof -
  have free: "fs_free demo_fs = {3..<16}"
    using demo_bits by (auto simp: bm_free_def demo_fs_def)
  then show "fs_free demo_fs = {3..<16}" .
  have "bm_ok (sfs_freemap demo_fs)" using demo_bits by (simp add: bm_ok_def) (simp add: demo_fs_def)
  then have "fs_ok demo_fs" using free by (simp add: fs_ok_def) (auto simp: demo_fs_def lhd_ok_def lhd_calm_def)
  moreover have t: "ftab demo_fs demo_file = replicate 143 0"
    by (simp add: ftab_def indtab_def demo_file_def flip: replicate_add)
  then have "sv_blocks demo_fs demo_file = {}" by (simp add: sv_blocks_def) (simp add: demo_file_def)
  with t have "sv_ok demo_fs demo_file" by (simp add: sv_ok_def) (simp add: demo_file_def)
  ultimately show "file_ready demo_fs demo_file" by (simp add: file_ready_def) (simp add: demo_fs_def demo_file_def)
qed

lemma write_ok:
  assumes "file_ready fs sv" "bs \<noteq> []" "x + length bs < 2 ^ 32"
  shows "\<exists>r u' sv' fs' m' n. sfs_write um sv (uio_kinit bs (of_nat (length bs)) (int x) UIO_WRITE) fs m =
      Some ((r, u'), sv', fs', m') \<and>
    abs_file fs' sv' = abs_write x (take n bs) (abs_file fs sv) \<and> unat (uio_resid u') = length bs - n \<and>
    file_ready fs' sv' \<and> file_step fs sv fs' sv' \<and>
    (case r of None \<Rightarrow> n = length bs
     | Some e \<Rightarrow> n < length bs \<and> (e = EFBIG \<and> max_bytes \<le> x + n \<or> e = ENOSPC \<and> card (fs_free fs') < 2))"
proof -
  define u where "u = uio_kinit bs (of_nat (length bs)) (int x) UIO_WRITE"
  have len: "length bs < 4294967296" using assms(3) by simp
  note K = kuio_of [OF len, of "int x" UIO_WRITE, folded u_def]
  have "kuio.writable (length bs) fs sv u m x" for m :: 'a
    using assms by (auto simp: kuio.writable_def file_ready_def K)
  moreover have "0 < uio_resid u" using K(7) assms(2) by (simp add: word_less_nat_alt)
  ultimately obtain r u' sv' fs' m' n where
    io: "sfs_io um sv u fs m = Some ((r, u'), sv', fs', m')" "kuio.wrote (length bs) u m n u' m'" "file_step fs sv fs' sv'"
      "\<forall>p < max_bytes. fbyte fs' sv' p = (if x \<le> p \<and> p < x + n then kuio_src u m ! (p - x) else fbyte fs sv p)"
      "unat (sfi_size (sv_i sv')) = (if n = 0 then unat (sfi_size (sv_i sv)) else max (unat (sfi_size (sv_i sv))) (x + n))"
      "0 < n \<longrightarrow> x + n \<le> max_bytes"
      "case r of None \<Rightarrow> n = unat (uio_resid u)
       | Some e \<Rightarrow> n < unat (uio_resid u) \<and> io_error e fs' (x + n)"
    using kuio.io_write [of "length bs" fs sv u m x um] by blast
  note D = kuio.wroteD [OF io(2) K(6)]
  have n: "n \<le> length bs" using D(7) K(7) by simp
  have run: "sfs_write um sv u fs m = Some ((r, u'), sv', fs', m')" using io(1) K(5) by (simp add: sfs_write_def)
  have upd: "abs_file fs' sv' = abs_write x (take n bs) (abs_file fs sv)"
  proof (cases "n = 0")
    case True
    then show ?thesis using io(4,5) by (auto simp: abs_file_def abs_write_def fun_eq_iff)
  next
    case False
    then have "length (take n bs) = n" "take n bs \<noteq> []" using n assms(2) by simp_all
    then show ?thesis using io(4-6) False by (auto simp: abs_file_def abs_write_def fun_eq_iff K(3))
  qed
  have "file_ready fs' sv'"
    using assms(1) io(3,5,6) file_stepD [OF io(3)] by (auto simp: file_ready_def)
  moreover note io(3)
  moreover have "case r of None \<Rightarrow> n = length bs
     | Some e \<Rightarrow> n < length bs \<and> (e = EFBIG \<and> max_bytes \<le> x + n \<or> e = ENOSPC \<and> card (fs_free fs') < 2)"
    using io(7) K(7) by (auto simp: io_error_def split: option.splits)
  moreover have "unat (uio_resid u') = length bs - n" using D(4) K(7) by simp
  ultimately show ?thesis using run upd unfolding u_def by blast
qed

text \<open>
  C26: writing a buffer to a file at offset x is the write of a prefix of it to the abstract
  file, on any volume whose disk has no errors: the whole buffer when the result is 0;
  otherwise the prefix ends where the volume has fewer than two free blocks left (ENOSPC) or
  at the largest file size (EFBIG). No block in use outside the file changes, and the
  invariants of the volume and of the file are kept. The cut into partial and whole blocks,
  the holes that are filled and the indirect block do not show.
\<close>

theorem sfs_write_refines:
  assumes "file_ready fs sv" "bs \<noteq> []" "x + length bs < 2 ^ 32"
  shows "\<exists>r u' sv' fs' m' n. sfs_write um sv (uio_kinit bs (of_nat (length bs)) (int x) UIO_WRITE) fs m =
      Some ((r, u'), sv', fs', m') \<and>
    abs_file fs' sv' = abs_write x (take n bs) (abs_file fs sv) \<and> unat (uio_resid u') = length bs - n \<and>
    file_ready fs' sv' \<and> fs_frame (sv_blocks fs sv) fs fs' \<and>
    (case r of None \<Rightarrow> n = length bs
     | Some e \<Rightarrow> n < length bs \<and> (e = EFBIG \<and> max_bytes \<le> x + n \<or> e = ENOSPC \<and> card (fs_free fs') < 2))"
  using write_ok [OF assms, of um m]
  by - (elim exE conjE, intro exI conjI, assumption+, simp add: file_step_iff, assumption)

theorem sfs_write_refines_witness:
  "\<exists>r u' sv' fs' m' n. sfs_write no_user demo_file (uio_kinit [1, 2, 3] (of_nat (length [1, 2, 3 :: u8])) (int 510) UIO_WRITE)
      demo_fs () = Some ((r, u'), sv', fs', m') \<and>
    abs_file fs' sv' = abs_write 510 (take n [1, 2, 3]) (abs_file demo_fs demo_file) \<and>
    unat (uio_resid u') = length [1, 2, 3 :: u8] - n \<and>
    file_ready fs' sv' \<and> fs_frame (sv_blocks demo_fs demo_file) demo_fs fs' \<and>
    (case r of None \<Rightarrow> n = length [1, 2, 3 :: u8]
     | Some e \<Rightarrow> n < length [1, 2, 3 :: u8] \<and>
         (e = EFBIG \<and> max_bytes \<le> 510 + n \<or> e = ENOSPC \<and> card (fs_free fs') < 2))"
  by (rule sfs_write_refines [OF demo_ready(1)]) simp_all

lemma read_ok:
  assumes "file_ready fs sv" "length buf < 2 ^ 32"
  shows "\<exists>u' fs' m'. sfs_read um sv (uio_kinit buf (of_nat (length buf)) (int x) UIO_READ) fs m =
      Some ((None, u'), sv, fs', m') \<and>
    kuio_out u' m' = abs_read x (length buf) (abs_file fs sv) \<and>
    unat (uio_resid u') = length buf - length (abs_read x (length buf) (abs_file fs sv)) \<and>
    abs_file fs' sv = abs_file fs sv \<and> file_ready fs' sv \<and> fs_quiet fs fs'"
proof -
  define u where "u = uio_kinit buf (of_nat (length buf)) (int x) UIO_READ"
  have len: "length buf < 4294967296" using assms(2) by simp
  note K = kuio_of [OF len, of "int x" UIO_READ, folded u_def]
  define n where "n = min (length buf) (unat (sfi_size (sv_i sv)) - x)"
  obtain u' fs' m' where io: "sfs_io um sv u fs m = Some ((None, u'), sv, fs', m')" "fs_quiet fs fs'"
      "kuio.got (length buf) u m (file_range fs sv x n) u' m'"
    using kuio.io_read [of fs sv "length buf" u m x um] assms(1) unfolding file_ready_def n_def by (auto simp: K)
  note D = kuio.gotD [OF io(3) K(6)] and Q = quiet_file [OF io(2)]
  have eq: "abs_read x (length buf) (abs_file fs sv) = file_range fs sv x n"
    using assms(1) by (auto simp: abs_read_def abs_file_def file_range_def n_def file_ready_def)
  have "sfs_read um sv u fs m = Some ((None, u'), sv, fs', m')" using io(1) K(5) by (simp add: sfs_read_def)
  moreover have "kuio_out u' m' = file_range fs sv x n" using D(6) K(4) by simp
  moreover have "abs_file fs' sv = abs_file fs sv" unfolding abs_file_def Q(2) ..
  moreover have "file_ready fs' sv" using assms(1) Q by (simp add: file_ready_def)
  ultimately show ?thesis using io(2) D(4) K(7) unfolding eq u_def by auto
qed

text \<open>
  C27: reading a file into a buffer returns the bytes of the abstract file from the offset up
  to the end of the file or of the buffer, always with result 0, and changes neither the file
  nor any block of the volume. With sfs_write_refines a write is read back as it was written.
\<close>

theorem sfs_read_refines:
  assumes "file_ready fs sv" "length buf < 2 ^ 32"
  shows "\<exists>u' fs' m'. sfs_read um sv (uio_kinit buf (of_nat (length buf)) (int x) UIO_READ) fs m =
      Some ((None, u'), sv, fs', m') \<and>
    kuio_out u' m' = abs_read x (length buf) (abs_file fs sv) \<and>
    unat (uio_resid u') = length buf - length (abs_read x (length buf) (abs_file fs sv)) \<and>
    abs_file fs' sv = abs_file fs sv \<and> file_ready fs' sv \<and> dsk fs' = dsk fs \<and> fs_free fs' = fs_free fs"
  using read_ok [OF assms, of um x m]
  by - (elim exE conjE, intro exI conjI, assumption+, simp_all add: fs_quiet_def)

theorem sfs_read_refines_witness:
  "\<exists>u' fs' m'. sfs_read no_user demo_file (uio_kinit [0, 0] (of_nat (length [0, 0 :: u8])) (int 0) UIO_READ) demo_fs () =
      Some ((None, u'), demo_file, fs', m') \<and>
    kuio_out u' m' = abs_read 0 (length [0, 0 :: u8]) (abs_file demo_fs demo_file) \<and>
    unat (uio_resid u') = length [0, 0 :: u8] - length (abs_read 0 (length [0, 0 :: u8]) (abs_file demo_fs demo_file)) \<and>
    abs_file fs' demo_file = abs_file demo_fs demo_file \<and> file_ready fs' demo_file \<and> dsk fs' = dsk demo_fs \<and>
    fs_free fs' = fs_free demo_fs"
  by (rule sfs_read_refines [OF demo_ready(1)]) simp

lemma lhd_io_empty:
  assumes "uio_offset u = 512 * int b" "uio_resid u = 0" "b \<le> unat (lh_blocks lh)"
  shows "lhd_io um u lh m = Some ((None, u), lh, m)"
proof -
  have "unat (of_nat b :: u32) = b" using assms(3) unat_u32_lt [of "lh_blocks lh"] by (intro unat_of_nat_u32) linarith
  then have "\<not> lh_blocks lh < of_nat b" using assms(3) by (simp add: word_less_nat_alt)
  moreover have "uio_offset u sdiv 512 = int b" "uio_offset u smod 512 = 0"
    using assms(1) by (simp_all add: signed_divide_int_def signed_modulo_int_def) (simp add: sgn_if)
  ultimately show ?thesis using assms(2) by (simp add: lhd_io_def Let_def)
qed

text \<open>
  C28: a media error on a write is lost. When the first completion of a block write reports
  LHD_MEDIA, lhd_io has already taken the data out of the uio, so the retry in sfs_rwblock
  asks for a transfer of 0 bytes, which succeeds: sfs_writeblock returns 0 and no block of
  the disk has changed.
\<close>

theorem writeblock_media_error_lost:
  assumes "lh_status (sfs_device fs) = c # cs" "c AND LHD_STATEMASK = LHD_MEDIA" "length (lh_buf (sfs_device fs)) = 512"
    and "length data = 512" "b < lh_blocks (sfs_device fs)"
  shows "\<exists>fs'. sfs_writeblock fs b data 512 = Some (None, fs') \<and> dsk fs' = dsk fs"
proof -
  let ?u = "SFSUIO data b UIO_WRITE" and ?lh = "sfs_device fs"
  note S = SFSUIO_simps [OF assms(4)]
  obtain u1 m1 where u1: "uiomove no_user (lh_buf ?lh) 512 ?u () = Some ((None, data, u1), m1)" "uio_moved ?u 512 u1"
    using kuio.move_write [of 512 ?u "()" 512 "lh_buf ?lh" no_user] assms(3,4) by (auto simp: S)
  have irq: "lhd_irq c = Some (Some EIO)" using assms(2) by (simp add: lhd_irq_def lhd_code_to_errno_def)
  define lh1 where "lh1 = ?lh\<lparr>lh_buf := data, lh_status := cs\<rparr>"
  have blt: "unat b < unat (lh_blocks ?lh)" using assms(5) by (simp add: word_less_nat_alt)
  have "lhd_io no_user ?u ?lh () = Some ((Some EIO, u1), lh1, m1)"
    unfolding lhd_io_sector [OF S(6,7) blt] using u1(1) irq assms(1)
    by (simp add: S lhd_op_def Let_def lh1_def)
  moreover have "uio_offset u1 = 512 * int (unat b + 1)" "uio_resid u1 = 0"
    using u1(2) by (simp_all add: uio_moved_def S)
  then have "lhd_io no_user u1 lh1 m1 = Some ((None, u1), lh1, m1)"
    using blt by (intro lhd_io_empty [where b = "unat b + 1"]) (simp_all add: lh1_def)
  ultimately have "sfs_rwblock no_user ?u fs () = Some ((None, u1), fs\<lparr>sfs_device := lh1\<rparr>, m1)"
    unfolding sfs_rwblock_def by (subst rwblock_loop.simps) (simp add: Let_def rwblock_loop.simps [of _ "Suc 0"])
  then show ?thesis by (simp add: sfs_writeblock_def lh1_def)
qed

theorem writeblock_media_error_lost_witness:
  "\<exists>fs'. sfs_writeblock (demo_fs\<lparr>sfs_device := (sfs_device demo_fs)\<lparr>lh_status := [22]\<rparr>\<rparr>) 5 (replicate 512 1) 512 =
     Some (None, fs') \<and> dsk fs' = (\<lambda>_. replicate 512 0)"
proof -
  have "(22 :: u32) AND LHD_STATEMASK = LHD_MEDIA" by code_simp
  then show ?thesis
    using writeblock_media_error_lost [of "demo_fs\<lparr>sfs_device := (sfs_device demo_fs)\<lparr>lh_status := [22]\<rparr>\<rparr>" 22 "[]"
        "replicate 512 1" 5]
    by (simp add: demo_fs_def)
qed

end
