(* ===== verification/Sfstrunc.thy ===== *)
theory Sfstrunc
  imports Sfsio
begin

text \<open>
  Truncation of an SFS file, sfs_itrunc of kern/fs/sfs/sfs_bmap.c: which blocks it gives
  back, what is left of the file, and the block past the new end that it keeps.
\<close>

subsection \<open>The loops\<close>

text \<open>The blocks of a list of block numbers that can be freed one by one.\<close>

definition owned :: "sfs_fs \<Rightarrow> u32 list \<Rightarrow> bool" where
  "owned fs xs \<longleftrightarrow> (\<forall>i < length xs. \<forall>j < length xs. i \<noteq> j \<longrightarrow> xs ! i \<noteq> 0 \<longrightarrow> xs ! i \<noteq> xs ! j) \<and>
     (\<forall>i < length xs. xs ! i \<noteq> 0 \<longrightarrow> unat (xs ! i) < nblk fs \<and> unat (xs ! i) \<notin> fs_free fs)"

definition clear_from :: "(nat \<Rightarrow> bool) \<Rightarrow> u32 list \<Rightarrow> u32 list" where
  "clear_from P xs = map (\<lambda>i. if P i then 0 else xs ! i) [0..<length xs]"

definition cutoff_blocks :: "(nat \<Rightarrow> bool) \<Rightarrow> u32 list \<Rightarrow> u32 set" where
  "cutoff_blocks P xs = {xs ! i | i. i < length xs \<and> P i} - {0}"

lemma length_clear [simp]: "length (clear_from P xs) = length xs"
  by (simp add: clear_from_def)

lemma nth_cut [simp]: "i < length xs \<Longrightarrow> clear_from P xs ! i = (if P i then 0 else xs ! i)"
  by (simp add: clear_from_def)

lemma cut_none: "(\<And>i. i < length xs \<Longrightarrow> \<not> P i) \<Longrightarrow> clear_from P xs = xs" "(\<And>i. i < length xs \<Longrightarrow> \<not> P i) \<Longrightarrow> cutoff_blocks P xs = {}"
  by (auto simp: cutoff_blocks_def intro: nth_equalityI)

lemma owned_free:
  assumes "fs_ok fs" "owned fs xs" "i < length xs" "xs ! i \<noteq> 0"
  shows "\<exists>fs'. sfs_bfree fs (xs ! i) = Some fs' \<and> fs_ok fs' \<and> fs_same fs fs' \<and> dsk fs' = dsk fs \<and>
    fs_free fs' = insert (unat (xs ! i)) (fs_free fs) \<and> owned fs' (xs[i := 0])"
proof -
  have b: "0 < xs ! i" "unat (xs ! i) < nblk fs" "unat (xs ! i) \<notin> fs_free fs"
    using assms word_neq_0_conv unfolding owned_def by blast+
  obtain fs' where fs': "sfs_bfree fs (xs ! i) = Some fs'" "fs_ok fs'" "fs_same fs fs'" "dsk fs' = dsk fs"
      "fs_free fs' = insert (unat (xs ! i)) (fs_free fs)" using bfree_ok [OF assms(1) b] by blast
  have "unat (xs ! j) \<noteq> unat (xs ! i)" if "j < length xs" "j \<noteq> i" "xs ! j \<noteq> 0" for j
    using that assms unfolding owned_def by (metis word_unat_eq_iff)
  then have "owned fs' (xs[i := 0])"
    using assms(2,3) fs'(5) fs_same_nblk(1) [OF fs'(3)] unfolding owned_def by (auto simp: nth_list_update split: if_splits)
  then show ?thesis using fs' by blast
qed

text \<open>Cutting from index i on, one index at a time.\<close>

lemma cut_step:
  assumes "i < length xs" "P i"
  shows "clear_from (\<lambda>k. Suc i \<le> k \<and> P k) (xs[i := 0]) = clear_from (\<lambda>k. i \<le> k \<and> P k) xs"
    "cutoff_blocks (\<lambda>k. i \<le> k \<and> P k) xs = (if xs ! i = 0 then {} else {xs ! i}) \<union> cutoff_blocks (\<lambda>k. Suc i \<le> k \<and> P k) (xs[i := 0])"
proof -
  show "clear_from (\<lambda>k. Suc i \<le> k \<and> P k) (xs[i := 0]) = clear_from (\<lambda>k. i \<le> k \<and> P k) xs"
    using assms by (intro nth_equalityI) (auto simp: nth_list_update Suc_le_eq order_le_less)
  have "{xs ! k | k. k < length xs \<and> i \<le> k \<and> P k} = insert (xs ! i) {xs[i := 0] ! k | k. k < length xs \<and> Suc i \<le> k \<and> P k}"
    using assms by (force simp: nth_list_update Suc_le_eq order_le_less)
  then show "cutoff_blocks (\<lambda>k. i \<le> k \<and> P k) xs =
      (if xs ! i = 0 then {} else {xs ! i}) \<union> cutoff_blocks (\<lambda>k. Suc i \<le> k \<and> P k) (xs[i := 0])"
    by (auto simp: cutoff_blocks_def)
qed

lemma cut_skip:
  assumes "\<not> P i \<or> xs ! i = 0"
  shows "clear_from (\<lambda>k. Suc i \<le> k \<and> P k) xs = clear_from (\<lambda>k. i \<le> k \<and> P k) xs"
    "cutoff_blocks (\<lambda>k. Suc i \<le> k \<and> P k) xs = cutoff_blocks (\<lambda>k. i \<le> k \<and> P k) xs"
proof -
  show "clear_from (\<lambda>k. Suc i \<le> k \<and> P k) xs = clear_from (\<lambda>k. i \<le> k \<and> P k) xs"
    using assms by (intro nth_equalityI) (auto simp: Suc_le_eq order_le_less)
  show "cutoff_blocks (\<lambda>k. Suc i \<le> k \<and> P k) xs = cutoff_blocks (\<lambda>k. i \<le> k \<and> P k) xs"
    using assms by (auto simp: cutoff_blocks_def Suc_le_eq order_le_less)
qed

text \<open>What the loops have in common: xs becomes clear_from P xs, and the blocks clear_from out are free.\<close>

definition cut_post :: "(nat \<Rightarrow> bool) \<Rightarrow> u32 list \<Rightarrow> sfs_fs \<Rightarrow> u32 list \<Rightarrow> sfs_fs \<Rightarrow> bool" where
  "cut_post P xs fs xs' fs' \<longleftrightarrow> xs' = clear_from P xs \<and> fs_ok fs' \<and> fs_same fs fs' \<and> dsk fs' = dsk fs \<and>
     fs_free fs' = fs_free fs \<union> unat ` cutoff_blocks P xs"

lemma itrunc_direct_spec:
  assumes "fs_ok fs" "owned fs (sv_direct sv)" "length (sv_direct sv) = 15" "i \<le> 15"
  shows "\<exists>sv' fs'. itrunc_direct i blocklen sv fs = Some (sv', fs') \<and> sv_same sv sv' \<and>
    sv_indirect sv' = sv_indirect sv \<and>
    cut_post (\<lambda>k. i \<le> k \<and> blocklen \<le> of_nat k) (sv_direct sv) fs (sv_direct sv') fs'"
  using assms
proof (induction "15 - i" arbitrary: i sv fs)
  case 0
  then have i: "i = 15" by simp
  have "clear_from (\<lambda>k. i \<le> k \<and> blocklen \<le> of_nat k) (sv_direct sv) = sv_direct sv"
    "cutoff_blocks (\<lambda>k. i \<le> k \<and> blocklen \<le> of_nat k) (sv_direct sv) = {}"
    using 0(4) i by (auto intro!: cut_none)
  then show ?case using 0(2) i by (simp add: itrunc_direct.simps cut_post_def)
next
  case (Suc n)
  let ?P = "\<lambda>k. blocklen \<le> of_nat k" and ?xs = "sv_direct sv"
  have i: "i < 15" "i < length ?xs" "n = 15 - Suc i" "Suc i \<le> 15" using Suc by simp_all
  show ?case
  proof (cases "?P i \<and> ?xs ! i \<noteq> 0")
    case False
    then have "itrunc_direct i blocklen sv fs = itrunc_direct (Suc i) blocklen sv fs"
      using i by (subst itrunc_direct.simps) (auto split: if_splits)
    then show ?thesis
      using Suc.hyps(1) [OF i(3) Suc.prems(1-3) i(4)] False unfolding cut_post_def by (simp add: cut_skip)
  next
    case True
    obtain fs1 where fs1: "sfs_bfree fs (?xs ! i) = Some fs1" "fs_ok fs1" "fs_same fs fs1" "dsk fs1 = dsk fs"
        "fs_free fs1 = insert (unat (?xs ! i)) (fs_free fs)" "owned fs1 (?xs[i := 0])"
      using owned_free [OF Suc.prems(1,2) i(2)] True by blast
    define sv1 where "sv1 = (set_inode (sfi_direct_update (\<lambda>_. ?xs[i := 0])) sv)\<lparr>sv_dirty := True\<rparr>"
    have sv1: "sv_direct sv1 = ?xs[i := 0]" "sv_indirect sv1 = sv_indirect sv" "sv_same sv sv1"
      by (simp_all add: sv1_def set_inode_def sv_same_def)
    have "itrunc_direct i blocklen sv fs = itrunc_direct (Suc i) blocklen sv1 fs1"
      using i True fs1(1) by (subst itrunc_direct.simps) (simp add: sv1_def)
    moreover obtain sv' fs' where "itrunc_direct (Suc i) blocklen sv1 fs1 = Some (sv', fs')" "sv_same sv1 sv'"
        "sv_indirect sv' = sv_indirect sv1"
        "cut_post (\<lambda>k. Suc i \<le> k \<and> ?P k) (?xs[i := 0]) fs1 (sv_direct sv') fs'"
      using Suc.hyps(1) [OF i(3) fs1(2), of sv1] fs1(6) sv1 Suc.prems(3) i(4) by auto
    ultimately show ?thesis
      using cut_step [of i ?xs ?P] True i(2) fs1 sv1 fs_same_trans [OF fs1(3)] sv_same_trans [OF sv1(3)]
      by (auto simp: cut_post_def)
  qed
qed


lemma nth_clear_from_0: "(\<exists>k < length xs. clear_from P xs ! k \<noteq> 0) \<longleftrightarrow> (\<exists>k < length xs. \<not> P k \<and> xs ! k \<noteq> 0)"
  by (auto split: if_splits)

lemma itrunc_indirect_spec:
  assumes "fs_ok fs" "owned fs xs" "length xs = 128" "j \<le> 128"
  shows "\<exists>xs' fs'. itrunc_indirect j blocklen xs nz dirty fs =
      Some ((xs', nz \<or> (\<exists>k < 128. j \<le> k \<and> xs' ! k \<noteq> 0),
        dirty \<or> (\<exists>k < 128. j \<le> k \<and> blocklen < 15 + of_nat k \<and> xs ! k \<noteq> 0)), fs') \<and>
    cut_post (\<lambda>k. j \<le> k \<and> blocklen < 15 + of_nat k) xs fs xs' fs'"
  using assms
proof (induction "128 - j" arbitrary: j xs nz dirty fs)
  case 0
  then have j: "j = 128" by simp
  have "clear_from (\<lambda>k. j \<le> k \<and> blocklen < 15 + of_nat k) xs = xs"
    "cutoff_blocks (\<lambda>k. j \<le> k \<and> blocklen < 15 + of_nat k) xs = {}"
    using 0(4) j by (auto intro!: cut_none)
  then show ?case using 0(2) j by (auto simp: itrunc_indirect.simps cut_post_def)
next
  case (Suc n)
  let ?P = "\<lambda>k. blocklen < 15 + of_nat k"
  have j: "j < 128" "j < length xs" "n = 128 - Suc j" "Suc j \<le> 128" using Suc by simp_all
  have ex: "(\<exists>k < 128. j \<le> k \<and> Q k) \<longleftrightarrow> Q j \<or> (\<exists>k < 128. Suc j \<le> k \<and> Q k)" for Q
    using j(1) by (metis Suc_leD Suc_leI le_neq_implies_less order_refl)
  show ?case
  proof (cases "?P j \<and> xs ! j \<noteq> 0")
    case False
    then have run: "itrunc_indirect j blocklen xs nz dirty fs = itrunc_indirect (Suc j) blocklen xs (nz \<or> xs ! j \<noteq> 0) dirty fs"
      using j by (subst itrunc_indirect.simps) auto
    obtain xs' fs' where IH: "itrunc_indirect (Suc j) blocklen xs (nz \<or> xs ! j \<noteq> 0) dirty fs =
        Some ((xs', (nz \<or> xs ! j \<noteq> 0) \<or> (\<exists>k < 128. Suc j \<le> k \<and> xs' ! k \<noteq> 0),
          dirty \<or> (\<exists>k < 128. Suc j \<le> k \<and> ?P k \<and> xs ! k \<noteq> 0)), fs')"
        "cut_post (\<lambda>k. Suc j \<le> k \<and> ?P k) xs fs xs' fs'"
      using Suc.hyps(1) [OF j(3) Suc.prems(1-3) j(4)] by blast
    have "xs' ! j = xs ! j" using IH(2) j(2) by (simp add: cut_post_def)
    then show ?thesis using run IH False unfolding ex cut_post_def by (auto simp: cut_skip)
  next
    case True
    obtain fs1 where fs1: "sfs_bfree fs (xs ! j) = Some fs1" "fs_ok fs1" "fs_same fs fs1" "dsk fs1 = dsk fs"
        "fs_free fs1 = insert (unat (xs ! j)) (fs_free fs)" "owned fs1 (xs[j := 0])"
      using owned_free [OF Suc.prems(1,2) j(2)] True by blast
    have run: "itrunc_indirect j blocklen xs nz dirty fs = itrunc_indirect (Suc j) blocklen (xs[j := 0]) nz True fs1"
      using j True fs1(1) by (subst itrunc_indirect.simps) simp
    obtain xs' fs' where IH: "itrunc_indirect (Suc j) blocklen (xs[j := 0]) nz True fs1 =
        Some ((xs', nz \<or> (\<exists>k < 128. Suc j \<le> k \<and> xs' ! k \<noteq> 0), True), fs')"
        "cut_post (\<lambda>k. Suc j \<le> k \<and> ?P k) (xs[j := 0]) fs1 xs' fs'"
      using Suc.hyps(1) [OF j(3) fs1(2,6) _ j(4), of nz True] Suc.prems(3) by auto
    have "xs' ! j = 0" using IH(2) j(2) by (simp add: cut_post_def)
    moreover have "cut_post (\<lambda>k. j \<le> k \<and> ?P k) xs fs xs' fs'"
      using IH(2) cut_step [of j xs ?P] True j(2) fs1 fs_same_trans [OF fs1(3)] by (auto simp: cut_post_def)
    ultimately show ?thesis using run IH(1) True unfolding ex by auto
  qed
qed


text \<open>The indirect block: its entries are cut, and the block itself goes when none is left.\<close>

definition idcut_post :: "(nat \<Rightarrow> bool) \<Rightarrow> sfs_fs \<Rightarrow> sfs_vnode \<Rightarrow> sfs_fs \<Rightarrow> sfs_vnode \<Rightarrow> bool" where
  "idcut_post P fs sv fs' sv' \<longleftrightarrow> fs_ok fs' \<and> fs_same fs fs' \<and> sv_same sv sv' \<and> sv_direct sv' = sv_direct sv \<and>
     indtab fs' sv' = clear_from P (indtab fs sv) \<and> sv_indirect sv' \<in> {0, sv_indirect sv} \<and>
     fs_free fs' = fs_free fs \<union> unat ` cutoff_blocks P (indtab fs sv) \<union>
       (if sv_indirect sv' = sv_indirect sv then {} else {unat (sv_indirect sv)}) \<and>
     (\<forall>b. sv_indirect sv = 0 \<or> b \<noteq> unat (sv_indirect sv) \<longrightarrow> dsk fs' b = dsk fs b)"

lemma idblock_skip:
  assumes "fs_ok fs" "\<not> (blocklen < 142 \<and> sv_indirect sv \<noteq> 0)" "unat blocklen \<le> 143"
  shows "itrunc_idblock blocklen sv fs = Some (None, sv, fs)" "idcut_post (\<lambda>k. unat blocklen < 15 + k) fs sv fs sv"
proof -
  show "itrunc_idblock blocklen sv fs = Some (None, sv, fs)" using assms(2) by (auto simp: itrunc_idblock_def Let_def)
  have z: "indtab fs sv ! k = 0" if "k < 128" "unat blocklen < 15 + k" for k
  proof -
    have "sv_indirect sv = 0" using that assms(2) by (auto simp: word_less_nat_alt)
    then show ?thesis using that by (simp add: indtab_def)
  qed
  then have "clear_from (\<lambda>k. unat blocklen < 15 + k) (indtab fs sv) = indtab fs sv"
    by (intro nth_equalityI) auto
  moreover have "cutoff_blocks (\<lambda>k. unat blocklen < 15 + k) (indtab fs sv) = {}"
    using z by (auto simp: cutoff_blocks_def)
  ultimately show "idcut_post (\<lambda>k. unat blocklen < 15 + k) fs sv fs sv" using assms(1) by (simp add: idcut_post_def)
qed

lemma past_end: "k < 128 \<Longrightarrow> (blocklen :: u32) < 15 + of_nat k \<longleftrightarrow> unat blocklen < 15 + k"
proof -
  assume "k < 128"
  then have "unat (15 + of_nat k :: u32) = 15 + k" using unat_of_nat_u32 [of "15 + k"] by simp
  then show ?thesis by (simp add: word_less_nat_alt)
qed

lemma clear_from_cong:
  assumes "\<And>k. k < length xs \<Longrightarrow> P k = Q k"
  shows "clear_from P xs = clear_from Q xs" "cutoff_blocks P xs = cutoff_blocks Q xs"
  using assms by (auto simp: clear_from_def cutoff_blocks_def)

lemma idblock_cut:
  assumes "fs_ok fs" "blocklen < 142" "sv_indirect sv \<noteq> 0" "owned fs (indtab fs sv)"
    and "unat (sv_indirect sv) < nblk fs" "unat (sv_indirect sv) \<notin> fs_free fs" "sv_indirect sv \<notin> set (indtab fs sv)"
  shows "\<exists>sv' fs'. itrunc_idblock blocklen sv fs = Some (None, sv', fs') \<and>
    idcut_post (\<lambda>k. unat blocklen < 15 + k) fs sv fs' sv' \<and> (blocklen = 0 \<longrightarrow> sv_indirect sv' = 0)"
proof -
  let ?id = "sv_indirect sv" and ?P = "\<lambda>k. unat blocklen < 15 + k" and ?xs = "indtab fs sv"
  obtain fs1 where fs1: "sfs_readblock fs ?id (replicate 512 0) 512 = Some ((None, dsk fs (unat ?id)), fs1)"
      "fs_keep fs fs1" "dsk fs1 = dsk fs"
    using readblock_ok [OF assms(1,5), of "replicate 512 0"] by auto
  have k1: "fs_ok fs1" "fs_same fs fs1" "fs_free fs1 = fs_free fs" using fs1(2) by (simp_all add: fs_keep_def)
  have xs: "words_of 128 (dsk fs (unat ?id)) = ?xs" using assms(3) by (simp add: indtab_def)
  have "owned fs1 ?xs" using assms(4) k1 fs_same_nblk(1) [OF k1(2)] by (simp add: owned_def)
  then obtain ys fs2 where ys: "itrunc_indirect 0 blocklen ?xs False False fs1 =
        Some ((ys, \<exists>k < 128. ys ! k \<noteq> 0, \<exists>k < 128. blocklen < 15 + of_nat k \<and> ?xs ! k \<noteq> 0), fs2)"
      "cut_post (\<lambda>k. blocklen < 15 + of_nat k) ?xs fs1 ys fs2"
    using itrunc_indirect_spec [OF k1(1), of ?xs 0 blocklen False False] by auto
  have cg: "clear_from (\<lambda>k. blocklen < 15 + of_nat k) ?xs = clear_from ?P ?xs"
    "cutoff_blocks (\<lambda>k. blocklen < 15 + of_nat k) ?xs = cutoff_blocks ?P ?xs"
    by (rule clear_from_cong, simp add: past_end)+
  have p2: "ys = clear_from ?P ?xs" "fs_ok fs2" "fs_same fs fs2" "dsk fs2 = dsk fs"
      "fs_free fs2 = fs_free fs \<union> unat ` cutoff_blocks ?P ?xs"
    using ys(2) k1 fs1(3) fs_same_trans [OF k1(2)] by (simp_all add: cut_post_def cg)
  have len: "length ys = 128" by (simp add: p2(1))
  have all: "blocklen \<noteq> 0" if "\<exists>k < 128. ys ! k \<noteq> 0" using that by (auto simp: p2(1))
  have nb: "nblk fs2 = nblk fs" by (rule fs_same_nblk(1) [OF p2(3)])
  have run: "itrunc_idblock blocklen sv fs =
      (if \<not> (\<exists>k < 128. ys ! k \<noteq> 0)
       then do {
         fs3 \<leftarrow> sfs_bfree fs2 ?id;
         Some (None, (set_inode (sfi_indirect_update (\<lambda>_. 0)) sv)\<lparr>sv_dirty := True\<rparr>, fs3)
       }
       else if (\<exists>k < 128. blocklen < 15 + of_nat k \<and> ?xs ! k \<noteq> 0)
       then do {
         (r, fs3) \<leftarrow> sfs_writeblock fs2 ?id (bytes_of ys) 512;
         Some (r, sv, fs3)
       }
       else Some (None, sv, fs2))"
    using assms(2,3) fs1(1) ys(1) by (simp add: itrunc_idblock_def Let_def xs)
  consider (empty) "\<not> (\<exists>k < 128. ys ! k \<noteq> 0)"
    | (dirty) "\<exists>k < 128. ys ! k \<noteq> 0" "\<exists>k < 128. blocklen < 15 + of_nat k \<and> ?xs ! k \<noteq> 0"
    | (clean) "\<exists>k < 128. ys ! k \<noteq> 0" "\<not> (\<exists>k < 128. blocklen < 15 + of_nat k \<and> ?xs ! k \<noteq> 0)" by blast
  then show ?thesis
  proof cases
    case empty
    have "unat ?id \<notin> fs_free fs2"
    proof -
      have "?id \<notin> cutoff_blocks ?P ?xs" using assms(7) by (auto simp: cutoff_blocks_def)
      then show ?thesis using assms(6) by (auto simp: p2(5)) (metis word_unat_eq_iff)
    qed
    moreover have "0 < ?id" using assms(3) word_neq_0_conv by blast
    ultimately obtain fs3 where fs3: "sfs_bfree fs2 ?id = Some fs3" "fs_ok fs3" "fs_same fs2 fs3" "dsk fs3 = dsk fs2"
        "fs_free fs3 = insert (unat ?id) (fs_free fs2)"
      using bfree_ok [OF p2(2)] assms(5) nb by metis
    define sv3 where "sv3 = (set_inode (sfi_indirect_update (\<lambda>_. 0)) sv)\<lparr>sv_dirty := True\<rparr>"
    have "ys = replicate 128 0" using empty len by (intro nth_equalityI) auto
    then have "idcut_post ?P fs sv fs3 sv3"
      using fs3 p2 fs_same_trans [OF p2(3) fs3(3)] assms(3)
      by (auto simp: idcut_post_def sv3_def set_inode_def sv_same_def indtab_def)
    moreover have "itrunc_idblock blocklen sv fs = Some (None, sv3, fs3)" using run empty fs3(1) by (simp add: sv3_def)
    moreover have "sv_indirect sv3 = 0" by (simp add: sv3_def set_inode_def)
    ultimately show ?thesis by blast
  next
    case dirty
    obtain fs3 where fs3: "sfs_writeblock fs2 ?id (bytes_of ys) 512 = Some (None, fs3)" "fs_keep fs2 fs3"
        "dsk fs3 = (dsk fs2)(unat ?id := bytes_of ys)"
      using writeblock_ok [OF p2(2), of ?id "bytes_of ys"] assms(5) nb len by auto
    have "indtab fs3 sv = ys" using fs3(3) assms(3) len by (simp add: indtab_def)
    then have "idcut_post ?P fs sv fs3 sv"
      using fs3 p2 fs_same_trans [OF p2(3)] assms(3) by (auto simp: idcut_post_def fs_keep_def)
    moreover have "itrunc_idblock blocklen sv fs = Some (None, sv, fs3)" using run dirty fs3(1) by simp
    ultimately show ?thesis using all [OF dirty(1)] by blast
  next
    case clean
    have "clear_from ?P ?xs = ?xs" using clean(2) by (intro nth_equalityI) (auto simp: past_end)
    moreover have "indtab fs2 sv = ?xs" using p2(4) by (simp add: indtab_def)
    ultimately have "idcut_post ?P fs sv fs2 sv" using p2 by (simp add: idcut_post_def)
    moreover have "itrunc_idblock blocklen sv fs = Some (None, sv, fs2)" using run clean by simp
    ultimately show ?thesis using all [OF clean(1)] by blast
  qed
qed


subsection \<open>Truncation of a file\<close>

text \<open>The blocks of a file are its own: they can be freed one by one.\<close>

lemma sv_ok_distinct:
  "sv_ok fs sv \<Longrightarrow> i < 143 \<Longrightarrow> j < 143 \<Longrightarrow> i \<noteq> j \<Longrightarrow> ftab fs sv ! i \<noteq> 0 \<Longrightarrow> ftab fs sv ! i \<noteq> ftab fs sv ! j"
  unfolding sv_ok_def by blast

lemma owned_direct:
  assumes "sv_ok fs sv"
  shows "owned fs (sv_direct sv)"
proof -
  have t: "sv_direct sv ! i = ftab fs sv ! i" if "i < 15" for i using ftab_direct [OF assms that] by simp
  have "sv_direct sv ! i \<noteq> sv_direct sv ! j" if "i < 15" "j < 15" "i \<noteq> j" "sv_direct sv ! i \<noteq> 0" for i j
    using sv_ok_distinct [OF assms, of i j] that t [of i] t [of j] by simp
  moreover have "unat (sv_direct sv ! i) < nblk fs \<and> unat (sv_direct sv ! i) \<notin> fs_free fs"
    if "i < 15" "sv_direct sv ! i \<noteq> 0" for i using ftab_block(2,3) [OF assms, of i] that t [of i] by simp
  ultimately show ?thesis using sv_direct_length [OF assms] by (simp add: owned_def)
qed

lemma owned_indirect:
  assumes "sv_ok fs sv" "fs_same fs fs1" "fs_free fs1 \<subseteq> fs_free fs \<union> unat ` (set (sv_direct sv) - {0})"
  shows "owned fs1 (indtab fs sv)"
proof -
  have t: "indtab fs sv ! i = ftab fs sv ! (15 + i)" if "i < 128" for i using ftab_indirect [OF assms(1) that] by simp
  have "indtab fs sv ! i \<noteq> indtab fs sv ! j" if "i < 128" "j < 128" "i \<noteq> j" "indtab fs sv ! i \<noteq> 0" for i j
    using sv_ok_distinct [OF assms(1), of "15 + i" "15 + j"] that t [of i] t [of j] by simp
  moreover have "unat (indtab fs sv ! i) < nblk fs1 \<and> unat (indtab fs sv ! i) \<notin> fs_free fs1"
    if i: "i < 128" "indtab fs sv ! i \<noteq> 0" for i
  proof -
    have f: "unat (indtab fs sv ! i) < nblk fs" "unat (indtab fs sv ! i) \<notin> fs_free fs"
      using ftab_block(2,3) [OF assms(1), of "15 + i"] i t [of i] by simp_all
    have "unat (indtab fs sv ! i) \<noteq> unat b" if b: "b \<in> set (sv_direct sv)" for b
    proof -
      obtain j where j: "j < 15" "sv_direct sv ! j = b"
        using b unfolding in_set_conv_nth sv_direct_length [OF assms(1)] by blast
      have nz: "ftab fs sv ! (15 + i) \<noteq> 0" using i(2) unfolding t [OF i(1)] .
      have "ftab fs sv ! (15 + i) \<noteq> ftab fs sv ! j"
        using i(1) j(1) by (intro sv_ok_distinct [OF assms(1) _ _ _ nz]) linarith+
      then have "indtab fs sv ! i \<noteq> b" unfolding t [OF i(1)] ftab_direct [OF assms(1) j(1)] j(2) .
      then show ?thesis by (metis word_unat_eq_iff)
    qed
    then have "unat (indtab fs sv ! i) \<notin> unat ` (set (sv_direct sv) - {0})" by blast
    then show ?thesis using f assms(3) unfolding fs_same_nblk(1) [OF assms(2)] by blast
  qed
  ultimately show ?thesis by (simp add: owned_def)
qed

text \<open>The file blocks that are cut.\<close>

abbreviation (input) trunc_cut :: "nat \<Rightarrow> nat \<Rightarrow> bool" where
  "trunc_cut bl k \<equiv> (if k < 15 then bl \<le> k else bl < k)"

lemma clear_from_append:
  "clear_from P (xs @ ys) = clear_from P xs @ clear_from (\<lambda>k. P (length xs + k)) ys"
  "cutoff_blocks P (xs @ ys) = cutoff_blocks P xs \<union> cutoff_blocks (\<lambda>k. P (length xs + k)) ys"
proof -
  show "clear_from P (xs @ ys) = clear_from P xs @ clear_from (\<lambda>k. P (length xs + k)) ys"
    by (intro nth_equalityI) (auto simp: nth_append)
  have "{(xs @ ys) ! i | i. i < length (xs @ ys) \<and> P i} =
      {xs ! i | i. i < length xs \<and> P i} \<union> {ys ! i | i. i < length ys \<and> P (length xs + i)}" (is "?A = ?B \<union> ?C")
  proof
    show "?A \<subseteq> ?B \<union> ?C"
    proof
      fix z assume "z \<in> ?A"
      then obtain i where i: "z = (xs @ ys) ! i" "i < length (xs @ ys)" "P i" by blast
      show "z \<in> ?B \<union> ?C"
      proof (cases "i < length xs")
        case True
        then show ?thesis using i by (auto simp: nth_append)
      next
        case False
        then have "z = ys ! (i - length xs)" "i - length xs < length ys" "P (length xs + (i - length xs))"
          using i by (simp_all add: nth_append)
        then show ?thesis by blast
      qed
    qed
    show "?B \<union> ?C \<subseteq> ?A" by (fastforce simp: nth_append)
  qed
  then show "cutoff_blocks P (xs @ ys) = cutoff_blocks P xs \<union> cutoff_blocks (\<lambda>k. P (length xs + k)) ys"
    by (auto simp: cutoff_blocks_def)
qed


lemma trunc_blocklen:
  assumes "len \<le> max_bytes"
  shows "unat (word_of_int ((int len + 511) sdiv 512) :: u32) = (len + 511) div 512" "(len + 511) div 512 \<le> 143"
proof -
  have "(int len + 511) sdiv 512 = int ((len + 511) div 512)" by (auto simp: signed_divide_int_def sgn_if zdiv_int)
  moreover show le: "(len + 511) div 512 \<le> 143" using assms by linarith
  ultimately show "unat (word_of_int ((int len + 511) sdiv 512) :: u32) = (len + 511) div 512"
    by (simp add: unat_of_nat_u32)
qed

text \<open>What both loops leave, for the whole block table.\<close>

lemma itrunc_blocks:
  assumes "fs_ok fs" "sv_ok fs sv" "unat blocklen \<le> 143"
  shows "\<exists>sv1 fs1 sv2 fs2. itrunc_direct 0 blocklen sv fs = Some (sv1, fs1) \<and>
    itrunc_idblock blocklen sv1 fs1 = Some (None, sv2, fs2) \<and> fs_ok fs2 \<and> fs_same fs fs2 \<and> sv_same sv sv2 \<and>
    length (sv_direct sv2) = 15 \<and> ftab fs2 sv2 = clear_from (trunc_cut (unat blocklen)) (ftab fs sv) \<and>
    sv_indirect sv2 \<in> {0, sv_indirect sv} \<and>
    fs_free fs2 = fs_free fs \<union> unat ` cutoff_blocks (trunc_cut (unat blocklen)) (ftab fs sv) \<union>
      (if sv_indirect sv2 = sv_indirect sv then {} else {unat (sv_indirect sv)}) \<and>
    (\<forall>b. sv_indirect sv = 0 \<or> b \<noteq> unat (sv_indirect sv) \<longrightarrow> dsk fs2 b = dsk fs b) \<and>
    (blocklen = 0 \<longrightarrow> sv_indirect sv2 = 0)"
proof -
  let ?bl = "unat blocklen" and ?PI = "\<lambda>k. unat blocklen < 15 + k"
  have len: "length (sv_direct sv) = 15" by (rule sv_direct_length [OF assms(2)])
  obtain sv1 fs1 where D: "itrunc_direct 0 blocklen sv fs = Some (sv1, fs1)" "sv_same sv sv1"
      "sv_indirect sv1 = sv_indirect sv" "cut_post (\<lambda>k. blocklen \<le> of_nat k) (sv_direct sv) fs (sv_direct sv1) fs1"
    using itrunc_direct_spec [OF assms(1) owned_direct [OF assms(2)] len, of 0 blocklen] by auto
  have cong: "blocklen \<le> of_nat k \<longleftrightarrow> trunc_cut ?bl k" if "k < length (sv_direct sv)" for k
    using that len by (simp add: word_le_nat_alt unat_of_nat_u32)
  have d1: "sv_direct sv1 = clear_from (trunc_cut ?bl) (sv_direct sv)" "fs_ok fs1" "fs_same fs fs1" "dsk fs1 = dsk fs"
      "fs_free fs1 = fs_free fs \<union> unat ` cutoff_blocks (trunc_cut ?bl) (sv_direct sv)"
    using D(4) clear_from_cong [OF cong] unfolding cut_post_def by simp_all
  have ind1: "indtab fs1 sv1 = indtab fs sv" by (simp add: indtab_def D(3) d1(4))
  have fr1: "fs_free fs1 \<subseteq> fs_free fs \<union> unat ` (set (sv_direct sv) - {0})"
    unfolding d1(5) cutoff_blocks_def by auto
  have "\<exists>sv2 fs2. itrunc_idblock blocklen sv1 fs1 = Some (None, sv2, fs2) \<and> idcut_post ?PI fs1 sv1 fs2 sv2 \<and>
      (blocklen = 0 \<longrightarrow> sv_indirect sv2 = 0)"
  proof (cases "blocklen < 142 \<and> sv_indirect sv1 \<noteq> 0")
    case False
    then have "blocklen = 0 \<longrightarrow> sv_indirect sv1 = 0" by auto
    then show ?thesis using idblock_skip [OF d1(2) False assms(3)] by blast
  next
    case True
    then have nz: "sv_indirect sv \<noteq> 0" "blocklen < 142" by (simp_all add: D(3))
    note ib = indirect_block [OF assms(2) nz(1)]
    have notin: "sv_indirect sv \<notin> set (sv_direct sv)" "sv_indirect sv \<notin> set (indtab fs sv)"
      using assms(2) nz(1) unfolding sv_ok_def ftab_def by auto
    have "unat (sv_indirect sv) \<notin> unat ` (set (sv_direct sv) - {0})"
      using notin(1) by (metis (no_types, lifting) Diff_iff imageE word_unat_eq_iff)
    then have "unat (sv_indirect sv) \<notin> fs_free fs1" using ib(3) fr1 by blast
    moreover have "unat (sv_indirect sv) < nblk fs1" unfolding fs_same_nblk(1) [OF d1(3)] by (rule ib(2))
    moreover have "owned fs1 (indtab fs sv)" by (rule owned_indirect [OF assms(2) d1(3) fr1])
    ultimately show ?thesis using idblock_cut [OF d1(2) nz(2), of sv1] nz(1) notin(2) unfolding ind1 D(3) by blast
  qed
  then obtain sv2 fs2 where I: "itrunc_idblock blocklen sv1 fs1 = Some (None, sv2, fs2)" "idcut_post ?PI fs1 sv1 fs2 sv2"
      "blocklen = 0 \<longrightarrow> sv_indirect sv2 = 0"
    by blast
  note P = I(2) [unfolded idcut_post_def ind1 D(3)]
  have split: "clear_from (trunc_cut ?bl) (ftab fs sv) = clear_from (trunc_cut ?bl) (sv_direct sv) @ clear_from ?PI (indtab fs sv)"
    "cutoff_blocks (trunc_cut ?bl) (ftab fs sv) = cutoff_blocks (trunc_cut ?bl) (sv_direct sv) \<union> cutoff_blocks ?PI (indtab fs sv)"
    unfolding ftab_def clear_from_append len by simp_all
  have "ftab fs2 sv2 = clear_from (trunc_cut ?bl) (ftab fs sv)" unfolding split ftab_def [of fs2] using P d1(1) by simp
  moreover have "fs_free fs2 = fs_free fs \<union> unat ` cutoff_blocks (trunc_cut ?bl) (ftab fs sv) \<union>
      (if sv_indirect sv2 = sv_indirect sv then {} else {unat (sv_indirect sv)})"
    unfolding split using P d1(5) by (simp add: image_Un Un_assoc)
  moreover have "length (sv_direct sv2) = 15" using P d1(1) len by simp
  moreover have "fs_same fs fs2" "sv_same sv sv2"
    using P fs_same_trans [OF d1(3)] sv_same_trans [OF D(2)] by blast+
  ultimately show ?thesis using D(1) I(1,3) P d1(4) by auto
qed


lemma set_clear_from: "set (clear_from P xs) \<subseteq> insert 0 (set xs)"
proof
  fix b assume "b \<in> set (clear_from P xs)"
  then obtain i where "i < length xs" "clear_from P xs ! i = b" by (auto simp: in_set_conv_nth)
  then show "b \<in> insert 0 (set xs)" by (auto split: if_splits)
qed

lemma cutoff_or_kept:
  "set xs - {0} = cutoff_blocks P xs \<union> (set (clear_from P xs) - {0})" (is "?L = ?R")
proof
  show "?L \<subseteq> ?R"
  proof
    fix b assume "b \<in> ?L"
    then obtain i where i: "i < length xs" "xs ! i = b" "b \<noteq> 0" by (auto simp: in_set_conv_nth)
    show "b \<in> ?R"
    proof (cases "P i")
      case True
      then show ?thesis using i by (auto simp: cutoff_blocks_def)
    next
      case False
      then have "clear_from P xs ! i = b" using i by simp
      then show ?thesis using i by (metis DiffI UnCI length_clear nth_mem singletonD)
    qed
  qed
  show "?R \<subseteq> ?L" using set_clear_from by (force simp: cutoff_blocks_def)
qed

lemma cutoff_not_kept:
  assumes "sv_ok fs sv" "b \<in> cutoff_blocks P (ftab fs sv)"
  shows "b \<notin> set (clear_from P (ftab fs sv))" "b \<noteq> sv_indirect sv" "b \<noteq> 0"
proof -
  obtain i where i: "i < 143" "P i" "ftab fs sv ! i = b" "b \<noteq> 0"
    using assms(2) length_ftab [OF assms(1)] by (auto simp: cutoff_blocks_def)
  have "clear_from P (ftab fs sv) ! j \<noteq> b" if "j < 143" for j
    using sv_ok_distinct [OF assms(1) i(1) that] i that length_ftab [OF assms(1)] by (cases "i = j") auto
  then show "b \<notin> set (clear_from P (ftab fs sv))" using length_ftab [OF assms(1)] by (auto simp: in_set_conv_nth)
  show "b \<noteq> sv_indirect sv" using ftab_block(4) [OF assms(1) i(1)] i by auto
  show "b \<noteq> 0" by (rule i(4))
qed

lemma trunc_sv_ok:
  assumes "sv_ok fs sv" "fs_same fs fs2" "length (sv_direct sv2) = 15" "ftab fs2 sv2 = clear_from P (ftab fs sv)"
    and "sv_indirect sv2 \<in> {0, sv_indirect sv}"
    and "fs_free fs2 = fs_free fs \<union> unat ` cutoff_blocks P (ftab fs sv) \<union>
      (if sv_indirect sv2 = sv_indirect sv then {} else {unat (sv_indirect sv)})"
  shows "sv_ok fs2 sv2" "fs_free fs2 = fs_free fs \<union> unat ` (sv_blocks fs sv - sv_blocks fs2 sv2)"
    "sv_blocks fs2 sv2 \<subseteq> sv_blocks fs sv"
proof -
  let ?t = "ftab fs sv" and ?t2 = "ftab fs2 sv2"
  have len: "length ?t = 143" by (rule length_ftab [OF assms(1)])
  show sub: "sv_blocks fs2 sv2 \<subseteq> sv_blocks fs sv"
    using set_clear_from [of P ?t] assms(5) unfolding sv_blocks_def assms(4) by auto
  have "sv_blocks fs sv - sv_blocks fs2 sv2 = cutoff_blocks P ?t \<union>
      (if sv_indirect sv2 = sv_indirect sv then {} else {sv_indirect sv})"
  proof -
    have i: "sv_indirect sv \<notin> set (clear_from P ?t)" if "sv_indirect sv \<noteq> 0"
      using assms(1) that set_clear_from [of P ?t] unfolding sv_ok_def by auto
    have c: "b \<notin> set (clear_from P ?t) \<and> b \<noteq> sv_indirect sv \<and> b \<noteq> 0 \<and> b \<in> set ?t" if "b \<in> cutoff_blocks P ?t" for b
      using cutoff_not_kept [OF assms(1) that] that cutoff_or_kept [of ?t P] by blast
    show ?thesis
    proof (intro equalityI subsetI)
      fix b assume b: "b \<in> sv_blocks fs sv - sv_blocks fs2 sv2"
      then have in1: "b = sv_indirect sv \<or> b \<in> set ?t" "b \<noteq> 0" unfolding sv_blocks_def by simp_all
      have n: "b \<noteq> sv_indirect sv2" "b \<notin> set (clear_from P ?t)"
        using b in1(2) unfolding sv_blocks_def assms(4) by simp_all
      show "b \<in> cutoff_blocks P ?t \<union> (if sv_indirect sv2 = sv_indirect sv then {} else {sv_indirect sv})"
      proof (cases "b \<in> set ?t")
        case True
        then have "b \<in> set ?t - {0}" using in1(2) by simp
        then show ?thesis using n(2) unfolding cutoff_or_kept [of ?t P] by simp
      next
        case False
        then show ?thesis using in1(1) n(1) by simp
      qed
    next
      fix b assume "b \<in> cutoff_blocks P ?t \<union> (if sv_indirect sv2 = sv_indirect sv then {} else {sv_indirect sv})"
      then consider "b \<in> cutoff_blocks P ?t" | "b = sv_indirect sv" "sv_indirect sv2 \<noteq> sv_indirect sv"
        by (auto split: if_splits)
      then show "b \<in> sv_blocks fs sv - sv_blocks fs2 sv2"
      proof cases
        case 1
        have "b \<noteq> sv_indirect sv2" using c [OF 1] assms(5) by blast
        then show ?thesis using c [OF 1] unfolding sv_blocks_def assms(4) by simp
      next
        case 2
        then have "sv_indirect sv2 = 0" "sv_indirect sv \<noteq> 0" using assms(5) by auto
        then show ?thesis using i 2(1) unfolding sv_blocks_def assms(4) by simp
      qed
    qed
  qed
  then show fr: "fs_free fs2 = fs_free fs \<union> unat ` (sv_blocks fs sv - sv_blocks fs2 sv2)"
    unfolding assms(6) by auto
  have "unat b < nblk fs2 \<and> unat b \<notin> fs_free fs2" if b: "b \<in> sv_blocks fs2 sv2" for b
  proof -
    have "b \<in> sv_blocks fs sv" using sub b by blast
    then have "unat b < nblk fs" "unat b \<notin> fs_free fs" using assms(1) unfolding sv_ok_def by blast+
    moreover have "unat b \<notin> unat ` (sv_blocks fs sv - sv_blocks fs2 sv2)"
      using b by (metis DiffD2 imageE word_unat_eq_iff)
    ultimately show ?thesis unfolding fr fs_same_nblk(1) [OF assms(2)] by blast
  qed
  moreover have "?t2 ! i \<noteq> ?t2 ! j" if "i < 143" "j < 143" "i \<noteq> j" "?t2 ! i \<noteq> 0" for i j
    using sv_ok_distinct [OF assms(1) that(1-3)] that len unfolding assms(4) by (auto split: if_splits)
  moreover have "sv_indirect sv2 \<notin> set ?t2" if "sv_indirect sv2 \<noteq> 0"
    using assms(1,5) that set_clear_from [of P ?t] unfolding sv_ok_def assms(4) by auto
  ultimately show "sv_ok fs2 sv2" using assms(3) unfolding sv_ok_def by blast
qed


lemma itrunc_ok:
  assumes "file_ready fs sv" "len \<le> max_bytes"
  shows "\<exists>sv' fs'. sfs_itrunc sv (int len) fs = Some (None, sv', fs') \<and> file_ready fs' sv' \<and>
    unat (sfi_size (sv_i sv')) = len \<and>
    (let bl = (len + 511) div 512 in
      ftab fs' sv' = map (\<lambda>k. if k < bl \<or> 15 \<le> k \<and> k = bl then ftab fs sv ! k else 0) [0..<143]) \<and>
    fs_free fs' = fs_free fs \<union> unat ` (sv_blocks fs sv - sv_blocks fs' sv') \<and> sv_blocks fs' sv' \<subseteq> sv_blocks fs sv \<and>
    map (fbyte fs' sv') [0..<len] = map (fbyte fs sv) [0..<len] \<and> fs_frame (sv_blocks fs sv) fs fs' \<and>
    fs_same fs fs' \<and> sv_dirty sv' \<and> sv_ino sv' = sv_ino sv \<and> sv_refcount sv' = sv_refcount sv \<and>
    sfi_type (sv_i sv') = sfi_type (sv_i sv) \<and> sfi_linkcount (sv_i sv') = sfi_linkcount (sv_i sv) \<and>
    sfi_waste (sv_i sv') = sfi_waste (sv_i sv) \<and> (len = 0 \<longrightarrow> sv_blocks fs' sv' = {})"
proof -
  define blocklen where "blocklen = (word_of_int ((int len + 511) sdiv 512) :: u32)"
  define bl where "bl = (len + 511) div 512"
  have bl: "unat blocklen = bl" "bl \<le> 143"
    using trunc_blocklen [OF assms(2)] by (simp_all add: blocklen_def bl_def)
  have ok: "fs_ok fs" "sv_ok fs sv" using assms(1) by (simp_all add: file_ready_def)
  obtain sv1 fs1 sv2 fs2 where R: "itrunc_direct 0 blocklen sv fs = Some (sv1, fs1)"
      "itrunc_idblock blocklen sv1 fs1 = Some (None, sv2, fs2)"
    and F: "fs_ok fs2" "fs_same fs fs2" "sv_same sv sv2" "length (sv_direct sv2) = 15"
      "ftab fs2 sv2 = clear_from (trunc_cut bl) (ftab fs sv)" "sv_indirect sv2 \<in> {0, sv_indirect sv}"
      "fs_free fs2 = fs_free fs \<union> unat ` cutoff_blocks (trunc_cut bl) (ftab fs sv) \<union>
        (if sv_indirect sv2 = sv_indirect sv then {} else {unat (sv_indirect sv)})"
      "\<forall>b. sv_indirect sv = 0 \<or> b \<noteq> unat (sv_indirect sv) \<longrightarrow> dsk fs2 b = dsk fs b"
      "blocklen = 0 \<longrightarrow> sv_indirect sv2 = 0"
    using itrunc_blocks [OF ok, of blocklen] bl by auto
  note S = trunc_sv_ok [OF ok(2) F(2,4-7)]
  define sv3 where "sv3 = (set_inode (sfi_size_update (\<lambda>_. word_of_int (int len))) sv2)\<lparr>sv_dirty := True\<rparr>"
  have run: "sfs_itrunc sv (int len) fs = Some (None, sv3, fs2)"
    unfolding sfs_itrunc_def Let_def blocklen_def [symmetric] R sv3_def by (simp add: R)
  have t3: "ftab fs2 sv3 = ftab fs2 sv2" "sv_blocks fs2 sv3 = sv_blocks fs2 sv2" "sv_ok fs2 sv3 = sv_ok fs2 sv2"
    by (simp_all add: sv3_def set_inode_def ftab_def indtab_def sv_blocks_def sv_ok_def)
  have sz: "unat (sfi_size (sv_i sv3)) = len" using assms(2) by (simp add: sv3_def set_inode_def unat_of_nat_u32)
  have "file_ready fs2 sv3"
    using F(1) S(1) sz assms fs_same_nblk(1) [OF F(2)] by (simp add: file_ready_def t3)
  moreover have "ftab fs2 sv3 = map (\<lambda>k. if k < bl \<or> 15 \<le> k \<and> k = bl then ftab fs sv ! k else 0) [0..<143]"
    unfolding t3 F(5) by (intro nth_equalityI) (auto simp: length_ftab [OF ok(2)])
  moreover have "fbyte fs2 sv3 p = fbyte fs sv p" if "p < len" for p
  proof -
    have k: "p div 512 < bl" using that unfolding bl_def by linarith
    then have e: "ftab fs2 sv3 ! (p div 512) = ftab fs sv ! (p div 512)"
      unfolding t3 F(5) using bl(2) by (simp add: length_ftab [OF ok(2)])
    show ?thesis
    proof (cases "ftab fs sv ! (p div 512) = 0")
      case False
      then have "unat (ftab fs sv ! (p div 512)) \<noteq> unat (sv_indirect sv)"
        using ftab_block(4) [OF ok(2) _ False] k bl(2) by (metis order_less_le_trans word_unat_eq_iff)
      then have "dsk fs2 (unat (ftab fs sv ! (p div 512))) = dsk fs (unat (ftab fs sv ! (p div 512)))" using F(8) by blast
      then show ?thesis by (simp add: fbyte_def e Let_def)
    qed (simp add: fbyte_def e)
  qed
  then have "map (fbyte fs2 sv3) [0..<len] = map (fbyte fs sv) [0..<len]" by simp
  moreover have "fs_frame (sv_blocks fs sv) fs fs2"
  proof -
    have "dsk fs2 n = dsk fs n" if "n \<notin> unat ` sv_blocks fs sv" for n
      using that F(8) indirect_block(1) [OF ok(2)] by (metis imageI)
    then show ?thesis unfolding fs_frame_def S(2) by blast
  qed
  moreover have "sv_dirty sv3 \<and> sv_ino sv3 = sv_ino sv \<and> sv_refcount sv3 = sv_refcount sv \<and>
    sfi_type (sv_i sv3) = sfi_type (sv_i sv) \<and> sfi_linkcount (sv_i sv3) = sfi_linkcount (sv_i sv) \<and>
    sfi_waste (sv_i sv3) = sfi_waste (sv_i sv)" using F(3) by (simp add: sv3_def set_inode_def sv_same_def)
  moreover have "len = 0 \<longrightarrow> sv_blocks fs2 sv3 = {}"
  proof
    assume that: "len = 0"
    have "unat blocklen = 0" using that bl(1) by (simp add: bl_def)
    then have "blocklen = 0" by (metis unat_0 word_unat_eq_iff)
    then have "sv_indirect sv2 = 0" using F(9) by simp
    moreover have "set (ftab fs2 sv2) \<subseteq> {0}"
      unfolding F(5) using that by (auto simp: in_set_conv_nth bl_def)
    ultimately have "sv_blocks fs2 sv2 = {}" unfolding sv_blocks_def by auto
    then show "sv_blocks fs2 sv3 = {}" by (simp add: t3)
  qed
  ultimately show ?thesis using run sz S F(2) unfolding bl_def Let_def
    by (intro exI [of _ sv3] exI [of _ fs2] conjI) (simp_all only: t3)
qed


text \<open>
  C29: what sfs_itrunc leaves of a file, on a disk without errors. It succeeds, sets the size,
  gives back to the free map exactly the blocks that the file no longer has, touches no other
  file, and keeps every byte below the new size. A file that fits its direct blocks keeps
  the blocks below the new end only. A longer one also keeps the block whose number is the
  new length in blocks, which lies past the end: the comparison for the indirect block is
  off by one.
\<close>

theorem sfs_itrunc_exact:
  assumes "file_ready fs sv" "len \<le> max_bytes"
  shows "\<exists>sv' fs'. sfs_itrunc sv (int len) fs = Some (None, sv', fs') \<and> file_ready fs' sv' \<and>
    unat (sfi_size (sv_i sv')) = len \<and>
    (let bl = (len + 511) div 512 in
      ftab fs' sv' = map (\<lambda>k. if k < bl \<or> 15 \<le> k \<and> k = bl then ftab fs sv ! k else 0) [0..<143]) \<and>
    fs_free fs' = fs_free fs \<union> unat ` (sv_blocks fs sv - sv_blocks fs' sv') \<and> sv_blocks fs' sv' \<subseteq> sv_blocks fs sv \<and>
    map (fbyte fs' sv') [0..<len] = map (fbyte fs sv) [0..<len] \<and> fs_frame (sv_blocks fs sv) fs fs'"
  using itrunc_ok [OF assms] by blast

text \<open>A file of one block, number 2 of the small volume.\<close>

definition demo_file1 :: sfs_vnode where
  "demo_file1 = set_inode (sfi_direct_update (\<lambda>_. 2 # replicate 14 0) o sfi_size_update (\<lambda>_. 512)) demo_file"

lemma demo_file1_ready: "file_ready demo_fs demo_file1"
proof -
  have "ftab demo_fs demo_file1 = 2 # replicate 142 0"
    by (simp add: ftab_def indtab_def demo_file1_def demo_file_def set_inode_def flip: replicate_add)
  moreover have i: "sv_indirect demo_file1 = 0" "length (sv_direct demo_file1) = 15" "sfi_size (sv_i demo_file1) = 512"
    by (simp_all add: demo_file1_def demo_file_def set_inode_def)
  ultimately have t: "ftab demo_fs demo_file1 = 2 # replicate 142 0" "sv_blocks demo_fs demo_file1 = {2}"
    by (auto simp: sv_blocks_def)
  have nth: "(2 # replicate 142 0) ! k = (if k = 0 then 2 else 0 :: u32)" if "k < 143" for k
    using that by (cases k) auto
  have "nblk demo_fs = 16" by (simp add: demo_fs_def)
  then have "sv_ok demo_fs demo_file1" using i demo_ready(2) nth unfolding sv_ok_def t by auto
  then show ?thesis using demo_ready(1) i by (simp add: file_ready_def)
qed

theorem sfs_itrunc_exact_witness:
  "\<exists>sv' fs'. sfs_itrunc demo_file1 (int 0) demo_fs = Some (None, sv', fs') \<and> file_ready fs' sv' \<and>
    unat (sfi_size (sv_i sv')) = 0 \<and>
    (let bl = (0 + 511) div 512 in
      ftab fs' sv' = map (\<lambda>k. if k < bl \<or> 15 \<le> k \<and> k = bl then ftab demo_fs demo_file1 ! k else 0) [0..<143]) \<and>
    fs_free fs' = fs_free demo_fs \<union> unat ` (sv_blocks demo_fs demo_file1 - sv_blocks fs' sv') \<and>
    sv_blocks fs' sv' \<subseteq> sv_blocks demo_fs demo_file1 \<and>
    map (fbyte fs' sv') [0..<0] = map (fbyte demo_fs demo_file1) [0..<0] \<and>
    fs_frame (sv_blocks demo_fs demo_file1) demo_fs fs'"
  by (rule sfs_itrunc_exact [OF demo_file1_ready]) simp

end
