(* ===== verification/Sfsexec.thy ===== *)
theory Sfsexec
  imports Program Sfstrunc
begin

text \<open>
  Programs on an SFS volume: VOP_READ of an SFS file is what the loader relies on, and with it
  runprogram starts a process whose memory is the executable's. Here the file system, the
  loader, the address space and demand paging meet.
\<close>

subsection \<open>VOP_READ of an SFS file\<close>

definition sfs_vop_read :: "(sfs_vnode \<times> sfs_fs) reader" where
  "sfs_vop_read u w = do {
     ((r, u1), sv1, fs1, _) \<leftarrow> sfs_read no_user (fst w) u (snd w) ();
     Some ((r, u1), (sv1, fs1))
   }"

definition file_content :: "sfs_vnode \<times> sfs_fs \<Rightarrow> u8 list" where
  "file_content w = map (fbyte (snd w) (fst w)) [0..<unat (sfi_size (sv_i (fst w)))]"

lemma file_content_slice:
  "take n (drop x (file_content (sv, fs))) = file_range fs sv x (min n (unat (sfi_size (sv_i sv)) - x))"
  by (intro nth_equalityI) (auto simp: file_content_def file_range_def)

interpretation sfs_exec: file_reader sfs_vop_read "\<lambda>w. file_ready (snd w) (fst w) \<and> file_content w = f" f for f
proof unfold_locales
  fix w :: "sfs_vnode \<times> sfs_fs" and n x :: nat
  assume w: "file_ready (snd w) (fst w) \<and> file_content w = f" and n: "n < 4294967296"
  obtain sv fs where sf: "w = (sv, fs)" by (cases w)
  define u where "u = uio_kinit (replicate n 0) (of_nat n) (int x) UIO_READ"
  note K = kuio_of [of "replicate n 0" "int x" UIO_READ, unfolded length_replicate, OF n, folded u_def]
  define m where "m = min n (unat (sfi_size (sv_i sv)) - x)"
  obtain u' fs' where io: "sfs_io no_user sv u fs () = Some ((None, u'), sv, fs', ())" "fs_quiet fs fs'"
      "kuio.got n u () (file_range fs sv x m) u' ()"
    using kuio.io_read [of fs sv n u "()" x no_user] w unfolding file_ready_def m_def sf by (auto simp: K)
  note D = kuio.gotD [OF io(3) K(6)] and Q = quiet_file [OF io(2)]
  have sl: "take n (drop x f) = file_range fs sv x m" using w file_content_slice [of n x sv fs] unfolding sf m_def by simp
  have run: "sfs_vop_read u w = Some ((None, u'), (sv, fs'))"
    using io(1) K(5) by (simp add: sfs_vop_read_def sfs_read_def sf)
  have ok: "file_ready fs' sv \<and> file_content (sv, fs') = f"
    using w Q unfolding sf by (simp add: file_ready_def file_content_def)
  have res: "unat (uio_resid u') = n - length (take n (drop x f))" unfolding sl using D(4) K(7) by simp
  have "iov_kbuf (hd (uio_iov u')) = take n (drop x f)" if "x + n \<le> length f"
  proof -
    have "kuio_out u' () = file_range fs sv x m" using D(6) K(4) by simp
    moreover have "length (file_range fs sv x m) = n" using that unfolding sl [symmetric] by simp
    ultimately show ?thesis using kuio_out_full [of n u' "()"] D(1) unfolding sl by simp
  qed
  then show "\<exists>u v'. sfs_vop_read (uio_kinit (replicate n 0) (of_nat n) (int x) UIO_READ) w = Some ((None, u), v') \<and>
      (file_ready (snd v') (fst v') \<and> file_content v' = f) \<and> unat (uio_resid u) = n - length (take n (drop x f)) \<and>
      (x + n \<le> length f \<longrightarrow> iov_kbuf (hd (uio_iov u)) = take n (drop x f))"
    using run ok res unfolding u_def by auto
qed


subsection \<open>From the executable to the running program\<close>

text \<open>
  C2: a program that is started has the memory its executable describes, and goes on having
  it. If vfs_open gave an SFS file that is an ELF executable for this machine, whose load
  segments lie below the stack, share no page, keep the page offsets of the file, do not straddle
  a page boundary when shorter than a page and have no bytes past p_filesz (elf_image, load_sound),
  if no read of the file fails and there is kernel memory for the page table, then runprogram
  reads its headers from the disk, starts the process at the entry point with the stack pointer
  USERSTACK, and leaves a state in which demand paging works (the invariant vm_inv); the memory is
  that of the executable with 18 zeroed stack pages, and whatever the process loads and
  stores from then on, it sees a flat memory that started with these bytes.
\<close>

theorem runprogram_starts:
  assumes "file_ready fs sv" "file_content (sv, fs) = vs_files s vn" "elf_image (vs_files s vn) eh qs"
    and "\<forall>p \<in> set qs. load_sound p" "ready_for a s" "sum_list (map load_cost qs) + 21 \<le> k"
    and "vs_elf_io s vn = (\<lambda>_. None)"
  shows "\<exists>s' k' w'. runprogram sfs_vop_read (Inr vn) a s k (sv, fs) = Some (Running USERSTACK (e_entry eh), s', k', w') \<and>
    vm_inv a None s' \<and> byte_view a s' = elf_memory (vs_files s vn) qs \<and>
    (\<forall>ops bs s''. user_run ops s' = Some (bs, s'') \<longrightarrow>
      flat_run ops (elf_memory (vs_files s vn) qs) = Some (bs, byte_view a s''))"
proof -
  have ok: "file_ready (snd (sv, fs)) (fst (sv, fs)) \<and> file_content (sv, fs) = vs_files s vn" using assms(1,2) by simp
  obtain s' k' w' where r: "runprogram sfs_vop_read (Inr vn) a s k (sv, fs) = Some (Running USERSTACK (e_entry eh), s', k', w')"
      "vm_inv a None s'" "byte_view a s' = elf_memory (vs_files s vn) qs"
    using runprogram_ok [OF sfs_exec.file_reader_axioms ok assms(3-7)] by blast
  have "flat_run ops (elf_memory (vs_files s vn) qs) = Some (bs, byte_view a s'')" if "user_run ops s' = Some (bs, s'')"
    for ops bs s''
    using vmem.run_refines_flat [OF r(2)] that unfolding user_run_def flat_run_def r(3) [symmetric] by blast
  then show ?thesis using r by blast
qed

text \<open>
  C30: what load_elf refuses. For an address space that has no executable yet: on a disk without errors
  an SFS file that is too short for a header, or whose header is not that of a big-endian 32-bit MIPS
  executable of version 1, is refused with ENOEXEC before anything is defined, and whatever else is
  wrong, ENOEXEC is the only error. Whatever the file system and its disk do, an error of load_elf is
  ENOEXEC or an error that a read of the file returned, and the address space is then still
  without an executable, a state for which as_destroy halts the kernel.
\<close>

theorem load_elf_errors:
  assumes "file_ready fs sv" "as_elf_file as = NULL"
  shows "(EHDR_SIZE \<le> length (file_content (sv, fs)) \<and> elf_header_ok (ehdr_of (take EHDR_SIZE (file_content (sv, fs)))) \<or>
      (\<exists>w'. load_elf sfs_vop_read vn as k (sv, fs) = Some (Inl ENOEXEC, as, k, w'))) \<and>
    (\<forall>e as' k' w'. load_elf sfs_vop_read vn as k (sv, fs) = Some (Inl e, as', k', w') \<longrightarrow> e = ENOEXEC) \<and>
    (\<forall>e as' k' w'. load_elf rd vn as k w = Some (Inl e, as', k', w') \<longrightarrow>
      (e = ENOEXEC \<or> read_fails rd e) \<and> as_destroy a as' s = None)"
proof (intro conjI allI impI)
  have ok: "file_ready (snd (sv, fs)) (fst (sv, fs)) \<and> file_content (sv, fs) = file_content (sv, fs)" using assms(1) by simp
  show "EHDR_SIZE \<le> length (file_content (sv, fs)) \<and> elf_header_ok (ehdr_of (take EHDR_SIZE (file_content (sv, fs)))) \<or>
      (\<exists>w'. load_elf sfs_vop_read vn as k (sv, fs) = Some (Inl ENOEXEC, as, k, w'))"
    using sfs_exec.load_elf_bad_header [OF ok] by blast
  show "e = ENOEXEC" if "load_elf sfs_vop_read vn as k (sv, fs) = Some (Inl e, as', k', w')" for e as' k' w'
    using sfs_exec.load_elf_error [OF ok that] by blast
next
  fix e as' k' w'
  assume "load_elf rd vn as k w = Some (Inl e, as', k', w')"
  from load_elf_any_error [OF this] show "e = ENOEXEC \<or> read_fails rd e" "as_destroy a as' s = None"
    using assms(2) by (simp_all add: as_destroy_def vfs_close_def)
qed

subsection \<open>An executable on the small volume\<close>

text \<open>A header, and one program header: 84 bytes of the file at 0x400000, readable and executable.\<close>

definition demo_elf :: "u8 list" where
  "demo_elf = [0x7f, 0x45, 0x4c, 0x46, 1, 2, 1, 0, 0, 0, 0, 0, 0, 0, 0, 0,
     0, 2, 0, 8, 0, 0, 0, 1, 0, 0x40, 0, 0, 0, 0, 0, 52, 0, 0, 0, 0, 0, 0, 0, 0,
     0, 52, 0, 32, 0, 1, 0, 0, 0, 0, 0, 0,
     0, 0, 0, 1, 0, 0, 0, 0, 0, 0x40, 0, 0, 0, 0, 0, 0, 0, 0, 0, 84, 0, 0, 0, 84, 0, 0, 0, 5, 0, 0, 0x10, 0]"

definition demo_ehdr :: Elf_Ehdr where
  "demo_ehdr = \<lparr>e_ident = [0x7f, 0x45, 0x4c, 0x46, 1, 2, 1, 0, 0, 0, 0, 0, 0, 0, 0, 0], e_type = 2, e_machine = 8,
     e_version = 1, e_entry = 0x400000, e_phoff = 52, e_shoff = 0, e_flags = 0, e_ehsize = 52, e_phentsize = 32,
     e_phnum = 1, e_shentsize = 0, e_shnum = 0, e_shstrndx = 0\<rparr>"

definition demo_phdr :: Elf_Phdr where
  "demo_phdr = \<lparr>p_type = PT_LOAD, p_offset = 0, p_vaddr = 0x400000, p_paddr = 0, p_filesz = 84, p_memsz = 84,
     p_flags = 5, p_align = 0x1000\<rparr>"

lemma demo_elf_image: "elf_image demo_elf demo_ehdr [demo_phdr]"
proof -
  have eh: "ehdr_of (take EHDR_SIZE demo_elf) = demo_ehdr" by code_simp
  have off: "phdr_offset demo_ehdr 0 = 52" by code_simp
  have ph: "phdr_at demo_elf demo_ehdr 0 = demo_phdr" by code_simp
  have len: "length demo_elf = 84" by code_simp
  have hd: "elf_header_ok demo_ehdr" by code_simp
  have num: "unat (e_phnum demo_ehdr) = 1" by (simp add: demo_ehdr_def)
  have "load_fits demo_phdr" by (simp add: load_fits_def demo_phdr_def)
  moreover have "phdr_in demo_elf demo_ehdr 0" by (simp add: phdr_in_def ph off len demo_phdr_def)
  moreover have "p_type demo_phdr = PT_LOAD" by (simp add: demo_phdr_def)
  ultimately show ?thesis by (simp add: elf_image_def eh hd num len ph)
qed

definition demo_elf_fs :: sfs_fs where
  "demo_elf_fs = demo_fs\<lparr>sfs_device := (sfs_device demo_fs)\<lparr>lh_sectors :=
     (\<lambda>_. replicate 512 0)(2 := demo_elf @ replicate 428 0)\<rparr>\<rparr>"

definition demo_elf_file :: sfs_vnode where
  "demo_elf_file = set_inode (sfi_size_update (\<lambda>_. 84)) demo_file1"


lemma demo_elf_ready: "file_ready demo_elf_fs demo_elf_file" "file_content (demo_elf_file, demo_elf_fs) = demo_elf"
proof -
  have len: "length demo_elf = 84" by code_simp
  have i: "sv_indirect demo_elf_file = 0" "sv_direct demo_elf_file = 2 # replicate 14 0" "sfi_size (sv_i demo_elf_file) = 84"
    by (simp_all add: demo_elf_file_def demo_file1_def Sfsio.demo_file_def set_inode_def)
  have fs: "sfs_freemap demo_elf_fs = sfs_freemap demo_fs" "sfs_sb demo_elf_fs = sfs_sb demo_fs"
      "lh_blocks (sfs_device demo_elf_fs) = lh_blocks (sfs_device demo_fs)"
      "dsk demo_elf_fs = (\<lambda>_. replicate 512 0)(2 := demo_elf @ replicate 428 0)"
      "lh_buf (sfs_device demo_elf_fs) = lh_buf (sfs_device demo_fs)"
      "lh_status (sfs_device demo_elf_fs) = lh_status (sfs_device demo_fs)"
    by (simp_all add: demo_elf_fs_def)
  have demo: "fs_ok demo_fs" "nblk demo_fs \<le> 2 ^ 23" using demo_ready(1) by (simp_all add: file_ready_def)
  then have "fs_ok demo_elf_fs" using len unfolding fs_ok_def lhd_ok_def lhd_calm_def fs by simp
  moreover have t: "ftab demo_elf_fs demo_elf_file = 2 # replicate 142 0" "sv_blocks demo_elf_fs demo_elf_file = {2}"
    by (auto simp: ftab_def indtab_def i sv_blocks_def simp flip: replicate_add)
  have nth: "(2 # replicate 142 0) ! k = (if k = 0 then 2 else 0 :: u32)" if "k < 143" for k
    using that by (cases k) auto
  have "nblk demo_elf_fs = 16" by (simp add: fs demo_fs_def)
  then have "sv_ok demo_elf_fs demo_elf_file" using i demo_ready(2) nth unfolding sv_ok_def t fs by auto
  ultimately show "file_ready demo_elf_fs demo_elf_file" using demo(2) i(3) by (simp add: file_ready_def fs)
  have "fbyte demo_elf_fs demo_elf_file p = demo_elf ! p" if "p < 84" for p
  proof -
    have "p div 512 = 0" "p mod 512 = p" using that by simp_all
    then show ?thesis using that len by (simp add: fbyte_def t fs nth_append)
  qed
  then show "file_content (demo_elf_file, demo_elf_fs) = demo_elf"
    using len i(3) by (intro nth_equalityI) (simp_all add: file_content_def)
qed

text \<open>The kernel of theory Paging's small machine, before it has a process.\<close>

definition demo_kernel :: vmstate where
  "demo_kernel = vm_demo\<lparr>vs_as := NULL, vs_files := (\<lambda>_. demo_elf)\<rparr>"

lemma demo_kernel_ready: "ready_for 1 demo_kernel"
proof -
  have "cm_wf (vs_cmap vm_demo)" "swap_inv (vs_swap vm_demo)" using vm_invD(3,10) [OF vm_demo_inv] by simp_all
  moreover have "length (tlb_slots (vs_tlb vm_demo)) = NUM_TLB" "next_victim (vs_tlb vm_demo) < NUM_TLB"
    using vm_invD(4) [OF vm_demo_inv] by (simp_all add: tlb_wf_def)
  moreover have "sw_as e \<noteq> Some a" if "e \<in> set (fst swap_demo)" for e a
    using that by (simp add: swap_demo_def swapspace_bootstrap_def empty_slot_def)
  ultimately show ?thesis by (simp add: ready_for_def demo_kernel_def free_cm_entry_def)
qed

theorem runprogram_starts_witness:
  "\<exists>s' k' w'. runprogram sfs_vop_read (Inr 7) 1 demo_kernel 100 (demo_elf_file, demo_elf_fs) =
      Some (Running USERSTACK 0x400000, s', k', w') \<and> byte_view 1 s' 0x400001 = Some 0x45"
proof -
  have f: "vs_files demo_kernel 7 = demo_elf" by (simp add: demo_kernel_def)
  have io: "vs_elf_io demo_kernel 7 = (\<lambda>_. None)" by (simp add: demo_kernel_def)
  have s: "load_sound demo_phdr" by (simp add: load_sound_def demo_phdr_def region_pages_def)
  have c: "sum_list (map load_cost [demo_phdr]) + 21 \<le> 100"
    by (simp add: load_cost_def demo_phdr_def region_pages_def)
  obtain s' k' w' where r: "runprogram sfs_vop_read (Inr 7) 1 demo_kernel 100 (demo_elf_file, demo_elf_fs) =
      Some (Running USERSTACK (e_entry demo_ehdr), s', k', w')" "byte_view 1 s' = elf_memory demo_elf [demo_phdr]"
    using runprogram_starts [OF demo_elf_ready(1), of demo_kernel 7 demo_ehdr "[demo_phdr]" 1 100, unfolded f]
      demo_elf_ready(2) demo_elf_image s c io demo_kernel_ready by auto
  have "elf_memory demo_elf [demo_phdr] 0x400001 = Some 0x45"
    by (simp add: elf_memory_def in_load_def load_byte_def demo_phdr_def demo_elf_def)
  then show ?thesis using r by (auto simp: demo_ehdr_def)
qed

theorem load_elf_errors_witness:
  "\<exists>w'. load_elf sfs_vop_read 7 as_empty 10 (Sfsio.demo_file, demo_fs) = Some (Inl ENOEXEC, as_empty, 10, w')"
proof -
  have "file_content (Sfsio.demo_file, demo_fs) = []" by (simp add: file_content_def Sfsio.demo_file_def)
  then show ?thesis using load_elf_errors [OF demo_ready(1), of as_empty 7 10 sfs_vop_read] by (simp add: as_empty_def)
qed

end
