(* ===== verification/Sfsdir.thy ===== *)
theory Sfsdir
  imports Sfsio
begin

text \<open>
  SFS directories, kern/fs/sfs/sfs_dir.c: a directory is a file of 64-byte slots, each an
  inode number and a name, or free. The theorems say that searching, linking and unlinking
  are lookup, update and removal in a map from names to inode numbers.
\<close>

abbreviation (input) SFS_NAMELEN :: nat where "SFS_NAMELEN \<equiv> 60"
abbreviation (input) SFS_NOINO :: u32 where "SFS_NOINO \<equiv> 0"
abbreviation (input) SFS_ROOTDIR_INO :: u32 where "SFS_ROOTDIR_INO \<equiv> 1"
abbreviation (input) DIRENT_SIZE :: nat where "DIRENT_SIZE \<equiv> 64"

record sfs_direntry =
  sfd_ino :: u32
  sfd_name :: "u8 list"

definition direntry_of :: "u8 list \<Rightarrow> sfs_direntry" where
  "direntry_of bs = \<lparr>sfd_ino = of_be32 bs, sfd_name = take SFS_NAMELEN (drop 4 bs)\<rparr>"

definition direntry_bytes :: "sfs_direntry \<Rightarrow> u8 list" where
  "direntry_bytes sd = be32 (sfd_ino sd) @ sfd_name sd"

text \<open>The string in an array of characters. A C string that is passed as an argument is the list
  of its characters, without the terminating zero.\<close>

definition cstr :: "u8 list \<Rightarrow> u8 list" where
  "cstr bs = takeWhile (\<lambda>c. c \<noteq> 0) bs"

definition sfs_readdir :: "sfs_vnode \<Rightarrow> int \<Rightarrow> sfs_fs \<Rightarrow> ((errno + sfs_direntry) \<times> sfs_vnode \<times> sfs_fs) option" where
  "sfs_readdir sv slot fs = do {
     let actualpos = int (unat (word_of_int slot * (64 :: u32)));
     ((r, bs), sv1, fs1) \<leftarrow> sfs_metaio sv actualpos (replicate DIRENT_SIZE 0) DIRENT_SIZE UIO_READ fs;
     Some ((case r of Some e \<Rightarrow> Inl e | None \<Rightarrow> Inr (direntry_of bs)), sv1, fs1)
   }"

definition sfs_writedir :: "sfs_vnode \<Rightarrow> int \<Rightarrow> sfs_direntry \<Rightarrow> sfs_fs \<Rightarrow> (status \<times> sfs_vnode \<times> sfs_fs) option" where
  "sfs_writedir sv slot sd fs = do {
     kassert (slot \<ge> 0);
     let actualpos = int (unat (word_of_int slot * (64 :: u32)));
     ((r, _), sv1, fs1) \<leftarrow> sfs_metaio sv actualpos (direntry_bytes sd) DIRENT_SIZE UIO_WRITE fs;
     Some (r, sv1, fs1)
   }"

definition sfs_dir_nentries :: "sfs_vnode \<Rightarrow> nat option" where
  "sfs_dir_nentries sv = do {
     kassert (sfi_type (sv_i sv) = SFS_TYPE_DIR);
     let sz = unat (sfi_size (sv_i sv));
     if sz mod DIRENT_SIZE \<noteq> 0 then None else Some (sz div DIRENT_SIZE)
   }"

text \<open>
  The loop of sfs_dir_findname over the slots i, ..., i + n - 1. The variable found and the
  results stored through ino and slot are one option; emptyslot is what has been stored there.
\<close>

type_synonym found = "(u32 \<times> int) option"

fun findname_loop ::
  "nat \<Rightarrow> nat \<Rightarrow> u8 list \<Rightarrow> found \<Rightarrow> int \<Rightarrow> sfs_vnode \<Rightarrow> sfs_fs \<Rightarrow> ((status \<times> found \<times> int) \<times> sfs_vnode \<times> sfs_fs) option" where
  "findname_loop 0 i nm found emptyslot sv fs =
     Some ((if found = None then Some ENOENT else None, found, emptyslot), sv, fs)"
| "findname_loop (Suc n) i nm found emptyslot sv fs = do {
     (r, sv1, fs1) \<leftarrow> sfs_readdir sv (int i) fs;
     (case r of
        Inl e \<Rightarrow> Some ((Some e, found, emptyslot), sv1, fs1)
      | Inr tsd \<Rightarrow>
          if sfd_ino tsd = SFS_NOINO then findname_loop n (i + 1) nm found (int i) sv1 fs1
          else if cstr (take (SFS_NAMELEN - 1) (sfd_name tsd)) = nm
          then do {
            kassert (found = None);
            findname_loop n (i + 1) nm (Some (sfd_ino tsd, int i)) emptyslot sv1 fs1
          }
          else findname_loop n (i + 1) nm found emptyslot sv1 fs1)
   }"

definition sfs_dir_findname ::
  "sfs_vnode \<Rightarrow> u8 list \<Rightarrow> int \<Rightarrow> sfs_fs \<Rightarrow> ((status \<times> found \<times> int) \<times> sfs_vnode \<times> sfs_fs) option" where
  "sfs_dir_findname sv nm emptyslot fs = do {
     nentries \<leftarrow> sfs_dir_nentries sv;
     findname_loop nentries 0 nm None emptyslot sv fs
   }"

definition sfs_dir_link ::
  "sfs_vnode \<Rightarrow> u8 list \<Rightarrow> u32 \<Rightarrow> sfs_fs \<Rightarrow> ((errno + int) \<times> sfs_vnode \<times> sfs_fs) option" where
  "sfs_dir_link sv nm ino fs = do {
     ((r, _, emptyslot), sv1, fs1) \<leftarrow> sfs_dir_findname sv nm (-1) fs;
     if r \<noteq> None \<and> r \<noteq> Some ENOENT then Some (Inl (the r), sv1, fs1)
     else if r = None then Some (Inl EEXIST, sv1, fs1)
     else if length nm + 1 > SFS_NAMELEN then Some (Inl ENAMETOOLONG, sv1, fs1)
     else do {
       slot \<leftarrow> (if emptyslot < 0 then do { n \<leftarrow> sfs_dir_nentries sv1; Some (int n) } else Some emptyslot);
       let sd = \<lparr>sfd_ino = ino, sfd_name = nm @ replicate (SFS_NAMELEN - length nm) 0\<rparr>;
       (r2, sv2, fs2) \<leftarrow> sfs_writedir sv1 slot sd fs1;
       Some ((case r2 of Some e \<Rightarrow> Inl e | None \<Rightarrow> Inr slot), sv2, fs2)
     }
   }"

definition sfs_dir_unlink :: "sfs_vnode \<Rightarrow> int \<Rightarrow> sfs_fs \<Rightarrow> (status \<times> sfs_vnode \<times> sfs_fs) option" where
  "sfs_dir_unlink sv slot fs =
     sfs_writedir sv slot \<lparr>sfd_ino = SFS_NOINO, sfd_name = replicate SFS_NAMELEN 0\<rparr> fs"

subsection \<open>Metadata in a file\<close>

lemma direntry_of_bytes [simp]: "length (sfd_name sd) = 60 \<Longrightarrow> direntry_of (direntry_bytes sd) = sd"
  by (cases sd) (simp add: direntry_of_def direntry_bytes_def)

lemma length_direntry_bytes [simp]: "length (sfd_name sd) = 60 \<Longrightarrow> length (direntry_bytes sd) = 64"
  by (simp add: direntry_bytes_def)

lemma blockoffset_of_nat: "unat (word_of_int (int x smod 512) :: u32) = x mod 512"
  using unat_of_nat_u32 [of "x mod 512"] by (simp add: smod_of_nat)

lemma meta_read:
  assumes "fs_ok fs" "sv_ok fs sv" "x mod 512 + n \<le> 512" "x < max_bytes"
  shows "\<exists>fs'. sfs_metaio sv (int x) data n UIO_READ fs = Some ((None, file_range fs sv x n), sv, fs') \<and> fs_quiet fs fs'"
proof -
  define k where "k = x div 512"
  have xk: "x = 512 * k + x mod 512" "k < 143" using assms(4) unfolding k_def by auto
  have blk: "unat (fileblock_of (int x)) = k" using xk(2) fileblock_of_nat [of x] by (simp add: k_def)
  obtain fs1 where fs1: "sfs_bmap sv (fileblock_of (int x)) False fs = Some (Inr (ftab fs sv ! k), sv, fs1)" "fs_quiet fs fs1"
    using quiet_lookup [OF assms(1,2), of "fileblock_of (int x)"] blk xk(2) by auto
  note Q1 = quiet_file [OF fs1(2)]
  show ?thesis
  proof (cases "ftab fs sv ! k = 0")
    case True
    have "file_range fs sv x n = replicate n 0" by (subst xk(1)) (rule file_range_hole [OF True assms(3)])
    then show ?thesis using True fs1 by (simp add: sfs_metaio_def Let_def)
  next
    case False
    have "unat (ftab fs sv ! k) < nblk fs1" using ftab_block(2) [OF assms(2) xk(2) False] Q1(6) by simp
    from readblock_ok [OF Q1(5) this, of "replicate 512 0"]
    obtain fs2 where r: "sfs_readblock fs1 (ftab fs sv ! k) (replicate 512 0) 512 =
        Some ((None, dsk fs1 (unat (ftab fs sv ! k))), fs2)" "fs_keep fs1 fs2" "dsk fs2 = dsk fs1" by auto
    have d: "dsk fs1 = dsk fs" using fs1(2) by (simp add: fs_quiet_def)
    have "file_range fs sv x n = take n (drop (x mod 512) (dsk fs (unat (ftab fs sv ! k))))"
      by (subst xk(1)) (rule file_range_block [OF assms(1) False assms(3)])
    then have "buf_take (dsk fs (unat (ftab fs sv ! k))) (x mod 512) n = Some (file_range fs sv x n)"
      using dsk_length [OF assms(1)] assms(3) by (simp add: buf_take_def)
    then have "sfs_metaio sv (int x) data n UIO_READ fs = Some ((None, file_range fs sv x n), sv, fs2)"
      using False fs1(1) r(1) by (simp add: sfs_metaio_def Let_def blockoffset_of_nat d)
    then show ?thesis using fs_quiet_trans [OF fs1(2) quiet_keep [OF r(2,3)]] by blast
  qed
qed

text \<open>The size after a write of n bytes at x.\<close>

definition grown :: "sfs_vnode \<Rightarrow> nat \<Rightarrow> sfs_vnode" where
  "grown sv endp = (if int endp > int (unat (sfi_size (sv_i sv)))
     then (set_inode (sfi_size_update (\<lambda>_. word_of_int (int endp))) sv)\<lparr>sv_dirty := True\<rparr> else sv)"

lemma meta_write:
  assumes "fs_ok fs" "sv_ok fs sv" "x mod 512 + length data \<le> 512" "x div 512 < 4294967296"
  shows "\<exists>r sv1 fs'. sfs_metaio sv (int x) data (length data) UIO_WRITE fs =
      Some ((r, data), (if r = None then grown sv1 (x + length data) else sv1), fs') \<and>
    (case r of None \<Rightarrow> file_upd fs sv fs' sv1 x data \<and> x div 512 < 143
     | Some e \<Rightarrow> bmap_post fs sv fs' sv1 \<and> io_error e fs' x \<and> (x div 512 < 143 \<longrightarrow> ftab fs sv ! (x div 512) = 0))"
proof -
  define k where "k = x div 512"
  have xk: "x = 512 * k + x mod 512" unfolding k_def by simp
  have blk: "unat (fileblock_of (int x)) = k" using assms(4) fileblock_of_nat [of x] by (simp add: k_def)
  obtain r sv1 fs1 where B: "sfs_bmap sv (fileblock_of (int x)) True fs = Some (r, sv1, fs1)" "bmap_post fs sv fs1 sv1"
      "bmap_result fs sv k True r fs1 sv1"
    using bmap_spec [OF assms(1,2), of "fileblock_of (int x)" True] blk by auto
  have F: "fs_ok fs1" "sv_ok fs1 sv1" using B(2) by (simp_all add: bmap_post_def file_step_iff)
  show ?thesis
  proof (cases r)
    case (Inl e)
    then have "sfs_metaio sv (int x) data (length data) UIO_WRITE fs = Some ((Some e, data), sv1, fs1)"
      using B(1) by (simp add: sfs_metaio_def Let_def)
    moreover have "io_error e fs1 x" "k < 143 \<longrightarrow> ftab fs sv ! k = 0"
      using B(3) Inl fewer_free [OF B(2)] unfolding bmap_result_def io_error_def
      by (auto simp: k_def split: if_splits)
    ultimately show ?thesis using B(2) unfolding k_def by (intro exI [of _ "Some e"] exI conjI) auto
  next
    case (Inr b)
    have k: "k < 143" "b \<noteq> 0" "ftab fs1 sv1 ! k = b"
      using B(3) Inr length_ftab [OF assms(2)] by (auto simp: bmap_result_def split: if_splits)
    then have b0: "ftab fs1 sv1 ! k \<noteq> 0" by simp
    have blt: "unat b < nblk fs1" using ftab_block(2) [OF F(2) k(1) b0] k(3) by simp
    obtain fs2 where fs2: "sfs_readblock fs1 b (replicate 512 0) 512 = Some ((None, dsk fs1 (unat b)), fs2)"
        "fs_keep fs1 fs2" "dsk fs2 = dsk fs1" using readblock_ok [OF F(1) blt, of "replicate 512 0"] by auto
    define new where "new = take (x mod 512) (dsk fs1 (unat b)) @ data @ drop (x mod 512 + length data) (dsk fs1 (unat b))"
    have lb: "length (dsk fs1 (unat b)) = 512" by (rule dsk_length [OF F(1)])
    have put: "buf_put (dsk fs1 (unat b)) (x mod 512) data = Some new" using assms(3) lb by (simp add: buf_put_def new_def)
    have ln: "length new = 512" using assms(3) lb by (simp add: new_def)
    have fs2': "fs_ok fs2" "unat b < nblk fs2" using fs2(2) blt fs_same_nblk(1) by (auto simp: fs_keep_def)
    obtain fs3 where fs3: "sfs_writeblock fs2 b new 512 = Some (None, fs3)" "fs_keep fs2 fs3"
        "dsk fs3 = (dsk fs2)(unat b := new)" using writeblock_ok [OF fs2' ln] by blast
    have keep: "fs_keep fs1 fs3" using fs2(2) fs3(2) fs_same_trans by (auto simp: fs_keep_def)
    have "sfs_metaio sv (int x) data (length data) UIO_WRITE fs = Some ((None, data), grown sv1 (x + length data), fs3)"
      using B(1) Inr k(2) fs2(1) put fs3(1)
      by (simp add: sfs_metaio_def Let_def blockoffset_of_nat grown_def)
    moreover have "file_upd fs1 sv1 fs3 sv1 (512 * k + x mod 512) data"
      using k(3) fs2(3) fs3(3) by (intro data_splice [OF F k(1) b0 assms(3) keep]) (simp add: new_def)
    then have "file_upd fs1 sv1 fs3 sv1 x data" using xk by simp
    then have "file_upd fs sv fs3 sv1 x data"
      using file_upd_append [of fs sv fs1 sv1 x "[]"] B(2) by (simp add: file_upd_Nil)
    ultimately show ?thesis using k(1) unfolding k_def by (intro exI [of _ None] exI conjI) auto
  qed
qed


lemma grown_simps [simp]:
  "sv_direct (grown sv n) = sv_direct sv" "sv_indirect (grown sv n) = sv_indirect sv"
  "ftab fs (grown sv n) = ftab fs sv" "sv_blocks fs (grown sv n) = sv_blocks fs sv"
  "sv_ok fs (grown sv n) = sv_ok fs sv" "fbyte fs (grown sv n) = fbyte fs sv"
  "file_range fs (grown sv n) = file_range fs sv" "sv_ino (grown sv n) = sv_ino sv"
  "sv_refcount (grown sv n) = sv_refcount sv" "sfi_type (sv_i (grown sv n)) = sfi_type (sv_i sv)"
  "sfi_linkcount (sv_i (grown sv n)) = sfi_linkcount (sv_i sv)" "sfi_waste (sv_i (grown sv n)) = sfi_waste (sv_i sv)"
  by (auto simp: grown_def set_inode_def ftab_def indtab_def sv_blocks_def sv_ok_def fbyte_def file_range_def fun_eq_iff)

lemma grown_if:
  "grown sv n = (if unat (sfi_size (sv_i sv)) < n
     then (set_inode (sfi_size_update (\<lambda>_. word_of_int (int n))) sv)\<lparr>sv_dirty := True\<rparr> else sv)"
  by (simp only: grown_def of_nat_less_iff)

lemma grown_size:
  "n < 4294967296 \<Longrightarrow> unat (sfi_size (sv_i (grown sv n))) = max (unat (sfi_size (sv_i sv))) n"
  using unat_of_nat_u32 [of n] by (auto simp: grown_if set_inode_def)

lemma grown_id: "n \<le> unat (sfi_size (sv_i sv)) \<Longrightarrow> grown sv n = sv"
  by (simp add: grown_if)

subsection \<open>A directory as a map from names to inode numbers\<close>

definition sd_live :: "sfs_direntry \<Rightarrow> bool" where
  "sd_live sd \<longleftrightarrow> sfd_ino sd \<noteq> SFS_NOINO"

definition sd_name :: "sfs_direntry \<Rightarrow> u8 list" where
  "sd_name sd = cstr (take (SFS_NAMELEN - 1) (sfd_name sd))"

definition sd_is :: "u8 list \<Rightarrow> sfs_direntry \<Rightarrow> bool" where
  "sd_is nm sd \<longleftrightarrow> sd_live sd \<and> sd_name sd = nm"

definition slot_at :: "sfs_fs \<Rightarrow> sfs_vnode \<Rightarrow> nat \<Rightarrow> sfs_direntry" where
  "slot_at fs sv i = direntry_of (file_range fs sv (64 * i) 64)"

definition dir_slots :: "sfs_fs \<Rightarrow> sfs_vnode \<Rightarrow> sfs_direntry list" where
  "dir_slots fs sv = map (slot_at fs sv) [0..<unat (sfi_size (sv_i sv)) div 64]"

definition names_unique :: "sfs_direntry list \<Rightarrow> bool" where
  "names_unique es \<longleftrightarrow> (\<forall>i < length es. \<forall>j < length es. sd_live (es ! i) \<and> sd_live (es ! j) \<and> sd_name (es ! i) = sd_name (es ! j) \<longrightarrow> i = j)"

definition dir_form :: "sfs_fs \<Rightarrow> sfs_vnode \<Rightarrow> bool" where
  "dir_form fs sv \<longleftrightarrow> fs_ok fs \<and> sv_ok fs sv \<and> sfi_type (sv_i sv) = SFS_TYPE_DIR \<and>
     unat (sfi_size (sv_i sv)) mod 64 = 0 \<and> unat (sfi_size (sv_i sv)) \<le> max_bytes"

definition dir_ok :: "sfs_fs \<Rightarrow> sfs_vnode \<Rightarrow> bool" where
  "dir_ok fs sv \<longleftrightarrow> dir_form fs sv \<and> names_unique (dir_slots fs sv)"

definition lookup_slot :: "sfs_direntry list \<Rightarrow> u8 list \<Rightarrow> nat option" where
  "lookup_slot es nm = find_idx (sd_is nm) es"

definition slots_map :: "sfs_direntry list \<Rightarrow> u8 list \<Rightarrow> u32 option" where
  "slots_map es nm = map_option (\<lambda>i. sfd_ino (es ! i)) (lookup_slot es nm)"

definition last_free :: "sfs_direntry list \<Rightarrow> nat option" where
  "last_free es = (case filter (\<lambda>i. \<not> sd_live (es ! i)) [0..<length es] of [] \<Rightarrow> None | is \<Rightarrow> Some (last is))"

lemma readdir_ok:
  assumes "fs_ok fs" "sv_ok fs sv" "64 * i < max_bytes"
  shows "\<exists>fs'. sfs_readdir sv (int i) fs = Some (Inr (slot_at fs sv i), sv, fs') \<and> fs_quiet fs fs'"
proof -
  have pos: "unat (word_of_int (int i) * (64 :: u32)) = 64 * i"
    using assms(3) unat_of_nat_u32 [of i] by (subst unat_mult_u32) simp_all
  have "64 * i mod 512 + 64 \<le> 512"
  proof -
    have "64 * i mod 512 = 64 * (i mod 8)" using mult_mod_right [of 64 i 8] by simp
    then show ?thesis by simp
  qed
  from meta_read [OF assms(1,2) this assms(3), of "replicate 64 0"]
  obtain fs' where "sfs_metaio sv (int (64 * i)) (replicate 64 0) 64 UIO_READ fs =
      Some ((None, file_range fs sv (64 * i) 64), sv, fs')" "fs_quiet fs fs'" by blast
  then show ?thesis unfolding sfs_readdir_def Let_def pos slot_at_def by simp
qed

text \<open>What one pass over the slots finds.\<close>

lemma findname_loop_spec:
  assumes "fs_ok fs" "sv_ok fs sv" "64 * (i + n) \<le> max_bytes"
    and "hits = filter (\<lambda>j. sd_is nm (slot_at fs sv j)) [i..<i + n]"
    and "frees = filter (\<lambda>j. \<not> sd_live (slot_at fs sv j)) [i..<i + n]"
  shows "if (if found = None then 0 else 1) + length hits \<le> (1 :: nat)
    then \<exists>fs'. fs_quiet fs fs' \<and> (let f = (if hits = [] then found else Some (sfd_ino (slot_at fs sv (hd hits)), int (hd hits))) in
       findname_loop n i nm found emptyslot sv fs =
         Some ((if f = None then Some ENOENT else None, f, if frees = [] then emptyslot else int (last frees)), sv, fs'))
    else findname_loop n i nm found emptyslot sv fs = None"
  using assms
proof (induction n arbitrary: i found emptyslot fs hits frees)
  case 0
  then show ?case using fs_quiet_refl [OF 0(1)] by auto
next
  case (Suc n)
  have lt: "64 * i < max_bytes" using Suc.prems(3) by simp
  obtain fs1 where fs1: "sfs_readdir sv (int i) fs = Some (Inr (slot_at fs sv i), sv, fs1)" "fs_quiet fs fs1"
    using readdir_ok [OF Suc.prems(1,2) lt] by blast
  note Q = quiet_file [OF fs1(2)]
  have slot: "slot_at fs1 sv = slot_at fs sv" by (simp add: slot_at_def Q(3) fun_eq_iff)
  define sd where "sd = slot_at fs sv i"
  define hs where "hs = filter (\<lambda>j. sd_is nm (slot_at fs sv j)) [i + 1..<i + 1 + n]"
  define fr where "fr = filter (\<lambda>j. \<not> sd_live (slot_at fs sv j)) [i + 1..<i + 1 + n]"
  have up: "[i..<i + Suc n] = i # [i + 1..<i + 1 + n]" by (simp add: upt_conv_Cons)
  have split: "hits = (if sd_is nm sd then i # hs else hs)" "frees = (if sd_live sd then fr else i # fr)"
    unfolding Suc.prems(4,5) up by (simp_all add: hs_def fr_def sd_def)
  have IH: "if (if found' = None then 0 else 1) + length hs \<le> (1 :: nat)
    then \<exists>fs'. fs_quiet fs1 fs' \<and> (let f = (if hs = [] then found' else Some (sfd_ino (slot_at fs sv (hd hs)), int (hd hs))) in
       findname_loop n (i + 1) nm found' es' sv fs1 =
         Some ((if f = None then Some ENOENT else None, f, if fr = [] then es' else int (last fr)), sv, fs'))
    else findname_loop n (i + 1) nm found' es' sv fs1 = None" for found' es'
    using Suc.IH [of fs1 "i + 1" hs fr found' es'] Q(4,5) Suc.prems(1-3) unfolding slot hs_def fr_def by simp
  note qt = fs_quiet_trans [OF fs1(2)]
  consider (free) "\<not> sd_live sd" | (hit) "sd_is nm sd" | (other) "sd_live sd" "\<not> sd_is nm sd" by blast
  then show ?case
  proof cases
    case free
    then have run: "findname_loop (Suc n) i nm found emptyslot sv fs = findname_loop n (i + 1) nm found (int i) sv fs1"
      using fs1(1) by (simp add: sd_live_def sd_def)
    have "hits = hs" "frees = i # fr" using free split by (simp_all add: sd_is_def)
    then show ?thesis using IH [of found "int i"] qt unfolding run by (auto simp: Let_def split: if_splits)
  next
    case hit
    then have run: "findname_loop (Suc n) i nm found emptyslot sv fs =
        (if found = None then findname_loop n (i + 1) nm (Some (sfd_ino sd, int i)) emptyslot sv fs1 else None)"
      using fs1(1) by (simp add: sd_live_def sd_def sd_is_def sd_name_def)
    have "hits = i # hs" "frees = fr" using hit split by (simp_all add: sd_is_def)
    then show ?thesis using IH [of "Some (sfd_ino sd, int i)" emptyslot] qt unfolding run
      by (auto simp: Let_def sd_def split: if_splits)
  next
    case other
    then have run: "findname_loop (Suc n) i nm found emptyslot sv fs = findname_loop n (i + 1) nm found emptyslot sv fs1"
      using fs1(1) by (simp add: sd_live_def sd_def sd_is_def sd_name_def)
    have "hits = hs" "frees = fr" using other split by simp_all
    then show ?thesis using IH [of found emptyslot] qt unfolding run by (auto simp: Let_def split: if_splits)
  qed
qed


lemma find_idx_filter:
  "find_idx P xs = (case filter (\<lambda>j. P (xs ! j)) [0..<length xs] of [] \<Rightarrow> None | j # _ \<Rightarrow> Some j)"
proof (induction xs rule: rev_induct)
  case Nil
  then show ?case by simp
next
  case (snoc x xs)
  have "find_idx P (xs @ [x]) = (case find_idx P xs of None \<Rightarrow> if P x then Some (length xs) else None | Some i \<Rightarrow> Some i)"
    by (induction xs) (auto split: option.splits)
  moreover have "filter (\<lambda>j. P ((xs @ [x]) ! j)) [0..<length xs] = filter (\<lambda>j. P (xs ! j)) [0..<length xs]"
    by (intro filter_cong) (auto simp: nth_append)
  ultimately show ?case by (auto simp: snoc.IH split: list.splits)
qed

lemma filter_upt_le1:
  assumes "\<And>i j. i < n \<Longrightarrow> j < n \<Longrightarrow> P i \<Longrightarrow> P j \<Longrightarrow> i = j"
  shows "length (filter P [0..<n]) \<le> (1 :: nat)"
proof -
  have "card {i. i < n \<and> P i} \<le> 1"
    using assms by (subst card_le_Suc0_iff_eq [simplified One_nat_def [symmetric]]) auto
  moreover have "length (filter P [0..<n]) = card {i. i < n \<and> P i}"
    using distinct_card [of "filter P [0..<n]"] by simp
  ultimately show ?thesis by simp
qed

lemma nth_dir_slots: "i < length (dir_slots fs sv) \<Longrightarrow> dir_slots fs sv ! i = slot_at fs sv i"
  by (simp add: dir_slots_def)

lemma length_dir_slots: "length (dir_slots fs sv) = unat (sfi_size (sv_i sv)) div 64"
  by (simp add: dir_slots_def)

lemma dir_formD:
  assumes "dir_form fs sv"
  shows "fs_ok fs" "sv_ok fs sv" "64 * length (dir_slots fs sv) = unat (sfi_size (sv_i sv))"
    "64 * length (dir_slots fs sv) \<le> max_bytes" "sfs_dir_nentries sv = Some (length (dir_slots fs sv))"
    "sfi_type (sv_i sv) = SFS_TYPE_DIR"
  using assms by (auto simp: dir_form_def length_dir_slots sfs_dir_nentries_def Let_def)

definition empty_slot :: "sfs_direntry list \<Rightarrow> int \<Rightarrow> int" where
  "empty_slot es dflt = (case last_free es of None \<Rightarrow> dflt | Some i \<Rightarrow> int i)"

lemma findname_ok:
  assumes "dir_form fs sv" "es = dir_slots fs sv" "hits = filter (\<lambda>j. sd_is nm (es ! j)) [0..<length es]"
  shows "if length hits \<le> 1
    then \<exists>fs'. fs_quiet fs fs' \<and> sfs_dir_findname sv nm dflt fs =
      Some ((case lookup_slot es nm of None \<Rightarrow> (Some ENOENT, None, empty_slot es dflt)
             | Some i \<Rightarrow> (None, Some (sfd_ino (es ! i), int i), empty_slot es dflt)), sv, fs')
    else sfs_dir_findname sv nm dflt fs = None"
proof -
  note D = dir_formD [OF assms(1), folded assms(2)]
  have h: "hits = filter (\<lambda>j. sd_is nm (slot_at fs sv j)) [0..<0 + length es]"
    unfolding assms(3) by (auto intro!: filter_cong simp: assms(2) nth_dir_slots)
  have f: "filter (\<lambda>i. \<not> sd_live (es ! i)) [0..<length es] = filter (\<lambda>j. \<not> sd_live (slot_at fs sv j)) [0..<0 + length es]"
    by (auto intro!: filter_cong simp: assms(2) nth_dir_slots)
  have run: "sfs_dir_findname sv nm dflt fs = findname_loop (length es) 0 nm None dflt sv fs"
    by (simp add: sfs_dir_findname_def D(5))
  have len: "64 * (0 + length es) \<le> max_bytes" using D(4) by simp
  note L = findname_loop_spec [OF D(1,2) len h f, of None dflt, folded run]
  have look: "lookup_slot es nm = (case hits of [] \<Rightarrow> None | j # _ \<Rightarrow> Some j)"
    unfolding lookup_slot_def assms(3) by (rule find_idx_filter)
  have slot: "sfd_ino (slot_at fs sv (hd hits)) = sfd_ino (es ! hd hits)" if "hits \<noteq> []"
    using hd_in_set [OF that] by (simp add: assms(2,3) nth_dir_slots)
  show ?thesis
  proof (cases "length hits \<le> 1")
    case True
    have e: "(if filter (\<lambda>i. \<not> sd_live (es ! i)) [0..<length es] = [] then dflt
        else int (last (filter (\<lambda>i. \<not> sd_live (es ! i)) [0..<length es]))) = empty_slot es dflt"
      by (simp add: empty_slot_def last_free_def split: list.split)
    have "\<exists>fs'. fs_quiet fs fs' \<and> (let f = if hits = [] then None else Some (sfd_ino (slot_at fs sv (hd hits)), int (hd hits)) in
         sfs_dir_findname sv nm dflt fs = Some ((if f = None then Some ENOENT else None, f, empty_slot es dflt), sv, fs'))"
      using L True unfolding e by simp
    then show ?thesis using True slot look by (cases hits) (auto simp: Let_def)
  next
    case False
    then show ?thesis using L by simp
  qed
qed

lemma names_unique_hits:
  assumes "names_unique es"
  shows "length (filter (\<lambda>j. sd_is nm (es ! j)) [0..<length es]) \<le> 1"
  using assms by (intro filter_upt_le1) (auto simp: names_unique_def sd_is_def)

lemma findname_dir:
  assumes "dir_ok fs sv" "es = dir_slots fs sv"
  shows "\<exists>fs'. fs_quiet fs fs' \<and> sfs_dir_findname sv nm dflt fs =
      Some ((case lookup_slot es nm of None \<Rightarrow> (Some ENOENT, None, empty_slot es dflt)
             | Some i \<Rightarrow> (None, Some (sfd_ino (es ! i), int i), empty_slot es dflt)), sv, fs')"
  using findname_ok [OF _ assms(2) refl, of nm dflt] names_unique_hits [of es nm] assms by (simp add: dir_ok_def)

subsection \<open>Updates of the slots\<close>

lemma lookup_slot_Some:
  "names_unique es \<Longrightarrow> lookup_slot es nm = Some i \<longleftrightarrow> i < length es \<and> sd_is nm (es ! i)"
  unfolding lookup_slot_def find_idx_Some by (auto simp: names_unique_def sd_is_def) (metis less_trans nat_neq_iff)

lemma lookup_slot_None: "lookup_slot es nm = None \<longleftrightarrow> (\<forall>i < length es. \<not> sd_is nm (es ! i))"
  unfolding lookup_slot_def find_idx_None list_all_nth ..

lemma slots_map_Some:
  assumes "names_unique es"
  shows "slots_map es nm = Some ino \<longleftrightarrow> (\<exists>i < length es. sd_is nm (es ! i) \<and> sfd_ino (es ! i) = ino)"
  using lookup_slot_Some [OF assms, of nm] by (auto simp: slots_map_def)

text \<open>A new name in a free slot or at the end, and a slot freed.\<close>

lemma slots_map_cong:
  assumes "names_unique es" "names_unique es'"
    and "\<And>k ino. (\<exists>j < length es'. sd_is k (es' ! j) \<and> sfd_ino (es' ! j) = ino) \<longleftrightarrow> m k = Some ino"
  shows "slots_map es' = m"
proof (intro ext option_eqI)
  fix k ino
  show "slots_map es' k = Some ino \<longleftrightarrow> m k = Some ino"
    unfolding slots_map_Some [OF assms(2)] by (rule assms(3))
qed

lemma names_uniqueI:
  assumes "\<And>a b. a < length es \<Longrightarrow> b < length es \<Longrightarrow> sd_live (es ! a) \<Longrightarrow> sd_live (es ! b) \<Longrightarrow>
    sd_name (es ! a) = sd_name (es ! b) \<Longrightarrow> a = b"
  shows "names_unique es"
  using assms unfolding names_unique_def by blast

lemma names_uniqueD:
  "names_unique es \<Longrightarrow> a < length es \<Longrightarrow> b < length es \<Longrightarrow> sd_live (es ! a) \<Longrightarrow> sd_live (es ! b) \<Longrightarrow>
   sd_name (es ! a) = sd_name (es ! b) \<Longrightarrow> a = b"
  unfolding names_unique_def by blast

lemma slots_put_iff:
  assumes "names_unique es" "sd_live e" "lookup_slot es (sd_name e) = None"
  shows "(\<exists>j < length es. sd_is k (es ! j) \<and> sfd_ino (es ! j) = ino) \<or> sd_is k e \<and> sfd_ino e = ino \<longleftrightarrow>
    ((slots_map es)(sd_name e \<mapsto> sfd_ino e)) k = Some ino"
proof (cases "k = sd_name e")
  case True
  then have "(\<exists>j < length es. sd_is k (es ! j) \<and> sfd_ino (es ! j) = ino) = False" "sd_is k e"
    using assms(2,3) unfolding lookup_slot_None by (auto simp: sd_is_def)
  then show ?thesis using True by (auto simp only: simp_thms fun_upd_same option.inject)
next
  case False
  then have "\<not> sd_is k e" by (simp add: sd_is_def)
  then show ?thesis using False by (simp add: slots_map_Some [OF assms(1)])
qed

lemma slots_map_append:
  assumes "names_unique es" "sd_live e" "lookup_slot es (sd_name e) = None"
  shows "names_unique (es @ [e])" "slots_map (es @ [e]) = (slots_map es)(sd_name e \<mapsto> sfd_ino e)"
proof -
  have no: "\<And>j. j < length es \<Longrightarrow> sd_live (es ! j) \<Longrightarrow> sd_name (es ! j) = sd_name e \<Longrightarrow> False"
    using assms(3) by (auto simp: lookup_slot_None sd_is_def)
  show u: "names_unique (es @ [e])"
  proof (rule names_uniqueI)
    fix a b
    assume "a < length (es @ [e])" "b < length (es @ [e])" "sd_live ((es @ [e]) ! a)" "sd_live ((es @ [e]) ! b)"
      "sd_name ((es @ [e]) ! a) = sd_name ((es @ [e]) ! b)"
    then show "a = b" using no [of a] no [of b] names_uniqueD [OF assms(1), of a b]
      by (cases "a = length es"; cases "b = length es") (simp_all add: nth_append)
  qed
  show "slots_map (es @ [e]) = (slots_map es)(sd_name e \<mapsto> sfd_ino e)"
  proof (rule slots_map_cong [OF assms(1) u])
    fix k ino
    have "(\<exists>j < length (es @ [e]). sd_is k ((es @ [e]) ! j) \<and> sfd_ino ((es @ [e]) ! j) = ino) \<longleftrightarrow>
      (\<exists>j < length es. sd_is k (es ! j) \<and> sfd_ino (es ! j) = ino) \<or> sd_is k e \<and> sfd_ino e = ino"
      by (simp add: Ex_less_Suc nth_append disj_commute cong: conj_cong)
    also have "\<dots> \<longleftrightarrow> ((slots_map es)(sd_name e \<mapsto> sfd_ino e)) k = Some ino"
      by (rule slots_put_iff [OF assms(1-3)])
    finally show "(\<exists>j < length (es @ [e]). sd_is k ((es @ [e]) ! j) \<and> sfd_ino ((es @ [e]) ! j) = ino) \<longleftrightarrow>
      ((slots_map es)(sd_name e \<mapsto> sfd_ino e)) k = Some ino" .
  qed
qed

lemma slots_map_reuse:
  assumes "names_unique es" "sd_live e" "lookup_slot es (sd_name e) = None" "i < length es" "\<not> sd_live (es ! i)"
  shows "names_unique (es[i := e])" "slots_map (es[i := e]) = (slots_map es)(sd_name e \<mapsto> sfd_ino e)"
proof -
  have no: "\<And>j. j < length es \<Longrightarrow> sd_live (es ! j) \<Longrightarrow> sd_name (es ! j) = sd_name e \<Longrightarrow> False"
    using assms(3) by (auto simp: lookup_slot_None sd_is_def)
  show u: "names_unique (es[i := e])"
  proof (rule names_uniqueI)
    fix a b
    assume "a < length (es[i := e])" "b < length (es[i := e])" "sd_live (es[i := e] ! a)" "sd_live (es[i := e] ! b)"
      "sd_name (es[i := e] ! a) = sd_name (es[i := e] ! b)"
    then show "a = b" using no [of a] no [of b] names_uniqueD [OF assms(1), of a b]
      by (cases "a = i"; cases "b = i") simp_all
  qed
  show "slots_map (es[i := e]) = (slots_map es)(sd_name e \<mapsto> sfd_ino e)"
  proof (rule slots_map_cong [OF assms(1) u])
    fix k ino
    have "(\<exists>j < length (es[i := e]). sd_is k (es[i := e] ! j) \<and> sfd_ino (es[i := e] ! j) = ino) \<longleftrightarrow>
      (\<exists>j < length es. j \<noteq> i \<and> sd_is k (es ! j) \<and> sfd_ino (es ! j) = ino) \<or> sd_is k e \<and> sfd_ino e = ino"
      using assms(4) by (auto simp: nth_list_update split: if_splits)
    also have "\<dots> \<longleftrightarrow> (\<exists>j < length es. sd_is k (es ! j) \<and> sfd_ino (es ! j) = ino) \<or> sd_is k e \<and> sfd_ino e = ino"
      using assms(5) unfolding sd_is_def by blast
    also have "\<dots> \<longleftrightarrow> ((slots_map es)(sd_name e \<mapsto> sfd_ino e)) k = Some ino"
      by (rule slots_put_iff [OF assms(1-3)])
    finally show "(\<exists>j < length (es[i := e]). sd_is k (es[i := e] ! j) \<and> sfd_ino (es[i := e] ! j) = ino) \<longleftrightarrow>
      ((slots_map es)(sd_name e \<mapsto> sfd_ino e)) k = Some ino" .
  qed
qed

lemma slots_map_free:
  assumes "names_unique es" "i < length es" "sd_is nm (es ! i)" "\<not> sd_live e"
  shows "names_unique (es[i := e])" "slots_map (es[i := e]) = (slots_map es)(nm := None)"
proof -
  show u: "names_unique (es[i := e])"
  proof (rule names_uniqueI)
    fix a b
    assume "a < length (es[i := e])" "b < length (es[i := e])" "sd_live (es[i := e] ! a)" "sd_live (es[i := e] ! b)"
      "sd_name (es[i := e] ! a) = sd_name (es[i := e] ! b)"
    then show "a = b" using assms(4) names_uniqueD [OF assms(1), of a b]
      by (cases "a = i"; cases "b = i") simp_all
  qed
  have only: "\<And>j. j < length es \<Longrightarrow> sd_is nm (es ! j) \<Longrightarrow> j = i"
    using names_uniqueD [OF assms(1) _ assms(2)] assms(3) by (simp add: sd_is_def)
  show "slots_map (es[i := e]) = (slots_map es)(nm := None)"
  proof (rule slots_map_cong [OF assms(1) u])
    fix k ino
    have "(\<exists>j < length (es[i := e]). sd_is k (es[i := e] ! j) \<and> sfd_ino (es[i := e] ! j) = ino) \<longleftrightarrow>
      (\<exists>j < length es. j \<noteq> i \<and> sd_is k (es ! j) \<and> sfd_ino (es ! j) = ino)"
      using assms(2,4) by (auto simp: nth_list_update sd_is_def split: if_splits)
    also have "\<dots> \<longleftrightarrow> k \<noteq> nm \<and> (\<exists>j < length es. sd_is k (es ! j) \<and> sfd_ino (es ! j) = ino)"
      using only assms(3) unfolding sd_is_def by blast
    also have "\<dots> \<longleftrightarrow> ((slots_map es)(nm := None)) k = Some ino"
      by (simp add: slots_map_Some [OF assms(1)])
    finally show "(\<exists>j < length (es[i := e]). sd_is k (es[i := e] ! j) \<and> sfd_ino (es[i := e] ! j) = ino) \<longleftrightarrow>
      ((slots_map es)(nm := None)) k = Some ino" .
  qed
qed

lemma last_free_Some: "last_free es = Some i \<Longrightarrow> i < length es \<and> \<not> sd_live (es ! i)"
proof -
  define fr where "fr = filter (\<lambda>i. \<not> sd_live (es ! i)) [0..<length es]"
  assume "last_free es = Some i"
  then have "fr \<noteq> [] \<and> i = last fr" by (simp add: last_free_def fr_def split: list.splits)
  then have "i \<in> set fr" using last_in_set by blast
  then show ?thesis by (simp add: fr_def)
qed


subsection \<open>The dirty mark\<close>

text \<open>An inode that has changed is marked dirty.\<close>

definition touched :: "sfs_vnode \<Rightarrow> sfs_vnode \<Rightarrow> bool" where
  "touched sv sv' \<longleftrightarrow> sv_dirty sv' \<or> sv_i sv' = sv_i sv \<and> sv_dirty sv' = sv_dirty sv"

lemma touched_refl [simp]: "touched sv sv"
  by (simp add: touched_def)

lemma touched_trans: "touched a b \<Longrightarrow> touched b c \<Longrightarrow> touched a c"
  by (auto simp: touched_def)

lemma touched_grown [simp]: "touched sv sv' \<Longrightarrow> touched sv (grown sv' n)"
  by (auto simp: touched_def grown_def)

text \<open>Nothing of the inode but its block map, its size and the dirty mark has changed; if it has, it is dirty.\<close>

definition sv_kept :: "sfs_vnode \<Rightarrow> sfs_vnode \<Rightarrow> bool" where
  "sv_kept sv sv' \<longleftrightarrow> sv_ino sv' = sv_ino sv \<and> sv_refcount sv' = sv_refcount sv \<and>
     sfi_type (sv_i sv') = sfi_type (sv_i sv) \<and> sfi_linkcount (sv_i sv') = sfi_linkcount (sv_i sv) \<and>
     sfi_waste (sv_i sv') = sfi_waste (sv_i sv) \<and> touched sv sv'"

lemma sv_kept_refl [simp]: "sv_kept sv sv"
  by (simp add: sv_kept_def)

lemma sv_kept_trans: "sv_kept a b \<Longrightarrow> sv_kept b c \<Longrightarrow> sv_kept a c"
  using touched_trans by (auto simp: sv_kept_def)

lemma bmap_direct_kept:
  assumes "bmap_direct sv k doalloc fs = Some (r, sv', fs')" shows "sv_kept sv sv'"
proof -
  obtain block where b: "arr_get (sv_direct sv) k = Some block" using assms by (auto simp: bmap_direct_def Option.bind_eq_Some_conv)
  show ?thesis
  proof (cases "block = 0 \<and> doalloc")
    case True
    then obtain r1 fs1 where "sfs_balloc fs = Some (r1, fs1)" using assms b by (auto simp: bmap_direct_def)
    then show ?thesis using assms b True by (cases r1) (auto simp: bmap_direct_def Let_def sv_kept_def touched_def set_inode_def Option.bind_eq_Some_conv)
  qed (use assms b in \<open>auto simp: bmap_direct_def Option.bind_eq_Some_conv\<close>)
qed

lemma bmap_entry_same:
  assumes "bmap_entry sv idblock idbuf idoff doalloc fs = Some (r, sv', fs')" shows "sv' = sv"
proof -
  obtain block where b: "arr_get idbuf idoff = Some block" using assms by (auto simp: bmap_entry_def Option.bind_eq_Some_conv)
  show ?thesis
  proof (cases "block = 0 \<and> doalloc")
    case True
    then obtain r1 fs1 where "sfs_balloc fs = Some (r1, fs1)" using assms b by (auto simp: bmap_entry_def)
    then show ?thesis using assms b True
      by (cases r1) (auto simp: bmap_entry_def Option.bind_eq_Some_conv split: option.split_asm)
  qed (use assms b in \<open>auto simp: bmap_entry_def Option.bind_eq_Some_conv\<close>)
qed

lemma bmap_kept: "sfs_bmap sv k doalloc fs = Some (r, sv', fs') \<Longrightarrow> sv_kept sv sv'"
proof (cases "unat k < 15")
  case True
  then show "sfs_bmap sv k doalloc fs = Some (r, sv', fs') \<Longrightarrow> sv_kept sv sv'"
    using bmap_direct_kept by (simp add: sfs_bmap_def)
next
  case False
  assume run: "sfs_bmap sv k doalloc fs = Some (r, sv', fs')"
  define fb where "fb = k - 15"
  consider (big) "unat (fb div 128) \<ge> 1" | (hole) "unat (fb div 128) < 1" "sv_indirect sv = 0" "\<not> doalloc"
    | (fresh) "unat (fb div 128) < 1" "sv_indirect sv = 0" doalloc | (there) "unat (fb div 128) < 1" "sv_indirect sv \<noteq> 0"
    by linarith
  then show "sv_kept sv sv'"
  proof cases
    case fresh
    then have "\<not> 1 \<le> unat (fb div 128)" by simp
    then obtain r1 fs1 where "sfs_balloc fs = Some (r1, fs1)"
        "(case r1 of Inl e \<Rightarrow> Some (Inl e, sv, fs1)
          | Inr idblock \<Rightarrow> bmap_entry ((set_inode (sfi_indirect_update (\<lambda>_. idblock)) sv)\<lparr>sv_dirty := True\<rparr>) idblock
              (replicate 128 0) (unat (fb mod 128)) doalloc fs1) = Some (r, sv', fs')"
      using run False fresh unfolding sfs_bmap_def Let_def fb_def by auto
    then show ?thesis by (auto simp: sv_kept_def touched_def set_inode_def split: sum.splits dest: bmap_entry_same)
  qed (use run False in \<open>auto simp: sfs_bmap_def Let_def fb_def split: option.splits dest: bmap_entry_same\<close>)
qed

lemma bmap_touched: "sfs_bmap sv k doalloc fs = Some (r, sv', fs') \<Longrightarrow> touched sv sv'"
  using bmap_kept by (simp add: sv_kept_def)

lemma metaio_touched: "sfs_metaio sv pos data n rw fs = Some ((r, bs), sv', fs') \<Longrightarrow> touched sv sv'"
proof -
  assume run: "sfs_metaio sv pos data n rw fs = Some ((r, bs), sv', fs')"
  obtain r1 sv1 fs1 where b: "sfs_bmap sv (fileblock_of pos) (rw = UIO_WRITE) fs = Some (r1, sv1, fs1)"
    using run by (auto simp: sfs_metaio_def Let_def)
  have "sv' = sv1 \<or> sv_dirty sv'"
    using run b by (auto simp: sfs_metaio_def Let_def Option.bind_eq_Some_conv split: if_split_asm sum.split_asm option.split_asm)
  then show "touched sv sv'" using bmap_touched [OF b] by (auto simp: touched_def)
qed

lemma writedir_touched: "sfs_writedir sv slot sd fs = Some (r, sv', fs') \<Longrightarrow> touched sv sv'"
  by (auto simp: sfs_writedir_def Let_def Option.bind_eq_Some_conv split: if_split_asm dest: metaio_touched)

subsection \<open>Writing a slot\<close>

lemma sv_same_kept: "sv_same sv sv' \<Longrightarrow> touched sv sv' \<Longrightarrow> sv_kept sv sv'"
  by (simp add: sv_same_def sv_kept_def)

lemma file_step_grown [simp]: "file_step fs sv fs' (grown sv' n) \<longleftrightarrow> file_step fs sv fs' sv'"
  by (simp add: file_step_iff)

lemma slot_at_grown [simp]: "slot_at fs (grown sv n) = slot_at fs sv"
  by (simp add: slot_at_def fun_eq_iff)

lemma slot_block: "64 * i mod 512 + 64 \<le> (512 :: nat)" "64 * i div 512 = i div (8 :: nat)"
proof -
  have "64 * i mod 512 = 64 * (i mod 8)" using mult_mod_right [of 64 i 8] by simp
  then show "64 * i mod 512 + 64 \<le> (512 :: nat)" by simp
  show "64 * i div 512 = i div (8 :: nat)" using div_mult_mult1 [of 64 i 8] by simp
qed

lemma slot_at_upd:
  assumes "file_upd fs sv fs' sv' (64 * i) (direntry_bytes sd)" "length (sfd_name sd) = 60" "64 * (j + 1) \<le> max_bytes"
  shows "slot_at fs' sv' j = (if j = i then sd else slot_at fs sv j)"
proof (cases "j = i")
  case True
  have "64 * i + length (direntry_bytes sd) \<le> max_bytes" using assms(2,3) True by simp
  from file_range_upd [OF assms(1) this] show ?thesis using assms(2) True by (simp add: slot_at_def)
next
  case False
  have "fbyte fs' sv' p = fbyte fs sv p" if "64 * j \<le> p" "p < 64 * j + 64" for p
  proof -
    have "\<not> (64 * i \<le> p \<and> p < 64 * i + length (direntry_bytes sd))" using that False assms(2) by auto
    moreover have "p < max_bytes" using that assms(3) by simp
    ultimately show ?thesis using assms(1) unfolding file_upd_def by (simp only: if_False)
  qed
  then have "file_range fs' sv' (64 * j) 64 = file_range fs sv (64 * j) 64" by (simp add: file_range_def)
  then show ?thesis using False by (simp add: slot_at_def)
qed

lemma slot_at_same:
  assumes "\<forall>p < max_bytes. fbyte fs' sv' p = fbyte fs sv p" "64 * (j + 1) \<le> max_bytes"
  shows "slot_at fs' sv' j = slot_at fs sv j"
proof -
  have "file_range fs' sv' (64 * j) 64 = file_range fs sv (64 * j) 64" using assms by (simp add: file_range_def)
  then show ?thesis by (simp add: slot_at_def)
qed

lemma dir_slots_same:
  assumes "\<forall>p < max_bytes. fbyte fs' sv' p = fbyte fs sv p" "sfi_size (sv_i sv') = sfi_size (sv_i sv)"
    and "unat (sfi_size (sv_i sv)) \<le> max_bytes"
  shows "dir_slots fs' sv' = dir_slots fs sv"
proof -
  have "64 * (j + 1) \<le> max_bytes" if j: "j < unat (sfi_size (sv_i sv)) div 64" for j
  proof -
    have "64 * (j + 1) \<le> 64 * (unat (sfi_size (sv_i sv)) div 64)" using j by (intro mult_le_mono2) simp
    also have "\<dots> \<le> unat (sfi_size (sv_i sv))" by (rule times_div_less_eq_dividend)
    finally show ?thesis using assms(3) by (rule order_trans)
  qed
  then show ?thesis using slot_at_same [OF assms(1)] by (simp add: dir_slots_def assms(2))
qed

lemma live_slot_block:
  assumes "sd_live (slot_at fs sv i)" shows "ftab fs sv ! (i div 8) \<noteq> 0"
proof
  assume "ftab fs sv ! (i div 8) = 0"
  then have "file_range fs sv (512 * (i div 8) + 64 * (i mod 8)) 64 = replicate 64 0"
    by (rule file_range_hole) simp
  moreover have "512 * (i div 8) + 64 * (i mod 8) = 64 * i" using mult_div_mod_eq [of 8 i] by linarith
  ultimately show False using assms of_be32_zeros [of 64] by (simp add: slot_at_def sd_live_def direntry_of_def)
qed

lemma writedir_ok:
  assumes "dir_form fs sv" "es = dir_slots fs sv" "i \<le> length es" "length (sfd_name sd) = 60"
  shows "\<exists>r sv' fs'. sfs_writedir sv (int i) sd fs = Some (r, sv', fs') \<and> file_step fs sv fs' sv' \<and> sv_kept sv sv' \<and>
    dir_form fs' sv' \<and>
    (case r of None \<Rightarrow> dir_slots fs' sv' = (if i < length es then es[i := sd] else es @ [sd])
     | Some e \<Rightarrow> dir_slots fs' sv' = es \<and> io_error e fs' (64 * i) \<and> (i < length es \<longrightarrow> \<not> sd_live (es ! i)))"
proof -
  note D = dir_formD [OF assms(1), folded assms(2)]
  have le: "64 * i \<le> max_bytes" using D(4) assms(3) by simp
  have pos: "unat (word_of_int (int i) * (64 :: u32)) = 64 * i"
    using le unat_of_nat_u32 [of i] by (subst unat_mult_u32) simp_all
  have ld: "length (direntry_bytes sd) = 64" using assms(4) by simp
  have small: "64 * i div 512 < 4294967296" using le by simp
  have fits: "64 * i mod 512 + length (direntry_bytes sd) \<le> 512" unfolding ld by (rule slot_block(1))
  obtain r sv1 fs' where M: "sfs_metaio sv (int (64 * i)) (direntry_bytes sd) 64 UIO_WRITE fs =
      Some ((r, direntry_bytes sd), (if r = None then grown sv1 (64 * i + 64) else sv1), fs')"
    "case r of None \<Rightarrow> file_upd fs sv fs' sv1 (64 * i) (direntry_bytes sd) \<and> i div 8 < 143
     | Some e \<Rightarrow> bmap_post fs sv fs' sv1 \<and> io_error e fs' (64 * i) \<and> (i div 8 < 143 \<longrightarrow> ftab fs sv ! (i div 8) = 0)"
    using meta_write [OF D(1,2) fits small, unfolded ld slot_block(2)] by blast
  have run: "sfs_writedir sv (int i) sd fs = Some (r, (if r = None then grown sv1 (64 * i + 64) else sv1), fs')"
    unfolding sfs_writedir_def Let_def pos M(1) by simp
  note T = metaio_touched [OF M(1)]
  have form: "dir_form fs' sv'" if "file_step fs sv fs' sv'" "sv_kept sv sv'"
      "unat (sfi_size (sv_i sv')) = 64 * n" "64 * n \<le> max_bytes" for sv' n
    using that D(6) file_stepD(1,2) [OF that(1)] by (simp add: dir_form_def sv_kept_def)
  show ?thesis
  proof (cases r)
    case None
    have U: "file_upd fs sv fs' sv1 (64 * i) (direntry_bytes sd)" "i div 8 < 143" using M(2) None by auto
    define sv' where "sv' = grown sv1 (64 * i + 64)"
    have S: "file_step fs sv fs' sv1" "sv_same sv sv1" using U(1) by (simp_all add: file_upd_def)
    then have step: "file_step fs sv fs' sv'" "sv_kept sv sv'"
      using T None by (simp_all add: sv'_def sv_kept_def sv_same_def)
    have i: "64 * (i + 1) \<le> max_bytes" using U(2) by simp
    have "unat (sfi_size (sv_i sv')) = max (unat (sfi_size (sv_i sv))) (64 * i + 64)"
      using i S(2) unfolding sv'_def by (subst grown_size) (simp_all add: sv_same_def)
    also have "\<dots> = 64 * (if i < length es then length es else i + 1)" using assms(3) by (simp add: D(3) [symmetric])
    finally have size: "unat (sfi_size (sv_i sv')) = 64 * (if i < length es then length es else i + 1)" .
    have all: "64 * (if i < length es then length es else i + 1) \<le> max_bytes" using i D(4) by simp
    have slots: "slot_at fs' sv' j = (if j = i then sd else slot_at fs sv j)" if "j < (if i < length es then length es else i + 1)" for j
      using slot_at_upd [OF U(1) assms(4), of j] that all by (simp add: sv'_def split: if_splits)
    have "dir_slots fs' sv' = (if i < length es then es[i := sd] else es @ [sd])"
    proof (rule nth_equalityI)
      show len: "length (dir_slots fs' sv') = length (if i < length es then es[i := sd] else es @ [sd])"
        using size assms(3) by (simp add: length_dir_slots)
      fix j
      assume "j < length (dir_slots fs' sv')"
      moreover from this have "j < (if i < length es then length es else i + 1)" using len assms(3) by (auto split: if_splits)
      ultimately show "dir_slots fs' sv' ! j = (if i < length es then es[i := sd] else es @ [sd]) ! j"
        using slots [of j] assms(3) by (auto simp: nth_dir_slots assms(2) nth_append split: if_splits)
    qed
    then show ?thesis using run step form [OF step size all] None unfolding sv'_def by auto
  next
    case (Some e)
    have B: "bmap_post fs sv fs' sv1" "io_error e fs' (64 * i)" "i div 8 < 143 \<longrightarrow> ftab fs sv ! (i div 8) = 0"
      using M(2) Some by auto
    have S: "file_step fs sv fs' sv1" "sv_same sv sv1" "\<forall>p < max_bytes. fbyte fs' sv1 p = fbyte fs sv p"
      using B(1) by (simp_all add: bmap_post_def)
    have size: "sfi_size (sv_i sv1) = sfi_size (sv_i sv)" using S(2) by (simp add: sv_same_def)
    have kept: "sv_kept sv sv1" using sv_same_kept [OF S(2)] T Some by simp
    have "dir_slots fs' sv1 = es" unfolding assms(2) using D(3,4) by (intro dir_slots_same S(3) size) (simp add: assms(2))
    moreover have "dir_form fs' sv1"
      by (rule form [OF S(1) kept _ D(4)]) (simp add: size D(3))
    moreover have "\<not> sd_live (es ! i)" if "i < length es"
    proof -
      have "i div 8 < 143" using that D(4) by linarith
      then show ?thesis using B(3) live_slot_block [of fs sv i] that by (auto simp: assms(2) nth_dir_slots)
    qed
    ultimately show ?thesis using run S(1) kept B(2) Some by auto
  qed
qed


subsection \<open>Linking and unlinking\<close>

definition dir_map :: "sfs_fs \<Rightarrow> sfs_vnode \<Rightarrow> u8 list \<Rightarrow> u32 option" where
  "dir_map fs sv = slots_map (dir_slots fs sv)"

lemma slots_map_None: "slots_map es nm = None \<longleftrightarrow> lookup_slot es nm = None"
  by (simp add: slots_map_def)

lemma dir_map_quiet:
  assumes "fs_quiet fs fs'"
  shows "dir_slots fs' sv = dir_slots fs sv" "dir_ok fs sv \<Longrightarrow> dir_ok fs' sv" "dir_map fs' sv = dir_map fs sv"
proof -
  note Q = quiet_file [OF assms]
  have "slot_at fs' sv = slot_at fs sv" by (simp add: slot_at_def Q(3) fun_eq_iff)
  then show s: "dir_slots fs' sv = dir_slots fs sv" by (simp add: dir_slots_def)
  then show "dir_map fs' sv = dir_map fs sv" by (simp add: dir_map_def)
  show "dir_ok fs sv \<Longrightarrow> dir_ok fs' sv" using Q(4,5) by (simp add: dir_ok_def dir_form_def s)
qed

lemma quiet_step: "fs_quiet fs fs' \<Longrightarrow> sv_ok fs sv \<Longrightarrow> file_step fs sv fs' sv"
  using quiet_file(1,4) [of fs fs'] by (simp add: fs_quiet_def file_step_iff fs_frame_def sv_blocks_def)

text \<open>The entry that sfs_dir_link writes.\<close>

definition new_entry :: "u8 list \<Rightarrow> u32 \<Rightarrow> sfs_direntry" where
  "new_entry nm ino = \<lparr>sfd_ino = ino, sfd_name = nm @ replicate (SFS_NAMELEN - length nm) 0\<rparr>"

lemma new_entry_ok:
  assumes "length nm + 1 \<le> 60" "0 \<notin> set nm" "ino \<noteq> 0"
  shows "length (sfd_name (new_entry nm ino)) = 60" "sd_live (new_entry nm ino)" "sd_name (new_entry nm ino) = nm"
    "sfd_ino (new_entry nm ino) = ino" "sd_is nm (new_entry nm ino)"
proof -
  have "takeWhile (\<lambda>c. c \<noteq> 0) nm = nm" using assms(2) by (auto intro: takeWhile_eq_all_conv [THEN iffD2])
  moreover have "take 59 (nm @ replicate (60 - length nm) 0) = nm @ replicate (59 - length nm) 0"
    using assms(1) by simp
  ultimately show "length (sfd_name (new_entry nm ino)) = 60" "sd_live (new_entry nm ino)" "sd_name (new_entry nm ino) = nm"
    "sfd_ino (new_entry nm ino) = ino" "sd_is nm (new_entry nm ino)"
    using assms by (simp_all add: new_entry_def sd_live_def sd_name_def sd_is_def cstr_def takeWhile_append2 takeWhile_replicate)
qed

text \<open>What linking does to the slots: es before, es' after.\<close>

definition linked_at :: "u8 list \<Rightarrow> u32 \<Rightarrow> nat \<Rightarrow> sfs_direntry list \<Rightarrow> sfs_direntry list \<Rightarrow> bool" where
  "linked_at nm ino i es es' \<longleftrightarrow> es' = es[i := new_entry nm ino] \<and> i < length es \<and> \<not> sd_live (es ! i) \<or>
     es' = es @ [new_entry nm ino] \<and> i = length es"

lemma linked_at_facts:
  assumes "linked_at nm ino i es es'" "names_unique es" "slots_map es nm = None" "length nm + 1 \<le> 60" "0 \<notin> set nm" "ino \<noteq> 0"
  shows "names_unique es'" "slots_map es' = (slots_map es)(nm \<mapsto> ino)" "i < length es'" "lookup_slot es' nm = Some i"
    "lookup_slot es k = Some j \<Longrightarrow> lookup_slot es' k = Some j"
proof -
  note E = new_entry_ok [OF assms(4-6)]
  have none: "lookup_slot es (sd_name (new_entry nm ino)) = None" using assms(3) by (simp add: E slots_map_None)
  have "names_unique es' \<and> slots_map es' = (slots_map es)(nm \<mapsto> ino) \<and> i < length es' \<and> es' ! i = new_entry nm ino"
    using assms(1) slots_map_append [OF assms(2) E(2) none] slots_map_reuse [OF assms(2) E(2) none]
    by (auto simp: linked_at_def E)
  then show u: "names_unique es'" "slots_map es' = (slots_map es)(nm \<mapsto> ino)" "i < length es'"
    and "lookup_slot es' nm = Some i" using E(5) by (simp_all add: lookup_slot_Some)
  show "lookup_slot es' k = Some j" if "lookup_slot es k = Some j"
  proof -
    have "j < length es" "sd_is k (es ! j)" using that by (simp_all add: lookup_slot_Some [OF assms(2)])
    moreover from this have "j < length es'" "es' ! j = es ! j"
      using assms(1) by (auto simp: linked_at_def nth_append sd_is_def nth_list_update)
    ultimately show ?thesis by (simp add: lookup_slot_Some [OF u(1)])
  qed
qed

lemma dir_link_ok:
  assumes "dir_ok fs sv" "ino \<noteq> 0" "0 \<notin> set nm" "es = dir_slots fs sv"
  shows "\<exists>r sv' fs'. sfs_dir_link sv nm ino fs = Some (r, sv', fs') \<and> file_step fs sv fs' sv' \<and> sv_kept sv sv' \<and>
    dir_ok fs' sv' \<and>
    (case r of
       Inr slot \<Rightarrow> \<exists>i. slot = int i \<and> slots_map es nm = None \<and> length nm + 1 \<le> 60 \<and> linked_at nm ino i es (dir_slots fs' sv')
     | Inl e \<Rightarrow> dir_slots fs' sv' = es \<and>
         (if slots_map es nm \<noteq> None then e = EEXIST
          else if 60 \<le> length nm then e = ENAMETOOLONG
          else e = EFBIG \<and> length es = 1144 \<or> e = ENOSPC \<and> card (fs_free fs') < 2))"
proof -
  have ok: "dir_form fs sv" "names_unique es" using assms(1) by (simp_all add: dir_ok_def assms(4))
  note D = dir_formD [OF ok(1), folded assms(4)]
  obtain fs1 where F: "fs_quiet fs fs1" "sfs_dir_findname sv nm (-1) fs =
      Some ((case lookup_slot es nm of None \<Rightarrow> (Some ENOENT, None, empty_slot es (-1))
             | Some i \<Rightarrow> (None, Some (sfd_ino (es ! i), int i), empty_slot es (-1))), sv, fs1)"
    using findname_dir [OF assms(1,4), of nm "-1"] by blast
  note Q = dir_map_quiet [OF F(1), of sv] and step = quiet_step [OF F(1) D(2)]
  have ok1: "dir_ok fs1 sv" by (rule Q(2) [OF assms(1)])
  consider (there) i where "lookup_slot es nm = Some i" | (long) "lookup_slot es nm = None" "60 \<le> length nm"
    | (new) "lookup_slot es nm = None" "length nm + 1 \<le> 60"
    by (cases "lookup_slot es nm"; cases "60 \<le> length nm") auto
  then show ?thesis
  proof cases
    case there
    then have "sfs_dir_link sv nm ino fs = Some (Inl EEXIST, sv, fs1)" by (simp add: sfs_dir_link_def F(2))
    moreover have "slots_map es nm \<noteq> None" using there by (simp add: slots_map_None)
    ultimately show ?thesis using step ok1 Q(1) assms(4) by (intro exI [of _ "Inl EEXIST"] exI [of _ sv] exI [of _ fs1] conjI) simp_all
  next
    case long
    then have "sfs_dir_link sv nm ino fs = Some (Inl ENAMETOOLONG, sv, fs1)" by (simp add: sfs_dir_link_def F(2))
    moreover have "slots_map es nm = None" using long by (simp add: slots_map_None)
    ultimately show ?thesis using step ok1 Q(1) assms(4) long
      by (intro exI [of _ "Inl ENAMETOOLONG"] exI [of _ sv] exI [of _ fs1] conjI) simp_all
  next
    case new
    note E = new_entry_ok [OF new(2) assms(3,2)]
    define i where "i = (case last_free es of None \<Rightarrow> length es | Some i \<Rightarrow> i)"
    have n1: "sfs_dir_nentries sv = Some (length es)" by (rule D(5))
    have i: "(if empty_slot es (-1) < 0 then do { n \<leftarrow> sfs_dir_nentries sv; Some (int n) } else Some (empty_slot es (-1))) = Some (int i)"
      by (simp add: n1 empty_slot_def i_def split: option.split)
    have ile: "i \<le> length es" "i < length es \<Longrightarrow> \<not> sd_live (es ! i)"
      using last_free_Some [of es] by (auto simp: i_def split: option.splits)
    obtain r sv' fs' where W: "sfs_writedir sv (int i) (new_entry nm ino) fs1 = Some (r, sv', fs')" "file_step fs1 sv fs' sv'"
        "sv_kept sv sv'" "dir_form fs' sv'"
        "case r of None \<Rightarrow> dir_slots fs' sv' = (if i < length es then es[i := new_entry nm ino] else es @ [new_entry nm ino])
         | Some e \<Rightarrow> dir_slots fs' sv' = es \<and> io_error e fs' (64 * i) \<and> (i < length es \<longrightarrow> \<not> sd_live (es ! i))"
      using writedir_ok [of fs1 sv es i "new_entry nm ino"] ok1 Q(1) ile(1) E(1) by (auto simp: dir_ok_def assms(4))
    have run: "sfs_dir_link sv nm ino fs = Some ((case r of Some e \<Rightarrow> Inl e | None \<Rightarrow> Inr (int i)), sv', fs')"
      using new i W(1) unfolding sfs_dir_link_def F(2) new_entry_def [symmetric] by simp
    have none: "slots_map es nm = None" using new(1) by (simp add: slots_map_None)
    have step': "file_step fs sv fs' sv'" by (rule file_step_trans [OF step W(2)])
    show ?thesis
    proof (cases r)
      case None
      then have "linked_at nm ino i es (dir_slots fs' sv')" using W(5) ile by (auto simp: linked_at_def)
      moreover from linked_at_facts(1) [OF this ok(2) none new(2) assms(3,2)] have "dir_ok fs' sv'"
        using W(4) by (simp add: dir_ok_def)
      ultimately show ?thesis using run step' W(3) none new(2) None by (intro exI [of _ "Inr (int i)"] exI [of _ sv'] exI [of _ fs'] conjI) auto
    next
      case (Some e)
      then have s: "dir_slots fs' sv' = es" "io_error e fs' (64 * i)" using W(5) by auto
      then have "dir_ok fs' sv'" using W(4) ok(2) by (simp add: dir_ok_def)
      moreover have "e = EFBIG \<and> length es = 1144 \<or> e = ENOSPC \<and> card (fs_free fs') < 2"
        using s(2) ile(1) D(4) by (auto simp: io_error_def)
      ultimately show ?thesis using run step' W(3) none new(2) s(1) Some by (intro exI [of _ "Inl e"] exI [of _ sv'] exI [of _ fs'] conjI) auto
    qed
  qed
qed

text \<open>A slot in use is not in a hole of the directory, so that freeing it cannot fail.\<close>

lemma dir_unlink_ok:
  assumes "dir_ok fs sv" "es = dir_slots fs sv" "lookup_slot es nm = Some i"
  shows "\<exists>sv' fs'. sfs_dir_unlink sv (int i) fs = Some (None, sv', fs') \<and> file_step fs sv fs' sv' \<and> sv_kept sv sv' \<and>
    dir_ok fs' sv' \<and> slots_map (dir_slots fs' sv') = (slots_map es)(nm := None)"
proof -
  have ok: "dir_form fs sv" "names_unique es" using assms(1) by (simp_all add: dir_ok_def assms(2))
  have i: "i < length es" "sd_is nm (es ! i)" using assms(3) by (simp_all add: lookup_slot_Some [OF ok(2)])
  define e where "e = \<lparr>sfd_ino = SFS_NOINO, sfd_name = replicate SFS_NAMELEN 0\<rparr>"
  have e: "\<not> sd_live e" "length (sfd_name e) = 60" by (simp_all add: e_def sd_live_def)
  have ile: "i \<le> length es" using i(1) by simp
  obtain r sv' fs' where W: "sfs_writedir sv (int i) e fs = Some (r, sv', fs')" "file_step fs sv fs' sv'" "sv_kept sv sv'"
      "dir_form fs' sv'"
      "case r of None \<Rightarrow> dir_slots fs' sv' = (if i < length es then es[i := e] else es @ [e])
       | Some e \<Rightarrow> dir_slots fs' sv' = es \<and> io_error e fs' (64 * i) \<and> (i < length es \<longrightarrow> \<not> sd_live (es ! i))"
    using writedir_ok [OF ok(1) assms(2) ile e(2)] by blast
  have r: "r = None" using W(5) i by (auto simp: sd_is_def split: option.splits)
  then have s: "dir_slots fs' sv' = es[i := e]" using W(5) i(1) by simp
  note S = slots_map_free [OF ok(2) i e(1)]
  have "sfs_dir_unlink sv (int i) fs = Some (None, sv', fs')" using W(1) r by (simp add: sfs_dir_unlink_def e_def)
  then show ?thesis using W(2-4) S s by (auto simp: dir_ok_def)
qed

end
