(* ===== verification/Karray.thy ===== *)
theory Karray
  imports Kprelude
begin

text \<open>
  The resizable arrays of kern/lib/array.c and include/array.h, an array of pointers that
  doubles its block when it grows. The slots past num are whatever kmalloc handed back: None
  stands for a slot that was never written. The theorems say that the operations are append,
  removal and indexing on a list, and when array_preallocate returns.
\<close>

text \<open>Which of the coming calls of kmalloc find memory; when none is listed they all do.\<close>

type_synonym kmem = "bool list"

definition kmalloc_try :: "kmem \<Rightarrow> bool \<times> kmem" where
  "kmalloc_try k = (case k of [] \<Rightarrow> (True, []) | b # bs \<Rightarrow> (b, bs))"

record 'a karray =
  ar_v :: "'a option list"
  ar_num :: u32
  ar_max :: u32

definition array_init :: "'a karray" where
  "array_init = \<lparr>ar_v = [], ar_num = 0, ar_max = 0\<rparr>"

definition array_create :: "kmem \<Rightarrow> 'a karray option \<times> kmem" where
  "array_create k = (let (got, k1) = kmalloc_try k in (if got then Some array_init else None, k1))"

definition array_cleanup :: "'a karray \<Rightarrow> unit option" where
  "array_cleanup a = kassert (ar_num a = 0)"

definition array_destroy :: "'a karray \<Rightarrow> unit option" where
  "array_destroy a = array_cleanup a"

definition array_num :: "'a karray \<Rightarrow> u32" where
  "array_num a = ar_num a"

definition array_get :: "'a karray \<Rightarrow> u32 \<Rightarrow> 'a option" where
  "array_get a index = do {
     kassert (index < ar_num a);
     x \<leftarrow> arr_get (ar_v a) (unat index);
     x
   }"

definition array_set :: "'a karray \<Rightarrow> u32 \<Rightarrow> 'a \<Rightarrow> 'a karray option" where
  "array_set a index val = do {
     kassert (index < ar_num a);
     v \<leftarrow> arr_set (ar_v a) (unat index) (Some val);
     Some (a\<lparr>ar_v := v\<rparr>)
   }"

text \<open>
  The loop that doubles newmax. In 32 bits the doubling of 2^31 is 0, from where the loop starts
  over, so for a request above 2^31 it does not end: None.
\<close>

partial_function (option) grow_max :: "u32 \<Rightarrow> u32 \<Rightarrow> u32 option" where
  [code]: "grow_max num newmax =
     (if num > newmax then grow_max num (if newmax \<noteq> 0 then newmax * 2 else 4) else Some newmax)"

text \<open>
  The size of the new block is newmax * 4 in 32 bits; memcpy of the num old entries runs past
  its end when it is smaller.
\<close>

definition array_preallocate :: "'a karray \<Rightarrow> u32 \<Rightarrow> kmem \<Rightarrow> (status \<times> 'a karray \<times> kmem) option" where
  "array_preallocate a num k =
     (if num > ar_max a
      then do {
        newmax \<leftarrow> grow_max num (ar_max a);
        let (got, k1) = kmalloc_try k;
        if \<not> got then Some (Some ENOMEM, a, k1)
        else do {
          let newptr = replicate (unat (newmax * 4) div 4) None;
          kassert (unat (ar_num a) \<le> length newptr \<and> unat (ar_num a) \<le> length (ar_v a));
          Some (None, a\<lparr>ar_v := take (unat (ar_num a)) (ar_v a) @ drop (unat (ar_num a)) newptr, ar_max := newmax\<rparr>, k1)
        }
      }
      else Some (None, a, k))"

definition array_setsize :: "'a karray \<Rightarrow> u32 \<Rightarrow> kmem \<Rightarrow> (status \<times> 'a karray \<times> kmem) option" where
  "array_setsize a num k = do {
     (r, a1, k1) \<leftarrow> array_preallocate a num k;
     (case r of Some e \<Rightarrow> Some (Some e, a1, k1) | None \<Rightarrow> Some (None, a1\<lparr>ar_num := num\<rparr>, k1))
   }"

definition array_add :: "'a karray \<Rightarrow> 'a \<Rightarrow> kmem \<Rightarrow> ((errno + u32) \<times> 'a karray \<times> kmem) option" where
  "array_add a val k = do {
     let index = ar_num a;
     (r, a1, k1) \<leftarrow> array_setsize a (index + 1) k;
     (case r of
        Some e \<Rightarrow> Some (Inl e, a1, k1)
      | None \<Rightarrow> do {
          v \<leftarrow> arr_set (ar_v a1) (unat index) (Some val);
          Some (Inr index, a1\<lparr>ar_v := v\<rparr>, k1)
        })
   }"

definition array_remove :: "'a karray \<Rightarrow> u32 \<Rightarrow> 'a karray option" where
  "array_remove a index = do {
     kassert (ar_num a \<le> ar_max a);
     kassert (index < ar_num a);
     let n = unat (ar_num a - (index + 1));
     let i = unat index;
     kassert (i + 1 + n \<le> length (ar_v a));
     Some (a\<lparr>ar_v := take i (ar_v a) @ take n (drop (i + 1) (ar_v a)) @ drop (i + n) (ar_v a), ar_num := ar_num a - 1\<rparr>)
   }"

subsection \<open>The loop of array_preallocate\<close>

definition cap :: "u32 \<Rightarrow> bool" where
  "cap m \<longleftrightarrow> m = 0 \<or> (\<exists>j < 32. m = 2 ^ j)"

lemma unat_pow2: "j < 32 \<Longrightarrow> unat (2 ^ j :: u32) = 2 ^ j"
proof -
  assume "j < 32"
  then have "(2 :: nat) ^ j < 2 ^ 32" by (intro power_strict_increasing) simp_all
  then have "unat (of_nat (2 ^ j) :: u32) = 2 ^ j" by (intro unat_of_nat_u32) simp
  then show ?thesis by simp
qed

lemma cap_cases: "cap m \<longleftrightarrow> m = 0 \<or> (\<exists>j < 32. unat m = 2 ^ j)"
  unfolding cap_def by (metis unat_pow2 word_unat_eq_iff)

lemma grow_max_below:
  assumes "num \<le> 2 ^ k" "k < 32" "j \<le> k"
  shows "\<exists>i. grow_max num (2 ^ j) = Some (2 ^ i) \<and> j \<le> i \<and> i \<le> k \<and> num \<le> 2 ^ i"
  using assms(3)
proof (induction "k - j" arbitrary: j)
  case 0
  then show ?case using assms by (subst grow_max.simps) auto
next
  case (Suc n)
  show ?case
  proof (cases "num > 2 ^ j")
    case True
    have "unat (2 ^ j :: u32) \<noteq> 0" using Suc.hyps(2) assms(2) by (subst unat_pow2) simp_all
    then have "(2 ^ j :: u32) \<noteq> 0" by (metis unat_0)
    then have "grow_max num (2 ^ j) = grow_max num (2 ^ Suc j)"
      using True by (subst grow_max.simps) (simp only: if_True not_False_eq_True power_Suc2)
    then show ?thesis using Suc.hyps(1) [of "Suc j"] Suc.hyps(2) by fastforce
  next
    case False
    then show ?thesis using Suc.prems by (subst grow_max.simps) (auto intro: exI [of _ j])
  qed
qed

text \<open>From 0 the first step is to 4.\<close>

lemma grow_max_result:
  assumes "cap m" "num > m" "num \<le> 2 ^ k" "2 \<le> k" "k < 32"
  shows "\<exists>i \<le> k. grow_max num m = Some (2 ^ i) \<and> num \<le> 2 ^ i"
proof -
  obtain j where j: "grow_max num m = grow_max num (2 ^ j)" "j \<le> k"
  proof (cases "m = 0")
    case True
    then have "grow_max num m = grow_max num (2 ^ 2)" using assms(2) by (subst grow_max.simps) simp
    then show thesis using that assms(4) by blast
  next
    case False
    then obtain j where j: "j < 32" "m = 2 ^ j" using assms(1) by (auto simp: cap_def)
    have "unat m < unat (2 ^ k :: u32)" using assms(2,3) unfolding word_less_nat_alt word_le_nat_alt by linarith
    then have "(2 :: nat) ^ j < 2 ^ k" using j assms(5) by (simp add: unat_pow2)
    then show thesis using that j(2) by (simp add: power_strict_increasing_iff)
  qed
  then show ?thesis using grow_max_below [OF assms(3,5) j(2)] by auto
qed

lemma grow_max_diverges:
  assumes "grow_max num m = Some y" shows "cap m \<longrightarrow> num \<le> 2 ^ 31"
proof (rule grow_max.raw_induct [OF _ assms, of "\<lambda>num m y. cap m \<longrightarrow> num \<le> 2 ^ 31"])
  fix f num newmax y
  assume IH: "\<And>num newmax y. f num newmax = Some y \<Longrightarrow> cap newmax \<longrightarrow> num \<le> 2 ^ 31"
    and run: "(if newmax < num then f num (if newmax \<noteq> 0 then newmax * 2 else 4) else Some newmax) = Some y"
  show "cap newmax \<longrightarrow> num \<le> 2 ^ 31"
  proof
    assume c: "cap newmax"
    show "num \<le> 2 ^ 31"
    proof (cases "newmax < num")
      case True
      have "cap (if newmax \<noteq> 0 then newmax * 2 else 4)"
      proof (cases "newmax = 0")
        case True
        have "(4 :: u32) = 2 ^ 2" by simp
        then show ?thesis using True unfolding cap_def by (intro disjI2 exI [of _ 2]) simp
      next
        case False
        then obtain j where j: "j < 32" "newmax = 2 ^ j" using c by (auto simp: cap_def)
        show ?thesis
        proof (cases "j = 31")
          case True
          then show ?thesis using j(2) by (simp add: cap_def)
        next
          case False
          then show ?thesis using j by (auto simp: cap_def intro!: exI [of _ "Suc j"])
        qed
      qed
      then show ?thesis using IH run True by auto
    next
      case False
      then have "num \<le> newmax" by simp
      moreover have "newmax \<le> 2 ^ 31"
      proof -
        have "unat newmax \<le> 2 ^ 31"
          using c power_increasing [of _ 31 "2 :: nat"] by (auto simp: cap_cases)
        then show ?thesis by (simp add: word_le_nat_alt)
      qed
      ultimately show ?thesis by (rule order_trans)
    qed
  qed
qed

subsection \<open>The list in an array\<close>

definition array_ok :: "'a karray \<Rightarrow> bool" where
  "array_ok a \<longleftrightarrow> ar_num a \<le> ar_max a \<and> length (ar_v a) = unat (ar_max a) \<and>
     None \<notin> set (take (unat (ar_num a)) (ar_v a)) \<and> cap (ar_max a) \<and> ar_max a \<le> 2 ^ 29"

definition elems :: "'a karray \<Rightarrow> 'a list" where
  "elems a = map the (take (unat (ar_num a)) (ar_v a))"

lemma array_okD:
  assumes "array_ok a"
  shows "unat (ar_num a) \<le> length (ar_v a)" "length (elems a) = unat (ar_num a)"
    "i < unat (ar_num a) \<Longrightarrow> ar_v a ! i = Some (elems a ! i)"
proof -
  show le: "unat (ar_num a) \<le> length (ar_v a)" using assms by (simp add: array_ok_def word_le_nat_alt)
  then show "length (elems a) = unat (ar_num a)" by (simp add: elems_def)
  assume i: "i < unat (ar_num a)"
  then have "ar_v a ! i \<in> set (take (unat (ar_num a)) (ar_v a))"
    using le by (metis in_set_conv_nth length_take min.absorb2 nth_take)
  then have "ar_v a ! i \<noteq> None" using assms unfolding array_ok_def by metis
  then show "ar_v a ! i = Some (elems a ! i)" using i le by (auto simp: elems_def)
qed

lemma array_init_ok: "array_ok array_init" "elems array_init = []"
  by (simp_all add: array_ok_def array_init_def cap_def elems_def)

lemma array_num_eq: "array_ok a \<Longrightarrow> unat (array_num a) = length (elems a)"
  by (simp add: array_num_def array_okD(2))

lemma array_get_ok: "array_ok a \<Longrightarrow> array_get a i = (if unat i < length (elems a) then Some (elems a ! unat i) else None)"
  using array_okD [of a] by (auto simp: array_get_def word_less_nat_alt)

lemma array_set_ok:
  assumes "array_ok a" "unat i < length (elems a)"
  shows "\<exists>a'. array_set a i x = Some a' \<and> array_ok a' \<and> elems a' = (elems a)[unat i := x]"
proof -
  note D = array_okD [OF assms(1)]
  have i: "i < ar_num a" "unat i < length (ar_v a)" using assms(2) D(1,2) by (simp_all add: word_less_nat_alt)
  define a' where "a' = a\<lparr>ar_v := (ar_v a)[unat i := Some x]\<rparr>"
  have "array_set a i x = Some a'" using i by (simp add: array_set_def a'_def)
  moreover have "take (unat (ar_num a)) ((ar_v a)[unat i := Some x]) = (take (unat (ar_num a)) (ar_v a))[unat i := Some x]"
    by (rule take_update_swap)
  then have "array_ok a'" "elems a' = (elems a)[unat i := x]"
    using assms(1) set_update_subset_insert [of "take (unat (ar_num a)) (ar_v a)" "unat i" "Some x"]
    by (auto simp: array_ok_def elems_def a'_def map_update)
  ultimately show ?thesis by blast
qed

lemma array_preallocate_ok:
  assumes "array_ok a" "num \<le> 2 ^ 29"
  shows "\<exists>r a' k'. array_preallocate a num k = Some (r, a', k') \<and> array_ok a' \<and> elems a' = elems a \<and> ar_num a' = ar_num a \<and>
    (case r of None \<Rightarrow> num \<le> ar_max a' | Some e \<Rightarrow> e = ENOMEM \<and> a' = a \<and> False \<in> set k)"
proof (cases "num > ar_max a")
  case False
  then have "array_preallocate a num k = Some (None, a, k)" "num \<le> ar_max a" by (simp_all add: array_preallocate_def)
  then show ?thesis using assms(1) by auto
next
  case True
  note D = array_okD [OF assms(1)]
  obtain i where i: "grow_max num (ar_max a) = Some (2 ^ i)" "num \<le> 2 ^ i" "i \<le> 29"
    using grow_max_result [OF _ True assms(2)] assms(1) by (auto simp: array_ok_def)
  have u: "unat (2 ^ i :: u32) = 2 ^ i" "(2 :: nat) ^ i \<le> 2 ^ 29"
    using i(3) unat_pow2 [of i] power_increasing [OF i(3), of "2 :: nat"] by simp_all
  obtain got k' where k: "kmalloc_try k = (got, k')" by fastforce
  show ?thesis
  proof (cases got)
    case False
    then have "False \<in> set k" using k by (auto simp: kmalloc_try_def split: list.splits)
    then show ?thesis using True i(1) k False assms(1)
      by (intro exI [of _ "Some ENOMEM"] exI [of _ a] exI [of _ k']) (simp add: array_preallocate_def)
  next
    case got: True
    have len: "unat ((2 :: u32) ^ i * 4) div 4 = 2 ^ i" using u by (subst unat_mult_u32) simp_all
    have "unat (ar_num a) \<le> unat (ar_max a)" using D(1) assms(1) by (simp add: array_ok_def)
    moreover have "unat (ar_max a) < unat num" "unat num \<le> 2 ^ i" using True i(2) u(1) by (simp_all add: word_less_nat_alt word_le_nat_alt)
    ultimately have le: "unat (ar_num a) \<le> 2 ^ i" by linarith
    define a' where "a' = a\<lparr>ar_v := take (unat (ar_num a)) (ar_v a) @ drop (unat (ar_num a)) (replicate (2 ^ i) None),
      ar_max := 2 ^ i\<rparr>"
    have run: "array_preallocate a num k = Some (None, a', k')"
      using True i(1) k got le D(1) by (simp add: array_preallocate_def len a'_def Let_def)
    have "take (unat (ar_num a')) (ar_v a') = take (unat (ar_num a)) (ar_v a)" using D(1) by (simp add: a'_def)
    moreover have "cap (2 ^ i)" unfolding cap_def using i(3) by (intro disjI2 exI [of _ i]) simp
    ultimately have "array_ok a'" "elems a' = elems a"
      using assms(1) D(1) le u i(3) by (simp_all add: array_ok_def elems_def) (simp_all add: a'_def word_le_nat_alt u)
    then show ?thesis using run i(2) by (intro exI [of _ None] exI [of _ a'] exI [of _ k']) (simp add: a'_def)
  qed
qed

lemma array_add_ok:
  assumes "array_ok a" "length (elems a) < 2 ^ 29"
  shows "\<exists>r a' k'. array_add a x k = Some (r, a', k') \<and> array_ok a' \<and>
    (case r of Inr i \<Rightarrow> unat i = length (elems a) \<and> elems a' = elems a @ [x]
     | Inl e \<Rightarrow> e = ENOMEM \<and> elems a' = elems a \<and> False \<in> set k)"
proof -
  note D = array_okD [OF assms(1)]
  have n: "unat (ar_num a + 1) = unat (ar_num a) + 1" using assms(2) D(2) by (subst unat_add_u32) simp_all
  then have "ar_num a + 1 \<le> 2 ^ 29" using assms(2) D(2) by (simp add: word_le_nat_alt)
  then obtain r a1 k' where P: "array_preallocate a (ar_num a + 1) k = Some (r, a1, k')" "array_ok a1" "elems a1 = elems a"
      "ar_num a1 = ar_num a" "case r of None \<Rightarrow> ar_num a + 1 \<le> ar_max a1 | Some e \<Rightarrow> e = ENOMEM \<and> a1 = a \<and> False \<in> set k"
    using array_preallocate_ok [OF assms(1)] by blast
  show ?thesis
  proof (cases r)
    case (Some e)
    then have "array_add a x k = Some (Inl e, a1, k')" using P(1) by (simp add: array_add_def array_setsize_def Let_def)
    then show ?thesis using P Some by (intro exI [of _ "Inl e"] exI [of _ a1] exI [of _ k']) simp
  next
    case None
    have len: "unat (ar_num a) < length (ar_v a1)" "unat (ar_num a) + 1 \<le> unat (ar_max a1)"
      using P(2,5) None n by (simp_all add: array_ok_def word_le_nat_alt)
    define a' where "a' = a1\<lparr>ar_num := ar_num a + 1, ar_v := (ar_v a1)[unat (ar_num a) := Some x]\<rparr>"
    have run: "array_add a x k = Some (Inr (ar_num a), a', k')"
      using P(1) None len(1) by (simp add: array_add_def array_setsize_def Let_def a'_def)
    have t: "take (unat (ar_num a')) (ar_v a') = take (unat (ar_num a)) (ar_v a1) @ [Some x]"
      using len(1) n by (simp add: a'_def take_Suc_conv_app_nth)
    then have "array_ok a'" using P(2,4) len n by (auto simp: array_ok_def a'_def word_le_nat_alt)
    moreover have "elems a' = elems a @ [x]" using P(3,4) unfolding elems_def t by simp
    ultimately show ?thesis using run D(2) by (intro exI [of _ "Inr (ar_num a)"] exI [of _ a'] exI [of _ k']) simp
  qed
qed

lemma array_remove_ok:
  assumes "array_ok a" "unat i < length (elems a)"
  shows "\<exists>a'. array_remove a i = Some a' \<and> array_ok a' \<and> elems a' = take (unat i) (elems a) @ drop (unat i + 1) (elems a)"
proof -
  note D = array_okD [OF assms(1)]
  define n where "n = unat (ar_num a)"
  define j where "j = unat i"
  have jn: "j < n" "n \<le> length (ar_v a)" using assms(2) D(1,2) by (simp_all add: n_def j_def)
  have lt: "i < ar_num a" using jn(1) by (simp add: word_less_nat_alt n_def j_def)
  have i1: "unat (i + 1) = j + 1" using jn(1) unat_u32_lt [of "ar_num a"] unfolding n_def j_def by (subst unat_add_u32) simp_all
  have d: "unat (ar_num a - (i + 1)) = n - (j + 1)" "unat (ar_num a - 1) = n - 1"
    using i1 jn(1) by (simp_all add: unat_sub_u32 word_le_nat_alt n_def)
  define v where "v = take j (ar_v a) @ take (n - (j + 1)) (drop (j + 1) (ar_v a)) @ drop (j + (n - (j + 1))) (ar_v a)"
  define a' where "a' = a\<lparr>ar_v := v, ar_num := ar_num a - 1\<rparr>"
  have "array_remove a i = Some a'"
    using assms(1) lt jn d(1) unfolding array_remove_def Let_def by (simp add: array_ok_def v_def a'_def j_def)
  moreover have t: "take (unat (ar_num a')) (ar_v a') = take j (take n (ar_v a)) @ drop (j + 1) (take n (ar_v a))"
  proof -
    have lj: "length (take j (ar_v a)) = j" and lm: "length (take (n - (j + 1)) (drop (j + 1) (ar_v a))) = n - (j + 1)"
      using jn by simp_all
    have "take (n - 1) v = take j (ar_v a) @ take (n - (j + 1)) (drop (j + 1) (ar_v a))"
      unfolding v_def take_append lj lm using jn by (simp add: take_drop)
    then show ?thesis using jn(1) by (simp add: a'_def d(2) drop_take min_def)
  qed
  have "set (take (unat (ar_num a')) (ar_v a')) \<subseteq> set (take n (ar_v a))"
    unfolding t using set_take_subset [of j] set_drop_subset [of "j + 1"] by (metis le_sup_iff set_append)
  then have "array_ok a'" using assms(1) jn d(2) unfolding array_ok_def
    by (auto simp: a'_def v_def word_le_nat_alt n_def)
  moreover have "elems a' = take j (elems a) @ drop (j + 1) (elems a)"
    unfolding elems_def t n_def by (simp add: take_map drop_map)
  ultimately show ?thesis unfolding j_def by blast
qed

text \<open>
  C37: the doubling loop of array_preallocate ends exactly for requests of at most 2^31 slots;
  beyond that newmax wraps to 0 and the loop goes on for ever. A request of at most 2^29 slots (a
  block of at most 2 GB) returns with the entries as they were and room for num of them, or with
  ENOMEM and the array untouched.
\<close>

theorem array_preallocate_ends:
  assumes "array_ok a"
  shows "(grow_max num (ar_max a) \<noteq> None \<longleftrightarrow> num \<le> 2 ^ 31) \<and> (2 ^ 31 < num \<longrightarrow> array_preallocate a num k = None) \<and>
    (num \<le> 2 ^ 29 \<longrightarrow> (\<exists>r a' k'. array_preallocate a num k = Some (r, a', k') \<and> array_ok a' \<and> elems a' = elems a \<and>
      (case r of None \<Rightarrow> num \<le> ar_max a' | Some e \<Rightarrow> e = ENOMEM \<and> a' = a \<and> False \<in> set k)))"
proof (intro conjI impI)
  have c: "cap (ar_max a)" "ar_max a \<le> 2 ^ 29" using assms by (simp_all add: array_ok_def)
  show ends: "grow_max num (ar_max a) \<noteq> None \<longleftrightarrow> num \<le> 2 ^ 31"
  proof
    show "num \<le> 2 ^ 31" if "grow_max num (ar_max a) \<noteq> None" using that grow_max_diverges c(1) by auto
    show "grow_max num (ar_max a) \<noteq> None" if "num \<le> 2 ^ 31"
    proof (cases "num > ar_max a")
      case True
      then show ?thesis using grow_max_result [OF c(1), of num 31] that by auto
    qed (simp add: grow_max.simps)
  qed
  show "array_preallocate a num k = None" if "2 ^ 31 < num"
  proof -
    have "ar_max a < num" using c(2) that by (simp add: word_le_nat_alt word_less_nat_alt)
    moreover have "grow_max num (ar_max a) = None" using ends that by auto
    ultimately show ?thesis by (simp add: array_preallocate_def)
  qed
  show "\<exists>r a' k'. array_preallocate a num k = Some (r, a', k') \<and> array_ok a' \<and> elems a' = elems a \<and>
      (case r of None \<Rightarrow> num \<le> ar_max a' | Some e \<Rightarrow> e = ENOMEM \<and> a' = a \<and> False \<in> set k)" if "num \<le> 2 ^ 29"
    using array_preallocate_ok [OF assms that, of k] by blast
qed

theorem array_preallocate_ends_witness:
  "grow_max 5 (ar_max (array_init :: nat karray)) \<noteq> None \<and>
    (\<exists>r a' k'. array_preallocate (array_init :: nat karray) 5 [] = Some (r, a', k') \<and> array_ok a' \<and>
      elems a' = elems (array_init :: nat karray) \<and>
      (case r of None \<Rightarrow> 5 \<le> ar_max a' | Some e \<Rightarrow> e = ENOMEM \<and> a' = array_init \<and> False \<in> set []))"
  using array_preallocate_ends [of "array_init :: nat karray" 5 "[]"] by (simp add: array_ok_def array_init_def cap_def)

end
