(* ===== verification/Sfsfiles.thy ===== *)
theory Sfsfiles
  imports Sfsdir Sfstrunc
begin

text \<open>
  The inodes of a volume together. An inode map gives for every inode in use its inode as a
  vnode; files_ok says that each is a well-formed file in blocks of its own and that inode
  blocks are nobody's data. The lemmas say what an operation on one file leaves of this and of
  the other files.
\<close>

type_synonym inode_map = "u32 \<Rightarrow> sfs_vnode option"

definition inode_ok :: "sfs_fs \<Rightarrow> u32 \<Rightarrow> sfs_vnode \<Rightarrow> bool" where
  "inode_ok fs i sv \<longleftrightarrow> sv_ino sv = i \<and> i \<noteq> 0 \<and> unat i < nblk fs \<and> unat i \<notin> fs_free fs \<and> sv_ok fs sv \<and>
     unat (sfi_size (sv_i sv)) \<le> max_bytes \<and> length (sfi_waste (sv_i sv)) = 110 \<and>
     sfi_type (sv_i sv) = (if i = SFS_ROOTDIR_INO then SFS_TYPE_DIR else SFS_TYPE_FILE)"

definition files_ok :: "sfs_fs \<Rightarrow> inode_map \<Rightarrow> bool" where
  "files_ok fs N \<longleftrightarrow> fs_ok fs \<and> nblk fs \<le> 2 ^ 23 \<and> (\<forall>i sv. N i = Some sv \<longrightarrow> inode_ok fs i sv) \<and>
     (\<forall>i j a b. N i = Some a \<longrightarrow> N j = Some b \<longrightarrow> i \<noteq> j \<longrightarrow> sv_blocks fs a \<inter> sv_blocks fs b = {}) \<and>
     (\<forall>i j a. N i = Some a \<longrightarrow> j \<in> dom N \<longrightarrow> j \<notin> sv_blocks fs a)"

lemma files_okD:
  assumes "files_ok fs N"
  shows "fs_ok fs" "nblk fs \<le> 2 ^ 23" "N i = Some sv \<Longrightarrow> inode_ok fs i sv"
    "N i = Some a \<Longrightarrow> N j = Some b \<Longrightarrow> i \<noteq> j \<Longrightarrow> sv_blocks fs a \<inter> sv_blocks fs b = {}"
    "N i = Some a \<Longrightarrow> j \<in> dom N \<Longrightarrow> j \<notin> sv_blocks fs a"
  using assms unfolding files_ok_def by blast+

lemma files_ok_ready: "files_ok fs N \<Longrightarrow> N i = Some sv \<Longrightarrow> file_ready fs sv"
  using files_okD [of fs N] by (simp add: file_ready_def inode_ok_def)

text \<open>The file of a vnode as it was.\<close>

definition file_kept :: "sfs_fs \<Rightarrow> sfs_fs \<Rightarrow> sfs_vnode \<Rightarrow> bool" where
  "file_kept fs fs' sv \<longleftrightarrow> ftab fs' sv = ftab fs sv \<and> sv_blocks fs' sv = sv_blocks fs sv \<and> sv_ok fs' sv \<and>
     abs_file fs' sv = abs_file fs sv"

lemma file_kept_refl: "sv_ok fs sv \<Longrightarrow> file_kept fs fs sv"
  by (simp add: file_kept_def)

lemma file_kept_trans: "file_kept fs fs1 sv \<Longrightarrow> file_kept fs1 fs2 sv \<Longrightarrow> file_kept fs fs2 sv"
  by (simp add: file_kept_def)

lemma file_kept_dir:
  assumes "file_kept fs fs' sv" "unat (sfi_size (sv_i sv)) \<le> max_bytes"
  shows "dir_slots fs' sv = dir_slots fs sv"
proof (rule dir_slots_same [OF _ refl assms(2)])
  have f: "(if p < max_bytes then fbyte fs' sv p else 0) = (if p < max_bytes then fbyte fs sv p else 0)" for p
    using assms(1) unfolding file_kept_def abs_file_def prod.inject by metis
  show "\<forall>p < max_bytes. fbyte fs' sv p = fbyte fs sv p" using f by (metis (full_types))
qed

lemma frame_kept:
  assumes "sv_ok fs sv" "fs_same fs fs'" "fs_frame B fs fs'" "sv_blocks fs sv \<inter> B = {}"
  shows "file_kept fs fs' sv"
proof -
  have "unat ` sv_blocks fs sv \<inter> unat ` B = {}" using assms(4) by (auto dest: word_unat_eq_iff [THEN iffD2])
  note F = fs_frame_file [OF assms(1-3) this]
  have "abs_file fs' sv = abs_file fs sv" using F(4) by (auto simp: abs_file_def)
  then show ?thesis using F(1-3) by (simp add: file_kept_def)
qed

lemma quiet_kept: "fs_quiet fs fs' \<Longrightarrow> sv_ok fs sv \<Longrightarrow> file_kept fs fs' sv"
proof -
  assume q: "fs_quiet fs fs'" and ok: "sv_ok fs sv"
  have "abs_file fs' sv = abs_file fs sv" unfolding abs_file_def quiet_file(2) [OF q] ..
  then show ?thesis using quiet_file(1,4) [OF q, of sv] ok by (simp add: file_kept_def sv_blocks_def)
qed

lemma frame_block:
  assumes "fs_frame B fs fs'" "unat j < nblk fs" "unat j \<notin> fs_free fs" "j \<notin> B"
  shows "unat j \<notin> fs_free fs'" "dsk fs' (unat j) = dsk fs (unat j)"
proof -
  have "unat j \<notin> unat ` B" using assms(4) by (auto dest: word_unat_eq_iff [THEN iffD2])
  then show "unat j \<notin> fs_free fs'" "dsk fs' (unat j) = dsk fs (unat j)"
    using assms(1-3) unfolding fs_frame_def by blast+
qed

text \<open>What an operation on the file of inode i leaves alone.\<close>

definition others_kept :: "sfs_fs \<Rightarrow> sfs_fs \<Rightarrow> inode_map \<Rightarrow> u32 \<Rightarrow> bool" where
  "others_kept fs fs' N i \<longleftrightarrow> fs_same fs fs' \<and> (\<forall>j b. N j = Some b \<longrightarrow> j \<noteq> i \<longrightarrow> file_kept fs fs' b) \<and>
     (\<forall>j \<in> dom N. dsk fs' (unat j) = dsk fs (unat j) \<and> unat j \<notin> fs_free fs')"

lemma others_keptD:
  assumes "others_kept fs fs' N i"
  shows "fs_same fs fs'" "nblk fs' = nblk fs" "N j = Some b \<Longrightarrow> j \<noteq> i \<Longrightarrow> file_kept fs fs' b"
    "N j = Some b \<Longrightarrow> dsk fs' (unat j) = dsk fs (unat j)" "N j = Some b \<Longrightarrow> unat j \<notin> fs_free fs'"
  using assms fs_same_nblk(1) by (auto simp: others_kept_def)

lemma frame_others:
  assumes "files_ok fs N" "N i = Some sv" "fs_same fs fs'" "fs_frame (sv_blocks fs sv) fs fs'"
  shows "others_kept fs fs' N i"
proof -
  note D = files_okD [OF assms(1)]
  have "file_kept fs fs' b" if "N j = Some b" "j \<noteq> i" for j b
  proof (rule frame_kept [OF _ assms(3,4)])
    show "sv_ok fs b" using D(3) [OF that(1)] by (simp add: inode_ok_def)
    show "sv_blocks fs b \<inter> sv_blocks fs sv = {}" by (rule D(4) [OF that(1) assms(2) that(2)])
  qed
  moreover have "dsk fs' (unat j) = dsk fs (unat j) \<and> unat j \<notin> fs_free fs'" if j: "j \<in> dom N" for j
  proof -
    obtain b where "N j = Some b" using j by blast
    then have "unat j < nblk fs" "unat j \<notin> fs_free fs" using D(3) by (auto simp: inode_ok_def)
    then show ?thesis using frame_block [OF assms(4) _ _ D(5) [OF assms(2) j]] by blast
  qed
  ultimately show ?thesis using assms(3) by (simp add: others_kept_def)
qed

text \<open>The file of inode i has changed into sv', and nothing else has.\<close>

lemma files_change:
  assumes "files_ok fs N" "N i = Some sv" "others_kept fs fs' N i" "fs_ok fs'" "sv_ok fs' sv'"
    and "sv_ino sv' = i" "unat (sfi_size (sv_i sv')) \<le> max_bytes" "length (sfi_waste (sv_i sv')) = 110"
      "sfi_type (sv_i sv') = sfi_type (sv_i sv)"
    and "unat ` sv_blocks fs' sv' \<subseteq> unat ` sv_blocks fs sv \<union> fs_free fs"
  shows "files_ok fs' (N(i \<mapsto> sv'))"
proof -
  note D = files_okD [OF assms(1)] and K = others_keptD [OF assms(3)]
  have new: "b \<in> sv_blocks fs sv \<or> unat b \<in> fs_free fs" if "b \<in> sv_blocks fs' sv'" for b
  proof (rule ccontr)
    assume c: "\<not> (b \<in> sv_blocks fs sv \<or> unat b \<in> fs_free fs)"
    then have "unat b \<in> unat ` sv_blocks fs sv" using assms(10) that by blast
    then obtain d where "d \<in> sv_blocks fs sv" "unat b = unat d" by blast
    moreover from this(2) have "b = d" by (rule word_unat_eq_iff [THEN iffD2])
    ultimately show False using c by blast
  qed
  have I: "inode_ok fs i sv" by (rule D(3) [OF assms(2)])
  have io: "inode_ok fs' j b" if "(N(i \<mapsto> sv')) j = Some b" for j b
  proof (cases "j = i")
    case True
    then show ?thesis using that I assms(4-9) K(2) K(5) [OF assms(2)] by (simp add: inode_ok_def)
  next
    case False
    then have j: "N j = Some b" using that by simp
    then show ?thesis using D(3) [OF j] K(2) K(3) [OF j False] K(5) [OF j] by (simp add: inode_ok_def file_kept_def)
  qed
  have bl: "sv_blocks fs' b = sv_blocks fs b" "sv_blocks fs b \<inter> sv_blocks fs' sv' = {}" if "N j = Some b" "j \<noteq> i" for j b
  proof -
    show "sv_blocks fs' b = sv_blocks fs b" using K(3) [OF that] by (simp add: file_kept_def)
    have "unat c \<notin> fs_free fs" if "c \<in> sv_blocks fs b" for c
      using that D(3) [OF \<open>N j = Some b\<close>] unfolding inode_ok_def sv_ok_def by blast
    then show "sv_blocks fs b \<inter> sv_blocks fs' sv' = {}" using new D(4) [OF that(1) assms(2) that(2)] by blast
  qed
  have "sv_blocks fs' a \<inter> sv_blocks fs' b = {}"
    if "(N(i \<mapsto> sv')) j = Some a" "(N(i \<mapsto> sv')) k = Some b" "j \<noteq> k" for j k a b
    using that bl D(4) by (auto split: if_splits) blast+
  moreover have "k \<notin> sv_blocks fs' a" if "(N(i \<mapsto> sv')) j = Some a" "k \<in> dom (N(i \<mapsto> sv'))" for j k a
  proof -
    have k: "k \<in> dom N" "unat k \<notin> fs_free fs" using that(2) assms(2) D(3) by (auto simp: inode_ok_def split: if_splits)
    show ?thesis
    proof (cases "j = i")
      case True
      then show ?thesis using that(1) new [of k] k D(5) [OF assms(2) k(1)] by auto
    next
      case False
      then show ?thesis using that(1) bl(1) [of j a] D(5) [OF _ k(1), of j a] by simp
    qed
  qed
  ultimately show ?thesis unfolding files_ok_def using assms(4) D(2) K(2) io by auto
qed


text \<open>Nothing of any file has changed.\<close>

lemma files_same:
  assumes "files_ok fs N" "fs_same fs fs'" "fs_ok fs'" "\<And>j b. N j = Some b \<Longrightarrow> file_kept fs fs' b \<and> unat j \<notin> fs_free fs'"
  shows "files_ok fs' N"
proof -
  note D = files_okD [OF assms(1)]
  have bl: "sv_blocks fs' b = sv_blocks fs b" if "N j = Some b" for j b using assms(4) [OF that] by (simp add: file_kept_def)
  have "inode_ok fs' j b" if "N j = Some b" for j b
    using D(3) [OF that] assms(4) [OF that] fs_same_nblk(1) [OF assms(2)] by (simp add: inode_ok_def file_kept_def)
  moreover have "sv_blocks fs' a \<inter> sv_blocks fs' b = {}" if "N j = Some a" "N k = Some b" "j \<noteq> k" for j k a b
    unfolding bl [OF that(1)] bl [OF that(2)] by (rule D(4) [OF that])
  moreover have "k \<notin> sv_blocks fs' a" if "N j = Some a" "k \<in> dom N" for j k a
    unfolding bl [OF that(1)] by (rule D(5) [OF that])
  ultimately show ?thesis unfolding files_ok_def using assms(3) D(2) fs_same_nblk(1) [OF assms(2)] by simp
qed

lemma files_sub:
  assumes "files_ok fs N" "M \<subseteq>\<^sub>m N"
  shows "files_ok fs M"
proof -
  have sub: "N j = Some b" if "M j = Some b" for j b using that assms(2) by (metis domI map_le_def)
  have dom: "j \<in> dom M \<Longrightarrow> j \<in> dom N" for j using map_le_implies_dom_le [OF assms(2)] by blast
  note D = files_okD [OF assms(1)]
  show ?thesis unfolding files_ok_def
  proof (intro conjI allI impI)
    show "inode_ok fs i sv" if "M i = Some sv" for i sv by (rule D(3) [OF sub [OF that]])
    show "sv_blocks fs a \<inter> sv_blocks fs b = {}" if "M i = Some a" "M j = Some b" "i \<noteq> j" for i j a b
      by (rule D(4) [OF sub [OF that(1)] sub [OF that(2)] that(3)])
    show "j \<notin> sv_blocks fs a" if "M i = Some a" "j \<in> dom M" for i j a
      by (rule D(5) [OF sub [OF that(1)] dom [OF that(2)]])
  qed (rule D(1), rule D(2))
qed

lemma files_quiet: "files_ok fs N \<Longrightarrow> fs_quiet fs fs' \<Longrightarrow> files_ok fs' N"
  using files_same [of fs N fs'] quiet_kept [of fs fs'] files_okD(3) [of fs N]
  by (auto simp: inode_ok_def fs_quiet_def)

text \<open>An inode in a block that was free.\<close>

lemma files_new:
  assumes "files_ok fs N" "unat i \<in> fs_free fs" "fs_free fs' = fs_free fs - {unat i}"
    and "dsk fs' = (dsk fs)(unat i := x)" "fs_same fs fs'" "fs_ok fs'"
    and "sv_ino sv = i" "i \<noteq> 1" "sv_blocks fs' sv = {}" "length (sv_direct sv) = 15" "ftab fs' sv = replicate 143 0"
      "unat (sfi_size (sv_i sv)) \<le> max_bytes" "length (sfi_waste (sv_i sv)) = 110" "sfi_type (sv_i sv) = SFS_TYPE_FILE"
  shows "files_ok fs' (N(i \<mapsto> sv))" "i \<notin> dom N" "others_kept fs fs' N i"
proof -
  note D = files_okD [OF assms(1)]
  show new: "i \<notin> dom N" using D(3) assms(2) by (auto simp: inode_ok_def)
  have fr: "fs_frame {} fs fs'" by (rule fs_frame_alloc [OF assms(2-4)])
  have kept: "file_kept fs fs' b \<and> unat j \<notin> fs_free fs' \<and> dsk fs' (unat j) = dsk fs (unat j)" if "N j = Some b" for j b
  proof -
    have b: "inode_ok fs j b" by (rule D(3) [OF that])
    then show ?thesis using frame_kept [OF _ assms(5) fr] frame_block [OF fr, of j] by (simp add: inode_ok_def)
  qed
  then show "others_kept fs fs' N i" using assms(5) by (auto simp: others_kept_def)
  have ok: "files_ok fs' N" using files_same [OF assms(1,5,6)] kept by blast
  note D' = files_okD [OF ok]
  have "i \<noteq> 0" "unat i < nblk fs'" using fs_okD(5) [OF D(1)] assms(2) fs_same_nblk(1) [OF assms(5)] by auto
  moreover have "sv_ok fs' sv" using assms(9-11) by (auto simp: sv_ok_def sv_blocks_def)
  ultimately have io: "inode_ok fs' i sv" using assms(3,7,8,12-14) by (simp add: inode_ok_def)
  have notin: "i \<notin> sv_blocks fs' a" if "N j = Some a" for j a
  proof -
    have "sv_ok fs a" "sv_blocks fs' a = sv_blocks fs a" using D(3) [OF that] kept [OF that] by (simp_all add: inode_ok_def file_kept_def)
    then show ?thesis using assms(2) unfolding sv_ok_def by blast
  qed
  have "sv_blocks fs' a \<inter> sv_blocks fs' b = {}" if "(N(i \<mapsto> sv)) j = Some a" "(N(i \<mapsto> sv)) k = Some b" "j \<noteq> k" for j k a b
    using that assms(9) D'(4) [of j a k b] by (auto split: if_splits)
  moreover have "k \<notin> sv_blocks fs' a" if "(N(i \<mapsto> sv)) j = Some a" "k \<in> dom (N(i \<mapsto> sv))" for j k a
    using that assms(9) notin [of j a] D'(5) [of j a k] by (auto split: if_splits)
  ultimately show "files_ok fs' (N(i \<mapsto> sv))" unfolding files_ok_def using D'(1-3) io by auto
qed

text \<open>Giving back the block of an inode whose file has none left.\<close>

lemma files_drop:
  assumes "files_ok fs N" "N i = Some sv" "fs_same fs fs'" "fs_ok fs'" "dsk fs' = dsk fs"
    and "fs_free fs' = insert (unat i) (fs_free fs)"
  shows "files_ok fs' (N(i := None))" "others_kept fs fs' (N(i := None)) i"
proof -
  note D = files_okD [OF assms(1)]
  have fr: "fs_frame {i} fs fs'" using assms(5,6) by (auto simp: fs_frame_def)
  have kept: "file_kept fs fs' b \<and> unat j \<notin> fs_free fs' \<and> dsk fs' (unat j) = dsk fs (unat j)"
    if "(N(i := None)) j = Some b" for j b
  proof -
    have j: "N j = Some b" "j \<noteq> i" using that by (auto split: if_splits)
    have "sv_blocks fs b \<inter> {i} = {}" using D(5) [OF j(1), of i] assms(2) by blast
    then show ?thesis using D(3) [OF j(1)] frame_kept [OF _ assms(3) fr] frame_block [OF fr, of j] j(2)
      by (simp add: inode_ok_def)
  qed
  then show "others_kept fs fs' (N(i := None)) i" using assms(3) by (auto simp: others_kept_def)
  have "files_ok fs (N(i := None))" by (rule files_sub [OF assms(1)]) (simp add: map_le_def)
  from files_same [OF this assms(3,4)] kept show "files_ok fs' (N(i := None))" by blast
qed

text \<open>Writing an inode block.\<close>

lemma files_inode:
  assumes "files_ok fs N" "N i = Some sv" "fs_keep fs fs'" "dsk fs' = (dsk fs)(unat i := x)"
  shows "files_ok fs' N" "N j = Some b \<Longrightarrow> file_kept fs fs' b"
    "j \<noteq> i \<Longrightarrow> dsk fs' (unat j) = dsk fs (unat j)"
proof -
  note D = files_okD [OF assms(1)]
  have fr: "fs_frame {i} fs fs'" using assms(3,4) by (auto simp: fs_frame_def fs_keep_def)
  have same: "fs_same fs fs'" "fs_ok fs'" using assms(3) by (simp_all add: fs_keep_def)
  have kept: "file_kept fs fs' b" if "N j = Some b" for j b
  proof (rule frame_kept [OF _ same(1) fr])
    show "sv_ok fs b" using D(3) [OF that] by (simp add: inode_ok_def)
    show "sv_blocks fs b \<inter> {i} = {}" using D(5) [OF that, of i] assms(2) by blast
  qed
  then show "N j = Some b \<Longrightarrow> file_kept fs fs' b" .
  have "unat j \<notin> fs_free fs'" if "N j = Some b" for j b
    using D(3) [OF that] assms(3) by (simp add: inode_ok_def fs_keep_def)
  then show "files_ok fs' N" using files_same [OF assms(1) same] kept by blast
  show "j \<noteq> i \<Longrightarrow> dsk fs' (unat j) = dsk fs (unat j)" using assms(4) by (simp add: word_unat_eq_iff)
qed

subsection \<open>No block is lost\<close>

text \<open>
  The blocks of the volume itself are the superblock and the free map, which starts at block 2
  and has a bit for every block; a volume leaks nothing when every other block in use holds an
  inode of the map or belongs to the file of one.
\<close>

definition sys_blocks :: "sfs_fs \<Rightarrow> nat set" where
  "sys_blocks fs = insert 0 {2..<2 + (nblk fs + 4095) div 4096}"

definition no_leak :: "sfs_fs \<Rightarrow> inode_map \<Rightarrow> bool" where
  "no_leak fs N \<longleftrightarrow> (\<forall>n < nblk fs. n \<notin> fs_free fs \<longrightarrow> n \<in> sys_blocks fs \<or>
     (\<exists>i sv. N i = Some sv \<and> (n = unat i \<or> n \<in> unat ` sv_blocks fs sv)))"

lemma sys_blocks_same: "fs_same fs fs' \<Longrightarrow> sys_blocks fs' = sys_blocks fs"
  by (simp add: sys_blocks_def fs_same_nblk)

lemma no_leakD:
  assumes "no_leak fs N" "n < nblk fs" "n \<notin> fs_free fs" "n \<notin> sys_blocks fs"
  obtains i sv where "N i = Some sv" "n = unat i \<or> n \<in> unat ` sv_blocks fs sv"
  using assms unfolding no_leak_def by blast

lemma leak_change:
  assumes leak: "no_leak fs N" and i: "N i = Some sv" and o: "others_kept fs fs' N i" and pool: "file_pool fs sv \<subseteq> file_pool fs' sv'"
  shows "no_leak fs' (N(i \<mapsto> sv'))"
  unfolding no_leak_def
proof (intro allI impI)
  note K = others_keptD [OF o]
  fix n
  assume n: "n < nblk fs'" "n \<notin> fs_free fs'"
  show "n \<in> sys_blocks fs' \<or> (\<exists>j b. (N(i \<mapsto> sv')) j = Some b \<and> (n = unat j \<or> n \<in> unat ` sv_blocks fs' b))"
  proof (cases "n \<in> file_pool fs sv")
    case True
    then have "n \<in> unat ` sv_blocks fs' sv'" using pool n(2) by blast
    then show ?thesis by (intro disjI2 exI [of _ i] exI [of _ sv']) simp
  next
    case False
    show ?thesis
    proof (cases "n \<in> sys_blocks fs")
      case True
      then show ?thesis using sys_blocks_same [OF K(1)] by simp
    next
      case sys: False
      obtain j b where j: "N j = Some b" "n = unat j \<or> n \<in> unat ` sv_blocks fs b"
        by (rule no_leakD [OF leak _ _ sys, of thesis]) (use n(1) False K(2) in auto)
      show ?thesis
      proof (cases "j = i")
        case True
        then have "n = unat i" using j False i by auto
        then show ?thesis by (intro disjI2 exI [of _ i] exI [of _ sv']) simp
      next
        case False
        then show ?thesis using j K(3) [OF j(1) False] by (intro disjI2 exI [of _ j] exI [of _ b]) (simp add: file_kept_def)
      qed
    qed
  qed
qed

lemma leak_same:
  assumes leak: "no_leak fs N" and s: "fs_same fs fs'" and f: "fs_free fs \<subseteq> fs_free fs'"
    and b: "\<And>j b. N j = Some b \<Longrightarrow> sv_blocks fs' b = sv_blocks fs b"
  shows "no_leak fs' N"
  unfolding no_leak_def sys_blocks_same [OF s] fs_same_nblk(1) [OF s]
proof (intro allI impI)
  fix n
  assume "n < nblk fs" "n \<notin> fs_free fs'"
  then have "n \<in> sys_blocks fs \<or> (\<exists>i sv. N i = Some sv \<and> (n = unat i \<or> n \<in> unat ` sv_blocks fs sv))"
    using leak f unfolding no_leak_def by blast
  then show "n \<in> sys_blocks fs \<or> (\<exists>i sv. N i = Some sv \<and> (n = unat i \<or> n \<in> unat ` sv_blocks fs' sv))"
    using b by metis
qed

lemma leak_kept: "no_leak fs N \<Longrightarrow> fs_same fs fs' \<Longrightarrow> fs_free fs \<subseteq> fs_free fs' \<Longrightarrow> (\<And>j b. N j = Some b \<Longrightarrow> file_kept fs fs' b) \<Longrightarrow>
    no_leak fs' N"
  using leak_same [of fs N fs'] by (simp add: file_kept_def)

lemma leak_new:
  assumes leak: "no_leak fs N" and f: "fs_free fs' = fs_free fs - {unat i}" and o: "others_kept fs fs' N i" and i: "i \<notin> dom N"
  shows "no_leak fs' (N(i \<mapsto> sv))"
  unfolding no_leak_def
proof (intro allI impI)
  note K = others_keptD [OF o]
  fix n
  assume n: "n < nblk fs'" "n \<notin> fs_free fs'"
  show "n \<in> sys_blocks fs' \<or> (\<exists>j b. (N(i \<mapsto> sv)) j = Some b \<and> (n = unat j \<or> n \<in> unat ` sv_blocks fs' b))"
  proof (cases "n = unat i")
    case True
    then show ?thesis by (intro disjI2 exI [of _ i] exI [of _ sv]) simp
  next
    case False
    then have n': "n < nblk fs" "n \<notin> fs_free fs" using n f K(2) by simp_all
    show ?thesis
    proof (cases "n \<in> sys_blocks fs")
      case True
      then show ?thesis using sys_blocks_same [OF K(1)] by simp
    next
      case sys: False
      obtain j b where j: "N j = Some b" "n = unat j \<or> n \<in> unat ` sv_blocks fs b"
        by (rule no_leakD [OF leak n' sys])
      have "j \<noteq> i" using j(1) i by auto
      then show ?thesis using j K(3) [OF j(1)] by (intro disjI2 exI [of _ j] exI [of _ b]) (simp add: file_kept_def)
    qed
  qed
qed

lemma leak_drop:
  assumes leak: "no_leak fs N" and i: "N i = Some sv" "sv_blocks fs sv = {}" and f: "fs_free fs' = insert (unat i) (fs_free fs)"
    and o: "others_kept fs fs' (N(i := None)) i"
  shows "no_leak fs' (N(i := None))"
  unfolding no_leak_def
proof (intro allI impI)
  note K = others_keptD [OF o]
  fix n
  assume n: "n < nblk fs'" "n \<notin> fs_free fs'"
  then have n': "n < nblk fs" "n \<notin> fs_free fs" "n \<noteq> unat i" using f K(2) by simp_all
  show "n \<in> sys_blocks fs' \<or> (\<exists>j b. (N(i := None)) j = Some b \<and> (n = unat j \<or> n \<in> unat ` sv_blocks fs' b))"
  proof (cases "n \<in> sys_blocks fs")
    case True
    then show ?thesis using sys_blocks_same [OF K(1)] by simp
  next
    case sys: False
    obtain j b where j: "N j = Some b" "n = unat j \<or> n \<in> unat ` sv_blocks fs b"
      by (rule no_leakD [OF leak n'(1,2) sys])
    have "j \<noteq> i" using j i n'(3) by auto
    then show ?thesis using j K(3) [of j b] by (intro disjI2 exI [of _ j] exI [of _ b]) (simp add: file_kept_def)
  qed
qed

subsection \<open>Replacing a vnode\<close>

text \<open>Replacing a vnode by one with the same file.\<close>

lemma files_meta:
  assumes "files_ok fs N" "N i = Some sv" "sv_ino sv' = sv_ino sv" "sfi_size (sv_i sv') = sfi_size (sv_i sv)"
    "sfi_type (sv_i sv') = sfi_type (sv_i sv)" "sfi_waste (sv_i sv') = sfi_waste (sv_i sv)"
    "sv_direct sv' = sv_direct sv" "sv_indirect sv' = sv_indirect sv"
  shows "files_ok fs (N(i \<mapsto> sv'))"
proof -
  have t: "ftab fs sv' = ftab fs sv" "sv_blocks fs sv' = sv_blocks fs sv" "sv_ok fs sv' = sv_ok fs sv"
    using assms(7,8) by (simp_all add: ftab_def indtab_def sv_blocks_def sv_ok_def)
  have I: "inode_ok fs i sv" by (rule files_okD(3) [OF assms(1,2)])
  have "others_kept fs fs N i" using files_okD(3) [OF assms(1)] by (auto simp: others_kept_def file_kept_def inode_ok_def fs_same_def)
  then show ?thesis
    using files_change [OF assms(1,2), of fs sv'] files_okD(1) [OF assms(1)] I assms(3-6) by (simp add: inode_ok_def t)
qed


end
