(* ===== verification/Sfsnode.thy ===== *)
theory Sfsnode
  imports Sfsfiles Karray
begin

text \<open>
  The vnodes of an SFS volume: kern/fs/sfs/sfs_inode.c, the operations of sfs_vnops.c, and the
  reference counting of kern/vfs/vnode.c. A vnode lives at an address; sfs_vnodes is the array
  of the addresses of the vnodes in memory, in the order of loading.
\<close>

record sfs_vol =
  vol_fs :: sfs_fs
  vol_vnodes :: "nat karray"
  vol_heap :: "sfs_vnode option list"
  vol_kmem :: kmem

text \<open>The structures sfs_vnode that kmalloc has handed out; None once freed.\<close>

definition vn_get :: "sfs_vol \<Rightarrow> nat \<Rightarrow> sfs_vnode option" where
  "vn_get vol p = do { x \<leftarrow> arr_get (vol_heap vol) p; x }"

definition vn_put :: "nat \<Rightarrow> sfs_vnode \<Rightarrow> sfs_vol \<Rightarrow> sfs_vol" where
  "vn_put p sv vol = vol\<lparr>vol_heap := (vol_heap vol)[p := Some sv]\<rparr>"

text \<open>A function on one vnode, run on the vnode at an address.\<close>

definition on_vnode ::
  "nat \<Rightarrow> (sfs_vnode \<Rightarrow> sfs_fs \<Rightarrow> ('r \<times> sfs_vnode \<times> sfs_fs) option) \<Rightarrow> sfs_vol \<Rightarrow> ('r \<times> sfs_vol) option" where
  "on_vnode p f vol = do {
     sv \<leftarrow> vn_get vol p;
     (r, sv1, fs1) \<leftarrow> f sv (vol_fs vol);
     Some (r, vn_put p sv1 (vol\<lparr>vol_fs := fs1\<rparr>))
   }"

definition on_fs :: "(sfs_fs \<Rightarrow> ('r \<times> sfs_fs) option) \<Rightarrow> sfs_vol \<Rightarrow> ('r \<times> sfs_vol) option" where
  "on_fs f vol = do { (r, fs1) \<leftarrow> f (vol_fs vol); Some (r, vol\<lparr>vol_fs := fs1\<rparr>) }"

subsection \<open>The inode on disk\<close>

definition dinode_of :: "u8 list \<Rightarrow> sfs_dinode" where
  "dinode_of bs = \<lparr>sfi_size = get32 bs 0, sfi_type = get16 bs 4, sfi_linkcount = get16 bs 6,
     sfi_direct = words_of SFS_NDIRECT (drop 8 bs), sfi_indirect = get32 bs 68, sfi_waste = words_of 110 (drop 72 bs)\<rparr>"

definition dinode_bytes :: "sfs_dinode \<Rightarrow> u8 list" where
  "dinode_bytes d = be32 (sfi_size d) @ be16 (sfi_type d) @ be16 (sfi_linkcount d) @ bytes_of (sfi_direct d) @
     be32 (sfi_indirect d) @ bytes_of (sfi_waste d)"

definition sfs_sync_inode :: "sfs_vnode \<Rightarrow> sfs_fs \<Rightarrow> (status \<times> sfs_vnode \<times> sfs_fs) option" where
  "sfs_sync_inode sv fs =
     (if sv_dirty sv
      then do {
        (r, fs1) \<leftarrow> sfs_writeblock fs (sv_ino sv) (dinode_bytes (sv_i sv)) SFS_BLOCKSIZE;
        (case r of Some e \<Rightarrow> Some (Some e, sv, fs1) | None \<Rightarrow> Some (None, sv\<lparr>sv_dirty := False\<rparr>, fs1))
      }
      else Some (None, sv, fs))"

subsection \<open>Reference counts: kern/vfs/vnode.c, and sfs_reclaim\<close>

text \<open>
  The count, an int in the code, is a number here: vnode_incref has no limit. The two agree as long as no
  vnode gets 2^31 references, which the statements on sequences of calls ask for (refs_fit in the theory
  Vnodeops).
\<close>

definition vnode_incref :: "nat \<Rightarrow> sfs_vol \<Rightarrow> sfs_vol option" where
  "vnode_incref p vol = do {
     sv \<leftarrow> vn_get vol p;
     Some (vn_put p (sv\<lparr>sv_refcount := sv_refcount sv + 1\<rparr>) vol)
   }"

text \<open>The search for a vnode in the array: its index, or num.\<close>

fun vnode_index :: "nat \<Rightarrow> u32 \<Rightarrow> nat \<Rightarrow> sfs_vol \<Rightarrow> u32 option option" where
  "vnode_index 0 i p vol = Some None"
| "vnode_index (Suc n) i p vol = do {
     v2 \<leftarrow> array_get (vol_vnodes vol) i;
     _ \<leftarrow> vn_get vol v2;
     if v2 = p then Some (Some i) else vnode_index n (i + 1) p vol
   }"

definition sfs_reclaim :: "nat \<Rightarrow> sfs_vol \<Rightarrow> (status \<times> sfs_vol) option" where
  "sfs_reclaim p vol = do {
     sv \<leftarrow> vn_get vol p;
     if sv_refcount sv \<noteq> 1
     then do {
       kassert (sv_refcount sv > 1);
       Some (Some EBUSY, vn_put p (sv\<lparr>sv_refcount := sv_refcount sv - 1\<rparr>) vol)
     }
     else do {
       (r, vol1) \<leftarrow> (if sfi_linkcount (sv_i sv) = 0 then on_vnode p (\<lambda>sv. sfs_itrunc sv 0) vol else Some (None, vol));
       if r \<noteq> None then Some (r, vol1)
       else do {
         (r2, vol2) \<leftarrow> on_vnode p sfs_sync_inode vol1;
         if r2 \<noteq> None then Some (r2, vol2)
         else do {
           sv2 \<leftarrow> vn_get vol2 p;
           fs3 \<leftarrow> (if sfi_linkcount (sv_i sv2) = 0 then sfs_bfree (vol_fs vol2) (sv_ino sv2) else Some (vol_fs vol2));
           let vol3 = vol2\<lparr>vol_fs := fs3\<rparr>;
           ix \<leftarrow> vnode_index (unat (array_num (vol_vnodes vol3))) 0 p vol3;
           i \<leftarrow> ix;
           a \<leftarrow> array_remove (vol_vnodes vol3) i;
           kassert (sv_refcount sv2 = 1);
           Some (None, vol3\<lparr>vol_vnodes := a, vol_heap := (vol_heap vol3)[p := None]\<rparr>)
         }
       }
     }
   }"

definition vnode_decref :: "nat \<Rightarrow> sfs_vol \<Rightarrow> sfs_vol option" where
  "vnode_decref p vol = do {
     sv \<leftarrow> vn_get vol p;
     kassert (sv_refcount sv > 0);
     if sv_refcount sv > 1
     then Some (vn_put p (sv\<lparr>sv_refcount := sv_refcount sv - 1\<rparr>) vol)
     else do { (_, vol1) \<leftarrow> sfs_reclaim p vol; Some vol1 }
   }"

subsection \<open>Loading and making vnodes\<close>

text \<open>The search for a loaded inode. Every inode in memory must be in an allocated block.\<close>

fun loaded_search :: "nat \<Rightarrow> u32 \<Rightarrow> u32 \<Rightarrow> sfs_vol \<Rightarrow> nat option option" where
  "loaded_search 0 i ino vol = Some None"
| "loaded_search (Suc n) i ino vol = do {
     v \<leftarrow> array_get (vol_vnodes vol) i;
     sv \<leftarrow> vn_get vol v;
     used \<leftarrow> sfs_bused (vol_fs vol) (sv_ino sv);
     kassert used;
     if sv_ino sv = ino then Some (Some v) else loaded_search n (i + 1) ino vol
   }"

definition sfs_loadvnode :: "u32 \<Rightarrow> u16 \<Rightarrow> sfs_vol \<Rightarrow> ((errno + nat) \<times> sfs_vol) option" where
  "sfs_loadvnode ino forcetype vol = do {
     res \<leftarrow> loaded_search (unat (array_num (vol_vnodes vol))) 0 ino vol;
     (case res of
        Some v \<Rightarrow> do {
          kassert (forcetype = SFS_TYPE_INVAL);
          vol1 \<leftarrow> vnode_incref v vol;
          Some (Inr v, vol1)
        }
      | None \<Rightarrow>
          (let (got, k1) = kmalloc_try (vol_kmem vol); vol1 = vol\<lparr>vol_kmem := k1\<rparr> in
           if \<not> got then Some (Inl ENOMEM, vol1)
           else do {
             used \<leftarrow> sfs_bused (vol_fs vol1) ino;
             kassert used;
             ((r, bs), fs2) \<leftarrow> sfs_readblock (vol_fs vol1) ino (replicate 512 0) SFS_BLOCKSIZE;
             let vol2 = vol1\<lparr>vol_fs := fs2\<rparr>;
             (case r of
                Some e \<Rightarrow> Some (Inl e, vol2)
              | None \<Rightarrow> do {
                  let d = dinode_of bs;
                  kassert (forcetype \<noteq> SFS_TYPE_INVAL \<longrightarrow> sfi_type d = SFS_TYPE_INVAL);
                  let d1 = (if forcetype \<noteq> SFS_TYPE_INVAL then d\<lparr>sfi_type := forcetype\<rparr> else d);
                  kassert (sfi_type d1 = SFS_TYPE_FILE \<or> sfi_type d1 = SFS_TYPE_DIR);
                  let sv = \<lparr>sv_i = d1, sv_ino = ino, sv_dirty = (forcetype \<noteq> SFS_TYPE_INVAL), sv_refcount = 1\<rparr>;
                  let p = length (vol_heap vol2);
                  (r3, a, k3) \<leftarrow> array_add (vol_vnodes vol2) p (vol_kmem vol2);
                  (case r3 of
                     Inl e \<Rightarrow> Some (Inl e, vol2\<lparr>vol_vnodes := a, vol_kmem := k3\<rparr>)
                   | Inr _ \<Rightarrow> Some (Inr p, vol2\<lparr>vol_vnodes := a, vol_kmem := k3, vol_heap := vol_heap vol2 @ [Some sv]\<rparr>))
                })
           }))
   }"

definition sfs_makeobj :: "u16 \<Rightarrow> sfs_vol \<Rightarrow> ((errno + nat) \<times> sfs_vol) option" where
  "sfs_makeobj type vol = do {
     (r, vol1) \<leftarrow> on_fs sfs_balloc vol;
     (case r of
        Inl e \<Rightarrow> Some (Inl e, vol1)
      | Inr ino \<Rightarrow> do {
          (r2, vol2) \<leftarrow> sfs_loadvnode ino type vol1;
          (case r2 of
             Inl e \<Rightarrow> do { fs3 \<leftarrow> sfs_bfree (vol_fs vol2) ino; Some (Inl e, vol2\<lparr>vol_fs := fs3\<rparr>) }
           | Inr v \<Rightarrow> Some (Inr v, vol2))
        })
   }"

definition sfs_getroot :: "sfs_vol \<Rightarrow> ((errno + nat) \<times> sfs_vol) option" where
  "sfs_getroot vol = do {
     (r, vol1) \<leftarrow> sfs_loadvnode SFS_ROOTDIR_INO SFS_TYPE_INVAL vol;
     (case r of
        Inl e \<Rightarrow> Some (Inl e, vol1)
      | Inr v \<Rightarrow> do {
          sv \<leftarrow> vn_get vol1 v;
          if sfi_type (sv_i sv) \<noteq> SFS_TYPE_DIR then Some (Inl EINVAL, vol1) else Some (Inr v, vol1)
        })
   }"

definition sfs_lookonce :: "nat \<Rightarrow> u8 list \<Rightarrow> sfs_vol \<Rightarrow> ((errno + nat \<times> int) \<times> sfs_vol) option" where
  "sfs_lookonce p nm vol = do {
     ((r, found, _), vol1) \<leftarrow> on_vnode p (\<lambda>sv. sfs_dir_findname sv nm (-1)) vol;
     (case r of
        Some e \<Rightarrow> Some (Inl e, vol1)
      | None \<Rightarrow> do {
          (ino, slot) \<leftarrow> found;
          (r2, vol2) \<leftarrow> sfs_loadvnode ino SFS_TYPE_INVAL vol1;
          (case r2 of
             Inl e \<Rightarrow> Some (Inl e, vol2)
           | Inr v \<Rightarrow> do {
               sv \<leftarrow> vn_get vol2 v;
               if sfi_linkcount (sv_i sv) = 0 then None else Some (Inr (v, slot), vol2)
             })
        })
   }"


subsection \<open>The volume as a map of inodes and a map of names\<close>

lemma vn_get_put:
  "vn_get vol p \<noteq> None \<Longrightarrow> vn_get (vn_put p sv (vol\<lparr>vol_fs := fs\<rparr>)) q = (if q = p then Some sv else vn_get vol q)"
  by (cases "p < length (vol_heap vol)") (auto simp: vn_get_def vn_put_def arr_get_def)

lemma vn_put_simps [simp]:
  "vol_fs (vn_put p sv vol) = vol_fs vol" "vol_vnodes (vn_put p sv vol) = vol_vnodes vol"
  "vol_kmem (vn_put p sv vol) = vol_kmem vol" "length (vol_heap (vn_put p sv vol)) = length (vol_heap vol)"
  by (simp_all add: vn_put_def)

text \<open>The vnode of an inode that is in memory.\<close>

definition cached :: "sfs_vol \<Rightarrow> inode_map" where
  "cached vol i = (case find_idx (\<lambda>x. case x of Some sv \<Rightarrow> sv_ino sv = i | None \<Rightarrow> False) (vol_heap vol) of
     Some p \<Rightarrow> vn_get vol p | None \<Rightarrow> None)"

definition tab_ok :: "sfs_vol \<Rightarrow> bool" where
  "tab_ok vol \<longleftrightarrow> array_ok (vol_vnodes vol) \<and> distinct (elems (vol_vnodes vol)) \<and>
     set (elems (vol_vnodes vol)) = {p. vn_get vol p \<noteq> None} \<and>
     (\<forall>p q a b. vn_get vol p = Some a \<longrightarrow> vn_get vol q = Some b \<longrightarrow> sv_ino a = sv_ino b \<longrightarrow> p = q) \<and>
     (\<forall>p a. vn_get vol p = Some a \<longrightarrow> 0 < sv_refcount a)"

lemma tab_okD:
  assumes "tab_ok vol"
  shows "array_ok (vol_vnodes vol)" "distinct (elems (vol_vnodes vol))"
    "p \<in> set (elems (vol_vnodes vol)) \<longleftrightarrow> vn_get vol p \<noteq> None"
    "vn_get vol p = Some a \<Longrightarrow> vn_get vol q = Some b \<Longrightarrow> sv_ino a = sv_ino b \<Longrightarrow> p = q"
    "vn_get vol p = Some a \<Longrightarrow> 0 < sv_refcount a"
  using assms unfolding tab_ok_def by blast+

lemma cached_Some:
  assumes "\<And>p q a b. vn_get vol p = Some a \<Longrightarrow> vn_get vol q = Some b \<Longrightarrow> sv_ino a = sv_ino b \<Longrightarrow> p = q"
  shows "cached vol i = Some sv \<longleftrightarrow> (\<exists>p. vn_get vol p = Some sv \<and> sv_ino sv = i)"
proof -
  let ?P = "\<lambda>x. case x of Some sv \<Rightarrow> sv_ino sv = i | None \<Rightarrow> False"
  have get: "vn_get vol p = Some a \<longleftrightarrow> p < length (vol_heap vol) \<and> vol_heap vol ! p = Some a" for p a
    by (auto simp: vn_get_def arr_get_def)
  show ?thesis
  proof (cases "find_idx ?P (vol_heap vol)")
    case None
    then have "\<not> ?P (vol_heap vol ! p)" if "p < length (vol_heap vol)" for p
      using that unfolding find_idx_None list_all_nth by blast
    then have "\<not> (\<exists>p. vn_get vol p = Some sv \<and> sv_ino sv = i)" using get by fastforce
    moreover have "cached vol i = None" using None by (simp add: cached_def)
    ultimately show ?thesis by simp
  next
    case (Some p)
    then have p: "p < length (vol_heap vol)" "?P (vol_heap vol ! p)" by (simp_all add: find_idx_Some)
    then obtain a where a: "vn_get vol p = Some a" "sv_ino a = i" using get by (auto split: option.splits)
    then have "cached vol i = Some a" using Some by (simp add: cached_def)
    then show ?thesis using a assms [OF a(1)] by fastforce
  qed
qed

lemma cached_ino: "tab_ok vol \<Longrightarrow> cached vol i = Some sv \<longleftrightarrow> (\<exists>p. vn_get vol p = Some sv \<and> sv_ino sv = i)"
  by (rule cached_Some) (rule tab_okD(4))

lemma cached_get: "tab_ok vol \<Longrightarrow> vn_get vol p = Some sv \<Longrightarrow> cached vol (sv_ino sv) = Some sv"
  using cached_ino by blast

definition disk_vnode :: "sfs_fs \<Rightarrow> u32 \<Rightarrow> sfs_vnode" where
  "disk_vnode fs i = \<lparr>sv_i = dinode_of (dsk fs (unat i)), sv_ino = i, sv_dirty = False, sv_refcount = 0\<rparr>"

definition root_node :: "sfs_vol \<Rightarrow> sfs_vnode" where
  "root_node vol = (case cached vol SFS_ROOTDIR_INO of Some sv \<Rightarrow> sv | None \<Rightarrow> disk_vnode (vol_fs vol) SFS_ROOTDIR_INO)"

definition names :: "sfs_vol \<Rightarrow> u8 list \<Rightarrow> u32 option" where
  "names vol = dir_map (vol_fs vol) (root_node vol)"

text \<open>The inodes in use: the root, those with a name, and those open although they have none.\<close>

definition nodes :: "sfs_vol \<Rightarrow> inode_map" where
  "nodes vol i = (case cached vol i of Some sv \<Rightarrow> Some sv
     | None \<Rightarrow> if i = SFS_ROOTDIR_INO \<or> i \<in> ran (names vol) then Some (disk_vnode (vol_fs vol) i) else None)"

definition name_count :: "sfs_vol \<Rightarrow> u32 \<Rightarrow> nat" where
  "name_count vol i = card {nm. names vol nm = Some i}"

text \<open>
  The invariant of a volume, up to differences d between the link count of an inode and the
  number of its names: between operations d is zero.
\<close>

definition vol_core :: "(u32 \<Rightarrow> int) \<Rightarrow> sfs_vol \<Rightarrow> bool" where
  "vol_core d vol \<longleftrightarrow> tab_ok vol \<and> files_ok (vol_fs vol) (nodes vol) \<and> dir_ok (vol_fs vol) (root_node vol) \<and>
     SFS_ROOTDIR_INO \<notin> ran (names vol) \<and> 0 < sfi_linkcount (sv_i (root_node vol)) \<and>
     (\<forall>i sv. cached vol i = Some sv \<longrightarrow> \<not> sv_dirty sv \<longrightarrow> dinode_of (dsk (vol_fs vol) (unat i)) = sv_i sv) \<and>
     (\<forall>i sv. nodes vol i = Some sv \<longrightarrow> i \<noteq> SFS_ROOTDIR_INO \<longrightarrow>
        int (unat (sfi_linkcount (sv_i sv))) = int (name_count vol i) + d i)"

text \<open>And no block is lost: what is in use and not the volume's own is reached from an inode in use.\<close>

definition vol_inv :: "(u32 \<Rightarrow> int) \<Rightarrow> sfs_vol \<Rightarrow> bool" where
  "vol_inv d vol \<longleftrightarrow> vol_core d vol \<and> no_leak (vol_fs vol) (nodes vol)"

definition vol_ok :: "sfs_vol \<Rightarrow> bool" where
  "vol_ok vol \<longleftrightarrow> vol_inv (\<lambda>_. 0) vol"

lemma vol_coreD:
  assumes "vol_core d vol"
  shows "tab_ok vol" "files_ok (vol_fs vol) (nodes vol)" "dir_ok (vol_fs vol) (root_node vol)"
    "SFS_ROOTDIR_INO \<notin> ran (names vol)" "0 < sfi_linkcount (sv_i (root_node vol))"
    "cached vol i = Some sv \<Longrightarrow> \<not> sv_dirty sv \<Longrightarrow> dinode_of (dsk (vol_fs vol) (unat i)) = sv_i sv"
    "nodes vol i = Some sv \<Longrightarrow> i \<noteq> SFS_ROOTDIR_INO \<Longrightarrow>
        int (unat (sfi_linkcount (sv_i sv))) = int (name_count vol i) + d i"
  using assms unfolding vol_core_def by blast+

lemma vol_inv_core: "vol_inv d vol \<Longrightarrow> vol_core d vol"
  by (simp add: vol_inv_def)

lemmas vol_invD = vol_coreD [OF vol_inv_core]

lemma vol_inv_leak: "vol_inv d vol \<Longrightarrow> no_leak (vol_fs vol) (nodes vol)"
  by (simp add: vol_inv_def)

text \<open>What a user of the volume sees: the names and the files.\<close>

definition file_at :: "sfs_vol \<Rightarrow> u32 \<Rightarrow> afile option" where
  "file_at vol i = (if i = SFS_ROOTDIR_INO then None else map_option (abs_file (vol_fs vol)) (nodes vol i))"

lemma nodes_cached: "cached vol i = Some sv \<Longrightarrow> nodes vol i = Some sv"
  by (simp add: nodes_def)

lemma nodes_root: "nodes vol 1 = Some (root_node vol)"
  by (simp add: nodes_def root_node_def split: option.split)

lemma nodes_dom: "i \<in> dom (nodes vol) \<longleftrightarrow> cached vol i \<noteq> None \<or> i = 1 \<or> i \<in> ran (names vol)"
  by (cases "cached vol i") (auto simp: nodes_def split: if_splits)

lemma vol_core_get:
  assumes "vol_core d vol" "vn_get vol p = Some sv"
  shows "cached vol (sv_ino sv) = Some sv" "nodes vol (sv_ino sv) = Some sv" "inode_ok (vol_fs vol) (sv_ino sv) sv"
proof -
  note D = vol_coreD [OF assms(1)]
  show c: "cached vol (sv_ino sv) = Some sv" by (rule cached_get [OF D(1) assms(2)])
  then show n: "nodes vol (sv_ino sv) = Some sv" by (rule nodes_cached)
  show "inode_ok (vol_fs vol) (sv_ino sv) sv" by (rule files_okD(3) [OF D(2) n])
qed

lemmas vol_get = vol_core_get [OF vol_inv_core]

subsection \<open>Replacing one vnode\<close>

lemma put_tab:
  assumes "tab_ok vol" "vn_get vol p = Some sv" "sv_ino sv' = sv_ino sv" "0 < sv_refcount sv'"
    and "vol' = vn_put p sv' (vol\<lparr>vol_fs := fs'\<rparr>)"
  shows "tab_ok vol'" "cached vol' = (cached vol)(sv_ino sv \<mapsto> sv')" "vn_get vol' q = (if q = p then Some sv' else vn_get vol q)"
proof -
  note D = tab_okD [OF assms(1)]
  show get: "vn_get vol' q = (if q = p then Some sv' else vn_get vol q)" for q
    using vn_get_put [of vol p] assms(2) unfolding assms(5) by simp
  have uniq: "q = r" if "vn_get vol' q = Some a" "vn_get vol' r = Some b" "sv_ino a = sv_ino b" for q r a b
    using that assms(2,3) D(4) [of q _ r] unfolding get by (auto split: if_splits)
  have live: "{q. vn_get vol' q \<noteq> None} = {q. vn_get vol q \<noteq> None}" using assms(2) by (auto simp: get)
  have "0 < sv_refcount a" if "vn_get vol' q = Some a" for q a
    using that assms(4) D(5) [of q] unfolding get by (auto split: if_splits)
  then show "tab_ok vol'" using assms(1) uniq unfolding tab_ok_def live by (simp add: assms(5))
  show "cached vol' = (cached vol)(sv_ino sv \<mapsto> sv')"
  proof (intro ext option_eqI)
    fix i a
    have "cached vol' i = Some a \<longleftrightarrow> (\<exists>q. vn_get vol' q = Some a \<and> sv_ino a = i)" by (rule cached_Some) (rule uniq)
    also have "\<dots> \<longleftrightarrow> a = sv' \<and> i = sv_ino sv \<or> (\<exists>q. q \<noteq> p \<and> vn_get vol q = Some a \<and> sv_ino a = i)"
      using assms(3) by (auto simp: get)
    also have "\<dots> \<longleftrightarrow> (if i = sv_ino sv then a = sv' else cached vol i = Some a)"
    proof (cases "i = sv_ino sv")
      case True
      then have "\<not> (\<exists>q. q \<noteq> p \<and> vn_get vol q = Some a \<and> sv_ino a = i)" using D(4) [OF _ assms(2)] by blast
      then show ?thesis using True by auto
    next
      case False
      then have "vn_get vol p = Some a \<Longrightarrow> sv_ino a \<noteq> i" using assms(2) by simp
      then have "(\<exists>q. q \<noteq> p \<and> vn_get vol q = Some a \<and> sv_ino a = i) \<longleftrightarrow> (\<exists>q. vn_get vol q = Some a \<and> sv_ino a = i)" by metis
      then show ?thesis using False by (simp add: cached_ino [OF assms(1)])
    qed
    finally show "cached vol' i = Some a \<longleftrightarrow> ((cached vol)(sv_ino sv \<mapsto> sv')) i = Some a" by auto
  qed
qed


lemma dir_okD: "dir_ok fs sv \<Longrightarrow> dir_form fs sv" "dir_ok fs sv \<Longrightarrow> unat (sfi_size (sv_i sv)) \<le> max_bytes"
  by (simp_all add: dir_ok_def dir_form_def)

lemma dir_ok_kept:
  assumes "dir_ok fs sv" "file_kept fs fs' sv" "fs_ok fs'"
  shows "dir_ok fs' sv" "dir_map fs' sv = dir_map fs sv"
proof -
  have s: "dir_slots fs' sv = dir_slots fs sv" by (rule file_kept_dir [OF assms(2) dir_okD(2) [OF assms(1)]])
  then show "dir_map fs' sv = dir_map fs sv" by (simp add: dir_map_def)
  show "dir_ok fs' sv" using assms by (simp add: dir_ok_def dir_form_def s file_kept_def)
qed

lemma disk_vnode_same: "dsk fs' (unat i) = dsk fs (unat i) \<Longrightarrow> disk_vnode fs' i = disk_vnode fs i"
  by (simp add: disk_vnode_def)

text \<open>A change of the file of an inode other than the root.\<close>

lemma file_change:
  assumes inv: "vol_inv d vol" and p: "vn_get vol p = Some sv" "sv_ino sv \<noteq> 1" "sv_ino sv' = sv_ino sv" "0 < sv_refcount sv'"
    and fs: "others_kept (vol_fs vol) fs' (nodes vol) (sv_ino sv)" "fs_ok fs'" "sv_ok fs' sv'"
      "unat ` sv_blocks fs' sv' \<subseteq> unat ` sv_blocks (vol_fs vol) sv \<union> fs_free (vol_fs vol)"
    and pool: "file_pool (vol_fs vol) sv \<subseteq> file_pool fs' sv'"
    and sv: "unat (sfi_size (sv_i sv')) \<le> max_bytes" "length (sfi_waste (sv_i sv')) = 110" "sfi_type (sv_i sv') = sfi_type (sv_i sv)"
    and clean: "\<not> sv_dirty sv' \<Longrightarrow> dinode_of (dsk fs' (unat (sv_ino sv))) = sv_i sv'"
    and links: "int (unat (sfi_linkcount (sv_i sv'))) = int (name_count vol (sv_ino sv)) + d' (sv_ino sv)"
      "\<And>j. j \<noteq> sv_ino sv \<Longrightarrow> d' j = d j"
    and vol': "vol' = vn_put p sv' (vol\<lparr>vol_fs := fs'\<rparr>)"
  shows "vol_inv d' vol'" "names vol' = names vol" "nodes vol' = (nodes vol)(sv_ino sv \<mapsto> sv')"
    "file_at vol' = (file_at vol)(sv_ino sv \<mapsto> abs_file fs' sv')"
proof -
  note D = vol_invD [OF inv] and G = vol_get [OF inv p(1)]
  define i where "i = sv_ino sv"
  note P = put_tab [OF D(1) p(1,3,4) vol', folded i_def]
  have f': "vol_fs vol' = fs'" by (simp add: vol')
  have i1: "i \<noteq> 1" using p(2) by (simp add: i_def)
  have K: "\<And>j b. nodes vol j = Some b \<Longrightarrow> j \<noteq> i \<Longrightarrow> file_kept (vol_fs vol) fs' b"
    "\<And>j b. nodes vol j = Some b \<Longrightarrow> dsk fs' (unat j) = dsk (vol_fs vol) (unat j)"
    using others_keptD(3,4) [OF fs(1)] by (auto simp: i_def)
  have root: "root_node vol' = root_node vol"
  proof (cases "cached vol 1")
    case None
    have "dsk fs' (unat (1 :: u32)) = dsk (vol_fs vol) (unat (1 :: u32))" by (rule K(2) [OF nodes_root])
    then show ?thesis using None i1 disk_vnode_same [of fs' 1] unfolding root_node_def f' P(2) by simp
  qed (use i1 in \<open>simp add: root_node_def P(2)\<close>)
  have one: "(1 :: u32) \<noteq> i" using i1 by simp
  note R = dir_ok_kept [OF D(3) K(1) [OF nodes_root one] fs(2)]
  show nm: "names vol' = names vol" unfolding names_def root f' by (rule R(2))
  show nodes: "nodes vol' = (nodes vol)(sv_ino sv \<mapsto> sv')"
  proof
    fix j
    consider "j = i" | (c) b where "j \<noteq> i" "cached vol j = Some b" | (n) "j \<noteq> i" "cached vol j = None" by (cases "cached vol j") auto
    then show "nodes vol' j = ((nodes vol)(sv_ino sv \<mapsto> sv')) j"
    proof cases
      case n
      then show ?thesis
        using K(2) [of j] disk_vnode_same [of fs' j] by (auto simp: nodes_def P(2) nm f' i_def split: if_splits)
    qed (simp_all add: nodes_def P(2) i_def)
  qed
  have fo: "files_ok fs' ((nodes vol)(sv_ino sv \<mapsto> sv'))"
    by (rule files_change [OF D(2) G(2) fs(1-3) p(3) sv fs(4)])
  have cl: "dinode_of (dsk fs' (unat j)) = sv_i b" if "cached vol' j = Some b" "\<not> sv_dirty b" for j b
  proof (cases "j = i")
    case True
    then show ?thesis using that clean by (simp add: P(2) i_def)
  next
    case False
    then have c: "cached vol j = Some b" using that(1) by (simp add: P(2))
    then show ?thesis using D(6) [OF c that(2)] K(2) [OF nodes_cached [OF c]] by simp
  qed
  have "int (unat (sfi_linkcount (sv_i b))) = int (name_count vol' j) + d' j" if "nodes vol' j = Some b" "j \<noteq> 1" for j b
    using that links D(7) [of j b] unfolding nodes name_count_def nm by (auto split: if_splits simp: i_def)
  then have "vol_core d' vol'"
    unfolding vol_core_def root nm f' nodes using P(1) fo R(1) D(4,5) cl by (simp add: nodes)
  moreover have "no_leak fs' (nodes vol')" unfolding nodes by (rule leak_change [OF vol_inv_leak [OF inv] G(2) fs(1) pool])
  ultimately show "vol_inv d' vol'" by (simp add: vol_inv_def f')
  have kept: "map_option (abs_file fs') (nodes vol j) = map_option (abs_file (vol_fs vol)) (nodes vol j)" if "j \<noteq> i" for j
    using K(1) [OF _ that] by (cases "nodes vol j") (simp_all add: file_kept_def)
  show "file_at vol' = (file_at vol)(sv_ino sv \<mapsto> abs_file fs' sv')"
    using i1 kept by (auto simp: file_at_def fun_eq_iff nodes f' i_def)
qed


text \<open>A change of the root directory, whose entries afterwards are m.\<close>

lemma dir_change:
  assumes inv: "vol_inv d vol" and p: "vn_get vol p = Some sv" "sv_ino sv = 1" "sv_ino sv' = 1" "0 < sv_refcount sv'"
    and fs: "file_step (vol_fs vol) sv fs' sv'"
    and sv: "sfi_waste (sv_i sv') = sfi_waste (sv_i sv)" "sfi_type (sv_i sv') = sfi_type (sv_i sv)"
      "sfi_linkcount (sv_i sv') = sfi_linkcount (sv_i sv)" "touched sv sv'"
    and dir: "dir_ok fs' sv'" "m = dir_map fs' sv'" "1 \<notin> ran m" "\<And>j. cached vol j = None \<Longrightarrow> j \<in> ran m \<longleftrightarrow> j \<in> ran (names vol)"
    and links: "\<And>j b. nodes vol j = Some b \<Longrightarrow> j \<noteq> 1 \<Longrightarrow>
      int (unat (sfi_linkcount (sv_i b))) = int (card {nm. m nm = Some j}) + d' j"
    and vol': "vol' = vn_put p sv' (vol\<lparr>vol_fs := fs'\<rparr>)"
  shows "vol_inv d' vol'" "names vol' = m" "nodes vol' = (nodes vol)(1 \<mapsto> sv')" "file_at vol' = file_at vol"
proof -
  note D = vol_invD [OF inv] and G = vol_get [OF inv p(1), unfolded p(2)]
  have p': "sv_ino sv' = sv_ino sv" using p(2,3) by simp
  note P = put_tab [OF D(1) p(1) p' p(4) vol', unfolded p(2)]
  have f': "vol_fs vol' = fs'" by (simp add: vol')
  have O: "others_kept (vol_fs vol) fs' (nodes vol) 1"
    using fs by (intro frame_others [OF D(2) G(2)]) (simp_all add: file_step_iff)
  note K = others_keptD(3,4) [OF O]
  have root: "root_node vol = sv" "root_node vol' = sv'" using G(1) by (simp_all add: root_node_def P(2))
  show nm: "names vol' = m" unfolding names_def root f' dir(2) ..
  show nodes: "nodes vol' = (nodes vol)(1 \<mapsto> sv')"
  proof
    fix j
    consider "j = 1" | (c) b where "j \<noteq> 1" "cached vol j = Some b" | (n) "j \<noteq> 1" "cached vol j = None" by (cases "cached vol j") auto
    then show "nodes vol' j = ((nodes vol)(1 \<mapsto> sv')) j"
    proof cases
      case n
      then show ?thesis
        using K(2) [of j] disk_vnode_same [of fs' j] dir(4) by (auto simp: nodes_def P(2) nm f' split: if_splits)
    qed (simp_all add: nodes_def P(2))
  qed
  have I: "inode_ok (vol_fs vol) 1 sv" by (rule G(3))
  have fo: "files_ok fs' ((nodes vol)(1 \<mapsto> sv'))"
  proof (rule files_change [OF D(2) G(2) O])
    show "unat ` sv_blocks fs' sv' \<subseteq> unat ` sv_blocks (vol_fs vol) sv \<union> fs_free (vol_fs vol)" using fs by (simp add: file_step_iff)
    show "unat (sfi_size (sv_i sv')) \<le> max_bytes" by (rule dir_okD(2) [OF dir(1)])
  qed (use fs sv p(3) I in \<open>simp_all add: file_step_iff inode_ok_def\<close>)
  have cl: "dinode_of (dsk fs' (unat j)) = sv_i b" if "cached vol' j = Some b" "\<not> sv_dirty b" for j b
  proof (cases "j = 1")
    case True
    then have "b = sv'" using that(1) by (simp add: P(2))
    then have c: "\<not> sv_dirty sv" "sv_i sv' = sv_i sv" using that(2) sv(4) by (auto simp: touched_def)
    have "dsk fs' (unat j) = dsk (vol_fs vol) (unat j)" using K(2) [OF G(2)] True by simp
    then show ?thesis using D(6) [OF G(1) c(1)] c(2) True \<open>b = sv'\<close> by simp
  next
    case False
    then have c: "cached vol j = Some b" using that(1) by (simp add: P(2))
    then show ?thesis using D(6) [OF c that(2)] K(2) [OF nodes_cached [OF c]] by simp
  qed
  have "int (unat (sfi_linkcount (sv_i b))) = int (name_count vol' j) + d' j" if "nodes vol' j = Some b" "j \<noteq> 1" for j b
    using that links [of j b] unfolding nodes name_count_def nm by simp
  moreover have "0 < sfi_linkcount (sv_i sv')" using D(5) sv(3) by (simp add: root)
  ultimately have "vol_core d' vol'"
    unfolding vol_core_def root nm f' using P(1) fo dir(1,3) cl by (simp add: nodes)
  moreover have "no_leak fs' (nodes vol')" unfolding nodes
    by (rule leak_change [OF vol_inv_leak [OF inv] G(2) O]) (use fs in \<open>simp add: file_step_iff\<close>)
  ultimately show "vol_inv d' vol'" by (simp add: vol_inv_def f')
  have kept: "map_option (abs_file fs') (nodes vol j) = map_option (abs_file (vol_fs vol)) (nodes vol j)" if "j \<noteq> 1" for j
    using K(1) [OF _ that] by (cases "nodes vol j") (simp_all add: file_kept_def)
  then show "file_at vol' = file_at vol" by (auto simp: file_at_def fun_eq_iff nodes f')
qed

text \<open>Vnodes with the same inode are the same file.\<close>

definition alike :: "sfs_vnode \<Rightarrow> sfs_vnode \<Rightarrow> bool" where
  "alike a b \<longleftrightarrow> sv_i a = sv_i b \<and> sv_ino a = sv_ino b"

lemma alike_file:
  assumes "sv_i a = sv_i b"
  shows "ftab fs a = ftab fs b" "sv_blocks fs a = sv_blocks fs b" "sv_ok fs a = sv_ok fs b" "abs_file fs a = abs_file fs b"
    "dir_slots fs a = dir_slots fs b" "dir_map fs a = dir_map fs b" "dir_ok fs a = dir_ok fs b"
proof -
  have ft: "ftab fs a = ftab fs b" by (simp add: ftab_def indtab_def assms)
  have fb: "fbyte fs a = fbyte fs b" by (intro ext) (simp add: fbyte_def ft)
  have fr: "file_range fs a = file_range fs b" by (intro ext) (simp add: file_range_def fb)
  have sl: "slot_at fs a = slot_at fs b" by (intro ext) (simp add: slot_at_def fr)
  show "ftab fs a = ftab fs b" "sv_blocks fs a = sv_blocks fs b" "sv_ok fs a = sv_ok fs b" "abs_file fs a = abs_file fs b"
    "dir_slots fs a = dir_slots fs b" "dir_map fs a = dir_map fs b" "dir_ok fs a = dir_ok fs b"
    unfolding sv_blocks_def sv_ok_def abs_file_def dir_slots_def dir_map_def dir_ok_def dir_form_def ft fb sl assms by simp_all
qed

lemma files_alike:
  assumes "files_ok fs N" "\<And>i. rel_option alike (N i) (M i)"
  shows "files_ok fs M"
proof -
  note D = files_okD [OF assms(1)]
  have orig: "\<exists>a. N i = Some a \<and> alike a b" if "M i = Some b" for i b
    using assms(2) [of i] that by (cases "N i") simp_all
  have dom: "i \<in> dom M \<longleftrightarrow> i \<in> dom N" for i using assms(2) [of i] by (cases "N i"; cases "M i") auto
  show ?thesis unfolding files_ok_def
  proof (intro conjI allI impI)
    fix i b
    assume "M i = Some b"
    then obtain a where a: "N i = Some a" "alike a b" using orig by blast
    then show "inode_ok fs i b" using D(3) [OF a(1)] alike_file(3) [of a b fs] by (simp add: inode_ok_def alike_def)
  next
    fix i j x y
    assume "M i = Some x" "M j = Some y" and ij: "i \<noteq> j"
    then obtain a b where ab: "N i = Some a" "alike a x" "N j = Some b" "alike b y" using orig by blast
    then have "sv_blocks fs x = sv_blocks fs a" "sv_blocks fs y = sv_blocks fs b"
      using alike_file(2) [of a x fs] alike_file(2) [of b y fs] by (simp_all add: alike_def)
    then show "sv_blocks fs x \<inter> sv_blocks fs y = {}" using D(4) [OF ab(1,3) ij] by simp
  next
    fix i j x
    assume "M i = Some x" and j: "j \<in> dom M"
    then obtain a where a: "N i = Some a" "alike a x" using orig by blast
    then show "j \<notin> sv_blocks fs x" using D(5) [OF a(1), of j] dom j alike_file(2) [of a x fs] by (simp add: alike_def)
  qed (rule D(1), rule D(2))
qed

lemma leak_alike:
  assumes "no_leak fs N" "\<And>i. rel_option alike (N i) (M i)"
  shows "no_leak fs M"
  unfolding no_leak_def
proof (intro allI impI)
  fix n
  assume "n < nblk fs" "n \<notin> fs_free fs"
  moreover have "\<exists>i b. M i = Some b \<and> (n = unat i \<or> n \<in> unat ` sv_blocks fs b)"
    if a: "N i = Some a" "n = unat i \<or> n \<in> unat ` sv_blocks fs a" for i a
  proof -
    obtain b where "M i = Some b" "alike a b" using assms(2) [of i] a(1) by (auto simp: option_rel_Some1)
    then show ?thesis using a(2) alike_file(2) [of a b fs] by (intro exI [of _ i] exI [of _ b]) (simp add: alike_def)
  qed
  ultimately show "n \<in> sys_blocks fs \<or> (\<exists>i sv. M i = Some sv \<and> (n = unat i \<or> n \<in> unat ` sv_blocks fs sv))"
    using assms(1) unfolding no_leak_def by blast
qed

text \<open>The same volume, whichever of its inodes are in memory.\<close>

lemma view_change:
  assumes inv: "vol_inv d vol" and tab: "tab_ok vol'" and q: "fs_quiet (vol_fs vol) (vol_fs vol')"
    and new: "\<And>i b. cached vol' i = Some b \<Longrightarrow> \<exists>a. nodes vol i = Some a \<and> sv_i a = sv_i b"
    and gone: "\<And>i a. cached vol i = Some a \<Longrightarrow> cached vol' i = None \<Longrightarrow>
      (i = 1 \<or> i \<in> ran (names vol)) \<and> dinode_of (dsk (vol_fs vol) (unat i)) = sv_i a"
    and clean: "\<And>i b. cached vol' i = Some b \<Longrightarrow> \<not> sv_dirty b \<Longrightarrow> dinode_of (dsk (vol_fs vol) (unat i)) = sv_i b"
  shows "vol_inv d vol'" "names vol' = names vol" "file_at vol' = file_at vol" "rel_option alike (nodes vol i) (nodes vol' i)"
proof -
  note D = vol_invD [OF inv]
  have dsk: "dsk (vol_fs vol') = dsk (vol_fs vol)" using q by (simp add: fs_quiet_def)
  have dv: "disk_vnode (vol_fs vol') = disk_vnode (vol_fs vol)" by (simp add: disk_vnode_def dsk fun_eq_iff)
  have ino: "sv_ino a = i" if "nodes vol i = Some a" for i a
    using files_okD(3) [OF D(2) that] by (simp add: inode_ok_def)
  have ino': "sv_ino b = i" if "cached vol' i = Some b" for i b using that cached_ino [OF tab] by auto
  have root: "sv_i (root_node vol') = sv_i (root_node vol)"
  proof (cases "cached vol' 1")
    case (Some b)
    then show ?thesis using new [OF Some] nodes_root [of vol] by (simp add: root_node_def)
  next
    case None
    then have "root_node vol' = disk_vnode (vol_fs vol) 1" by (simp add: root_node_def dv)
    moreover have "sv_i (root_node vol) = dinode_of (dsk (vol_fs vol) (unat (1 :: u32)))"
      using gone [of 1] None by (cases "cached vol 1") (simp_all add: root_node_def disk_vnode_def)
    ultimately show ?thesis by (simp add: disk_vnode_def)
  qed
  note R = dir_map_quiet [OF q] and A = alike_file [OF root]
  show n: "names vol' = names vol" unfolding names_def A(6) R(3) ..
  show rel: "rel_option alike (nodes vol i) (nodes vol' i)" for i
  proof (cases "cached vol' i")
    case (Some b)
    then show ?thesis using new [OF Some] ino ino' by (auto simp: nodes_cached alike_def)
  next
    case None
    show ?thesis
    proof (cases "cached vol i")
      case (Some a)
      then have "i = 1 \<or> i \<in> ran (names vol)" "dinode_of (dsk (vol_fs vol) (unat i)) = sv_i a" "sv_ino a = i"
        using gone [OF Some None] ino nodes_cached by blast+
      moreover have "nodes vol' i = Some (disk_vnode (vol_fs vol) i)" using None calculation(1) by (simp add: nodes_def n dv)
      ultimately show ?thesis using nodes_cached [OF Some] by (simp add: disk_vnode_def alike_def)
    next
      case none: None
      have "nodes vol' i = nodes vol i" using None none by (simp add: nodes_def n dv)
      then show ?thesis by (simp add: option.rel_refl alike_def)
    qed
  qed
  have orig: "\<exists>a. nodes vol i = Some a \<and> alike a b" if "nodes vol' i = Some b" for i b
    using rel [of i] that by (cases "nodes vol i") simp_all
  have l: "int (unat (sfi_linkcount (sv_i b))) = int (name_count vol' i) + d i" if "nodes vol' i = Some b" "i \<noteq> 1" for i b
    using orig [OF that(1)] D(7) [of i] that(2) by (auto simp: name_count_def n alike_def)
  have "no_leak (vol_fs vol') (nodes vol)"
    by (rule leak_same [OF vol_inv_leak [OF inv]]) (use q quiet_file(1) [OF q] in \<open>simp_all add: fs_quiet_def sv_blocks_def\<close>)
  then have leak: "no_leak (vol_fs vol') (nodes vol')" by (rule leak_alike) (rule rel)
  have "vol_core d vol'" unfolding vol_core_def
  proof (intro conjI allI impI)
    show "files_ok (vol_fs vol') (nodes vol')" by (rule files_alike [OF files_quiet [OF D(2) q] rel])
    show "dir_ok (vol_fs vol') (root_node vol')" unfolding A(7) by (rule R(2) [OF D(3)])
    show "dinode_of (dsk (vol_fs vol') (unat i)) = sv_i b" if "cached vol' i = Some b" "\<not> sv_dirty b" for i b
      using clean [OF that] by (simp add: dsk)
  qed (use tab D(4,5) l in \<open>simp_all add: n root\<close>)
  then show "vol_inv d vol'" using leak by (simp add: vol_inv_def)
  have f: "abs_file (vol_fs vol') sv = abs_file (vol_fs vol) sv" for sv by (simp only: abs_file_def quiet_file(2) [OF q])
  show "file_at vol' = file_at vol"
  proof
    fix i
    show "file_at vol' i = file_at vol i"
    proof (cases "nodes vol i")
      case None
      then show ?thesis using rel [of i] by (simp add: file_at_def)
    next
      case (Some a)
      then obtain b where b: "nodes vol' i = Some b" "alike a b" using rel [of i] by (auto simp: option_rel_Some1)
      then show ?thesis using Some alike_file(4) [of a b "vol_fs vol"] by (simp add: file_at_def f alike_def)
    qed
  qed
qed

text \<open>A vnode with the same inode: its reference count may have changed, or its dirty mark.\<close>

lemma alike_change:
  assumes inv: "vol_inv d vol" and p: "vn_get vol p = Some sv" and sv': "alike sv sv'" "0 < sv_refcount sv'"
    and clean': "\<not> sv_dirty sv' \<Longrightarrow> dinode_of (dsk (vol_fs vol) (unat (sv_ino sv))) = sv_i sv"
    and vol': "vol' = vn_put p sv' vol"
  shows "vol_inv d vol'" "names vol' = names vol" "file_at vol' = file_at vol"
    "cached vol' = (cached vol)(sv_ino sv \<mapsto> sv')" "vn_get vol' q = (if q = p then Some sv' else vn_get vol q)"
proof -
  note D = vol_invD [OF inv] and G = vol_get [OF inv p]
  have v: "vol' = vn_put p sv' (vol\<lparr>vol_fs := vol_fs vol\<rparr>)" using vol' by simp
  have same: "sv_ino sv' = sv_ino sv" "sv_i sv' = sv_i sv" using sv'(1) by (simp_all add: alike_def)
  note P = put_tab [OF D(1) p same(1) sv'(2) v]
  show "cached vol' = (cached vol)(sv_ino sv \<mapsto> sv')" "vn_get vol' q = (if q = p then Some sv' else vn_get vol q)"
    by (rule P(2), rule P(3))
  have fs: "vol_fs vol' = vol_fs vol" by (simp add: vol')
  have q: "fs_quiet (vol_fs vol) (vol_fs vol')" using fs_quiet_refl [OF files_okD(1) [OF D(2)]] by (simp add: fs)
  have new: "\<exists>a. nodes vol i = Some a \<and> sv_i a = sv_i b" if "cached vol' i = Some b" for i b
    using that G(2) nodes_cached unfolding P(2) by (auto simp flip: same(2) split: if_splits)
  have clean: "dinode_of (dsk (vol_fs vol) (unat i)) = sv_i b" if "cached vol' i = Some b" "\<not> sv_dirty b" for i b
    using that clean' D(6) [of i b] unfolding P(2) by (auto simp flip: same(2) split: if_splits)
  have gone: "\<And>i a. cached vol i = Some a \<Longrightarrow> cached vol' i = None \<Longrightarrow>
      (i = 1 \<or> i \<in> ran (names vol)) \<and> dinode_of (dsk (vol_fs vol) (unat i)) = sv_i a"
    by (simp add: P(2) split: if_splits)
  show "vol_inv d vol'" "names vol' = names vol" "file_at vol' = file_at vol"
    by (rule view_change(1-3) [OF inv P(1) q new gone clean]; assumption)+
qed

lemma ref_change:
  assumes "vol_inv d vol" "vn_get vol p = Some sv" "sv' = sv\<lparr>sv_refcount := n\<rparr>" "0 < n" "vol' = vn_put p sv' vol"
  shows "vol_inv d vol'" "names vol' = names vol" "file_at vol' = file_at vol"
    "cached vol' = (cached vol)(sv_ino sv \<mapsto> sv')" "vn_get vol' q = (if q = p then Some sv' else vn_get vol q)"
  using alike_change [OF assms(1,2) _ _ _ assms(5)] assms(3,4) vol_invD(6) [OF assms(1) vol_get(1) [OF assms(1,2)]]
  by (simp_all add: alike_def)

text \<open>Nothing of the volume but the state of its device and of the allocator has changed.\<close>

lemma quiet_change:
  assumes inv: "vol_inv d vol" and q: "fs_quiet (vol_fs vol) (vol_fs vol')" and h: "vol_heap vol' = vol_heap vol"
    and v: "array_ok (vol_vnodes vol')" "elems (vol_vnodes vol') = elems (vol_vnodes vol)"
  shows "vol_inv d vol'" "names vol' = names vol" "file_at vol' = file_at vol" "cached vol' = cached vol"
    "vn_get vol' p = vn_get vol p" "nodes vol' = nodes vol"
proof -
  note D = vol_invD [OF inv]
  show g: "vn_get vol' p = vn_get vol p" for p by (simp add: h vn_get_def)
  have "vn_get vol' = vn_get vol" by (intro ext g)
  then show c: "cached vol' = cached vol" by (intro ext) (simp only: cached_def h)
  have t: "tab_ok vol'" using D(1) v by (simp add: tab_ok_def g)
  have new: "\<exists>a. nodes vol i = Some a \<and> sv_i a = sv_i b" if "cached vol' i = Some b" for i b
    using that nodes_cached unfolding c by blast
  note V = view_change(1-3) [OF inv t q new]
  show "vol_inv d vol'" "names vol' = names vol" "file_at vol' = file_at vol"
    by (rule V; use D(6) in \<open>simp add: c\<close>)+
  then have n: "names vol' = names vol" by simp
  have dv: "disk_vnode (vol_fs vol') = disk_vnode (vol_fs vol)" using q by (simp add: disk_vnode_def fs_quiet_def fun_eq_iff)
  show "nodes vol' = nodes vol" by (intro ext) (simp only: nodes_def c n dv)
qed

end
