(* ===== verification/Sfsload.thy ===== *)
theory Sfsload
  imports Sfsnode
begin

text \<open>
  Vnodes come into memory and go to disk: sfs_loadvnode, sfs_makeobj and sfs_sync_inode of
  kern/fs/sfs/sfs_inode.c, and vnode_incref, keep the invariant of the volume.
\<close>

subsection \<open>Loading a vnode\<close>

lemma vn_put_same: "vn_get vol p = Some sv \<Longrightarrow> vn_put p sv vol = vol"
proof -
  assume "vn_get vol p = Some sv"
  then have "vol_heap vol ! p = Some sv" by (auto simp: vn_get_def arr_get_def split: if_splits)
  then have "(vol_heap vol)[p := Some sv] = vol_heap vol" by (metis list_update_id)
  then show ?thesis by (simp add: vn_put_def)
qed

lemma on_vnode_quiet:
  assumes "vn_get vol p = Some sv" "f sv (vol_fs vol) = Some (r, sv, fs')"
  shows "on_vnode p f vol = Some (r, vol\<lparr>vol_fs := fs'\<rparr>)"
proof -
  have "vn_put p sv (vol\<lparr>vol_fs := fs'\<rparr>) = vol\<lparr>vol_fs := fs'\<rparr>"
    using assms(1) by (intro vn_put_same) (simp add: vn_get_def)
  then show ?thesis using assms by (simp add: on_vnode_def)
qed

text \<open>Every vnode in memory takes an inode block of its own.\<close>

lemma few_vnodes_core:
  assumes "vol_core d vol" shows "length (elems (vol_vnodes vol)) \<le> 2 ^ 23"
proof -
  note D = vol_coreD [OF assms] and T = tab_okD [OF vol_coreD(1) [OF assms]]
  let ?f = "\<lambda>p. unat (sv_ino (the (vn_get vol p)))"
  have live: "\<exists>sv. vn_get vol p = Some sv \<and> unat (sv_ino sv) < nblk (vol_fs vol)" if p: "p \<in> set (elems (vol_vnodes vol))" for p
  proof -
    obtain sv where sv: "vn_get vol p = Some sv" using p T(3) by auto
    then show ?thesis using vol_core_get(3) [OF assms sv] by (auto simp: inode_ok_def)
  qed
  have "inj_on ?f (set (elems (vol_vnodes vol)))"
  proof (rule inj_onI)
    fix p q
    assume pq: "p \<in> set (elems (vol_vnodes vol))" "q \<in> set (elems (vol_vnodes vol))" "?f p = ?f q"
    obtain a b where ab: "vn_get vol p = Some a" "vn_get vol q = Some b" using live pq(1,2) by blast
    then have "sv_ino a = sv_ino b" using pq(3) by (simp add: word_unat_eq_iff)
    then show "p = q" by (rule T(4) [OF ab])
  qed
  moreover have "?f ` set (elems (vol_vnodes vol)) \<subseteq> {..<nblk (vol_fs vol)}" using live by fastforce
  ultimately have "card (set (elems (vol_vnodes vol))) \<le> nblk (vol_fs vol)"
    using card_inj_on_le [of ?f "set (elems (vol_vnodes vol))" "{..<nblk (vol_fs vol)}"] by simp
  then show ?thesis using distinct_card [OF T(2)] files_okD(2) [OF D(2)] by simp
qed

lemmas few_vnodes = few_vnodes_core [OF vol_inv_core]

lemma loaded_search_ok:
  assumes inv: "vol_core d vol" and xs: "xs = elems (vol_vnodes vol)" "unat i + n = length xs"
  shows "loaded_search n i ino vol = Some (List.find (\<lambda>p. sv_ino (the (vn_get vol p)) = ino) (drop (unat i) xs))"
  using xs(2)
proof (induction n arbitrary: i)
  case 0
  then show ?case by simp
next
  case (Suc n)
  note D = vol_coreD [OF inv] and T = tab_okD [OF vol_coreD(1) [OF inv]]
  have i: "unat i < length xs" using Suc.prems by simp
  have get: "array_get (vol_vnodes vol) i = Some (xs ! unat i)" using array_get_ok [OF T(1)] i by (simp add: xs(1))
  have "xs ! unat i \<in> set (elems (vol_vnodes vol))" using i by (simp add: xs(1))
  then obtain sv where sv: "vn_get vol (xs ! unat i) = Some sv" using T(3) by auto
  have "sfs_bused (vol_fs vol) (sv_ino sv) = Some True"
    using vol_core_get(3) [OF inv sv] bused_eq [OF files_okD(1) [OF D(2)]] by (simp add: inode_ok_def)
  then have run: "loaded_search (Suc n) i ino vol = (if sv_ino sv = ino then Some (Some (xs ! unat i)) else loaded_search n (i + 1) ino vol)"
    using get sv by simp
  have "unat (i + 1) = unat i + 1" using i few_vnodes_core [OF inv] by (subst unat_add_u32) (simp_all add: xs(1))
  then have "loaded_search n (i + 1) ino vol = Some (List.find (\<lambda>p. sv_ino (the (vn_get vol p)) = ino) (drop (unat i + 1) xs))"
    using Suc.IH [of "i + 1"] Suc.prems by simp
  moreover have "drop (unat i) xs = xs ! unat i # drop (unat i + 1) xs" using i by (simp add: Cons_nth_drop_Suc)
  ultimately show ?case using run sv by simp
qed

lemma loaded_search_core:
  assumes "vol_core d vol"
  shows "loaded_search (unat (array_num (vol_vnodes vol))) 0 ino vol =
    Some (List.find (\<lambda>p. sv_ino (the (vn_get vol p)) = ino) (elems (vol_vnodes vol)))"
    "List.find (\<lambda>p. sv_ino (the (vn_get vol p)) = ino) (elems (vol_vnodes vol)) = Some v \<Longrightarrow>
      \<exists>sv. vn_get vol v = Some sv \<and> sv_ino sv = ino"
    "List.find (\<lambda>p. sv_ino (the (vn_get vol p)) = ino) (elems (vol_vnodes vol)) = None \<Longrightarrow> cached vol ino = None"
proof -
  note T = tab_okD [OF vol_coreD(1) [OF assms]]
  show "loaded_search (unat (array_num (vol_vnodes vol))) 0 ino vol =
    Some (List.find (\<lambda>p. sv_ino (the (vn_get vol p)) = ino) (elems (vol_vnodes vol)))"
    using loaded_search_ok [OF assms refl, of 0] array_num_eq [OF T(1)] by simp
  show "\<exists>sv. vn_get vol v = Some sv \<and> sv_ino sv = ino"
    if "List.find (\<lambda>p. sv_ino (the (vn_get vol p)) = ino) (elems (vol_vnodes vol)) = Some v"
  proof -
    have "v \<in> set (elems (vol_vnodes vol)) \<and> sv_ino (the (vn_get vol v)) = ino"
      using that unfolding find_Some_iff by (metis nth_mem)
    then show ?thesis using T(3) by force
  qed
  show "cached vol ino = None" if "List.find (\<lambda>p. sv_ino (the (vn_get vol p)) = ino) (elems (vol_vnodes vol)) = None"
  proof (rule ccontr)
    assume "cached vol ino \<noteq> None"
    then obtain p sv where "vn_get vol p = Some sv" "sv_ino sv = ino" using cached_ino [OF vol_coreD(1) [OF assms]] by blast
    moreover from this have "p \<in> set (elems (vol_vnodes vol))" using T(3) by simp
    ultimately show False using that unfolding find_None_iff by force
  qed
qed

lemmas loaded_search_cached = loaded_search_core [OF vol_inv_core]

lemma add_tab:
  assumes "tab_ok vol" "cached vol (sv_ino sv) = None" "0 < sv_refcount sv" "array_ok a"
    and "elems a = elems (vol_vnodes vol) @ [length (vol_heap vol)]"
    and vol': "vol' = vol\<lparr>vol_fs := fs', vol_vnodes := a, vol_kmem := k', vol_heap := vol_heap vol @ [Some sv]\<rparr>"
  shows "tab_ok vol'" "cached vol' = (cached vol)(sv_ino sv \<mapsto> sv)"
    "vn_get vol' q = (if q = length (vol_heap vol) then Some sv else vn_get vol q)" "vn_get vol (length (vol_heap vol)) = None"
proof -
  note T = tab_okD [OF assms(1)]
  let ?p = "length (vol_heap vol)"
  show get: "vn_get vol' q = (if q = ?p then Some sv else vn_get vol q)" for q
    by (auto simp: vn_get_def vol' arr_get_def nth_append)
  show none: "vn_get vol ?p = None" by (simp add: vn_get_def)
  have other: "sv_ino b \<noteq> sv_ino sv" if "vn_get vol q = Some b" for q b
    using that assms(2) cached_get [OF assms(1) that] by auto
  have uniq: "q = r" if "vn_get vol' q = Some x" "vn_get vol' r = Some y" "sv_ino x = sv_ino y" for q r x y
    using that other [of q x] other [of r y] T(4) [of q x r y] unfolding get by (simp split: if_splits)
  have "set (elems a) = {q. vn_get vol' q \<noteq> None}" using T(3) by (auto simp: get assms(5))
  moreover have "distinct (elems a)" using T(2,3) none by (auto simp: assms(5))
  moreover have "0 < sv_refcount b" if "vn_get vol' q = Some b" for q b
    using that assms(3) T(5) [of q b] unfolding get by (auto split: if_splits)
  ultimately show "tab_ok vol'" using assms(4) uniq unfolding tab_ok_def by (simp add: vol')
  show "cached vol' = (cached vol)(sv_ino sv \<mapsto> sv)"
  proof (intro ext option_eqI)
    fix i b
    have "cached vol' i = Some b \<longleftrightarrow> (\<exists>q. vn_get vol' q = Some b \<and> sv_ino b = i)" by (rule cached_Some) (rule uniq)
    also have "\<dots> \<longleftrightarrow> b = sv \<and> i = sv_ino sv \<or> (\<exists>q. q \<noteq> ?p \<and> vn_get vol q = Some b \<and> sv_ino b = i)"
      by (auto simp: get)
    also have "\<dots> \<longleftrightarrow> b = sv \<and> i = sv_ino sv \<or> cached vol i = Some b"
      unfolding cached_ino [OF assms(1)] using none by (metis option.distinct(1))
    also have "\<dots> \<longleftrightarrow> ((cached vol)(sv_ino sv \<mapsto> sv)) i = Some b" using assms(2) by auto
    finally show "cached vol' i = Some b \<longleftrightarrow> ((cached vol)(sv_ino sv \<mapsto> sv)) i = Some b" .
  qed
qed


lemma kmalloc_try_set: "kmalloc_try k = (got, k') \<Longrightarrow> set k' \<subseteq> set k \<and> (\<not> got \<longrightarrow> False \<in> set k)"
  by (auto simp: kmalloc_try_def split: list.splits)

definition ref_of :: "sfs_vol \<Rightarrow> nat \<Rightarrow> nat" where
  "ref_of vol p = (case vn_get vol p of Some sv \<Rightarrow> sv_refcount sv | None \<Rightarrow> 0)"

text \<open>The volume as before, and a reference to the vnode of ino at address v.\<close>

definition grabbed :: "(u32 \<Rightarrow> int) \<Rightarrow> sfs_vol \<Rightarrow> u32 \<Rightarrow> nat \<Rightarrow> sfs_vol \<Rightarrow> bool" where
  "grabbed d vol ino v vol' \<longleftrightarrow> vol_inv d vol' \<and> names vol' = names vol \<and> file_at vol' = file_at vol \<and>
     (\<forall>q. q \<noteq> v \<longrightarrow> vn_get vol' q = vn_get vol q) \<and> (\<forall>b. vn_get vol v = Some b \<longrightarrow> sv_ino b = ino) \<and>
     fs_quiet (vol_fs vol) (vol_fs vol') \<and>
     (\<exists>sv a. vn_get vol' v = Some sv \<and> sv_ino sv = ino \<and> nodes vol ino = Some a \<and> sv_i sv = sv_i a \<and>
        sv_refcount sv = ref_of vol v + 1)"

definition unchanged :: "(u32 \<Rightarrow> int) \<Rightarrow> sfs_vol \<Rightarrow> sfs_vol \<Rightarrow> bool" where
  "unchanged d vol vol' \<longleftrightarrow> vol_inv d vol' \<and> names vol' = names vol \<and> file_at vol' = file_at vol \<and>
     vn_get vol' = vn_get vol \<and> nodes vol' = nodes vol \<and> fs_quiet (vol_fs vol) (vol_fs vol')"

lemma quiet_unchanged:
  assumes "vol_inv d vol" "fs_quiet (vol_fs vol) (vol_fs vol')" "vol_heap vol' = vol_heap vol"
    "array_ok (vol_vnodes vol')" "elems (vol_vnodes vol') = elems (vol_vnodes vol)"
  shows "unchanged d vol vol'"
  using quiet_change [OF assms] assms(2) by (auto simp: unchanged_def)

lemma vnode_incref_ok:
  assumes "vol_inv d vol" "vn_get vol p = Some sv"
  shows "\<exists>vol'. vnode_incref p vol = Some vol' \<and> grabbed d vol (sv_ino sv) p vol'"
proof -
  define vol' where "vol' = vn_put p (sv\<lparr>sv_refcount := sv_refcount sv + 1\<rparr>) vol"
  note R = ref_change [OF assms refl _ vol'_def]
  have "vnode_incref p vol = Some vol'" using assms(2) by (simp add: vnode_incref_def vol'_def)
  moreover have "fs_quiet (vol_fs vol) (vol_fs vol')"
    using fs_quiet_refl [OF files_okD(1) [OF vol_invD(2) [OF assms(1)]]] by (simp add: vol'_def)
  ultimately show ?thesis using R vol_get(2) [OF assms] assms(2) by (auto simp: grabbed_def ref_of_def)
qed

text \<open>A new vnode for an inode that is not in memory.\<close>

lemma load_change:
  assumes inv: "vol_inv d vol" and none: "cached vol ino = None" and node: "nodes vol ino = Some a"
    and q: "fs_quiet (vol_fs vol) fs'" and arr: "array_ok v" "elems v = elems (vol_vnodes vol) @ [length (vol_heap vol)]"
    and sv: "sv = \<lparr>sv_i = dinode_of (dsk (vol_fs vol) (unat ino)), sv_ino = ino, sv_dirty = False, sv_refcount = 1\<rparr>"
    and vol': "vol' = vol\<lparr>vol_fs := fs', vol_vnodes := v, vol_kmem := k', vol_heap := vol_heap vol @ [Some sv]\<rparr>"
  shows "grabbed d vol ino (length (vol_heap vol)) vol'"
proof -
  note D = vol_invD [OF inv]
  have i: "sv_ino sv = ino" "0 < sv_refcount sv" "\<not> sv_dirty sv" by (simp_all add: sv)
  have none': "cached vol (sv_ino sv) = None" using none i(1) by simp
  note A = add_tab [OF D(1) none' i(2) arr vol']
  have q': "fs_quiet (vol_fs vol) (vol_fs vol')" using q by (simp add: vol')
  have a: "sv_i sv = sv_i a" using node none by (auto simp: nodes_def sv disk_vnode_def split: if_splits)
  have new: "\<exists>x. nodes vol i = Some x \<and> sv_i x = sv_i b" if "cached vol' i = Some b" for i b
    using that node a nodes_cached unfolding A(2) i(1) by (auto split: if_splits)
  have gone: "\<And>i x. cached vol i = Some x \<Longrightarrow> cached vol' i = None \<Longrightarrow>
      (i = 1 \<or> i \<in> ran (names vol)) \<and> dinode_of (dsk (vol_fs vol) (unat i)) = sv_i x"
    by (simp add: A(2) split: if_splits)
  have clean: "dinode_of (dsk (vol_fs vol) (unat i)) = sv_i b" if "cached vol' i = Some b" "\<not> sv_dirty b" for i b
    using that D(6) [of i b] unfolding A(2) i(1) by (auto simp: sv split: if_splits)
  have V: "vol_inv d vol'" "names vol' = names vol" "file_at vol' = file_at vol"
    by (rule view_change(1-3) [OF inv A(1) q' new gone clean]; assumption)+
  then show ?thesis using q' A(3,4) i(1) node a by (auto simp: grabbed_def ref_of_def sv)
qed

lemma loadvnode_ok:
  assumes inv: "vol_inv d vol" and node: "nodes vol ino = Some a"
  shows "\<exists>r vol'. sfs_loadvnode ino SFS_TYPE_INVAL vol = Some (r, vol') \<and>
    (case r of Inr v \<Rightarrow> grabbed d vol ino v vol'
     | Inl e \<Rightarrow> e = ENOMEM \<and> False \<in> set (vol_kmem vol) \<and> unchanged d vol vol')"
proof -
  note D = vol_invD [OF inv] and L = loaded_search_cached [OF inv, of ino] and T = tab_okD(1) [OF vol_invD(1) [OF inv]]
  have fs: "fs_ok (vol_fs vol)" by (rule files_okD(1) [OF D(2)])
  have I: "inode_ok (vol_fs vol) ino a" by (rule files_okD(3) [OF D(2) node])
  show ?thesis
  proof (cases "List.find (\<lambda>p. sv_ino (the (vn_get vol p)) = ino) (elems (vol_vnodes vol))")
    case (Some v)
    then obtain sv where sv: "vn_get vol v = Some sv" "sv_ino sv = ino" using L(2) by blast
    obtain vol' where "vnode_incref v vol = Some vol'" "grabbed d vol ino v vol'"
      using vnode_incref_ok [OF inv sv(1)] sv(2) by blast
    then show ?thesis using L(1) Some by (intro exI [of _ "Inr v"] exI [of _ vol']) (simp add: sfs_loadvnode_def)
  next
    case None
    then have none: "cached vol ino = None" by (rule L(3))
    obtain got k1 where k: "kmalloc_try (vol_kmem vol) = (got, k1)" by fastforce
    note K = kmalloc_try_set [OF k]
    show ?thesis
    proof (cases got)
      case False
      then have "sfs_loadvnode ino 0 vol = Some (Inl ENOMEM, vol\<lparr>vol_kmem := k1\<rparr>)"
        using L(1) None k by (simp add: sfs_loadvnode_def)
      moreover have "unchanged d vol (vol\<lparr>vol_kmem := k1\<rparr>)"
        using fs_quiet_refl [OF fs] T by (intro quiet_unchanged [OF inv]) simp_all
      ultimately show ?thesis using K False by (intro exI [of _ "Inl ENOMEM"] exI [of _ "vol\<lparr>vol_kmem := k1\<rparr>"]) simp
    next
      case got: True
      have used: "sfs_bused (vol_fs vol) ino = Some True" using I bused_eq [OF fs] by (simp add: inode_ok_def)
      obtain fs2 where fs2: "sfs_readblock (vol_fs vol) ino (replicate 512 0) 512 =
          Some ((None, dsk (vol_fs vol) (unat ino)), fs2)" "fs_quiet (vol_fs vol) fs2"
        using readblock_ok [OF fs, of ino "replicate 512 0"] I quiet_keep by (auto simp: inode_ok_def)
      define dn where "dn = dinode_of (dsk (vol_fs vol) (unat ino))"
      have "sv_i a = dn" using node none by (auto simp: nodes_def disk_vnode_def dn_def split: if_splits)
      then have type: "sfi_type dn = 1 \<or> sfi_type dn = 2" using I by (auto simp: inode_ok_def)
      obtain r v k' where A: "array_add (vol_vnodes vol) (length (vol_heap vol)) k1 = Some (r, v, k')" "array_ok v"
          "case r of Inr i \<Rightarrow> unat i = length (elems (vol_vnodes vol)) \<and> elems v = elems (vol_vnodes vol) @ [length (vol_heap vol)]
           | Inl e \<Rightarrow> e = ENOMEM \<and> elems v = elems (vol_vnodes vol) \<and> False \<in> set k1"
        using array_add_ok [OF T] few_vnodes [OF inv] by fastforce
      define sv where "sv = \<lparr>sv_i = dn, sv_ino = ino, sv_dirty = False, sv_refcount = 1\<rparr>"
      have run: "sfs_loadvnode ino 0 vol = (case r of
          Inl e \<Rightarrow> Some (Inl e, vol\<lparr>vol_fs := fs2, vol_vnodes := v, vol_kmem := k'\<rparr>)
        | Inr _ \<Rightarrow> Some (Inr (length (vol_heap vol)),
            vol\<lparr>vol_fs := fs2, vol_vnodes := v, vol_kmem := k', vol_heap := vol_heap vol @ [Some sv]\<rparr>))"
        using L(1) None k got used fs2(1) A(1) type
        by (cases r) (simp_all add: sfs_loadvnode_def Let_def dn_def [symmetric] sv_def)
      show ?thesis
      proof (cases r)
        case (Inl e)
        let ?vol = "vol\<lparr>vol_fs := fs2, vol_vnodes := v, vol_kmem := k'\<rparr>"
        have "unchanged d vol ?vol" using A(2,3) Inl fs2(2) by (intro quiet_unchanged [OF inv]) simp_all
        then show ?thesis using run Inl A(3) K by (intro exI [of _ "Inl ENOMEM"] exI [of _ ?vol]) auto
      next
        case (Inr i)
        let ?vol = "vol\<lparr>vol_fs := fs2, vol_vnodes := v, vol_kmem := k', vol_heap := vol_heap vol @ [Some sv]\<rparr>"
        have "elems v = elems (vol_vnodes vol) @ [length (vol_heap vol)]" using A(3) Inr by simp
        from load_change [OF inv none node fs2(2) A(2) this _ refl, of sv k'] have "grabbed d vol ino (length (vol_heap vol)) ?vol"
          by (simp add: sv_def dn_def)
        then show ?thesis using run Inr by (intro exI [of _ "Inr (length (vol_heap vol))"] exI [of _ ?vol]) simp
      qed
    qed
  qed
qed


subsection \<open>Making an object\<close>

lemma dinode_zeros:
  "dinode_of (replicate 512 0) = \<lparr>sfi_size = 0, sfi_type = 0, sfi_linkcount = 0, sfi_direct = replicate 15 0,
     sfi_indirect = 0, sfi_waste = replicate 110 0\<rparr>"
proof -
  have w: "words_of n (drop k (replicate 512 0)) = replicate n 0" for n k by (simp add: drop_replicate)
  have "get32 (replicate 512 0) k = 0" for k by (simp add: get32_def drop_replicate of_be32_zeros)
  moreover have "get16 (replicate 512 0) k = 0" for k
  proof (cases "512 - k")
    case (Suc n)
    then show ?thesis by (cases n) (simp_all add: get16_def drop_replicate)
  qed (simp add: get16_def drop_replicate)
  ultimately show ?thesis by (simp add: dinode_of_def w)
qed

definition fresh_vnode :: "u32 \<Rightarrow> sfs_vnode" where
  "fresh_vnode ino = \<lparr>sv_i = (dinode_of (replicate 512 0))\<lparr>sfi_type := SFS_TYPE_FILE\<rparr>, sv_ino = ino, sv_dirty = True, sv_refcount = 1\<rparr>"

lemma fresh_vnode_file:
  "ftab fs (fresh_vnode ino) = replicate 143 0" "sv_blocks fs (fresh_vnode ino) = {}"
  "abs_file fs (fresh_vnode ino) = (0, \<lambda>_. 0)"
proof -
  show t: "ftab fs (fresh_vnode ino) = replicate 143 0"
    by (simp add: ftab_def indtab_def fresh_vnode_def dinode_zeros flip: replicate_add)
  show "sv_blocks fs (fresh_vnode ino) = {}" by (simp add: sv_blocks_def t) (simp add: fresh_vnode_def dinode_zeros)
  have "p div 512 < 143" if "p < max_bytes" for p :: nat using that by linarith
  then have "fbyte fs (fresh_vnode ino) p = 0" if "p < max_bytes" for p using that by (simp add: fbyte_def t)
  then show "abs_file fs (fresh_vnode ino) = (0, \<lambda>_. 0)"
    by (auto simp: abs_file_def fun_eq_iff) (simp add: fresh_vnode_def dinode_zeros)
qed

text \<open>The disk has changed where no file and no inode that is only on disk is.\<close>

lemma disk_core:
  assumes inv: "vol_core d vol" and fr: "fs_same (vol_fs vol) (vol_fs vol')" "fs_ok (vol_fs vol')"
    and kept: "\<And>j b. nodes vol j = Some b \<Longrightarrow> file_kept (vol_fs vol) (vol_fs vol') b \<and> unat j \<notin> fs_free (vol_fs vol')"
    and inode: "\<And>j. j \<in> dom (nodes vol) \<Longrightarrow> (cached vol j = None \<or> \<not> sv_dirty (the (cached vol j))) \<Longrightarrow>
      dsk (vol_fs vol') (unat j) = dsk (vol_fs vol) (unat j)"
    and h: "vol_heap vol' = vol_heap vol"
    and v: "array_ok (vol_vnodes vol')" "elems (vol_vnodes vol') = elems (vol_vnodes vol)"
  shows "vol_core d vol'" "names vol' = names vol" "file_at vol' = file_at vol" "cached vol' = cached vol"
    "vn_get vol' = vn_get vol" "nodes vol' = nodes vol"
proof -
  note D = vol_coreD [OF inv]
  let ?fs = "vol_fs vol" and ?fs' = "vol_fs vol'"
  show g: "vn_get vol' = vn_get vol" by (intro ext) (simp add: h vn_get_def)
  then show c: "cached vol' = cached vol" by (intro ext) (simp only: cached_def h)
  have t: "tab_ok vol'" using D(1) v by (simp add: tab_ok_def g)
  have dv: "disk_vnode ?fs' i = disk_vnode ?fs i" if "cached vol i = None" "i = 1 \<or> i \<in> ran (names vol)" for i
  proof -
    have "i \<in> dom (nodes vol)" using that(2) nodes_dom by blast
    then show ?thesis using inode that(1) by (simp add: disk_vnode_def)
  qed
  have r: "root_node vol' = root_node vol" using dv [of 1] by (cases "cached vol 1") (simp_all add: root_node_def c)
  note R = dir_ok_kept [OF D(3) _ fr(2)]
  show n: "names vol' = names vol" unfolding names_def r by (rule R(2)) (use kept nodes_root in blast)
  show nn: "nodes vol' = nodes vol" using dv by (auto simp: nodes_def c n fun_eq_iff split: option.split)
  have cl: "dinode_of (dsk ?fs' (unat i)) = sv_i b" if "cached vol i = Some b" "\<not> sv_dirty b" for i b
  proof -
    have "nodes vol i = Some b" by (rule nodes_cached [OF that(1)])
    then have "dsk ?fs' (unat i) = dsk ?fs (unat i)" by (intro inode) (use that in auto)
    then show ?thesis using D(6) [OF that] by simp
  qed
  show "vol_core d vol'" unfolding vol_core_def
  proof (intro conjI allI impI)
    show "files_ok ?fs' (nodes vol')" unfolding nn using files_same [OF D(2) fr(1,2)] kept by blast
    show "dir_ok ?fs' (root_node vol')" unfolding r by (rule R(1)) (use kept nodes_root in blast)
    show "dinode_of (dsk ?fs' (unat i)) = sv_i b" if "cached vol' i = Some b" "\<not> sv_dirty b" for i b
      using that cl by (simp add: c)
    show "int (unat (sfi_linkcount (sv_i b))) = int (name_count vol' i) + d i" if "nodes vol' i = Some b" "i \<noteq> 1" for i b
      using that D(7) by (simp add: nn name_count_def n)
  qed (use t D(4,5) in \<open>simp_all add: n r\<close>)
  show "file_at vol' = file_at vol"
  proof
    fix i show "file_at vol' i = file_at vol i"
      using kept [of i] by (cases "nodes vol i") (simp_all add: file_at_def nn file_kept_def)
  qed
qed

lemma disk_change:
  assumes inv: "vol_inv d vol" and fr: "fs_same (vol_fs vol) (vol_fs vol')" "fs_ok (vol_fs vol')" "fs_free (vol_fs vol) \<subseteq> fs_free (vol_fs vol')"
    and kept: "\<And>j b. nodes vol j = Some b \<Longrightarrow> file_kept (vol_fs vol) (vol_fs vol') b \<and> unat j \<notin> fs_free (vol_fs vol')"
    and inode: "\<And>j. j \<in> dom (nodes vol) \<Longrightarrow> (cached vol j = None \<or> \<not> sv_dirty (the (cached vol j))) \<Longrightarrow>
      dsk (vol_fs vol') (unat j) = dsk (vol_fs vol) (unat j)"
    and h: "vol_heap vol' = vol_heap vol"
    and v: "array_ok (vol_vnodes vol')" "elems (vol_vnodes vol') = elems (vol_vnodes vol)"
  shows "vol_inv d vol'" "names vol' = names vol" "file_at vol' = file_at vol" "cached vol' = cached vol"
    "vn_get vol' = vn_get vol" "nodes vol' = nodes vol"
proof -
  note C = disk_core [OF vol_inv_core [OF inv] fr(1,2) kept _ h v]
  have c: "vol_core d vol'" "names vol' = names vol" "file_at vol' = file_at vol" "cached vol' = cached vol"
    "vn_get vol' = vn_get vol" "nodes vol' = nodes vol" by (rule C; use inode in blast)+
  have "no_leak (vol_fs vol') (nodes vol')" unfolding c(6)
    by (rule leak_kept [OF vol_inv_leak [OF inv] fr(1,3)]) (use kept in blast)
  then show "vol_inv d vol'" using c(1) by (simp add: vol_inv_def)
qed (rule disk_core [OF vol_inv_core [OF inv] fr(1,2) kept _ h v]; use inode in blast)+

text \<open>Only blocks that were free have changed, and the device.\<close>

lemma frame_core:
  assumes inv: "vol_core d vol" and fr: "fs_same (vol_fs vol) (vol_fs vol')" "fs_ok (vol_fs vol')" "fs_frame {} (vol_fs vol) (vol_fs vol')"
    and rest: "vol_heap vol' = vol_heap vol" "array_ok (vol_vnodes vol')" "elems (vol_vnodes vol') = elems (vol_vnodes vol)"
  shows "vol_core d vol'" "names vol' = names vol" "file_at vol' = file_at vol" "cached vol' = cached vol"
    "vn_get vol' = vn_get vol" "nodes vol' = nodes vol"
proof -
  have kept: "file_kept (vol_fs vol) (vol_fs vol') b \<and> unat j \<notin> fs_free (vol_fs vol') \<and>
      dsk (vol_fs vol') (unat j) = dsk (vol_fs vol) (unat j)" if "nodes vol j = Some b" for j b
    using files_okD(3) [OF vol_coreD(2) [OF inv] that] frame_kept [OF _ fr(1,3)] frame_block [OF fr(3), of j] by (simp add: inode_ok_def)
  have k1: "\<And>j b. nodes vol j = Some b \<Longrightarrow> file_kept (vol_fs vol) (vol_fs vol') b \<and> unat j \<notin> fs_free (vol_fs vol')"
    and k2: "\<And>j. j \<in> dom (nodes vol) \<Longrightarrow> dsk (vol_fs vol') (unat j) = dsk (vol_fs vol) (unat j)"
    using kept by blast+
  show "vol_core d vol'" "names vol' = names vol" "file_at vol' = file_at vol" "cached vol' = cached vol"
    "vn_get vol' = vn_get vol" "nodes vol' = nodes vol"
    by (rule disk_core [OF inv fr(1,2) k1 _ rest]; use k2 in blast)+
qed

lemma frame_change:
  assumes inv: "vol_inv d vol" and fr: "fs_same (vol_fs vol) (vol_fs vol')" "fs_ok (vol_fs vol')" "fs_frame {} (vol_fs vol) (vol_fs vol')" "fs_free (vol_fs vol) \<subseteq> fs_free (vol_fs vol')"
    and rest: "vol_heap vol' = vol_heap vol" "array_ok (vol_vnodes vol')" "elems (vol_vnodes vol') = elems (vol_vnodes vol)"
  shows "vol_inv d vol'" "names vol' = names vol" "file_at vol' = file_at vol" "cached vol' = cached vol"
    "vn_get vol' = vn_get vol" "nodes vol' = nodes vol"
proof -
  have kept: "file_kept (vol_fs vol) (vol_fs vol') b \<and> unat j \<notin> fs_free (vol_fs vol') \<and>
      dsk (vol_fs vol') (unat j) = dsk (vol_fs vol) (unat j)" if "nodes vol j = Some b" for j b
    using files_okD(3) [OF vol_invD(2) [OF inv] that] frame_kept [OF _ fr(1,3)] frame_block [OF fr(3), of j] by (simp add: inode_ok_def)
  have k1: "\<And>j b. nodes vol j = Some b \<Longrightarrow> file_kept (vol_fs vol) (vol_fs vol') b \<and> unat j \<notin> fs_free (vol_fs vol')"
    and k2: "\<And>j. j \<in> dom (nodes vol) \<Longrightarrow> dsk (vol_fs vol') (unat j) = dsk (vol_fs vol) (unat j)"
    using kept by blast+
  show "vol_inv d vol'" "names vol' = names vol" "file_at vol' = file_at vol" "cached vol' = cached vol"
    "vn_get vol' = vn_get vol" "nodes vol' = nodes vol"
    by (rule disk_change [OF inv fr(1,2,4) k1 _ rest]; use k2 in blast)+
qed

lemma free_block_unused:
  assumes "vol_inv d vol" "unat b \<in> fs_free (vol_fs vol)"
  shows "b \<notin> dom (nodes vol)" "cached vol b = None" "b \<noteq> 1" "b \<notin> ran (names vol)"
proof -
  show "b \<notin> dom (nodes vol)" using files_okD(3) [OF vol_invD(2) [OF assms(1)], of b] assms(2) by (auto simp: inode_ok_def)
  then show "cached vol b = None" "b \<noteq> 1" "b \<notin> ran (names vol)" using nodes_dom by blast+
qed

lemma new_change:
  assumes ok: "vol_ok vol" and b: "unat b \<in> fs_free (vol_fs vol)" "fs_free fs' = fs_free (vol_fs vol) - {unat b}"
      "dsk fs' = (dsk (vol_fs vol))(unat b := replicate 512 0)" "fs_same (vol_fs vol) fs'" "fs_ok fs'"
    and arr: "array_ok v" "elems v = elems (vol_vnodes vol) @ [length (vol_heap vol)]"
    and vol': "vol' = vol\<lparr>vol_fs := fs', vol_vnodes := v, vol_kmem := k', vol_heap := vol_heap vol @ [Some (fresh_vnode b)]\<rparr>"
  shows "vol_ok vol'" "names vol' = names vol" "file_at vol' = (file_at vol)(b \<mapsto> (0, \<lambda>_. 0))"
    "vn_get vol' q = (if q = length (vol_heap vol) then Some (fresh_vnode b) else vn_get vol q)"
    "vn_get vol (length (vol_heap vol)) = None"
    "dir_slots (vol_fs vol') (root_node vol') = dir_slots (vol_fs vol) (root_node vol)"
proof -
  have inv: "vol_inv (\<lambda>_. 0) vol" using ok by (simp add: vol_ok_def)
  note D = vol_invD [OF inv] and U = free_block_unused [OF inv b(1)]
  let ?fs = "vol_fs vol" and ?sv = "fresh_vnode b"
  have sv: "sv_ino ?sv = b" "0 < sv_refcount ?sv" "sv_dirty ?sv" by (simp_all add: fresh_vnode_def)
  have none: "cached vol (sv_ino ?sv) = None" using U(2) sv(1) by simp
  note A = add_tab [OF D(1) none sv(2) arr vol', unfolded sv(1)]
  show "vn_get vol' q = (if q = length (vol_heap vol) then Some ?sv else vn_get vol q)" "vn_get vol (length (vol_heap vol)) = None"
    by (rule A(3), rule A(4))
  have f': "vol_fs vol' = fs'" by (simp add: vol')
  note F = files_new [OF D(2) b(1-5) sv(1) U(3) fresh_vnode_file(2) _ fresh_vnode_file(1)]
  have F': "files_ok fs' ((nodes vol)(b \<mapsto> ?sv))" "others_kept ?fs fs' (nodes vol) b"
    using F by (simp_all add: fresh_vnode_def dinode_zeros b(4,5))
  note K = others_keptD(3,4) [OF F'(2)]
  have k1: "file_kept ?fs fs' (root_node vol)" using K(1) [OF nodes_root] U(3) by simp
  have dv: "disk_vnode fs' i = disk_vnode ?fs i" if "i = 1 \<or> i \<in> ran (names vol)" for i
  proof -
    have "i \<in> dom (nodes vol)" using that nodes_dom by blast
    then show ?thesis using K(2) by (auto simp: disk_vnode_def)
  qed
  have r: "root_node vol' = root_node vol" using dv [of 1] U(3) by (cases "cached vol 1") (simp_all add: root_node_def A(2) f')
  note R = dir_ok_kept [OF D(3) k1 b(5)]
  show "dir_slots (vol_fs vol') (root_node vol') = dir_slots ?fs (root_node vol)"
    unfolding r f' by (rule file_kept_dir [OF k1 dir_okD(2) [OF D(3)]])
  show n: "names vol' = names vol" unfolding names_def r f' by (rule R(2))
  have nn: "nodes vol' = (nodes vol)(b \<mapsto> ?sv)"
    using dv U by (auto simp: nodes_def A(2) n f' fun_eq_iff split: option.split)
  have cl: "dinode_of (dsk fs' (unat i)) = sv_i x" if "cached vol' i = Some x" "\<not> sv_dirty x" for i x
  proof -
    have c: "i \<noteq> b" "cached vol i = Some x" using that sv(3) unfolding A(2) by (auto split: if_splits)
    then show ?thesis using D(6) [OF c(2) that(2)] K(2) [OF nodes_cached [OF c(2)]] by simp
  qed
  have l: "int (unat (sfi_linkcount (sv_i x))) = int (name_count vol' i)" if "nodes vol' i = Some x" "i \<noteq> 1" for i x
  proof (cases "i = b")
    case True
    have e: "{nm. names vol nm = Some b} = {}" using U(4) by (auto simp: ran_def)
    have "x = ?sv" using that True by (simp add: nn)
    then have "sfi_linkcount (sv_i x) = 0" by (simp add: fresh_vnode_def dinode_zeros)
    then show ?thesis by (simp add: name_count_def n True e)
  next
    case False
    then show ?thesis using that D(7) [of i x] by (simp add: nn name_count_def n)
  qed
  have "no_leak fs' (nodes vol')" unfolding nn
    by (rule leak_new [OF vol_inv_leak [OF inv] b(2) F'(2)]) (use U(1) in blast)
  then show "vol_ok vol'" unfolding vol_ok_def vol_inv_def vol_core_def
    using A(1) F'(1) R(1) D(4,5) cl l by (simp add: f' n r) (simp add: nn f')
  show "file_at vol' = (file_at vol)(b \<mapsto> (0, \<lambda>_. 0))"
  proof
    fix i show "file_at vol' i = ((file_at vol)(b \<mapsto> (0, \<lambda>_. 0))) i"
      using U(3) K(1) [of i] fresh_vnode_file(3) [of fs' b]
      by (cases "nodes vol i") (auto simp: file_at_def nn f' file_kept_def)
  qed
qed


text \<open>The two ends of making a file: an inode without a name, or the volume as it was.\<close>

definition looks_same :: "sfs_vol \<Rightarrow> sfs_vol \<Rightarrow> bool" where
  "looks_same vol vol' \<longleftrightarrow> names vol' = names vol \<and> file_at vol' = file_at vol \<and> vn_get vol' = vn_get vol"

lemma makeobj_ok:
  assumes ok: "vol_ok vol"
  shows "\<exists>r vol'. sfs_makeobj SFS_TYPE_FILE vol = Some (r, vol') \<and> vol_ok vol' \<and>
    (case r of
       Inl e \<Rightarrow> looks_same vol vol' \<and>
         (e = ENOSPC \<and> fs_free (vol_fs vol) = {} \<or> e = ENOMEM \<and> False \<in> set (vol_kmem vol))
     | Inr v \<Rightarrow> \<exists>b. unat b \<in> fs_free (vol_fs vol) \<and> b \<noteq> 1 \<and> b \<notin> ran (names vol) \<and> file_at vol b = None \<and>
         names vol' = names vol \<and> file_at vol' = (file_at vol)(b \<mapsto> (0, \<lambda>_. 0)) \<and>
         dir_slots (vol_fs vol') (root_node vol') = dir_slots (vol_fs vol) (root_node vol) \<and>
         vn_get vol v = None \<and> vn_get vol' v = Some (fresh_vnode b) \<and> (\<forall>q. q \<noteq> v \<longrightarrow> vn_get vol' q = vn_get vol q))"
proof -
  have inv: "vol_inv (\<lambda>_. 0) vol" using ok by (simp add: vol_ok_def)
  note D = vol_invD [OF inv] and T = tab_okD(1) [OF vol_invD(1) [OF inv]]
  have fs: "fs_ok (vol_fs vol)" by (rule files_okD(1) [OF D(2)])
  from fs show ?thesis
  proof (cases rule: balloc_cases)
    case full
    then have "sfs_makeobj 1 vol = Some (Inl ENOSPC, vol)" by (simp add: sfs_makeobj_def on_fs_def)
    then show ?thesis using full ok by (intro exI [of _ "Inl ENOSPC"] exI [of _ vol]) (simp add: looks_same_def)
  next
    case (got b fs1)
    note U = free_block_unused [OF inv got(2)]
    define vol1 where "vol1 = vol\<lparr>vol_fs := fs1\<rparr>"
    have fr: "fs_frame {} (vol_fs vol) fs1" by (rule fs_frame_alloc [OF got(2,4,5)])
    have frc: "fs_same (vol_fs vol) (vol_fs vol1)" "fs_ok (vol_fs vol1)" "fs_frame {} (vol_fs vol) (vol_fs vol1)"
      "vol_heap vol1 = vol_heap vol" "array_ok (vol_vnodes vol1)" "elems (vol_vnodes vol1) = elems (vol_vnodes vol)"
      using got(6,7) fr T by (simp_all add: vol1_def)
    note C = frame_core [OF vol_inv_core [OF inv] frc]
    note L = loaded_search_core [OF C(1), of b]
    have find: "List.find (\<lambda>p. sv_ino (the (vn_get vol1 p)) = b) (elems (vol_vnodes vol1)) = None"
    proof (rule ccontr)
      assume "List.find (\<lambda>p. sv_ino (the (vn_get vol1 p)) = b) (elems (vol_vnodes vol1)) \<noteq> None"
      then obtain v sv where "vn_get vol1 v = Some sv" "sv_ino sv = b" using L(2) by blast
      then have "cached vol1 b = Some sv" using cached_get [OF vol_coreD(1) [OF C(1)]] by blast
      then show False using U(2) by (simp add: C(4))
    qed
    have run: "sfs_makeobj 1 vol = do {
          (r2, vol2) \<leftarrow> sfs_loadvnode b 1 vol1;
          (case r2 of
             Inl e \<Rightarrow> do { fs3 \<leftarrow> sfs_bfree (vol_fs vol2) b; Some (Inl e, vol2\<lparr>vol_fs := fs3\<rparr>) }
           | Inr v \<Rightarrow> Some (Inr v, vol2)) }"
      using got(1) by (simp add: sfs_makeobj_def on_fs_def vol1_def)
    have b0: "0 < b" "unat b < nblk (vol_fs vol)"
      using fs_okD(5) [OF fs] got(2) by (auto simp: word_less_nat_alt)
    have nb1: "nblk fs1 = nblk (vol_fs vol)" by (rule fs_same_nblk(1) [OF got(7)])
    have undo: "\<exists>r vol'. sfs_makeobj 1 vol = Some (r, vol') \<and> vol_ok vol' \<and> looks_same vol vol' \<and> r = Inl e"
      if load: "sfs_loadvnode b 1 vol1 = Some (Inl e, vol2)" and q: "fs_quiet fs1 (vol_fs vol2)"
        and h: "vol_heap vol2 = vol_heap vol" "array_ok (vol_vnodes vol2)" "elems (vol_vnodes vol2) = elems (vol_vnodes vol)"
      for e vol2
    proof -
      have q': "fs_ok (vol_fs vol2)" "fs_same fs1 (vol_fs vol2)" "fs_free (vol_fs vol2) = fs_free fs1" "dsk (vol_fs vol2) = dsk fs1"
        using q by (simp_all add: fs_quiet_def)
      have "unat b < nblk (vol_fs vol2)" "unat b \<notin> fs_free (vol_fs vol2)"
        using b0(2) nb1 fs_same_nblk(1) [OF q'(2)] q'(3) got(4) by simp_all
      then obtain fs3 where fs3: "sfs_bfree (vol_fs vol2) b = Some fs3" "fs_ok fs3" "fs_same (vol_fs vol2) fs3"
          "dsk fs3 = dsk (vol_fs vol2)" "fs_free fs3 = insert (unat b) (fs_free (vol_fs vol2))"
        using bfree_ok [OF q'(1) b0(1)] by blast
      define vol3 where "vol3 = vol2\<lparr>vol_fs := fs3\<rparr>"
      have "sfs_makeobj 1 vol = Some (Inl e, vol3)" using run load fs3(1) by (simp add: vol3_def)
      moreover have "fs_same (vol_fs vol) fs3" by (rule fs_same_trans [OF got(7) fs_same_trans [OF q'(2) fs3(3)]])
      moreover have "fs_frame {} (vol_fs vol) fs3" using fs3(4,5) q'(3,4) got(2,4,5) by (auto simp: fs_frame_def)
      moreover have "fs_free (vol_fs vol) \<subseteq> fs_free fs3" using fs3(5) q'(3) got(2,4) by auto
      ultimately show ?thesis using frame_change [OF inv, of vol3] fs3(2) h
        by (intro exI [of _ "Inl e"] exI [of _ vol3]) (simp add: vol3_def vol_ok_def looks_same_def)
    qed
    obtain got' k1 where k: "kmalloc_try (vol_kmem vol) = (got', k1)" by fastforce
    note K = kmalloc_try_set [OF k]
    show ?thesis
    proof (cases got')
      case False
      then have "sfs_loadvnode b 1 vol1 = Some (Inl ENOMEM, vol1\<lparr>vol_kmem := k1\<rparr>)"
        using L(1) find k by (simp add: sfs_loadvnode_def vol1_def)
      from undo [OF this] fs_quiet_refl [OF got(6)] T K False show ?thesis by (auto simp: vol1_def)
    next
      case True
      have "sfs_bused fs1 b = Some True" using bused_eq [OF got(6)] b0(2) nb1 got(4) by simp
      moreover have "unat b < nblk fs1" using b0(2) nb1 by simp
      from readblock_ok [OF got(6) this, of "replicate 512 0"] obtain fs2 where
        fs2: "sfs_readblock fs1 b (replicate 512 0) 512 = Some ((None, replicate 512 0), fs2)" "fs_keep fs1 fs2" "dsk fs2 = dsk fs1"
        using got(5) by auto
      note Q = quiet_keep [OF fs2(2,3)]
      obtain r v k' where A: "array_add (vol_vnodes vol) (length (vol_heap vol)) k1 = Some (r, v, k')" "array_ok v"
          "case r of Inr i \<Rightarrow> unat i = length (elems (vol_vnodes vol)) \<and> elems v = elems (vol_vnodes vol) @ [length (vol_heap vol)]
           | Inl e \<Rightarrow> e = ENOMEM \<and> elems v = elems (vol_vnodes vol) \<and> False \<in> set k1"
        using array_add_ok [OF T] few_vnodes [OF inv] by fastforce
      ultimately have load: "sfs_loadvnode b 1 vol1 = (case r of
          Inl e \<Rightarrow> Some (Inl e, vol1\<lparr>vol_fs := fs2, vol_vnodes := v, vol_kmem := k'\<rparr>)
        | Inr _ \<Rightarrow> Some (Inr (length (vol_heap vol)), vol\<lparr>vol_fs := fs2, vol_vnodes := v, vol_kmem := k',
            vol_heap := vol_heap vol @ [Some (fresh_vnode b)]\<rparr>))"
        using L(1) find k True fs2(1)
        by (cases r) (simp_all add: sfs_loadvnode_def vol1_def Let_def dinode_zeros fresh_vnode_def)
      show ?thesis
      proof (cases r)
        case (Inl e)
        then have "e = ENOMEM" "elems v = elems (vol_vnodes vol)" "False \<in> set (vol_kmem vol)" using A(3) K by auto
        then show ?thesis using undo [of e "vol1\<lparr>vol_fs := fs2, vol_vnodes := v, vol_kmem := k'\<rparr>"] load Inl Q A(2)
          by (auto simp: vol1_def)
      next
        case (Inr i)
        let ?vol = "vol\<lparr>vol_fs := fs2, vol_vnodes := v, vol_kmem := k', vol_heap := vol_heap vol @ [Some (fresh_vnode b)]\<rparr>"
        have el: "elems v = elems (vol_vnodes vol) @ [length (vol_heap vol)]" using A(3) Inr by simp
        have f: "fs_free fs2 = fs_free (vol_fs vol) - {unat b}" "dsk fs2 = (dsk (vol_fs vol))(unat b := replicate 512 0)"
          "fs_same (vol_fs vol) fs2" "fs_ok fs2"
          using Q got(4,5) fs_same_trans [OF got(7)] by (simp_all add: fs_quiet_def)
        note N = new_change(1-4,6) [OF ok got(2) f A(2) el refl, where k' = k'] new_change(5) [OF ok got(2) f A(2) el refl]
        have "file_at vol b = None" using U by (auto simp: file_at_def domIff)
        then show ?thesis using run load Inr N U(3,4) got(2)
          by (intro exI [of _ "Inr (length (vol_heap vol))"] exI [of _ ?vol]) auto
      qed
    qed
  qed
qed


subsection \<open>Writing inodes back\<close>

lemma drop_be:
  "length a = n \<Longrightarrow> drop n (a @ b) = b" "length a = n \<Longrightarrow> n \<le> k \<Longrightarrow> drop k (a @ b) = drop (k - n) b"
  by simp_all

lemma dinode_of_bytes:
  assumes "length (sfi_direct dn) = 15" "length (sfi_waste dn) = 110"
  shows "dinode_of (dinode_bytes dn) = dn" "length (dinode_bytes dn) = 512"
proof -
  have d: "drop 4 (dinode_bytes dn) = be16 (sfi_type dn) @ be16 (sfi_linkcount dn) @ bytes_of (sfi_direct dn) @
      be32 (sfi_indirect dn) @ bytes_of (sfi_waste dn)"
    "drop 6 (dinode_bytes dn) = be16 (sfi_linkcount dn) @ bytes_of (sfi_direct dn) @ be32 (sfi_indirect dn) @ bytes_of (sfi_waste dn)"
    "drop 8 (dinode_bytes dn) = bytes_of (sfi_direct dn) @ be32 (sfi_indirect dn) @ bytes_of (sfi_waste dn)"
    "drop 68 (dinode_bytes dn) = be32 (sfi_indirect dn) @ bytes_of (sfi_waste dn)"
    "drop 72 (dinode_bytes dn) = bytes_of (sfi_waste dn)"
    using assms by (simp_all add: dinode_bytes_def)
  have "sfi_size (dinode_of (dinode_bytes dn)) = sfi_size dn"
    by (simp add: dinode_of_def get32_def) (simp add: dinode_bytes_def)
  moreover have "sfi_type (dinode_of (dinode_bytes dn)) = sfi_type dn" "sfi_linkcount (dinode_of (dinode_bytes dn)) = sfi_linkcount dn"
    "sfi_direct (dinode_of (dinode_bytes dn)) = sfi_direct dn" "sfi_indirect (dinode_of (dinode_bytes dn)) = sfi_indirect dn"
    "sfi_waste (dinode_of (dinode_bytes dn)) = sfi_waste dn"
    using assms by (simp_all add: dinode_of_def get16_def get32_def d)
  ultimately show "dinode_of (dinode_bytes dn) = dn" by simp
  show "length (dinode_bytes dn) = 512" using assms by (simp add: dinode_bytes_def)
qed

lemma sync_inode_ok:
  assumes inv: "vol_inv d vol" and p: "vn_get vol p = Some sv"
  shows "\<exists>vol'. on_vnode p sfs_sync_inode vol = Some (None, vol') \<and> vol_inv d vol' \<and> names vol' = names vol \<and>
    file_at vol' = file_at vol \<and> (\<forall>q. vn_get vol' q = (if q = p then Some (sv\<lparr>sv_dirty := False\<rparr>) else vn_get vol q)) \<and>
    dinode_of (dsk (vol_fs vol') (unat (sv_ino sv))) = sv_i sv \<and> sv_blocks (vol_fs vol') sv = sv_blocks (vol_fs vol) sv \<and>
    fs_free (vol_fs vol') = fs_free (vol_fs vol)"
proof (cases "sv_dirty sv")
  case False
  then have "sv\<lparr>sv_dirty := False\<rparr> = sv" by simp
  moreover have "on_vnode p sfs_sync_inode vol = Some (None, vol\<lparr>vol_fs := vol_fs vol\<rparr>)"
    by (rule on_vnode_quiet [OF p]) (simp add: sfs_sync_inode_def False)
  ultimately show ?thesis using inv p vol_invD(6) [OF inv vol_get(1) [OF inv p] False] by auto
next
  case True
  note D = vol_invD [OF inv] and G = vol_get [OF inv p] and F = files_okD [OF vol_invD(2) [OF inv]]
  let ?i = "sv_ino sv" and ?fs = "vol_fs vol"
  have I: "unat ?i < nblk ?fs" "length (sv_direct sv) = 15" "length (sfi_waste (sv_i sv)) = 110"
    using G(3) sv_direct_length by (auto simp: inode_ok_def)
  note B = dinode_of_bytes [OF I(2,3)]
  obtain fs' where fs': "sfs_writeblock ?fs ?i (dinode_bytes (sv_i sv)) 512 = Some (None, fs')" "fs_keep ?fs fs'"
      "dsk fs' = (dsk ?fs)(unat ?i := dinode_bytes (sv_i sv))"
    using writeblock_ok [OF F(1) I(1) B(2)] by blast
  note W = files_inode [OF D(2) G(2) fs'(2,3)]
  define vol1 where "vol1 = vol\<lparr>vol_fs := fs'\<rparr>"
  have f1: "vol_fs vol1 = fs'" by (simp add: vol1_def)
  have k: "fs_same ?fs (vol_fs vol1)" "fs_ok (vol_fs vol1)" using fs'(2) by (simp_all add: f1 fs_keep_def)
  have k1: "\<And>j b. nodes vol j = Some b \<Longrightarrow> file_kept ?fs (vol_fs vol1) b \<and> unat j \<notin> fs_free (vol_fs vol1)"
    using W(2) files_okD(3) [OF W(1)] by (simp add: f1 inode_ok_def)
  have k2: "\<And>j. j \<in> dom (nodes vol) \<Longrightarrow> (cached vol j = None \<or> \<not> sv_dirty (the (cached vol j))) \<Longrightarrow>
      dsk (vol_fs vol1) (unat j) = dsk ?fs (unat j)"
    using G(1) True W(3) unfolding f1 by (metis option.distinct(1) option.sel)
  have rest: "vol_heap vol1 = vol_heap vol" "array_ok (vol_vnodes vol1)" "elems (vol_vnodes vol1) = elems (vol_vnodes vol)"
    using tab_okD(1) [OF D(1)] by (simp_all add: vol1_def)
  have kf: "fs_free ?fs \<subseteq> fs_free (vol_fs vol1)" using fs'(2) by (simp add: f1 fs_keep_def)
  note C = disk_change [OF inv k kf k1 k2 rest]
  let ?sv = "sv\<lparr>sv_dirty := False\<rparr>"
  define vol2 where "vol2 = vn_put p ?sv vol1"
  have p1: "vn_get vol1 p = Some sv" using C(5) p by simp
  have al: "alike sv ?sv" "0 < sv_refcount ?sv" using tab_okD(5) [OF D(1) p] by (simp_all add: alike_def)
  have dk: "dinode_of (dsk (vol_fs vol1) (unat ?i)) = sv_i sv" using fs'(3) B(1) by (simp add: f1)
  note A = alike_change [OF C(1) p1 al dk vol2_def]
  have "on_vnode p sfs_sync_inode vol = Some (None, vol2)"
    using p True fs'(1) by (simp add: on_vnode_def sfs_sync_inode_def vol2_def vol1_def)
  moreover have "dinode_of (dsk (vol_fs vol2) (unat ?i)) = sv_i sv" using dk by (simp add: vol2_def)
  moreover have "sv_blocks (vol_fs vol2) sv = sv_blocks ?fs sv" using k1 [OF G(2)] by (simp add: vol2_def file_kept_def)
  moreover have "fs_free (vol_fs vol2) = fs_free ?fs" using fs'(2) by (simp add: vol2_def f1 fs_keep_def)
  ultimately show ?thesis using A(1-3) A(5) C(2,3,5) by auto
qed

end
