(* ===== verification/Sfsreclaim.thy ===== *)
theory Sfsreclaim
  imports Sfsload
begin

text \<open>
  The end of a vnode: sfs_reclaim and VOP_DECREF keep the invariant of the volume. The last
  reference to an inode with names writes it back; one without names is truncated and its
  block given back.
\<close>

subsection \<open>Taking a vnode out of memory\<close>

lemma vnode_index_ok:
  assumes inv: "vol_inv d vol" and xs: "xs = elems (vol_vnodes vol)" "unat i + n = length xs"
    and k: "k < length xs" "unat i \<le> k" "xs ! k = p"
  shows "vnode_index n i p vol = Some (Some (of_nat k))"
  using xs(2) k(2)
proof (induction n arbitrary: i)
  case 0
  then show ?case using k(1) by simp
next
  case (Suc n)
  note T = tab_okD [OF vol_invD(1) [OF inv]]
  have i: "unat i < length xs" using Suc.prems by simp
  have get: "array_get (vol_vnodes vol) i = Some (xs ! unat i)" using array_get_ok [OF T(1)] i by (simp add: xs(1))
  have "xs ! unat i \<in> set (elems (vol_vnodes vol))" using i by (simp add: xs(1))
  then obtain sv where sv: "vn_get vol (xs ! unat i) = Some sv" using T(3) by auto
  show ?case
  proof (cases "xs ! unat i = p")
    case True
    then have "unat i = k" using i k(1,3) T(2) nth_eq_iff_index_eq [of xs "unat i" k] by (simp add: xs(1))
    moreover have "of_nat (unat i) = i" by simp
    ultimately have "of_nat k = i" by simp
    then show ?thesis using True get sv by simp
  next
    case False
    then have "unat i \<noteq> k" using k(3) by blast
    moreover have "unat (i + 1) = unat i + 1" using i few_vnodes [OF inv] by (subst unat_add_u32) (simp_all add: xs(1))
    ultimately show ?thesis using False get sv Suc.IH [of "i + 1"] Suc.prems by simp
  qed
qed

lemma drop_tab:
  assumes inv: "vol_inv d vol" and p: "vn_get vol p = Some sv"
  shows "\<exists>i a. vnode_index (unat (array_num (vol_vnodes vol))) 0 p vol = Some (Some i) \<and> array_remove (vol_vnodes vol) i = Some a \<and>
    (\<forall>fs' vol'. vol' = vol\<lparr>vol_fs := fs', vol_vnodes := a, vol_heap := (vol_heap vol)[p := None]\<rparr> \<longrightarrow>
       tab_ok vol' \<and> cached vol' = (cached vol)(sv_ino sv := None) \<and>
       (\<forall>q. vn_get vol' q = (if q = p then None else vn_get vol q)))"
proof -
  note T = tab_okD [OF vol_invD(1) [OF inv]]
  define xs where "xs = elems (vol_vnodes vol)"
  have "p \<in> set xs" using T(3) p by (simp add: xs_def)
  then obtain k where k: "k < length xs" "xs ! k = p" by (auto simp: in_set_conv_nth)
  have num: "unat (array_num (vol_vnodes vol)) = length xs" using array_num_eq [OF T(1)] by (simp add: xs_def)
  have ix: "vnode_index (unat (array_num (vol_vnodes vol))) 0 p vol = Some (Some (of_nat k))"
    using vnode_index_ok [OF inv xs_def, of 0 "length xs" k p] k num by simp
  have uk: "unat (of_nat k :: u32) = k" using k(1) few_vnodes [OF inv] by (intro unat_of_nat_u32) (simp add: xs_def)
  obtain a where a: "array_remove (vol_vnodes vol) (of_nat k) = Some a" "array_ok a" "elems a = take k xs @ drop (k + 1) xs"
    using array_remove_ok [OF T(1), of "of_nat k"] k(1) by (auto simp: xs_def uk)
  have "tab_ok vol' \<and> cached vol' = (cached vol)(sv_ino sv := None) \<and> (\<forall>q. vn_get vol' q = (if q = p then None else vn_get vol q))"
    if vol': "vol' = vol\<lparr>vol_fs := fs', vol_vnodes := a, vol_heap := (vol_heap vol)[p := None]\<rparr>" for fs' vol'
  proof (intro conjI allI)
    show get: "vn_get vol' q = (if q = p then None else vn_get vol q)" for q
      using p by (auto simp: vn_get_def vol' arr_get_def split: if_splits)
    have uniq: "q = r" if "vn_get vol' q = Some x" "vn_get vol' r = Some y" "sv_ino x = sv_ino y" for q r x y
      using that T(4) [of q x r y] unfolding get by (simp split: if_splits)
    have split: "xs = take k xs @ p # drop (k + 1) xs" using k id_take_nth_drop [OF k(1)] by simp
    have dist: "distinct (take k xs @ p # drop (k + 1) xs)" using T(2) split unfolding xs_def [symmetric] by metis
    have set: "set xs = set (take k xs @ p # drop (k + 1) xs)" using split by metis
    have "set (elems a) = set xs - {p}" using dist unfolding set a(3) by auto
    also have "\<dots> = {q. vn_get vol' q \<noteq> None}" using T(3) by (auto simp: get xs_def)
    finally have "set (elems a) = {q. vn_get vol' q \<noteq> None}" .
    moreover have "distinct (elems a)" using dist unfolding a(3) by simp
    moreover have "0 < sv_refcount b" if "vn_get vol' q = Some b" for q b
      using that T(5) [of q b] unfolding get by (auto split: if_splits)
    ultimately show "tab_ok vol'" using a(2) uniq unfolding tab_ok_def by (simp add: vol')
    show "cached vol' = (cached vol)(sv_ino sv := None)"
    proof (intro ext option_eqI)
      fix i b
      have "cached vol' i = Some b \<longleftrightarrow> (\<exists>q. vn_get vol' q = Some b \<and> sv_ino b = i)" by (rule cached_Some) (rule uniq)
      also have "\<dots> \<longleftrightarrow> (\<exists>q. q \<noteq> p \<and> vn_get vol q = Some b \<and> sv_ino b = i)" by (auto simp: get)
      also have "\<dots> \<longleftrightarrow> i \<noteq> sv_ino sv \<and> cached vol i = Some b"
        unfolding cached_ino [OF vol_invD(1) [OF inv]] using T(4) [OF _ p] p by (metis option.inject)
      also have "\<dots> \<longleftrightarrow> ((cached vol)(sv_ino sv := None)) i = Some b" by simp
      finally show "cached vol' i = Some b \<longleftrightarrow> ((cached vol)(sv_ino sv := None)) i = Some b" .
    qed
  qed
  then show ?thesis using ix a(1) by blast
qed

text \<open>An inode with names, or the root, goes back to its block.\<close>

lemma finite_names: "finite {nm. names vol nm = Some i}"
proof -
  let ?es = "dir_slots (vol_fs vol) (root_node vol)"
  have "{nm. names vol nm = Some i} \<subseteq> sd_name ` set ?es"
  proof
    fix nm assume "nm \<in> {nm. names vol nm = Some i}"
    then obtain j where j: "find_idx (sd_is nm) ?es = Some j"
      by (auto simp: names_def dir_map_def slots_map_def lookup_slot_def)
    then have "j < length ?es" "sd_is nm (?es ! j)" by (simp_all add: find_idx_Some)
    then show "nm \<in> sd_name ` set ?es" by (auto simp: sd_is_def intro!: image_eqI [of _ _ "?es ! j"])
  qed
  then show ?thesis by (rule finite_subset) simp
qed

lemma named_iff:
  assumes "vol_ok vol" "nodes vol i = Some sv" "i \<noteq> 1"
  shows "sfi_linkcount (sv_i sv) = 0 \<longleftrightarrow> i \<notin> ran (names vol)"
proof -
  have "unat (sfi_linkcount (sv_i sv)) = card {nm. names vol nm = Some i}"
    using vol_invD(7) [OF assms(1) [unfolded vol_ok_def] assms(2,3)]
    unfolding name_count_def by (simp only: add_0_right of_nat_eq_iff)
  moreover have "sfi_linkcount (sv_i sv) = 0 \<longleftrightarrow> unat (sfi_linkcount (sv_i sv)) = 0" by (simp add: unat_eq_0)
  ultimately show ?thesis using finite_names [of vol i] by (auto simp: ran_def)
qed

lemma evict_change:
  assumes ok: "vol_ok vol" and p: "vn_get vol p = Some sv" and links: "sfi_linkcount (sv_i sv) \<noteq> 0"
    and disk: "dinode_of (dsk (vol_fs vol) (unat (sv_ino sv))) = sv_i sv"
    and tab: "tab_ok vol'" "cached vol' = (cached vol)(sv_ino sv := None)" and fs: "vol_fs vol' = vol_fs vol"
  shows "vol_ok vol'" "names vol' = names vol" "file_at vol' = file_at vol"
proof -
  have inv: "vol_inv (\<lambda>_. 0) vol" using ok by (simp add: vol_ok_def)
  note D = vol_invD [OF inv] and G = vol_get [OF inv p]
  have q: "fs_quiet (vol_fs vol) (vol_fs vol')" using fs_quiet_refl [OF files_okD(1) [OF D(2)]] by (simp add: fs)
  have new: "\<exists>a. nodes vol i = Some a \<and> sv_i a = sv_i b" if "cached vol' i = Some b" for i b
    using that nodes_cached unfolding tab(2) by (auto split: if_splits)
  have gone: "(i = 1 \<or> i \<in> ran (names vol)) \<and> dinode_of (dsk (vol_fs vol) (unat i)) = sv_i a"
    if "cached vol i = Some a" "cached vol' i = None" for i a
  proof -
    have "i = sv_ino sv" using that unfolding tab(2) by (auto split: if_splits)
    then show ?thesis using that(1) G(1,2) disk links named_iff [OF ok G(2)] by auto
  qed
  have clean: "dinode_of (dsk (vol_fs vol) (unat i)) = sv_i b" if "cached vol' i = Some b" "\<not> sv_dirty b" for i b
    using that D(6) [of i b] unfolding tab(2) by (auto split: if_splits)
  note V = view_change(1-3) [OF inv tab(1) q new gone clean]
  have "vol_inv (\<lambda>_. 0) vol'" "names vol' = names vol" "file_at vol' = file_at vol" by (rule V; assumption)+
  then show "vol_ok vol'" "names vol' = names vol" "file_at vol' = file_at vol" by (simp_all add: vol_ok_def)
qed

text \<open>An inode without names is gone, and its block is free.\<close>

lemma erase_change:
  assumes ok: "vol_ok vol" and p: "vn_get vol p = Some sv" and links: "sfi_linkcount (sv_i sv) = 0"
    and empty: "sv_blocks (vol_fs vol) sv = {}"
    and fs: "fs_same (vol_fs vol) (vol_fs vol')" "fs_ok (vol_fs vol')" "dsk (vol_fs vol') = dsk (vol_fs vol)"
      "fs_free (vol_fs vol') = insert (unat (sv_ino sv)) (fs_free (vol_fs vol))"
    and tab: "tab_ok vol'" "cached vol' = (cached vol)(sv_ino sv := None)"
  shows "vol_ok vol'" "names vol' = names vol" "file_at vol' = (file_at vol)(sv_ino sv := None)" "sv_ino sv \<noteq> 1"
proof -
  have inv: "vol_inv (\<lambda>_. 0) vol" using ok by (simp add: vol_ok_def)
  note D = vol_invD [OF inv] and G = vol_get [OF inv p]
  let ?i = "sv_ino sv" and ?fs = "vol_fs vol" and ?fs' = "vol_fs vol'"
  show i1: "?i \<noteq> 1" using D(5) links G(1) by (auto simp: root_node_def)
  have unnamed: "?i \<notin> ran (names vol)" using named_iff [OF ok G(2) i1] links by simp
  note F = files_drop [OF D(2) G(2) fs]
  note K = others_keptD(3) [OF F(2)]
  have dv: "disk_vnode ?fs' = disk_vnode ?fs" by (simp add: disk_vnode_def fs(3) fun_eq_iff)
  have r: "root_node vol' = root_node vol" using i1 by (cases "cached vol 1") (simp_all add: root_node_def tab(2) dv)
  have "file_kept ?fs ?fs' (root_node vol)" using K [of 1] nodes_root [of vol] i1 by simp
  note R = dir_ok_kept [OF D(3) this fs(2)]
  show n: "names vol' = names vol" unfolding names_def r by (rule R(2))
  have nn: "nodes vol' = (nodes vol)(?i := None)"
  proof
    fix j show "nodes vol' j = ((nodes vol)(?i := None)) j"
      using i1 unnamed by (cases "j = ?i"; cases "cached vol j") (auto simp: nodes_def tab(2) n dv)
  qed
  have cl: "dinode_of (dsk ?fs' (unat j)) = sv_i b" if "cached vol' j = Some b" "\<not> sv_dirty b" for j b
    using that D(6) [of j b] unfolding tab(2) by (auto simp: fs(3) split: if_splits)
  have l: "int (unat (sfi_linkcount (sv_i b))) = int (name_count vol' j)" if "nodes vol' j = Some b" "j \<noteq> 1" for j b
    using that D(7) [of j b] by (simp add: nn name_count_def n split: if_splits)
  have "no_leak ?fs' (nodes vol')" unfolding nn by (rule leak_drop [OF vol_inv_leak [OF inv] G(2) empty fs(4) F(2)])
  then show "vol_ok vol'" unfolding vol_ok_def vol_inv_def vol_core_def
    using tab(1) F(1) R(1) D(4,5) cl l by (simp add: n r) (simp add: nn)
  show "file_at vol' = (file_at vol)(?i := None)"
  proof
    fix j show "file_at vol' j = ((file_at vol)(?i := None)) j"
      using K [of j] by (cases "nodes vol j") (auto simp: file_at_def nn file_kept_def)
  qed
qed


subsection \<open>Truncation of a vnode\<close>

lemma trunc_change:
  assumes inv: "vol_inv d vol" and p: "vn_get vol p = Some sv" "sv_ino sv \<noteq> 1" and len: "len \<le> max_bytes"
  shows "\<exists>vol' sv'. on_vnode p (\<lambda>sv. sfs_itrunc sv (int len)) vol = Some (None, vol') \<and> vol_inv d vol' \<and>
    names vol' = names vol \<and> (\<forall>q. vn_get vol' q = (if q = p then Some sv' else vn_get vol q)) \<and>
    file_at vol' = (file_at vol)(sv_ino sv \<mapsto> abs_file (vol_fs vol') sv') \<and> sv_ino sv' = sv_ino sv \<and>
    sv_refcount sv' = sv_refcount sv \<and> sfi_linkcount (sv_i sv') = sfi_linkcount (sv_i sv) \<and>
    unat (sfi_size (sv_i sv')) = len \<and> map (fbyte (vol_fs vol') sv') [0..<len] = map (fbyte (vol_fs vol) sv) [0..<len] \<and>
    (len = 0 \<longrightarrow> sv_blocks (vol_fs vol') sv' = {}) \<and>
    fs_free (vol_fs vol') = fs_free (vol_fs vol) \<union> unat ` (sv_blocks (vol_fs vol) sv - sv_blocks (vol_fs vol') sv')"
proof -
  note D = vol_invD [OF inv] and G = vol_get [OF inv p(1)]
  have ready: "file_ready (vol_fs vol) sv" by (rule files_ok_ready [OF D(2) G(2)])
  obtain sv' fs' where T: "sfs_itrunc sv (int len) (vol_fs vol) = Some (None, sv', fs')" "file_ready fs' sv'"
      "unat (sfi_size (sv_i sv')) = len" "sv_blocks fs' sv' \<subseteq> sv_blocks (vol_fs vol) sv"
      "map (fbyte fs' sv') [0..<len] = map (fbyte (vol_fs vol) sv) [0..<len]"
      "fs_frame (sv_blocks (vol_fs vol) sv) (vol_fs vol) fs'" "fs_same (vol_fs vol) fs'" "sv_dirty sv'"
      "sv_ino sv' = sv_ino sv" "sv_refcount sv' = sv_refcount sv" "sfi_type (sv_i sv') = sfi_type (sv_i sv)"
      "sfi_linkcount (sv_i sv') = sfi_linkcount (sv_i sv)" "sfi_waste (sv_i sv') = sfi_waste (sv_i sv)"
      "fs_free fs' = fs_free (vol_fs vol) \<union> unat ` (sv_blocks (vol_fs vol) sv - sv_blocks fs' sv')" "len = 0 \<longrightarrow> sv_blocks fs' sv' = {}"
    using itrunc_ok [OF ready len] by (elim exE conjE) (rule that)
  define vol' where "vol' = vn_put p sv' (vol\<lparr>vol_fs := fs'\<rparr>)"
  have ok: "fs_ok fs'" "sv_ok fs' sv'" using T(2) by (simp_all add: file_ready_def)
  have ref: "0 < sv_refcount sv'" using tab_okD(5) [OF D(1) p(1)] T(10) by simp
  note O = frame_others [OF D(2) G(2) T(7,6)]
  have I: "length (sfi_waste (sv_i sv')) = 110" using G(3) T(13) by (simp add: inode_ok_def)
  have blocks: "unat ` sv_blocks fs' sv' \<subseteq> unat ` sv_blocks (vol_fs vol) sv \<union> fs_free (vol_fs vol)"
    using T(4) by blast
  have size: "unat (sfi_size (sv_i sv')) \<le> max_bytes" using T(3) len by simp
  have links: "int (unat (sfi_linkcount (sv_i sv'))) = int (name_count vol (sv_ino sv)) + d (sv_ino sv)"
    using D(7) [OF G(2) p(2)] T(12) by simp
  have pool: "file_pool (vol_fs vol) sv \<subseteq> file_pool fs' sv'" using T(14) by blast
  note C = file_change [where d = d and d' = d, OF inv p T(9) ref O ok blocks pool size I T(11) _ links _ vol'_def]
  have f': "vol_fs vol' = fs'" by (simp add: vol'_def)
  have "vol_inv d vol'" "names vol' = names vol" "file_at vol' = (file_at vol)(sv_ino sv \<mapsto> abs_file (vol_fs vol') sv')"
    unfolding f' by (rule C; use T(8) in simp)+
  moreover have "on_vnode p (\<lambda>sv. sfs_itrunc sv (int len)) vol = Some (None, vol')"
    using p(1) T(1) by (simp add: on_vnode_def vol'_def)
  moreover have "\<forall>q. vn_get vol' q = (if q = p then Some sv' else vn_get vol q)"
    using put_tab(3) [OF D(1) p(1) T(9) ref vol'_def] by blast
  ultimately show ?thesis using T(3,5,9,10,12,14,15) f' by (intro exI [of _ vol'] exI [of _ sv']) simp
qed

subsection \<open>The last reference\<close>

lemma vnode_index_fs: "vnode_index n i p (vol\<lparr>vol_fs := f\<rparr>) = vnode_index n i p vol"
proof (induction n arbitrary: i)
  case (Suc n)
  have "vn_get (vol\<lparr>vol_fs := f\<rparr>) = vn_get vol" by (simp add: vn_get_def fun_eq_iff)
  then show ?case unfolding vnode_index.simps Suc.IH by simp
qed simp

text \<open>What giving up a reference leaves: gone is the inode that is erased, and its blocks are free.\<close>

definition node_blocks :: "sfs_fs \<Rightarrow> sfs_vnode \<Rightarrow> nat set" where
  "node_blocks fs sv = insert (unat (sv_ino sv)) (unat ` sv_blocks fs sv)"

definition released :: "sfs_vol \<Rightarrow> nat \<Rightarrow> sfs_vnode \<Rightarrow> sfs_vol \<Rightarrow> bool" where
  "released vol p sv vol' \<longleftrightarrow> vol_ok vol' \<and> names vol' = names vol \<and>
     (\<forall>q. vn_get vol' q = (if q = p then if sv_refcount sv = 1 then None
        else Some (sv\<lparr>sv_refcount := sv_refcount sv - 1\<rparr>) else vn_get vol q)) \<and>
     file_at vol' = (if sv_refcount sv = 1 \<and> sfi_linkcount (sv_i sv) = 0 then (file_at vol)(sv_ino sv := None) else file_at vol) \<and>
     fs_free (vol_fs vol') = fs_free (vol_fs vol) \<union>
       (if sv_refcount sv = 1 \<and> sfi_linkcount (sv_i sv) = 0 then node_blocks (vol_fs vol) sv else {})"

lemma reclaim_sync:
  assumes ok: "vol_ok vol" and p: "vn_get vol p = Some sv" "sv_refcount sv = 1"
    and empty: "sfi_linkcount (sv_i sv) = 0 \<Longrightarrow> sv_blocks (vol_fs vol) sv = {}"
  shows "\<exists>vol'. (do {
      (r2, vol2) \<leftarrow> on_vnode p sfs_sync_inode vol;
      if r2 \<noteq> None then Some (r2, vol2)
      else do {
        sv2 \<leftarrow> vn_get vol2 p;
        fs3 \<leftarrow> (if sfi_linkcount (sv_i sv2) = 0 then sfs_bfree (vol_fs vol2) (sv_ino sv2) else Some (vol_fs vol2));
        let vol3 = vol2\<lparr>vol_fs := fs3\<rparr>;
        ix \<leftarrow> vnode_index (unat (array_num (vol_vnodes vol3))) 0 p vol3;
        i \<leftarrow> ix;
        a \<leftarrow> array_remove (vol_vnodes vol3) i;
        kassert (sv_refcount sv2 = 1);
        Some (None, vol3\<lparr>vol_vnodes := a, vol_heap := (vol_heap vol3)[p := None]\<rparr>)
      } }) = Some (None, vol') \<and> released vol p sv vol'"
proof -
  have inv: "vol_inv (\<lambda>_. 0) vol" using ok by (simp add: vol_ok_def)
  let ?sv = "sv\<lparr>sv_dirty := False\<rparr>"
  obtain vol2 where S: "on_vnode p sfs_sync_inode vol = Some (None, vol2)" "vol_inv (\<lambda>_. 0) vol2" "names vol2 = names vol"
      "file_at vol2 = file_at vol" "\<forall>q. vn_get vol2 q = (if q = p then Some ?sv else vn_get vol q)"
      "dinode_of (dsk (vol_fs vol2) (unat (sv_ino sv))) = sv_i sv" "sv_blocks (vol_fs vol2) sv = sv_blocks (vol_fs vol) sv"
      "fs_free (vol_fs vol2) = fs_free (vol_fs vol)"
    using sync_inode_ok [OF inv p(1)] by blast
  have ok2: "vol_ok vol2" using S(2) by (simp add: vol_ok_def)
  have p2: "vn_get vol2 p = Some ?sv" using S(5) by simp
  note G = vol_get [OF S(2) p2] and F = files_okD [OF vol_invD(2) [OF S(2)]]
  obtain i a where X: "vnode_index (unat (array_num (vol_vnodes vol2))) 0 p vol2 = Some (Some i)"
      "array_remove (vol_vnodes vol2) i = Some a"
      "\<forall>fs' vol'. vol' = vol2\<lparr>vol_fs := fs', vol_vnodes := a, vol_heap := (vol_heap vol2)[p := None]\<rparr> \<longrightarrow>
         tab_ok vol' \<and> cached vol' = (cached vol2)(sv_ino ?sv := None) \<and>
         (\<forall>q. vn_get vol' q = (if q = p then None else vn_get vol2 q))"
    using drop_tab [OF S(2) p2] by blast
  define fin where "fin fs' = vol2\<lparr>vol_fs := fs', vol_vnodes := a, vol_heap := (vol_heap vol2)[p := None]\<rparr>" for fs'
  have tab: "tab_ok (fin fs')" "cached (fin fs') = (cached vol2)(sv_ino ?sv := None)"
    "vn_get (fin fs') q = (if q = p then None else vn_get vol2 q)" for fs' q
    using X(3) fin_def by blast+
  have get: "\<forall>q. vn_get (fin fs') q = (if q = p then None else vn_get vol q)" for fs' using tab(3) S(5) by auto
  have run: "(do {
      (r2, vol2) \<leftarrow> on_vnode p sfs_sync_inode vol;
      if r2 \<noteq> None then Some (r2, vol2)
      else do {
        sv2 \<leftarrow> vn_get vol2 p;
        fs3 \<leftarrow> (if sfi_linkcount (sv_i sv2) = 0 then sfs_bfree (vol_fs vol2) (sv_ino sv2) else Some (vol_fs vol2));
        let vol3 = vol2\<lparr>vol_fs := fs3\<rparr>;
        ix \<leftarrow> vnode_index (unat (array_num (vol_vnodes vol3))) 0 p vol3;
        i \<leftarrow> ix;
        a \<leftarrow> array_remove (vol_vnodes vol3) i;
        kassert (sv_refcount sv2 = 1);
        Some (None, vol3\<lparr>vol_vnodes := a, vol_heap := (vol_heap vol3)[p := None]\<rparr>)
      } }) = do {
        fs3 \<leftarrow> (if sfi_linkcount (sv_i sv) = 0 then sfs_bfree (vol_fs vol2) (sv_ino sv) else Some (vol_fs vol2));
        Some (None, fin fs3) }"
    using S(1) p2 X(1,2) p(2) by (simp add: vnode_index_fs Let_def fin_def)
  show ?thesis
  proof (cases "sfi_linkcount (sv_i sv) = 0")
    case False
    have "sfi_linkcount (sv_i ?sv) \<noteq> 0" "dinode_of (dsk (vol_fs vol2) (unat (sv_ino ?sv))) = sv_i ?sv"
      "vol_fs (fin (vol_fs vol2)) = vol_fs vol2" using False S(6) by (simp_all add: fin_def)
    note E = evict_change [OF ok2 p2 this(1,2) tab(1,2) this(3)]
    have "vol_fs (fin (vol_fs vol2)) = vol_fs vol2" by (simp add: fin_def)
    then have "released vol p sv (fin (vol_fs vol2))" using E get False p(2) S(3,4,8) by (simp add: released_def)
    then show ?thesis unfolding run using False by simp
  next
    case True
    have b: "0 < sv_ino sv" "unat (sv_ino sv) < nblk (vol_fs vol2)" "unat (sv_ino sv) \<notin> fs_free (vol_fs vol2)"
      using G(3) word_neq_0_conv by (auto simp: inode_ok_def)
    obtain fs3 where B: "sfs_bfree (vol_fs vol2) (sv_ino sv) = Some fs3" "fs_ok fs3" "fs_same (vol_fs vol2) fs3"
        "dsk fs3 = dsk (vol_fs vol2)" "fs_free fs3 = insert (unat (sv_ino sv)) (fs_free (vol_fs vol2))"
      using bfree_ok [OF F(1) b] by blast
    have v: "vol_fs (fin fs3) = fs3" by (simp add: fin_def)
    have "sv_blocks (vol_fs vol2) ?sv = sv_blocks (vol_fs vol2) sv" by (rule alike_file(2)) simp
    then have "sfi_linkcount (sv_i ?sv) = 0" "sv_blocks (vol_fs vol2) ?sv = {}" "fs_same (vol_fs vol2) (vol_fs (fin fs3))" "fs_ok (vol_fs (fin fs3))"
      "dsk (vol_fs (fin fs3)) = dsk (vol_fs vol2)"
      "fs_free (vol_fs (fin fs3)) = insert (unat (sv_ino ?sv)) (fs_free (vol_fs vol2))"
      using True B S(7) empty by (simp_all add: v)
    note E = erase_change [OF ok2 p2 this tab(1,2)]
    have "released vol p sv (fin fs3)" using E get True p(2) S(3,4,8) B(5) empty [OF True] by (simp add: released_def node_blocks_def v)
    then show ?thesis unfolding run using True B(1) by simp
  qed
qed

lemma reclaim_ok:
  assumes ok: "vol_ok vol" and p: "vn_get vol p = Some sv" "sv_refcount sv = 1"
  shows "\<exists>vol'. sfs_reclaim p vol = Some (None, vol') \<and> released vol p sv vol'"
proof (cases "sfi_linkcount (sv_i sv) = 0")
  case False
  then show ?thesis using reclaim_sync [OF ok p] False p unfolding sfs_reclaim_def by simp
next
  case True
  have inv: "vol_inv (\<lambda>_. 0) vol" using ok by (simp add: vol_ok_def)
  have "sv_ino sv \<noteq> 1"
  proof
    assume "sv_ino sv = 1"
    then have "root_node vol = sv" using vol_get(1) [OF inv p(1)] by (simp add: root_node_def)
    then show False using vol_invD(5) [OF inv] True by simp
  qed
  from trunc_change [OF inv p(1) this, of 0] obtain vol1 sv1 where
    T: "on_vnode p (\<lambda>sv. sfs_itrunc sv (int 0)) vol = Some (None, vol1)" "vol_inv (\<lambda>_. 0) vol1" "names vol1 = names vol"
      "\<forall>q. vn_get vol1 q = (if q = p then Some sv1 else vn_get vol q)"
      "file_at vol1 = (file_at vol)(sv_ino sv \<mapsto> abs_file (vol_fs vol1) sv1)" "sv_ino sv1 = sv_ino sv" "sv_refcount sv1 = sv_refcount sv"
      "sfi_linkcount (sv_i sv1) = sfi_linkcount (sv_i sv)" "sv_blocks (vol_fs vol1) sv1 = {}"
      "fs_free (vol_fs vol1) = fs_free (vol_fs vol) \<union> unat ` sv_blocks (vol_fs vol) sv" by auto
  have ok1: "vol_ok vol1" and p1: "vn_get vol1 p = Some sv1" "sv_refcount sv1 = 1" using T p by (simp_all add: vol_ok_def)
  obtain vol' where R: "released vol1 p sv1 vol'" and run: "sfs_reclaim p vol = Some (None, vol')"
    using reclaim_sync [OF ok1 p1 T(9)] p True T(1) unfolding sfs_reclaim_def by auto
  have "released vol p sv vol'" using R T p True by (auto simp: released_def node_blocks_def)
  then show ?thesis using run by blast
qed

lemma decref_ok:
  assumes ok: "vol_ok vol" and p: "vn_get vol p = Some sv"
  shows "\<exists>vol'. vnode_decref p vol = Some vol' \<and> released vol p sv vol'"
proof -
  have inv: "vol_inv (\<lambda>_. 0) vol" using ok by (simp add: vol_ok_def)
  have pos: "0 < sv_refcount sv" by (rule tab_okD(5) [OF vol_invD(1) [OF inv] p])
  show ?thesis
  proof (cases "sv_refcount sv = 1")
    case True
    then show ?thesis using reclaim_ok [OF ok p True] p by (auto simp: vnode_decref_def)
  next
    case False
    define vol' where "vol' = vn_put p (sv\<lparr>sv_refcount := sv_refcount sv - 1\<rparr>) vol"
    have "0 < sv_refcount sv - 1" using pos False by simp
    note R = ref_change [OF inv p refl this vol'_def]
    have "vol_fs vol' = vol_fs vol" by (simp add: vol'_def)
    moreover have "vnode_decref p vol = Some vol'" using p pos False by (simp add: vnode_decref_def vol'_def)
    ultimately show ?thesis using R False by (simp add: released_def vol_ok_def)
  qed
qed

end
