(* ===== verification/Sfsvnops.thy ===== *)
theory Sfsvnops
  imports Sfsreclaim
begin

text \<open>
  The directory operations of kern/fs/sfs/sfs_vnops.c on a volume. A volume is a map from names to
  inode numbers and a map from inode numbers to files; creating, linking, removing, renaming
  and looking up are updates of the two, they fail only for the reasons listed, and
  none of them halts the kernel.
\<close>

subsection \<open>The operations of directories: kern/fs/sfs/sfs_vnops.c\<close>

definition mod_vnode :: "nat \<Rightarrow> (sfs_vnode \<Rightarrow> sfs_vnode) \<Rightarrow> sfs_vol \<Rightarrow> sfs_vol option" where
  "mod_vnode p f vol = do { sv \<leftarrow> vn_get vol p; Some (vn_put p (f sv) vol) }"

text \<open>The link count of an inode goes up or down, and the inode is marked dirty.\<close>

definition link_more :: "sfs_vnode \<Rightarrow> sfs_vnode" where
  "link_more sv = (set_inode (sfi_linkcount_update (\<lambda>n. n + 1)) sv)\<lparr>sv_dirty := True\<rparr>"

definition link_less :: "nat \<Rightarrow> sfs_vol \<Rightarrow> sfs_vol option" where
  "link_less p vol = do {
     sv \<leftarrow> vn_get vol p;
     kassert (sfi_linkcount (sv_i sv) > 0);
     Some (vn_put p ((set_inode (sfi_linkcount_update (\<lambda>n. n - 1)) sv)\<lparr>sv_dirty := True\<rparr>) vol)
   }"

definition sfs_creat :: "nat \<Rightarrow> u8 list \<Rightarrow> bool \<Rightarrow> sfs_vol \<Rightarrow> ((errno + nat) \<times> sfs_vol) option" where
  "sfs_creat v nm excl vol = do {
     ((r, found, _), vol1) \<leftarrow> on_vnode v (\<lambda>sv. sfs_dir_findname sv nm (-1)) vol;
     if r \<noteq> None \<and> r \<noteq> Some ENOENT then Some (Inl (the r), vol1)
     else if r = None \<and> excl then Some (Inl EEXIST, vol1)
     else if r = None
     then do { (ino, _) \<leftarrow> found; sfs_loadvnode ino SFS_TYPE_INVAL vol1 }
     else do {
       (r2, vol2) \<leftarrow> sfs_makeobj SFS_TYPE_FILE vol1;
       (case r2 of
          Inl e \<Rightarrow> Some (Inl e, vol2)
        | Inr newguy \<Rightarrow> do {
            n \<leftarrow> vn_get vol2 newguy;
            (r3, vol3) \<leftarrow> on_vnode v (\<lambda>sv. sfs_dir_link sv nm (sv_ino n)) vol2;
            (case r3 of
               Inl e \<Rightarrow> do { vol4 \<leftarrow> vnode_decref newguy vol3; Some (Inl e, vol4) }
             | Inr _ \<Rightarrow> do { vol4 \<leftarrow> mod_vnode newguy link_more vol3; Some (Inr newguy, vol4) })
          })
     }
   }"

definition sfs_link :: "nat \<Rightarrow> u8 list \<Rightarrow> nat \<Rightarrow> sfs_vol \<Rightarrow> (status \<times> sfs_vol) option" where
  "sfs_link dir nm file vol = do {
     f \<leftarrow> vn_get vol file;
     if sfi_type (sv_i f) = SFS_TYPE_DIR then Some (Some EINVAL, vol)
     else do {
       (r, vol1) \<leftarrow> on_vnode dir (\<lambda>sv. sfs_dir_link sv nm (sv_ino f)) vol;
       (case r of
          Inl e \<Rightarrow> Some (Some e, vol1)
        | Inr _ \<Rightarrow> do { vol2 \<leftarrow> mod_vnode file link_more vol1; Some (None, vol2) })
     }
   }"

definition sfs_remove :: "nat \<Rightarrow> u8 list \<Rightarrow> sfs_vol \<Rightarrow> (status \<times> sfs_vol) option" where
  "sfs_remove dir nm vol = do {
     (r, vol1) \<leftarrow> sfs_lookonce dir nm vol;
     (case r of
        Inl e \<Rightarrow> Some (Some e, vol1)
      | Inr (victim, slot) \<Rightarrow> do {
          (r2, vol2) \<leftarrow> on_vnode dir (\<lambda>sv. sfs_dir_unlink sv slot) vol1;
          vol3 \<leftarrow> (if r2 = None then link_less victim vol2 else Some vol2);
          vol4 \<leftarrow> vnode_decref victim vol3;
          Some (r2, vol4)
        })
   }"

text \<open>The exits of sfs_rename: puke, and puke_harder when the old slot could not be unlinked.\<close>

definition rename_puke :: "nat \<Rightarrow> errno \<Rightarrow> sfs_vol \<Rightarrow> (status \<times> sfs_vol) option" where
  "rename_puke g1 e vol = do { vol1 \<leftarrow> vnode_decref g1 vol; Some (Some e, vol1) }"

definition rename_puke_harder :: "nat \<Rightarrow> nat \<Rightarrow> int \<Rightarrow> errno \<Rightarrow> sfs_vol \<Rightarrow> (status \<times> sfs_vol) option" where
  "rename_puke_harder d1 g1 slot2 e vol = do {
     (r2, vol1) \<leftarrow> on_vnode d1 (\<lambda>sv. sfs_dir_unlink sv slot2) vol;
     kassert (r2 = None);
     vol2 \<leftarrow> mod_vnode g1 (set_inode (sfi_linkcount_update (\<lambda>n. n - 1))) vol1;
     rename_puke g1 e vol2
   }"

definition sfs_rename :: "nat \<Rightarrow> u8 list \<Rightarrow> nat \<Rightarrow> u8 list \<Rightarrow> sfs_vol \<Rightarrow> (status \<times> sfs_vol) option" where
  "sfs_rename d1 n1 d2 n2 vol = do {
     kassert (d1 = d2);
     sv \<leftarrow> vn_get vol d1;
     kassert (sv_ino sv = SFS_ROOTDIR_INO);
     (r, vol1) \<leftarrow> sfs_lookonce d1 n1 vol;
     (case r of
        Inl e \<Rightarrow> Some (Some e, vol1)
      | Inr (g1, slot1) \<Rightarrow> do {
          g \<leftarrow> vn_get vol1 g1;
          kassert (sfi_type (sv_i g) = SFS_TYPE_FILE);
          (r2, vol2) \<leftarrow> on_vnode d1 (\<lambda>sv. sfs_dir_link sv n2 (sv_ino g)) vol1;
          (case r2 of
             Inl e \<Rightarrow> rename_puke g1 e vol2
           | Inr slot2 \<Rightarrow> do {
               vol3 \<leftarrow> mod_vnode g1 link_more vol2;
               (r4, vol4) \<leftarrow> on_vnode d1 (\<lambda>sv. sfs_dir_unlink sv slot1) vol3;
               (case r4 of
                  Some e \<Rightarrow> rename_puke_harder d1 g1 slot2 e vol4
                | None \<Rightarrow> do {
                    vol5 \<leftarrow> link_less g1 vol4;
                    vol6 \<leftarrow> vnode_decref g1 vol5;
                    Some (None, vol6)
                  })
             })
        })
   }"

text \<open>There are no subdirectories: the path is the last component.\<close>

definition sfs_lookparent :: "nat \<Rightarrow> u8 list \<Rightarrow> nat \<Rightarrow> sfs_vol \<Rightarrow> ((errno + nat \<times> u8 list) \<times> sfs_vol) option" where
  "sfs_lookparent v path buflen vol = do {
     sv \<leftarrow> vn_get vol v;
     if sfi_type (sv_i sv) \<noteq> SFS_TYPE_DIR then Some (Inl ENOTDIR, vol)
     else if length path + 1 > buflen then Some (Inl ENAMETOOLONG, vol)
     else do { vol1 \<leftarrow> vnode_incref v vol; Some (Inr (v, path), vol1) }
   }"

definition sfs_lookup :: "nat \<Rightarrow> u8 list \<Rightarrow> sfs_vol \<Rightarrow> ((errno + nat) \<times> sfs_vol) option" where
  "sfs_lookup v path vol = do {
     sv \<leftarrow> vn_get vol v;
     if sfi_type (sv_i sv) \<noteq> SFS_TYPE_DIR then Some (Inl ENOTDIR, vol)
     else do {
       (r, vol1) \<leftarrow> sfs_lookonce v path vol;
       Some ((case r of Inl e \<Rightarrow> Inl e | Inr (final, _) \<Rightarrow> Inr final), vol1)
     }
   }"

subsection \<open>The slots of the directory\<close>

definition slot_of :: "sfs_vol \<Rightarrow> u8 list \<Rightarrow> nat option" where
  "slot_of vol nm = lookup_slot (dir_slots (vol_fs vol) (root_node vol)) nm"

text \<open>The vnode at v is that of the directory.\<close>

definition is_dir :: "sfs_vol \<Rightarrow> nat \<Rightarrow> sfs_vnode \<Rightarrow> bool" where
  "is_dir vol v sv \<longleftrightarrow> vn_get vol v = Some sv \<and> sv_ino sv = SFS_ROOTDIR_INO"

lemma is_dirD:
  assumes "vol_inv d vol" "is_dir vol v sv"
  shows "vn_get vol v = Some sv" "sv_ino sv = 1" "root_node vol = sv" "sfi_type (sv_i sv) = SFS_TYPE_DIR" "cached vol 1 = Some sv"
    "names vol = dir_map (vol_fs vol) sv" "dir_ok (vol_fs vol) sv"
proof -
  show g: "vn_get vol v = Some sv" "sv_ino sv = 1" using assms(2) by (simp_all add: is_dir_def)
  show c: "cached vol 1 = Some sv" using vol_get(1) [OF assms(1) g(1)] g(2) by simp
  then show r: "root_node vol = sv" by (simp add: root_node_def)
  show "names vol = dir_map (vol_fs vol) sv" by (simp add: names_def r)
  show k: "dir_ok (vol_fs vol) sv" using vol_invD(3) [OF assms(1)] r by simp
  show "sfi_type (sv_i sv) = SFS_TYPE_DIR" by (rule dir_formD(6) [OF dir_okD(1) [OF k]])
qed

lemma names_slot:
  "names vol nm = Some ino \<Longrightarrow> \<exists>i. slot_of vol nm = Some i \<and> sfd_ino (dir_slots (vol_fs vol) (root_node vol) ! i) = ino"
  "names vol nm = None \<longleftrightarrow> slot_of vol nm = None"
  by (auto simp: names_def dir_map_def slots_map_def slot_of_def)

lemma name_count_le:
  assumes "vol_inv d vol" shows "name_count vol i \<le> 1144"
proof -
  let ?es = "dir_slots (vol_fs vol) (root_node vol)"
  have "{nm. names vol nm = Some i} \<subseteq> sd_name ` set ?es"
  proof
    fix nm assume "nm \<in> {nm. names vol nm = Some i}"
    then obtain j where "find_idx (sd_is nm) ?es = Some j"
      by (auto simp: names_def dir_map_def slots_map_def lookup_slot_def)
    then have "j < length ?es" "sd_is nm (?es ! j)" by (simp_all add: find_idx_Some)
    then show "nm \<in> sd_name ` set ?es" by (auto simp: sd_is_def intro!: image_eqI [of _ _ "?es ! j"])
  qed
  then have "name_count vol i \<le> card (sd_name ` set ?es)" unfolding name_count_def by (intro card_mono) simp_all
  also have "\<dots> \<le> length ?es" using card_image_le card_length le_trans by (metis List.finite_set)
  also have "\<dots> \<le> 1144" using dir_formD(4) [OF dir_okD(1) [OF vol_invD(3) [OF assms]]] by simp
  finally show ?thesis .
qed

lemma unchanged_dir:
  assumes "vol_inv d vol" "unchanged d vol vol'"
  shows "is_dir vol' v sv = is_dir vol v sv" "slot_of vol' = slot_of vol"
proof -
  show "is_dir vol' v sv = is_dir vol v sv" using assms(2) by (simp add: is_dir_def unchanged_def)
  have "nodes vol' = nodes vol" "fs_quiet (vol_fs vol) (vol_fs vol')" using assms(2) by (simp_all add: unchanged_def)
  then have "root_node vol' = root_node vol" using nodes_root [of vol] nodes_root [of vol'] by simp
  then show "slot_of vol' = slot_of vol" using dir_map_quiet(1) [OF \<open>fs_quiet _ _\<close>] by (simp add: slot_of_def fun_eq_iff)
qed

lemma grabbed_dir:
  assumes "vol_inv d vol" "grabbed d vol ino p vol'" "ino \<noteq> 1" "is_dir vol v sv"
  shows "is_dir vol' v sv" "dir_slots (vol_fs vol') (root_node vol') = dir_slots (vol_fs vol) (root_node vol)"
    "slot_of vol' = slot_of vol" "p \<noteq> v"
proof -
  note D = is_dirD [OF assms(1,4)]
  have g: "vol_inv d vol'" "\<forall>q. q \<noteq> p \<longrightarrow> vn_get vol' q = vn_get vol q" "fs_quiet (vol_fs vol) (vol_fs vol')"
    using assms(2) by (simp_all add: grabbed_def)
  have "\<And>b. vn_get vol p = Some b \<Longrightarrow> sv_ino b = ino" using assms(2) by (simp add: grabbed_def)
  then show "p \<noteq> v" using D(1,2) assms(3) by auto
  then show d': "is_dir vol' v sv" using g(2) assms(4) by (simp add: is_dir_def)
  show e: "dir_slots (vol_fs vol') (root_node vol') = dir_slots (vol_fs vol) (root_node vol)"
    using dir_map_quiet(1) [OF g(3)] D(3) is_dirD(3) [OF g(1) d'] by simp
  then show "slot_of vol' = slot_of vol" by (simp add: slot_of_def fun_eq_iff)
qed

text \<open>Why a name cannot be added.\<close>

definition dir_full :: "sfs_vol \<Rightarrow> bool" where
  "dir_full vol \<longleftrightarrow> length (dir_slots (vol_fs vol) (root_node vol)) = 1144"

definition link_error :: "errno \<Rightarrow> u8 list \<Rightarrow> sfs_vol \<Rightarrow> sfs_vol \<Rightarrow> bool" where
  "link_error e nm vol vol' \<longleftrightarrow>
     (if names vol nm \<noteq> None then e = EEXIST
      else if 60 \<le> length nm then e = ENAMETOOLONG
      else e = EFBIG \<and> dir_full vol \<or> e = ENOSPC \<and> card (fs_free (vol_fs vol')) < 2)"

subsection \<open>Names come and go\<close>

lemma vnode_link:
  assumes ok: "vol_ok vol" and dir: "is_dir vol v sv" and f: "cached vol ino = Some f" "ino \<noteq> 1" and nm: "0 \<notin> set nm"
  shows "\<exists>r vol' sv'. on_vnode v (\<lambda>sv. sfs_dir_link sv nm ino) vol = Some (r, vol') \<and> file_at vol' = file_at vol \<and>
    is_dir vol' v sv' \<and> sv_refcount sv' = sv_refcount sv \<and> (\<forall>q. q \<noteq> v \<longrightarrow> vn_get vol' q = vn_get vol q) \<and>
    (case r of
       Inr slot \<Rightarrow> \<exists>i. slot = int i \<and> names vol nm = None \<and> length nm + 1 \<le> 60 \<and> names vol' = (names vol)(nm \<mapsto> ino) \<and>
         vol_inv ((\<lambda>_. 0)(ino := -1)) vol' \<and> slot_of vol' nm = Some i \<and> (\<forall>k j. slot_of vol k = Some j \<longrightarrow> slot_of vol' k = Some j)
     | Inl e \<Rightarrow> vol_ok vol' \<and> names vol' = names vol \<and> link_error e nm vol vol')"
proof -
  have inv: "vol_inv (\<lambda>_. 0) vol" using ok by (simp add: vol_ok_def)
  note D = vol_invD [OF inv] and R = is_dirD [OF inv dir] and T = tab_okD [OF vol_invD(1) [OF inv]]
  define es where "es = dir_slots (vol_fs vol) sv"
  have un: "names_unique es" using R(7) by (simp add: dir_ok_def es_def)
  have nms: "names vol = slots_map es" using R(6) by (simp add: dir_map_def es_def)
  have ino: "ino \<noteq> 0" using files_okD(3) [OF D(2) nodes_cached [OF f(1)]] by (simp add: inode_ok_def)
  obtain r sv' fs' where L: "sfs_dir_link sv nm ino (vol_fs vol) = Some (r, sv', fs')" "file_step (vol_fs vol) sv fs' sv'"
      "sv_kept sv sv'" "dir_ok fs' sv'"
      "case r of
         Inr slot \<Rightarrow> \<exists>i. slot = int i \<and> slots_map es nm = None \<and> length nm + 1 \<le> 60 \<and> linked_at nm ino i es (dir_slots fs' sv')
       | Inl e \<Rightarrow> dir_slots fs' sv' = es \<and>
         (if slots_map es nm \<noteq> None then e = EEXIST
          else if 60 \<le> length nm then e = ENAMETOOLONG
          else e = EFBIG \<and> length es = 1144 \<or> e = ENOSPC \<and> card (fs_free fs') < 2)"
    using dir_link_ok [OF R(7) ino nm es_def] by blast
  define vol' where "vol' = vn_put v sv' (vol\<lparr>vol_fs := fs'\<rparr>)"
  have run: "on_vnode v (\<lambda>sv. sfs_dir_link sv nm ino) vol = Some (r, vol')"
    using R(1) L(1) by (simp add: on_vnode_def vol'_def)
  have K: "sv_ino sv' = 1" "0 < sv_refcount sv'" "sfi_waste (sv_i sv') = sfi_waste (sv_i sv)" "sfi_type (sv_i sv') = sfi_type (sv_i sv)"
      "sfi_linkcount (sv_i sv') = sfi_linkcount (sv_i sv)" "touched sv sv'" "sv_refcount sv' = sv_refcount sv"
    using L(3) R(2) T(5) [OF R(1)] by (simp_all add: sv_kept_def)
  have "sv_ino sv' = sv_ino sv" using K(1) R(2) by simp
  note P = put_tab(2,3) [OF D(1) R(1) this K(2) vol'_def]
  have dir': "is_dir vol' v sv'" using P(2) K(1) by (simp add: is_dir_def)
  have others: "\<forall>q. q \<noteq> v \<longrightarrow> vn_get vol' q = vn_get vol q" using P(2) by simp
  have f': "vol_fs vol' = fs'" by (simp add: vol'_def)
  have root': "root_node vol' = sv'" using P(1) R(2) by (simp add: root_node_def)
  have slots: "slot_of vol' k = lookup_slot (dir_slots fs' sv') k" "slot_of vol k = lookup_slot es k" for k
    using f' by (simp_all add: slot_of_def root' R(3) es_def)
  note C = dir_change [OF inv R(1,2) K(1,2) L(2) K(3-6) L(4) refl _ _ _ vol'_def]
  show ?thesis
  proof (cases r)
    case (Inl e)
    then have s: "dir_slots fs' sv' = es" using L(5) by simp
    then have m: "dir_map fs' sv' = names vol" by (simp add: dir_map_def nms)
    have C': "vol_inv (\<lambda>_. 0) vol'" "names vol' = names vol" "file_at vol' = file_at vol"
      using C(1,2,4) [of "\<lambda>_. 0"] D(4,7) unfolding m name_count_def by simp_all
    have "link_error e nm vol vol'" using L(5) Inl unfolding link_error_def dir_full_def nms R(3) es_def [symmetric]
      by (simp add: vol'_def)
    then show ?thesis using run C' dir' K(7) others Inl by (intro exI [of _ r] exI [of _ vol'] exI [of _ sv']) (simp add: vol_ok_def)
  next
    case (Inr slot)
    then obtain i where i: "slot = int i" "slots_map es nm = None" "length nm + 1 \<le> 60" "linked_at nm ino i es (dir_slots fs' sv')"
      using L(5) by auto
    note F = linked_at_facts [OF i(4) un i(2,3) nm ino]
    have m: "dir_map fs' sv' = (names vol)(nm \<mapsto> ino)" using F(2) by (simp add: dir_map_def nms)
    have fresh: "names vol nm = None" using i(2) by (simp add: nms)
    have ran: "ran (dir_map fs' sv') = insert ino (ran (names vol))" using fresh by (simp add: m)
    have l: "int (unat (sfi_linkcount (sv_i b))) = int (card {k. dir_map fs' sv' k = Some j}) + ((\<lambda>_. 0)(ino := -1)) j"
      if "nodes vol j = Some b" "j \<noteq> 1" for j b
    proof (cases "j = ino")
      case True
      have "{k. dir_map fs' sv' k = Some ino} = insert nm {k. names vol k = Some ino}" using fresh by (auto simp: m)
      then have "card {k. dir_map fs' sv' k = Some ino} = Suc (card {k. names vol k = Some ino})"
        using fresh finite_names [of vol ino] by simp
      then show ?thesis using D(7) [OF that] True by (simp add: name_count_def)
    next
      case False
      then have "{k. dir_map fs' sv' k = Some j} = {k. names vol k = Some j}" using fresh by (auto simp: m)
      then show ?thesis using D(7) [OF that] False by (simp add: name_count_def)
    qed
    have c1: "1 \<notin> ran (dir_map fs' sv')" using D(4) f(2) unfolding ran by simp
    have c2: "\<And>j. cached vol j = None \<Longrightarrow> j \<in> ran (dir_map fs' sv') \<longleftrightarrow> j \<in> ran (names vol)" using f(1) unfolding ran by auto
    have C': "vol_inv ((\<lambda>_. 0)(ino := -1)) vol'" "names vol' = (names vol)(nm \<mapsto> ino)" "file_at vol' = file_at vol"
      unfolding m [symmetric] by (rule C(1) [OF c1 c2 l], assumption+) (rule C(2,4) [OF c1 c2 l]; assumption)+
    have "slot_of vol' nm = Some i" "\<forall>k j. slot_of vol k = Some j \<longrightarrow> slot_of vol' k = Some j"
      using F(4,5) by (simp_all add: slots)
    then show ?thesis using run C' dir' K(7) others Inr i(1,3) fresh
      by (intro exI [of _ r] exI [of _ vol'] exI [of _ sv']) simp
  qed
qed

lemma vnode_unlink:
  assumes inv: "vol_inv d vol" and dir: "is_dir vol v sv" and slot: "slot_of vol nm = Some i"
    and f: "names vol nm = Some ino" "cached vol ino = Some f"
  shows "\<exists>vol' sv'. on_vnode v (\<lambda>sv. sfs_dir_unlink sv (int i)) vol = Some (None, vol') \<and> file_at vol' = file_at vol \<and>
    is_dir vol' v sv' \<and> sv_refcount sv' = sv_refcount sv \<and> (\<forall>q. q \<noteq> v \<longrightarrow> vn_get vol' q = vn_get vol q) \<and>
    names vol' = (names vol)(nm := None) \<and> vol_inv (d(ino := d ino + 1)) vol' \<and>
    (\<forall>j b. nodes vol j = Some b \<longrightarrow> j \<noteq> 1 \<longrightarrow> sv_blocks (vol_fs vol') b = sv_blocks (vol_fs vol) b)"
proof -
  note D = vol_invD [OF inv] and R = is_dirD [OF inv dir] and T = tab_okD [OF vol_invD(1) [OF inv]]
  define es where "es = dir_slots (vol_fs vol) sv"
  have nms: "names vol = slots_map es" using R(6) by (simp add: dir_map_def es_def)
  have look: "lookup_slot es nm = Some i" using slot by (simp add: slot_of_def R(3) es_def)
  obtain sv' fs' where L: "sfs_dir_unlink sv (int i) (vol_fs vol) = Some (None, sv', fs')" "file_step (vol_fs vol) sv fs' sv'"
      "sv_kept sv sv'" "dir_ok fs' sv'" "slots_map (dir_slots fs' sv') = (slots_map es)(nm := None)"
    using dir_unlink_ok [OF R(7) es_def look] by blast
  define vol' where "vol' = vn_put v sv' (vol\<lparr>vol_fs := fs'\<rparr>)"
  have run: "on_vnode v (\<lambda>sv. sfs_dir_unlink sv (int i)) vol = Some (None, vol')"
    using R(1) L(1) by (simp add: on_vnode_def vol'_def)
  have K: "sv_ino sv' = 1" "0 < sv_refcount sv'" "sfi_waste (sv_i sv') = sfi_waste (sv_i sv)" "sfi_type (sv_i sv') = sfi_type (sv_i sv)"
      "sfi_linkcount (sv_i sv') = sfi_linkcount (sv_i sv)" "touched sv sv'" "sv_refcount sv' = sv_refcount sv"
    using L(3) R(2) T(5) [OF R(1)] by (simp_all add: sv_kept_def)
  have "sv_ino sv' = sv_ino sv" using K(1) R(2) by simp
  note P = put_tab(2,3) [OF D(1) R(1) this K(2) vol'_def]
  have dir': "is_dir vol' v sv'" using P(2) K(1) by (simp add: is_dir_def)
  have others: "\<forall>q. q \<noteq> v \<longrightarrow> vn_get vol' q = vn_get vol q" using P(2) by simp
  note C = dir_change [OF inv R(1,2) K(1,2) L(2) K(3-6) L(4) refl _ _ _ vol'_def]
  have m: "dir_map fs' sv' = (names vol)(nm := None)" using L(5) by (simp add: dir_map_def nms)
  have ran: "j \<in> ran (dir_map fs' sv') \<longleftrightarrow> j \<in> ran (names vol)" if "j \<noteq> ino" for j
    using that f(1) by (auto simp: m ran_def) (metis option.inject)
  have ino1: "ino \<noteq> 1" using D(4) f(1) by (auto simp: ran_def)
  have l: "int (unat (sfi_linkcount (sv_i b))) = int (card {k. dir_map fs' sv' k = Some j}) + (d(ino := d ino + 1)) j"
    if "nodes vol j = Some b" "j \<noteq> 1" for j b
  proof (cases "j = ino")
    case True
    have "{k. names vol k = Some ino} = insert nm {k. dir_map fs' sv' k = Some ino}" using f(1) by (auto simp: m)
    moreover have "finite {k. dir_map fs' sv' k = Some ino}"
      by (rule finite_subset [OF _ finite_names [of vol ino]]) (auto simp: m)
    ultimately have "card {k. names vol k = Some ino} = Suc (card {k. dir_map fs' sv' k = Some ino})" by (simp add: m)
    then show ?thesis using D(7) [OF that] True by (simp add: name_count_def)
  next
    case False
    then have "{k. dir_map fs' sv' k = Some j} = {k. names vol k = Some j}" using f(1) by (auto simp: m)
    then show ?thesis using D(7) [OF that] False by (simp add: name_count_def)
  qed
  have c1: "1 \<notin> ran (dir_map fs' sv')" using ran [of 1] ino1 D(4) by simp
  have c2: "\<And>j. cached vol j = None \<Longrightarrow> j \<in> ran (dir_map fs' sv') \<longleftrightarrow> j \<in> ran (names vol)" using f(2) by (intro ran) auto
  have C': "vol_inv (d(ino := d ino + 1)) vol'" "names vol' = (names vol)(nm := None)" "file_at vol' = file_at vol"
    unfolding m [symmetric] by (rule C(1) [OF c1 c2 l], assumption+) (rule C(2,4) [OF c1 c2 l]; assumption)+
  have "fs_same (vol_fs vol) fs'" "fs_frame (sv_blocks (vol_fs vol) sv) (vol_fs vol) fs'" using L(2) by (simp_all add: file_step_iff)
  note others_keptD(3) [OF frame_others [OF D(2) vol_get(2) [OF inv R(1)] this]]
  then have "\<forall>j b. nodes vol j = Some b \<longrightarrow> j \<noteq> 1 \<longrightarrow> sv_blocks (vol_fs vol') b = sv_blocks (vol_fs vol) b"
    using R(2) by (simp add: file_kept_def vol'_def)
  then show ?thesis using run dir' K(7) others C' by (intro exI [of _ vol'] exI [of _ sv']) simp
qed

text \<open>The link count of a file is set, and its inode marked dirty.\<close>

lemma link_change:
  assumes inv: "vol_inv d vol" and p: "vn_get vol p = Some sv" "sv_ino sv \<noteq> 1"
    and n: "int (unat n) = int (name_count vol (sv_ino sv)) + d' (sv_ino sv)" "\<And>j. j \<noteq> sv_ino sv \<Longrightarrow> d' j = d j"
    and sv': "sv' = (set_inode (sfi_linkcount_update (\<lambda>_. n)) sv)\<lparr>sv_dirty := True\<rparr>" and vol': "vol' = vn_put p sv' vol"
  shows "vol_inv d' vol'" "names vol' = names vol" "file_at vol' = file_at vol"
    "vn_get vol' q = (if q = p then Some sv' else vn_get vol q)"
proof -
  note D = vol_invD [OF inv] and G = vol_get [OF inv p(1)] and T = tab_okD [OF vol_invD(1) [OF inv]]
  have v: "vol' = vn_put p sv' (vol\<lparr>vol_fs := vol_fs vol\<rparr>)" using vol' by simp
  have S: "sv_ino sv' = sv_ino sv" "0 < sv_refcount sv'" "unat (sfi_size (sv_i sv')) \<le> max_bytes" "length (sfi_waste (sv_i sv')) = 110"
      "sfi_type (sv_i sv') = sfi_type (sv_i sv)" "sv_dirty sv'" "sfi_linkcount (sv_i sv') = n"
    using G(3) T(5) [OF p(1)] by (simp_all add: sv' set_inode_def inode_ok_def)
  have tab: "ftab (vol_fs vol) sv' = ftab (vol_fs vol) sv" by (simp add: sv' set_inode_def ftab_def indtab_def)
  have fb: "fbyte (vol_fs vol) sv' = fbyte (vol_fs vol) sv" by (intro ext) (simp add: fbyte_def tab)
  have abs: "abs_file (vol_fs vol) sv' = abs_file (vol_fs vol) sv" unfolding abs_file_def fb by (simp add: sv' set_inode_def)
  have blocks: "sv_blocks (vol_fs vol) sv' = sv_blocks (vol_fs vol) sv" unfolding sv_blocks_def tab by (simp add: sv' set_inode_def)
  have ok: "sv_ok (vol_fs vol) sv'" using G(3) unfolding inode_ok_def sv_ok_def blocks tab by (simp add: sv' set_inode_def)
  have O: "others_kept (vol_fs vol) (vol_fs vol) (nodes vol) (sv_ino sv)"
    by (rule frame_others [OF D(2) G(2)]) (simp_all add: fs_frame_def)
  note C = file_change [where d = d and d' = d', OF inv p S(1,2) O files_okD(1) [OF D(2)] ok _ _ S(3-5) _ _ n(2) v]
  have s: "unat ` sv_blocks (vol_fs vol) sv' \<subseteq> unat ` sv_blocks (vol_fs vol) sv \<union> fs_free (vol_fs vol)" by (simp add: blocks)
  have pl: "file_pool (vol_fs vol) sv \<subseteq> file_pool (vol_fs vol) sv'" by (simp add: blocks)
  have l: "int (unat (sfi_linkcount (sv_i sv'))) = int (name_count vol (sv_ino sv)) + d' (sv_ino sv)" using n(1) S(7) by simp
  show "vol_inv d' vol'" "names vol' = names vol" by (rule C(1,2) [OF s pl _ l]; use S(6) in simp)+
  have "file_at vol' = (file_at vol)(sv_ino sv \<mapsto> abs_file (vol_fs vol) sv')" by (rule C(4) [OF s pl _ l]; use S(6) in simp)
  moreover have "file_at vol (sv_ino sv) = Some (abs_file (vol_fs vol) sv)" using G(2) p(2) by (simp add: file_at_def)
  ultimately show "file_at vol' = file_at vol" using abs by (simp add: map_upd_triv)
  show "vn_get vol' q = (if q = p then Some sv' else vn_get vol q)" by (rule put_tab(3) [OF D(1) p(1) S(1,2) v])
qed

text \<open>After linking the count is brought up to date, after unlinking brought down; it cannot overflow.\<close>

lemma link_more_ok:
  assumes inv: "vol_inv ((\<lambda>_. 0)(sv_ino sv := -1)) vol" and p: "vn_get vol p = Some sv" and i: "sv_ino sv \<noteq> 1"
  shows "\<exists>vol'. mod_vnode p link_more vol = Some vol' \<and> vol_ok vol' \<and> names vol' = names vol \<and> file_at vol' = file_at vol \<and>
    (\<forall>q. vn_get vol' q = (if q = p then Some (link_more sv) else vn_get vol q))"
proof -
  let ?n = "sfi_linkcount (sv_i sv)"
  define sv' where "sv' = (set_inode (sfi_linkcount_update (\<lambda>_. ?n + 1)) sv)\<lparr>sv_dirty := True\<rparr>"
  have sv': "link_more sv = sv'" by (simp add: link_more_def sv'_def set_inode_def)
  have c: "int (unat ?n) = int (name_count vol (sv_ino sv)) - 1"
    using vol_invD(7) [OF inv vol_get(2) [OF inv p] i] by simp
  then have "unat ?n < 1144" using name_count_le [OF inv, of "sv_ino sv"] by linarith
  then have "unat (?n + 1) = unat ?n + 1" by (simp add: unat_word_ariths)
  then have n: "int (unat (?n + 1)) = int (name_count vol (sv_ino sv)) + (\<lambda>_. 0) (sv_ino sv)" using c by linarith
  have d: "\<And>j. j \<noteq> sv_ino sv \<Longrightarrow> (\<lambda>_. 0) j = ((\<lambda>_. 0)(sv_ino sv := -1)) j" by simp
  define vol' where "vol' = vn_put p sv' vol"
  note C = link_change [where d' = "\<lambda>_. 0", OF inv p i n d sv'_def vol'_def]
  have "mod_vnode p link_more vol = Some vol'" using p by (simp add: mod_vnode_def sv' vol'_def)
  then show ?thesis using C sv' by (auto simp: vol_ok_def)
qed

lemma link_less_ok:
  assumes inv: "vol_inv ((\<lambda>_. 0)(sv_ino sv := 1)) vol" and p: "vn_get vol p = Some sv" and i: "sv_ino sv \<noteq> 1"
  shows "\<exists>vol' sv'. link_less p vol = Some vol' \<and> vol_ok vol' \<and> names vol' = names vol \<and> file_at vol' = file_at vol \<and>
    (\<forall>q. vn_get vol' q = (if q = p then Some sv' else vn_get vol q)) \<and> sv_ino sv' = sv_ino sv \<and> sv_refcount sv' = sv_refcount sv \<and>
    unat (sfi_linkcount (sv_i sv')) = name_count vol' (sv_ino sv) \<and> node_blocks (vol_fs vol') sv' = node_blocks (vol_fs vol) sv"
proof -
  let ?n = "sfi_linkcount (sv_i sv)"
  define sv' where "sv' = (set_inode (sfi_linkcount_update (\<lambda>_. ?n - 1)) sv)\<lparr>sv_dirty := True\<rparr>"
  have c: "int (unat ?n) = int (name_count vol (sv_ino sv)) + 1"
    using vol_invD(7) [OF inv vol_get(2) [OF inv p] i] by simp
  then have pos: "0 < unat ?n" by linarith
  then have n0: "?n \<noteq> 0" by auto
  then have "unat (?n - 1) = unat ?n - 1" by (rule unat_minus_one)
  then have n': "unat (?n - 1) = name_count vol (sv_ino sv)" using c by linarith
  then have n: "int (unat (?n - 1)) = int (name_count vol (sv_ino sv)) + (\<lambda>_. 0) (sv_ino sv)"
    by (simp only: add_0_right)
  have d: "\<And>j. j \<noteq> sv_ino sv \<Longrightarrow> (\<lambda>_. 0) j = ((\<lambda>_. 0)(sv_ino sv := 1)) j" by simp
  define vol' where "vol' = vn_put p sv' vol"
  note C = link_change [where d' = "\<lambda>_. 0", OF inv p i n d sv'_def vol'_def]
  have "0 < ?n" using n0 word_neq_0_conv by blast
  moreover have "(set_inode (sfi_linkcount_update (\<lambda>n. n - 1)) sv)\<lparr>sv_dirty := True\<rparr> = sv'" by (simp add: sv'_def set_inode_def)
  ultimately have "link_less p vol = Some vol'" using p by (simp add: link_less_def vol'_def)
  moreover have "name_count vol' (sv_ino sv) = name_count vol (sv_ino sv)" using C(2) by (simp add: name_count_def)
  moreover have "node_blocks (vol_fs vol') sv' = node_blocks (vol_fs vol) sv"
    by (simp add: node_blocks_def sv_blocks_def ftab_def indtab_def vol'_def sv'_def set_inode_def)
  ultimately show ?thesis using C n' by (intro exI [of _ vol'] exI [of _ sv']) (simp add: vol_ok_def sv'_def set_inode_def)
qed

subsection \<open>Looking a name up\<close>

text \<open>A search of the directory changes nothing.\<close>

lemma findname_vol:
  assumes inv: "vol_inv d vol" and dir: "is_dir vol v sv"
  shows "\<exists>vol'. on_vnode v (\<lambda>sv. sfs_dir_findname sv nm (-1)) vol =
      Some ((case slot_of vol nm of None \<Rightarrow> (Some ENOENT, None, empty_slot (dir_slots (vol_fs vol) sv) (-1))
        | Some i \<Rightarrow> (None, Some (the (names vol nm), int i), empty_slot (dir_slots (vol_fs vol) sv) (-1))), vol') \<and>
    unchanged d vol vol' \<and> vol_kmem vol' = vol_kmem vol"
proof -
  note D = vol_invD [OF inv] and R = is_dirD [OF inv dir] and T = tab_okD [OF vol_invD(1) [OF inv]]
  define es where "es = dir_slots (vol_fs vol) sv"
  obtain fs1 where F: "fs_quiet (vol_fs vol) fs1" "sfs_dir_findname sv nm (-1) (vol_fs vol) =
      Some ((case lookup_slot es nm of None \<Rightarrow> (Some ENOENT, None, empty_slot es (-1))
             | Some i \<Rightarrow> (None, Some (sfd_ino (es ! i), int i), empty_slot es (-1))), sv, fs1)"
    using findname_dir [OF R(7) es_def, of nm "-1"] by blast
  have s: "slot_of vol nm = lookup_slot es nm" by (simp add: slot_of_def R(3) es_def)
  have n: "names vol nm = map_option (\<lambda>i. sfd_ino (es ! i)) (lookup_slot es nm)"
    by (simp add: R(6) dir_map_def slots_map_def es_def)
  have "unchanged d vol (vol\<lparr>vol_fs := fs1\<rparr>)" using F(1) T(1) by (intro quiet_unchanged [OF inv]) simp_all
  moreover note on_vnode_quiet [where f = "\<lambda>sv. sfs_dir_findname sv nm (-1)", OF R(1) F(2)]
  ultimately show ?thesis
    by (intro exI [of _ "vol\<lparr>vol_fs := fs1\<rparr>"]) (simp add: s n es_def [symmetric] split: option.split)
qed

lemma named_node:
  assumes "vol_inv d vol" "names vol nm = Some ino"
  shows "ino \<noteq> 1" "\<exists>a. nodes vol ino = Some a" "0 < name_count vol ino"
proof -
  have r: "ino \<in> ran (names vol)" using assms(2) by (auto simp: ran_def)
  then show "ino \<noteq> 1" using vol_invD(4) [OF assms(1)] by auto
  have "ino \<in> dom (nodes vol)" using r nodes_dom by blast
  then show "\<exists>a. nodes vol ino = Some a" by blast
  have "nm \<in> {k. names vol k = Some ino}" using assms(2) by simp
  then show "0 < name_count vol ino" unfolding name_count_def card_gt_0_iff using finite_names [of vol ino] by blast
qed

lemma lookonce_ok:
  assumes ok: "vol_ok vol" and dir: "is_dir vol v sv"
  shows "\<exists>r vol'. sfs_lookonce v nm vol = Some (r, vol') \<and>
    (case r of
       Inr (p, slot) \<Rightarrow> \<exists>ino i. names vol nm = Some ino \<and> slot = int i \<and> slot_of vol nm = Some i \<and> grabbed (\<lambda>_. 0) vol ino p vol'
     | Inl e \<Rightarrow> unchanged (\<lambda>_. 0) vol vol' \<and>
         (if names vol nm = None then e = ENOENT else e = ENOMEM \<and> False \<in> set (vol_kmem vol)))"
proof -
  have inv: "vol_inv (\<lambda>_. 0) vol" using ok by (simp add: vol_ok_def)
  obtain vol1 where F: "on_vnode v (\<lambda>sv. sfs_dir_findname sv nm (-1)) vol =
      Some ((case slot_of vol nm of None \<Rightarrow> (Some ENOENT, None, empty_slot (dir_slots (vol_fs vol) sv) (-1))
        | Some i \<Rightarrow> (None, Some (the (names vol nm), int i), empty_slot (dir_slots (vol_fs vol) sv) (-1))), vol1)"
      "unchanged (\<lambda>_. 0) vol vol1" "vol_kmem vol1 = vol_kmem vol"
    using findname_vol [OF inv dir] by blast
  note U = F(2) [unfolded unchanged_def]
  show ?thesis
  proof (cases "names vol nm")
    case None
    then have "slot_of vol nm = None" using names_slot(2) by blast
    then show ?thesis using F None by (intro exI [of _ "Inl ENOENT"] exI [of _ vol1]) (simp add: sfs_lookonce_def)
  next
    case (Some ino)
    then obtain i where i: "slot_of vol nm = Some i" using names_slot(1) by blast
    note N = named_node [OF inv Some]
    have inv1: "vol_inv (\<lambda>_. 0) vol1" and n1: "nodes vol1 = nodes vol" using U by blast+
    obtain a where a: "nodes vol1 ino = Some a" using N(2) n1 by auto
    obtain r vol2 where L: "sfs_loadvnode ino SFS_TYPE_INVAL vol1 = Some (r, vol2)"
        "case r of Inr p \<Rightarrow> grabbed (\<lambda>_. 0) vol1 ino p vol2
         | Inl e \<Rightarrow> e = ENOMEM \<and> False \<in> set (vol_kmem vol1) \<and> unchanged (\<lambda>_. 0) vol1 vol2"
      using loadvnode_ok [OF inv1 a] by blast
    show ?thesis
    proof (cases r)
      case (Inl e)
      then have "sfs_lookonce v nm vol = Some (Inl e, vol2)" using F(1) L(1) i Some by (simp add: sfs_lookonce_def)
      moreover have "unchanged (\<lambda>_. 0) vol vol2" using F(2) L(2) Inl fs_quiet_trans by (auto simp: unchanged_def)
      ultimately show ?thesis using L(2) Inl Some F(3) by (intro exI [of _ "Inl e"] exI [of _ vol2]) simp
    next
      case (Inr p)
      then have G: "grabbed (\<lambda>_. 0) vol1 ino p vol2" using L(2) by simp
      then have G': "grabbed (\<lambda>_. 0) vol ino p vol2" using U fs_quiet_trans by (auto simp: grabbed_def ref_of_def)
      obtain x where x: "vn_get vol2 p = Some x" "sv_ino x = ino" using G by (auto simp: grabbed_def)
      have inv2: "vol_inv (\<lambda>_. 0) vol2" "names vol2 = names vol" using G' by (simp_all add: grabbed_def)
      have x1: "sv_ino x \<noteq> 1" using x(2) N(1) by simp
      have "int (unat (sfi_linkcount (sv_i x))) = int (name_count vol ino)"
        using vol_invD(7) [OF inv2(1) vol_get(2) [OF inv2(1) x(1)] x1] x(2) by (simp add: name_count_def inv2(2))
      then have "sfi_linkcount (sv_i x) \<noteq> 0" using N(3) by auto
      then have "sfs_lookonce v nm vol = Some (Inr (p, int i), vol2)"
        using F(1) L(1) i Some Inr x(1) by (simp add: sfs_lookonce_def)
      then show ?thesis using Some i G' by (intro exI [of _ "Inr (p, int i)"] exI [of _ vol2]) simp
    qed
  qed
qed

subsection \<open>What a user of the volume sees\<close>

text \<open>For each vnode in memory its inode and the number of references to it.\<close>

definition held :: "sfs_vol \<Rightarrow> nat \<Rightarrow> (u32 \<times> nat) option" where
  "held vol p = map_option (\<lambda>sv. (sv_ino sv, sv_refcount sv)) (vn_get vol p)"

definition root_at :: "sfs_vol \<Rightarrow> nat \<Rightarrow> bool" where
  "root_at vol v \<longleftrightarrow> map_option fst (held vol v) = Some SFS_ROOTDIR_INO"

definition opened :: "sfs_vol \<Rightarrow> u32 \<Rightarrow> bool" where
  "opened vol ino \<longleftrightarrow> cached vol ino \<noteq> None"

definition same_view :: "sfs_vol \<Rightarrow> sfs_vol \<Rightarrow> bool" where
  "same_view vol vol' \<longleftrightarrow> names vol' = names vol \<and> file_at vol' = file_at vol \<and> held vol' = held vol"

text \<open>One more reference to the inode, at p: to the vnode in memory, or to a new one.\<close>

definition taken :: "sfs_vol \<Rightarrow> u32 \<Rightarrow> nat \<Rightarrow> sfs_vol \<Rightarrow> bool" where
  "taken vol ino p vol' \<longleftrightarrow> (opened vol ino \<longleftrightarrow> (\<exists>n > 0. held vol p = Some (ino, n))) \<and> (\<not> opened vol ino \<longrightarrow> held vol p = None) \<and>
     held vol' = (held vol)(p \<mapsto> (ino, (case held vol p of None \<Rightarrow> 0 | Some (_, n) \<Rightarrow> n) + 1))"

lemma root_at_iff: "root_at vol v \<longleftrightarrow> (\<exists>sv. is_dir vol v sv)"
  by (auto simp: root_at_def is_dir_def held_def)

lemma held_eqI:
  assumes "is_dir vol v sv" "is_dir vol' v sv'" "sv_refcount sv' = sv_refcount sv" "\<forall>q. q \<noteq> v \<longrightarrow> vn_get vol' q = vn_get vol q"
  shows "held vol' = held vol"
proof
  fix q show "held vol' q = held vol q" using assms by (cases "q = v") (simp_all add: held_def is_dir_def)
qed

lemma unchanged_view: "unchanged d vol vol' \<Longrightarrow> same_view vol vol'"
  by (simp add: unchanged_def same_view_def held_def fun_eq_iff)

lemma grabbed_taken:
  assumes "vol_inv d vol" "grabbed d vol ino p vol'"
  shows "taken vol ino p vol'" "opened vol ino \<longleftrightarrow> ref_of vol p \<noteq> 0"
proof -
  note T = tab_okD [OF vol_invD(1) [OF assms(1)]]
  obtain x where x: "vn_get vol' p = Some x" "sv_ino x = ino" "sv_refcount x = ref_of vol p + 1"
    and inv': "vol_inv d vol'" and others: "\<forall>q. q \<noteq> p \<longrightarrow> vn_get vol' q = vn_get vol q"
    and ino: "\<And>b. vn_get vol p = Some b \<Longrightarrow> sv_ino b = ino"
    using assms(2) by (auto simp: grabbed_def)
  note T' = tab_okD [OF vol_invD(1) [OF inv']]
  have open_iff: "opened vol ino \<longleftrightarrow> vn_get vol p \<noteq> None"
  proof
    assume "opened vol ino"
    then obtain b q where q: "vn_get vol q = Some b" "sv_ino b = ino"
      using cached_ino [OF vol_invD(1) [OF assms(1)]] by (auto simp: opened_def)
    have "q = p"
    proof (rule ccontr)
      assume n: "q \<noteq> p"
      then have "vn_get vol' q = Some b" using others q(1) by simp
      from T'(4) [OF this x(1)] show False using n q(2) x(2) by simp
    qed
    then show "vn_get vol p \<noteq> None" using q(1) by simp
  next
    assume "vn_get vol p \<noteq> None"
    then obtain b where "vn_get vol p = Some b" by blast
    from cached_get [OF vol_invD(1) [OF assms(1)] this] ino [OF this] show "opened vol ino" by (simp add: opened_def)
  qed
  then show "opened vol ino \<longleftrightarrow> ref_of vol p \<noteq> 0" using T(5) [of p] by (auto simp: ref_of_def split: option.splits)
  have h: "held vol' = (held vol)(p \<mapsto> (ino, ref_of vol p + 1))"
    using x others by (auto simp: held_def fun_eq_iff)
  show "taken vol ino p vol'"
  proof (cases "vn_get vol p")
    case None
    then show ?thesis using open_iff h by (simp add: taken_def held_def ref_of_def)
  next
    case (Some b)
    then show ?thesis using open_iff h ino [OF Some] T(5) [OF Some] by (simp add: taken_def held_def ref_of_def)
  qed
qed

lemma released_held:
  assumes "released vol p sv vol'" "vn_get vol p = Some sv"
  shows "held vol' = (if sv_refcount sv = 1 then (held vol)(p := None) else (held vol)(p \<mapsto> (sv_ino sv, sv_refcount sv - 1)))"
  using assms by (auto simp: released_def held_def fun_eq_iff)

subsection \<open>Creating\<close>

definition creat_error :: "errno \<Rightarrow> u8 list \<Rightarrow> bool \<Rightarrow> sfs_vol \<Rightarrow> bool" where
  "creat_error e nm excl vol \<longleftrightarrow> e = EEXIST \<and> excl \<and> names vol nm \<noteq> None \<or>
     e = ENOMEM \<and> False \<in> set (vol_kmem vol) \<and> \<not> (excl \<and> names vol nm \<noteq> None) \<or>
     names vol nm = None \<and> (e = ENAMETOOLONG \<and> 60 \<le> length nm \<or> e = EFBIG \<and> dir_full vol \<or> e = ENOSPC)"

lemma creat_ok:
  assumes ok: "vol_ok vol" and dir: "root_at vol v" and nm: "0 \<notin> set nm"
  shows "\<exists>r vol'. sfs_creat v nm excl vol = Some (r, vol') \<and> vol_ok vol' \<and>
    (case r of
       Inl e \<Rightarrow> same_view vol vol' \<and> creat_error e nm excl vol
     | Inr p \<Rightarrow> (case names vol nm of
         Some ino \<Rightarrow> \<not> excl \<and> names vol' = names vol \<and> file_at vol' = file_at vol \<and> taken vol ino p vol'
       | None \<Rightarrow> length nm < 60 \<and> (\<exists>b. file_at vol b = None \<and> b \<noteq> SFS_ROOTDIR_INO \<and> names vol' = (names vol)(nm \<mapsto> b) \<and>
           file_at vol' = (file_at vol)(b \<mapsto> (0, \<lambda>_. 0)) \<and> held vol p = None \<and> held vol' = (held vol)(p \<mapsto> (b, 1)))))"
proof -
  obtain sv where sv: "is_dir vol v sv" using dir by (auto simp: root_at_iff)
  have inv: "vol_inv (\<lambda>_. 0) vol" using ok by (simp add: vol_ok_def)
  obtain vol1 where F: "on_vnode v (\<lambda>sv. sfs_dir_findname sv nm (-1)) vol =
      Some ((case slot_of vol nm of None \<Rightarrow> (Some ENOENT, None, empty_slot (dir_slots (vol_fs vol) sv) (-1))
        | Some i \<Rightarrow> (None, Some (the (names vol nm), int i), empty_slot (dir_slots (vol_fs vol) sv) (-1))), vol1)"
      "unchanged (\<lambda>_. 0) vol vol1" "vol_kmem vol1 = vol_kmem vol"
    using findname_vol [OF inv sv] by blast
  note U = F(2) [unfolded unchanged_def] and W = unchanged_view [OF F(2), unfolded same_view_def]
  have ok1: "vol_ok vol1" and inv1: "vol_inv (\<lambda>_. 0) vol1" using U by (simp_all add: vol_ok_def)
  have sv1: "is_dir vol1 v sv" using unchanged_dir(1) [OF inv F(2)] sv by simp
  show ?thesis
  proof (cases "names vol nm")
    case (Some ino)
    then obtain i where i: "slot_of vol nm = Some i" using names_slot(1) by blast
    show ?thesis
    proof (cases excl)
      case True
      then have "sfs_creat v nm excl vol = Some (Inl EEXIST, vol1)" using F(1) i by (simp add: sfs_creat_def)
      then show ?thesis using ok1 W True Some
        by (intro exI [of _ "Inl EEXIST"] exI [of _ vol1]) (simp add: same_view_def creat_error_def)
    next
      case False
      obtain a where a: "nodes vol1 ino = Some a" using named_node(2) [OF inv Some] U by auto
      obtain r vol2 where L: "sfs_loadvnode ino SFS_TYPE_INVAL vol1 = Some (r, vol2)"
          "case r of Inr p \<Rightarrow> grabbed (\<lambda>_. 0) vol1 ino p vol2
           | Inl e \<Rightarrow> e = ENOMEM \<and> False \<in> set (vol_kmem vol1) \<and> unchanged (\<lambda>_. 0) vol1 vol2"
        using loadvnode_ok [OF inv1 a] by blast
      have run: "sfs_creat v nm excl vol = Some (r, vol2)" using F(1) i L(1) Some False by (simp add: sfs_creat_def)
      show ?thesis
      proof (cases r)
        case (Inl e)
        then have "vol_ok vol2" "same_view vol1 vol2" using L(2) unchanged_view by (auto simp: unchanged_def vol_ok_def)
        then show ?thesis using run Inl L(2) F(3) W False by (intro exI [of _ r] exI [of _ vol2]) (simp add: same_view_def creat_error_def)
      next
        case (Inr p)
        then have G: "grabbed (\<lambda>_. 0) vol1 ino p vol2" using L(2) by simp
        have "cached vol1 = cached vol"
          using cached_ino [OF vol_invD(1) [OF inv1]] cached_ino [OF vol_invD(1) [OF inv]] U by (intro ext option_eqI) simp
        then have o: "opened vol1 = opened vol" "held vol1 = held vol" using W by (simp_all add: opened_def fun_eq_iff)
        have "taken vol ino p vol2" using grabbed_taken(1) [OF inv1 G] unfolding taken_def o .
        then show ?thesis using run Inr G W Some False
          by (intro exI [of _ r] exI [of _ vol2]) (simp add: grabbed_def vol_ok_def)
      qed
    qed
  next
    case None
    then have none: "slot_of vol nm = None" using names_slot(2) by blast
    obtain r vol2 where M: "sfs_makeobj SFS_TYPE_FILE vol1 = Some (r, vol2)" "vol_ok vol2"
        "case r of
           Inl e \<Rightarrow> looks_same vol1 vol2 \<and>
             (e = ENOSPC \<and> fs_free (vol_fs vol1) = {} \<or> e = ENOMEM \<and> False \<in> set (vol_kmem vol1))
         | Inr p \<Rightarrow> \<exists>b. unat b \<in> fs_free (vol_fs vol1) \<and> b \<noteq> 1 \<and> b \<notin> ran (names vol1) \<and> file_at vol1 b = None \<and>
             names vol2 = names vol1 \<and> file_at vol2 = (file_at vol1)(b \<mapsto> (0, \<lambda>_. 0)) \<and>
             dir_slots (vol_fs vol2) (root_node vol2) = dir_slots (vol_fs vol1) (root_node vol1) \<and>
             vn_get vol1 p = None \<and> vn_get vol2 p = Some (fresh_vnode b) \<and> (\<forall>q. q \<noteq> p \<longrightarrow> vn_get vol2 q = vn_get vol1 q)"
      using makeobj_ok [OF ok1] by blast
    show ?thesis
    proof (cases r)
      case (Inl e)
      then have "sfs_creat v nm excl vol = Some (Inl e, vol2)" using F(1) none M(1) by (simp add: sfs_creat_def)
      moreover have "same_view vol vol2" using M(3) Inl W by (simp add: looks_same_def same_view_def held_def fun_eq_iff)
      ultimately show ?thesis using M(2,3) Inl F(3) None by (intro exI [of _ r] exI [of _ vol2]) (auto simp: creat_error_def)
    next
      case (Inr p)
      then obtain b where b: "b \<noteq> 1" "b \<notin> ran (names vol1)" "file_at vol1 b = None"
          "names vol2 = names vol1" "file_at vol2 = (file_at vol1)(b \<mapsto> (0, \<lambda>_. 0))"
          "dir_slots (vol_fs vol2) (root_node vol2) = dir_slots (vol_fs vol1) (root_node vol1)"
          "vn_get vol1 p = None" "vn_get vol2 p = Some (fresh_vnode b)" "\<forall>q. q \<noteq> p \<longrightarrow> vn_get vol2 q = vn_get vol1 q"
        using M(3) by auto
      have inv2: "vol_inv (\<lambda>_. 0) vol2" using M(2) by (simp add: vol_ok_def)
      have pv: "p \<noteq> v" using b(7) sv1 by (auto simp: is_dir_def)
      have sv2: "is_dir vol2 v sv" using sv1 b(9) pv by (simp add: is_dir_def)
      have fresh: "sv_ino (fresh_vnode b) = b" "sv_refcount (fresh_vnode b) = 1" "sfi_linkcount (sv_i (fresh_vnode b)) = 0"
        by (simp_all add: fresh_vnode_def dinode_zeros)
      have cb: "cached vol2 b = Some (fresh_vnode b)"
        using cached_get [OF vol_invD(1) [OF inv2] b(8)] fresh(1) by simp
      obtain r3 vol3 sv3 where L: "on_vnode v (\<lambda>sv. sfs_dir_link sv nm b) vol2 = Some (r3, vol3)" "file_at vol3 = file_at vol2"
          "is_dir vol3 v sv3" "sv_refcount sv3 = sv_refcount sv" "\<forall>q. q \<noteq> v \<longrightarrow> vn_get vol3 q = vn_get vol2 q"
          "case r3 of
             Inr slot \<Rightarrow> \<exists>i. slot = int i \<and> names vol2 nm = None \<and> length nm + 1 \<le> 60 \<and> names vol3 = (names vol2)(nm \<mapsto> b) \<and>
               vol_inv ((\<lambda>_. 0)(b := -1)) vol3 \<and> slot_of vol3 nm = Some i \<and> (\<forall>k j. slot_of vol2 k = Some j \<longrightarrow> slot_of vol3 k = Some j)
           | Inl e \<Rightarrow> vol_ok vol3 \<and> names vol3 = names vol2 \<and> link_error e nm vol2 vol3"
        using vnode_link [OF M(2) sv2 cb b(1) nm] by blast
      have p3: "vn_get vol3 p = Some (fresh_vnode b)" using L(5) pv b(8) by simp
      have f3: "file_at vol3 = (file_at vol)(b \<mapsto> (0, \<lambda>_. 0))" using L(2) b(5) W by simp
      have h3: "held vol3 = (held vol)(p \<mapsto> (b, 1))" "held vol p = None"
        using held_eqI [OF sv2 L(3-5)] b(7,8,9) U fresh(1,2) by (auto simp: held_def fun_eq_iff)
      have noexcl: "\<not> (excl \<and> names vol nm \<noteq> None)" using None by simp
      show ?thesis
      proof (cases r3)
        case (Inl e)
        then have ok3: "vol_ok vol3" and n3: "names vol3 = names vol" and e: "link_error e nm vol2 vol3" using L(6) b(4) W by auto
        obtain vol4 where R: "vnode_decref p vol3 = Some vol4" "released vol3 p (fresh_vnode b) vol4" using decref_ok [OF ok3 p3] by blast
        have run: "sfs_creat v nm excl vol = Some (Inl e, vol4)"
          using F(1) none M(1) Inr b(8) fresh(1) L(1) Inl R(1) by (simp add: sfs_creat_def)
        have "held vol4 = held vol" using released_held [OF R(2) p3] h3 fresh(1,2) by auto
        moreover have "file_at vol4 = file_at vol" using R(2) f3 fresh b(3) W by (auto simp: released_def)
        ultimately have "same_view vol vol4" using R(2) n3 by (simp add: same_view_def released_def)
        moreover have "dir_full vol2 = dir_full vol"
          using b(6) unchanged_dir(2) [OF inv F(2)] dir_map_quiet(1) [of "vol_fs vol" "vol_fs vol1"] U nodes_root [of vol] nodes_root [of vol1]
          by (simp add: dir_full_def)
        then have "creat_error e nm excl vol" using e None b(4) W by (auto simp: creat_error_def link_error_def split: if_splits)
        ultimately show ?thesis using run R(2) by (intro exI [of _ "Inl e"] exI [of _ vol4]) (simp add: released_def)
      next
        case slot: (Inr slot)
        then have n3: "names vol3 = (names vol)(nm \<mapsto> b)" "length nm < 60" and inv3: "vol_inv ((\<lambda>_. 0)(b := -1)) vol3"
          using L(6) b(4) W by auto
        obtain vol4 where R: "mod_vnode p link_more vol3 = Some vol4" "vol_ok vol4" "names vol4 = names vol3" "file_at vol4 = file_at vol3"
            "\<forall>q. vn_get vol4 q = (if q = p then Some (link_more (fresh_vnode b)) else vn_get vol3 q)"
          using link_more_ok [OF _ p3] inv3 fresh(1) b(1) by auto
        have run: "sfs_creat v nm excl vol = Some (Inr p, vol4)"
          using F(1) none M(1) Inr b(8) fresh(1) L(1) slot R(1) by (simp add: sfs_creat_def)
        have "held vol4 = held vol3" using R(5) p3 by (auto simp: held_def fun_eq_iff link_more_def set_inode_def)
        moreover have "file_at vol b = None" using b(3) W by simp
        ultimately show ?thesis using run R n3 f3 h3 b(1) None
          by (intro exI [of _ "Inr p"] exI [of _ vol4]) (auto intro!: exI [of _ b])
      qed
    qed
  qed
qed

subsection \<open>Linking, removing and renaming\<close>

lemma link_ok:
  assumes ok: "vol_ok vol" and dir: "root_at vol v" and nm: "0 \<notin> set nm" and f: "held vol file = Some (ino, n)"
  shows "\<exists>r vol'. sfs_link v nm file vol = Some (r, vol') \<and> vol_ok vol' \<and> held vol' = held vol \<and> file_at vol' = file_at vol \<and>
    (case r of
       None \<Rightarrow> ino \<noteq> SFS_ROOTDIR_INO \<and> names vol nm = None \<and> length nm < 60 \<and> names vol' = (names vol)(nm \<mapsto> ino)
     | Some e \<Rightarrow> names vol' = names vol \<and> (if ino = SFS_ROOTDIR_INO then e = EINVAL else link_error e nm vol vol'))"
proof -
  obtain sv where sv: "is_dir vol v sv" using dir by (auto simp: root_at_iff)
  have inv: "vol_inv (\<lambda>_. 0) vol" using ok by (simp add: vol_ok_def)
  obtain x where x: "vn_get vol file = Some x" "sv_ino x = ino" using f by (auto simp: held_def)
  have t: "sfi_type (sv_i x) = (if ino = 1 then SFS_TYPE_DIR else SFS_TYPE_FILE)"
    using vol_get(3) [OF inv x(1)] x(2) by (simp add: inode_ok_def)
  show ?thesis
  proof (cases "ino = 1")
    case True
    then have "sfs_link v nm file vol = Some (Some EINVAL, vol)" using x t by (simp add: sfs_link_def)
    then show ?thesis using ok True by (intro exI [of _ "Some EINVAL"] exI [of _ vol]) simp
  next
    case False
    have c: "cached vol ino = Some x" using vol_get(1) [OF inv x(1)] x(2) by simp
    obtain r vol1 sv1 where L: "on_vnode v (\<lambda>sv. sfs_dir_link sv nm ino) vol = Some (r, vol1)" "file_at vol1 = file_at vol"
        "is_dir vol1 v sv1" "sv_refcount sv1 = sv_refcount sv" "\<forall>q. q \<noteq> v \<longrightarrow> vn_get vol1 q = vn_get vol q"
        "case r of
           Inr slot \<Rightarrow> \<exists>i. slot = int i \<and> names vol nm = None \<and> length nm + 1 \<le> 60 \<and> names vol1 = (names vol)(nm \<mapsto> ino) \<and>
             vol_inv ((\<lambda>_. 0)(ino := -1)) vol1 \<and> slot_of vol1 nm = Some i \<and> (\<forall>k j. slot_of vol k = Some j \<longrightarrow> slot_of vol1 k = Some j)
         | Inl e \<Rightarrow> vol_ok vol1 \<and> names vol1 = names vol \<and> link_error e nm vol vol1"
      using vnode_link [OF ok sv c False nm] by blast
    have h1: "held vol1 = held vol" by (rule held_eqI [OF sv L(3-5)])
    show ?thesis
    proof (cases r)
      case (Inl e)
      then have "sfs_link v nm file vol = Some (Some e, vol1)" using x t False L(1) by (simp add: sfs_link_def)
      then show ?thesis using L(2,6) h1 False Inl by (intro exI [of _ "Some e"] exI [of _ vol1]) simp
    next
      case (Inr slot)
      then have I: "vol_inv ((\<lambda>_. 0)(ino := -1)) vol1" "names vol nm = None" "length nm < 60" "names vol1 = (names vol)(nm \<mapsto> ino)"
        using L(6) by auto
      have "file \<noteq> v" using x sv False by (auto simp: is_dir_def)
      then have x1: "vn_get vol1 file = Some x" using L(5) x(1) by simp
      obtain vol2 where R: "mod_vnode file link_more vol1 = Some vol2" "vol_ok vol2" "names vol2 = names vol1" "file_at vol2 = file_at vol1"
          "\<forall>q. vn_get vol2 q = (if q = file then Some (link_more x) else vn_get vol1 q)"
        using link_more_ok [OF _ x1] I(1) x(2) False by auto
      have "sfs_link v nm file vol = Some (None, vol2)" using x t False L(1) Inr R(1) by (simp add: sfs_link_def)
      moreover have "held vol2 = held vol1" using R(5) x1 by (auto simp: held_def fun_eq_iff link_more_def set_inode_def)
      ultimately show ?thesis using R I(2-4) L(2) h1 False by (intro exI [of _ None] exI [of _ vol2]) simp
    qed
  qed
qed

text \<open>A reference that was taken is given back.\<close>

lemma give_back:
  assumes "vol_inv d vol" "grabbed d vol ino p vol1" "held vol2 = held vol1" "vn_get vol2 p = Some x" "released vol2 p x vol3"
  shows "held vol3 = held vol" "sv_refcount x = 1 \<longleftrightarrow> \<not> opened vol ino" "sv_ino x = ino"
proof -
  have t: "taken vol ino p vol1" by (rule grabbed_taken(1) [OF assms(1,2)])
  have x: "held vol1 p = Some (sv_ino x, sv_refcount x)" unfolding assms(3) [symmetric] using assms(4) by (simp add: held_def)
  note R = released_held [OF assms(5,4)]
  have "held vol1 = (held vol)(p \<mapsto> (ino, (case held vol p of None \<Rightarrow> 0 | Some (_, n) \<Rightarrow> n) + 1))"
    using t unfolding taken_def by (elim conjE)
  then show i: "sv_ino x = ino" using fun_cong [of "held vol1" _ p] x by fastforce
  show "held vol3 = held vol" "sv_refcount x = 1 \<longleftrightarrow> \<not> opened vol ino"
  proof (atomize(full), cases "opened vol ino")
    case True
    then obtain n where n: "held vol p = Some (ino, n)" "n > 0" using t by (auto simp: taken_def)
    then have h: "held vol1 = (held vol)(p \<mapsto> (ino, n + 1))" using t by (simp add: taken_def)
    then have "sv_refcount x = n + 1" using x by simp
    moreover from this have "held vol3 = (held vol)(p \<mapsto> (ino, n))" using R n(2) i by (simp add: assms(3) h)
    then have "held vol3 = held vol" using n(1) by (simp add: map_upd_triv)
    ultimately show "held vol3 = held vol \<and> (sv_refcount x = 1 \<longleftrightarrow> \<not> opened vol ino)" using True n(2) by simp
  next
    case False
    then have n: "held vol p = None" using t by (simp add: taken_def)
    then have h: "held vol1 = (held vol)(p \<mapsto> (ino, 1))" using t by (simp add: taken_def)
    then have "sv_refcount x = 1" using x by simp
    moreover from this have "held vol3 = (held vol)(p := None)" using R by (simp add: assms(3) h)
    then have "held vol3 = held vol" using n by auto
    ultimately show "held vol3 = held vol \<and> (sv_refcount x = 1 \<longleftrightarrow> \<not> opened vol ino)" using False by simp
  qed
qed

text \<open>The blocks of an inode: its own and those of its file.\<close>

definition inode_blocks :: "sfs_vol \<Rightarrow> u32 \<Rightarrow> nat set" where
  "inode_blocks vol ino = (case nodes vol ino of None \<Rightarrow> {} | Some sv \<Rightarrow> node_blocks (vol_fs vol) sv)"

lemma inode_blocks_grabbed:
  assumes "vol_inv d vol" "grabbed d' vol ino p vol1" "vn_get vol1 p = Some x"
  shows "node_blocks (vol_fs vol1) x = inode_blocks vol ino"
proof -
  obtain a where a: "nodes vol ino = Some a" "sv_i x = sv_i a" "sv_ino x = ino" "fs_quiet (vol_fs vol) (vol_fs vol1)"
    using assms(2,3) by (auto simp: grabbed_def)
  have "sv_ino a = ino" using files_okD(3) [OF vol_invD(2) [OF assms(1)] a(1)] by (simp add: inode_ok_def)
  moreover have "sv_blocks (vol_fs vol1) x = sv_blocks (vol_fs vol) a"
    unfolding alike_file(2) [OF a(2)] by (simp add: sv_blocks_def quiet_file(1) [OF a(4)])
  ultimately show ?thesis using a(1,3) by (simp add: inode_blocks_def node_blocks_def)
qed

lemma remove_ok:
  assumes ok: "vol_ok vol" and dir: "root_at vol v"
  shows "\<exists>r vol'. sfs_remove v nm vol = Some (r, vol') \<and> vol_ok vol' \<and> held vol' = held vol \<and>
    (case r of
       None \<Rightarrow> \<exists>ino. names vol nm = Some ino \<and> names vol' = (names vol)(nm := None) \<and>
         file_at vol' = (if ino \<notin> ran (names vol') \<and> \<not> opened vol ino then (file_at vol)(ino := None) else file_at vol) \<and>
         (ino \<notin> ran (names vol') \<and> \<not> opened vol ino \<longrightarrow> inode_blocks vol ino \<subseteq> fs_free (vol_fs vol'))
     | Some e \<Rightarrow> names vol' = names vol \<and> file_at vol' = file_at vol \<and>
         (if names vol nm = None then e = ENOENT else e = ENOMEM \<and> False \<in> set (vol_kmem vol)))"
proof -
  obtain sv where sv: "is_dir vol v sv" using dir by (auto simp: root_at_iff)
  have inv: "vol_inv (\<lambda>_. 0) vol" using ok by (simp add: vol_ok_def)
  obtain r vol1 where L: "sfs_lookonce v nm vol = Some (r, vol1)"
      "case r of
         Inr (p, slot) \<Rightarrow> \<exists>ino i. names vol nm = Some ino \<and> slot = int i \<and> slot_of vol nm = Some i \<and> grabbed (\<lambda>_. 0) vol ino p vol1
       | Inl e \<Rightarrow> unchanged (\<lambda>_. 0) vol vol1 \<and>
           (if names vol nm = None then e = ENOENT else e = ENOMEM \<and> False \<in> set (vol_kmem vol))"
    using lookonce_ok [OF ok sv] by blast
  show ?thesis
  proof (cases r)
    case (Inl e)
    then have "sfs_remove v nm vol = Some (Some e, vol1)" using L(1) by (simp add: sfs_remove_def)
    moreover have "same_view vol vol1" "vol_ok vol1" using unchanged_view L(2) Inl by (auto simp: unchanged_def vol_ok_def)
    ultimately show ?thesis using L(2) Inl by (intro exI [of _ "Some e"] exI [of _ vol1]) (simp add: same_view_def)
  next
    case (Inr ps)
    then obtain p ino i where P: "ps = (p, int i)" "names vol nm = Some ino" "slot_of vol nm = Some i" "grabbed (\<lambda>_. 0) vol ino p vol1"
      using L(2) by (cases ps) auto
    have ino1: "ino \<noteq> 1" by (rule named_node(1) [OF inv P(2)])
    note G = grabbed_dir [OF inv P(4) ino1 sv]
    have g: "vol_inv (\<lambda>_. 0) vol1" "names vol1 = names vol" "file_at vol1 = file_at vol" using P(4) by (simp_all add: grabbed_def)
    obtain x where x: "vn_get vol1 p = Some x" "sv_ino x = ino" using P(4) by (auto simp: grabbed_def)
    have c: "cached vol1 ino = Some x" using vol_get(1) [OF g(1) x(1)] x(2) by simp
    have s1: "slot_of vol1 nm = Some i" "names vol1 nm = Some ino" using P(2,3) G(3) g(2) by simp_all
    obtain vol2 sv2 where U: "on_vnode v (\<lambda>sv. sfs_dir_unlink sv (int i)) vol1 = Some (None, vol2)" "file_at vol2 = file_at vol1"
        "is_dir vol2 v sv2" "sv_refcount sv2 = sv_refcount sv" "\<forall>q. q \<noteq> v \<longrightarrow> vn_get vol2 q = vn_get vol1 q"
        "names vol2 = (names vol1)(nm := None)" "vol_inv ((\<lambda>_. 0)(ino := 1)) vol2"
        "\<forall>j b. nodes vol1 j = Some b \<longrightarrow> j \<noteq> 1 \<longrightarrow> sv_blocks (vol_fs vol2) b = sv_blocks (vol_fs vol1) b"
      using vnode_unlink [OF g(1) G(1) s1 c] by auto
    have "sv_blocks (vol_fs vol2) x = sv_blocks (vol_fs vol1) x" using U(8) nodes_cached [OF c] ino1 by blast
    then have nb2: "node_blocks (vol_fs vol2) x = inode_blocks vol ino"
      using inode_blocks_grabbed [OF inv P(4) x(1)] by (simp add: node_blocks_def)
    have x2: "vn_get vol2 p = Some x" using U(5) G(4) x(1) by simp
    obtain vol3 x3 where M: "link_less p vol2 = Some vol3" "vol_ok vol3" "names vol3 = names vol2" "file_at vol3 = file_at vol2"
        "\<forall>q. vn_get vol3 q = (if q = p then Some x3 else vn_get vol2 q)" "sv_ino x3 = ino" "sv_refcount x3 = sv_refcount x"
        "unat (sfi_linkcount (sv_i x3)) = name_count vol3 ino" "node_blocks (vol_fs vol3) x3 = inode_blocks vol ino"
      using link_less_ok [OF _ x2] U(7) x(2) ino1 nb2 by auto
    have x3: "vn_get vol3 p = Some x3" using M(5) by simp
    obtain vol4 where R: "vnode_decref p vol3 = Some vol4" "released vol3 p x3 vol4" using decref_ok [OF M(2) x3] by blast
    have "held vol2 = held vol1" by (rule held_eqI [OF G(1) U(3-5)])
    moreover have "held vol3 = held vol2" using M(5-7) x2 x(2) by (auto simp: held_def fun_eq_iff)
    ultimately have "held vol3 = held vol1" by simp
    note B = give_back [OF inv P(4) this x3 R(2)]
    have "sfi_linkcount (sv_i x3) = 0 \<longleftrightarrow> unat (sfi_linkcount (sv_i x3)) = 0" by (simp add: unat_eq_0)
    also have "\<dots> \<longleftrightarrow> ino \<notin> ran (names vol3)"
      unfolding M(8) name_count_def using finite_names [of vol3 ino] by (auto simp: ran_def)
    finally have L0: "sfi_linkcount (sv_i x3) = 0 \<longleftrightarrow> ino \<notin> ran (names vol3)" .
    then have fr: "inode_blocks vol ino \<subseteq> fs_free (vol_fs vol4)" if "ino \<notin> ran (names vol4)" "\<not> opened vol ino"
      using that R(2) B(2) M(9) by (simp add: released_def)
    from L0 have "file_at vol4 = (if ino \<notin> ran (names vol4) \<and> \<not> opened vol ino then (file_at vol)(ino := None) else file_at vol)"
      using R(2) B(2) M(4,6) U(2) g(3) by (simp add: released_def)
    moreover have "names vol4 = (names vol)(nm := None)" using R(2) M(3) U(6) g(2) by (simp add: released_def)
    moreover have "sfs_remove v nm vol = Some (None, vol4)" using L(1) Inr P(1) U(1) M(1) R(1) by (simp add: sfs_remove_def)
    ultimately show ?thesis using R(2) B(1) P(2) fr by (intro exI [of _ None] exI [of _ vol4]) (simp add: released_def)
  qed
qed

definition rename_error :: "errno \<Rightarrow> u8 list \<Rightarrow> u8 list \<Rightarrow> sfs_vol \<Rightarrow> bool" where
  "rename_error e n1 n2 vol \<longleftrightarrow>
     (if names vol n1 = None then e = ENOENT
      else e = ENOMEM \<and> False \<in> set (vol_kmem vol) \<or>
        (if names vol n2 \<noteq> None then e = EEXIST
         else if 60 \<le> length n2 then e = ENAMETOOLONG
         else e = EFBIG \<and> dir_full vol \<or> e = ENOSPC))"

lemma rename_ok:
  assumes ok: "vol_ok vol" and dir: "root_at vol v" and nm: "0 \<notin> set n2"
  shows "\<exists>r vol'. sfs_rename v n1 v n2 vol = Some (r, vol') \<and> vol_ok vol' \<and> held vol' = held vol \<and> file_at vol' = file_at vol \<and>
    (case r of
       None \<Rightarrow> \<exists>ino. names vol n1 = Some ino \<and> names vol n2 = None \<and> length n2 < 60 \<and>
         names vol' = (names vol)(n2 \<mapsto> ino, n1 := None)
     | Some e \<Rightarrow> names vol' = names vol \<and> rename_error e n1 n2 vol)"
proof -
  obtain sv where sv: "is_dir vol v sv" using dir by (auto simp: root_at_iff)
  have inv: "vol_inv (\<lambda>_. 0) vol" using ok by (simp add: vol_ok_def)
  have vsv: "vn_get vol v = Some sv" "sv_ino sv = 1" using sv by (simp_all add: is_dir_def)
  obtain r vol1 where L: "sfs_lookonce v n1 vol = Some (r, vol1)"
      "case r of
         Inr (p, slot) \<Rightarrow> \<exists>ino i. names vol n1 = Some ino \<and> slot = int i \<and> slot_of vol n1 = Some i \<and> grabbed (\<lambda>_. 0) vol ino p vol1
       | Inl e \<Rightarrow> unchanged (\<lambda>_. 0) vol vol1 \<and>
           (if names vol n1 = None then e = ENOENT else e = ENOMEM \<and> False \<in> set (vol_kmem vol))"
    using lookonce_ok [OF ok sv] by blast
  show ?thesis
  proof (cases r)
    case (Inl e)
    then have "sfs_rename v n1 v n2 vol = Some (Some e, vol1)" using L(1) vsv by (simp add: sfs_rename_def)
    moreover have "same_view vol vol1" "vol_ok vol1" using unchanged_view L(2) Inl by (auto simp: unchanged_def vol_ok_def)
    ultimately show ?thesis using L(2) Inl
      by (intro exI [of _ "Some e"] exI [of _ vol1]) (simp add: same_view_def rename_error_def)
  next
    case (Inr ps)
    then obtain p ino i where P: "ps = (p, int i)" "names vol n1 = Some ino" "slot_of vol n1 = Some i" "grabbed (\<lambda>_. 0) vol ino p vol1"
      using L(2) by (cases ps) auto
    have ino1: "ino \<noteq> 1" by (rule named_node(1) [OF inv P(2)])
    note G = grabbed_dir [OF inv P(4) ino1 sv]
    have g: "vol_inv (\<lambda>_. 0) vol1" "names vol1 = names vol" "file_at vol1 = file_at vol" using P(4) by (simp_all add: grabbed_def)
    have ok1: "vol_ok vol1" using g(1) by (simp add: vol_ok_def)
    obtain x where x: "vn_get vol1 p = Some x" "sv_ino x = ino" using P(4) by (auto simp: grabbed_def)
    have c: "cached vol1 ino = Some x" using vol_get(1) [OF g(1) x(1)] x(2) by simp
    have type: "sfi_type (sv_i x) = SFS_TYPE_FILE" using vol_get(3) [OF g(1) x(1)] x(2) ino1 by (simp add: inode_ok_def)
    obtain r2 vol2 sv2 where K: "on_vnode v (\<lambda>sv. sfs_dir_link sv n2 ino) vol1 = Some (r2, vol2)" "file_at vol2 = file_at vol1"
        "is_dir vol2 v sv2" "sv_refcount sv2 = sv_refcount sv" "\<forall>q. q \<noteq> v \<longrightarrow> vn_get vol2 q = vn_get vol1 q"
        "case r2 of
           Inr slot \<Rightarrow> \<exists>i. slot = int i \<and> names vol1 n2 = None \<and> length n2 + 1 \<le> 60 \<and> names vol2 = (names vol1)(n2 \<mapsto> ino) \<and>
             vol_inv ((\<lambda>_. 0)(ino := -1)) vol2 \<and> slot_of vol2 n2 = Some i \<and> (\<forall>k j. slot_of vol1 k = Some j \<longrightarrow> slot_of vol2 k = Some j)
         | Inl e \<Rightarrow> vol_ok vol2 \<and> names vol2 = names vol1 \<and> link_error e n2 vol1 vol2"
      using vnode_link [OF ok1 G(1) c ino1 nm] by blast
    have x2: "vn_get vol2 p = Some x" using K(5) G(4) x(1) by simp
    have h2: "held vol2 = held vol1" by (rule held_eqI [OF G(1) K(3-5)])
    show ?thesis
    proof (cases r2)
      case (Inl e)
      then have e: "vol_ok vol2" "names vol2 = names vol1" "link_error e n2 vol1 vol2" using K(6) by simp_all
      obtain vol3 where R: "vnode_decref p vol2 = Some vol3" "released vol2 p x vol3" using decref_ok [OF e(1) x2] by blast
      have run: "sfs_rename v n1 v n2 vol = Some (Some e, vol3)"
        using vsv L(1) Inr P(1) x type K(1) Inl R(1) by (simp add: sfs_rename_def rename_puke_def)
      have inv2: "vol_inv (\<lambda>_. 0) vol2" using e(1) by (simp add: vol_ok_def)
      have n2: "names vol2 n1 = Some ino" using e(2) g(2) P(2) by simp
      have xi: "sv_ino x \<noteq> 1" using x(2) ino1 by simp
      have "unat (sfi_linkcount (sv_i x)) = name_count vol2 ino"
        using vol_invD(7) [OF inv2 vol_get(2) [OF inv2 x2] xi] by (simp only: x(2) add_0_right of_nat_eq_iff)
      then have "sfi_linkcount (sv_i x) \<noteq> 0" using named_node(3) [OF inv2 n2] by auto
      then have "file_at vol3 = file_at vol" "names vol3 = names vol" using R(2) K(2) g e(2) by (simp_all add: released_def)
      moreover have "dir_full vol1 = dir_full vol" using G(2) by (simp add: dir_full_def)
      then have "rename_error e n1 n2 vol" using e(3) P(2) g(2) by (auto simp: link_error_def rename_error_def split: if_splits)
      ultimately show ?thesis using run R(2) give_back(1) [OF inv P(4) h2 x2 R(2)]
        by (intro exI [of _ "Some e"] exI [of _ vol3]) (simp add: released_def)
    next
      case (Inr slot)
      then have e: "names vol1 n2 = None" "length n2 < 60" "names vol2 = (names vol1)(n2 \<mapsto> ino)"
          "vol_inv ((\<lambda>_. 0)(ino := -1)) vol2" "\<And>k j. slot_of vol1 k = Some j \<Longrightarrow> slot_of vol2 k = Some j"
        using K(6) by auto
      obtain vol3 where M: "mod_vnode p link_more vol2 = Some vol3" "vol_ok vol3" "names vol3 = names vol2" "file_at vol3 = file_at vol2"
          "\<forall>q. vn_get vol3 q = (if q = p then Some (link_more x) else vn_get vol2 q)"
        using link_more_ok [OF _ x2] e(4) x(2) ino1 by auto
      have inv3: "vol_inv (\<lambda>_. 0) vol3" using M(2) by (simp add: vol_ok_def)
      have dir3: "is_dir vol3 v sv2" using K(3) M(5) G(4) by (simp add: is_dir_def)
      have x3: "vn_get vol3 p = Some (link_more x)" "sv_ino (link_more x) = ino" "sv_refcount (link_more x) = sv_refcount x"
        using M(5) x(2) by (simp_all add: link_more_def set_inode_def)
      have c3: "cached vol3 ino = Some (link_more x)" using vol_get(1) [OF inv3 x3(1)] x3(2) by simp
      have n3: "names vol3 n1 = Some ino" using M(3) e(1,3) g(2) P(2) by auto
      have h3: "held vol3 = held vol2" using M(5) x3 x2 x(2) by (auto simp: held_def fun_eq_iff)
      have s3: "slot_of vol3 n1 = Some i"
      proof -
        have "root_node vol3 = root_node vol2" using is_dirD(3) [OF inv3 dir3] is_dirD(3) [OF e(4) K(3)] by simp
        moreover have "vol_fs vol3 = vol_fs vol2" using M(1) by (auto simp: mod_vnode_def Option.bind_eq_Some_conv)
        ultimately have "slot_of vol3 = slot_of vol2" by (simp add: slot_of_def fun_eq_iff)
        then show ?thesis using e(5) P(3) G(3) by simp
      qed
      obtain vol4 sv4 where U: "on_vnode v (\<lambda>sv. sfs_dir_unlink sv (int i)) vol3 = Some (None, vol4)" "file_at vol4 = file_at vol3"
          "is_dir vol4 v sv4" "sv_refcount sv4 = sv_refcount sv2" "\<forall>q. q \<noteq> v \<longrightarrow> vn_get vol4 q = vn_get vol3 q"
          "names vol4 = (names vol3)(n1 := None)" "vol_inv ((\<lambda>_. 0)(ino := 1)) vol4"
        using vnode_unlink [OF inv3 dir3 s3 n3 c3] by auto
      have x4: "vn_get vol4 p = Some (link_more x)" using U(5) G(4) x3(1) by simp
      obtain vol5 x5 where D: "link_less p vol4 = Some vol5" "vol_ok vol5" "names vol5 = names vol4" "file_at vol5 = file_at vol4"
          "\<forall>q. vn_get vol5 q = (if q = p then Some x5 else vn_get vol4 q)" "sv_ino x5 = ino" "sv_refcount x5 = sv_refcount x"
          "unat (sfi_linkcount (sv_i x5)) = name_count vol5 ino"
        using link_less_ok [OF _ x4] U(7) x3 ino1 by auto
      have x5: "vn_get vol5 p = Some x5" using D(5) by simp
      obtain vol6 where R: "vnode_decref p vol5 = Some vol6" "released vol5 p x5 vol6" using decref_ok [OF D(2) x5] by blast
      have run: "sfs_rename v n1 v n2 vol = Some (None, vol6)"
        using vsv L(1) \<open>r = Inr ps\<close> P(1) x type K(1) Inr M(1) U(1) D(1) R(1) by (simp add: sfs_rename_def)
      have "held vol5 = held vol4" using D(5-7) x4 x3 by (auto simp: held_def fun_eq_iff)
      then have h: "held vol5 = held vol1" using held_eqI [OF dir3 U(3-5)] h2 h3 by simp
      have n5: "names vol5 = (names vol)(n2 \<mapsto> ino, n1 := None)" using D(3) U(6) M(3) e(3) g(2) by simp
      have "n1 \<noteq> n2" using e(1) g(2) P(2) by auto
      then have "names vol5 n2 = Some ino" using n5 by simp
      then have "0 < unat (sfi_linkcount (sv_i x5))" using named_node(3) D(2,8) by (simp add: vol_ok_def)
      then have "sfi_linkcount (sv_i x5) \<noteq> 0" by auto
      then have "file_at vol6 = file_at vol" using R(2) D(4) U(2) M(4) K(2) g(3) by (simp add: released_def)
      then show ?thesis using run R(2) n5 e(1,2) g(2) P(2) give_back(1) [OF inv P(4) h x5 R(2)]
        by (intro exI [of _ None] exI [of _ vol6]) (simp add: released_def)
    qed
  qed
qed

lemma lookup_ok:
  assumes ok: "vol_ok vol" and dir: "root_at vol v"
  shows "\<exists>r vol'. sfs_lookup v nm vol = Some (r, vol') \<and> vol_ok vol' \<and> names vol' = names vol \<and> file_at vol' = file_at vol \<and>
    (case r of
       Inr p \<Rightarrow> \<exists>ino. names vol nm = Some ino \<and> taken vol ino p vol'
     | Inl e \<Rightarrow> held vol' = held vol \<and>
         (if names vol nm = None then e = ENOENT else e = ENOMEM \<and> False \<in> set (vol_kmem vol)))"
proof -
  obtain sv where sv: "is_dir vol v sv" using dir by (auto simp: root_at_iff)
  have inv: "vol_inv (\<lambda>_. 0) vol" using ok by (simp add: vol_ok_def)
  note R = is_dirD [OF inv sv]
  obtain r vol1 where L: "sfs_lookonce v nm vol = Some (r, vol1)"
      "case r of
         Inr (p, slot) \<Rightarrow> \<exists>ino i. names vol nm = Some ino \<and> slot = int i \<and> slot_of vol nm = Some i \<and> grabbed (\<lambda>_. 0) vol ino p vol1
       | Inl e \<Rightarrow> unchanged (\<lambda>_. 0) vol vol1 \<and>
           (if names vol nm = None then e = ENOENT else e = ENOMEM \<and> False \<in> set (vol_kmem vol))"
    using lookonce_ok [OF ok sv] by blast
  show ?thesis
  proof (cases r)
    case (Inl e)
    then have "sfs_lookup v nm vol = Some (Inl e, vol1)" using L(1) R(1,4) by (simp add: sfs_lookup_def)
    moreover have "same_view vol vol1" "vol_ok vol1" using unchanged_view L(2) Inl by (auto simp: unchanged_def vol_ok_def)
    ultimately show ?thesis using L(2) Inl by (intro exI [of _ "Inl e"] exI [of _ vol1]) (simp add: same_view_def)
  next
    case (Inr ps)
    then obtain p ino i where P: "ps = (p, int i)" "names vol nm = Some ino" "grabbed (\<lambda>_. 0) vol ino p vol1"
      using L(2) by (cases ps) auto
    have "sfs_lookup v nm vol = Some (Inr p, vol1)" using L(1) R(1,4) Inr P(1) by (simp add: sfs_lookup_def)
    then show ?thesis using P grabbed_taken(1) [OF inv P(3)]
      by (intro exI [of _ "Inr p"] exI [of _ vol1]) (simp add: grabbed_def vol_ok_def)
  qed
qed

lemma lookparent_ok:
  assumes ok: "vol_ok vol" and p: "held vol v = Some (ino, n)"
  shows "\<exists>r vol'. sfs_lookparent v path buflen vol = Some (r, vol') \<and> vol_ok vol' \<and> names vol' = names vol \<and> file_at vol' = file_at vol \<and>
    (case r of
       Inr (d, nm) \<Rightarrow> d = v \<and> nm = path \<and> ino = SFS_ROOTDIR_INO \<and> length path < buflen \<and> held vol' = (held vol)(v \<mapsto> (ino, n + 1))
     | Inl e \<Rightarrow> vol' = vol \<and> (if ino \<noteq> SFS_ROOTDIR_INO then e = ENOTDIR else e = ENAMETOOLONG \<and> buflen \<le> length path))"
proof -
  have inv: "vol_inv (\<lambda>_. 0) vol" using ok by (simp add: vol_ok_def)
  obtain x where x: "vn_get vol v = Some x" "sv_ino x = ino" "sv_refcount x = n" using p by (auto simp: held_def)
  have t: "sfi_type (sv_i x) = (if ino = 1 then SFS_TYPE_DIR else SFS_TYPE_FILE)"
    using vol_get(3) [OF inv x(1)] x(2) by (simp add: inode_ok_def)
  show ?thesis
  proof (cases "ino = 1 \<and> length path < buflen")
    case True
    define vol' where "vol' = vn_put v (x\<lparr>sv_refcount := sv_refcount x + 1\<rparr>) vol"
    note R = ref_change [OF inv x(1) refl _ vol'_def]
    have "sfs_lookparent v path buflen vol = Some (Inr (v, path), vol')"
      using x t True by (simp add: sfs_lookparent_def vnode_incref_def vol'_def)
    moreover have "held vol' = (held vol)(v \<mapsto> (ino, n + 1))" using R(5) x by (auto simp: held_def fun_eq_iff)
    ultimately show ?thesis using R(1-3) True by (intro exI [of _ "Inr (v, path)"] exI [of _ vol']) (simp add: vol_ok_def)
  next
    case False
    then have "sfs_lookparent v path buflen vol = Some (Inl (if ino = 1 then ENAMETOOLONG else ENOTDIR), vol)"
      using x t by (auto simp: sfs_lookparent_def)
    then show ?thesis using ok False by (intro exI [of _ "Inl (if ino = 1 then ENAMETOOLONG else ENOTDIR)"] exI [of _ vol]) auto
  qed
qed

subsection \<open>A small volume\<close>

text \<open>The volume demo_fs with an empty root directory and an open file that has no name, both in memory.\<close>

definition demo_inode :: "u16 \<Rightarrow> u16 \<Rightarrow> sfs_dinode" where
  "demo_inode type links = \<lparr>sfi_size = 0, sfi_type = type, sfi_linkcount = links, sfi_direct = replicate 15 0,
     sfi_indirect = 0, sfi_waste = replicate 110 0\<rparr>"

definition demo_root :: sfs_vnode where
  "demo_root = \<lparr>sv_i = demo_inode SFS_TYPE_DIR 2, sv_ino = 1, sv_dirty = True, sv_refcount = 1\<rparr>"

definition demo_open :: sfs_vnode where
  "demo_open = \<lparr>sv_i = demo_inode SFS_TYPE_FILE 0, sv_ino = 2, sv_dirty = True, sv_refcount = 1\<rparr>"

definition demo_vol :: sfs_vol where
  "demo_vol = \<lparr>vol_fs = demo_fs, vol_vnodes = \<lparr>ar_v = [Some 0, Some 1, None, None], ar_num = 2, ar_max = 4\<rparr>,
     vol_heap = [Some demo_root, Some demo_open], vol_kmem = []\<rparr>"

lemma demo_get: "vn_get demo_vol p = (if p = 0 then Some demo_root else if p = 1 then Some demo_open else None)"
proof -
  consider "p = 0" | "p = 1" | "2 \<le> p" by linarith
  then show ?thesis by cases (simp_all add: vn_get_def arr_get_def demo_vol_def)
qed

lemma demo_vol_ok: "vol_ok demo_vol" "held demo_vol 0 = Some (1, 1)" "held demo_vol 1 = Some (2, 1)" "root_at demo_vol 0"
  "names demo_vol = Map.empty"
proof -
  have ino: "sv_ino demo_root = 1" "sv_ino demo_open = 2" by (simp_all add: demo_root_def demo_open_def)
  show h: "held demo_vol 0 = Some (1, 1)" "held demo_vol 1 = Some (2, 1)"
    by (simp_all add: held_def demo_get) (simp_all add: demo_root_def demo_open_def)
  then show "root_at demo_vol 0" by (simp add: root_at_def)
  have arr: "array_ok (vol_vnodes demo_vol)" "elems (vol_vnodes demo_vol) = [0, 1]"
    by (simp_all add: array_ok_def elems_def demo_vol_def cap_def exI [of _ "2 :: nat"])
  have tab: "tab_ok demo_vol" unfolding tab_ok_def
    using arr by (auto simp: demo_get ino split: if_splits) (simp_all add: demo_root_def demo_open_def)
  have c: "cached demo_vol i = (if i = 1 then Some demo_root else if i = 2 then Some demo_open else None)" for i
    using cached_ino [OF tab] by (intro option_eqI) (auto simp: demo_get ino split: if_splits)
  then have root: "root_node demo_vol = demo_root" by (simp add: root_node_def)
  have fs: "vol_fs demo_vol = demo_fs" by (simp add: demo_vol_def)
  have t: "ftab demo_fs sv = replicate 143 0" if "sv = demo_root \<or> sv = demo_open" for sv
    using that by (auto simp: ftab_def indtab_def demo_root_def demo_open_def demo_inode_def simp flip: replicate_add)
  have blocks: "sv_blocks demo_fs sv = {}" if "sv = demo_root \<or> sv = demo_open" for sv
    using that t [OF that] by (auto simp: sv_blocks_def) (auto simp: demo_root_def demo_open_def demo_inode_def)
  have ok: "sv_ok demo_fs sv" if "sv = demo_root \<or> sv = demo_open" for sv
    using that t [OF that] blocks [OF that] by (auto simp: sv_ok_def) (auto simp: demo_root_def demo_open_def demo_inode_def)
  have fsok: "fs_ok demo_fs" using demo_ready(1) by (simp add: file_ready_def)
  have slots: "dir_slots demo_fs demo_root = []" by (simp add: dir_slots_def demo_root_def demo_inode_def)
  show n: "names demo_vol = Map.empty"
    by (simp add: names_def root fs dir_map_def slots slots_map_def lookup_slot_def fun_eq_iff)
  have nodes: "nodes demo_vol i = (if i = 1 then Some demo_root else if i = 2 then Some demo_open else None)" for i
    by (simp add: nodes_def c n)
  have nb: "nblk demo_fs = 16" by (simp add: demo_fs_def)
  have in1: "inode_ok demo_fs 1 demo_root" "inode_ok demo_fs 2 demo_open"
    using ok demo_ready(2) nb by (simp_all add: inode_ok_def) (simp_all add: demo_root_def demo_open_def demo_inode_def)
  have "files_ok demo_fs (nodes demo_vol)"
    unfolding files_ok_def using fsok in1 blocks nb by (auto simp: nodes split: if_splits)
  moreover have "dir_ok demo_fs demo_root"
    using fsok ok by (simp add: dir_ok_def dir_form_def slots names_unique_def) (simp add: demo_root_def demo_inode_def)
  moreover have "no_leak demo_fs (nodes demo_vol)"
    unfolding no_leak_def
  proof (intro allI impI)
    fix n
    assume "n < nblk demo_fs" "n \<notin> fs_free demo_fs"
    then consider "n = 0" | "n = unat (1 :: u32)" | "n = 2" using demo_ready(2) nb by fastforce
    then show "n \<in> sys_blocks demo_fs \<or> (\<exists>i sv. nodes demo_vol i = Some sv \<and> (n = unat i \<or> n \<in> unat ` sv_blocks demo_fs sv))"
    proof cases
      case 2
      then show ?thesis by (intro disjI2 exI [of _ 1] exI [of _ demo_root]) (simp add: nodes)
    qed (simp_all add: sys_blocks_def nb)
  qed
  ultimately show "vol_ok demo_vol" unfolding vol_ok_def vol_inv_def vol_core_def fs root n
    using tab by (auto simp: nodes c name_count_def n split: if_splits) (auto simp: demo_root_def demo_open_def demo_inode_def)
qed

subsection \<open>The contract of the directory operations\<close>

text \<open>
  C32: creating a file, on any consistent volume and with the directory held: an existing name is
  opened unless excl asks for failure, and gives one more reference to its inode; a new name gets a
  fresh inode with an empty file, one name and one reference. On failure nothing that a user of the volume sees has
  changed, and the reasons listed are the only ones. The call never halts and keeps the volume consistent.
\<close>

theorem sfs_creat_refines:
  assumes "vol_ok vol" "root_at vol v" "0 \<notin> set nm"
  shows "\<exists>r vol'. sfs_creat v nm excl vol = Some (r, vol') \<and> vol_ok vol' \<and>
    (case r of
       Inl e \<Rightarrow> same_view vol vol' \<and> creat_error e nm excl vol
     | Inr p \<Rightarrow> (case names vol nm of
         Some ino \<Rightarrow> \<not> excl \<and> names vol' = names vol \<and> file_at vol' = file_at vol \<and> taken vol ino p vol'
       | None \<Rightarrow> length nm < 60 \<and> (\<exists>b. file_at vol b = None \<and> b \<noteq> SFS_ROOTDIR_INO \<and> names vol' = (names vol)(nm \<mapsto> b) \<and>
           file_at vol' = (file_at vol)(b \<mapsto> (0, \<lambda>_. 0)) \<and> held vol p = None \<and> held vol' = (held vol)(p \<mapsto> (b, 1)))))"
  by (rule creat_ok [OF assms])

theorem sfs_creat_refines_witness:
  "\<exists>r vol'. sfs_creat 0 [97] True demo_vol = Some (r, vol') \<and> vol_ok vol' \<and>
    (case r of
       Inl e \<Rightarrow> same_view demo_vol vol' \<and> creat_error e [97] True demo_vol
     | Inr p \<Rightarrow> (case names demo_vol [97] of
         Some ino \<Rightarrow> \<not> True \<and> names vol' = names demo_vol \<and> file_at vol' = file_at demo_vol \<and> taken demo_vol ino p vol'
       | None \<Rightarrow> length [97 :: u8] < 60 \<and> (\<exists>b. file_at demo_vol b = None \<and> b \<noteq> SFS_ROOTDIR_INO \<and>
           names vol' = (names demo_vol)([97] \<mapsto> b) \<and> file_at vol' = (file_at demo_vol)(b \<mapsto> (0, \<lambda>_. 0)) \<and>
           held demo_vol p = None \<and> held vol' = (held demo_vol)(p \<mapsto> (b, 1)))))"
  by (rule sfs_creat_refines [OF demo_vol_ok(1,4)]) simp

text \<open>
  C35: a hard link adds the name for the inode of the vnode and nothing else; every failure leaves names, files and
  references alone. A directory cannot be linked.
\<close>

theorem sfs_link_refines:
  assumes "vol_ok vol" "root_at vol v" "0 \<notin> set nm" "held vol file = Some (ino, n)"
  shows "\<exists>r vol'. sfs_link v nm file vol = Some (r, vol') \<and> vol_ok vol' \<and> held vol' = held vol \<and> file_at vol' = file_at vol \<and>
    (case r of
       None \<Rightarrow> ino \<noteq> SFS_ROOTDIR_INO \<and> names vol nm = None \<and> length nm < 60 \<and> names vol' = (names vol)(nm \<mapsto> ino)
     | Some e \<Rightarrow> names vol' = names vol \<and> (if ino = SFS_ROOTDIR_INO then e = EINVAL else link_error e nm vol vol'))"
  by (rule link_ok [OF assms])

theorem sfs_link_refines_witness:
  "\<exists>r vol'. sfs_link 0 [97] 1 demo_vol = Some (r, vol') \<and> vol_ok vol' \<and> held vol' = held demo_vol \<and> file_at vol' = file_at demo_vol \<and>
    (case r of
       None \<Rightarrow> 2 \<noteq> SFS_ROOTDIR_INO \<and> names demo_vol [97] = None \<and> length [97 :: u8] < 60 \<and> names vol' = (names demo_vol)([97] \<mapsto> 2)
     | Some e \<Rightarrow> names vol' = names demo_vol \<and> (if 2 = SFS_ROOTDIR_INO then e = EINVAL else link_error e [97] demo_vol vol'))"
  by (rule sfs_link_refines [OF demo_vol_ok(1,4) _ demo_vol_ok(3)]) simp

text \<open>
  C33: removing takes the name away. The file lives on as long as it has another name or is held open, and is erased
  otherwise: its inode block and every data block of it are free again. The volume stays consistent, which includes
  that no block in use is lost (no_leak). The only failures are ENOENT for a name that is not there and ENOMEM; then nothing has changed.
\<close>

theorem sfs_remove_refines:
  assumes "vol_ok vol" "root_at vol v"
  shows "\<exists>r vol'. sfs_remove v nm vol = Some (r, vol') \<and> vol_ok vol' \<and> held vol' = held vol \<and>
    (case r of
       None \<Rightarrow> \<exists>ino. names vol nm = Some ino \<and> names vol' = (names vol)(nm := None) \<and>
         file_at vol' = (if ino \<notin> ran (names vol') \<and> \<not> opened vol ino then (file_at vol)(ino := None) else file_at vol) \<and>
         (ino \<notin> ran (names vol') \<and> \<not> opened vol ino \<longrightarrow> inode_blocks vol ino \<subseteq> fs_free (vol_fs vol'))
     | Some e \<Rightarrow> names vol' = names vol \<and> file_at vol' = file_at vol \<and>
         (if names vol nm = None then e = ENOENT else e = ENOMEM \<and> False \<in> set (vol_kmem vol)))"
  by (rule remove_ok [OF assms])

theorem sfs_remove_refines_witness:
  "\<exists>r vol'. sfs_remove 0 [97] demo_vol = Some (r, vol') \<and> vol_ok vol' \<and> held vol' = held demo_vol \<and>
    (case r of
       None \<Rightarrow> \<exists>ino. names demo_vol [97] = Some ino \<and> names vol' = (names demo_vol)([97] := None) \<and>
         file_at vol' = (if ino \<notin> ran (names vol') \<and> \<not> opened demo_vol ino then (file_at demo_vol)(ino := None) else file_at demo_vol) \<and>
         (ino \<notin> ran (names vol') \<and> \<not> opened demo_vol ino \<longrightarrow> inode_blocks demo_vol ino \<subseteq> fs_free (vol_fs vol'))
     | Some e \<Rightarrow> names vol' = names demo_vol \<and> file_at vol' = file_at demo_vol \<and>
         (if names demo_vol [97] = None then e = ENOENT else e = ENOMEM \<and> False \<in> set (vol_kmem demo_vol)))"
  by (rule sfs_remove_refines [OF demo_vol_ok(1,4)])

text \<open>
  C34: renaming moves the inode from the old name to the new one, which must be free, and touches no file and no
  reference; on failure the old name is still there. The recovery code that panics is never reached.
\<close>

theorem sfs_rename_refines:
  assumes "vol_ok vol" "root_at vol v" "0 \<notin> set n2"
  shows "\<exists>r vol'. sfs_rename v n1 v n2 vol = Some (r, vol') \<and> vol_ok vol' \<and> held vol' = held vol \<and> file_at vol' = file_at vol \<and>
    (case r of
       None \<Rightarrow> \<exists>ino. names vol n1 = Some ino \<and> names vol n2 = None \<and> length n2 < 60 \<and>
         names vol' = (names vol)(n2 \<mapsto> ino, n1 := None)
     | Some e \<Rightarrow> names vol' = names vol \<and> rename_error e n1 n2 vol)"
  by (rule rename_ok [OF assms])

theorem sfs_rename_refines_witness:
  "\<exists>r vol'. sfs_rename 0 [97] 0 [98] demo_vol = Some (r, vol') \<and> vol_ok vol' \<and> held vol' = held demo_vol \<and>
    file_at vol' = file_at demo_vol \<and>
    (case r of
       None \<Rightarrow> \<exists>ino. names demo_vol [97] = Some ino \<and> names demo_vol [98] = None \<and> length [98 :: u8] < 60 \<and>
         names vol' = (names demo_vol)([98] \<mapsto> ino, [97] := None)
     | Some e \<Rightarrow> names vol' = names demo_vol \<and> rename_error e [97] [98] demo_vol)"
  by (rule sfs_rename_refines [OF demo_vol_ok(1,4)]) simp

end
