(* ===== verification/Sfsfile.thy ===== *)
theory Sfsfile
  imports Sfsvnops
begin

text \<open>
  Reading and writing through a vnode of the volume: sfs_read, sfs_write, sfs_truncate and
  sfs_fsync of kern/fs/sfs/sfs_vnops.c keep the invariant of the volume, and are a read, a write
  and a truncation of the file of the vnode's inode.
\<close>

subsection \<open>What sfs_io leaves alone in the vnode\<close>

lemma partialio_kept: "sfs_partialio um sv u s l fs m = Some ((r, u'), sv', fs', m') \<Longrightarrow> sv_kept sv sv'"
proof -
  assume run: "sfs_partialio um sv u s l fs m = Some ((r, u'), sv', fs', m')"
  obtain r1 sv1 fs1 where b: "sfs_bmap sv (fileblock_of (uio_offset u)) (uio_rw u = UIO_WRITE) fs = Some (r1, sv1, fs1)"
    using run by (auto simp: sfs_partialio_def Let_def Option.bind_eq_Some_conv split: if_split_asm)
  have "sv' = sv1"
    using run b by (auto simp: sfs_partialio_def Let_def Option.bind_eq_Some_conv split: if_split_asm sum.split_asm option.split_asm)
  then show "sv_kept sv sv'" using bmap_kept [OF b] by simp
qed

lemma blockio_kept: "sfs_blockio um sv u fs m = Some ((r, u'), sv', fs', m') \<Longrightarrow> sv_kept sv sv'"
proof -
  assume run: "sfs_blockio um sv u fs m = Some ((r, u'), sv', fs', m')"
  obtain r1 sv1 fs1 where b: "sfs_bmap sv (fileblock_of (uio_offset u)) (uio_rw u = UIO_WRITE) fs = Some (r1, sv1, fs1)"
    using run by (auto simp: sfs_blockio_def Let_def Option.bind_eq_Some_conv)
  have "sv' = sv1"
    using run b by (auto simp: sfs_blockio_def Let_def Option.bind_eq_Some_conv split: if_split_asm sum.split_asm option.split_asm)
  then show "sv_kept sv sv'" using bmap_kept [OF b] by simp
qed

lemma blockio_loop_kept: "blockio_loop um n sv u fs m = Some ((r, u'), sv', fs', m') \<Longrightarrow> sv_kept sv sv'"
proof (induction n arbitrary: sv u fs m)
  case (Suc n)
  obtain r1 u1 sv1 fs1 m1 where b: "sfs_blockio um sv u fs m = Some ((r1, u1), sv1, fs1, m1)"
    using Suc.prems by (auto simp: Option.bind_eq_Some_conv)
  note k = blockio_kept [OF b]
  show ?case
  proof (cases r1)
    case None
    then have "blockio_loop um n sv1 u1 fs1 m1 = Some ((r, u'), sv', fs', m')" using Suc.prems b by simp
    from Suc.IH [OF this] show ?thesis by (rule sv_kept_trans [OF k])
  qed (use Suc.prems b k in simp)
qed simp

lemma io_tail_kept: "io_tail um sv u fs m = Some ((r, u'), sv', fs', m') \<Longrightarrow> sv_kept sv sv'"
  by (auto simp: io_tail_def Option.bind_eq_Some_conv split: if_split_asm dest: partialio_kept)

lemma io_rest_kept: "io_rest um sv u fs m = Some ((r, u'), sv', fs', m') \<Longrightarrow> sv_kept sv sv'"
proof (cases "uio_resid u = 0")
  case False
  assume run: "io_rest um sv u fs m = Some ((r, u'), sv', fs', m')"
  obtain r1 u1 sv1 fs1 m1 where b: "blockio_loop um (unat (uio_resid u div 512)) sv u fs m = Some ((r1, u1), sv1, fs1, m1)"
      "(case r1 of Some e \<Rightarrow> Some ((Some e, u1), sv1, fs1, m1) | None \<Rightarrow> io_tail um sv1 u1 fs1 m1) = Some ((r, u'), sv', fs', m')"
    using run False by (auto simp: io_rest_def Let_def Option.bind_eq_Some_conv split: if_split_asm)
  show "sv_kept sv sv'"
    using b(2) blockio_loop_kept [OF b(1)] by (cases r1) (simp, blast intro: io_tail_kept sv_kept_trans, simp)
qed (simp add: io_rest_def)

lemma io_phases_kept: "io_phases um sv u fs m = Some ((r, u'), sv', fs', m') \<Longrightarrow> sv_kept sv sv'"
proof (cases "io_skip u = 0")
  case False
  assume run: "io_phases um sv u fs m = Some ((r, u'), sv', fs', m')"
  obtain r1 u1 sv1 fs1 m1 where b: "sfs_partialio um sv u (io_skip u) (io_len u) fs m = Some ((r1, u1), sv1, fs1, m1)"
      "(case r1 of Some e \<Rightarrow> Some ((Some e, u1), sv1, fs1, m1) | None \<Rightarrow> io_rest um sv1 u1 fs1 m1) = Some ((r, u'), sv', fs', m')"
    using run False by (auto simp: io_phases_def Let_def Option.bind_eq_Some_conv)
  show "sv_kept sv sv'"
    using b(2) partialio_kept [OF b(1)] by (cases r1) (simp, blast intro: io_rest_kept sv_kept_trans, simp)
qed (simp add: io_phases_def io_rest_kept)

lemma io_kept: "sfs_io um sv u fs m = Some ((r, u'), sv', fs', m') \<Longrightarrow> sv_kept sv sv'"
proof (cases "uio_rw u = UIO_READ \<and> uio_offset u \<ge> int (unat (sfi_size (sv_i sv)))")
  case False
  assume run: "sfs_io um sv u fs m = Some ((r, u'), sv', fs', m')"
  obtain r1 u1 sv1 fs1 m1 where b: "io_phases um sv (u\<lparr>uio_resid := uio_resid u - extraresid sv u\<rparr>) fs m = Some ((r1, u1), sv1, fs1, m1)"
      "sv' = sv1 \<or> sv' = (set_inode (sfi_size_update (\<lambda>_. word_of_int (uio_offset u1))) sv1)\<lparr>sv_dirty := True\<rparr>"
    using run False unfolding sfs_io_def Let_def by (auto simp: Option.bind_eq_Some_conv split: if_split_asm)
  have "sv_kept sv1 ((set_inode (sfi_size_update (\<lambda>_. word_of_int (uio_offset u1))) sv1)\<lparr>sv_dirty := True\<rparr>)"
    by (simp add: sv_kept_def touched_def set_inode_def)
  then show "sv_kept sv sv'" using b(2) io_phases_kept [OF b(1)] sv_kept_trans by blast
qed (auto simp: sfs_io_def)

subsection \<open>Transfers through a vnode\<close>

text \<open>A transfer, sfs_read or sfs_write, on the vnode at an address.\<close>

definition io_vnode ::
  "(sfs_vnode \<Rightarrow> uio \<Rightarrow> sfs_fs \<Rightarrow> 'm \<Rightarrow> 'm io_result) \<Rightarrow> nat \<Rightarrow> uio \<Rightarrow> sfs_vol \<Rightarrow> 'm \<Rightarrow> ((status \<times> uio) \<times> sfs_vol \<times> 'm) option" where
  "io_vnode f p u vol m = do {
     sv \<leftarrow> vn_get vol p;
     (r, sv1, fs1, m1) \<leftarrow> f sv u (vol_fs vol) m;
     Some (r, vn_put p sv1 (vol\<lparr>vol_fs := fs1\<rparr>), m1)
   }"

lemma vol_write_ok:
  assumes ok: "vol_ok vol" and p: "held vol p = Some (ino, k)" "ino \<noteq> 1" and bs: "bs \<noteq> []" "x + length bs < 2 ^ 32"
  shows "\<exists>r u' vol' m' n F. io_vnode (sfs_write um) p (uio_kinit bs (of_nat (length bs)) (int x) UIO_WRITE) vol m =
      Some ((r, u'), vol', m') \<and> vol_ok vol' \<and> names vol' = names vol \<and> held vol' = held vol \<and> file_at vol ino = Some F \<and>
    file_at vol' = (file_at vol)(ino \<mapsto> abs_write x (take n bs) F) \<and> unat (uio_resid u') = length bs - n \<and>
    (case r of None \<Rightarrow> n = length bs
     | Some e \<Rightarrow> n < length bs \<and> (e = EFBIG \<and> max_bytes \<le> x + n \<or> e = ENOSPC \<and> card (fs_free (vol_fs vol')) < 2))"
proof -
  have inv: "vol_inv (\<lambda>_. 0) vol" using ok by (simp add: vol_ok_def)
  obtain sv where sv: "vn_get vol p = Some sv" "sv_ino sv = ino" "sv_refcount sv = k" using p(1) by (auto simp: held_def)
  note D = vol_invD [OF inv] and G = vol_get [OF inv sv(1)] and T = tab_okD [OF vol_invD(1) [OF inv]]
  have ready: "file_ready (vol_fs vol) sv" by (rule files_ok_ready [OF D(2) G(2)])
  obtain r u' sv' fs' m' n where W:
      "sfs_write um sv (uio_kinit bs (of_nat (length bs)) (int x) UIO_WRITE) (vol_fs vol) m = Some ((r, u'), sv', fs', m')"
      "abs_file fs' sv' = abs_write x (take n bs) (abs_file (vol_fs vol) sv)" "unat (uio_resid u') = length bs - n"
      "file_ready fs' sv'" "file_step (vol_fs vol) sv fs' sv'"
      "case r of None \<Rightarrow> n = length bs
       | Some e \<Rightarrow> n < length bs \<and> (e = EFBIG \<and> max_bytes \<le> x + n \<or> e = ENOSPC \<and> card (fs_free fs') < 2)"
    using write_ok [OF ready bs, of um m] by (elim exE conjE) (rule that)
  have "sfs_io um sv (uio_kinit bs (of_nat (length bs)) (int x) UIO_WRITE) (vol_fs vol) m = Some ((r, u'), sv', fs', m')"
    using W(1) by (simp add: sfs_write_def split: if_split_asm)
  from io_kept [OF this] have K: "sv_ino sv' = sv_ino sv" "0 < sv_refcount sv'" "sfi_waste (sv_i sv') = sfi_waste (sv_i sv)"
      "sfi_type (sv_i sv') = sfi_type (sv_i sv)" "sfi_linkcount (sv_i sv') = sfi_linkcount (sv_i sv)" "touched sv sv'"
      "sv_refcount sv' = sv_refcount sv"
    using T(5) [OF sv(1)] by (simp_all add: sv_kept_def)
  define vol' where "vol' = vn_put p sv' (vol\<lparr>vol_fs := fs'\<rparr>)"
  have fr: "fs_same (vol_fs vol) fs'" "fs_frame (sv_blocks (vol_fs vol) sv) (vol_fs vol) fs'" "fs_ok fs'" "sv_ok fs' sv'"
      "unat ` sv_blocks fs' sv' \<subseteq> unat ` sv_blocks (vol_fs vol) sv \<union> fs_free (vol_fs vol)"
      "file_pool (vol_fs vol) sv \<subseteq> file_pool fs' sv'"
    using W(5) by (simp_all add: file_step_iff)
  note O = frame_others [OF D(2) G(2) fr(1,2)]
  have S: "unat (sfi_size (sv_i sv')) \<le> max_bytes" using W(4) by (simp add: file_ready_def)
  have wl: "length (sfi_waste (sv_i sv')) = 110" using G(3) K(3) by (simp add: inode_ok_def)
  have clean: "dinode_of (dsk fs' (unat (sv_ino sv))) = sv_i sv'" if "\<not> sv_dirty sv'"
  proof -
    have c: "\<not> sv_dirty sv" "sv_i sv' = sv_i sv" using that K(6) by (auto simp: touched_def)
    show ?thesis using D(6) [OF G(1) c(1)] c(2) others_keptD(4) [OF O G(2)] by simp
  qed
  have ino: "sv_ino sv \<noteq> 1" using p(2) sv(2) by simp
  have l: "int (unat (sfi_linkcount (sv_i sv'))) = int (name_count vol (sv_ino sv)) + (\<lambda>_. 0) (sv_ino sv)"
    using D(7) [OF G(2) ino] unfolding K(5) .
  have d: "\<And>j. j \<noteq> sv_ino sv \<Longrightarrow> (\<lambda>_. 0 :: int) j = (\<lambda>_. 0) j" by simp
  note C = file_change [where d = "\<lambda>_. 0" and d' = "\<lambda>_. 0", OF inv sv(1) ino K(1,2) O fr(3,4,5,6) S wl K(4) clean l d vol'_def]
  have f': "vol_fs vol' = fs'" by (simp add: vol'_def)
  have "vol_ok vol'" unfolding vol_ok_def by (rule C(1); assumption)
  moreover have "names vol' = names vol" by (rule C(2); assumption)
  moreover have "file_at vol' = (file_at vol)(ino \<mapsto> abs_write x (take n bs) (abs_file (vol_fs vol) sv))"
    unfolding W(2) [symmetric] sv(2) [symmetric] by (rule C(4); assumption)
  moreover have "file_at vol ino = Some (abs_file (vol_fs vol) sv)" using G(2) sv(2) p(2) by (simp add: file_at_def)
  moreover have "held vol' = held vol"
    using put_tab(3) [OF D(1) sv(1) K(1,2) vol'_def] sv(1) K(1,7) by (auto simp: held_def fun_eq_iff)
  moreover have "io_vnode (sfs_write um) p (uio_kinit bs (of_nat (length bs)) (int x) UIO_WRITE) vol m = Some ((r, u'), vol', m')"
    using sv(1) W(1) by (simp add: io_vnode_def vol'_def)
  ultimately show ?thesis using W(3,6) unfolding f' [symmetric] by - (intro exI conjI, assumption+)
qed

lemma vol_read_ok:
  assumes ok: "vol_ok vol" and p: "held vol p = Some (ino, k)" "ino \<noteq> 1" and n: "length buf < 2 ^ 32"
  shows "\<exists>u' vol' m' F. io_vnode (sfs_read um) p (uio_kinit buf (of_nat (length buf)) (int x) UIO_READ) vol m =
      Some ((None, u'), vol', m') \<and> vol_ok vol' \<and> names vol' = names vol \<and> held vol' = held vol \<and> file_at vol' = file_at vol \<and>
    file_at vol ino = Some F \<and> kuio_out u' m' = abs_read x (length buf) F \<and>
    unat (uio_resid u') = length buf - length (abs_read x (length buf) F)"
proof -
  have inv: "vol_inv (\<lambda>_. 0) vol" using ok by (simp add: vol_ok_def)
  obtain sv where sv: "vn_get vol p = Some sv" "sv_ino sv = ino" using p(1) by (auto simp: held_def)
  note D = vol_invD [OF inv] and G = vol_get [OF inv sv(1)] and T = tab_okD [OF vol_invD(1) [OF inv]]
  have ready: "file_ready (vol_fs vol) sv" by (rule files_ok_ready [OF D(2) G(2)])
  obtain u' fs' m' where R: "sfs_read um sv (uio_kinit buf (of_nat (length buf)) (int x) UIO_READ) (vol_fs vol) m =
      Some ((None, u'), sv, fs', m')" "kuio_out u' m' = abs_read x (length buf) (abs_file (vol_fs vol) sv)"
      "unat (uio_resid u') = length buf - length (abs_read x (length buf) (abs_file (vol_fs vol) sv))"
      "fs_quiet (vol_fs vol) fs'"
    using read_ok [OF ready n, of um x m] by (elim exE conjE) (rule that)
  define vol' where "vol' = vol\<lparr>vol_fs := fs'\<rparr>"
  have "vn_put p sv (vol\<lparr>vol_fs := fs'\<rparr>) = vol'"
    unfolding vol'_def by (rule vn_put_same) (use sv(1) in \<open>simp add: vn_get_def\<close>)
  then have "io_vnode (sfs_read um) p (uio_kinit buf (of_nat (length buf)) (int x) UIO_READ) vol m = Some ((None, u'), vol', m')"
    using sv(1) R(1) by (simp add: io_vnode_def)
  moreover have u: "unchanged (\<lambda>_. 0) vol vol'" using R(4) T(1) by (intro quiet_unchanged [OF inv]) (simp_all add: vol'_def)
  moreover have "file_at vol ino = Some (abs_file (vol_fs vol) sv)" using G(2) sv(2) p(2) by (simp add: file_at_def)
  ultimately show ?thesis using R(2,3) unchanged_view [OF u] unfolding same_view_def unchanged_def vol_ok_def
    by (intro exI [of _ u'] exI [of _ vol'] exI [of _ m'] exI [of _ "abs_file (vol_fs vol) sv"]) simp
qed

definition trunc_of :: "nat \<Rightarrow> afile \<Rightarrow> afile \<Rightarrow> bool" where
  "trunc_of len F F' \<longleftrightarrow> fst F' = len \<and> (\<forall>p < len. snd F' p = snd F p)"

lemma vol_trunc_ok:
  assumes ok: "vol_ok vol" and p: "held vol p = Some (ino, k)" "ino \<noteq> 1" and len: "len \<le> max_bytes"
  shows "\<exists>vol' F F'. on_vnode p (\<lambda>sv. sfs_itrunc sv (int len)) vol = Some (None, vol') \<and> vol_ok vol' \<and> names vol' = names vol \<and>
    held vol' = held vol \<and> file_at vol ino = Some F \<and> file_at vol' = (file_at vol)(ino \<mapsto> F') \<and> trunc_of len F F'"
proof -
  have inv: "vol_inv (\<lambda>_. 0) vol" using ok by (simp add: vol_ok_def)
  obtain sv where sv: "vn_get vol p = Some sv" "sv_ino sv = ino" using p(1) by (auto simp: held_def)
  have i: "sv_ino sv \<noteq> 1" using p(2) sv(2) by simp
  obtain vol' sv' where T: "on_vnode p (\<lambda>sv. sfs_itrunc sv (int len)) vol = Some (None, vol')" "vol_inv (\<lambda>_. 0) vol'" "names vol' = names vol"
      "\<forall>q. vn_get vol' q = (if q = p then Some sv' else vn_get vol q)"
      "file_at vol' = (file_at vol)(sv_ino sv \<mapsto> abs_file (vol_fs vol') sv')" "sv_ino sv' = sv_ino sv" "sv_refcount sv' = sv_refcount sv"
      "unat (sfi_size (sv_i sv')) = len" "map (fbyte (vol_fs vol') sv') [0..<len] = map (fbyte (vol_fs vol) sv) [0..<len]"
    using trunc_change [OF inv sv(1) i len] by blast
  have "trunc_of len (abs_file (vol_fs vol) sv) (abs_file (vol_fs vol') sv')"
    using T(8,9) by (simp add: trunc_of_def abs_file_def)
  moreover have "held vol' = held vol" using T(4,6,7) sv(1) by (auto simp: held_def fun_eq_iff)
  moreover have "file_at vol ino = Some (abs_file (vol_fs vol) sv)" using vol_get(2) [OF inv sv(1)] sv(2) p(2) by (simp add: file_at_def)
  ultimately show ?thesis using T(1-3,5) sv(2)
    by (intro exI [of _ vol'] exI [of _ "abs_file (vol_fs vol) sv"] exI [of _ "abs_file (vol_fs vol') sv'"]) (simp add: vol_ok_def)
qed

lemma vol_fsync_ok:
  assumes ok: "vol_ok vol" and p: "held vol p = Some (ino, k)"
  shows "\<exists>vol'. on_vnode p sfs_sync_inode vol = Some (None, vol') \<and> vol_ok vol' \<and> same_view vol vol'"
proof -
  have inv: "vol_inv (\<lambda>_. 0) vol" using ok by (simp add: vol_ok_def)
  obtain sv where sv: "vn_get vol p = Some sv" using p by (auto simp: held_def)
  obtain vol' where S: "on_vnode p sfs_sync_inode vol = Some (None, vol')" "vol_inv (\<lambda>_. 0) vol'" "names vol' = names vol"
      "file_at vol' = file_at vol" "\<forall>q. vn_get vol' q = (if q = p then Some (sv\<lparr>sv_dirty := False\<rparr>) else vn_get vol q)"
    using sync_inode_ok [OF inv sv] by blast
  moreover have "held vol' = held vol" using S(5) sv by (auto simp: held_def fun_eq_iff)
  ultimately show ?thesis by (intro exI [of _ vol']) (simp add: same_view_def vol_ok_def)
qed

end
