(* ===== verification/Vnodeops.thy ===== *)
theory Vnodeops
  imports Sfsfile
begin

text \<open>
  The operations of vnodes as the kernel calls them: the tables sfs_fileops and sfs_dirops of
  kern/fs/sfs/sfs_vnops.c, the failing operations of kern/vfs/vfsfail.c that fill their gaps, and
  the macros VOP_* of include/vnode.h, which check the vnode (vnode_check of kern/vfs/vnode.c) and
  dispatch on its table. The theorems say what type every vnode has, and that any sequence of
  calls on vnodes that are held keeps the volume consistent and never halts.
\<close>

subsection \<open>Operations on any vnode\<close>

abbreviation (input) S_IFREG :: u32 where "S_IFREG \<equiv> 4096"
abbreviation (input) S_IFDIR :: u32 where "S_IFDIR \<equiv> 8192"
abbreviation (input) O_RDONLY :: u32 where "O_RDONLY \<equiv> 0"
abbreviation (input) O_WRONLY :: u32 where "O_WRONLY \<equiv> 1"
abbreviation (input) O_RDWR :: u32 where "O_RDWR \<equiv> 2"
abbreviation (input) O_CREAT :: u32 where "O_CREAT \<equiv> 4"
abbreviation (input) O_EXCL :: u32 where "O_EXCL \<equiv> 8"
abbreviation (input) O_TRUNC :: u32 where "O_TRUNC \<equiv> 16"
abbreviation (input) O_APPEND :: u32 where "O_APPEND \<equiv> 32"
abbreviation (input) O_ACCMODE :: u32 where "O_ACCMODE \<equiv> 3"

unbundle bit_operations_syntax

definition sfs_eachopen :: "nat \<Rightarrow> u32 \<Rightarrow> status" where
  "sfs_eachopen v openflags = None"

definition sfs_eachopendir :: "nat \<Rightarrow> u32 \<Rightarrow> status" where
  "sfs_eachopendir v openflags =
     (if openflags AND O_ACCMODE \<noteq> O_RDONLY then Some EISDIR
      else if openflags AND O_APPEND \<noteq> 0 then Some EISDIR
      else None)"

definition sfs_ioctl :: "nat \<Rightarrow> u32 \<Rightarrow> u32 \<Rightarrow> status" where
  "sfs_ioctl v op data = Some EINVAL"

text \<open>None is the panic at an inode of invalid type.\<close>

definition sfs_gettype :: "nat \<Rightarrow> sfs_vol \<Rightarrow> u32 option" where
  "sfs_gettype v vol = do {
     sv \<leftarrow> vn_get vol v;
     if sfi_type (sv_i sv) = SFS_TYPE_FILE then Some S_IFREG
     else if sfi_type (sv_i sv) = SFS_TYPE_DIR then Some S_IFDIR
     else None
   }"

text \<open>
  The check before every operation: the vnode is there and somebody holds it. The count is an int in the code and a
  number here; a number past the largest int is a negative count there, for which the check panics.
\<close>

definition vnode_check :: "nat \<Rightarrow> sfs_vol \<Rightarrow> unit option" where
  "vnode_check v vol = do { sv \<leftarrow> vn_get vol v; kassert (sv_refcount sv < 2 ^ 31); kassert (sv_refcount sv \<noteq> 0) }"

text \<open>The fields of struct stat that sfs_stat sets; the others are zero.\<close>

record stat =
  st_size :: int
  st_mode :: u32
  st_nlink :: u16
  st_blocks :: u32

definition sfs_stat :: "nat \<Rightarrow> sfs_vol \<Rightarrow> stat option" where
  "sfs_stat v vol = do {
     vnode_check v vol;
     mode \<leftarrow> sfs_gettype v vol;
     sv \<leftarrow> vn_get vol v;
     Some \<lparr>st_size = int (unat (sfi_size (sv_i sv))), st_mode = mode, st_nlink = sfi_linkcount (sv_i sv), st_blocks = 0\<rparr>
   }"

definition sfs_isseekable :: "nat \<Rightarrow> bool" where
  "sfs_isseekable v = True"

definition sfs_fsync :: "nat \<Rightarrow> sfs_vol \<Rightarrow> (status \<times> sfs_vol) option" where
  "sfs_fsync v vol = on_vnode v sfs_sync_inode vol"

definition sfs_mmap :: "nat \<Rightarrow> status" where
  "sfs_mmap v = Some ENOSYS"

definition sfs_truncate :: "nat \<Rightarrow> int \<Rightarrow> sfs_vol \<Rightarrow> (status \<times> sfs_vol) option" where
  "sfs_truncate v len vol = on_vnode v (\<lambda>sv. sfs_itrunc sv len) vol"

text \<open>The name of the root directory relative to the volume is empty: nothing is written to the uio.\<close>

definition sfs_namefile :: "nat \<Rightarrow> uio \<Rightarrow> sfs_vol \<Rightarrow> (status \<times> uio) option" where
  "sfs_namefile v u vol = do {
     sv \<leftarrow> vn_get vol v;
     kassert (sv_ino sv = SFS_ROOTDIR_INO);
     Some (None, u)
   }"

subsection \<open>Failing operations: kern/vfs/vfsfail.c\<close>

type_synonym 'm vop_uio = "'m umem \<Rightarrow> nat \<Rightarrow> uio \<Rightarrow> sfs_vol \<Rightarrow> 'm \<Rightarrow> ((status \<times> uio) \<times> sfs_vol \<times> 'm) option"

definition vopfail_uio_notdir :: "'m vop_uio" where
  "vopfail_uio_notdir um v u vol m = Some ((Some ENOTDIR, u), vol, m)"

definition vopfail_uio_isdir :: "'m vop_uio" where
  "vopfail_uio_isdir um v u vol m = Some ((Some EISDIR, u), vol, m)"

definition vopfail_uio_inval :: "'m vop_uio" where
  "vopfail_uio_inval um v u vol m = Some ((Some EINVAL, u), vol, m)"

definition vopfail_uio_nosys :: "'m vop_uio" where
  "vopfail_uio_nosys um v u vol m = Some ((Some ENOSYS, u), vol, m)"

definition vopfail_mmap_isdir :: "nat \<Rightarrow> status" where
  "vopfail_mmap_isdir v = Some EISDIR"

definition vopfail_truncate_isdir :: "nat \<Rightarrow> int \<Rightarrow> sfs_vol \<Rightarrow> (status \<times> sfs_vol) option" where
  "vopfail_truncate_isdir v pos vol = Some (Some EISDIR, vol)"

definition vopfail_creat_notdir :: "nat \<Rightarrow> u8 list \<Rightarrow> bool \<Rightarrow> u32 \<Rightarrow> sfs_vol \<Rightarrow> ((errno + nat) \<times> sfs_vol) option" where
  "vopfail_creat_notdir v nm excl mode vol = Some (Inl ENOTDIR, vol)"

definition vopfail_symlink_notdir :: "nat \<Rightarrow> u8 list \<Rightarrow> u8 list \<Rightarrow> status" where
  "vopfail_symlink_notdir v contents nm = Some ENOTDIR"

definition vopfail_symlink_nosys :: "nat \<Rightarrow> u8 list \<Rightarrow> u8 list \<Rightarrow> status" where
  "vopfail_symlink_nosys v contents nm = Some ENOSYS"

definition vopfail_mkdir_notdir :: "nat \<Rightarrow> u8 list \<Rightarrow> u32 \<Rightarrow> status" where
  "vopfail_mkdir_notdir v nm mode = Some ENOTDIR"

definition vopfail_mkdir_nosys :: "nat \<Rightarrow> u8 list \<Rightarrow> u32 \<Rightarrow> status" where
  "vopfail_mkdir_nosys v nm mode = Some ENOSYS"

definition vopfail_link_notdir :: "nat \<Rightarrow> u8 list \<Rightarrow> nat \<Rightarrow> sfs_vol \<Rightarrow> (status \<times> sfs_vol) option" where
  "vopfail_link_notdir dir nm file vol = Some (Some ENOTDIR, vol)"

definition vopfail_string_notdir :: "nat \<Rightarrow> u8 list \<Rightarrow> sfs_vol \<Rightarrow> (status \<times> sfs_vol) option" where
  "vopfail_string_notdir v nm vol = Some (Some ENOTDIR, vol)"

definition vopfail_string_nosys :: "nat \<Rightarrow> u8 list \<Rightarrow> sfs_vol \<Rightarrow> (status \<times> sfs_vol) option" where
  "vopfail_string_nosys v nm vol = Some (Some ENOSYS, vol)"

definition vopfail_rename_notdir :: "nat \<Rightarrow> u8 list \<Rightarrow> nat \<Rightarrow> u8 list \<Rightarrow> sfs_vol \<Rightarrow> (status \<times> sfs_vol) option" where
  "vopfail_rename_notdir d1 n1 d2 n2 vol = Some (Some ENOTDIR, vol)"

definition vopfail_lookup_notdir :: "nat \<Rightarrow> u8 list \<Rightarrow> sfs_vol \<Rightarrow> ((errno + nat) \<times> sfs_vol) option" where
  "vopfail_lookup_notdir v path vol = Some (Inl ENOTDIR, vol)"

definition vopfail_lookparent_notdir :: "nat \<Rightarrow> u8 list \<Rightarrow> nat \<Rightarrow> sfs_vol \<Rightarrow> ((errno + nat \<times> u8 list) \<times> sfs_vol) option" where
  "vopfail_lookparent_notdir v path len vol = Some (Inl ENOTDIR, vol)"

subsection \<open>The tables\<close>

record 'm vnode_ops =
  vop_eachopen :: "nat \<Rightarrow> u32 \<Rightarrow> status"
  vop_reclaim :: "nat \<Rightarrow> sfs_vol \<Rightarrow> (status \<times> sfs_vol) option"
  vop_read :: "'m vop_uio"
  vop_readlink :: "'m vop_uio"
  vop_getdirentry :: "'m vop_uio"
  vop_write :: "'m vop_uio"
  vop_ioctl :: "nat \<Rightarrow> u32 \<Rightarrow> u32 \<Rightarrow> status"
  vop_stat :: "nat \<Rightarrow> sfs_vol \<Rightarrow> stat option"
  vop_gettype :: "nat \<Rightarrow> sfs_vol \<Rightarrow> u32 option"
  vop_isseekable :: "nat \<Rightarrow> bool"
  vop_fsync :: "nat \<Rightarrow> sfs_vol \<Rightarrow> (status \<times> sfs_vol) option"
  vop_mmap :: "nat \<Rightarrow> status"
  vop_truncate :: "nat \<Rightarrow> int \<Rightarrow> sfs_vol \<Rightarrow> (status \<times> sfs_vol) option"
  vop_namefile :: "'m vop_uio"
  vop_creat :: "nat \<Rightarrow> u8 list \<Rightarrow> bool \<Rightarrow> u32 \<Rightarrow> sfs_vol \<Rightarrow> ((errno + nat) \<times> sfs_vol) option"
  vop_symlink :: "nat \<Rightarrow> u8 list \<Rightarrow> u8 list \<Rightarrow> status"
  vop_mkdir :: "nat \<Rightarrow> u8 list \<Rightarrow> u32 \<Rightarrow> status"
  vop_link :: "nat \<Rightarrow> u8 list \<Rightarrow> nat \<Rightarrow> sfs_vol \<Rightarrow> (status \<times> sfs_vol) option"
  vop_remove :: "nat \<Rightarrow> u8 list \<Rightarrow> sfs_vol \<Rightarrow> (status \<times> sfs_vol) option"
  vop_rmdir :: "nat \<Rightarrow> u8 list \<Rightarrow> sfs_vol \<Rightarrow> (status \<times> sfs_vol) option"
  vop_rename :: "nat \<Rightarrow> u8 list \<Rightarrow> nat \<Rightarrow> u8 list \<Rightarrow> sfs_vol \<Rightarrow> (status \<times> sfs_vol) option"
  vop_lookup :: "nat \<Rightarrow> u8 list \<Rightarrow> sfs_vol \<Rightarrow> ((errno + nat) \<times> sfs_vol) option"
  vop_lookparent :: "nat \<Rightarrow> u8 list \<Rightarrow> nat \<Rightarrow> sfs_vol \<Rightarrow> ((errno + nat \<times> u8 list) \<times> sfs_vol) option"

definition sfs_fileops :: "'m vnode_ops" where
  "sfs_fileops = \<lparr>
     vop_eachopen = sfs_eachopen,
     vop_reclaim = sfs_reclaim,
     vop_read = (\<lambda>um. io_vnode (sfs_read um)),
     vop_readlink = vopfail_uio_notdir,
     vop_getdirentry = vopfail_uio_notdir,
     vop_write = (\<lambda>um. io_vnode (sfs_write um)),
     vop_ioctl = sfs_ioctl,
     vop_stat = sfs_stat,
     vop_gettype = sfs_gettype,
     vop_isseekable = sfs_isseekable,
     vop_fsync = sfs_fsync,
     vop_mmap = sfs_mmap,
     vop_truncate = sfs_truncate,
     vop_namefile = vopfail_uio_notdir,
     vop_creat = vopfail_creat_notdir,
     vop_symlink = vopfail_symlink_notdir,
     vop_mkdir = vopfail_mkdir_notdir,
     vop_link = vopfail_link_notdir,
     vop_remove = vopfail_string_notdir,
     vop_rmdir = vopfail_string_notdir,
     vop_rename = vopfail_rename_notdir,
     vop_lookup = vopfail_lookup_notdir,
     vop_lookparent = vopfail_lookparent_notdir\<rparr>"

definition sfs_dirops :: "'m vnode_ops" where
  "sfs_dirops = \<lparr>
     vop_eachopen = sfs_eachopendir,
     vop_reclaim = sfs_reclaim,
     vop_read = vopfail_uio_isdir,
     vop_readlink = vopfail_uio_inval,
     vop_getdirentry = vopfail_uio_nosys,
     vop_write = vopfail_uio_isdir,
     vop_ioctl = sfs_ioctl,
     vop_stat = sfs_stat,
     vop_gettype = sfs_gettype,
     vop_isseekable = sfs_isseekable,
     vop_fsync = sfs_fsync,
     vop_mmap = vopfail_mmap_isdir,
     vop_truncate = vopfail_truncate_isdir,
     vop_namefile = (\<lambda>um v u vol m. do { r \<leftarrow> sfs_namefile v u vol; Some (r, vol, m) }),
     vop_creat = (\<lambda>v nm excl mode. sfs_creat v nm excl),
     vop_symlink = vopfail_symlink_nosys,
     vop_mkdir = vopfail_mkdir_nosys,
     vop_link = sfs_link,
     vop_remove = sfs_remove,
     vop_rmdir = vopfail_string_nosys,
     vop_rename = sfs_rename,
     vop_lookup = sfs_lookup,
     vop_lookparent = sfs_lookparent\<rparr>"

text \<open>The table of a vnode. sfs_loadvnode stores the pointer when it loads the inode; since the type of an
  inode never changes, the table is read off the inode here.\<close>

definition vn_ops :: "sfs_vnode \<Rightarrow> 'm vnode_ops option" where
  "vn_ops sv =
     (if sfi_type (sv_i sv) = SFS_TYPE_FILE then Some sfs_fileops
      else if sfi_type (sv_i sv) = SFS_TYPE_DIR then Some sfs_dirops
      else None)"

text \<open>The macro __VOP: check the vnode and fetch the operation.\<close>

definition VOP :: "nat \<Rightarrow> ('m vnode_ops \<Rightarrow> 'f) \<Rightarrow> sfs_vol \<Rightarrow> 'f option" where
  "VOP v sel vol = do {
     vnode_check v vol;
     sv \<leftarrow> vn_get vol v;
     ops \<leftarrow> vn_ops sv;
     Some (sel ops)
   }"

subsection \<open>Types\<close>

lemma vn_ops_ok:
  assumes ok: "vol_ok vol" and p: "held vol v = Some (ino, n)" and n: "n < 2 ^ 31"
  shows "VOP v sel vol = Some (sel (if ino = SFS_ROOTDIR_INO then sfs_dirops else sfs_fileops))"
    "sfs_gettype v vol = Some (if ino = SFS_ROOTDIR_INO then S_IFDIR else S_IFREG)" "0 < n"
proof -
  have inv: "vol_inv (\<lambda>_. 0) vol" using ok by (simp add: vol_ok_def)
  obtain sv where sv: "vn_get vol v = Some sv" "sv_ino sv = ino" "sv_refcount sv = n" using p by (auto simp: held_def)
  have t: "sfi_type (sv_i sv) = (if ino = 1 then SFS_TYPE_DIR else SFS_TYPE_FILE)"
    using vol_get(3) [OF inv sv(1)] sv(2) by (simp add: inode_ok_def)
  show "0 < n" using tab_okD(5) [OF vol_invD(1) [OF inv] sv(1)] sv(3) by simp
  then show "VOP v sel vol = Some (sel (if ino = SFS_ROOTDIR_INO then sfs_dirops else sfs_fileops))"
    using sv t n by (simp add: VOP_def vnode_check_def vn_ops_def)
  show "sfs_gettype v vol = Some (if ino = SFS_ROOTDIR_INO then S_IFDIR else S_IFREG)"
    using sv t by (simp add: sfs_gettype_def)
qed

subsection \<open>Sequences of calls\<close>

text \<open>
  A call on the volume by a holder of references to vnodes: transfers are between a file and a
  kernel buffer, and their result is dropped, as are the results of the other calls.
\<close>

datatype vfs_call = GetRoot | Lookup nat "u8 list" | Lookparent nat "u8 list" nat | Creat nat "u8 list" bool
  | Link nat "u8 list" nat | Remove nat "u8 list" | Rename nat "u8 list" "u8 list"
  | Read nat nat nat | Write nat nat "u8 list" | Truncate nat nat | Fsync nat | Stat nat | Incref nat | Decref nat

definition no_umem :: "unit umem" where
  "no_umem = \<lparr>um_copyin = (\<lambda>_ _ _. None), um_copyout = (\<lambda>_ _ _. None), um_getas = (\<lambda>_. None)\<rparr>"

fun vcall :: "vfs_call \<Rightarrow> sfs_vol \<Rightarrow> sfs_vol option" where
  "vcall GetRoot vol = map_option snd (sfs_getroot vol)"
| "vcall (Lookup v nm) vol = do { f \<leftarrow> VOP v (vop_lookup :: unit vnode_ops \<Rightarrow> _) vol; map_option snd (f v nm vol) }"
| "vcall (Lookparent v path len) vol = do { f \<leftarrow> VOP v (vop_lookparent :: unit vnode_ops \<Rightarrow> _) vol; map_option snd (f v path len vol) }"
| "vcall (Creat v nm excl) vol = do { f \<leftarrow> VOP v (vop_creat :: unit vnode_ops \<Rightarrow> _) vol; map_option snd (f v nm excl 0 vol) }"
| "vcall (Link v nm file) vol = do { f \<leftarrow> VOP v (vop_link :: unit vnode_ops \<Rightarrow> _) vol; map_option snd (f v nm file vol) }"
| "vcall (Remove v nm) vol = do { f \<leftarrow> VOP v (vop_remove :: unit vnode_ops \<Rightarrow> _) vol; map_option snd (f v nm vol) }"
| "vcall (Rename v n1 n2) vol = do { f \<leftarrow> VOP v (vop_rename :: unit vnode_ops \<Rightarrow> _) vol; map_option snd (f v n1 v n2 vol) }"
| "vcall (Read v x n) vol = do {
     f \<leftarrow> VOP v (vop_read :: unit vnode_ops \<Rightarrow> _) vol;
     (_, vol1, _) \<leftarrow> f no_umem v (uio_kinit (replicate n 0) (of_nat n) (int x) UIO_READ) vol ();
     Some vol1 }"
| "vcall (Write v x bs) vol = do {
     f \<leftarrow> VOP v (vop_write :: unit vnode_ops \<Rightarrow> _) vol;
     (_, vol1, _) \<leftarrow> f no_umem v (uio_kinit bs (of_nat (length bs)) (int x) UIO_WRITE) vol ();
     Some vol1 }"
| "vcall (Truncate v len) vol = do { f \<leftarrow> VOP v (vop_truncate :: unit vnode_ops \<Rightarrow> _) vol; map_option snd (f v (int len) vol) }"
| "vcall (Fsync v) vol = do { f \<leftarrow> VOP v (vop_fsync :: unit vnode_ops \<Rightarrow> _) vol; map_option snd (f v vol) }"
| "vcall (Stat v) vol = do { f \<leftarrow> VOP v (vop_stat :: unit vnode_ops \<Rightarrow> _) vol; _ \<leftarrow> f v vol; Some vol }"
| "vcall (Incref v) vol = vnode_incref v vol"
| "vcall (Decref v) vol = vnode_decref v vol"

text \<open>
  The counts of the vnodes in memory fit the int of the code, with room for one more. Every operation adds at
  most one reference to one vnode and gives up the others it takes, so under this condition the number of the
  model is the int of the code.
\<close>

definition refs_fit :: "sfs_vol \<Rightarrow> bool" where
  "refs_fit vol \<longleftrightarrow> (\<forall>x \<in> set (vol_heap vol). case x of Some sv \<Rightarrow> sv_refcount sv < 2 ^ 31 - 1 | None \<Rightarrow> True)"

lemma refs_fitD:
  assumes fit: "refs_fit vol" and h: "held vol v = Some (ino, n)"
  shows "n < 2 ^ 31"
proof -
  obtain sv where sv: "vn_get vol v = Some sv" "n = sv_refcount sv" using h by (auto simp: held_def)
  then have "v < length (vol_heap vol)" "vol_heap vol ! v = Some sv" by (auto simp: vn_get_def arr_get_def split: if_splits)
  then have "Some sv \<in> set (vol_heap vol)" by (metis nth_mem)
  then show ?thesis using fit sv(2) by (fastforce simp: refs_fit_def)
qed

text \<open>What the caller has to see to: it holds the vnodes, names are strings, transfers and lengths are within the
  range of a file offset and of a file.\<close>

definition holds :: "sfs_vol \<Rightarrow> nat \<Rightarrow> bool" where
  "holds vol v \<longleftrightarrow> held vol v \<noteq> None"

fun vcall_ok :: "vfs_call \<Rightarrow> sfs_vol \<Rightarrow> bool" where
  "vcall_ok GetRoot vol \<longleftrightarrow> True"
| "vcall_ok (Lookup v nm) vol \<longleftrightarrow> holds vol v"
| "vcall_ok (Lookparent v path len) vol \<longleftrightarrow> holds vol v"
| "vcall_ok (Creat v nm excl) vol \<longleftrightarrow> holds vol v \<and> 0 \<notin> set nm"
| "vcall_ok (Link v nm file) vol \<longleftrightarrow> holds vol v \<and> holds vol file \<and> 0 \<notin> set nm"
| "vcall_ok (Remove v nm) vol \<longleftrightarrow> holds vol v"
| "vcall_ok (Rename v n1 n2) vol \<longleftrightarrow> holds vol v \<and> 0 \<notin> set n2"
| "vcall_ok (Read v x n) vol \<longleftrightarrow> holds vol v \<and> n < 2 ^ 32"
| "vcall_ok (Write v x bs) vol \<longleftrightarrow> holds vol v \<and> bs \<noteq> [] \<and> x + length bs < 2 ^ 32"
| "vcall_ok (Truncate v len) vol \<longleftrightarrow> holds vol v \<and> len \<le> max_bytes"
| "vcall_ok (Fsync v) vol \<longleftrightarrow> holds vol v"
| "vcall_ok (Stat v) vol \<longleftrightarrow> holds vol v"
| "vcall_ok (Incref v) vol \<longleftrightarrow> holds vol v"
| "vcall_ok (Decref v) vol \<longleftrightarrow> holds vol v"

lemma getroot_ok:
  assumes ok: "vol_ok vol"
  shows "\<exists>r vol'. sfs_getroot vol = Some (r, vol') \<and> vol_ok vol' \<and> names vol' = names vol \<and> file_at vol' = file_at vol \<and>
    (case r of
       Inr p \<Rightarrow> taken vol SFS_ROOTDIR_INO p vol'
     | Inl e \<Rightarrow> held vol' = held vol \<and> e = ENOMEM \<and> False \<in> set (vol_kmem vol))"
proof -
  have inv: "vol_inv (\<lambda>_. 0) vol" using ok by (simp add: vol_ok_def)
  obtain r vol1 where L: "sfs_loadvnode SFS_ROOTDIR_INO SFS_TYPE_INVAL vol = Some (r, vol1)"
      "case r of Inr v \<Rightarrow> grabbed (\<lambda>_. 0) vol 1 v vol1
       | Inl e \<Rightarrow> e = ENOMEM \<and> False \<in> set (vol_kmem vol) \<and> unchanged (\<lambda>_. 0) vol vol1"
    using loadvnode_ok [OF inv nodes_root] by blast
  show ?thesis
  proof (cases r)
    case (Inl e)
    then have "sfs_getroot vol = Some (Inl e, vol1)" using L(1) by (simp add: sfs_getroot_def)
    moreover have "same_view vol vol1" "vol_ok vol1" using unchanged_view L(2) Inl by (auto simp: unchanged_def vol_ok_def)
    ultimately show ?thesis using L(2) Inl by (intro exI [of _ "Inl e"] exI [of _ vol1]) (simp add: same_view_def)
  next
    case (Inr p)
    then have G: "grabbed (\<lambda>_. 0) vol 1 p vol1" using L(2) by simp
    then obtain sv where sv: "vn_get vol1 p = Some sv" "sv_ino sv = 1" and inv1: "vol_inv (\<lambda>_. 0) vol1" by (auto simp: grabbed_def)
    have "sfi_type (sv_i sv) = SFS_TYPE_DIR" using vol_get(3) [OF inv1 sv(1)] sv(2) by (simp add: inode_ok_def)
    then have "sfs_getroot vol = Some (Inr p, vol1)" using L(1) Inr sv(1) by (simp add: sfs_getroot_def)
    then show ?thesis using G grabbed_taken(1) [OF inv G]
      by (intro exI [of _ "Inr p"] exI [of _ vol1]) (simp add: grabbed_def vol_ok_def)
  qed
qed

lemma incref_ok:
  assumes ok: "vol_ok vol" and p: "held vol v = Some (ino, n)"
  shows "\<exists>vol'. vnode_incref v vol = Some vol' \<and> vol_ok vol' \<and> names vol' = names vol \<and> file_at vol' = file_at vol \<and>
    held vol' = (held vol)(v \<mapsto> (ino, n + 1))"
proof -
  have inv: "vol_inv (\<lambda>_. 0) vol" using ok by (simp add: vol_ok_def)
  obtain sv where sv: "vn_get vol v = Some sv" "sv_ino sv = ino" "sv_refcount sv = n" using p by (auto simp: held_def)
  define vol' where "vol' = vn_put v (sv\<lparr>sv_refcount := sv_refcount sv + 1\<rparr>) vol"
  note R = ref_change [OF inv sv(1) refl _ vol'_def]
  have "held vol' = (held vol)(v \<mapsto> (ino, n + 1))" using R(5) sv by (auto simp: held_def fun_eq_iff)
  then show ?thesis using R(1-3) sv(1) by (intro exI [of _ vol']) (simp add: vnode_incref_def vol'_def vol_ok_def)
qed

text \<open>The last reference to a file without names is the end of the file.\<close>

lemma decref_view:
  assumes ok: "vol_ok vol" and p: "held vol v = Some (ino, n)"
  shows "\<exists>vol'. vnode_decref v vol = Some vol' \<and> vol_ok vol' \<and> names vol' = names vol \<and>
    held vol' = (if n = 1 then (held vol)(v := None) else (held vol)(v \<mapsto> (ino, n - 1))) \<and>
    file_at vol' = (if n = 1 \<and> ino \<noteq> SFS_ROOTDIR_INO \<and> ino \<notin> ran (names vol) then (file_at vol)(ino := None) else file_at vol) \<and>
    fs_free (vol_fs vol') = fs_free (vol_fs vol) \<union>
      (if n = 1 \<and> ino \<noteq> SFS_ROOTDIR_INO \<and> ino \<notin> ran (names vol) then inode_blocks vol ino else {})"
proof -
  have inv: "vol_inv (\<lambda>_. 0) vol" using ok by (simp add: vol_ok_def)
  obtain sv where sv: "vn_get vol v = Some sv" "sv_ino sv = ino" "sv_refcount sv = n" using p by (auto simp: held_def)
  obtain vol' where R: "vnode_decref v vol = Some vol'" "released vol v sv vol'" using decref_ok [OF ok sv(1)] by blast
  have "sfi_linkcount (sv_i sv) = 0 \<longleftrightarrow> ino \<noteq> 1 \<and> ino \<notin> ran (names vol)"
  proof (cases "ino = 1")
    case True
    then have "root_node vol = sv" using vol_get(1) [OF inv sv(1)] sv(2) by (simp add: root_node_def)
    then have "sfi_linkcount (sv_i sv) \<noteq> 0" using vol_invD(5) [OF inv] by auto
    then show ?thesis using True by simp
  next
    case False
    then show ?thesis using named_iff [OF ok vol_get(2) [OF inv sv(1)]] sv(2) by simp
  qed
  moreover have "inode_blocks vol ino = node_blocks (vol_fs vol) sv" using vol_get(2) [OF inv sv(1)] sv(2) by (simp add: inode_blocks_def)
  ultimately show ?thesis using R released_held [OF R(2) sv(1)] sv(2,3) by (intro exI [of _ vol']) (simp add: released_def)
qed

lemma vcall_total:
  assumes ok: "vol_ok vol" and fit: "refs_fit vol" and c: "vcall_ok c vol"
  shows "\<exists>vol'. vcall c vol = Some vol' \<and> vol_ok vol'"
proof -
  have S: "\<exists>ino n. held vol v = Some (ino, n)" if "holds vol v" for v using that by (simp add: holds_def)
  have dir: "root_at vol v" if "held vol v = Some (1, n)" for v n using that by (simp add: root_at_def)
  have V: "VOP v sel vol = Some (sel (if ino = SFS_ROOTDIR_INO then sfs_dirops else sfs_fileops))" if "held vol v = Some (ino, n)" for v ino n sel
    by (rule vn_ops_ok(1) [OF ok that refs_fitD [OF fit that]])
  show ?thesis
  proof (cases c)
    case GetRoot
    then show ?thesis using getroot_ok [OF ok] by auto
  next
    case (Lookup v nm)
    then obtain ino n where h: "held vol v = Some (ino, n)" using S [of v] c by auto
    show ?thesis using Lookup ok lookup_ok [OF ok dir, of v n nm] h
      by (cases "ino = 1") (auto simp: V [OF h] sfs_dirops_def sfs_fileops_def vopfail_lookup_notdir_def)
  next
    case (Lookparent v path len)
    then obtain ino n where h: "held vol v = Some (ino, n)" using S [of v] c by auto
    show ?thesis using Lookparent ok lookparent_ok [OF ok h, of path len]
      by (cases "ino = 1") (auto simp: V [OF h] sfs_dirops_def sfs_fileops_def vopfail_lookparent_notdir_def)
  next
    case (Creat v nm excl)
    then obtain ino n where h: "held vol v = Some (ino, n)" using S [of v] c by auto
    show ?thesis using Creat ok creat_ok [OF ok dir, of v n nm excl] h c
      by (cases "ino = 1") (auto simp: V [OF h] sfs_dirops_def sfs_fileops_def vopfail_creat_notdir_def)
  next
    case (Link v nm fv)
    then obtain ino n i k where h: "held vol v = Some (ino, n)" "held vol fv = Some (i, k)" using S [of v] S [of fv] c by auto
    show ?thesis using Link ok link_ok [OF ok dir _ h(2), of v n nm] h(1) c
      by (cases "ino = 1") (auto simp: V [OF h(1)] sfs_dirops_def sfs_fileops_def vopfail_link_notdir_def)
  next
    case (Remove v nm)
    then obtain ino n where h: "held vol v = Some (ino, n)" using S [of v] c by auto
    show ?thesis using Remove ok remove_ok [OF ok dir, of v n nm] h
      by (cases "ino = 1") (auto simp: V [OF h] sfs_dirops_def sfs_fileops_def vopfail_string_notdir_def)
  next
    case (Rename v n1 n2)
    then obtain ino n where h: "held vol v = Some (ino, n)" using S [of v] c by auto
    show ?thesis using Rename ok rename_ok [OF ok dir, of v n n2 n1] h c
      by (cases "ino = 1") (auto simp: V [OF h] sfs_dirops_def sfs_fileops_def vopfail_rename_notdir_def)
  next
    case (Read v x k)
    then obtain ino n where h: "held vol v = Some (ino, n)" using S [of v] c by auto
    show ?thesis using Read ok vol_read_ok [OF ok h, of "replicate k 0" no_umem x "()"] c
      by (cases "ino = 1") (auto simp: V [OF h] sfs_dirops_def sfs_fileops_def vopfail_uio_isdir_def)
  next
    case (Write v x bs)
    then obtain ino n where h: "held vol v = Some (ino, n)" using S [of v] c by auto
    show ?thesis using Write ok vol_write_ok [OF ok h, of bs x no_umem "()"] c
      by (cases "ino = 1") (auto simp: V [OF h] sfs_dirops_def sfs_fileops_def vopfail_uio_isdir_def)
  next
    case (Truncate v len)
    then obtain ino n where h: "held vol v = Some (ino, n)" using S [of v] c by auto
    show ?thesis using Truncate ok vol_trunc_ok [OF ok h, of len] c
      by (cases "ino = 1") (auto simp: V [OF h] sfs_dirops_def sfs_fileops_def vopfail_truncate_isdir_def sfs_truncate_def)
  next
    case (Fsync v)
    then obtain ino n where h: "held vol v = Some (ino, n)" using S [of v] c by auto
    show ?thesis using Fsync vol_fsync_ok [OF ok h]
      by (auto simp: V [OF h] sfs_dirops_def sfs_fileops_def sfs_fsync_def split: if_splits)
  next
    case (Stat v)
    then obtain ino n where h: "held vol v = Some (ino, n)" using S [of v] c by auto
    obtain sv where sv: "vn_get vol v = Some sv" "sv_refcount sv = n" using h by (auto simp: held_def)
    show ?thesis using Stat vn_ops_ok(2,3) [OF ok h refs_fitD [OF fit h]] refs_fitD [OF fit h] ok sv
      by (auto simp: V [OF h] sfs_dirops_def sfs_fileops_def sfs_stat_def vnode_check_def)
  next
    case (Incref v)
    then obtain ino n where h: "held vol v = Some (ino, n)" using S [of v] c by auto
    show ?thesis using Incref incref_ok [OF ok h] by auto
  next
    case (Decref v)
    then obtain ino n where h: "held vol v = Some (ino, n)" using S [of v] c by auto
    show ?thesis using Decref decref_view [OF ok h] by auto
  qed
qed

text \<open>The states that a sequence of such calls leads to.\<close>

inductive vcalls :: "sfs_vol \<Rightarrow> sfs_vol \<Rightarrow> bool" for vol where
  start: "vcalls vol vol"
| step: "vcalls vol vol1 \<Longrightarrow> refs_fit vol1 \<Longrightarrow> vcall_ok c vol1 \<Longrightarrow> vcall c vol1 = Some vol2 \<Longrightarrow> vcalls vol vol2"

lemma vcalls_ok: "vcalls vol vol' \<Longrightarrow> vol_ok vol \<Longrightarrow> vol_ok vol'"
proof (induction rule: vcalls.induct)
  case (step vol1 c vol2)
  then show ?case using vcall_total [of vol1 c] by auto
qed

text \<open>
  C36: a reference is given up with exactly this effect: the count goes down by one, the last reference takes the
  vnode out of memory, and a file that has lost its last name is erased then and not before: exactly then its inode
  block and all its data blocks become free, and otherwise no block does. The call never halts, whether or not the
  vnode's inode has to be written back.
\<close>

theorem vnode_decref_refines:
  assumes "vol_ok vol" "held vol v = Some (ino, n)"
  shows "\<exists>vol'. vnode_decref v vol = Some vol' \<and> vol_ok vol' \<and> names vol' = names vol \<and>
    held vol' = (if n = 1 then (held vol)(v := None) else (held vol)(v \<mapsto> (ino, n - 1))) \<and>
    file_at vol' = (if n = 1 \<and> ino \<noteq> SFS_ROOTDIR_INO \<and> ino \<notin> ran (names vol) then (file_at vol)(ino := None) else file_at vol) \<and>
    fs_free (vol_fs vol') = fs_free (vol_fs vol) \<union>
      (if n = 1 \<and> ino \<noteq> SFS_ROOTDIR_INO \<and> ino \<notin> ran (names vol) then inode_blocks vol ino else {})"
  by (rule decref_view [OF assms])

theorem vnode_decref_refines_witness:
  "\<exists>vol'. vnode_decref 1 demo_vol = Some vol' \<and> vol_ok vol' \<and> names vol' = names demo_vol \<and>
    held vol' = (if (1 :: nat) = 1 then (held demo_vol)(1 := None) else (held demo_vol)(1 \<mapsto> (2, 1 - 1))) \<and>
    file_at vol' = (if (1 :: nat) = 1 \<and> 2 \<noteq> SFS_ROOTDIR_INO \<and> 2 \<notin> ran (names demo_vol) then (file_at demo_vol)(2 := None) else file_at demo_vol) \<and>
    fs_free (vol_fs vol') = fs_free (vol_fs demo_vol) \<union>
      (if (1 :: nat) = 1 \<and> 2 \<noteq> SFS_ROOTDIR_INO \<and> 2 \<notin> ran (names demo_vol) then inode_blocks demo_vol 2 else {})"
  by (rule vnode_decref_refines [OF demo_vol_ok(1,3)])

text \<open>
  C31: whatever sequence of calls the holders of vnodes make on a volume - looking up, creating, linking, removing,
  renaming, reading, writing, truncating, syncing, taking and giving up references - the volume stays consistent, and
  the next call returns: no KASSERT, panic or access out of bounds is ever reached. The callers see to this
  (vcall_ok, refs_fit): they hold the vnodes they name, names contain no NUL byte, a transfer ends below
  2^32, a truncation asks for at most max_bytes = 73216 bytes, and no vnode has 2^31-1 references or more.
\<close>

theorem volume_calls_never_halt:
  assumes "vol_ok vol" "vcalls vol vol'" "refs_fit vol'" "vcall_ok c vol'"
  shows "vol_ok vol' \<and> (\<exists>vol''. vcall c vol' = Some vol'' \<and> vcalls vol vol'' \<and> vol_ok vol'')"
proof -
  have ok: "vol_ok vol'" by (rule vcalls_ok [OF assms(2,1)])
  obtain vol'' where "vcall c vol' = Some vol''" "vol_ok vol''" using vcall_total [OF ok assms(3,4)] by blast
  then show ?thesis using ok vcalls.step [OF assms(2,3,4)] by blast
qed

theorem volume_calls_never_halt_witness:
  "vol_ok demo_vol \<and> (\<exists>vol''. vcall (Creat 0 [97] True) demo_vol = Some vol'' \<and> vcalls demo_vol vol'' \<and> vol_ok vol'')"
  by (rule volume_calls_never_halt [OF demo_vol_ok(1) vcalls.start]) (use demo_vol_ok(2) in \<open>simp_all add: holds_def refs_fit_def demo_vol_def demo_root_def demo_open_def\<close>)

end
