(* ===== verification/Spec2Isabelle.thy ===== *)
theory Spec2Isabelle
  imports Kprelude Coremap Kpages Kmalloc Vmstats Tlb Pagetable Swap Addrspace Usermem Vm Vminv Paging Loadelf Program
    Bitmap Uio Bytes Lhd Sfs Sfsmap Sfsio Sfstrunc Sfsexec Sfsdir Karray Sfsfiles Sfsnode Sfsload Sfsreclaim Sfsvnops Sfsfile
    Vnodeops
begin

text \<open>
  OS/161 with demand paging: a model of the kernel under src/kern in the configuration FINAL
  (options coremap, pt, swap, ondemand and tlb), translated from its C sources, with the
  theorems that make its parts correct.

  Conventions. A C function is a definition with the function's name; the state it reads and
  changes is an argument and part of the result. The outer type option is None when the kernel
  halts: a panic, a failed KASSERT, an access outside an array or through NULL. An error number
  returned by the function is a value (Some e of type status, or Inl e of a sum). Machine
  integers are words of their width, so that addition wraps where the C code wraps; off_t and
  loop counters that cannot wrap are int and nat. Pointers to address spaces are numbers,
  lists linked through next pointers are lists. An operation under a spinlock or under the VFS
  big lock, or with interrupts off, is one step. Assembly and C code outside src/kern is not
  modelled; the processor's TLB is, as the registers document it.

  Memory management, the program's own contribution:
  \<^item> Kprelude: errors, KASSERT, checked array access, page arithmetic on 32-bit words.
  \<^item> Coremap (vm/coremap.c): the table of physical frames, its two bootstraps, first-fit
    allocation of kernel blocks, one frame for a page, FIFO eviction, release. Refines a map
    from frames to owners (locale and step relation in the theory).
  \<^item> Kpages (arch/mips/vm/ram.c and the page allocator of vm/vm.c) and Kmalloc
    (vm/kmalloc.c): stealing memory at boot, kernel pages, and the kernel heap with its page
    references, free lists and block sizes. The theorems say that blocks never overlap and
    that freeing restores what was there, from the first allocation at boot on.
  \<^item> Tlb (vm/tlb.c, as_activate of vm/addrspace.c) and Vmstats (vm/vm_stats.c).
  \<^item> Pagetable (vm/pt.c, vm/segment.c), Addrspace (vm/addrspace.c), Swap (vm/swap.c).
  \<^item> Usermem (vm/copyinout.c, the TLB exceptions of mips_trap and the processor's access to user
    memory): a load or store that misses the TLB, or finds the page without the dirty bit, calls
    the fault handler with the type of the trap and is executed again, as often as it traps
    (access, a partial_function: no result when that never ends or a handler halts).
  \<^item> Vm (vm/vm.c and load_page_from_elf of syscall/loadelf.c): the page fault handler. It calls
    itself through the copies to and from user memory that swapping and loading make. The
    handler is a parameter of these copies, and vm_fault is indexed by the depth of nested
    faults: depth 2 is enough, and every larger depth gives the same result
    (Paging.vm_fault_depth_two). The swap file and the executable are files of other parts;
    vs_swap_io and vs_elf_io say which of their transfers fail. A failing swap transfer halts
    the kernel; a failing read of the executable is not looked at by the handler, and the process gets
    a page of zeros. The handler does not look at p_filesz either.
  \<^item> Vminv and Paging: the invariant that ties coremap, page tables, TLB, swap space and memory
    together, and the main theorem: a process that runs on this machinery sees a flat byte
    memory (Paging.paging_refines_flat_memory).

  \<^item> Loadelf (load_elf of syscall/loadelf.c, over any file system that reads as the locale
    file_reader says; its errors for any reader) and Program (syscall/runprogram.c, and the accessors of proc/proc.c).

  Storage, which the swap file and the executables rest on:
  \<^item> Bitmap (lib/bitmap.c), Uio (lib/uio.c), Bytes (big-endian words in blocks).
  \<^item> Lhd (dev/lamebus/lhd.c): the disk driver. The device is a list of sectors and of the status
    values that coming interrupts will show.
  \<^item> Sfs (fs/sfs/sfs_io.c, sfs_balloc.c, sfs_bmap.c): block I/O with up to ten retries, block
    allocation, the block map of a file with 15 direct blocks and one indirect block.
  \<^item> Sfsmap: what these guarantee on a disk without errors, for a file as a table of blocks.
  \<^item> Sfsio (fs/sfs/sfs_io.c, sfs_vnops.c): reading and writing, refining an array of bytes. The
    theorems are about volumes of at most 2^23 blocks: sfs_blockio multiplies a block number
    by 512 in 32 bits.
  \<^item> Sfstrunc: truncation.
  \<^item> Sfsdir (fs/sfs/sfs_dir.c): a directory as a map from names to inode numbers. Karray
    (lib/array.c, include/array.h): the array that holds the vnodes in memory.
  \<^item> Sfsfiles, Sfsnode, Sfsload, Sfsreclaim (fs/sfs/sfs_inode.c, vfs/vnode.c): the vnodes of a
    volume. A vnode has an address, None once freed; the volume is seen as a map from names to
    inode numbers (names), a map from inode numbers to files (file_at) and the references to the
    vnodes in memory (held). The invariant vol_ok ties link counts to names, keeps the blocks of
    files apart and the vnodes in memory in step with the disk, and says that no block is lost:
    one in use is the system's, an inode's own or a data block of an inode that has a name
    or is in memory (no_leak). Erasing a file is exact: its blocks become free, and no other.
  \<^item> Sfsvnops (the directory operations of fs/sfs/sfs_vnops.c): creating, linking, removing,
    renaming and looking up are updates of these maps and fail only for the reasons listed.
    Sfsfile: transfers through a vnode. Vnodeops (the tables of sfs_vnops.c, vfs/vfsfail.c, the
    VOP macros): any sequence of calls on vnodes that are held keeps the volume consistent and
    never halts. The reference count is an int in C and a nat here: vnode_check panics from 2^31
    on, where the int would be negative, and the sequences keep below 2^31-1 references. kmalloc may fail at any point (kmem lists its answers); the disk has no errors.
  \<^item> Sfsexec: the read operation of SFS is what the loader relies on, and the theorem from the
    executable on the disk to the memory of the running process (runprogram_starts), for
    executables that the pager loads as they are meant: no BSS past p_filesz, no segment
    shorter than a page over a page boundary (Paging.loader_tiles_iff).

  Locales state what a client relies on: the uio stream that the disk and the file system
  move bytes through, the set that a bitmap implements, the owner map behind the coremap, the
  slots of the swap space. Each is interpreted on the code's own definitions.

  Not modelled: threads, scheduling and the semaphores (an operation is one step); console,
  timer and the other devices, the emulator and semaphore file systems, the boot menu and the
  test code; printing. Reasons are listed with the components.
\<close>

end
